(* ===== verification/Zebra_Prelude.thy ===== *)
theory Zebra_Prelude
  imports Main "HOL-Library.Word"
begin

text \<open>
  Shared vocabulary of the development: the machine types of the C sources, the collections of
  facts the component proofs draw on, and generic lemmas on words, lists and options.

  \<^item> \<open>zint\<close> is the 64 bit signed integer of \<^verbatim>\<open>include/idzebra/util.h\<close> (\<^verbatim>\<open>long long int\<close>): a
    \<^typ>\<open>64 word\<close> read with \<^const>\<open>sint\<close> and compared with the signed order.
  \<^item> \<open>byte\<close> is an \<^verbatim>\<open>unsigned char\<close>.
\<close>

unbundle bit_operations_syntax

type_synonym byte = "8 word"
type_synonym zint = "64 word"

named_theorems codec_simps \<open>facts about the integer codecs\<close>
named_theorems rset_laws \<open>facts about reading result sets\<close>
named_theorems file_simps \<open>facts about byte files and block files\<close>

text \<open>The result of a computation on C's \<^verbatim>\<open>int\<close>: signed overflow is undefined, here \<open>None\<close>.\<close>

definition c_int :: "int \<Rightarrow> int option" where
  "c_int x = (if - (2 ^ 31) \<le> x \<and> x < 2 ^ 31 then Some x else None)"

section \<open>Words\<close>

lemma sless_iff_sint: "a <s b \<longleftrightarrow> sint a < sint b"
  by (simp add: word_sless_alt)

lemma sint_eq_iff: "sint a = sint b \<longleftrightarrow> a = b"
  by (auto dest: signed_word_eqI)

lemma sint_nonneg_uint:
  fixes w :: zint
  assumes "0 \<le> sint w"
  shows "uint w = sint w"
proof -
  have "sint w < 2 ^ 63" using sint_lt [of w] by simp
  with assms show ?thesis by (simp add: uint_sint take_bit_int_eq_self)
qed

lemma sint_nonneg_bound: "sint (w :: zint) < 2 ^ 63"
  using sint_lt [of w] by simp

lemma signed_drop_bit_nonneg:
  fixes w :: zint
  assumes "0 \<le> sint w"
  shows "signed_drop_bit n w = drop_bit n w"
proof -
  have "0 \<le> sint (signed_drop_bit n w)"
    using assms by (simp add: sint_signed_drop_bit_eq)
  then have "uint (signed_drop_bit n w) = drop_bit n (sint w)"
    using sint_nonneg_uint [of "signed_drop_bit n w"] by (simp add: sint_signed_drop_bit_eq)
  also have "\<dots> = uint (drop_bit n w)"
    using sint_nonneg_uint [OF assms] assms sint_nonneg_bound [of w]
    by (simp add: unsigned_drop_bit_eq take_bit_int_eq_self)
  finally show ?thesis by (simp add: word_uint_eq_iff)
qed

lemma drop_bit_take_bit_sum: "(w AND mask n) + push_bit n (drop_bit n w) = (w :: 'a::len word)"
  by (metis add.commute bits_ident take_bit_eq_mask)

text \<open>Replacing an element by one with the same image.\<close>

lemma map_update_same: "f x = f (xs ! i) \<Longrightarrow> map f (xs[i := x]) = map f xs"
  by (cases "i < length xs") (simp_all add: map_update list_update_same_conv list_update_beyond)

text \<open>Integers that fit survive the way through a word.\<close>

lemma sint_word32: "- (2 ^ 31) \<le> k \<Longrightarrow> k < 2 ^ 31 \<Longrightarrow> sint (word_of_int k :: 32 word) = k"
  by (simp add: sint_sbintrunc' signed_take_bit_int_eq_self)

lemma sint_word64: "- (2 ^ 63) \<le> k \<Longrightarrow> k < 2 ^ 63 \<Longrightarrow> sint (word_of_int k :: 64 word) = k"
  by (simp add: sint_sbintrunc' signed_take_bit_int_eq_self)

lemma uint_word64: "0 \<le> k \<Longrightarrow> k < 2 ^ 64 \<Longrightarrow> uint (word_of_int k :: 64 word) = k"
  by (simp add: uint_word_of_int)

end
