(* ===== verification/Zint_Codec.thy ===== *)
theory Zint_Codec
  imports Zebra_Prelude
begin

text \<open>
  The variable-length integer codec of \<^verbatim>\<open>util/zint.c\<close> and its private copy in
  \<^verbatim>\<open>util/it_key.c\<close>: seven bits per byte, least significant group first, the top bit set on every
  byte but the last. The C functions advance a cursor into a buffer: the encoder here returns the
  bytes it appends, the decoder takes the bytes from its cursor on and returns the value and the
  bytes left. Reading past the end of the buffer and a shift by 64 or more, both undefined in C,
  are \<open>None\<close>.
\<close>

section \<open>Operations\<close>

function zebra_zint_encode :: "zint \<Rightarrow> byte list" where
  "zebra_zint_encode pos =
     (if 127 <s pos
      then ucast (128 OR (pos AND 127)) # zebra_zint_encode (signed_drop_bit 7 pos)
      else [ucast pos])"
  by pat_completeness auto
termination
  by (relation "measure (\<lambda>w. nat (sint w))")
     (auto simp: sless_iff_sint sint_signed_drop_bit_eq drop_bit_eq_div)

declare zebra_zint_encode.simps [simp del]

fun zint_decode_loop :: "zint \<Rightarrow> nat \<Rightarrow> byte list \<Rightarrow> (zint \<times> byte list) option" where
  "zint_decode_loop d r [] = None"
| "zint_decode_loop d r (c # src) =
     (if 64 \<le> r then None
      else if c AND 128 \<noteq> 0
      then zint_decode_loop (d + push_bit r (ucast (c AND 127))) (r + 7) src
      else Some (d + push_bit r (ucast c), src))"

definition zebra_zint_decode :: "byte list \<Rightarrow> (zint \<times> byte list) option" where
  "zebra_zint_decode src = zint_decode_loop 0 0 src"

section \<open>Lemmas\<close>

lemma low_group_mask: "(127 :: 'a::len word) = mask 7"
  by (simp add: mask_eq_exp_minus_1)

lemma top_bit_byte: "(c :: byte) AND 128 \<noteq> 0 \<longleftrightarrow> bit c 7"
proof -
  have "(c AND 2 ^ 7 \<noteq> 0) = bit c 7"
    by (metis and_exp_eq_0_iff_not_bit)
  then show ?thesis by simp
qed

lemma group_top_bit [codec_simps]: "(ucast (128 OR ((w::zint) AND 127)) :: byte) AND 128 \<noteq> 0"
proof -
  have "bit (128 :: zint) 7" by simp
  then show ?thesis by (simp only: top_bit_byte) (simp add: bit_simps)
qed

lemma group_payload [codec_simps]:
  "ucast ((ucast (128 OR ((w::zint) AND 127)) :: byte) AND 127) = w AND 127"
proof (rule bit_word_eqI)
  fix n
  assume "n < LENGTH(64)"
  have "bit (128 :: zint) n \<longleftrightarrow> n = 7"
    using bit_exp_iff [of 7 n, where 'a = zint] by (auto simp: possible_bit_def)
  then show "bit (ucast ((ucast (128 OR (w AND 127)) :: byte) AND 127) :: zint) n =
      bit (w AND 127) n"
    unfolding low_group_mask by (auto simp: bit_simps)
qed

lemma small_byte:
  fixes w :: zint
  assumes "0 \<le> sint w" and "\<not> 127 <s w"
  shows "(ucast w :: byte) AND 128 = 0" and "ucast (ucast w :: byte) = w"
proof -
  have "uint w \<le> 127" using assms sint_nonneg_uint by (simp add: sless_iff_sint)
  then have w: "take_bit 7 (uint w) = uint w" by (simp add: take_bit_int_eq_self)
  then have b: "n < 7" if "bit w n" for n
  proof -
    have "bit (take_bit 7 (uint w)) n"
      using that w bit_imp_le_length [OF that] by (simp add: bit_uint_iff)
    then show ?thesis by (simp only: bit_take_bit_iff)
  qed
  then show "(ucast w :: byte) AND 128 = 0"
    using top_bit_byte [of "ucast w"] by (auto simp: bit_simps)
  show "ucast (ucast w :: byte) = w"
    by (rule bit_word_eqI) (use b in \<open>force simp: bit_simps\<close>)
qed

lemma zint_decode_encode_loop:
  assumes "0 \<le> sint w" and "sint w < 2 ^ (63 - r)" and "r \<le> 63"
  shows "zint_decode_loop d r (zebra_zint_encode w @ rest) = Some (d + push_bit r w, rest)"
  using assms
proof (induction w arbitrary: d r rule: zebra_zint_encode.induct)
  case (1 w)
  show ?case
  proof (cases "127 <s w")
    case True
    let ?v = "signed_drop_bit 7 w"
    have v: "sint ?v = sint w div 128"
      by (simp add: sint_signed_drop_bit_eq drop_bit_eq_div)
    have big: "127 < sint w" using True by (simp add: sless_iff_sint)
    have r: "r < 56"
    proof (rule ccontr)
      assume "\<not> r < 56"
      then have "(2::int) ^ (63 - r) \<le> 2 ^ 7" by (intro power_increasing) auto
      with "1.prems"(2) big show False by simp
    qed
    have "(2::int) ^ (63 - r) = 2 ^ (63 - (r + 7)) * 128"
      using r by (simp add: power_add [symmetric] flip: power_add [of "2::int" _ 7, simplified])
    then have vb: "sint ?v < 2 ^ (63 - (r + 7))"
      using "1.prems"(2) v by (simp add: div_less_iff_less_mult)
    have "zint_decode_loop (d + push_bit r (w AND 127)) (r + 7) (zebra_zint_encode ?v @ rest) =
        Some (d + push_bit r (w AND 127) + push_bit (r + 7) ?v, rest)"
      using "1.IH" [OF True, of "r + 7" "d + push_bit r (w AND 127)"] vb v "1.prems"(1) r by simp
    moreover have "push_bit r (w AND 127) + push_bit (r + 7) ?v = push_bit r w"
    proof -
      have "push_bit (r + 7) ?v = push_bit r (push_bit 7 (drop_bit 7 w))"
        using signed_drop_bit_nonneg [OF "1.prems"(1)] by simp
      then show ?thesis
        by (simp only: low_group_mask push_bit_add [symmetric] drop_bit_take_bit_sum)
    qed
    ultimately show ?thesis
      using True r by (simp add: zebra_zint_encode.simps [of w] codec_simps add.assoc)
  next
    case False
    with small_byte [OF "1.prems"(1) False] "1.prems"(3) show ?thesis
      by (simp add: zebra_zint_encode.simps [of w])
  qed
qed

lemma zint_decode_loop_length:
  "zint_decode_loop d r src = Some (v, rest) \<Longrightarrow> length rest < length src"
  by (induction d r src rule: zint_decode_loop.induct) (auto split: if_splits)

lemma zebra_zint_encode_small: "\<not> 127 <s w \<Longrightarrow> zebra_zint_encode w = [ucast w]"
  by (simp add: zebra_zint_encode.simps [of w])

lemma zint_encode_length:
  assumes "0 \<le> sint w" and "sint w < 128 ^ n" and "0 < n"
  shows "length (zebra_zint_encode w) \<le> n"
  using assms
proof (induction w arbitrary: n rule: zebra_zint_encode.induct)
  case (1 w)
  show ?case
  proof (cases "127 <s w")
    case True
    let ?v = "signed_drop_bit 7 w"
    have v: "sint ?v = sint w div 128"
      by (simp add: sint_signed_drop_bit_eq drop_bit_eq_div)
    have big: "127 < sint w" using True by (simp add: sless_iff_sint)
    obtain m where n: "n = Suc m" using "1.prems"(3) by (cases n) auto
    have m: "0 < m" using "1.prems"(2) n big by (cases m) auto
    have "length (zebra_zint_encode ?v) \<le> m"
      using "1.IH" [OF True, of m] v "1.prems" n m by (simp add: div_less_iff_less_mult mult.commute)
    then show ?thesis using True n by (simp add: zebra_zint_encode.simps [of w])
  next
    case False
    with "1.prems"(3) show ?thesis by (simp add: zebra_zint_encode_small)
  qed
qed

section \<open>Properties\<close>

text \<open>C24: decoding what \<^verbatim>\<open>zebra_zint_encode\<close> wrote returns the integer and leaves the cursor right
  behind it, whatever follows, exactly for the non-negative integers: a negative one is written as a
  single byte and is never read back.\<close>

theorem zint_roundtrip_iff:
  "zebra_zint_decode (zebra_zint_encode w @ rest) = Some (w, rest) \<longleftrightarrow> 0 \<le> sint w"
proof
  assume "0 \<le> sint w"
  then show "zebra_zint_decode (zebra_zint_encode w @ rest) = Some (w, rest)"
    using zint_decode_encode_loop [of w 0 0 rest] sint_nonneg_bound [of w]
    by (simp add: zebra_zint_decode_def)
next
  assume dec: "zebra_zint_decode (zebra_zint_encode w @ rest) = Some (w, rest)"
  show "0 \<le> sint w"
  proof (rule ccontr)
    assume neg: "\<not> 0 \<le> sint w"
    then have e: "zebra_zint_encode w = [ucast w]"
      by (simp add: zebra_zint_encode_small sless_iff_sint)
    show False
    proof (cases "(ucast w :: byte) AND 128 = 0")
      case True
      with dec e have "ucast (ucast w :: byte) = w" by (simp add: zebra_zint_decode_def)
      then have "bit w 63 = bit (ucast (ucast w :: byte) :: zint) 63" by simp
      also have "\<dots> = False" by (simp add: bit_simps)
      finally show False using neg bit_last_iff [of w] by simp
    next
      case False
      with dec e have "zint_decode_loop (push_bit 0 (ucast ((ucast w :: byte) AND 127))) 7 rest = Some (w, rest)"
        by (simp add: zebra_zint_decode_def)
      from zint_decode_loop_length [OF this] show False by simp
    qed
  qed
qed

text \<open>C25: the encoding of a non-negative integer takes at most nine bytes.\<close>

theorem zint_encode_at_most_9:
  "0 \<le> sint w \<Longrightarrow> length (zebra_zint_encode w) \<le> 9"
  using zint_encode_length [of w 9] sint_nonneg_bound [of w] by simp

theorem zint_encode_at_most_9_witness:
  "0 \<le> sint (300 :: zint) \<and> length (zebra_zint_encode 300) \<le> 9"
  using zint_encode_at_most_9 [of 300] by simp

end
