(* ===== verification/Key_Order.thy ===== *)
theory Key_Order
  imports Zebra_Prelude
begin

text \<open>
  The contract of a key comparison (\<^verbatim>\<open>cmp\<close> of \<^verbatim>\<open>struct rset_key_control\<close>, \<^verbatim>\<open>include/rset.h\<close>). The
  result of \<^verbatim>\<open>cmp(a, b)\<close> is not only an order: its magnitude says at which level the keys part, and a
  result set of scope \<open>s\<close> takes two keys for the same record when the magnitude is below \<open>s\<close>. What
  the result sets rely on is that \<open>cmp\<close> is antisymmetric and that along \<open>a \<le> b \<le> c\<close> the keys \<open>a\<close> and
  \<open>c\<close> part at the coarser of the two levels. The client lemmas below are proved once from these laws.
\<close>

lemma scope_trichotomy: "c \<le> - s \<or> s \<le> c \<or> \<bar>c\<bar> < (s::int)"
  by linarith

locale key_cmp_order =
  fixes ok :: "'k \<Rightarrow> bool"
    and cmp :: "'k \<Rightarrow> 'k \<Rightarrow> int"
  assumes anti: "ok a \<Longrightarrow> ok b \<Longrightarrow> cmp b a = - cmp a b"
    and ultra: "ok a \<Longrightarrow> ok b \<Longrightarrow> ok c \<Longrightarrow> cmp a b \<le> 0 \<Longrightarrow> cmp b c \<le> 0 \<Longrightarrow>
      cmp a c = min (cmp a b) (cmp b c)"
begin

lemma cmp_refl: "ok a \<Longrightarrow> cmp a a = 0"
  using anti [of a a] by simp

lemma le_trans: "ok a \<Longrightarrow> ok b \<Longrightarrow> ok c \<Longrightarrow> cmp a b \<le> 0 \<Longrightarrow> cmp b c \<le> 0 \<Longrightarrow> cmp a c \<le> 0"
  using ultra [of a b c] by simp

lemma le_before:
  "ok a \<Longrightarrow> ok b \<Longrightarrow> ok c \<Longrightarrow> 0 \<le> s \<Longrightarrow> cmp a b \<le> 0 \<Longrightarrow> cmp b c \<le> - s \<Longrightarrow> cmp a c \<le> - s"
  using ultra [of a b c] by simp

lemma before_le:
  "ok a \<Longrightarrow> ok b \<Longrightarrow> ok c \<Longrightarrow> 0 \<le> s \<Longrightarrow> cmp a b \<le> - s \<Longrightarrow> cmp b c \<le> 0 \<Longrightarrow> cmp a c \<le> - s"
  using ultra [of a b c] by simp

lemma before_same:
  assumes ok: "ok a" "ok b" "ok c" and s: "0 < s"
    and ab: "cmp a b \<le> - s" and bc: "\<bar>cmp b c\<bar> < s"
  shows "cmp a c \<le> - s"
proof (cases "cmp b c \<le> 0")
  case True
  with ok s ab show ?thesis using before_le [of a b c s] by simp
next
  case False
  then have cb: "cmp c b \<le> 0" using anti [of b c] ok by simp
  show ?thesis
  proof (cases "cmp a c \<le> 0")
    case True
    from ultra [of a c b, OF ok(1,3,2) True cb] ab bc anti [of b c] ok s show ?thesis by auto
  next
    case False
    then have "cmp c a \<le> 0" using anti [of a c] ok by simp
    from ultra [of c a b, OF ok(3,1,2) this] ab bc anti [of b c] ok s show ?thesis by auto
  qed
qed

lemma same_before:
  assumes ok: "ok a" "ok b" "ok c" and s: "0 < s"
    and ab: "\<bar>cmp a b\<bar> < s" and bc: "cmp b c \<le> - s"
  shows "cmp a c \<le> - s"
proof (cases "cmp a b \<le> 0")
  case True
  with ok s bc show ?thesis using le_before [of a b c s] by simp
next
  case False
  then have ba: "cmp b a \<le> 0" using anti [of a b] ok by simp
  show ?thesis
  proof (cases "cmp a c \<le> 0")
    case True
    from ultra [of b a c, OF ok(2,1,3) ba True] ab bc anti [of a b] ok s show ?thesis by auto
  next
    case False
    then have "cmp c a \<le> 0" using anti [of a c] ok by simp
    from ultra [of b c a, OF ok(2,3,1) _ this] ab bc anti [of a b] ok s show ?thesis by auto
  qed
qed

lemma same_sym: "ok a \<Longrightarrow> ok b \<Longrightarrow> \<bar>cmp a b\<bar> < s \<Longrightarrow> \<bar>cmp b a\<bar> < s"
  using anti [of a b] by simp

lemma same_trans:
  assumes ok: "ok a" "ok b" "ok c" and "\<bar>cmp a b\<bar> < s" and "\<bar>cmp b c\<bar> < s"
  shows "\<bar>cmp a c\<bar> < s"
proof (rule ccontr)
  assume n: "\<not> \<bar>cmp a c\<bar> < s"
  have s: "0 < s" using assms(4) by simp
  show False
  proof (cases "cmp a c \<le> - s")
    case True
    have "cmp b c \<le> - s"
      using same_before [of b a c s] same_sym [of a b s] assms s True by simp
    with assms(5) s show False by simp
  next
    case False
    with n s have "cmp c a \<le> - s" using anti [of a c] ok by simp
    then have "cmp b a \<le> - s"
      using same_before [of b c a s] assms s by simp
    with assms(4) anti [of a b] ok s show False by simp
  qed
qed

end

end
