(* ===== verification/It_Key.thy ===== *)
theory It_Key
  imports Zint_Codec Key_Order
begin

text \<open>
  Index keys and their codec (\<^verbatim>\<open>util/it_key.c\<close>, \<^verbatim>\<open>include/it_key.h\<close>). A key has up to
  \<^verbatim>\<open>IT_KEY_LEVEL_MAX\<close> = 5 components, the most significant first; \<open>key_compare\<close> answers not only the
  order but at which level two keys part. The codec writes a key as a leader byte (the level where it
  departs from the previous key, its length, and whether that level is a delta), then the remaining
  components. A failing \<^verbatim>\<open>assert\<close>, a read past the input and an access past \<^verbatim>\<open>mem\<close> are \<open>None\<close>.
\<close>

section \<open>Data and operations\<close>

definition IT_KEY_LEVEL_MAX :: nat where
  "IT_KEY_LEVEL_MAX = 5"

record it_key =
  key_len :: int
  key_mem :: "zint list"

definition key_init :: it_key where
  "key_init = \<lparr>key_len = 0, key_mem = replicate IT_KEY_LEVEL_MAX 0\<rparr>"

function key_compare_loop :: "zint list \<Rightarrow> zint list \<Rightarrow> nat \<Rightarrow> nat \<Rightarrow> int" where
  "key_compare_loop m1 m2 l i =
     (if i < l then
        (if m1 ! i \<noteq> m2 ! i
         then (if m2 ! i <s m1 ! i then int l - int i else int i - int l)
         else key_compare_loop m1 m2 l (Suc i))
      else 0)"
  by pat_completeness auto
termination
  by (relation "measure (\<lambda>(m1, m2, l, i). l - i)") auto

declare key_compare_loop.simps [simp del]

definition key_compare :: "it_key \<Rightarrow> it_key \<Rightarrow> int option" where
  "key_compare i1 i2 =
     (let l = (if key_len i1 < key_len i2 then key_len i2 else key_len i1)
      in if l \<le> int IT_KEY_LEVEL_MAX \<and> 0 < l
         then Some (key_compare_loop (key_mem i1) (key_mem i2) (nat l) 0)
         else None)"

definition key_get_seq :: "it_key \<Rightarrow> zint option" where
  "key_get_seq k = (if 1 \<le> key_len k \<and> nat (key_len k - 1) < length (key_mem k)
                    then Some (key_mem k ! nat (key_len k - 1)) else None)"

definition key_get_segment :: "it_key \<Rightarrow> zint option" where
  "key_get_segment k = (if 2 \<le> key_len k \<and> nat (key_len k - 2) < length (key_mem k)
                        then Some (key_mem k ! nat (key_len k - 2)) else None)"

text \<open>The codec state \<^verbatim>\<open>struct iscz1_code_info\<close> holds the previous key.\<close>

definition iscz1_reset :: it_key where
  "iscz1_reset = \<lparr>key_len = 0, key_mem = replicate IT_KEY_LEVEL_MAX 0\<rparr>"

function iscz1_encode_int :: "zint \<Rightarrow> byte list" where
  "iscz1_encode_int d =
     (if 127 <s d
      then ucast (128 OR (d AND 127)) # iscz1_encode_int (signed_drop_bit 7 d)
      else [ucast d])"
  by pat_completeness auto
termination
  by (relation "measure (\<lambda>w. nat (sint w))")
     (auto simp: sless_iff_sint sint_signed_drop_bit_eq drop_bit_eq_div)

declare iscz1_encode_int.simps [simp del]

fun iscz1_decode_int_loop :: "zint \<Rightarrow> nat \<Rightarrow> byte list \<Rightarrow> (zint \<times> byte list) option" where
  "iscz1_decode_int_loop d r [] = None"
| "iscz1_decode_int_loop d r (c # src) =
     (if 64 \<le> r then None
      else if c AND 128 \<noteq> 0
      then iscz1_decode_int_loop (d + push_bit r (ucast (c AND 127))) (r + 7) src
      else Some (d + push_bit r (ucast c), src))"

definition iscz1_decode_int :: "byte list \<Rightarrow> (zint \<times> byte list) option" where
  "iscz1_decode_int src = iscz1_decode_int_loop 0 0 src"

text \<open>The first loop of \<^verbatim>\<open>iscz1_encode\<close>: find the level where the key departs from the previous one,
  and write the leader and, when it grew, the delta. It returns the level to go on from.\<close>

function iscz1_encode_leader :: "zint list \<Rightarrow> zint list \<Rightarrow> nat \<Rightarrow> nat \<Rightarrow> nat \<times> zint list \<times> byte list" where
  "iscz1_encode_leader tmem pmem len i =
     (if i < len then
        (let d = tmem ! i - pmem ! i in
         if d \<noteq> 0 \<or> i = len - 1 then
           (let pmem' = pmem[i := tmem ! i] in
            if 0 <s d
            then (Suc i, pmem', iscz1_encode_int (of_nat (i + len * 8 + 64)) @ iscz1_encode_int d)
            else (i, pmem', iscz1_encode_int (of_nat (i + len * 8))))
         else iscz1_encode_leader tmem pmem len (Suc i))
      else (i, pmem, []))"
  by pat_completeness auto
termination
  by (relation "measure (\<lambda>(tmem, pmem, len, i). len - i)") auto

declare iscz1_encode_leader.simps [simp del]

function iscz1_encode_rest :: "zint list \<Rightarrow> zint list \<Rightarrow> nat \<Rightarrow> nat \<Rightarrow> zint list \<times> byte list" where
  "iscz1_encode_rest tmem pmem len i =
     (if i < len then
        (let (pmem', bs) = iscz1_encode_rest tmem (pmem[i := tmem ! i]) len (Suc i)
         in (pmem', iscz1_encode_int (tmem ! i) @ bs))
      else (pmem, []))"
  by pat_completeness auto
termination
  by (relation "measure (\<lambda>(tmem, pmem, len, i). len - i)") auto

declare iscz1_encode_rest.simps [simp del]

definition iscz1_encode :: "it_key \<Rightarrow> it_key \<Rightarrow> (it_key \<times> byte list) option" where
  "iscz1_encode p tkey =
     (if 0 < key_len tkey \<and> key_len tkey \<le> int IT_KEY_LEVEL_MAX then
        (let len = nat (key_len tkey);
             (i, pmem, bs) = iscz1_encode_leader (key_mem tkey) (key_mem p) len 0;
             (pmem', bs') = iscz1_encode_rest (key_mem tkey) pmem len i
         in Some (p\<lparr>key_mem := pmem'\<rparr>, bs @ bs'))
      else None)"

function iscz1_decode_rest :: "zint list \<Rightarrow> nat \<Rightarrow> nat \<Rightarrow> byte list \<Rightarrow> (zint list \<times> byte list) option" where
  "iscz1_decode_rest mem len i src =
     (if i < len then
        (if i < length mem then
           (case iscz1_decode_int src of
              None \<Rightarrow> None
            | Some (v, src') \<Rightarrow> iscz1_decode_rest (mem[i := v]) len (Suc i) src')
         else None)
      else Some (mem, src))"
  by pat_completeness auto
termination
  by (relation "measure (\<lambda>(mem, len, i, src). len - i)") auto

declare iscz1_decode_rest.simps [simp del]

text \<open>\<^verbatim>\<open>iscz1_decode\<close> stores the key in the codec state and copies that state out, so the new state is
  also the decoded key.\<close>

definition iscz1_decode :: "it_key \<Rightarrow> byte list \<Rightarrow> (it_key \<times> byte list) option" where
  "iscz1_decode p src =
     (case iscz1_decode_int src of
        None \<Rightarrow> None
      | Some (lv, src1) \<Rightarrow>
          (let leader = (ucast lv :: 32 word);
               i = unat (leader AND 7);
               len = unat (signed_drop_bit 3 leader AND 7)
           in if i < length (key_mem p) then
                (case iscz1_decode_int src1 of
                   None \<Rightarrow> None
                 | Some (v, src2) \<Rightarrow>
                     (let mem = (key_mem p)[i := (if leader AND 64 \<noteq> 0 then key_mem p ! i + v else v)]
                      in case iscz1_decode_rest mem len (Suc i) src2 of
                           None \<Rightarrow> None
                         | Some (mem', src3) \<Rightarrow>
                             Some (\<lparr>key_len = int len, key_mem = mem'\<rparr>, src3)))
              else None))"

section \<open>The order on keys\<close>

text \<open>\<open>wf_key L\<close>: a key of an index whose keys have \<open>L\<close> components.\<close>

definition wf_key :: "nat \<Rightarrow> it_key \<Rightarrow> bool" where
  "wf_key L k \<longleftrightarrow> 0 < L \<and> L \<le> IT_KEY_LEVEL_MAX \<and> key_len k = int L \<and>
     length (key_mem k) = IT_KEY_LEVEL_MAX"

definition first_diff :: "zint list \<Rightarrow> zint list \<Rightarrow> nat \<Rightarrow> nat \<Rightarrow> bool" where
  "first_diff m1 m2 l j \<longleftrightarrow> j < l \<and> m1 ! j \<noteq> m2 ! j \<and> (\<forall>k<j. m1 ! k = m2 ! k)"

lemma key_loop_step:
  "\<forall>k<i. m1 ! k = m2 ! k \<Longrightarrow>
   ((\<forall>k<l. m1 ! k = m2 ! k) \<and> key_compare_loop m1 m2 l i = 0) \<or>
   (\<exists>j. first_diff m1 m2 l j \<and>
      key_compare_loop m1 m2 l i = (if m2 ! j <s m1 ! j then int l - int j else int j - int l))"
proof (induction m1 m2 l i rule: key_compare_loop.induct)
  case (1 m1 m2 l i)
  consider (fin) "\<not> i < l" | (diff) "i < l" "m1 ! i \<noteq> m2 ! i" | (eq) "i < l" "m1 ! i = m2 ! i"
    by blast
  then show ?case
  proof cases
    case fin
    with "1.prems" show ?thesis by (auto simp: key_compare_loop.simps [of m1 m2 l i])
  next
    case diff
    with "1.prems" have "first_diff m1 m2 l i" by (simp add: first_diff_def)
    with diff show ?thesis by (auto simp: key_compare_loop.simps [of m1 m2 l i])
  next
    case eq
    with "1.prems" have "\<forall>k<Suc i. m1 ! k = m2 ! k" by (auto simp: less_Suc_eq)
    with "1.IH" eq show ?thesis by (simp add: key_compare_loop.simps [of m1 m2 l i])
  qed
qed

lemmas key_loop_cases = key_loop_step [where i = 0, simplified]

lemma first_diff_unique: "first_diff m1 m2 l j \<Longrightarrow> first_diff m1 m2 l j' \<Longrightarrow> j = j'"
  by (metis first_diff_def linorder_neqE_nat)

lemma key_loop_diff:
  assumes "first_diff m1 m2 l j"
  shows "key_compare_loop m1 m2 l 0 = (if m2 ! j <s m1 ! j then int l - int j else int j - int l)"
proof -
  have "\<not> (\<forall>k<l. m1 ! k = m2 ! k)" using assms by (auto simp: first_diff_def)
  with key_loop_cases [where ?m1.0 = m1 and ?m2.0 = m2 and l = l] obtain j' where "first_diff m1 m2 l j'"
    and "key_compare_loop m1 m2 l 0 = (if m2 ! j' <s m1 ! j' then int l - int j' else int j' - int l)"
    by blast
  with first_diff_unique [OF assms] show ?thesis by auto
qed

lemma key_loop_eq: "\<forall>k<l. m1 ! k = m2 ! k \<Longrightarrow> key_compare_loop m1 m2 l 0 = 0"
  using key_loop_cases [where ?m1.0 = m1 and ?m2.0 = m2 and l = l] by (auto simp: first_diff_def)

lemma key_loop_anti: "key_compare_loop m2 m1 l 0 = - key_compare_loop m1 m2 l 0"
proof (cases "\<forall>k<l. m1 ! k = m2 ! k")
  case True
  then show ?thesis by (simp add: key_loop_eq)
next
  case False
  with key_loop_cases [where ?m1.0 = m1 and ?m2.0 = m2 and l = l] obtain j where j: "first_diff m1 m2 l j" by auto
  then have "first_diff m2 m1 l j" by (auto simp: first_diff_def)
  from key_loop_diff [OF j] key_loop_diff [OF this] j show ?thesis
    by (auto simp: first_diff_def sless_iff_sint) (metis linorder_neqE sint_eq_iff)
qed

lemma key_loop_cong:
  "\<forall>k<l. m1 ! k = m1' ! k \<Longrightarrow> \<forall>k<l. m2 ! k = m2' ! k \<Longrightarrow>
   key_compare_loop m1 m2 l i = key_compare_loop m1' m2' l i"
proof (induction m1 m2 l i rule: key_compare_loop.induct)
  case (1 m1 m2 l i)
  then show ?case
    by (simp add: key_compare_loop.simps [of m1 m2 l i] key_compare_loop.simps [of m1' m2' l i])
qed

lemma key_loop_ultra:
  assumes "key_compare_loop a b l 0 \<le> 0" and "key_compare_loop b c l 0 \<le> 0"
  shows "key_compare_loop a c l 0 = min (key_compare_loop a b l 0) (key_compare_loop b c l 0)"
proof -
  consider (ab) "\<forall>k<l. a ! k = b ! k" | (bc) "\<forall>k<l. b ! k = c ! k"
    | (diff) i j where "first_diff a b l i" "first_diff b c l j"
    using key_loop_cases [where ?m1.0 = a and ?m2.0 = b and l = l]
      key_loop_cases [where ?m1.0 = b and ?m2.0 = c and l = l] by blast
  then show ?thesis
  proof cases
    case ab
    then have "key_compare_loop a c l 0 = key_compare_loop b c l 0" by (intro key_loop_cong) auto
    with ab assms(2) show ?thesis by (simp add: key_loop_eq)
  next
    case bc
    then have "key_compare_loop a c l 0 = key_compare_loop a b l 0" by (intro key_loop_cong) auto
    with bc assms(1) show ?thesis by (simp add: key_loop_eq)
  next
    case (diff i j)
    have l: "i < l" "j < l" using diff by (auto simp: first_diff_def)
    have ab: "\<not> b ! i <s a ! i" "key_compare_loop a b l 0 = int i - int l"
      using key_loop_diff [OF diff(1)] assms(1) l by (auto split: if_splits)
    have bc: "\<not> c ! j <s b ! j" "key_compare_loop b c l 0 = int j - int l"
      using key_loop_diff [OF diff(2)] assms(2) l by (auto split: if_splits)
    let ?m = "min i j"
    have "first_diff a c l ?m \<and> \<not> c ! ?m <s a ! ?m"
    proof (cases i j rule: linorder_cases)
      case less
      then have "?m = i" and bci: "b ! i = c ! i" using diff(2) by (simp_all add: first_diff_def)
      moreover have "\<forall>k<i. a ! k = c ! k" using diff less by (metis first_diff_def order.strict_trans)
      ultimately show ?thesis using diff(1) ab(1) by (simp add: first_diff_def)
    next
      case equal
      have ne: "a ! i \<noteq> b ! i" "b ! i \<noteq> c ! i" using diff equal by (simp_all add: first_diff_def)
      then have "sint (a ! i) < sint (b ! i)" "sint (b ! i) < sint (c ! i)"
        using ab(1) bc(1) equal by (metis linorder_neqE sint_eq_iff sless_iff_sint)+
      then have "a ! i \<noteq> c ! i" "\<not> c ! i <s a ! i" by (auto simp: sless_iff_sint)
      moreover have "\<forall>k<i. a ! k = c ! k" using diff equal by (metis first_diff_def)
      ultimately show ?thesis using equal l by (simp add: first_diff_def)
    next
      case greater
      then have "?m = j" and abj: "a ! j = b ! j" using diff(1) by (simp_all add: first_diff_def)
      moreover have "\<forall>k<j. a ! k = c ! k" using diff greater by (metis first_diff_def order.strict_trans)
      ultimately show ?thesis using diff(2) bc(1) by (simp add: first_diff_def)
    qed
    then show ?thesis using key_loop_diff [of a c l ?m] ab bc by (simp add: min_def)
  qed
qed

text \<open>The comparison function the result sets are given for index keys: \<^verbatim>\<open>key_compare\<close>, whose
  assertion aborts the program and cannot fail on the keys of an index.\<close>

definition key_cmp :: "it_key \<Rightarrow> it_key \<Rightarrow> int" where
  "key_cmp a b = (case key_compare a b of Some r \<Rightarrow> r | None \<Rightarrow> 0)"

lemma key_compare_wf:
  "wf_key L a \<Longrightarrow> wf_key L b \<Longrightarrow>
   key_compare a b = Some (key_compare_loop (key_mem a) (key_mem b) L 0)"
  by (simp add: key_compare_def wf_key_def Let_def)

interpretation itk: key_cmp_order "wf_key L" key_cmp for L
proof unfold_locales
  fix a b c
  assume ab: "wf_key L a" "wf_key L b"
  show "key_cmp b a = - key_cmp a b"
    using ab key_loop_anti [where ?m1.0 = "key_mem a" and ?m2.0 = "key_mem b" and l = L]
    by (simp add: key_cmp_def key_compare_wf)
  assume "wf_key L c" "key_cmp a b \<le> 0" "key_cmp b c \<le> 0"
  with ab show "key_cmp a c = min (key_cmp a b) (key_cmp b c)"
    using key_loop_ultra [of "key_mem a" "key_mem b" L "key_mem c"]
    by (simp add: key_cmp_def key_compare_wf)
qed

section \<open>The codec\<close>

lemma iscz1_encode_int_eq: "iscz1_encode_int w = zebra_zint_encode w"
proof (induction w rule: zebra_zint_encode.induct)
  case (1 w)
  then show ?case
    by (simp add: iscz1_encode_int.simps [of w] zebra_zint_encode.simps [of w])
qed

lemma iscz1_decode_int_loop_eq: "iscz1_decode_int_loop d r src = zint_decode_loop d r src"
  by (induction d r src rule: zint_decode_loop.induct) auto

lemma iscz1_int_roundtrip [codec_simps]:
  "0 \<le> sint w \<Longrightarrow> iscz1_decode_int (iscz1_encode_int w @ rest) = Some (w, rest)"
  using zint_decode_encode_loop [of w 0 0 rest] sint_nonneg_bound [of w]
  by (simp add: iscz1_decode_int_def iscz1_encode_int_eq iscz1_decode_int_loop_eq)

text \<open>A leader byte carries a level below 5, a length from 1 to 5 and the delta flag.\<close>

definition leader_ok :: "nat \<Rightarrow> nat \<Rightarrow> bool \<Rightarrow> bool" where
  "leader_ok j len b \<longleftrightarrow>
     (let w = (ucast (of_nat (j + len * 8 + (if b then 64 else 0)) :: zint) :: 32 word)
      in unat (w AND 7) = j \<and> unat (signed_drop_bit 3 w AND 7) = len \<and> (w AND 64 \<noteq> 0) = b)"

lemma leader_ok_table:
  "\<forall>j\<in>set [0..<5]. \<forall>len\<in>set [1..<6]. leader_ok j len True \<and> leader_ok j len False"
  by code_simp

lemma leader_ok: "j < len \<Longrightarrow> len \<le> 5 \<Longrightarrow> leader_ok j len b"
  using leader_ok_table by (cases b) auto

lemma leader_nonneg: "n < 128 \<Longrightarrow> 0 \<le> sint (of_nat n :: zint)"
  by (simp add: signed_of_nat signed_take_bit_int_eq_self)

text \<open>\<open>codec_key\<close>: what \<^verbatim>\<open>iscz1_encode\<close> accepts and writes without loss; \<open>codec_state\<close>: the previous key
  as both sides keep it.\<close>

definition codec_key :: "it_key \<Rightarrow> bool" where
  "codec_key k \<longleftrightarrow> 0 < key_len k \<and> key_len k \<le> int IT_KEY_LEVEL_MAX \<and>
     length (key_mem k) = IT_KEY_LEVEL_MAX \<and> (\<forall>i < nat (key_len k). 0 \<le> sint (key_mem k ! i))"

definition codec_state :: "zint list \<Rightarrow> bool" where
  "codec_state m \<longleftrightarrow> length m = IT_KEY_LEVEL_MAX \<and> (\<forall>x \<in> set m. 0 \<le> sint x)"

definition key_levels :: "it_key \<Rightarrow> zint list" where
  "key_levels k = take (nat (key_len k)) (key_mem k)"

lemma encode_leader_shape:
  assumes "i < len" and "\<forall>k<i. t ! k = p ! k"
  shows "\<exists>j. i \<le> j \<and> j < len \<and> (\<forall>k<j. t ! k = p ! k) \<and>
    iscz1_encode_leader t p len i =
      (if 0 <s t ! j - p ! j
       then (Suc j, p[j := t ! j],
             iscz1_encode_int (of_nat (j + len * 8 + 64)) @ iscz1_encode_int (t ! j - p ! j))
       else (j, p[j := t ! j], iscz1_encode_int (of_nat (j + len * 8))))"
  using assms
proof (induction t p len i rule: iscz1_encode_leader.induct)
  case (1 t p len i)
  show ?case
  proof (cases "t ! i - p ! i \<noteq> 0 \<or> i = len - 1")
    case True
    with "1.prems" show ?thesis
      by (intro exI [of _ i]) (auto simp: iscz1_encode_leader.simps [of t p len i] Let_def)
  next
    case False
    with "1.prems" have "Suc i < len" "\<forall>k<Suc i. t ! k = p ! k" by (auto simp: less_Suc_eq)
    with "1.IH" [OF "1.prems"(1) refl False] obtain j where
      "Suc i \<le> j \<and> j < len \<and> (\<forall>k<j. t ! k = p ! k) \<and>
       iscz1_encode_leader t p len (Suc i) =
        (if 0 <s t ! j - p ! j
         then (Suc j, p[j := t ! j],
               iscz1_encode_int (of_nat (j + len * 8 + 64)) @ iscz1_encode_int (t ! j - p ! j))
         else (j, p[j := t ! j], iscz1_encode_int (of_nat (j + len * 8))))"
      by blast
    with False "1.prems" show ?thesis
      by (intro exI [of _ j]) (simp add: iscz1_encode_leader.simps [of t p len i] Let_def)
  qed
qed

lemma decode_encode_rest:
  assumes "iscz1_encode_rest t m len i = (m', bs)" and "len \<le> length m"
    and "\<forall>k<len. 0 \<le> sint (t ! k)"
  shows "iscz1_decode_rest m len i (bs @ rest) = Some (m', rest)"
  using assms
proof (induction t m len i arbitrary: m' bs rule: iscz1_encode_rest.induct)
  case (1 t m len i)
  show ?case
  proof (cases "i < len")
    case True
    obtain m2 bs2 where e: "iscz1_encode_rest t (m[i := t ! i]) len (Suc i) = (m2, bs2)"
      by fastforce
    from "1.IH" [OF True e] "1.prems" have
      "iscz1_decode_rest (m[i := t ! i]) len (Suc i) (bs2 @ rest) = Some (m2, rest)" by simp
    with True e "1.prems" show ?thesis
      by (auto simp: iscz1_decode_rest.simps [of m len i] iscz1_encode_rest.simps [of t m len i]
          codec_simps)
  next
    case False
    with "1.prems" show ?thesis
      by (auto simp: iscz1_decode_rest.simps [of m' len i] iscz1_encode_rest.simps [of t m len i])
  qed
qed

lemma encode_rest_mem:
  assumes "iscz1_encode_rest t m len i = (m', bs)" and "len \<le> length m" and "\<forall>k<i. m ! k = t ! k"
  shows "length m' = length m \<and> (\<forall>k<len. m' ! k = t ! k) \<and> (\<forall>k. len \<le> k \<longrightarrow> m' ! k = m ! k)"
  using assms
proof (induction t m len i arbitrary: m' bs rule: iscz1_encode_rest.induct)
  case (1 t m len i)
  show ?case
  proof (cases "i < len")
    case True
    obtain m2 bs2 where e: "iscz1_encode_rest t (m[i := t ! i]) len (Suc i) = (m2, bs2)"
      by fastforce
    have "\<forall>k<Suc i. m[i := t ! i] ! k = t ! k" using "1.prems"(2,3) True by (auto simp: less_Suc_eq)
    from "1.IH" [OF True e _ this] "1.prems"(2) have
      "length m2 = length m \<and> (\<forall>k<len. m2 ! k = t ! k) \<and> (\<forall>k\<ge>len. m2 ! k = m ! k)"
      using True by auto
    with True e "1.prems"(1) show ?thesis by (simp add: iscz1_encode_rest.simps [of t m len i])
  next
    case False
    with "1.prems" show ?thesis by (simp add: iscz1_encode_rest.simps [of t m len i])
  qed
qed

lemma delta_nonneg:
  fixes a b :: zint
  assumes "0 <s a - b"
  shows "0 \<le> sint (a - b)"
  using assms by (simp add: sless_iff_sint)

lemma decode_leader:
  assumes "j < len" and "len \<le> 5"
  shows "iscz1_decode_int (iscz1_encode_int (of_nat (j + len * 8 + (if b then 64 else 0))) @ src) =
    Some (of_nat (j + len * 8 + (if b then 64 else 0)), src)"
  by (rule iscz1_int_roundtrip) (rule leader_nonneg, use assms in auto)

lemma decode_by_leader:
  assumes "iscz1_decode_int src = Some (lv, src1)"
    and "unat ((ucast lv :: 32 word) AND 7) = i"
    and "unat (signed_drop_bit 3 (ucast lv :: 32 word) AND 7) = len"
    and "((ucast lv :: 32 word) AND 64 \<noteq> 0) = b"
    and "i < length (key_mem q)"
    and "iscz1_decode_int src1 = Some (v, src2)"
    and "iscz1_decode_rest ((key_mem q)[i := if b then key_mem q ! i + v else v]) len (Suc i) src2
      = Some (m', r)"
  shows "iscz1_decode q src = Some (\<lparr>key_len = int len, key_mem = m'\<rparr>, r)"
  using assms by (cases b) (simp_all add: iscz1_decode_def Let_def)

lemma iscz1_step:
  assumes k: "codec_key k" and p: "length (key_mem p) = IT_KEY_LEVEL_MAX"
    and q: "key_mem q = key_mem p"
  obtains p' bs where "iscz1_encode p k = Some (p', bs)"
    and "length (key_mem p') = IT_KEY_LEVEL_MAX"
    and "\<And>rest. iscz1_decode q (bs @ rest) = Some (\<lparr>key_len = key_len k, key_mem = key_mem p'\<rparr>, rest)"
    and "take (nat (key_len k)) (key_mem p') = key_levels k"
proof -
  define len where "len = nat (key_len k)"
  let ?t = "key_mem k" and ?m = "key_mem p"
  have len: "0 < len" "len \<le> 5" "key_len k = int len" "length ?m = 5" "length ?t = 5"
    and nn: "\<forall>i<len. 0 \<le> sint (?t ! i)"
    using k p by (auto simp: codec_key_def len_def IT_KEY_LEVEL_MAX_def)
  obtain j where j: "j < len" "\<forall>i<j. ?t ! i = ?m ! i" and lead:
    "iscz1_encode_leader ?t ?m len 0 =
      (if 0 <s ?t ! j - ?m ! j
       then (Suc j, ?m[j := ?t ! j],
             iscz1_encode_int (of_nat (j + len * 8 + 64)) @ iscz1_encode_int (?t ! j - ?m ! j))
       else (j, ?m[j := ?t ! j], iscz1_encode_int (of_nat (j + len * 8))))"
    using encode_leader_shape [of 0 len ?t ?m] len(1) by auto
  let ?m1 = "?m[j := ?t ! j]"
  obtain m' bs where rest: "iscz1_encode_rest ?t ?m1 len (Suc j) = (m', bs)" by fastforce
  have restj: "iscz1_encode_rest ?t ?m1 len j = (m', iscz1_encode_int (?t ! j) @ bs)"
    using j rest by (simp add: iscz1_encode_rest.simps [of _ _ _ j])
  have m': "length m' = 5" "\<forall>i<len. m' ! i = ?t ! i"
    using encode_rest_mem [OF rest] len j by (auto simp: less_Suc_eq)
  have decr: "iscz1_decode_rest ?m1 len (Suc j) (bs @ r) = Some (m', r)" for r
    using decode_encode_rest [OF rest] len nn by simp
  let ?b = "0 <s ?t ! j - ?m ! j"
  define out where "out = iscz1_encode_int (of_nat (j + len * 8 + (if ?b then 64 else 0))) @
     iscz1_encode_int (if ?b then ?t ! j - ?m ! j else ?t ! j) @ bs"
  have enc: "iscz1_encode p k = Some (p\<lparr>key_mem := m'\<rparr>, out)"
    using lead rest restj len by (simp add: iscz1_encode_def out_def IT_KEY_LEVEL_MAX_def Let_def)
  have dec: "iscz1_decode q (out @ r) = Some (\<lparr>key_len = key_len k, key_mem = m'\<rparr>, r)" for r
  proof -
    have v: "0 \<le> sint (if ?b then ?t ! j - ?m ! j else ?t ! j)"
      using delta_nonneg nn j by simp
    have L: "leader_ok j len ?b" using j len by (intro leader_ok) auto
    have "iscz1_decode q (out @ r) = Some (\<lparr>key_len = int len, key_mem = m'\<rparr>, r)"
      unfolding out_def append_assoc
    proof (rule decode_by_leader [OF decode_leader [OF j(1) len(2)] _ _ _ _ iscz1_int_roundtrip [OF v]])
      show "iscz1_decode_rest ((key_mem q)[j := if ?b then key_mem q ! j + (if ?b then ?t ! j - ?m ! j else ?t ! j)
          else (if ?b then ?t ! j - ?m ! j else ?t ! j)]) len (Suc j) (bs @ r) = Some (m', r)"
        using decr [of r] q by simp
      show "j < length (key_mem q)" using j len q by simp
    qed (use L in \<open>simp_all only: leader_ok_def Let_def\<close>)
    then show ?thesis using len by simp
  qed
  have "take len m' = take len ?t"
    by (rule nth_equalityI) (use m' len in auto)
  then show ?thesis
    using enc dec m' len by (intro that [of "p\<lparr>key_mem := m'\<rparr>" out])
      (auto simp: key_levels_def IT_KEY_LEVEL_MAX_def)
qed

text \<open>Runs of the codec over a sequence of keys, as the posting lists use it: the state is reset, then
  threaded through the calls.\<close>

fun iscz1_encode_seq :: "it_key \<Rightarrow> it_key list \<Rightarrow> byte list option" where
  "iscz1_encode_seq p [] = Some []"
| "iscz1_encode_seq p (k # ks) =
     (case iscz1_encode p k of
        None \<Rightarrow> None
      | Some (p', bs) \<Rightarrow> map_option (\<lambda>bs'. bs @ bs') (iscz1_encode_seq p' ks))"

fun iscz1_decode_seq :: "it_key \<Rightarrow> nat \<Rightarrow> byte list \<Rightarrow> (it_key list \<times> byte list) option" where
  "iscz1_decode_seq p 0 src = Some ([], src)"
| "iscz1_decode_seq p (Suc n) src =
     (case iscz1_decode p src of
        None \<Rightarrow> None
      | Some (p', src') \<Rightarrow>
          map_option (\<lambda>(ks, r). (p' # ks, r)) (iscz1_decode_seq p' n src'))"

lemma iscz1_seq_roundtrip:
  assumes "\<forall>k \<in> set ks. codec_key k" and "length (key_mem p) = IT_KEY_LEVEL_MAX"
    and "key_mem q = key_mem p"
  shows "\<exists>bs. iscz1_encode_seq p ks = Some bs \<and>
    (\<forall>rest. \<exists>ks'. iscz1_decode_seq q (length ks) (bs @ rest) = Some (ks', rest) \<and>
       map key_len ks' = map key_len ks \<and> map key_levels ks' = map key_levels ks)"
  using assms
proof (induction ks arbitrary: p q)
  case Nil
  then show ?case by simp
next
  case (Cons k ks)
  obtain p' bs where e: "iscz1_encode p k = Some (p', bs)"
      "length (key_mem p') = IT_KEY_LEVEL_MAX"
    and d: "\<And>rest. iscz1_decode q (bs @ rest) = Some (\<lparr>key_len = key_len k, key_mem = key_mem p'\<rparr>, rest)"
      "take (nat (key_len k)) (key_mem p') = key_levels k"
    using iscz1_step [of k p q] Cons.prems by auto
  let ?q = "\<lparr>key_len = key_len k, key_mem = key_mem p'\<rparr>"
  obtain bs' where r: "iscz1_encode_seq p' ks = Some bs'"
    "\<forall>rest. \<exists>ks'. iscz1_decode_seq ?q (length ks) (bs' @ rest) = Some (ks', rest) \<and>
       map key_len ks' = map key_len ks \<and> map key_levels ks' = map key_levels ks"
    using Cons.IH [of p' ?q] Cons.prems e(2) by auto
  show ?case
  proof (intro exI [of _ "bs @ bs'"] conjI allI)
    show "iscz1_encode_seq p (k # ks) = Some (bs @ bs')" using e(1) r(1) by simp
    fix rest
    obtain ks' where ks': "iscz1_decode_seq ?q (length ks) (bs' @ rest) = Some (ks', rest)"
       "map key_len ks' = map key_len ks" "map key_levels ks' = map key_levels ks"
      using r(2) by blast
    show "\<exists>ks'. iscz1_decode_seq q (length (k # ks)) ((bs @ bs') @ rest) = Some (ks', rest) \<and>
       map key_len ks' = map key_len (k # ks) \<and> map key_levels ks' = map key_levels (k # ks)"
      by (rule exI [of _ "?q # ks'"]) (use ks' d in \<open>simp add: key_levels_def\<close>)
  qed
qed

section \<open>Properties\<close>

lemma take_eq_iff_nth:
  assumes "n \<le> length xs" "n \<le> length ys"
  shows "take n xs = take n ys \<longleftrightarrow> (\<forall>i<n. xs ! i = ys ! i)"
  using assms by (auto simp: list_eq_iff_nth_eq)

lemma key_cmp_same_level:
  assumes "wf_key L a" and "wf_key L b" and "1 \<le> s" and "s \<le> L"
  shows "\<bar>key_cmp a b\<bar> < int s \<longleftrightarrow> take (L + 1 - s) (key_mem a) = take (L + 1 - s) (key_mem b)"
proof -
  let ?m = "key_mem a" and ?n = "key_mem b"
  have c: "key_cmp a b = key_compare_loop ?m ?n L 0"
    using assms by (simp add: key_cmp_def key_compare_wf)
  have t: "take (L + 1 - s) ?m = take (L + 1 - s) ?n \<longleftrightarrow> (\<forall>i<L + 1 - s. ?m ! i = ?n ! i)"
    by (rule take_eq_iff_nth) (use assms in \<open>auto simp: wf_key_def\<close>)
  show ?thesis
  proof (cases "\<forall>k<L. ?m ! k = ?n ! k")
    case True
    then show ?thesis using assms(3,4) unfolding c t by (simp add: key_loop_eq)
  next
    case False
    with key_loop_cases [where ?m1.0 = ?m and ?m2.0 = ?n and l = L] obtain j where
      j: "first_diff ?m ?n L j" by auto
    then have "\<bar>key_compare_loop ?m ?n L 0\<bar> = int L - int j"
      using key_loop_diff [OF j] by (auto simp: first_diff_def)
    moreover have "(\<forall>i<L + 1 - s. ?m ! i = ?n ! i) \<longleftrightarrow> L + 1 - s \<le> j"
      using j by (auto simp: first_diff_def not_less [symmetric])
    ultimately show ?thesis unfolding c t using assms(3,4) j by (auto simp: first_diff_def)
  qed
qed

text \<open>C21: on the keys of one index \<^verbatim>\<open>key_compare\<close> never aborts, is antisymmetric, and along \<open>a \<le> b \<le> c\<close>
  reports the coarser of the two levels, so it is a total preorder whose magnitude is an
  ultrametric.\<close>

theorem key_compare_order:
  assumes "wf_key L a" and "wf_key L b" and "wf_key L c"
  shows "\<exists>x y. key_compare a b = Some x \<and> key_compare b a = Some (- x) \<and>
    key_compare b c = Some y \<and> (x \<le> 0 \<and> y \<le> 0 \<longrightarrow> key_compare a c = Some (min x y))"
  using assms key_loop_ultra [of "key_mem a" "key_mem b" L "key_mem c"]
    key_loop_anti [where ?m1.0 = "key_mem a" and ?m2.0 = "key_mem b" and l = L]
  by (simp add: key_compare_wf)

theorem key_compare_order_witness:
  "\<exists>x y. key_compare \<lparr>key_len = 2, key_mem = [1, 5, 0, 0, 0]\<rparr> \<lparr>key_len = 2, key_mem = [1, 7, 0, 0, 0]\<rparr> = Some x
    \<and> key_compare \<lparr>key_len = 2, key_mem = [1, 7, 0, 0, 0]\<rparr> \<lparr>key_len = 2, key_mem = [1, 5, 0, 0, 0]\<rparr> = Some (- x)
    \<and> key_compare \<lparr>key_len = 2, key_mem = [1, 7, 0, 0, 0]\<rparr> \<lparr>key_len = 2, key_mem = [2, 1, 0, 0, 0]\<rparr> = Some y
    \<and> (x \<le> 0 \<and> y \<le> 0 \<longrightarrow>
       key_compare \<lparr>key_len = 2, key_mem = [1, 5, 0, 0, 0]\<rparr> \<lparr>key_len = 2, key_mem = [2, 1, 0, 0, 0]\<rparr> = Some (min x y))"
  by (rule key_compare_order [of 2]) (simp_all add: wf_key_def IT_KEY_LEVEL_MAX_def)

text \<open>C22: at scope \<open>s\<close> two keys of \<open>L\<close> levels count as the same record (the comparison stays below
  \<open>s\<close> in magnitude) exactly when they agree on all but their last \<open>s - 1\<close> levels.\<close>

theorem key_compare_scope:
  assumes "wf_key L a" and "wf_key L b" and "1 \<le> s" and "s \<le> L"
  shows "\<exists>r. key_compare a b = Some r \<and>
    (\<bar>r\<bar> < int s \<longleftrightarrow> take (L + 1 - s) (key_mem a) = take (L + 1 - s) (key_mem b))"
  using key_cmp_same_level [OF assms] assms(1,2) by (simp add: key_cmp_def key_compare_wf)

theorem key_compare_scope_witness:
  "\<exists>r. key_compare \<lparr>key_len = 2, key_mem = [4, 5, 0, 0, 0]\<rparr> \<lparr>key_len = 2, key_mem = [4, 9, 0, 0, 0]\<rparr> = Some r
    \<and> (\<bar>r\<bar> < int 2 \<longleftrightarrow> take (2 + 1 - 2) [4, 5, 0, 0, 0 :: zint] = take (2 + 1 - 2) [4, 9, 0, 0, 0])"
  using key_compare_scope [of 2 "\<lparr>key_len = 2, key_mem = [4, 5, 0, 0, 0]\<rparr>"
      "\<lparr>key_len = 2, key_mem = [4, 9, 0, 0, 0]\<rparr>" 2]
  by (simp add: wf_key_def IT_KEY_LEVEL_MAX_def)

text \<open>C23: a sequence of keys with non-negative components written by \<^verbatim>\<open>iscz1_encode\<close> from a reset codec is
  read back by \<^verbatim>\<open>iscz1_decode\<close>: the same lengths and levels in the same order, and exactly the bytes
  written are consumed.\<close>

theorem iscz1_roundtrip:
  assumes "\<forall>k \<in> set ks. codec_key k"
  shows "\<exists>bs. iscz1_encode_seq iscz1_reset ks = Some bs \<and>
    (\<forall>rest. \<exists>ks'. iscz1_decode_seq iscz1_reset (length ks) (bs @ rest) = Some (ks', rest) \<and>
       map key_len ks' = map key_len ks \<and> map key_levels ks' = map key_levels ks)"
  by (rule iscz1_seq_roundtrip [OF assms]) (simp_all add: iscz1_reset_def)

theorem iscz1_roundtrip_witness:
  "\<exists>bs. iscz1_encode_seq iscz1_reset
      [\<lparr>key_len = 2, key_mem = [3, 9, 0, 0, 0]\<rparr>, \<lparr>key_len = 2, key_mem = [3, 300, 0, 0, 0]\<rparr>] = Some bs \<and>
    (\<forall>rest. \<exists>ks'. iscz1_decode_seq iscz1_reset 2 (bs @ rest) = Some (ks', rest) \<and>
       map key_len ks' = [2, 2] \<and> map key_levels ks' = [[3, 9], [3, 300]])"
  using iscz1_roundtrip [of "[\<lparr>key_len = 2, key_mem = [3, 9, 0, 0, 0]\<rparr>,
      \<lparr>key_len = 2, key_mem = [3, 300, 0, 0, 0]\<rparr>]"]
  by (simp add: codec_key_def IT_KEY_LEVEL_MAX_def key_levels_def less_Suc_eq numeral_2_eq_2)

end
