(* ===== verification/SU_Codec.thy ===== *)
theory SU_Codec
  imports Zebra_Prelude
begin

text \<open>
  The codec for the small integers that prefix dictionary terms (\<^verbatim>\<open>util/su_codec.c\<close>): six bits per
  byte, offset so that no byte is zero, continuation bytes from 65 on. \<^verbatim>\<open>int\<close> is modelled by \<^typ>\<open>int\<close>
  with overflow made explicit; the encoder's loop runs until its value is 0, which an arithmetic
  right shift of a negative value never reaches, so it is a partial function.
\<close>

section \<open>Operations\<close>

partial_function (option) SU_encode_loop :: "int \<Rightarrow> byte list \<Rightarrow> byte list option" where
  "SU_encode_loop ch out =
     (if ch = 0 then Some out
      else SU_encode_loop (drop_bit 6 ch)
        (out @ [if 64 \<le> ch then word_of_int (65 + (ch AND 63)) else word_of_int (1 + ch)]))"

definition key_SU_encode :: "int \<Rightarrow> byte list option" where
  "key_SU_encode ch = (if ch = -1 then Some [129] else SU_encode_loop ch [])"

fun SU_decode_loop :: "int \<Rightarrow> int \<Rightarrow> nat \<Rightarrow> byte list \<Rightarrow> (int \<times> nat) option" where
  "SU_decode_loop ch fac len [] = None"
| "SU_decode_loop ch fac len (c # out) =
     (if 65 \<le> uint c then
        (case (c_int (ch + (uint c - 65) * fac), c_int (fac * 64)) of
           (Some ch', Some fac') \<Rightarrow> SU_decode_loop ch' fac' (Suc len) out
         | _ \<Rightarrow> None)
      else (case c_int (ch + (uint c - 1) * fac) of
              Some ch' \<Rightarrow> Some (ch', len)
            | None \<Rightarrow> None))"

definition key_SU_decode :: "byte list \<Rightarrow> (int \<times> nat) option" where
  "key_SU_decode out = SU_decode_loop 0 1 1 out"

section \<open>Lemmas\<close>

text \<open>The bytes written for a non-negative value.\<close>

function su_bytes :: "int \<Rightarrow> byte list" where
  "su_bytes ch =
     (if ch \<le> 0 then []
      else if 64 \<le> ch then word_of_int (65 + ch mod 64) # su_bytes (ch div 64)
      else [word_of_int (1 + ch)])"
  by pat_completeness auto
termination
  by (relation "measure nat") auto

declare su_bytes.simps [simp del]

lemma SU_encode_loop_nonneg: "0 \<le> ch \<Longrightarrow> SU_encode_loop ch out = Some (out @ su_bytes ch)"
proof (induction ch arbitrary: out rule: su_bytes.induct)
  case (1 ch)
  consider (zero) "ch = 0" | (small) "0 < ch" "ch < 64" | (big) "64 \<le> ch" using "1.prems" by linarith
  then show ?case
  proof cases
    case zero
    then show ?thesis by (simp add: SU_encode_loop.simps su_bytes.simps)
  next
    case small
    then have "drop_bit 6 ch = 0" by (simp add: drop_bit_eq_div)
    with small show ?thesis
      by (simp add: SU_encode_loop.simps [of ch] SU_encode_loop.simps [of 0] su_bytes.simps [of ch])
  next
    case big
    have "ch AND 63 = ch mod 64"
      using take_bit_eq_mask [of 6 ch] by (simp add: take_bit_eq_mod mask_eq_exp_minus_1)
    with big "1.IH" show ?thesis
      by (simp add: SU_encode_loop.simps [of ch] su_bytes.simps [of ch] drop_bit_eq_div)
  qed
qed

lemma uint_small_byte: "0 \<le> x \<Longrightarrow> x < 256 \<Longrightarrow> uint (word_of_int x :: byte) = x"
  by (simp add: uint_word_of_int)

lemma SU_decode_su_bytes:
  assumes "0 < x" and "0 \<le> ch" and "0 < fac" and "ch + x * fac < 2 ^ 31"
  shows "SU_decode_loop ch fac len (su_bytes x @ rest) =
    Some (ch + x * fac, len + length (su_bytes x) - 1)"
  using assms
proof (induction x arbitrary: ch fac len rule: su_bytes.induct)
  case (1 x)
  show ?case
  proof (cases "64 \<le> x")
    case False
    with "1.prems" have "uint (word_of_int (1 + x) :: byte) = 1 + x" by (intro uint_small_byte) auto
    moreover have "c_int (ch + x * fac) = Some (ch + x * fac)"
    proof -
      have "0 \<le> x * fac" using "1.prems" by simp
      then have "- (2 ^ 31) \<le> ch + x * fac" using "1.prems" by linarith
      then show ?thesis using "1.prems" by (simp add: c_int_def)
    qed
    ultimately show ?thesis using False "1.prems" by (simp add: su_bytes.simps [of x])
  next
    case True
    let ?c = "word_of_int (65 + x mod 64) :: byte"
    have c: "uint ?c = 65 + x mod 64"
      using pos_mod_bound [of 64 x] pos_mod_sign [of 64 x] by (intro uint_small_byte) linarith+
    have q: "0 < x div 64" using True by simp
    have split: "x * fac = (x mod 64) * fac + (x div 64) * (fac * 64)"
      by (metis (no_types) add.commute div_mult_mod_eq distrib_right mult.assoc mult.commute)
    have p1: "0 \<le> (x mod 64) * fac" and p2: "fac * 64 \<le> (x div 64) * (fac * 64)"
      using "1.prems" q by (simp_all add: mult_le_cancel_right1)
    have f: "c_int (fac * 64) = Some (fac * 64)"
      using p1 p2 split "1.prems" unfolding c_int_def by (smt (verit))
    have d: "c_int (ch + (x mod 64) * fac) = Some (ch + (x mod 64) * fac)"
      using p1 p2 split "1.prems" unfolding c_int_def by (smt (verit))
    have "su_bytes x \<noteq> []" "su_bytes (x div 64) \<noteq> []"
      using True q by (simp_all add: su_bytes.simps [of x] su_bytes.simps [of "x div 64"])
    then show ?thesis
      using "1.IH" [of "ch + (x mod 64) * fac" "fac * 64" "Suc len"] True q c d f p1 split "1.prems"
      by (simp add: su_bytes.simps [of x] Suc_le_eq)
  qed
qed

lemma SU_encode_loop_nonneg_only:
  assumes "SU_encode_loop ch out = Some r"
  shows "0 \<le> ch"
proof (rule SU_encode_loop.raw_induct [where P = "\<lambda>ch out r. 0 \<le> ch", OF _ assms])
  fix loop :: "int \<Rightarrow> byte list \<Rightarrow> byte list option" and ch out r
  assume IH: "\<And>ch out r. loop ch out = Some r \<Longrightarrow> 0 \<le> ch"
    and body: "(if ch = 0 then Some out
      else loop (drop_bit 6 ch) (out @ [if 64 \<le> ch then word_of_int (65 + (ch AND 63)) else word_of_int (1 + ch)])) = Some r"
  show "0 \<le> ch"
  proof (cases "ch = 0")
    case False
    then have "0 \<le> drop_bit 6 ch" using body IH by (simp only: if_False)
    then show ?thesis by simp
  qed simp
qed

lemma SU_encode_loop_negative: "ch < 0 \<Longrightarrow> SU_encode_loop ch out = None"
  using SU_encode_loop_nonneg_only [of ch out] by (cases "SU_encode_loop ch out") auto

lemma SU_encode_decode:
  assumes "0 < ch" and "ch < 2 ^ 31"
  shows "\<exists>bs. key_SU_encode ch = Some bs \<and> (\<forall>rest. key_SU_decode (bs @ rest) = Some (ch, length bs))"
  using assms SU_decode_su_bytes [of ch 0 1 1] SU_encode_loop_nonneg [of ch "[]"]
  by (simp add: key_SU_encode_def key_SU_decode_def)

section \<open>Properties\<close>

text \<open>C26: for every positive \<^verbatim>\<open>int\<close> the encoder terminates, and the decoder, whatever follows in the buffer,
  returns the integer and the number of bytes the encoder wrote.\<close>

theorem SU_roundtrip:
  assumes "0 < ch" and "ch < 2 ^ 31"
  shows "\<exists>bs. key_SU_encode ch = Some bs \<and> (\<forall>rest. key_SU_decode (bs @ rest) = Some (ch, length bs))"
  by (rule SU_encode_decode [OF assms])

theorem SU_roundtrip_witness:
  "\<exists>bs. key_SU_encode 4097 = Some bs \<and> (\<forall>rest. key_SU_decode (bs @ rest) = Some (4097, length bs))"
  by (rule SU_roundtrip) simp_all

text \<open>C27: The encoder ends exactly for the integers from -1 on: below that, the arithmetic shift never reaches zero and it
  writes bytes without end. Zero is written as no byte at all, although the table in the comment of \<^verbatim>\<open>key_SU_encode\<close>
  gives it the byte 1. What was written is read back, whatever follows in the buffer, exactly when the integer was
  positive; for 0 and the mark -1 the decoder reads on in what comes next.\<close>

theorem SU_encode_domain:
  assumes "ch < 2 ^ 31"
  shows "(key_SU_encode ch = None \<longleftrightarrow> ch < - 1) \<and> (ch = 0 \<longrightarrow> key_SU_encode ch = Some []) \<and>
    (\<forall>bs. key_SU_encode ch = Some bs \<longrightarrow> ((\<forall>rest. key_SU_decode (bs @ rest) = Some (ch, length bs)) \<longleftrightarrow> 0 < ch))"
proof -
  consider (neg) "ch < - 1" | (mark) "ch = - 1" | (zero) "ch = 0" | (pos) "0 < ch" by linarith
  then show ?thesis
  proof cases
    case neg
    then show ?thesis using SU_encode_loop_negative [of ch "[]"] by (simp add: key_SU_encode_def)
  next
    case mark
    then show ?thesis by (auto simp: key_SU_encode_def key_SU_decode_def c_int_def intro!: exI [of _ "[]"])
  next
    case zero
    then show ?thesis by (auto simp: key_SU_encode_def SU_encode_loop.simps key_SU_decode_def intro!: exI [of _ "[]"])
  next
    case pos
    then show ?thesis using SU_encode_decode [OF pos assms] by auto
  qed
qed

theorem SU_encode_domain_witness:
  "key_SU_encode 0 = Some [] \<and> key_SU_encode (- 2) = None \<and> \<not> (\<forall>rest. key_SU_decode ([] @ rest) = Some (0, 0))"
  using SU_encode_domain [of 0] SU_encode_domain [of "- 2"] by auto

end
