(* ===== verification/Memory_Image.thy ===== *)
theory Memory_Image
  imports Zebra_Prelude
begin

text \<open>
  The bytes of an integer in memory on a little-endian machine, as they are copied by \<^verbatim>\<open>memcpy\<close> and written
  to files, and the integer read back from them.
\<close>

primrec word_image :: "nat \<Rightarrow> 'a::len word \<Rightarrow> byte list" where
  "word_image 0 w = []"
| "word_image (Suc n) w = ucast w # word_image n (drop_bit 8 w)"

primrec word_of_image :: "byte list \<Rightarrow> 'a::len word" where
  "word_of_image [] = 0"
| "word_of_image (b # bs) = ucast b + push_bit 8 (word_of_image bs)"

lemma word_image_length [simp]: "length (word_image n w) = n"
  by (induction n arbitrary: w) simp_all

lemma word_image_back: "word_of_image (word_image n w) = take_bit (8 * n) (w :: 'a::len word)"
proof (induction n arbitrary: w)
  case (Suc n)
  have "ucast (ucast w :: byte) = take_bit 8 w" by (simp add: unsigned_ucast_eq flip: take_bit_eq_mask)
  with Suc drop_bit_take_bit_sum [of "take_bit (8 + 8 * n) w" 8] show ?case
    by (simp add: take_bit_eq_mask [symmetric] drop_bit_take_bit add.commute)
qed simp

lemma word_image_back_full: "LENGTH('a) \<le> 8 * n \<Longrightarrow> word_of_image (word_image n w) = (w :: 'a::len word)"
  by (simp add: word_image_back take_bit_word_eq_self)

text \<open>Signed integers: a \<^verbatim>\<open>zint\<close> takes eight bytes, an \<^verbatim>\<open>int\<close> four.\<close>

definition zint_bytes :: "int \<Rightarrow> byte list" where
  "zint_bytes x = word_image 8 (word_of_int x :: zint)"

definition zint_of_bytes :: "byte list \<Rightarrow> int" where
  "zint_of_bytes bs = sint (word_of_image bs :: zint)"

definition int_bytes :: "int \<Rightarrow> byte list" where
  "int_bytes x = word_image 4 (word_of_int x :: 32 word)"

definition int_of_bytes :: "byte list \<Rightarrow> int" where
  "int_of_bytes bs = sint (word_of_image bs :: 32 word)"

definition zint_range :: "int \<Rightarrow> bool" where
  "zint_range x \<longleftrightarrow> - (2 ^ 63) \<le> x \<and> x < 2 ^ 63"

lemma sint_word_of_int_self:
  "- (2 ^ (LENGTH('a) - 1)) \<le> x \<Longrightarrow> x < 2 ^ (LENGTH('a) - 1) \<Longrightarrow> sint (word_of_int x :: 'a::len word) = x"
  by (simp add: signed_of_int signed_take_bit_int_eq_self)

lemma zint_bytes_length [simp]: "length (zint_bytes x) = 8"
  by (simp add: zint_bytes_def)

lemma int_bytes_length [simp]: "length (int_bytes x) = 4"
  by (simp add: int_bytes_def)

lemma zint_bytes_back [simp]: "zint_range x \<Longrightarrow> zint_of_bytes (zint_bytes x) = x"
  by (simp add: zint_bytes_def zint_of_bytes_def zint_range_def word_image_back_full sint_word_of_int_self)

lemma int_bytes_back: "- (2 ^ 31) \<le> x \<Longrightarrow> x < 2 ^ 31 \<Longrightarrow> int_of_bytes (int_bytes x) = x"
  by (simp add: int_bytes_def int_of_bytes_def word_image_back_full sint_word_of_int_self)

end
