(* ===== verification/Rset_Base.thy ===== *)
theory Rset_Base
  imports Key_Order "HOL-Library.Monad_Syntax" "HOL-Library.Multiset"
begin

text \<open>
  The result set base class (\<^verbatim>\<open>include/rset.h\<close>, \<^verbatim>\<open>rset/rset.c\<close>). A result set is a sorted sequence of
  keys read through a descriptor (\<^verbatim>\<open>RSFD\<close>). Every kind of set supplies \<^verbatim>\<open>f_read\<close> and possibly
  \<^verbatim>\<open>f_forward\<close> in its control block; clients only ever call \<^verbatim>\<open>rset_read\<close> and \<^verbatim>\<open>rset_forward\<close>, the macros
  for \<open>rset_default_read\<close> and \<open>rset_default_forward\<close>, which count hits on the way.

  A call that reads is a function from the descriptor to an option: \<open>None\<close> is a call that does not
  return, \<open>Some (fd, None)\<close> is the C return value 0 (end of set) and \<open>Some (fd, Some (k, t))\<close> the
  return value 1 with key buffer \<open>k\<close> and term \<open>t\<close>. A term pointer that may be \<^verbatim>\<open>NULL\<close> is an option.

  Two locales state the contract: \<open>rset_raw\<close> what a control block promises, \<open>rset_reader\<close> what a client
  may rely on. Forwarding to a key \<open>u\<close> keeps every key whose record is not before the one of \<open>u\<close>
  (as a multiset: equal keys of different children may change places);
  of the earlier records it promises nothing: it need not skip them (the \<^verbatim>\<open>or\<close> set does not), and a
  \<^verbatim>\<open>not\<close> set may even deliver a key it would not have delivered to a plain read. \<open>work\<close> bounds the number
  of keys a set can still deliver. \<open>default_reader\<close> shows that the base class turns the first contract into the
  second.
\<close>

section \<open>Data and operations\<close>

type_synonym ('s, 'k, 't) rd_result = "('s \<times> ('k \<times> 't option) option) option"

record 'k rset_base =
  rs_cmp :: "'k \<Rightarrow> 'k \<Rightarrow> int"
  rs_scope :: int
  rs_hits_limit :: int

record ('p, 'k) rsfd =
  rsfd_priv :: 'p
  counted_items :: int
  counted_buf :: "'k option"

definition rset_default_read ::
  "'k rset_base \<Rightarrow> (('p, 'k) rsfd \<Rightarrow> (('p, 'k) rsfd, 'k, 't) rd_result) \<Rightarrow>
   ('p, 'k) rsfd \<Rightarrow> (('p, 'k) rsfd, 'k, 't) rd_result" where
  "rset_default_read rs f_read rfd =
     do {
       (rfd', rc) \<leftarrow> f_read rfd;
       case rc of
         None \<Rightarrow> Some (rfd', None)
       | Some (buf, term) \<Rightarrow>
           (let got_scope = (if counted_items rfd' = 0 then rs_scope rs + 1
                             else rs_cmp rs buf (the (counted_buf rfd')))
            in Some (if rs_scope rs < got_scope
                     then rfd'\<lparr>counted_buf := Some buf, counted_items := counted_items rfd' + 1\<rparr>
                     else rfd', rc))
     }"

text \<open>The read loop of \<^verbatim>\<open>rset_default_forward\<close>.\<close>

partial_function (option) rset_forward_loop ::
  "'k rset_base \<Rightarrow> (('p, 'k) rsfd \<Rightarrow> (('p, 'k) rsfd, 'k, 't) rd_result) \<Rightarrow>
   ('p, 'k) rsfd \<Rightarrow> 'k \<Rightarrow> (('p, 'k) rsfd, 'k, 't) rd_result" where
  "rset_forward_loop rs f_read rfd untilbuf =
     do {
       (rfd', more) \<leftarrow> rset_default_read rs f_read rfd;
       case more of
         None \<Rightarrow> Some (rfd', None)
       | Some (buf, term) \<Rightarrow>
           if rs_cmp rs untilbuf buf < rs_scope rs then Some (rfd', more)
           else rset_forward_loop rs f_read rfd' untilbuf
     }"

definition rset_default_forward ::
  "'k rset_base \<Rightarrow> (('p, 'k) rsfd \<Rightarrow> (('p, 'k) rsfd, 'k, 't) rd_result) \<Rightarrow>
   (('p, 'k) rsfd \<Rightarrow> 'k \<Rightarrow> (('p, 'k) rsfd, 'k, 't) rd_result) option \<Rightarrow>
   ('p, 'k) rsfd \<Rightarrow> 'k \<Rightarrow> (('p, 'k) rsfd, 'k, 't) rd_result" where
  "rset_default_forward rs f_read f_forward rfd untilbuf =
     (case f_forward of
        Some fw \<Rightarrow> if rs_hits_limit rs \<le> counted_items rfd then fw rfd untilbuf
                   else rset_forward_loop rs f_read rfd untilbuf
      | None \<Rightarrow> rset_forward_loop rs f_read rfd untilbuf)"

text \<open>A control block whose operations touch only its private part is lifted to descriptors.\<close>

definition on_priv :: "('p \<Rightarrow> ('p, 'k, 't) rd_result) \<Rightarrow> ('p, 'k) rsfd \<Rightarrow> (('p, 'k) rsfd, 'k, 't) rd_result" where
  "on_priv f rfd = map_option (\<lambda>(p, rc). (rfd\<lparr>rsfd_priv := p\<rparr>, rc)) (f (rsfd_priv rfd))"

text \<open>Reading a set to its end.\<close>

partial_function (option) rset_read_all :: "('s \<Rightarrow> ('s, 'k, 't) rd_result) \<Rightarrow> 's \<Rightarrow> ('k \<times> 't option) list option" where
  "rset_read_all rd s =
     do {
       (s', rc) \<leftarrow> rd s;
       case rc of
         None \<Rightarrow> Some []
       | Some x \<Rightarrow> do { xs \<leftarrow> rset_read_all rd s'; Some (x # xs) }
     }"

lemma on_priv_Some:
  "f (rsfd_priv r) = Some (p', res) \<Longrightarrow> on_priv f r = Some (r\<lparr>rsfd_priv := p'\<rparr>, res)"
  by (simp add: on_priv_def)

lemma default_read_on_priv:
  assumes "f (rsfd_priv r) = Some (p', res)"
  shows "\<exists>r'. rset_default_read rs (on_priv f) r = Some (r', res) \<and> rsfd_priv r' = p'"
  using on_priv_Some [where f = f, OF assms] by (cases res) (auto simp: rset_default_read_def Let_def split: prod.split)

section \<open>The contracts\<close>

abbreviation le_key :: "('k \<Rightarrow> 'k \<Rightarrow> int) \<Rightarrow> 'k \<times> 't \<Rightarrow> 'k \<times> 't \<Rightarrow> bool" where
  "le_key cmp x y \<equiv> cmp (fst x) (fst y) \<le> 0"

text \<open>What is ahead after a call that returned \<open>res\<close>: the key it delivered and the rest of the set.\<close>

definition ahead :: "'x option \<Rightarrow> 'x list \<Rightarrow> 'x list" where
  "ahead res xs = (case res of None \<Rightarrow> [] | Some x \<Rightarrow> x # xs)"

lemma ahead_simps [simp]: "ahead None xs = []" "ahead (Some x) xs = x # xs"
  by (simp_all add: ahead_def)

text \<open>The keys whose record is not before the one of \<open>u\<close>.\<close>

definition from_key :: "('k \<Rightarrow> 'k \<Rightarrow> int) \<Rightarrow> int \<Rightarrow> 'k \<Rightarrow> ('k \<times> 't) list \<Rightarrow> ('k \<times> 't) list" where
  "from_key cmp scope u xs = filter (\<lambda>x. cmp u (fst x) < scope) xs"

definition good_keys :: "('k \<Rightarrow> bool) \<Rightarrow> ('k \<Rightarrow> 'k \<Rightarrow> int) \<Rightarrow> ('k \<times> 't) list \<Rightarrow> bool" where
  "good_keys ok cmp xs \<longleftrightarrow> (\<forall>x \<in> set xs. ok (fst x)) \<and> sorted_wrt (le_key cmp) xs"

lemma good_keys_simps [simp]:
  "good_keys ok cmp []"
  "good_keys ok cmp (x # xs) \<longleftrightarrow>
     ok (fst x) \<and> (\<forall>y \<in> set xs. cmp (fst x) (fst y) \<le> 0) \<and> good_keys ok cmp xs"
  by (auto simp: good_keys_def)

lemma good_keys_append:
  "good_keys ok cmp (xs @ ys) \<longleftrightarrow> good_keys ok cmp xs \<and> good_keys ok cmp ys \<and>
     (\<forall>x \<in> set xs. \<forall>y \<in> set ys. cmp (fst x) (fst y) \<le> 0)"
  by (auto simp: good_keys_def sorted_wrt_append)

lemma good_keys_ok: "good_keys ok cmp xs \<Longrightarrow> x \<in> set xs \<Longrightarrow> ok (fst x)"
  by (simp add: good_keys_def)

lemma good_keys_dropWhile: "good_keys ok cmp xs \<Longrightarrow> good_keys ok cmp (dropWhile P xs)"
  by (induction xs) auto

lemma good_keys_filter: "good_keys ok cmp xs \<Longrightarrow> good_keys ok cmp (filter P xs)"
  by (auto simp: good_keys_def intro: sorted_wrt_filter)

locale rset_reader = key_cmp_order ok cmp for ok :: "'k \<Rightarrow> bool" and cmp :: "'k \<Rightarrow> 'k \<Rightarrow> int" +
  fixes scope :: int
    and rd :: "'s \<Rightarrow> ('s, 'k, 't) rd_result"
    and fw :: "'s \<Rightarrow> 'k \<Rightarrow> ('s, 'k, 't) rd_result"
    and contents :: "'s \<Rightarrow> ('k \<times> 't option) list"
    and work :: "'s \<Rightarrow> nat"
    and invar :: "'s \<Rightarrow> bool"
  assumes scope_pos: "0 < scope"
    and rd_nil: "invar s \<Longrightarrow> contents s = [] \<Longrightarrow>
      \<exists>s'. rd s = Some (s', None) \<and> invar s' \<and> contents s' = []"
    and rd_cons: "invar s \<Longrightarrow> contents s = x # xs \<Longrightarrow>
      \<exists>s'. rd s = Some (s', Some x) \<and> invar s' \<and> contents s' = xs \<and> work s' < work s"
    and fw_keep: "invar s \<Longrightarrow> ok u \<Longrightarrow>
      \<exists>s' res. fw s u = Some (s', res) \<and> invar s' \<and> (res = None \<longrightarrow> contents s' = []) \<and>
        (res \<noteq> None \<longrightarrow> work s' < work s) \<and> good_keys ok cmp (ahead res (contents s')) \<and>
        mset (from_key cmp scope u (ahead res (contents s'))) = mset (from_key cmp scope u (contents s))"
    and contents_good: "invar s \<Longrightarrow> good_keys ok cmp (contents s)"
begin

lemma rd_cases:
  assumes "invar s"
  obtains (eof) s' where "contents s = []" "rd s = Some (s', None)" "invar s'" "contents s' = []"
  | (key) x xs s' where "contents s = x # xs" "rd s = Some (s', Some x)" "invar s'" "contents s' = xs"
      "work s' < work s"
  using rd_nil [OF assms] rd_cons [OF assms] by (cases "contents s") auto

lemma rd_ahead:
  assumes "invar s"
  obtains s' res where "rd s = Some (s', res)" "invar s'" "contents s = ahead res (contents s')"
    "res = None \<longrightarrow> contents s' = []" "res \<noteq> None \<longrightarrow> work s' < work s"
  using assms by (cases rule: rd_cases) (auto intro: that)

lemma read_all_contents: "invar s \<Longrightarrow> rset_read_all rd s = Some (contents s)"
proof (induction "contents s" arbitrary: s)
  case Nil
  then show ?case using rd_nil [of s] by (auto simp: rset_read_all.simps [of rd s])
next
  case (Cons x xs)
  obtain s' where "rd s = Some (s', Some x)" "invar s'" "contents s' = xs"
    using rd_cons [OF Cons.prems Cons.hyps(2) [symmetric]] by blast
  with Cons show ?case by (simp add: rset_read_all.simps [of rd s])
qed

text \<open>Along a good list, everything after a key that is not before \<open>u\<close> is not before \<open>u\<close>.\<close>

lemma from_key_id:
  assumes "ok u" "good_keys ok cmp xs" "\<forall>x \<in> set xs. cmp u (fst x) \<le> 0"
  shows "from_key cmp scope u xs = xs"
  using assms scope_pos by (auto simp: from_key_def intro!: filter_True)

end

locale rset_raw = key_cmp_order ok cmp for ok :: "'k \<Rightarrow> bool" and cmp :: "'k \<Rightarrow> 'k \<Rightarrow> int" +
  fixes scope :: int
    and f_read :: "('p, 'k) rsfd \<Rightarrow> (('p, 'k) rsfd, 'k, 't) rd_result"
    and f_forward :: "(('p, 'k) rsfd \<Rightarrow> 'k \<Rightarrow> (('p, 'k) rsfd, 'k, 't) rd_result) option"
    and contents :: "'p \<Rightarrow> ('k \<times> 't option) list"
    and work :: "'p \<Rightarrow> nat"
    and invar :: "'p \<Rightarrow> bool"
  assumes raw_scope_pos: "0 < scope"
    and read_nil: "invar (rsfd_priv r) \<Longrightarrow> contents (rsfd_priv r) = [] \<Longrightarrow>
      \<exists>r'. f_read r = Some (r', None) \<and> invar (rsfd_priv r') \<and> contents (rsfd_priv r') = []"
    and read_cons: "invar (rsfd_priv r) \<Longrightarrow> contents (rsfd_priv r) = x # xs \<Longrightarrow>
      \<exists>r'. f_read r = Some (r', Some x) \<and> invar (rsfd_priv r') \<and> contents (rsfd_priv r') = xs \<and>
        work (rsfd_priv r') < work (rsfd_priv r)"
    and forward_keep: "f_forward = Some fw \<Longrightarrow> invar (rsfd_priv r) \<Longrightarrow> ok u \<Longrightarrow>
      \<exists>r' res. fw r u = Some (r', res) \<and> invar (rsfd_priv r') \<and>
        (res = None \<longrightarrow> contents (rsfd_priv r') = []) \<and>
        (res \<noteq> None \<longrightarrow> work (rsfd_priv r') < work (rsfd_priv r)) \<and>
        good_keys ok cmp (ahead res (contents (rsfd_priv r'))) \<and>
        mset (from_key cmp scope u (ahead res (contents (rsfd_priv r')))) =
        mset (from_key cmp scope u (contents (rsfd_priv r)))"
    and raw_good: "invar p \<Longrightarrow> good_keys ok cmp (contents p)"
begin

lemma default_read_nil:
  "invar (rsfd_priv r) \<Longrightarrow> contents (rsfd_priv r) = [] \<Longrightarrow>
   \<exists>r'. rset_default_read rs f_read r = Some (r', None) \<and> invar (rsfd_priv r') \<and> contents (rsfd_priv r') = []"
  using read_nil [of r] by (auto simp: rset_default_read_def)

lemma default_read_cons:
  "invar (rsfd_priv r) \<Longrightarrow> contents (rsfd_priv r) = x # xs \<Longrightarrow>
   \<exists>r'. rset_default_read rs f_read r = Some (r', Some x) \<and> invar (rsfd_priv r') \<and>
     contents (rsfd_priv r') = xs \<and> work (rsfd_priv r') < work (rsfd_priv r)"
  using read_cons [of r x xs] by (cases x) (auto simp: rset_default_read_def Let_def)

lemma forward_loop_keep:
  assumes rs: "rs_cmp rs = cmp" "rs_scope rs = scope" and "invar (rsfd_priv r)"
  shows "\<exists>r' res. rset_forward_loop rs f_read r u = Some (r', res) \<and> invar (rsfd_priv r') \<and>
        (res = None \<longrightarrow> contents (rsfd_priv r') = []) \<and>
        (res \<noteq> None \<longrightarrow> work (rsfd_priv r') < work (rsfd_priv r)) \<and>
        good_keys ok cmp (ahead res (contents (rsfd_priv r'))) \<and>
        mset (from_key cmp scope u (ahead res (contents (rsfd_priv r')))) =
        mset (from_key cmp scope u (contents (rsfd_priv r)))"
  using assms(3)
proof (induction "contents (rsfd_priv r)" arbitrary: r)
  case Nil
  then obtain r' where "rset_default_read rs f_read r = Some (r', None)" "invar (rsfd_priv r')"
      "contents (rsfd_priv r') = []"
    using default_read_nil [of r rs] by auto
  with Nil.hyps [symmetric] show ?case
    by (intro exI [of _ r'] exI [of _ None]) (simp add: rset_forward_loop.simps [of rs f_read r])
next
  case (Cons x xs)
  obtain r' where r': "rset_default_read rs f_read r = Some (r', Some x)" "invar (rsfd_priv r')"
      "contents (rsfd_priv r') = xs" "work (rsfd_priv r') < work (rsfd_priv r)"
    using default_read_cons [OF Cons.prems Cons.hyps(2) [symmetric], of rs] by auto
  have good: "good_keys ok cmp (x # xs)" using raw_good [OF Cons.prems] Cons.hyps(2) by simp
  obtain k t where x: "x = (k, t)" by (cases x)
  show ?case
  proof (cases "cmp u k < scope")
    case True
    with Cons.hyps(2) [symmetric] r' x good show ?thesis
      by (intro exI [of _ r'] exI [of _ "Some x"])
         (simp add: rset_forward_loop.simps [of rs f_read r] rs)
  next
    case False
    obtain r'' res where IH: "rset_forward_loop rs f_read r' u = Some (r'', res)" "invar (rsfd_priv r'')"
        "res = None \<longrightarrow> contents (rsfd_priv r'') = []"
        "res \<noteq> None \<longrightarrow> work (rsfd_priv r'') < work (rsfd_priv r')"
        "good_keys ok cmp (ahead res (contents (rsfd_priv r'')))"
        "mset (from_key cmp scope u (ahead res (contents (rsfd_priv r'')))) = mset (from_key cmp scope u xs)"
      using Cons.hyps(1) [of r'] r' by auto
    with False r' x Cons.hyps(2) [symmetric] show ?thesis
      by (intro exI [of _ r''] exI [of _ res])
         (auto simp: rset_forward_loop.simps [of rs f_read r] rs from_key_def)
  qed
qed

lemma default_reader:
  assumes "rs_cmp rs = cmp" and "rs_scope rs = scope"
  shows "rset_reader ok cmp scope (rset_default_read rs f_read) (rset_default_forward rs f_read f_forward)
    (\<lambda>r. contents (rsfd_priv r)) (\<lambda>r. work (rsfd_priv r)) (\<lambda>r. invar (rsfd_priv r))"
proof unfold_locales
  fix s :: "('p, 'k) rsfd" and u
  assume s: "invar (rsfd_priv s)" and u: "ok u"
  show "\<exists>s' res. rset_default_forward rs f_read f_forward s u = Some (s', res) \<and> invar (rsfd_priv s') \<and>
      (res = None \<longrightarrow> contents (rsfd_priv s') = []) \<and>
      (res \<noteq> None \<longrightarrow> work (rsfd_priv s') < work (rsfd_priv s)) \<and>
      good_keys ok cmp (ahead res (contents (rsfd_priv s'))) \<and>
      mset (from_key cmp scope u (ahead res (contents (rsfd_priv s')))) =
      mset (from_key cmp scope u (contents (rsfd_priv s)))"
  proof (cases "\<exists>fw. f_forward = Some fw \<and> rs_hits_limit rs \<le> counted_items s")
    case True
    then obtain fw where fw: "f_forward = Some fw" "rs_hits_limit rs \<le> counted_items s" by blast
    then have d: "rset_default_forward rs f_read f_forward s u = fw s u"
      by (simp add: rset_default_forward_def)
    show ?thesis unfolding d by (rule forward_keep [OF fw(1) s u])
  next
    case False
    then have d: "rset_default_forward rs f_read f_forward s u = rset_forward_loop rs f_read s u"
      by (auto simp: rset_default_forward_def split: option.split)
    show ?thesis unfolding d by (rule forward_loop_keep [OF assms s])
  qed
qed (use raw_scope_pos default_read_nil default_read_cons raw_good in auto)

end

text \<open>What a call that reads must do for the contract, in one formula.\<close>

definition reads_ahead :: "('p \<Rightarrow> ('p, 'k, 't) rd_result) \<Rightarrow> ('p \<Rightarrow> ('k \<times> 't option) list) \<Rightarrow> ('p \<Rightarrow> nat) \<Rightarrow>
    ('p \<Rightarrow> bool) \<Rightarrow> 'p \<Rightarrow> bool" where
  "reads_ahead f contents work invar p \<longleftrightarrow>
     (\<exists>p' res. f p = Some (p', res) \<and> invar p' \<and> contents p = ahead res (contents p') \<and>
        (res = None \<longrightarrow> contents p' = []) \<and> (res \<noteq> None \<longrightarrow> work p' < work p))"

lemma reads_ahead_all:
  assumes "\<And>p. invar p \<Longrightarrow> reads_ahead f contents work invar p" and "invar p"
  shows "rset_read_all f p = Some (contents p)"
  using assms(2)
proof (induction "work p" arbitrary: p rule: less_induct)
  case less
  obtain p' res where r: "f p = Some (p', res)" "invar p'" "contents p = ahead res (contents p')"
      "res \<noteq> None \<longrightarrow> work p' < work p"
    using assms(1) [OF less.prems] unfolding reads_ahead_def by blast
  show ?case
  proof (cases res)
    case None
    with r show ?thesis by (subst rset_read_all.simps) simp
  next
    case (Some x)
    with less.hyps [of p'] r show ?thesis by (subst rset_read_all.simps) simp
  qed
qed

text \<open>And a call that forwards.\<close>

definition keeps_from :: "('k \<Rightarrow> bool) \<Rightarrow> ('k \<Rightarrow> 'k \<Rightarrow> int) \<Rightarrow> int \<Rightarrow> ('p \<Rightarrow> 'k \<Rightarrow> ('p, 'k, 't) rd_result) \<Rightarrow>
    ('p \<Rightarrow> ('k \<times> 't option) list) \<Rightarrow> ('p \<Rightarrow> nat) \<Rightarrow> ('p \<Rightarrow> bool) \<Rightarrow> 'p \<Rightarrow> 'k \<Rightarrow> bool" where
  "keeps_from ok cmp scope g contents work invar p u \<longleftrightarrow>
     (\<exists>p' res. g p u = Some (p', res) \<and> invar p' \<and> (res = None \<longrightarrow> contents p' = []) \<and>
        (res \<noteq> None \<longrightarrow> work p' < work p) \<and> good_keys ok cmp (ahead res (contents p')) \<and>
        mset (from_key cmp scope u (ahead res (contents p'))) = mset (from_key cmp scope u (contents p)))"

lemma on_priv_raw:
  fixes f :: "'p \<Rightarrow> ('p, 'k, 't) rd_result"
  assumes ord: "key_cmp_order ok cmp" and sc: "0 < scope"
    and read: "\<And>p. invar p \<Longrightarrow> reads_ahead f contents work invar p"
    and forward: "\<And>g r u. fw = Some g \<Longrightarrow> invar (rsfd_priv r) \<Longrightarrow> ok u \<Longrightarrow>
      keeps_from ok cmp scope g (\<lambda>r. contents (rsfd_priv r)) (\<lambda>r. work (rsfd_priv r)) (\<lambda>r. invar (rsfd_priv r)) r u"
    and good: "\<And>p. invar p \<Longrightarrow> good_keys ok cmp (contents p)"
  shows "rset_raw ok cmp scope (on_priv f) fw contents work invar"
proof (rule rset_raw.intro [OF ord], rule rset_raw_axioms.intro)
  fix r :: "('p, 'k) rsfd" and x xs
  assume inv: "invar (rsfd_priv r)"
  obtain p' res where rd: "f (rsfd_priv r) = Some (p', res)" "invar p'"
      "contents (rsfd_priv r) = ahead res (contents p')" "res = None \<longrightarrow> contents p' = []"
      "res \<noteq> None \<longrightarrow> work p' < work (rsfd_priv r)"
    using read [OF inv] unfolding reads_ahead_def by blast
  note step = on_priv_Some [where f = f, OF rd(1)]
  {
    assume "contents (rsfd_priv r) = []"
    with rd step show "\<exists>r'. on_priv f r = Some (r', None) \<and> invar (rsfd_priv r') \<and> contents (rsfd_priv r') = []"
      by (cases res) auto
  next
    assume "contents (rsfd_priv r) = x # xs"
    with rd step show "\<exists>r'. on_priv f r = Some (r', Some x) \<and> invar (rsfd_priv r') \<and>
        contents (rsfd_priv r') = xs \<and> work (rsfd_priv r') < work (rsfd_priv r)"
      by (cases res) auto
  }
qed (use sc good forward in \<open>auto simp: keeps_from_def\<close>)

lemma on_priv_keeps:
  assumes "keeps_from ok cmp scope g contents work invar (rsfd_priv r) u"
  shows "keeps_from ok cmp scope (\<lambda>r u. on_priv (\<lambda>p. g p u) r) (\<lambda>r. contents (rsfd_priv r))
    (\<lambda>r. work (rsfd_priv r)) (\<lambda>r. invar (rsfd_priv r)) r u"
proof -
  obtain p' res where p': "g (rsfd_priv r) u = Some (p', res)" and spec: "invar p'" "res = None \<longrightarrow> contents p' = []"
      "res \<noteq> None \<longrightarrow> work p' < work (rsfd_priv r)" "good_keys ok cmp (ahead res (contents p'))"
      "mset (from_key cmp scope u (ahead res (contents p'))) = mset (from_key cmp scope u (contents (rsfd_priv r)))"
    using assms unfolding keeps_from_def by blast
  show ?thesis
    unfolding keeps_from_def on_priv_Some [where f = "\<lambda>p. g p u", OF p']
    using spec by (intro exI [of _ "r\<lparr>rsfd_priv := p'\<rparr>"] exI [of _ res]) simp
qed

end
