(* ===== verification/File_Io.thy ===== *)
theory File_Io
  imports Zebra_Prelude
begin

text \<open>
  A file as its bytes, with the positioned reads and writes the sources make (\<^verbatim>\<open>lseek\<close> followed by
  \<^verbatim>\<open>read\<close> or \<^verbatim>\<open>write\<close>). Reading past the end is short; writing past the end fills the gap with zero
  bytes, as POSIX does. Device errors (a full disk, a failing read) are outside the model.
\<close>

definition file_pread :: "'a list \<Rightarrow> nat \<Rightarrow> nat \<Rightarrow> 'a list" where
  "file_pread f pos n = take n (drop pos f)"

definition file_pwrite :: "'a::zero list \<Rightarrow> nat \<Rightarrow> 'a list \<Rightarrow> 'a list" where
  "file_pwrite f pos bs =
     (if bs = [] then f
      else (let f' = f @ replicate (pos - length f) 0 in take pos f' @ bs @ drop (pos + length bs) f'))"

lemma file_pwrite_length [file_simps, simp]:
  "length (file_pwrite f pos bs) = (if bs = [] then length f else max (length f) (pos + length bs))"
  by (auto simp: file_pwrite_def Let_def min_def max_def)

lemma file_pwrite_nth [file_simps]:
  assumes "i < length (file_pwrite f pos bs)"
  shows "file_pwrite f pos bs ! i =
    (if pos \<le> i \<and> i < pos + length bs then bs ! (i - pos) else if i < length f then f ! i else 0)"
  using assms
  by (cases "bs = []") (auto simp: file_pwrite_def Let_def nth_append min_def split: if_splits)

lemma file_pread_nth [file_simps]:
  "i < n \<Longrightarrow> pos + i < length f \<Longrightarrow> file_pread f pos n ! i = f ! (pos + i)"
  by (simp add: file_pread_def)

lemma file_pread_length [file_simps, simp]: "length (file_pread f pos n) = min n (length f - pos)"
  by (simp add: file_pread_def min.commute)

text \<open>Reading what a write covered returns it; other ranges are untouched.\<close>

lemma file_pread_pwrite_same [file_simps]: "file_pread (file_pwrite f pos bs) pos (length bs) = bs"
  by (cases "bs = []") (simp_all add: file_pread_def file_pwrite_def Let_def)

lemma file_pread_pwrite_other [file_simps]:
  assumes "pos' + n \<le> pos \<or> pos + length bs \<le> pos'" "pos' + n \<le> length f"
  shows "file_pread (file_pwrite f pos bs) pos' n = file_pread f pos' n"
  by (rule nth_equalityI) (use assms in \<open>auto simp: file_pread_nth file_pwrite_nth split: if_splits\<close>)

end
