(* ===== verification/Rset_Temp.thy ===== *)
theory Rset_Temp
  imports Rset_Base File_Io It_Key
begin

text \<open>
  The temporary result set of \<^verbatim>\<open>rset/rstemp.c\<close>: keys written one after the other through a window of
  \<^verbatim>\<open>buf_size\<close> bytes over a temporary file that only exists once a window had to be flushed, and read back
  later. \<open>temp_info\<close> is \<^verbatim>\<open>struct rset_private\<close> together with the contents of its file; positions are
  \<^verbatim>\<open>size_t\<close>, here natural numbers (sets of 2^64 bytes are out of reach). A call of \<^verbatim>\<open>zebra_exit\<close> and a
  \<^verbatim>\<open>memcpy\<close> outside the window are \<open>None\<close>. The window is shared by all descriptors of the set, so the
  invariant \<open>temp_rep\<close> speaks of the set alone, whatever the position of the descriptor that reads.
\<close>

section \<open>Operations\<close>

datatype temp_fd = Fd_closed | Fd_rdonly | Fd_rdwr

record temp_info =
  ti_fd :: temp_fd
  ti_fname :: bool
  ti_file :: "byte list"
  ti_buf_mem :: "byte list"
  ti_buf_size :: nat
  ti_pos_end :: nat
  ti_pos_buf :: nat
  ti_pos_border :: nat
  ti_dirty :: bool
  ti_hits :: int

record temp_rfd =
  tr_pos_cur :: nat
  tr_cur :: int

definition rset_create_temp :: temp_info where
  "rset_create_temp = \<lparr>ti_fd = Fd_closed, ti_fname = False, ti_file = [], ti_buf_mem = replicate 4096 0,
     ti_buf_size = 4096, ti_pos_end = 0, ti_pos_buf = 0, ti_pos_border = 0, ti_dirty = False, ti_hits = 0\<rparr>"

definition temp_flush :: "bool \<Rightarrow> temp_info \<Rightarrow> temp_info option" where
  "temp_flush mk info =
     (let info1 = (if \<not> ti_fname info \<and> mk then info\<lparr>ti_fd := Fd_rdwr, ti_fname := True, ti_file := []\<rparr> else info)
      in if ti_fname info1 \<and> ti_fd info1 \<noteq> Fd_closed \<and> ti_dirty info1 then
           (let count = min (ti_buf_size info1) (ti_pos_end info1 - ti_pos_buf info1)
            in if ti_fd info1 = Fd_rdwr
               then Some (info1\<lparr>ti_file := file_pwrite (ti_file info1) (ti_pos_buf info1) (take count (ti_buf_mem info1)),
                                ti_dirty := False\<rparr>)
               else None)
         else Some info1)"

definition temp_reread :: "temp_rfd \<Rightarrow> temp_info \<Rightarrow> temp_info option" where
  "temp_reread mrfd info =
     (if ti_fname info then
        (let border = min (tr_pos_cur mrfd + ti_buf_size info) (ti_pos_end info);
             count = border - ti_pos_buf info;
             info1 = info\<lparr>ti_pos_border := border\<rparr>
         in if 0 < count then
              (let bs = file_pread (ti_file info) (ti_pos_buf info) count
               in if ti_fd info \<noteq> Fd_closed \<and> length bs = count \<and> count \<le> ti_buf_size info
                  then Some (info1\<lparr>ti_buf_mem := bs @ drop count (ti_buf_mem info)\<rparr>)
                  else None)
            else Some info1)
      else Some (info\<lparr>ti_pos_border := ti_pos_end info\<rparr>))"

definition temp_open :: "bool \<Rightarrow> temp_info \<Rightarrow> (temp_info \<times> temp_rfd) option" where
  "temp_open write info =
     (let info1 = (if ti_fd info = Fd_closed \<and> ti_fname info
                   then info\<lparr>ti_fd := (if write then Fd_rdwr else Fd_rdonly)\<rparr> else info);
          mrfd = \<lparr>tr_pos_cur = 0, tr_cur = 0\<rparr>
      in do {
           info2 \<leftarrow> temp_flush False info1;
           info3 \<leftarrow> temp_reread mrfd (info2\<lparr>ti_pos_buf := 0\<rparr>);
           Some (info3, mrfd)
         })"

definition temp_close :: "bool \<Rightarrow> temp_info \<Rightarrow> temp_info option" where
  "temp_close is_last info =
     (if is_last then
        do {
          info1 \<leftarrow> temp_flush False info;
          Some (if ti_fname info1 \<and> ti_fd info1 \<noteq> Fd_closed then info1\<lparr>ti_fd := Fd_closed\<rparr> else info1)
        }
      else Some info)"

definition temp_read :: "nat \<Rightarrow> 't option \<Rightarrow> temp_info \<times> temp_rfd \<Rightarrow>
    (temp_info \<times> temp_rfd, byte list, 't) rd_result" where
  "temp_read key_size rs_term p =
     (case p of (info, mrfd) \<Rightarrow>
        let nc = tr_pos_cur mrfd + key_size;
            deliver = (\<lambda>info. if ti_pos_buf info \<le> tr_pos_cur mrfd \<and> nc - ti_pos_buf info \<le> ti_buf_size info
               then Some ((info, \<lparr>tr_pos_cur = nc, tr_cur = tr_cur mrfd + 1\<rparr>),
                      Some (take key_size (drop (tr_pos_cur mrfd - ti_pos_buf info) (ti_buf_mem info)), rs_term))
               else None)
        in if tr_pos_cur mrfd < ti_pos_buf info \<or> ti_pos_border info < nc then
             if ti_pos_end info < nc then Some (p, None)
             else do {
                    info1 \<leftarrow> temp_flush False info;
                    info2 \<leftarrow> temp_reread mrfd (info1\<lparr>ti_pos_buf := tr_pos_cur mrfd\<rparr>);
                    deliver info2
                  }
           else deliver info)"

text \<open>\<^verbatim>\<open>r_write\<close>: first the window is moved when the key does not fit, then the key is stored.\<close>

definition temp_write_window :: "nat \<Rightarrow> temp_rfd \<Rightarrow> temp_info \<Rightarrow> temp_info option" where
  "temp_write_window key_size mrfd info =
     (if ti_pos_buf info + ti_buf_size info < tr_pos_cur mrfd + key_size then
        do {
          i1 \<leftarrow> temp_flush True info;
          (let i2 = i1\<lparr>ti_pos_buf := tr_pos_cur mrfd\<rparr>
           in if ti_pos_buf i2 < ti_pos_end i2 then temp_reread mrfd i2 else Some i2)
        }
      else Some info)"

definition temp_write_key :: "nat \<Rightarrow> byte list \<Rightarrow> temp_rfd \<Rightarrow> temp_info \<Rightarrow> (temp_info \<times> temp_rfd) option" where
  "temp_write_key key_size buf mrfd info1 =
     (let nc = tr_pos_cur mrfd + key_size in
      if ti_pos_buf info1 \<le> tr_pos_cur mrfd \<and> nc - ti_pos_buf info1 \<le> ti_buf_size info1 then
        (let off = tr_pos_cur mrfd - ti_pos_buf info1;
             mem = take off (ti_buf_mem info1) @ take key_size buf @ drop (off + key_size) (ti_buf_mem info1);
             info2 = info1\<lparr>ti_dirty := True, ti_buf_mem := mem\<rparr>;
             info3 = (if ti_pos_end info2 < nc then info2\<lparr>ti_pos_border := nc, ti_pos_end := nc\<rparr> else info2)
         in Some (info3\<lparr>ti_hits := ti_hits info3 + 1\<rparr>, mrfd\<lparr>tr_pos_cur := nc\<rparr>))
      else None)"

definition temp_write :: "nat \<Rightarrow> byte list \<Rightarrow> temp_info \<times> temp_rfd \<Rightarrow> (temp_info \<times> temp_rfd) option" where
  "temp_write key_size buf p =
     (case p of (info, mrfd) \<Rightarrow>
        do { info1 \<leftarrow> temp_write_window key_size mrfd info; temp_write_key key_size buf mrfd info1 })"

definition temp_pos :: "temp_info \<times> temp_rfd \<Rightarrow> int \<times> int" where
  "temp_pos p = (tr_cur (snd p), ti_hits (fst p))"

text \<open>Writing a sequence of keys.\<close>

primrec temp_write_all :: "nat \<Rightarrow> byte list list \<Rightarrow> temp_info \<times> temp_rfd \<Rightarrow> (temp_info \<times> temp_rfd) option" where
  "temp_write_all key_size [] p = Some p"
| "temp_write_all key_size (k # ks) p = do { p' \<leftarrow> temp_write key_size k p; temp_write_all key_size ks p' }"

section \<open>The bytes a set stands for\<close>

definition temp_rep :: "temp_info \<Rightarrow> byte list \<Rightarrow> bool" where
  "temp_rep info data \<longleftrightarrow>
     length data = ti_pos_end info \<and> ti_pos_buf info \<le> ti_pos_end info \<and>
     ti_pos_border info = min (ti_pos_buf info + ti_buf_size info) (ti_pos_end info) \<and>
     length (ti_buf_mem info) = ti_buf_size info \<and>
     (\<forall>i. ti_pos_buf info \<le> i \<and> i < ti_pos_border info \<longrightarrow> ti_buf_mem info ! (i - ti_pos_buf info) = data ! i) \<and>
     (if ti_fname info then
        (ti_dirty info \<longrightarrow> ti_fd info = Fd_rdwr) \<and>
        (\<forall>i < ti_pos_end info. \<not> ti_dirty info \<or> i < ti_pos_buf info \<or> ti_pos_border info \<le> i \<longrightarrow>
           i < length (ti_file info) \<and> ti_file info ! i = data ! i)
      else ti_pos_buf info = 0 \<and> ti_pos_end info \<le> ti_buf_size info \<and> (ti_dirty info \<or> ti_pos_end info = 0))"

text \<open>A flushed set has all its bytes in the file (when it has one).\<close>

definition temp_clean :: "temp_info \<Rightarrow> byte list \<Rightarrow> bool" where
  "temp_clean info data \<longleftrightarrow>
     length data = ti_pos_end info \<and> length (ti_buf_mem info) = ti_buf_size info \<and>
     (if ti_fname info
      then \<not> ti_dirty info \<and> (\<forall>i < ti_pos_end info. i < length (ti_file info) \<and> ti_file info ! i = data ! i)
      else ti_pos_buf info = 0 \<and> ti_pos_end info \<le> ti_buf_size info \<and> (ti_dirty info \<or> ti_pos_end info = 0) \<and>
        (\<forall>i < ti_pos_end info. ti_buf_mem info ! i = data ! i))"

lemma temp_repD:
  assumes "temp_rep info data"
  shows "length data = ti_pos_end info" "ti_pos_buf info \<le> ti_pos_end info"
    "ti_pos_border info = min (ti_pos_buf info + ti_buf_size info) (ti_pos_end info)"
    "length (ti_buf_mem info) = ti_buf_size info"
    "ti_pos_buf info \<le> i \<Longrightarrow> i < ti_pos_border info \<Longrightarrow> ti_buf_mem info ! (i - ti_pos_buf info) = data ! i"
    "ti_fname info \<Longrightarrow> ti_dirty info \<Longrightarrow> ti_fd info = Fd_rdwr"
    "ti_fname info \<Longrightarrow> i < ti_pos_end info \<Longrightarrow> \<not> ti_dirty info \<or> i < ti_pos_buf info \<or> ti_pos_border info \<le> i \<Longrightarrow>
       i < length (ti_file info) \<and> ti_file info ! i = data ! i"
    "\<not> ti_fname info \<Longrightarrow> ti_pos_buf info = 0 \<and> ti_pos_end info \<le> ti_buf_size info \<and>
       (ti_dirty info \<or> ti_pos_end info = 0)"
  using assms unfolding temp_rep_def by (simp_all split: if_splits)

lemma temp_flush_bytes:
  assumes rep: "temp_rep info data" and i: "i < ti_pos_end info" and f: "ti_fname info \<Longrightarrow> f = ti_file info"
  shows "i < length (file_pwrite f (ti_pos_buf info) (take (min (ti_buf_size info) (ti_pos_end info - ti_pos_buf info)) (ti_buf_mem info)))
    \<and> file_pwrite f (ti_pos_buf info) (take (min (ti_buf_size info) (ti_pos_end info - ti_pos_buf info)) (ti_buf_mem info)) ! i
      = data ! i"
proof -
  define bs where "bs = take (min (ti_buf_size info) (ti_pos_end info - ti_pos_buf info)) (ti_buf_mem info)"
  have len: "ti_pos_buf info + length bs = ti_pos_border info"
    using temp_repD(2,3,4) [OF rep] by (auto simp: bs_def min_def)
  show ?thesis unfolding bs_def [symmetric]
  proof (cases "ti_pos_buf info \<le> i \<and> i < ti_pos_border info")
    case True
    then have "i - ti_pos_buf info < length bs" using len by linarith
    then have bs: "bs \<noteq> []" "bs ! (i - ti_pos_buf info) = data ! i"
      using True temp_repD(5) [OF rep, of i] by (auto simp: bs_def)
    moreover from bs len True have "i < length (file_pwrite f (ti_pos_buf info) bs)" by (simp add: less_max_iff_disj)
    ultimately show "i < length (file_pwrite f (ti_pos_buf info) bs) \<and> file_pwrite f (ti_pos_buf info) bs ! i = data ! i"
      using True len by (simp only: file_pwrite_nth) simp
  next
    case False
    have fn: "ti_fname info"
    proof (rule ccontr)
      assume "\<not> ti_fname info"
      with temp_repD(3,8) [OF rep] False i show False by auto
    qed
    then have "i < length f" "f ! i = data ! i" using temp_repD(7) [OF rep fn i] False f [OF fn] by auto
    with False len show "i < length (file_pwrite f (ti_pos_buf info) bs) \<and> file_pwrite f (ti_pos_buf info) bs ! i = data ! i"
      by (auto simp: file_pwrite_nth)
  qed
qed

lemma temp_flush_clean:
  assumes rep: "temp_rep info data" and fd: "ti_fname info \<Longrightarrow> ti_fd info \<noteq> Fd_closed"
  shows "\<exists>info'. temp_flush mk info = Some info' \<and> temp_clean info' data \<and> ti_pos_buf info' = ti_pos_buf info \<and>
    ti_pos_end info' = ti_pos_end info \<and> ti_buf_size info' = ti_buf_size info \<and>
    (ti_fname info' \<longrightarrow> ti_fd info' \<noteq> Fd_closed) \<and> ti_fname info' = (ti_fname info \<or> mk) \<and>
    (mk \<and> \<not> ti_fname info \<longrightarrow> ti_fd info' = Fd_rdwr) \<and> (ti_fd info = Fd_rdwr \<longrightarrow> ti_fd info' = Fd_rdwr) \<and>
    ti_hits info' = ti_hits info"
proof -
  note d = temp_repD [OF rep]
  define i1 where "i1 = (if \<not> ti_fname info \<and> mk then info\<lparr>ti_fd := Fd_rdwr, ti_fname := True, ti_file := []\<rparr> else info)"
  have i1: "ti_fname i1 = (ti_fname info \<or> mk)" "ti_dirty i1 = ti_dirty info" "ti_pos_buf i1 = ti_pos_buf info"
    "ti_pos_end i1 = ti_pos_end info" "ti_buf_size i1 = ti_buf_size info" "ti_buf_mem i1 = ti_buf_mem info"
    "ti_hits i1 = ti_hits info" "ti_fname info \<Longrightarrow> ti_file i1 = ti_file info" "ti_fname info \<Longrightarrow> i1 = info"
    "\<not> ti_fname info \<Longrightarrow> mk \<Longrightarrow> ti_fd i1 = Fd_rdwr" "ti_fd info = Fd_rdwr \<Longrightarrow> ti_fd i1 = Fd_rdwr"
    by (simp_all add: i1_def)
  have i1_id: "i1 = info" if "\<not> ti_fname i1" using that by (simp add: i1_def split: if_splits)
  show ?thesis
  proof (cases "ti_fname i1 \<and> ti_dirty i1")
    case True
    let ?f = "file_pwrite (ti_file i1) (ti_pos_buf info)
        (take (min (ti_buf_size info) (ti_pos_end info - ti_pos_buf info)) (ti_buf_mem info))"
    let ?i = "i1\<lparr>ti_file := ?f, ti_dirty := False\<rparr>"
    have fd1: "ti_fd i1 = Fd_rdwr" using True d(6) i1(1,2,9,10) by (cases "ti_fname info") auto
    then have "temp_flush mk info = Some ?i"
      using True by (simp add: temp_flush_def i1_def [symmetric] Let_def i1)
    moreover have "temp_clean ?i data"
      using temp_flush_bytes [OF rep _ i1(8)] d(1,4) True by (simp add: temp_clean_def i1)
    ultimately show ?thesis using True fd1 i1 by simp
  next
    case False
    then have fl: "temp_flush mk info = Some i1" by (auto simp: temp_flush_def i1_def [symmetric] Let_def)
    have "temp_clean i1 data"
    proof (cases "ti_fname i1")
      case True
      with False have nd: "\<not> ti_dirty info" using i1 by simp
      have "i < length (ti_file i1) \<and> ti_file i1 ! i = data ! i" if "i < ti_pos_end info" for i
      proof (cases "ti_fname info")
        case fn: True
        with d(7) [OF fn that] nd i1(9) show ?thesis by simp
      next
        case False
        with d(8) nd that show ?thesis by simp
      qed
      with True nd d(1,4) show ?thesis by (simp add: temp_clean_def i1)
    next
      case nf: False
      then have nf': "i1 = info" "\<not> ti_fname info" using i1_id i1(1) by auto
      have "ti_buf_mem info ! i = data ! i" if "i < ti_pos_end info" for i
        using d(5) [of i] d(3,8) that nf' by simp
      with nf' d(1,4,8) show ?thesis by (simp add: temp_clean_def)
    qed
    moreover have "ti_fname i1 \<longrightarrow> ti_fd i1 \<noteq> Fd_closed" using fd i1(1,9,10) by (cases "ti_fname info") auto
    ultimately show ?thesis using fl i1 by simp
  qed
qed


lemma temp_cleanD:
  assumes "temp_clean info data"
  shows "length data = ti_pos_end info" "length (ti_buf_mem info) = ti_buf_size info"
    "ti_fname info \<Longrightarrow> \<not> ti_dirty info"
    "ti_fname info \<Longrightarrow> i < ti_pos_end info \<Longrightarrow> i < length (ti_file info) \<and> ti_file info ! i = data ! i"
    "\<not> ti_fname info \<Longrightarrow> ti_pos_buf info = 0 \<and> ti_pos_end info \<le> ti_buf_size info \<and>
       (ti_dirty info \<or> ti_pos_end info = 0) \<and> (\<forall>i < ti_pos_end info. ti_buf_mem info ! i = data ! i)"
  using assms unfolding temp_clean_def by (simp_all split: if_splits)

lemma temp_reread_rep:
  assumes c: "temp_clean info data" and pos: "tr_pos_cur mrfd \<le> ti_pos_end info"
    and fd: "ti_fname info \<Longrightarrow> ti_fd info \<noteq> Fd_closed" and nf: "\<not> ti_fname info \<Longrightarrow> tr_pos_cur mrfd = 0"
  shows "\<exists>info'. temp_reread mrfd (info\<lparr>ti_pos_buf := tr_pos_cur mrfd\<rparr>) = Some info' \<and> temp_rep info' data \<and>
    ti_pos_buf info' = tr_pos_cur mrfd \<and> ti_pos_end info' = ti_pos_end info \<and> ti_buf_size info' = ti_buf_size info \<and>
    ti_fname info' = ti_fname info \<and> ti_fd info' = ti_fd info \<and> ti_hits info' = ti_hits info"
proof (cases "ti_fname info")
  case True
  note d = temp_cleanD [OF c] and fn = True
  define border where "border = min (tr_pos_cur mrfd + ti_buf_size info) (ti_pos_end info)"
  define n where "n = border - tr_pos_cur mrfd"
  define bs where "bs = file_pread (ti_file info) (tr_pos_cur mrfd) n"
  have n: "n \<le> ti_buf_size info" "tr_pos_cur mrfd + n = border" "border \<le> ti_pos_end info"
    using pos by (auto simp: n_def border_def)
  have "ti_pos_end info \<le> length (ti_file info)"
    using d(4) [OF True, of "ti_pos_end info - 1"] by (cases "ti_pos_end info") auto
  then have len: "length bs = n" using n by (simp add: bs_def)
  have nth: "bs ! j = data ! (tr_pos_cur mrfd + j)" if "j < n" for j
    using d(4) [OF True, of "tr_pos_cur mrfd + j"] that n by (simp add: bs_def file_pread_nth)
  define info' where "info' = info\<lparr>ti_pos_buf := tr_pos_cur mrfd, ti_pos_border := border,
      ti_buf_mem := bs @ drop n (ti_buf_mem info)\<rparr>"
  have "temp_reread mrfd (info\<lparr>ti_pos_buf := tr_pos_cur mrfd\<rparr>) = Some info'"
  proof (cases "n = 0")
    case True
    then have "info' = info\<lparr>ti_pos_buf := tr_pos_cur mrfd, ti_pos_border := border\<rparr>"
      using len by (simp add: info'_def)
    moreover have "\<not> tr_pos_cur mrfd < border" using True n by simp
    ultimately show ?thesis
      using fn by (simp add: temp_reread_def Let_def border_def [symmetric])
  next
    case False
    with fn fd len n show ?thesis
      by (simp add: temp_reread_def Let_def border_def [symmetric] n_def [symmetric] bs_def [symmetric] info'_def)
  qed
  moreover have "temp_rep info' data"
    unfolding temp_rep_def using d(1,2,3) True n len nth d(4) [OF True] pos
    by (auto simp: info'_def border_def nth_append)
  ultimately show ?thesis by (simp add: info'_def)
next
  case False
  with temp_cleanD(1,2,5) [OF c] nf show ?thesis
    by (simp add: temp_reread_def temp_rep_def min_def)
qed

text \<open>Moving the window to the position of a descriptor, as \<^verbatim>\<open>r_open\<close>, \<^verbatim>\<open>r_read\<close> and \<^verbatim>\<open>r_write\<close> do.\<close>

lemma temp_move_window:
  assumes rep: "temp_rep info data" and fd: "ti_fname info \<Longrightarrow> ti_fd info \<noteq> Fd_closed"
    and pos: "tr_pos_cur mrfd \<le> ti_pos_end info" and nf: "\<not> ti_fname info \<and> \<not> mk \<Longrightarrow> tr_pos_cur mrfd = 0"
  obtains i1 i2 where "temp_flush mk info = Some i1" "ti_pos_end i1 = ti_pos_end info" "temp_clean i1 data"
    "ti_buf_size i1 = ti_buf_size info" "ti_fname i1 = (ti_fname info \<or> mk)"
    "ti_fd info = Fd_rdwr \<or> mk \<and> \<not> ti_fname info \<longrightarrow> ti_fd i1 = Fd_rdwr"
    "temp_reread mrfd (i1\<lparr>ti_pos_buf := tr_pos_cur mrfd\<rparr>) = Some i2" "temp_rep i2 data"
    "ti_pos_buf i2 = tr_pos_cur mrfd" "ti_pos_end i2 = ti_pos_end info" "ti_buf_size i2 = ti_buf_size info"
    "ti_fname i2 = (ti_fname info \<or> mk)" "ti_fname i2 \<longrightarrow> ti_fd i2 \<noteq> Fd_closed" "ti_fd i2 = ti_fd i1"
proof -
  obtain i1 where i1: "temp_flush mk info = Some i1" "temp_clean i1 data" "ti_pos_end i1 = ti_pos_end info"
      "ti_buf_size i1 = ti_buf_size info" "ti_fname i1 \<longrightarrow> ti_fd i1 \<noteq> Fd_closed" "ti_fname i1 = (ti_fname info \<or> mk)"
      "mk \<and> \<not> ti_fname info \<longrightarrow> ti_fd i1 = Fd_rdwr" "ti_fd info = Fd_rdwr \<longrightarrow> ti_fd i1 = Fd_rdwr"
    using temp_flush_clean [OF rep fd] by blast
  have "tr_pos_cur mrfd \<le> ti_pos_end i1" "ti_fname i1 \<Longrightarrow> ti_fd i1 \<noteq> Fd_closed"
    "\<not> ti_fname i1 \<Longrightarrow> tr_pos_cur mrfd = 0"
    using i1 pos nf by auto
  from temp_reread_rep [OF i1(2) this] i1 show ?thesis by (auto intro: that)
qed

section \<open>Reading\<close>

text \<open>The keys a run of bytes holds.\<close>

function temp_keys :: "nat \<Rightarrow> byte list \<Rightarrow> byte list list" where
  "temp_keys ks data = (if 0 < ks \<and> ks \<le> length data then take ks data # temp_keys ks (drop ks data) else [])"
  by pat_completeness auto
termination
  by (relation "measure (\<lambda>(ks, data). length data)") auto

declare temp_keys.simps [simp del]

text \<open>A descriptor at a key boundary of an open set.\<close>

definition temp_inv :: "nat \<Rightarrow> byte list \<Rightarrow> temp_info \<times> temp_rfd \<Rightarrow> bool" where
  "temp_inv ks data p \<longleftrightarrow> (case p of (info, mrfd) \<Rightarrow>
     temp_rep info data \<and> 0 < ks \<and> ks \<le> ti_buf_size info \<and> tr_pos_cur mrfd \<le> length data \<and>
     (ti_fname info \<longrightarrow> ti_fd info \<noteq> Fd_closed))"

lemma temp_rep_window:
  assumes rep: "temp_rep info data" and "ti_pos_buf info \<le> pos" "pos + ks \<le> ti_pos_border info"
  shows "take ks (drop (pos - ti_pos_buf info) (ti_buf_mem info)) = take ks (drop pos data)"
proof (rule nth_equalityI)
  show "length (take ks (drop (pos - ti_pos_buf info) (ti_buf_mem info))) = length (take ks (drop pos data))"
    using assms temp_repD(1-4) [OF rep] by auto
  fix i
  assume "i < length (take ks (drop (pos - ti_pos_buf info) (ti_buf_mem info)))"
  moreover have "pos - ti_pos_buf info \<le> length (ti_buf_mem info)" "pos \<le> length data"
    using assms(2,3) temp_repD(1-4) [OF rep] by linarith+
  ultimately show "take ks (drop (pos - ti_pos_buf info) (ti_buf_mem info)) ! i = take ks (drop pos data) ! i"
    using assms temp_repD(5) [OF rep, of "pos + i"] by simp
qed

text \<open>A read delivers the next \<open>ks\<close> bytes of the set, wherever the window is, and keeps what the set
  stands for.\<close>

lemma temp_read_spec:
  assumes inv: "temp_inv ks data (info, mrfd)"
  shows "if length data < tr_pos_cur mrfd + ks then temp_read ks t (info, mrfd) = Some ((info, mrfd), None)
    else \<exists>info'. temp_read ks t (info, mrfd) =
        Some ((info', \<lparr>tr_pos_cur = tr_pos_cur mrfd + ks, tr_cur = tr_cur mrfd + 1\<rparr>),
              Some (take ks (drop (tr_pos_cur mrfd) data), t)) \<and>
      temp_inv ks data (info', \<lparr>tr_pos_cur = tr_pos_cur mrfd + ks, tr_cur = tr_cur mrfd + 1\<rparr>)"
proof -
  have rep: "temp_rep info data" and ks: "0 < ks" "ks \<le> ti_buf_size info"
    and fd: "ti_fname info \<Longrightarrow> ti_fd info \<noteq> Fd_closed" and pos: "tr_pos_cur mrfd \<le> length data"
    using inv by (simp_all add: temp_inv_def)
  note d = temp_repD [OF rep]
  let ?nc = "tr_pos_cur mrfd + ks"
  show ?thesis
  proof (cases "tr_pos_cur mrfd < ti_pos_buf info \<or> ti_pos_border info < ?nc")
    case move: True
    show ?thesis
    proof (cases "length data < ?nc")
      case True
      with move d(1) show ?thesis by (simp add: temp_read_def)
    next
      case False
      have nf: "tr_pos_cur mrfd = 0" if "\<not> ti_fname info \<and> \<not> False"
        using d(1,3) d(8) that move False by auto
      have pos': "tr_pos_cur mrfd \<le> ti_pos_end info" using pos d(1) by simp
      obtain i1 i2 where i: "temp_flush False info = Some i1"
          "temp_reread mrfd (i1\<lparr>ti_pos_buf := tr_pos_cur mrfd\<rparr>) = Some i2" "temp_rep i2 data"
          "ti_pos_buf i2 = tr_pos_cur mrfd" "ti_buf_size i2 = ti_buf_size info" "ti_fname i2 \<longrightarrow> ti_fd i2 \<noteq> Fd_closed"
          "ti_pos_end i2 = ti_pos_end info"
        by (rule temp_move_window [OF rep fd pos' nf]) blast
      have "?nc \<le> ti_pos_border i2" using temp_repD(3) [OF i(3)] i(4,5,7) ks False d(1) by simp
      then have "take ks (drop (tr_pos_cur mrfd - ti_pos_buf i2) (ti_buf_mem i2)) = take ks (drop (tr_pos_cur mrfd) data)"
        by (intro temp_rep_window [OF i(3)]) (simp_all add: i(4))
      with i ks False move d(1) show ?thesis by (auto simp: temp_read_def temp_inv_def)
    qed
  next
    case False
    then have "take ks (drop (tr_pos_cur mrfd - ti_pos_buf info) (ti_buf_mem info)) = take ks (drop (tr_pos_cur mrfd) data)"
      by (intro temp_rep_window [OF rep]) auto
    moreover have "?nc \<le> length data" "?nc - ti_pos_buf info \<le> ti_buf_size info" using False d(1,3) by auto
    ultimately show ?thesis using False rep ks fd by (simp add: temp_read_def temp_inv_def)
  qed
qed


lemma temp_keys_concat:
  "0 < ks \<Longrightarrow> \<forall>k \<in> set keys. length k = ks \<Longrightarrow> temp_keys ks (concat keys) = keys"
  by (induction keys) (simp_all add: temp_keys.simps)

text \<open>The bytes a set stands for are a function of its state.\<close>

definition temp_data :: "temp_info \<Rightarrow> byte list" where
  "temp_data info = map (\<lambda>i. if ti_pos_buf info \<le> i \<and> i < ti_pos_border info
     then ti_buf_mem info ! (i - ti_pos_buf info) else ti_file info ! i) [0..<ti_pos_end info]"

lemma temp_rep_data:
  assumes rep: "temp_rep info data"
  shows "temp_data info = data"
proof (rule nth_equalityI)
  show "length (temp_data info) = length data" using temp_repD(1) [OF rep] by (simp add: temp_data_def)
  fix i
  assume "i < length (temp_data info)"
  then have i: "i < ti_pos_end info" by (simp add: temp_data_def)
  show "temp_data info ! i = data ! i"
  proof (cases "ti_pos_buf info \<le> i \<and> i < ti_pos_border info")
    case True
    with i temp_repD(5) [OF rep, of i] show ?thesis by (simp add: temp_data_def)
  next
    case False
    then have "ti_fname info" using temp_repD(3,8) [OF rep] i by (cases "ti_fname info") auto
    with False i temp_repD(7) [OF rep, of i] show ?thesis by (auto simp: temp_data_def)
  qed
qed

definition temp_contents :: "nat \<Rightarrow> 't option \<Rightarrow> temp_info \<times> temp_rfd \<Rightarrow> (byte list \<times> 't option) list" where
  "temp_contents ks t p = map (\<lambda>k. (k, t)) (temp_keys ks (drop (tr_pos_cur (snd p)) (temp_data (fst p))))"

definition temp_left :: "temp_info \<times> temp_rfd \<Rightarrow> nat" where
  "temp_left p = ti_pos_end (fst p) - tr_pos_cur (snd p)"

definition temp_ready :: "(byte list \<Rightarrow> bool) \<Rightarrow> (byte list \<Rightarrow> byte list \<Rightarrow> int) \<Rightarrow> nat \<Rightarrow> 't option \<Rightarrow>
    temp_info \<times> temp_rfd \<Rightarrow> bool" where
  "temp_ready ok cmp ks t p \<longleftrightarrow> temp_inv ks (temp_data (fst p)) p \<and> good_keys ok cmp (temp_contents ks t p)"

lemma temp_read_contents:
  assumes inv: "temp_inv ks (temp_data (fst p)) p"
  shows "\<exists>p' res. temp_read ks t p = Some (p', res) \<and> temp_inv ks (temp_data (fst p')) p' \<and>
    temp_contents ks t p = ahead res (temp_contents ks t p') \<and> (res = None \<longrightarrow> temp_contents ks t p' = []) \<and>
    (res \<noteq> None \<longrightarrow> temp_left p' < temp_left p)"
proof -
  obtain info mrfd where p: "p = (info, mrfd)" by (cases p)
  let ?data = "temp_data info"
  have i: "temp_inv ks ?data (info, mrfd)" using inv p by simp
  have ks: "0 < ks" and rep: "temp_rep info ?data" using i by (simp_all add: temp_inv_def)
  show ?thesis
  proof (cases "length ?data < tr_pos_cur mrfd + ks")
    case True
    then have "temp_contents ks t p = []" using ks by (simp add: temp_contents_def p temp_keys.simps)
    with True temp_read_spec [OF i, of t] i p show ?thesis by auto
  next
    case False
    let ?m = "\<lparr>tr_pos_cur = tr_pos_cur mrfd + ks, tr_cur = tr_cur mrfd + 1\<rparr>"
    obtain info' where r: "temp_read ks t (info, mrfd) = Some ((info', ?m), Some (take ks (drop (tr_pos_cur mrfd) ?data), t))"
        "temp_inv ks ?data (info', ?m)"
      using temp_read_spec [OF i, of t] False by auto
    have rep': "temp_rep info' ?data" using r(2) by (simp add: temp_inv_def)
    have d: "temp_data info' = ?data" by (rule temp_rep_data [OF rep'])
    have e: "ti_pos_end info' = ti_pos_end info" using temp_repD(1) [OF rep] temp_repD(1) [OF rep'] by simp
    have "temp_contents ks t p = (take ks (drop (tr_pos_cur mrfd) ?data), t) # temp_contents ks t (info', ?m)"
      using False ks d unfolding temp_contents_def p fst_conv snd_conv
      by (subst temp_keys.simps) (simp add: add.commute)
    moreover have "temp_left (info', ?m) < temp_left p"
      using False ks e temp_repD(1) [OF rep] by (simp add: temp_left_def p)
    ultimately show ?thesis using r d p by simp
  qed
qed

lemma temp_raw:
  assumes "key_cmp_order ok cmp" and "0 < scope"
  shows "rset_raw ok cmp scope (on_priv (temp_read ks t)) None (temp_contents ks t) temp_left (temp_ready ok cmp ks t)"
proof (rule on_priv_raw [OF assms])
  fix p
  assume "temp_ready ok cmp ks t p"
  then have inv: "temp_inv ks (temp_data (fst p)) p" and good: "good_keys ok cmp (temp_contents ks t p)"
    by (simp_all add: temp_ready_def)
  show "reads_ahead (temp_read ks t) (temp_contents ks t) temp_left (temp_ready ok cmp ks t) p"
    using temp_read_contents [OF inv, of t] good unfolding reads_ahead_def temp_ready_def
    by (metis ahead_def good_keys_simps option.case_eq_if)
qed (simp_all add: temp_ready_def)

section \<open>Writing\<close>

text \<open>Storing a key in a window that has room for it.\<close>

lemma temp_store:
  assumes rep: "temp_rep (info\<lparr>ti_pos_border := b\<rparr>) data"
    and b: "ti_pos_border info = b \<or> ti_pos_end info < pos + ks"
    and pos: "ti_pos_buf info \<le> pos" "pos + ks \<le> ti_pos_buf info + ti_buf_size info" "pos \<le> ti_pos_end info"
    and fd: "ti_fname info \<Longrightarrow> ti_fd info = Fd_rdwr" and k: "length k = ks" "0 < ks"
  defines "mem \<equiv> take (pos - ti_pos_buf info) (ti_buf_mem info) @ k @ drop (pos - ti_pos_buf info + ks) (ti_buf_mem info)"
  defines "info2 \<equiv> info\<lparr>ti_dirty := True, ti_buf_mem := mem\<rparr>"
  defines "info3 \<equiv> (if ti_pos_end info2 < pos + ks
     then info2\<lparr>ti_pos_border := pos + ks, ti_pos_end := pos + ks\<rparr> else info2)"
  shows "temp_rep (info3\<lparr>ti_hits := h\<rparr>) (take pos data @ k @ drop (pos + ks) data)"
proof -
  note d = temp_repD [OF rep, simplified]
  let ?data = "take pos data @ k @ drop (pos + ks) data"
  have e: "ti_pos_end info3 = max (ti_pos_end info) (pos + ks)"
    "ti_pos_border info3 = min (ti_pos_buf info + ti_buf_size info) (max (ti_pos_end info) (pos + ks))"
    "ti_pos_buf info3 = ti_pos_buf info" "ti_buf_size info3 = ti_buf_size info" "ti_buf_mem info3 = mem"
    "ti_fname info3 = ti_fname info" "ti_fd info3 = ti_fd info" "ti_file info3 = ti_file info" "ti_dirty info3"
    using b d(3) pos by (auto simp: info3_def info2_def min_def max_def)
  have old: "ti_buf_mem info ! (i - ti_pos_buf info) = data ! i"
    if "ti_pos_buf info \<le> i" "i < ti_pos_border info3" "i < ti_pos_end info" for i
    using d(5) [of i] d(3) that e(2) by simp
  have mem: "length mem = ti_buf_size info" using pos d(4) k by (simp add: mem_def)
  have data: "length ?data = max (ti_pos_end info) (pos + ks)" using d(1) pos k by simp
  have win: "mem ! (i - ti_pos_buf info) = ?data ! i" if i: "ti_pos_buf info \<le> i" "i < ti_pos_border info3" for i
  proof -
    consider (before) "i < pos" | (key) "pos \<le> i" "i < pos + ks" | (after) "pos + ks \<le> i" by linarith
    then show ?thesis
    proof cases
      case before
      then have "i - ti_pos_buf info < pos - ti_pos_buf info" using i by linarith
      with before i pos d(1,4) old [of i] show ?thesis by (simp add: mem_def nth_append)
    next
      case key
      then have "\<not> i - ti_pos_buf info < pos - ti_pos_buf info" "i - pos < ks" using i pos by linarith+
      with key i pos d(1,4) k show ?thesis by (simp add: mem_def nth_append)
    next
      case after
      moreover have "i - ti_pos_buf info < ti_buf_size info" "i < ti_pos_end info" using i e(2) after pos by auto
      ultimately show ?thesis using i pos d(1,4) k old [of i] by (simp add: mem_def nth_append)
    qed
  qed
  have outside: "i < length (ti_file info) \<and> ti_file info ! i = ?data ! i"
    if "ti_fname info" "i < ti_pos_end info3" "i < ti_pos_buf info \<or> ti_pos_border info3 \<le> i" for i
  proof -
    have i: "i < pos \<or> pos + ks \<le> i" "i < ti_pos_end info" using that pos e(1,2) by auto
    have "i < ti_pos_buf info \<or> b \<le> i" using that(3) d(3) e(2) by auto
    with d(7) [of i] that(1) i(2) have "i < length (ti_file info) \<and> ti_file info ! i = data ! i" by simp
    moreover have "?data ! i = data ! i" using i pos d(1) k by (auto simp: nth_append)
    ultimately show ?thesis by simp
  qed
  have nofile: "ti_pos_buf info = 0 \<and> max (ti_pos_end info) (pos + ks) \<le> ti_buf_size info" if "\<not> ti_fname info"
    using d(8) that pos by simp
  show ?thesis
    using e mem data win outside fd nofile pos by (simp add: temp_rep_def) (auto simp: less_max_iff_disj le_max_iff_disj)
qed

text \<open>A descriptor that writes: its window starts at or before its position.\<close>

definition temp_writer :: "nat \<Rightarrow> byte list \<Rightarrow> temp_info \<times> temp_rfd \<Rightarrow> bool" where
  "temp_writer ks data p \<longleftrightarrow> temp_inv ks data p \<and> ti_pos_buf (fst p) \<le> tr_pos_cur (snd p) \<and>
     (ti_fname (fst p) \<longrightarrow> ti_fd (fst p) = Fd_rdwr)"

lemma temp_clean_at_end:
  assumes "temp_clean i1 data" "ti_fname i1"
  shows "temp_rep (i1\<lparr>ti_pos_buf := ti_pos_end i1, ti_pos_border := ti_pos_end i1\<rparr>) data"
  using temp_cleanD [OF assms(1)] assms(2) by (auto simp: temp_rep_def)

lemma temp_write_spec:
  assumes w: "temp_writer ks data (info, mrfd)" and k: "length k = ks"
  shows "\<exists>info'. temp_write ks k (info, mrfd) = Some (info', mrfd\<lparr>tr_pos_cur := tr_pos_cur mrfd + ks\<rparr>) \<and>
    temp_writer ks (take (tr_pos_cur mrfd) data @ k @ drop (tr_pos_cur mrfd + ks) data)
      (info', mrfd\<lparr>tr_pos_cur := tr_pos_cur mrfd + ks\<rparr>)"
proof -
  let ?pos = "tr_pos_cur mrfd" and ?nc = "tr_pos_cur mrfd + ks"
  have rep: "temp_rep info data" and ks: "0 < ks" "ks \<le> ti_buf_size info"
    and fd: "ti_fname info \<Longrightarrow> ti_fd info = Fd_rdwr" and pos: "?pos \<le> ti_pos_end info" "ti_pos_buf info \<le> ?pos"
    and len: "length data = ti_pos_end info"
    using w temp_repD(1) by (auto simp: temp_writer_def temp_inv_def)
  obtain i b where i: "temp_write_window ks mrfd info = Some i" "temp_rep (i\<lparr>ti_pos_border := b\<rparr>) data"
      "ti_pos_border i = b \<or> ti_pos_end i < ?nc" "ti_pos_buf i \<le> ?pos" "?nc \<le> ti_pos_buf i + ti_buf_size i"
      "?pos \<le> ti_pos_end i" "ti_fname i \<longrightarrow> ti_fd i = Fd_rdwr" "ti_buf_size i = ti_buf_size info"
  proof (cases "ti_pos_buf info + ti_buf_size info < ?nc")
    case False
    then show ?thesis using that [of info "ti_pos_border info"] rep fd pos by (simp add: temp_write_window_def)
  next
    case True
    have fdc: "ti_fname info \<Longrightarrow> ti_fd info \<noteq> Fd_closed" using fd by simp
    obtain i1 i2 where m: "temp_flush True info = Some i1" "ti_pos_end i1 = ti_pos_end info" "temp_clean i1 data"
        "ti_buf_size i1 = ti_buf_size info" "ti_fname i1 = (ti_fname info \<or> True)"
        "ti_fd info = Fd_rdwr \<or> True \<and> \<not> ti_fname info \<longrightarrow> ti_fd i1 = Fd_rdwr"
        "temp_reread mrfd (i1\<lparr>ti_pos_buf := ?pos\<rparr>) = Some i2" "temp_rep i2 data"
        "ti_pos_buf i2 = ?pos" "ti_pos_end i2 = ti_pos_end info" "ti_buf_size i2 = ti_buf_size info"
        "ti_fd i2 = ti_fd i1"
      by (rule temp_move_window [OF rep fdc pos(1), of True]) auto
    have rw: "ti_fd i1 = Fd_rdwr" using m(6) fd by blast
    show ?thesis
    proof (cases "?pos < ti_pos_end info")
      case less: True
      then show ?thesis using that [of i2 "ti_pos_border i2"] True m rw ks by (simp add: temp_write_window_def)
    next
      case False
      then have "temp_rep (i1\<lparr>ti_pos_buf := ?pos, ti_pos_border := ti_pos_end i1\<rparr>) data"
        using temp_clean_at_end [OF m(3)] m(2,5) pos(1) by simp
      with False show ?thesis
        using that [of "i1\<lparr>ti_pos_buf := ?pos\<rparr>" "ti_pos_end i1"] True m rw ks pos by (simp add: temp_write_window_def)
    qed
  qed
  have fd': "ti_fname i \<Longrightarrow> ti_fd i = Fd_rdwr" using i(7) by blast
  note st = temp_store [OF i(2,3,4,5,6) fd' k ks(1)]
  define mem where "mem = take (?pos - ti_pos_buf i) (ti_buf_mem i) @ k @ drop (?pos - ti_pos_buf i + ks) (ti_buf_mem i)"
  define i2 where "i2 = i\<lparr>ti_dirty := True, ti_buf_mem := mem\<rparr>"
  define i3 where "i3 = (if ti_pos_end i2 < ?nc then i2\<lparr>ti_pos_border := ?nc, ti_pos_end := ?nc\<rparr> else i2)"
  define i4 where "i4 = i3\<lparr>ti_hits := ti_hits i3 + 1\<rparr>"
  have rep4: "temp_rep i4 (take ?pos data @ k @ drop ?nc data)"
    using st [of "ti_hits i3 + 1", folded mem_def, folded i2_def, folded i3_def] by (simp add: i4_def)
  have f4: "ti_pos_buf i4 = ti_pos_buf i" "ti_fname i4 = ti_fname i" "ti_fd i4 = ti_fd i" "ti_buf_size i4 = ti_buf_size i"
    by (simp_all add: i4_def i3_def i2_def)
  have "temp_write_key ks k mrfd i = Some (i4, mrfd\<lparr>tr_pos_cur := ?nc\<rparr>)"
    using i(4,5) k by (simp add: temp_write_key_def Let_def i4_def i3_def i2_def mem_def)
  moreover have "temp_writer ks (take ?pos data @ k @ drop ?nc data) (i4, mrfd\<lparr>tr_pos_cur := ?nc\<rparr>)"
    using i(4,7,8) rep4 f4 ks pos len k by (simp add: temp_writer_def temp_inv_def)
  ultimately show ?thesis using i(1) by (simp add: temp_write_def)
qed

lemma temp_write_all_spec:
  assumes "temp_writer ks data (info, mrfd)" "tr_pos_cur mrfd = length data" "\<forall>k \<in> set keys. length k = ks"
  shows "\<exists>p. temp_write_all ks keys (info, mrfd) = Some p \<and> temp_writer ks (data @ concat keys) p"
  using assms
proof (induction keys arbitrary: info mrfd data)
  case (Cons k keys)
  then have k: "length k = ks" by simp
  obtain info' where w: "temp_write ks k (info, mrfd) = Some (info', mrfd\<lparr>tr_pos_cur := tr_pos_cur mrfd + ks\<rparr>)"
      "temp_writer ks (data @ k) (info', mrfd\<lparr>tr_pos_cur := tr_pos_cur mrfd + ks\<rparr>)"
    using temp_write_spec [OF Cons.prems(1) k] Cons.prems(2) by auto
  with Cons.IH [OF w(2)] Cons.prems show ?case by simp
qed auto

lemma temp_open_spec:
  assumes rep: "temp_rep info data" and ks: "0 < ks" "ks \<le> ti_buf_size info"
    and cl: "ti_fname info \<Longrightarrow> ti_fd info = Fd_closed \<Longrightarrow> \<not> ti_dirty info"
  shows "\<exists>info'. temp_open wr info = Some (info', \<lparr>tr_pos_cur = 0, tr_cur = 0\<rparr>) \<and>
    temp_inv ks data (info', \<lparr>tr_pos_cur = 0, tr_cur = 0\<rparr>) \<and>
    (wr \<and> ti_fd info = Fd_closed \<longrightarrow> temp_writer ks data (info', \<lparr>tr_pos_cur = 0, tr_cur = 0\<rparr>))"
proof -
  let ?m = "\<lparr>tr_pos_cur = 0, tr_cur = 0\<rparr>"
  define i0 where "i0 = (if ti_fd info = Fd_closed \<and> ti_fname info
    then info\<lparr>ti_fd := (if wr then Fd_rdwr else Fd_rdonly)\<rparr> else info)"
  have i0: "ti_fname i0 = ti_fname info" "ti_buf_size i0 = ti_buf_size info" "ti_fname i0 \<Longrightarrow> ti_fd i0 \<noteq> Fd_closed"
    "wr \<Longrightarrow> ti_fd info = Fd_closed \<Longrightarrow> ti_fname info \<Longrightarrow> ti_fd i0 = Fd_rdwr"
    by (auto simp: i0_def split: if_splits)
  have rep0: "temp_rep i0 data"
    using rep cl by (auto simp: i0_def temp_rep_def)
  obtain i1 i2 where m: "temp_flush False i0 = Some i1" "temp_reread ?m (i1\<lparr>ti_pos_buf := tr_pos_cur ?m\<rparr>) = Some i2"
      "temp_rep i2 data" "ti_pos_buf i2 = tr_pos_cur ?m" "ti_buf_size i2 = ti_buf_size i0"
      "ti_fname i2 = (ti_fname i0 \<or> False)" "ti_fname i2 \<longrightarrow> ti_fd i2 \<noteq> Fd_closed" "ti_fd i2 = ti_fd i1"
      "ti_fd i0 = Fd_rdwr \<or> False \<and> \<not> ti_fname i0 \<longrightarrow> ti_fd i1 = Fd_rdwr"
    by (rule temp_move_window [OF rep0 i0(3), of ?m False]) auto
  then have "temp_open wr info = Some (i2, ?m)"
    by (simp add: temp_open_def i0_def [symmetric] Let_def)
  with m i0 ks show ?thesis by (auto simp: temp_inv_def temp_writer_def)
qed

lemma temp_close_spec:
  assumes "temp_inv ks data (info, mrfd)"
  shows "\<exists>info'. temp_close True info = Some info' \<and> temp_rep info' data \<and> ti_buf_size info' = ti_buf_size info \<and>
    ti_fd info' = (if ti_fname info then Fd_closed else ti_fd info) \<and> (ti_fname info' \<longrightarrow> \<not> ti_dirty info')"
proof -
  have rep: "temp_rep info data" and fd: "ti_fname info \<Longrightarrow> ti_fd info \<noteq> Fd_closed"
    using assms by (simp_all add: temp_inv_def)
  show ?thesis
  proof (cases "ti_fname info \<and> ti_dirty info")
    case False
    then have "temp_flush False info = Some info" by (auto simp: temp_flush_def)
    with rep False fd show ?thesis by (auto simp: temp_close_def temp_rep_def)
  next
    case True
    then have rw: "ti_fd info = Fd_rdwr" using temp_repD(6) [OF rep] by blast
    define f where "f = file_pwrite (ti_file info) (ti_pos_buf info)
        (take (min (ti_buf_size info) (ti_pos_end info - ti_pos_buf info)) (ti_buf_mem info))"
    have f: "i < length f \<and> f ! i = data ! i" if "i < ti_pos_end info" for i
      unfolding f_def by (rule temp_flush_bytes [OF rep that]) simp
    have "temp_flush False info = Some (info\<lparr>ti_file := f, ti_dirty := False\<rparr>)"
      using True rw by (simp add: temp_flush_def f_def Let_def)
    then have "temp_close True info = Some (info\<lparr>ti_file := f, ti_dirty := False, ti_fd := Fd_closed\<rparr>)"
      using True rw by (simp add: temp_close_def)
    moreover have "temp_rep (info\<lparr>ti_file := f, ti_dirty := False, ti_fd := Fd_closed\<rparr>) data"
      using temp_repD(1-5) [OF rep] f True by (simp add: temp_rep_def)
    ultimately show ?thesis using True by simp
  qed
qed

section \<open>Writing a set and reading it back\<close>

definition temp_fill :: "nat \<Rightarrow> byte list list \<Rightarrow> temp_info option" where
  "temp_fill ks keys = do {
     p \<leftarrow> temp_open True rset_create_temp;
     (info, mrfd) \<leftarrow> temp_write_all ks keys p;
     temp_close True info
   }"

lemma temp_fill_spec:
  assumes ks: "0 < ks" "ks \<le> 4096" and keys: "\<forall>k \<in> set keys. length k = ks"
  shows "\<exists>info p. temp_fill ks keys = Some info \<and> temp_open False info = Some p \<and>
    temp_inv ks (temp_data (fst p)) p \<and> temp_contents ks t p = map (\<lambda>k. (k, t)) keys"
proof -
  let ?m = "\<lparr>tr_pos_cur = 0, tr_cur = 0\<rparr>"
  have "temp_rep rset_create_temp []" "0 < ks" "ks \<le> ti_buf_size rset_create_temp"
    using ks by (simp_all add: temp_rep_def rset_create_temp_def)
  then obtain i1 where i1: "temp_open True rset_create_temp = Some (i1, ?m)" "temp_writer ks [] (i1, ?m)"
    using temp_open_spec [of rset_create_temp "[]" ks True] by (auto simp: rset_create_temp_def)
  obtain i2 m2 where i2: "temp_write_all ks keys (i1, ?m) = Some (i2, m2)" "temp_inv ks (concat keys) (i2, m2)"
    using temp_write_all_spec [OF i1(2) _ keys] by (auto simp: temp_writer_def)
  obtain i3 where i3: "temp_close True i2 = Some i3" "temp_rep i3 (concat keys)" "ti_buf_size i3 = ti_buf_size i2"
      "ti_fname i3 \<longrightarrow> \<not> ti_dirty i3"
    using temp_close_spec [OF i2(2)] by blast
  have ks3: "ks \<le> ti_buf_size i3" using i2(2) i3(3) by (simp add: temp_inv_def)
  obtain i4 where i4: "temp_open False i3 = Some (i4, ?m)" "temp_inv ks (concat keys) (i4, ?m)"
    using temp_open_spec [OF i3(2) ks(1) ks3, of False] i3(4) by blast
  have "temp_data i4 = concat keys" using i4(2) temp_rep_data by (simp add: temp_inv_def)
  moreover have "temp_fill ks keys = Some i3" using i1 i2 i3 by (simp add: temp_fill_def)
  ultimately show ?thesis
    using i4 ks(1) keys by (simp add: temp_contents_def temp_keys_concat)
qed

end
