(* ===== verification/Rset_Bool.thy ===== *)
theory Rset_Bool
  imports Rset_Base
begin

text \<open>
  The \<^verbatim>\<open>not\<close> result set (\<^verbatim>\<open>rset/rsbool.c\<close>): the keys of the left set whose record does not occur in the
  right set. The operations take the comparison, the scope and the two operations of the children
  (\<^verbatim>\<open>rset_read\<close>, \<^verbatim>\<open>rset_forward\<close>) as arguments, which in C come through the descriptors. A key buffer
  that has not been filled yet is \<open>None\<close>; it is only looked at when the \<^verbatim>\<open>more\<close> flag is set.
\<close>

section \<open>Operations\<close>

record ('s, 'k, 't) not_rfd =
  nt_hits :: int
  nt_rfd_l :: 's
  nt_rfd_r :: 's
  nt_more_l :: bool
  nt_more_r :: bool
  nt_buf_l :: "'k option"
  nt_buf_r :: "'k option"
  nt_term_l :: "'t option"
  nt_term_r :: "'t option"
  nt_tail :: int

text \<open>\<^verbatim>\<open>p->more_l = rset_read(p->rfd_l, p->buf_l, &p->term_l)\<close> and its right-hand counterpart: at the end of
  the set the buffer keeps its old contents.\<close>

definition nt_load_l :: "('s, 'k, 't) not_rfd \<Rightarrow> 's \<times> ('k \<times> 't option) option \<Rightarrow> ('s, 'k, 't) not_rfd" where
  "nt_load_l p res = (case res of
     (s, None) \<Rightarrow> p\<lparr>nt_rfd_l := s, nt_more_l := False\<rparr>
   | (s, Some (k, t)) \<Rightarrow> p\<lparr>nt_rfd_l := s, nt_more_l := True, nt_buf_l := Some k, nt_term_l := t\<rparr>)"

definition nt_load_r :: "('s, 'k, 't) not_rfd \<Rightarrow> 's \<times> ('k \<times> 't option) option \<Rightarrow> ('s, 'k, 't) not_rfd" where
  "nt_load_r p res = (case res of
     (s, None) \<Rightarrow> p\<lparr>nt_rfd_r := s, nt_more_r := False\<rparr>
   | (s, Some (k, t)) \<Rightarrow> p\<lparr>nt_rfd_r := s, nt_more_r := True, nt_buf_r := Some k, nt_term_r := t\<rparr>)"

definition rsbool_open :: "('s \<Rightarrow> ('s, 'k, 't) rd_result) \<Rightarrow> 's \<Rightarrow> 's \<Rightarrow> ('s, 'k, 't) not_rfd option" where
  "rsbool_open rd l r =
     do {
       lres \<leftarrow> rd l;
       rres \<leftarrow> rd r;
       Some ((nt_load_r (nt_load_l
          \<lparr>nt_hits = 0, nt_rfd_l = l, nt_rfd_r = r, nt_more_l = False, nt_more_r = False,
            nt_buf_l = None, nt_buf_r = None, nt_term_l = None, nt_term_r = None, nt_tail = 0\<rparr>
          lres) rres)\<lparr>nt_tail := 0\<rparr>)
     }"

partial_function (option) nt_skip_l ::
  "('k \<Rightarrow> 'k \<Rightarrow> int) \<Rightarrow> int \<Rightarrow> ('s \<Rightarrow> ('s, 'k, 't) rd_result) \<Rightarrow> 'k \<Rightarrow>
   ('s, 'k, 't) not_rfd \<Rightarrow> ('s, 'k, 't) not_rfd option" where
  "nt_skip_l cmp scope rd buf p =
     do {
       res \<leftarrow> rd (nt_rfd_l p);
       let p' = nt_load_l p res;
       if \<not> nt_more_l p' then Some p'
       else if \<bar>cmp (the (nt_buf_l p')) buf\<bar> < scope then nt_skip_l cmp scope rd buf p'
       else Some p'
     }"

partial_function (option) nt_skip_r ::
  "('k \<Rightarrow> 'k \<Rightarrow> int) \<Rightarrow> int \<Rightarrow> ('s \<Rightarrow> ('s, 'k, 't) rd_result) \<Rightarrow> 'k \<Rightarrow>
   ('s, 'k, 't) not_rfd \<Rightarrow> ('s, 'k, 't) not_rfd option" where
  "nt_skip_r cmp scope rd buf p =
     do {
       res \<leftarrow> rd (nt_rfd_r p);
       let p' = nt_load_r p res;
       if \<not> nt_more_r p' then Some p'
       else if \<bar>cmp (the (nt_buf_r p')) buf\<bar> < scope then nt_skip_r cmp scope rd buf p'
       else Some p'
     }"

partial_function (option) r_read_not ::
  "('k \<Rightarrow> 'k \<Rightarrow> int) \<Rightarrow> int \<Rightarrow> ('s \<Rightarrow> ('s, 'k, 't) rd_result) \<Rightarrow> ('s \<Rightarrow> 'k \<Rightarrow> ('s, 'k, 't) rd_result) \<Rightarrow>
   ('s, 'k, 't) not_rfd \<Rightarrow> (('s, 'k, 't) not_rfd, 'k, 't) rd_result" where
  "r_read_not cmp scope rd fw p =
     (if \<not> nt_more_l p then Some (p, None)
      else
        (let c = (if nt_more_r p then cmp (the (nt_buf_l p)) (the (nt_buf_r p)) else - scope) in
         if c \<le> - scope then
           do {
             res \<leftarrow> rd (nt_rfd_l p);
             Some ((nt_load_l p res)\<lparr>nt_hits := nt_hits p + 1\<rparr>, Some (the (nt_buf_l p), nt_term_l p))
           }
         else if scope \<le> c then
           do {
             res \<leftarrow> fw (nt_rfd_r p) (the (nt_buf_l p));
             r_read_not cmp scope rd fw (nt_load_r p res)
           }
         else
           (let buf = the (nt_buf_l p) in
            do {
              p1 \<leftarrow> nt_skip_l cmp scope rd buf p;
              p2 \<leftarrow> nt_skip_r cmp scope rd buf p1;
              r_read_not cmp scope rd fw p2
            })))"

definition rsbool_forward ::
  "'k rset_base \<Rightarrow> ('s \<Rightarrow> ('s, 'k, 't) rd_result) \<Rightarrow> ('s \<Rightarrow> 'k \<Rightarrow> ('s, 'k, 't) rd_result) \<Rightarrow>
   (('s, 'k, 't) not_rfd, 'k) rsfd \<Rightarrow> 'k \<Rightarrow> ((('s, 'k, 't) not_rfd, 'k) rsfd, 'k, 't) rd_result" where
  "rsbool_forward rs rd fw rfd untilbuf =
     (let p = rsfd_priv rfd in
      do {
        p1 \<leftarrow> (if nt_more_l p \<and> rs_scope rs \<le> rs_cmp rs untilbuf (the (nt_buf_l p))
               then map_option (nt_load_l p) (fw (nt_rfd_l p) untilbuf) else Some p);
        p2 \<leftarrow> (if nt_more_r p1 \<and> rs_scope rs \<le> rs_cmp rs untilbuf (the (nt_buf_r p1))
               then map_option (nt_load_r p1) (fw (nt_rfd_r p1) untilbuf) else Some p1);
        rset_default_read rs (on_priv (r_read_not (rs_cmp rs) (rs_scope rs) rd fw))
          (rfd\<lparr>rsfd_priv := p2\<lparr>nt_tail := 0\<rparr>\<rparr>)
      })"

section \<open>What is still to be read\<close>

text \<open>The lookahead key together with the child's remaining keys.\<close>

definition nt_left :: "('s \<Rightarrow> ('k \<times> 't option) list) \<Rightarrow> ('s, 'k, 't) not_rfd \<Rightarrow> ('k \<times> 't option) list" where
  "nt_left contents p = (if nt_more_l p then (the (nt_buf_l p), nt_term_l p) # contents (nt_rfd_l p) else [])"

definition nt_right :: "('s \<Rightarrow> ('k \<times> 't option) list) \<Rightarrow> ('s, 'k, 't) not_rfd \<Rightarrow> ('k \<times> 't option) list" where
  "nt_right contents p = (if nt_more_r p then (the (nt_buf_r p), nt_term_r p) # contents (nt_rfd_r p) else [])"

definition diff_keys ::
  "('k \<Rightarrow> 'k \<Rightarrow> int) \<Rightarrow> int \<Rightarrow> ('k \<times> 't) list \<Rightarrow> ('k \<times> 't) list \<Rightarrow> ('k \<times> 't) list" where
  "diff_keys cmp scope xs ys = filter (\<lambda>x. \<not> (\<exists>y \<in> set ys. \<bar>cmp (fst x) (fst y)\<bar> < scope)) xs"

lemma nt_load_simps [rset_laws]:
  "nt_left c (nt_load_l p (s, Some x)) = x # c s"
  "nt_left c (nt_load_l p (s, None)) = []"
  "nt_left c (nt_load_r p res) = nt_left c p"
  "nt_right c (nt_load_r p (s, Some x)) = x # c s"
  "nt_right c (nt_load_r p (s, None)) = []"
  "nt_right c (nt_load_l p res) = nt_right c p"
  by (simp_all add: nt_left_def nt_right_def nt_load_l_def nt_load_r_def split: prod.splits option.splits)

lemma nt_load_fields [rset_laws]:
  "nt_rfd_l (nt_load_l p (s, x)) = s" "nt_rfd_r (nt_load_l p res) = nt_rfd_r p"
  "nt_rfd_r (nt_load_r p (s, x)) = s" "nt_rfd_l (nt_load_r p res) = nt_rfd_l p"
  "nt_more_l (nt_load_l p (s, x)) = (x \<noteq> None)" "nt_more_l (nt_load_r p res) = nt_more_l p"
  "nt_more_r (nt_load_r p (s, x)) = (x \<noteq> None)" "nt_more_r (nt_load_l p res) = nt_more_r p"
  by (simp_all add: nt_load_l_def nt_load_r_def split: prod.splits option.splits)

lemma nt_left_upd [rset_laws]:
  "nt_left c (p\<lparr>nt_hits := h\<rparr>) = nt_left c p" "nt_right c (p\<lparr>nt_hits := h\<rparr>) = nt_right c p"
  "nt_left c (p\<lparr>nt_tail := i\<rparr>) = nt_left c p" "nt_right c (p\<lparr>nt_tail := i\<rparr>) = nt_right c p"
  by (simp_all add: nt_left_def nt_right_def)

definition nt_contents ::
  "('k \<Rightarrow> 'k \<Rightarrow> int) \<Rightarrow> int \<Rightarrow> ('s \<Rightarrow> ('k \<times> 't option) list) \<Rightarrow> ('s, 'k, 't) not_rfd \<Rightarrow> ('k \<times> 't option) list" where
  "nt_contents cmp scope contents p = diff_keys cmp scope (nt_left contents p) (nt_right contents p)"

definition nt_inv ::
  "('k \<Rightarrow> bool) \<Rightarrow> ('k \<Rightarrow> 'k \<Rightarrow> int) \<Rightarrow> ('s \<Rightarrow> ('k \<times> 't option) list) \<Rightarrow> ('s \<Rightarrow> bool) \<Rightarrow>
   ('s, 'k, 't) not_rfd \<Rightarrow> bool" where
  "nt_inv ok cmp contents invar p \<longleftrightarrow> invar (nt_rfd_l p) \<and> invar (nt_rfd_r p) \<and>
     good_keys ok cmp (nt_left contents p) \<and> good_keys ok cmp (nt_right contents p)"

definition nt_work :: "('s \<Rightarrow> nat) \<Rightarrow> ('s, 'k, 't) not_rfd \<Rightarrow> nat" where
  "nt_work work p = (if nt_more_l p then Suc (work (nt_rfd_l p)) else 0) +
                    (if nt_more_r p then Suc (work (nt_rfd_r p)) else 0)"

lemma nt_load_ahead [rset_laws]:
  "nt_left c (nt_load_l p (s, res)) = ahead res (c s)"
  "nt_right c (nt_load_r p (s, res)) = ahead res (c s)"
  by (cases res; simp add: rset_laws)+

section \<open>Correctness\<close>

lemma diff_keys_append: "diff_keys cmp scope (xs @ xs') ys = diff_keys cmp scope xs ys @ diff_keys cmp scope xs' ys"
  by (simp add: diff_keys_def)

lemma diff_keys_set_right: "set ys = set ys' \<Longrightarrow> diff_keys cmp scope xs ys = diff_keys cmp scope xs ys'"
  by (simp add: diff_keys_def)

lemma mset_diff_keys: "mset xs = mset xs' \<Longrightarrow> mset (diff_keys cmp scope xs ys) = mset (diff_keys cmp scope xs' ys)"
  by (simp add: diff_keys_def mset_filter)

lemma diff_keys_Nil: "diff_keys cmp scope [] ys = []"
  by (simp add: diff_keys_def)

context rset_reader
begin

abbreviation same_rec :: "'k \<Rightarrow> 'k \<times> 't option \<Rightarrow> bool" where
  "same_rec k x \<equiv> \<bar>cmp (fst x) k\<bar> < scope"

lemma dropWhile_after:
  assumes "ok k" "good_keys ok cmp xs" "\<forall>x \<in> set xs. cmp k (fst x) \<le> 0"
    and "z \<in> set (dropWhile (same_rec k) xs)"
  shows "cmp k (fst z) \<le> - scope"
  using assms(2-4)
proof (induction xs)
  case Nil
  then show ?case by simp
next
  case (Cons x xs)
  show ?case
  proof (cases "same_rec k x")
    case True
    with Cons show ?thesis by simp
  next
    case False
    have x: "ok (fst x)" "cmp k (fst x) \<le> 0" using Cons.prems by auto
    then have kx: "cmp k (fst x) \<le> - scope"
      using False anti [OF assms(1) x(1)] by auto
    from False Cons.prems(3) have "z = x \<or> z \<in> set xs" by simp
    then show ?thesis
    proof
      assume "z \<in> set xs"
      with Cons.prems have "ok (fst z)" "cmp (fst x) (fst z) \<le> 0" by (auto simp: good_keys_def)
      with kx x assms(1) scope_pos show ?thesis using before_le [of k "fst x" "fst z" scope] by simp
    qed (use kx in simp)
  qed
qed

text \<open>Records before \<open>k\<close> on the right do not matter to keys from \<open>k\<close> on.\<close>

lemma diff_keys_from_right:
  assumes "ok k" "\<forall>x \<in> set xs. ok (fst x) \<and> cmp k (fst x) < scope"
    and "\<forall>y \<in> set ys. ok (fst y)"
  shows "diff_keys cmp scope xs ys = diff_keys cmp scope xs (from_key cmp scope k ys)"
proof -
  have far: "\<not> \<bar>cmp (fst x) (fst y)\<bar> < scope"
    if "x \<in> set xs" "y \<in> set ys" "\<not> cmp k (fst y) < scope" for x y
  proof
    assume s: "\<bar>cmp (fst x) (fst y)\<bar> < scope"
    have o: "ok (fst x)" "ok (fst y)" "cmp k (fst x) < scope" "cmp (fst y) k \<le> - scope"
      using that assms anti [of k "fst y"] by auto
    from same_before [OF o(1,2) assms(1) scope_pos s o(4)] have "cmp (fst x) k \<le> - scope" .
    with o anti [of k "fst x"] assms(1) show False by simp
  qed
  show ?thesis
    unfolding diff_keys_def from_key_def
  proof (rule filter_cong [OF refl])
    fix x
    assume "x \<in> set xs"
    with far show "(\<not> (\<exists>y \<in> set ys. \<bar>cmp (fst x) (fst y)\<bar> < scope)) =
        (\<not> (\<exists>y \<in> set (filter (\<lambda>x. cmp k (fst x) < scope) ys). \<bar>cmp (fst x) (fst y)\<bar> < scope))"
      unfolding set_filter by blast
  qed
qed

lemma diff_keys_same_record:
  assumes k: "ok k" and l: "good_keys ok cmp xs" "\<forall>x \<in> set xs. cmp k (fst x) \<le> 0"
    and r: "good_keys ok cmp (y # ys)" "same_rec k y"
  shows "diff_keys cmp scope xs (y # ys) =
    diff_keys cmp scope (dropWhile (same_rec k) xs) (dropWhile (same_rec k) ys)"
proof -
  let ?sx = "takeWhile (same_rec k) xs" and ?dx = "dropWhile (same_rec k) xs"
  have ky: "\<bar>cmp k (fst y)\<bar> < scope" using r k same_sym [of "fst y" k scope] by simp
  have gone: "\<bar>cmp (fst x) (fst y)\<bar> < scope" if "x \<in> set ?sx" for x
  proof -
    have "same_rec k x" "x \<in> set xs" using that by (auto dest: set_takeWhileD)
    with l k r ky show ?thesis using good_keys_ok [OF l(1)] same_trans [of "fst x" k "fst y" scope] by simp
  qed
  have far: "\<not> \<bar>cmp (fst x) (fst z)\<bar> < scope"
    if "x \<in> set ?dx" "z \<in> set (y # takeWhile (same_rec k) ys)" for x z
  proof
    assume xz: "\<bar>cmp (fst x) (fst z)\<bar> < scope"
    have o: "ok (fst x)" "ok (fst z)" and kz: "same_rec k z"
    proof -
      have x: "x \<in> set xs" and z: "z \<in> set (y # ys)" and "z = y \<or> z \<in> set (takeWhile (same_rec k) ys)"
        using that by (auto dest: set_dropWhileD set_takeWhileD)
      then show "ok (fst x)" "ok (fst z)" "same_rec k z"
        using good_keys_ok [OF l(1) x] good_keys_ok [OF r(1) z] r(2) by (auto dest: set_takeWhileD)
    qed
    have "cmp k (fst x) \<le> - scope" by (rule dropWhile_after [OF k l that(1)])
    then have "cmp k (fst z) \<le> - scope"
      using before_same [of k "fst x" "fst z" scope] k o xz scope_pos by simp
    with kz anti [of k "fst z"] k o show False by simp
  qed
  have "diff_keys cmp scope xs (y # ys) = diff_keys cmp scope (?sx @ ?dx) (y # ys)" by simp
  also have "\<dots> = diff_keys cmp scope ?dx (y # ys)"
  proof -
    have "diff_keys cmp scope ?sx (y # ys) = []" using gone by (auto simp: diff_keys_def filter_empty_conv)
    then show ?thesis by (simp only: diff_keys_append append_Nil)
  qed
  also have "\<dots> = diff_keys cmp scope ?dx
      ((y # takeWhile (same_rec k) ys) @ dropWhile (same_rec k) ys)" by simp
  also have "\<dots> = diff_keys cmp scope ?dx (dropWhile (same_rec k) ys)"
    unfolding diff_keys_def by (intro filter_cong) (use far in \<open>simp_all only: set_append, blast+\<close>)
  finally show ?thesis .
qed

lemma nt_load_l_inv:
  assumes "nt_inv ok cmp contents invar p" "invar s'" "good_keys ok cmp (ahead res (contents s'))"
  shows "nt_inv ok cmp contents invar (nt_load_l p (s', res))"
  using assms by (simp add: nt_inv_def rset_laws)

lemma nt_load_r_inv:
  assumes "nt_inv ok cmp contents invar p" "invar s'" "good_keys ok cmp (ahead res (contents s'))"
  shows "nt_inv ok cmp contents invar (nt_load_r p (s', res))"
  using assms by (simp add: nt_inv_def rset_laws)

lemma nt_skip_l_spec:
  assumes "nt_inv ok cmp contents invar p"
  shows "\<exists>p'. nt_skip_l cmp scope rd k p = Some p' \<and> nt_inv ok cmp contents invar p' \<and>
    nt_right contents p' = nt_right contents p \<and> nt_rfd_r p' = nt_rfd_r p \<and> nt_more_r p' = nt_more_r p \<and>
    nt_left contents p' = dropWhile (same_rec k) (contents (nt_rfd_l p)) \<and>
    (nt_more_l p' \<longrightarrow> work (nt_rfd_l p') < work (nt_rfd_l p))"
  using assms
proof (induction "contents (nt_rfd_l p)" arbitrary: p)
  case Nil
  have "invar (nt_rfd_l p)" using Nil.prems by (simp add: nt_inv_def)
  with Nil.hyps obtain s' where "rd (nt_rfd_l p) = Some (s', None)" "invar s'" "contents s' = []"
    using rd_nil by metis
  with Nil.prems Nil.hyps [symmetric] show ?case
    by (simp add: nt_skip_l.simps [of cmp scope rd k p] nt_inv_def rset_laws)
next
  case (Cons x xs)
  have i: "invar (nt_rfd_l p)" using Cons.prems by (simp add: nt_inv_def)
  with Cons.hyps(2) obtain s' where s': "rd (nt_rfd_l p) = Some (s', Some x)" "invar s'" "contents s' = xs"
      "work s' < work (nt_rfd_l p)"
    using rd_cons by metis
  let ?p = "nt_load_l p (s', Some x)"
  have inv': "nt_inv ok cmp contents invar ?p"
    by (rule nt_load_l_inv [OF Cons.prems s'(2)])
       (use contents_good [OF i] s' Cons.hyps(2) [symmetric] in simp)
  have buf: "the (nt_buf_l ?p) = fst x" by (cases x) (simp add: nt_load_l_def)
  show ?case
  proof (cases "same_rec k x")
    case True
    with Cons.hyps(1) [of ?p] inv' s' buf Cons.hyps(2) [symmetric] show ?thesis
      by (auto simp: nt_skip_l.simps [of cmp scope rd k p] rset_laws Let_def)
  next
    case False
    with inv' s' buf Cons.hyps(2) [symmetric] show ?thesis
      by (simp add: nt_skip_l.simps [of cmp scope rd k p] rset_laws Let_def)
  qed
qed

lemma nt_skip_r_spec:
  assumes "nt_inv ok cmp contents invar p"
  shows "\<exists>p'. nt_skip_r cmp scope rd k p = Some p' \<and> nt_inv ok cmp contents invar p' \<and>
    nt_left contents p' = nt_left contents p \<and> nt_rfd_l p' = nt_rfd_l p \<and> nt_more_l p' = nt_more_l p \<and>
    nt_right contents p' = dropWhile (same_rec k) (contents (nt_rfd_r p)) \<and>
    (nt_more_r p' \<longrightarrow> work (nt_rfd_r p') < work (nt_rfd_r p))"
  using assms
proof (induction "contents (nt_rfd_r p)" arbitrary: p)
  case Nil
  have "invar (nt_rfd_r p)" using Nil.prems by (simp add: nt_inv_def)
  with Nil.hyps obtain s' where "rd (nt_rfd_r p) = Some (s', None)" "invar s'" "contents s' = []"
    using rd_nil by metis
  with Nil.prems Nil.hyps [symmetric] show ?case
    by (simp add: nt_skip_r.simps [of cmp scope rd k p] nt_inv_def rset_laws)
next
  case (Cons x xs)
  have i: "invar (nt_rfd_r p)" using Cons.prems by (simp add: nt_inv_def)
  with Cons.hyps(2) obtain s' where s': "rd (nt_rfd_r p) = Some (s', Some x)" "invar s'" "contents s' = xs"
      "work s' < work (nt_rfd_r p)"
    using rd_cons by metis
  let ?p = "nt_load_r p (s', Some x)"
  have inv': "nt_inv ok cmp contents invar ?p"
    by (rule nt_load_r_inv [OF Cons.prems s'(2)])
       (use contents_good [OF i] s' Cons.hyps(2) [symmetric] in simp)
  have buf: "the (nt_buf_r ?p) = fst x" by (cases x) (simp add: nt_load_r_def)
  show ?case
  proof (cases "same_rec k x")
    case True
    with Cons.hyps(1) [of ?p] inv' s' buf Cons.hyps(2) [symmetric] show ?thesis
      by (auto simp: nt_skip_r.simps [of cmp scope rd k p] rset_laws Let_def)
  next
    case False
    with inv' s' buf Cons.hyps(2) [symmetric] show ?thesis
      by (simp add: nt_skip_r.simps [of cmp scope rd k p] rset_laws Let_def)
  qed
qed

lemma nt_left_more:
  assumes "nt_more_l p"
  shows "nt_left contents p = (the (nt_buf_l p), nt_term_l p) # contents (nt_rfd_l p)"
  using assms by (simp add: nt_left_def)

lemma nt_right_more:
  assumes "nt_more_r p"
  shows "nt_right contents p = (the (nt_buf_r p), nt_term_r p) # contents (nt_rfd_r p)"
  using assms by (simp add: nt_right_def)

lemma diff_keys_emit:
  assumes "ok k" "good_keys ok cmp ys" and "ys = [] \<or> cmp k (fst (hd ys)) \<le> - scope"
  shows "diff_keys cmp scope ((k, t) # xs) ys = (k, t) # diff_keys cmp scope xs ys"
proof -
  have "\<not> \<bar>cmp k (fst y)\<bar> < scope" if y: "y \<in> set ys" for y
  proof -
    obtain h hs where ys: "ys = h # hs" using y by (cases ys) auto
    with assms y have "cmp k (fst h) \<le> - scope" "y = h \<or> cmp (fst h) (fst y) \<le> 0" by auto
    with assms ys y good_keys_ok [OF assms(2)] scope_pos have "cmp k (fst y) \<le> - scope"
      using before_le [of k "fst h" "fst y" scope] by auto
    then show ?thesis by simp
  qed
  then show ?thesis by (auto simp: diff_keys_def)
qed

lemma nt_contents_more:
  assumes "nt_inv ok cmp contents invar p" "nt_more_l p"
  shows "ok (the (nt_buf_l p))" "good_keys ok cmp (contents (nt_rfd_l p))"
    "\<forall>x \<in> set (contents (nt_rfd_l p)). cmp (the (nt_buf_l p)) (fst x) \<le> 0"
  using assms by (auto simp: nt_inv_def nt_left_more)

lemma read_not_same_record:
  assumes inv: "nt_inv ok cmp contents invar p" and more: "nt_more_l p" "nt_more_r p"
    and same: "\<bar>cmp (the (nt_buf_l p)) (the (nt_buf_r p))\<bar> < scope"
  obtains p1 p2 where "nt_skip_l cmp scope rd (the (nt_buf_l p)) p = Some p1"
    "nt_skip_r cmp scope rd (the (nt_buf_l p)) p1 = Some p2" "nt_inv ok cmp contents invar p2"
    "nt_contents cmp scope contents p2 = nt_contents cmp scope contents p" "nt_work work p2 < nt_work work p"
proof -
  let ?k = "the (nt_buf_l p)"
  obtain p1 where p1: "nt_skip_l cmp scope rd ?k p = Some p1" "nt_inv ok cmp contents invar p1"
      "nt_right contents p1 = nt_right contents p" "nt_rfd_r p1 = nt_rfd_r p" "nt_more_r p1 = nt_more_r p"
      "nt_left contents p1 = dropWhile (same_rec ?k) (contents (nt_rfd_l p))"
      "nt_more_l p1 \<longrightarrow> work (nt_rfd_l p1) < work (nt_rfd_l p)"
    using nt_skip_l_spec [OF inv] by blast
  obtain p2 where p2: "nt_skip_r cmp scope rd ?k p1 = Some p2" "nt_inv ok cmp contents invar p2"
      "nt_left contents p2 = nt_left contents p1" "nt_rfd_l p2 = nt_rfd_l p1" "nt_more_l p2 = nt_more_l p1"
      "nt_right contents p2 = dropWhile (same_rec ?k) (contents (nt_rfd_r p))"
      "nt_more_r p2 \<longrightarrow> work (nt_rfd_r p2) < work (nt_rfd_r p)"
    using nt_skip_r_spec [OF p1(2), of ?k] p1(4) by auto
  note k = nt_contents_more [OF inv more(1)]
  have y: "same_rec ?k (the (nt_buf_r p), nt_term_r p)"
    using same same_sym [of ?k "the (nt_buf_r p)" scope] more k inv
    by (simp add: nt_inv_def nt_right_more)
  have "nt_contents cmp scope contents p =
     diff_keys cmp scope (dropWhile (same_rec ?k) (nt_left contents p)) (nt_right contents p2)"
    unfolding nt_contents_def nt_right_more [OF more(2)] p2(6)
    by (rule diff_keys_same_record [OF k(1) _ _ _ y])
       (use inv more k cmp_refl [OF k(1)] in \<open>auto simp: nt_left_more nt_inv_def nt_right_more\<close>)
  also have "\<dots> = nt_contents cmp scope contents p2"
    unfolding nt_contents_def p2(3) p1(6) nt_left_more [OF more(1)]
    using cmp_refl [OF k(1)] scope_pos by simp
  finally have "nt_contents cmp scope contents p2 = nt_contents cmp scope contents p" by simp
  moreover have "nt_work work p2 < nt_work work p"
    using p1(7) p2(4,5,7) more by (auto simp: nt_work_def)
  ultimately show thesis using p1(1) p2(1,2) by (intro that) simp_all
qed

lemma read_not_forward_right:
  assumes inv: "nt_inv ok cmp contents invar p" and more: "nt_more_l p" "nt_more_r p"
    and behind: "scope \<le> cmp (the (nt_buf_l p)) (the (nt_buf_r p))"
  obtains res where "fw (nt_rfd_r p) (the (nt_buf_l p)) = Some res"
    "nt_inv ok cmp contents invar (nt_load_r p res)"
    "nt_contents cmp scope contents (nt_load_r p res) = nt_contents cmp scope contents p"
    "nt_work work (nt_load_r p res) < nt_work work p"
proof -
  let ?k = "the (nt_buf_l p)"
  note k = nt_contents_more [OF inv more(1)]
  have i: "invar (nt_rfd_r p)" using inv by (simp add: nt_inv_def)
  obtain s' x where f: "fw (nt_rfd_r p) ?k = Some (s', x)" "invar s'" "x \<noteq> None \<longrightarrow> work s' < work (nt_rfd_r p)"
      "good_keys ok cmp (ahead x (contents s'))"
      "mset (from_key cmp scope ?k (ahead x (contents s'))) = mset (from_key cmp scope ?k (contents (nt_rfd_r p)))"
    using fw_keep [OF i k(1)] by blast
  have left: "\<forall>x \<in> set (nt_left contents p). ok (fst x) \<and> cmp ?k (fst x) < scope"
    using k good_keys_ok [OF k(2)] cmp_refl [OF k(1)] scope_pos by (auto simp: nt_left_more [OF more(1)])
  have good: "\<forall>y \<in> set (nt_right contents p). ok (fst y)"
    using inv good_keys_ok by (auto simp: nt_inv_def)
  have "nt_contents cmp scope contents (nt_load_r p (s', x)) =
      diff_keys cmp scope (nt_left contents p) (from_key cmp scope ?k (ahead x (contents s')))"
    unfolding nt_contents_def rset_laws
    by (rule diff_keys_from_right [OF k(1) left]) (use good_keys_ok [OF f(4)] in blast)
  also have "\<dots> = diff_keys cmp scope (nt_left contents p) (from_key cmp scope ?k (nt_right contents p))"
    by (rule diff_keys_set_right)
       (use mset_eq_setD [OF f(5)] behind in \<open>simp add: nt_right_more [OF more(2)] from_key_def\<close>)
  also have "\<dots> = nt_contents cmp scope contents p"
    unfolding nt_contents_def by (rule diff_keys_from_right [OF k(1) left good, symmetric])
  finally have "nt_contents cmp scope contents (nt_load_r p (s', x)) = nt_contents cmp scope contents p" .
  moreover have "nt_work work (nt_load_r p (s', x)) < nt_work work p"
    using f(3) more by (cases x) (auto simp: nt_work_def rset_laws)
  ultimately show thesis using f nt_load_r_inv [OF inv f(2,4)] by (intro that [of "(s', x)"]) simp_all
qed

lemma read_not_emit:
  assumes inv: "nt_inv ok cmp contents invar p" and more: "nt_more_l p"
    and first: "nt_more_r p \<longrightarrow> cmp (the (nt_buf_l p)) (the (nt_buf_r p)) \<le> - scope"
  obtains res where "rd (nt_rfd_l p) = Some res" "nt_inv ok cmp contents invar (nt_load_l p res)"
    "nt_contents cmp scope contents p =
      (the (nt_buf_l p), nt_term_l p) # nt_contents cmp scope contents (nt_load_l p res)"
    "nt_work work (nt_load_l p res) < nt_work work p"
proof -
  let ?k = "the (nt_buf_l p)"
  note k = nt_contents_more [OF inv more]
  have i: "invar (nt_rfd_l p)" using inv by (simp add: nt_inv_def)
  from rd_ahead [OF i] obtain s' x where f: "rd (nt_rfd_l p) = Some (s', x)" "invar s'"
      "contents (nt_rfd_l p) = ahead x (contents s')" "x \<noteq> None \<longrightarrow> work s' < work (nt_rfd_l p)"
    by blast
  have "nt_contents cmp scope contents p =
      (?k, nt_term_l p) # diff_keys cmp scope (contents (nt_rfd_l p)) (nt_right contents p)"
    unfolding nt_contents_def nt_left_more [OF more]
    by (rule diff_keys_emit [OF k(1)]) (use inv first in \<open>auto simp: nt_right_def nt_inv_def\<close>)
  then have "nt_contents cmp scope contents p =
      (?k, nt_term_l p) # nt_contents cmp scope contents (nt_load_l p (s', x))"
    using f(3) by (simp add: nt_contents_def rset_laws)
  moreover have "nt_work work (nt_load_l p (s', x)) < nt_work work p"
    using f(4) more by (cases x) (auto simp: nt_work_def rset_laws)
  ultimately show thesis
    using f nt_load_l_inv [OF inv f(2)] contents_good [OF i] by (intro that [of "(s', x)"]) simp_all
qed

lemma nt_upd_inv [rset_laws]:
  "nt_inv ok cmp contents invar (p\<lparr>nt_hits := h\<rparr>) = nt_inv ok cmp contents invar p"
  "nt_inv ok cmp contents invar (p\<lparr>nt_tail := h'\<rparr>) = nt_inv ok cmp contents invar p"
  "nt_contents cmp scope contents (p\<lparr>nt_hits := h\<rparr>) = nt_contents cmp scope contents p"
  "nt_contents cmp scope contents (p\<lparr>nt_tail := h'\<rparr>) = nt_contents cmp scope contents p"
  "nt_work work (p\<lparr>nt_hits := h\<rparr>) = nt_work work p"
  "nt_work work (p\<lparr>nt_tail := h'\<rparr>) = nt_work work p"
  by (simp_all add: nt_inv_def nt_contents_def nt_work_def rset_laws)

lemma read_not_spec:
  assumes "nt_inv ok cmp contents invar p"
  shows "\<exists>p' res. r_read_not cmp scope rd fw p = Some (p', res) \<and> nt_inv ok cmp contents invar p' \<and>
    nt_contents cmp scope contents p = ahead res (nt_contents cmp scope contents p') \<and>
    (res = None \<longrightarrow> nt_contents cmp scope contents p' = []) \<and> (res \<noteq> None \<longrightarrow> nt_work work p' < nt_work work p)"
  using assms
proof (induction "nt_work work p" arbitrary: p rule: less_induct)
  case less
  note unfold = r_read_not.simps [of cmp scope rd fw p]
  let ?k = "the (nt_buf_l p)"
  define c where "c = (if nt_more_r p then cmp ?k (the (nt_buf_r p)) else - scope)"
  consider (fin) "\<not> nt_more_l p" | (emit) "nt_more_l p" "c \<le> - scope"
    | (fwd) "nt_more_l p" "nt_more_r p" "scope \<le> cmp ?k (the (nt_buf_r p))"
    | (same) "nt_more_l p" "nt_more_r p" "\<bar>cmp ?k (the (nt_buf_r p))\<bar> < scope"
    unfolding c_def using scope_trichotomy [of "cmp ?k (the (nt_buf_r p))" scope]
    by (cases "nt_more_r p") auto
  then show ?case
  proof cases
    case fin
    then show ?thesis using less.prems
      by (intro exI [of _ p] exI [of _ None])
         (simp add: unfold nt_contents_def nt_left_def diff_keys_Nil)
  next
    case emit
    then have "nt_more_r p \<longrightarrow> cmp ?k (the (nt_buf_r p)) \<le> - scope" by (auto simp: c_def split: if_splits)
    from read_not_emit [OF less.prems emit(1) this] obtain res where "rd (nt_rfd_l p) = Some res"
      "nt_inv ok cmp contents invar (nt_load_l p res)"
      "nt_contents cmp scope contents p = (?k, nt_term_l p) # nt_contents cmp scope contents (nt_load_l p res)"
      "nt_work work (nt_load_l p res) < nt_work work p" by blast
    with emit show ?thesis
      by (intro exI [of _ "(nt_load_l p res)\<lparr>nt_hits := nt_hits p + 1\<rparr>"] exI [of _ "Some (?k, nt_term_l p)"])
         (simp add: unfold c_def [symmetric] rset_laws)
  next
    case fwd
    from read_not_forward_right [OF less.prems fwd] obtain res where
      "fw (nt_rfd_r p) ?k = Some res" "nt_inv ok cmp contents invar (nt_load_r p res)"
      "nt_contents cmp scope contents (nt_load_r p res) = nt_contents cmp scope contents p"
      "nt_work work (nt_load_r p res) < nt_work work p" by blast
    with less.hyps [of "nt_load_r p res"] fwd scope_pos show ?thesis by (fastforce simp: unfold)
  next
    case same
    from read_not_same_record [OF less.prems same] obtain p1 p2 where
      "nt_skip_l cmp scope rd ?k p = Some p1" "nt_skip_r cmp scope rd ?k p1 = Some p2"
      "nt_inv ok cmp contents invar p2" "nt_contents cmp scope contents p2 = nt_contents cmp scope contents p"
      "nt_work work p2 < nt_work work p" by blast
    with less.hyps [of p2] same show ?thesis by (fastforce simp: unfold Let_def)
  qed
qed

text \<open>Forwarding one child keeps everything from \<open>u\<close> on.\<close>

definition nt_advance :: "'k \<Rightarrow> ('s, 'k, 't) not_rfd \<Rightarrow> ('s, 'k, 't) not_rfd \<Rightarrow> bool" where
  "nt_advance u p p' \<longleftrightarrow> nt_inv ok cmp contents invar p' \<and> nt_work work p' \<le> nt_work work p \<and>
     mset (from_key cmp scope u (nt_left contents p')) = mset (from_key cmp scope u (nt_left contents p)) \<and>
     set (from_key cmp scope u (nt_right contents p')) = set (from_key cmp scope u (nt_right contents p))"

lemma nt_forward_left:
  assumes inv: "nt_inv ok cmp contents invar p" and u: "ok u"
  shows "\<exists>p'. (if nt_more_l p \<and> scope \<le> cmp u (the (nt_buf_l p))
      then map_option (nt_load_l p) (fw (nt_rfd_l p) u) else Some p) = Some p' \<and> nt_advance u p p'"
proof (cases "nt_more_l p \<and> scope \<le> cmp u (the (nt_buf_l p))")
  case True
  have i: "invar (nt_rfd_l p)" using inv by (simp add: nt_inv_def)
  obtain s' x where f: "fw (nt_rfd_l p) u = Some (s', x)" "invar s'" "x \<noteq> None \<longrightarrow> work s' < work (nt_rfd_l p)"
      "good_keys ok cmp (ahead x (contents s'))"
      "mset (from_key cmp scope u (ahead x (contents s'))) = mset (from_key cmp scope u (contents (nt_rfd_l p)))"
    using fw_keep [OF i u] by blast
  have "nt_work work (nt_load_l p (s', x)) \<le> nt_work work p"
    using f(3) True by (cases x) (auto simp: nt_work_def rset_laws)
  with True f nt_load_l_inv [OF inv f(2,4)] show ?thesis
    by (simp add: nt_advance_def rset_laws) (simp add: nt_left_more from_key_def)
qed (use inv in \<open>auto simp: nt_advance_def\<close>)

lemma nt_forward_right:
  assumes inv: "nt_inv ok cmp contents invar p" and u: "ok u"
  shows "\<exists>p'. (if nt_more_r p \<and> scope \<le> cmp u (the (nt_buf_r p))
      then map_option (nt_load_r p) (fw (nt_rfd_r p) u) else Some p) = Some p' \<and> nt_advance u p p'"
proof (cases "nt_more_r p \<and> scope \<le> cmp u (the (nt_buf_r p))")
  case True
  have i: "invar (nt_rfd_r p)" using inv by (simp add: nt_inv_def)
  obtain s' x where f: "fw (nt_rfd_r p) u = Some (s', x)" "invar s'" "x \<noteq> None \<longrightarrow> work s' < work (nt_rfd_r p)"
      "good_keys ok cmp (ahead x (contents s'))"
      "mset (from_key cmp scope u (ahead x (contents s'))) = mset (from_key cmp scope u (contents (nt_rfd_r p)))"
    using fw_keep [OF i u] by blast
  have "nt_work work (nt_load_r p (s', x)) \<le> nt_work work p"
    using f(3) True by (cases x) (auto simp: nt_work_def rset_laws)
  with True f(1) mset_eq_setD [OF f(5)] nt_load_r_inv [OF inv f(2,4)] show ?thesis
    by (simp add: nt_advance_def rset_laws) (simp add: nt_right_more from_key_def)
qed (use inv in \<open>auto simp: nt_advance_def\<close>)

lemma from_key_nt_contents:
  assumes "nt_inv ok cmp contents invar p" and u: "ok u"
  shows "from_key cmp scope u (nt_contents cmp scope contents p) =
    diff_keys cmp scope (from_key cmp scope u (nt_left contents p)) (from_key cmp scope u (nt_right contents p))"
proof -
  have g: "good_keys ok cmp (nt_left contents p)" "good_keys ok cmp (nt_right contents p)"
    using assms by (simp_all add: nt_inv_def)
  have "from_key cmp scope u (nt_contents cmp scope contents p) =
      diff_keys cmp scope (from_key cmp scope u (nt_left contents p)) (nt_right contents p)"
    by (simp add: nt_contents_def diff_keys_def from_key_def conj_commute)
  also have "\<dots> = diff_keys cmp scope (from_key cmp scope u (nt_left contents p))
      (from_key cmp scope u (nt_right contents p))"
    by (rule diff_keys_from_right [OF u])
       (use good_keys_ok [OF g(1)] good_keys_ok [OF g(2)] in \<open>auto simp: from_key_def\<close>)
  finally show ?thesis .
qed

lemma nt_advance_contents:
  assumes "nt_inv ok cmp contents invar p" "ok u" "nt_advance u p p'"
  shows "mset (from_key cmp scope u (nt_contents cmp scope contents p')) =
    mset (from_key cmp scope u (nt_contents cmp scope contents p))"
proof -
  let ?L = "\<lambda>p. from_key cmp scope u (nt_left contents p)" and ?R = "\<lambda>p. from_key cmp scope u (nt_right contents p)"
  have adv: "nt_inv ok cmp contents invar p'" "mset (?L p') = mset (?L p)" "set (?R p') = set (?R p)"
    using assms(3) by (simp_all add: nt_advance_def)
  have "from_key cmp scope u (nt_contents cmp scope contents p') = diff_keys cmp scope (?L p') (?R p')"
    by (rule from_key_nt_contents [OF adv(1) assms(2)])
  also have "\<dots> = diff_keys cmp scope (?L p') (?R p)" by (rule diff_keys_set_right [OF adv(3)])
  also have "mset \<dots> = mset (diff_keys cmp scope (?L p) (?R p))" by (rule mset_diff_keys [OF adv(2)])
  also have "diff_keys cmp scope (?L p) (?R p) = from_key cmp scope u (nt_contents cmp scope contents p)"
    by (rule from_key_nt_contents [OF assms(1,2), symmetric])
  finally show ?thesis .
qed

lemma nt_contents_good:
  "nt_inv ok cmp contents invar p \<Longrightarrow> good_keys ok cmp (nt_contents cmp scope contents p)"
  by (simp add: nt_inv_def nt_contents_def diff_keys_def good_keys_filter)

lemma rsbool_forward_keep:
  assumes rs: "rs_cmp rs = cmp" "rs_scope rs = scope"
    and inv: "nt_inv ok cmp contents invar (rsfd_priv r)" and u: "ok u"
  shows "\<exists>r' res. rsbool_forward rs rd fw r u = Some (r', res) \<and>
    nt_inv ok cmp contents invar (rsfd_priv r') \<and>
    (res = None \<longrightarrow> nt_contents cmp scope contents (rsfd_priv r') = []) \<and>
    (res \<noteq> None \<longrightarrow> nt_work work (rsfd_priv r') < nt_work work (rsfd_priv r)) \<and>
    good_keys ok cmp (ahead res (nt_contents cmp scope contents (rsfd_priv r'))) \<and>
    mset (from_key cmp scope u (ahead res (nt_contents cmp scope contents (rsfd_priv r')))) =
    mset (from_key cmp scope u (nt_contents cmp scope contents (rsfd_priv r)))"
proof -
  let ?p = "rsfd_priv r"
  obtain p1 where p1: "(if nt_more_l ?p \<and> scope \<le> cmp u (the (nt_buf_l ?p))
      then map_option (nt_load_l ?p) (fw (nt_rfd_l ?p) u) else Some ?p) = Some p1" "nt_advance u ?p p1"
    using nt_forward_left [OF inv u] by blast
  obtain p2 where p2: "(if nt_more_r p1 \<and> scope \<le> cmp u (the (nt_buf_r p1))
      then map_option (nt_load_r p1) (fw (nt_rfd_r p1) u) else Some p1) = Some p2" "nt_advance u p1 p2"
    using nt_forward_right [OF _ u, of p1] p1(2) by (auto simp: nt_advance_def)
  let ?p3 = "p2\<lparr>nt_tail := 0\<rparr>"
  have adv: "nt_advance u ?p ?p3" using p1(2) p2(2) by (simp add: nt_advance_def rset_laws)
  obtain p' res where rd: "r_read_not cmp scope rd fw ?p3 = Some (p', res)" "nt_inv ok cmp contents invar p'"
      "nt_contents cmp scope contents ?p3 = ahead res (nt_contents cmp scope contents p')"
      "res = None \<longrightarrow> nt_contents cmp scope contents p' = []"
      "res \<noteq> None \<longrightarrow> nt_work work p' < nt_work work ?p3"
    using read_not_spec [of ?p3] adv by (auto simp: nt_advance_def)
  obtain r' where r': "rset_default_read rs (on_priv (r_read_not cmp scope rd fw)) (r\<lparr>rsfd_priv := ?p3\<rparr>) =
      Some (r', res)" "rsfd_priv r' = p'"
    using default_read_on_priv [where f = "r_read_not cmp scope rd fw" and r = "r\<lparr>rsfd_priv := ?p3\<rparr>"] rd(1)
    by auto
  have "rsbool_forward rs rd fw r u = Some (r', res)"
    unfolding rsbool_forward_def rs Let_def p1(1) p2(1) bind.simps r'(1) ..
  moreover have "good_keys ok cmp (ahead res (nt_contents cmp scope contents p'))"
    using nt_contents_good [of ?p3] adv rd(3) by (simp add: nt_advance_def)
  ultimately show ?thesis
    using rd r'(2) nt_advance_contents [OF inv u adv] adv
    by (intro exI [of _ r'] exI [of _ res]) (auto simp: nt_advance_def)
qed

lemma not_raw:
  assumes rs: "rs_cmp rs = cmp" "rs_scope rs = scope"
  shows "rset_raw ok cmp scope (on_priv (r_read_not cmp scope rd fw)) (Some (rsbool_forward rs rd fw))
    (nt_contents cmp scope contents) (nt_work work) (nt_inv ok cmp contents invar)"
  by (rule on_priv_raw [OF key_cmp_order_axioms scope_pos])
     (use read_not_spec nt_contents_good rsbool_forward_keep [OF rs] in
       \<open>auto simp: reads_ahead_def keeps_from_def\<close>)

lemma rsbool_open_spec:
  assumes "invar l" "invar r"
  shows "\<exists>p. rsbool_open rd l r = Some p \<and> nt_inv ok cmp contents invar p \<and>
    nt_left contents p = contents l \<and> nt_right contents p = contents r"
proof -
  obtain l' x where l: "rd l = Some (l', x)" "invar l'" "contents l = ahead x (contents l')"
    using rd_ahead [OF assms(1)] by metis
  obtain r' y where r: "rd r = Some (r', y)" "invar r'" "contents r = ahead y (contents r')"
    using rd_ahead [OF assms(2)] by metis
  show ?thesis
    using l r contents_good [OF assms(1)] contents_good [OF assms(2)]
    by (simp add: rsbool_open_def nt_inv_def rset_laws)
qed

end

end
