(* ===== verification/Rset_Heap.thy ===== *)
theory Rset_Heap
  imports Key_Order "HOL-Library.Multiset"
begin

text \<open>
  The binary heap of \<^verbatim>\<open>rset/rsmultiandor.c\<close>: an array of item pointers, used from index 1, ordered by the
  key each item holds. The heap is generic in the pointer type; \<open>c x y\<close> stands for
  \<^verbatim>\<open>(*h->kctrl->cmp)(x->buf, y->buf)\<close>. A failing assertion and an access outside the array are \<open>None\<close>.
\<close>

section \<open>Operations\<close>

record 'p heap =
  heapnum :: nat
  heapmax :: nat
  heap_arr :: "'p option list"

definition heap_create :: "nat \<Rightarrow> 'p heap" where
  "heap_create n = \<lparr>heapnum = 0, heapmax = n + 1, heap_arr = replicate (n + 1) None\<rparr>"

definition heap_clear :: "'p heap \<Rightarrow> 'p heap" where
  "heap_clear h = h\<lparr>heapnum := 0\<rparr>"

definition heap_empty :: "'p heap \<Rightarrow> bool" where
  "heap_empty h \<longleftrightarrow> heapnum h = 0"

definition heap_swap :: "'p heap \<Rightarrow> nat \<Rightarrow> nat \<Rightarrow> 'p heap" where
  "heap_swap h x y = h\<lparr>heap_arr := (heap_arr h)[x := heap_arr h ! y, y := heap_arr h ! x]\<rparr>"

definition heap_cmp :: "('p \<Rightarrow> 'p \<Rightarrow> int) \<Rightarrow> 'p heap \<Rightarrow> nat \<Rightarrow> nat \<Rightarrow> int" where
  "heap_cmp c h x y = c (the (heap_arr h ! x)) (the (heap_arr h ! y))"

text \<open>The loop shared by \<^verbatim>\<open>heap_delete\<close> and \<^verbatim>\<open>heap_balance\<close>; \<^verbatim>\<open>child\<close> starts at 2 and doubles, so it is
  never 0.\<close>

function heap_down :: "('p \<Rightarrow> 'p \<Rightarrow> int) \<Rightarrow> 'p heap \<Rightarrow> nat \<Rightarrow> nat \<Rightarrow> 'p heap" where
  "heap_down c h cur child =
     (if 0 < child \<and> child \<le> heapnum h then
        (let child' = (if child < heapnum h \<and> 0 < heap_cmp c h child (1 + child) then child + 1 else child)
         in if 0 < heap_cmp c h cur child'
            then heap_down c (heap_swap h cur child') child' (2 * child')
            else h)
      else h)"
  by pat_completeness auto
termination
  by (relation "measure (\<lambda>(c, h, cur, child). Suc (heapnum h) - child)")
     (auto simp: heap_swap_def split: if_splits)

declare heap_down.simps [simp del]

definition heap_balance :: "('p \<Rightarrow> 'p \<Rightarrow> int) \<Rightarrow> 'p heap \<Rightarrow> 'p heap" where
  "heap_balance c h = heap_down c h 1 2"

definition heap_delete :: "('p \<Rightarrow> 'p \<Rightarrow> int) \<Rightarrow> 'p heap \<Rightarrow> 'p heap" where
  "heap_delete c h =
     (let h1 = h\<lparr>heap_arr := (heap_arr h)[1 := None]\<rparr>;
          h2 = (heap_swap h1 1 (heapnum h1))\<lparr>heapnum := heapnum h1 - 1\<rparr>
      in heap_down c h2 1 2)"

function heap_up :: "('p \<Rightarrow> 'p \<Rightarrow> int) \<Rightarrow> 'p heap \<Rightarrow> nat \<Rightarrow> nat \<Rightarrow> 'p heap" where
  "heap_up c h cur parent =
     (if parent \<noteq> 0 \<and> 0 < heap_cmp c h parent cur
      then heap_up c (heap_swap h cur parent) parent (parent div 2)
      else h)"
  by pat_completeness auto
termination
  by (relation "measure (\<lambda>(c, h, cur, parent). parent)") auto

declare heap_up.simps [simp del]

definition heap_insert :: "('p \<Rightarrow> 'p \<Rightarrow> int) \<Rightarrow> 'p heap \<Rightarrow> 'p \<Rightarrow> 'p heap option" where
  "heap_insert c h hi =
     (let cur = heapnum h + 1 in
      if cur \<le> heapmax h \<and> cur < length (heap_arr h)
      then Some (heap_up c (h\<lparr>heapnum := cur, heap_arr := (heap_arr h)[cur := Some hi]\<rparr>) cur (cur div 2))
      else None)"

section \<open>Shape and contents\<close>

definition heap_items :: "'p heap \<Rightarrow> 'p list" where
  "heap_items h = map (\<lambda>j. the (heap_arr h ! Suc j)) [0..<heapnum h]"

definition heap_shape :: "'p heap \<Rightarrow> bool" where
  "heap_shape h \<longleftrightarrow> heapnum h < length (heap_arr h) \<and> (\<forall>j. 1 \<le> j \<and> j \<le> heapnum h \<longrightarrow> heap_arr h ! j \<noteq> None)"

abbreviation hkey :: "'p heap \<Rightarrow> nat \<Rightarrow> 'p" where
  "hkey h j \<equiv> the (heap_arr h ! j)"

definition heap_ordered :: "('p \<Rightarrow> 'p \<Rightarrow> int) \<Rightarrow> 'p heap \<Rightarrow> bool" where
  "heap_ordered c h \<longleftrightarrow> (\<forall>j. 2 \<le> j \<and> j \<le> heapnum h \<longrightarrow> c (hkey h (j div 2)) (hkey h j) \<le> 0)"

lemma heap_items_nth: "1 \<le> j \<Longrightarrow> j \<le> heapnum h \<Longrightarrow> hkey h j \<in> set (heap_items h)"
  by (cases j) (auto simp: heap_items_def)

lemma set_heap_items: "set (heap_items h) = hkey h ` {1..heapnum h}"
proof -
  have "set (heap_items h) = hkey h ` Suc ` {0..<heapnum h}"
    unfolding heap_items_def set_map image_image by simp
  also have "Suc ` {0..<heapnum h} = {1..heapnum h}"
    by (simp add: image_Suc_atLeastLessThan atLeastLessThanSuc_atLeastAtMost)
  finally show ?thesis .
qed

lemma heap_items_length [simp]: "length (heap_items h) = heapnum h"
  by (simp add: heap_items_def)

lemma heap_items_swap:
  assumes "heap_shape h" "1 \<le> x" "x \<le> heapnum h" "1 \<le> y" "y \<le> heapnum h"
  shows "mset (heap_items (heap_swap h x y)) = mset (heap_items h)"
proof -
  let ?l = "heap_items h"
  have n: "?l ! (j - 1) = hkey h j" if "1 \<le> j" "j \<le> heapnum h" for j
    using that by (cases j) (simp_all add: heap_items_def)
  have "heap_items (heap_swap h x y) = ?l[x - 1 := ?l ! (y - 1), y - 1 := ?l ! (x - 1)]"
    using assms n [of x] n [of y]
    by (intro nth_equalityI)
       (auto simp: heap_items_def heap_swap_def heap_shape_def nth_list_update)
  also have "mset \<dots> = mset ?l" using assms by (intro mset_swap) simp_all
  finally show ?thesis .
qed

lemma heap_swap_fields [simp]:
  "heapnum (heap_swap h x y) = heapnum h" "heapmax (heap_swap h x y) = heapmax h"
  "length (heap_arr (heap_swap h x y)) = length (heap_arr h)"
  by (simp_all add: heap_swap_def)

lemma heap_swap_shape:
  "heap_shape h \<Longrightarrow> 1 \<le> x \<Longrightarrow> x \<le> heapnum h \<Longrightarrow> 1 \<le> y \<Longrightarrow> y \<le> heapnum h \<Longrightarrow> heap_shape (heap_swap h x y)"
  by (auto simp: heap_shape_def heap_swap_def nth_list_update)

lemma heap_swap_key:
  assumes "heap_shape h" "1 \<le> x" "x \<le> heapnum h" "1 \<le> y" "y \<le> heapnum h"
  shows "hkey (heap_swap h x y) j = (if j = y then hkey h x else if j = x then hkey h y else hkey h j)"
  using assms by (simp add: heap_swap_def heap_shape_def nth_list_update)

section \<open>Restoring the order\<close>

context key_cmp_order
begin

text \<open>The heap is in order but for \<open>cur\<close>, whose key may be too big for its place.\<close>

definition down_inv :: "'k heap \<Rightarrow> nat \<Rightarrow> bool" where
  "down_inv h cur \<longleftrightarrow>
     (\<forall>j. 2 \<le> j \<and> j \<le> heapnum h \<and> j div 2 \<noteq> cur \<longrightarrow> cmp (hkey h (j div 2)) (hkey h j) \<le> 0) \<and>
     (2 \<le> cur \<longrightarrow> (\<forall>j. 2 \<le> j \<and> j \<le> heapnum h \<and> j div 2 = cur \<longrightarrow>
        cmp (hkey h (cur div 2)) (hkey h j) \<le> 0))"

text \<open>The heap is in order but for \<open>cur\<close>, whose key may be too small for its place.\<close>

definition up_inv :: "'k heap \<Rightarrow> nat \<Rightarrow> bool" where
  "up_inv h cur \<longleftrightarrow>
     (\<forall>j. 2 \<le> j \<and> j \<le> heapnum h \<and> j \<noteq> cur \<longrightarrow> cmp (hkey h (j div 2)) (hkey h j) \<le> 0) \<and>
     (2 \<le> cur \<longrightarrow> (\<forall>j. 2 \<le> j \<and> j \<le> heapnum h \<and> j div 2 = cur \<longrightarrow>
        cmp (hkey h (cur div 2)) (hkey h j) \<le> 0))"

lemma down_step:
  assumes sh: "heap_shape h" and P: "\<forall>p \<in> set (heap_items h). ok p" and inv: "down_inv h cur"
    and cur: "1 \<le> cur" "2 * cur \<le> heapnum h"
    and ch: "ch = (if 2 * cur < heapnum h \<and> 0 < heap_cmp cmp h (2 * cur) (1 + 2 * cur) then 2 * cur + 1 else 2 * cur)"
    and gt: "0 < heap_cmp cmp h cur ch"
  shows "down_inv (heap_swap h cur ch) ch"
proof -
  have chb: "ch \<le> heapnum h" "ch div 2 = cur" "2 \<le> ch" "ch \<noteq> cur" using ch cur by auto
  have okj: "ok (hkey h j)" if "1 \<le> j" "j \<le> heapnum h" for j
    using P heap_items_nth that by blast
  have key: "hkey (heap_swap h cur ch) j =
      (if j = ch then hkey h cur else if j = cur then hkey h ch else hkey h j)" for j
    by (rule heap_swap_key [OF sh]) (use cur chb in auto)
  have chmin: "cmp (hkey h ch) (hkey h j) \<le> 0" if "j div 2 = cur" "2 \<le> j" "j \<le> heapnum h" for j
  proof -
    have "j = 2 * cur \<or> j = 2 * cur + 1" using that by auto
    with that ch cur okj [of "2 * cur"] okj [of "2 * cur + 1"] show ?thesis
      using anti [of "hkey h (2 * cur)" "hkey h (2 * cur + 1)"] cmp_refl [of "hkey h (2 * cur)"]
        cmp_refl [of "hkey h (2 * cur + 1)"]
      by (auto simp: heap_cmp_def split: if_splits)
  qed
  have lt: "cmp (hkey h ch) (hkey h cur) \<le> 0"
    using gt anti [OF okj [of cur] okj [of ch]] cur chb by (simp add: heap_cmp_def)
  show ?thesis
    unfolding down_inv_def heap_swap_fields key
  proof (intro conjI allI impI)
    fix j
    assume j: "2 \<le> j \<and> j \<le> heapnum h \<and> j div 2 \<noteq> ch"
    consider (ch) "j = ch" | (sib) "j \<noteq> ch" "j div 2 = cur" | (cur) "j = cur" | (other) "j \<noteq> ch" "j \<noteq> cur" "j div 2 \<noteq> cur"
      by blast
    then show "cmp (if j div 2 = ch then hkey h cur else if j div 2 = cur then hkey h ch else hkey h (j div 2))
        (if j = ch then hkey h cur else if j = cur then hkey h ch else hkey h j) \<le> 0"
    proof cases
      case ch
      with chb lt show ?thesis by simp
    next
      case sib
      with j chmin cur show ?thesis by auto
    next
      case cur
      with j inv chb show ?thesis by (auto simp: down_inv_def)
    next
      case other
      with j inv show ?thesis by (auto simp: down_inv_def)
    qed
  next
    fix j
    assume "2 \<le> j \<and> j \<le> heapnum h \<and> j div 2 = ch"
    with inv chb show "cmp (if ch div 2 = ch then hkey h cur else if ch div 2 = cur then hkey h ch else hkey h (ch div 2))
        (if j = ch then hkey h cur else if j = cur then hkey h ch else hkey h j) \<le> 0"
      by (auto simp: down_inv_def)
  qed
qed

lemma down_inv_ordered:
  assumes "down_inv h cur" "\<forall>j. 2 \<le> j \<and> j \<le> heapnum h \<and> j div 2 = cur \<longrightarrow> cmp (hkey h cur) (hkey h j) \<le> 0"
  shows "heap_ordered cmp h"
  using assms by (auto simp: heap_ordered_def down_inv_def)

lemma heap_down_spec:
  assumes "heap_shape h" "\<forall>p \<in> set (heap_items h). ok p" "down_inv h cur" "1 \<le> cur" "child = 2 * cur"
  shows "heap_shape (heap_down cmp h cur child) \<and> heap_ordered cmp (heap_down cmp h cur child) \<and>
    mset (heap_items (heap_down cmp h cur child)) = mset (heap_items h) \<and>
    heapmax (heap_down cmp h cur child) = heapmax h \<and>
    length (heap_arr (heap_down cmp h cur child)) = length (heap_arr h)"
  using assms
proof (induction "Suc (heapnum h) - child" arbitrary: h cur child rule: less_induct)
  case less
  define ch where "ch = (if child < heapnum h \<and> 0 < heap_cmp cmp h child (1 + child) then child + 1 else child)"
  show ?case
  proof (cases "child \<le> heapnum h \<and> 0 < heap_cmp cmp h cur ch")
    case True
    then have c: "0 < child \<and> child \<le> heapnum h" "0 < heap_cmp cmp h cur ch" using less.prems by auto
    let ?h = "heap_swap h cur ch"
    have b: "1 \<le> cur" "cur \<le> heapnum h" "1 \<le> ch" "ch \<le> heapnum h" using c less.prems by (auto simp: ch_def)
    have inv: "down_inv ?h ch"
      by (rule down_step) (use less.prems c in \<open>auto simp: ch_def\<close>)
    have items: "mset (heap_items ?h) = mset (heap_items h)"
      by (rule heap_items_swap) (use less.prems b in auto)
    then have "set (heap_items ?h) = set (heap_items h)" by (metis set_mset_mset)
    moreover have "Suc (heapnum ?h) - 2 * ch < Suc (heapnum h) - child" using c by (auto simp: ch_def)
    moreover have "heap_down cmp h cur child = heap_down cmp ?h ch (2 * ch)"
      unfolding heap_down.simps [of cmp h cur child] Let_def ch_def [symmetric] using c by simp
    moreover have "heap_shape ?h" using heap_swap_shape less.prems(1) b by blast
    ultimately show ?thesis using less.hyps [of ?h "2 * ch" ch] less.prems inv b items by simp
  next
    case False
    have okj: "ok (hkey h j)" if "1 \<le> j" "j \<le> heapnum h" for j
      using less.prems(2) heap_items_nth that by blast
    have "cmp (hkey h cur) (hkey h j) \<le> 0" if j: "2 \<le> j" "j \<le> heapnum h" "j div 2 = cur" for j
    proof -
      have child: "child \<le> heapnum h" and jj: "j = child \<or> j = child + 1" using j less.prems(5) by auto
      have nb: "1 \<le> cur" "cur \<le> heapnum h" "1 \<le> child" using less.prems child by auto
      from False child have le: "cmp (hkey h cur) (hkey h ch) \<le> 0" by (simp add: heap_cmp_def)
      show ?thesis
      proof (cases "j = ch")
        case True
        with le show ?thesis by simp
      next
        case False
        with jj j have "cmp (hkey h ch) (hkey h j) \<le> 0"
          using anti [OF okj [of child] okj [of "child + 1"]] nb
          by (auto simp: heap_cmp_def ch_def split: if_splits)
        with le show ?thesis
          using le_trans [OF okj [of cur] okj [of ch] okj [of j]] nb j child by (auto simp: ch_def split: if_splits)
      qed
    qed
    then have "heap_ordered cmp h" using down_inv_ordered less.prems(3) by blast
    moreover have "heap_down cmp h cur child = h"
      unfolding heap_down.simps [of cmp h cur child] Let_def ch_def [symmetric] using False by simp
    ultimately show ?thesis using less.prems(1) by simp
  qed
qed

lemma up_step:
  assumes sh: "heap_shape h" and P: "\<forall>p \<in> set (heap_items h). ok p" and inv: "up_inv h cur"
    and cur: "2 \<le> cur" "cur \<le> heapnum h" and gt: "0 < heap_cmp cmp h (cur div 2) cur"
  shows "up_inv (heap_swap h cur (cur div 2)) (cur div 2)"
proof -
  let ?q = "cur div 2"
  have q: "1 \<le> ?q" "?q \<le> heapnum h" "?q \<noteq> cur" using cur by auto
  have okj: "ok (hkey h j)" if "1 \<le> j" "j \<le> heapnum h" for j
    using P heap_items_nth that by blast
  have key: "hkey (heap_swap h cur ?q) j =
      (if j = ?q then hkey h cur else if j = cur then hkey h ?q else hkey h j)" for j
    by (rule heap_swap_key [OF sh]) (use cur q in auto)
  have lt: "cmp (hkey h cur) (hkey h ?q) \<le> 0"
    using gt anti [OF okj [of ?q] okj [of cur]] cur q by (simp add: heap_cmp_def)
  have below: "cmp (hkey h ?q) (hkey h j) \<le> 0" if "2 \<le> j" "j \<le> heapnum h" "j div 2 = ?q" "j \<noteq> cur" for j
    using inv that by (metis up_inv_def)
  show ?thesis
    unfolding up_inv_def heap_swap_fields key
  proof (intro conjI allI impI)
    fix j
    assume j: "2 \<le> j \<and> j \<le> heapnum h \<and> j \<noteq> ?q"
    consider (cur) "j = cur" | (sib) "j \<noteq> cur" "j div 2 = ?q" | (ch) "j \<noteq> cur" "j div 2 = cur"
      | (other) "j \<noteq> cur" "j div 2 \<noteq> ?q" "j div 2 \<noteq> cur" by blast
    then show "cmp (if j div 2 = ?q then hkey h cur else if j div 2 = cur then hkey h ?q else hkey h (j div 2))
        (if j = ?q then hkey h cur else if j = cur then hkey h ?q else hkey h j) \<le> 0"
    proof cases
      case cur
      with lt q show ?thesis by simp
    next
      case sib
      with j have "cmp (hkey h ?q) (hkey h j) \<le> 0" using below by blast
      with lt have "cmp (hkey h cur) (hkey h j) \<le> 0"
        using le_trans [OF okj [of cur] okj [of ?q] okj [of j]] cur q j assms(4,5) by simp
      with sib j show ?thesis by simp
    next
      case ch
      with j inv cur q show ?thesis by (auto simp: up_inv_def)
    next
      case other
      with j inv show ?thesis by (auto simp: up_inv_def)
    qed
  next
    fix j
    assume q2: "2 \<le> ?q" and j: "2 \<le> j \<and> j \<le> heapnum h \<and> j div 2 = ?q"
    have qq: "cmp (hkey h (?q div 2)) (hkey h ?q) \<le> 0"
      using inv q q2 cur by (metis up_inv_def)
    have d: "?q div 2 \<noteq> ?q" "?q div 2 \<noteq> cur" "1 \<le> ?q div 2" "?q div 2 \<le> heapnum h" "j \<noteq> ?q"
      using q2 cur j by auto
    show "cmp (if ?q div 2 = ?q then hkey h cur else if ?q div 2 = cur then hkey h ?q else hkey h (?q div 2))
        (if j = ?q then hkey h cur else if j = cur then hkey h ?q else hkey h j) \<le> 0"
    proof (cases "j = cur")
      case True
      with d qq show ?thesis by simp
    next
      case False
      with j have "cmp (hkey h ?q) (hkey h j) \<le> 0" using below by blast
      with qq have "cmp (hkey h (?q div 2)) (hkey h j) \<le> 0"
        using le_trans [OF okj [of "?q div 2"] okj [of ?q] okj [of j]] d q j by simp
      with False d show ?thesis by simp
    qed
  qed
qed

lemma heap_up_spec:
  assumes "heap_shape h" "\<forall>p \<in> set (heap_items h). ok p" "up_inv h cur" "1 \<le> cur" "cur \<le> heapnum h"
    and "parent = cur div 2"
  shows "heap_shape (heap_up cmp h cur parent) \<and> heap_ordered cmp (heap_up cmp h cur parent) \<and>
    mset (heap_items (heap_up cmp h cur parent)) = mset (heap_items h) \<and>
    heapmax (heap_up cmp h cur parent) = heapmax h \<and>
    length (heap_arr (heap_up cmp h cur parent)) = length (heap_arr h)"
  using assms
proof (induction parent arbitrary: h cur rule: less_induct)
  case (less parent)
  show ?case
  proof (cases "parent \<noteq> 0 \<and> 0 < heap_cmp cmp h parent cur")
    case True
    let ?h = "heap_swap h cur parent"
    have b: "2 \<le> cur" "1 \<le> parent" "parent \<le> heapnum h" using True less.prems by auto
    have inv: "up_inv ?h parent"
      using up_step [OF less.prems(1,2,3) b(1) less.prems(5)] True less.prems(6) by simp
    have items: "mset (heap_items ?h) = mset (heap_items h)"
      by (rule heap_items_swap) (use less.prems b in auto)
    then have "set (heap_items ?h) = set (heap_items h)" by (metis set_mset_mset)
    moreover have "heap_up cmp h cur parent = heap_up cmp ?h parent (parent div 2)"
      using True by (simp add: heap_up.simps [of cmp h cur parent])
    moreover have "heap_shape ?h" by (rule heap_swap_shape) (use less.prems b in auto)
    moreover have "parent div 2 < parent" using True by simp
    ultimately show ?thesis using less.IH [of "parent div 2" ?h parent] less.prems inv b items by simp
  next
    case False
    have "cmp (hkey h (j div 2)) (hkey h j) \<le> 0" if "2 \<le> j" "j \<le> heapnum h" for j
    proof (cases "j = cur")
      case True
      with False that less.prems(6) show ?thesis by (auto simp: heap_cmp_def)
    qed (use less.prems(3) that in \<open>auto simp: up_inv_def\<close>)
    then have "heap_ordered cmp h" by (simp add: heap_ordered_def)
    moreover have "heap_up cmp h cur parent = h"
      unfolding heap_up.simps [of cmp h cur parent] using False by auto
    ultimately show ?thesis using less.prems(1) by simp
  qed
qed

section \<open>The heap operations\<close>

definition heap_ok :: "'k heap \<Rightarrow> bool" where
  "heap_ok h \<longleftrightarrow> heap_shape h \<and> heap_ordered cmp h \<and> (\<forall>p \<in> set (heap_items h). ok p)"

lemma heap_top_least:
  assumes "heap_ok h" "p \<in> set (heap_items h)"
  shows "cmp (hkey h 1) p \<le> 0"
proof -
  have okj: "ok (hkey h j)" if "1 \<le> j" "j \<le> heapnum h" for j
    using assms(1) heap_items_nth that by (auto simp: heap_ok_def)
  have "cmp (hkey h 1) (hkey h j) \<le> 0" if "1 \<le> j" "j \<le> heapnum h" for j
    using that
  proof (induction j rule: less_induct)
    case (less j)
    show ?case
    proof (cases "j = 1")
      case True
      with less.prems okj [of 1] cmp_refl show ?thesis by simp
    next
      case False
      then have q: "1 \<le> j div 2" "j div 2 \<le> heapnum h" "j div 2 < j" "2 \<le> j" using less.prems by auto
      then have "cmp (hkey h 1) (hkey h (j div 2)) \<le> 0" using less.IH by blast
      moreover have "cmp (hkey h (j div 2)) (hkey h j) \<le> 0"
        using assms(1) q less.prems by (simp add: heap_ok_def heap_ordered_def)
      ultimately show ?thesis
        using le_trans [OF okj [of 1] okj [of "j div 2"] okj [of j]] q less.prems by simp
    qed
  qed
  with assms(2) show ?thesis by (auto simp: set_heap_items)
qed

text \<open>After the key of the root has grown, \<^verbatim>\<open>heap_balance\<close> restores the order.\<close>

lemma heap_balance_spec:
  assumes "heap_shape h" "\<forall>p \<in> set (heap_items h). ok p"
    and "\<forall>j. 4 \<le> j \<and> j \<le> heapnum h \<longrightarrow> cmp (hkey h (j div 2)) (hkey h j) \<le> 0"
  shows "heap_ok (heap_balance cmp h) \<and> mset (heap_items (heap_balance cmp h)) = mset (heap_items h) \<and>
    heapmax (heap_balance cmp h) = heapmax h \<and> length (heap_arr (heap_balance cmp h)) = length (heap_arr h)"
proof -
  have "down_inv h 1"
  proof -
    have "4 \<le> j" if "2 \<le> j" "j div 2 \<noteq> 1" for j :: nat using that by presburger
    with assms(3) show ?thesis by (simp add: down_inv_def)
  qed
  from heap_down_spec [OF assms(1,2) this, of 2] assms(2) show ?thesis
    by (auto simp: heap_balance_def heap_ok_def dest: mset_eq_setD)
qed

lemma heap_insert_spec:
  assumes "heap_ok h" "ok p" "heapnum h + 1 \<le> heapmax h" "heapnum h + 1 < length (heap_arr h)"
  shows "\<exists>h'. heap_insert cmp h p = Some h' \<and> heap_ok h' \<and>
    mset (heap_items h') = add_mset p (mset (heap_items h)) \<and> heapmax h' = heapmax h \<and>
    length (heap_arr h') = length (heap_arr h)"
proof -
  let ?n = "heapnum h + 1"
  let ?h = "h\<lparr>heapnum := ?n, heap_arr := (heap_arr h)[?n := Some p]\<rparr>"
  have items: "heap_items ?h = heap_items h @ [p]"
    using assms(4) by (simp add: heap_items_def)
  have shape: "heap_shape ?h"
    using assms by (auto simp: heap_ok_def heap_shape_def nth_list_update le_Suc_eq)
  have "up_inv ?h ?n"
    using assms(1,4) by (auto simp: up_inv_def heap_ok_def heap_ordered_def nth_list_update)
  define h' where "h' = heap_up cmp ?h ?n (?n div 2)"
  have h': "heap_shape h' \<and> heap_ordered cmp h' \<and> mset (heap_items h') = mset (heap_items ?h) \<and>
      heapmax h' = heapmax ?h \<and> length (heap_arr h') = length (heap_arr ?h)"
    unfolding h'_def using assms(1,2) items
    by (intro heap_up_spec [OF shape _ \<open>up_inv ?h ?n\<close>]) (auto simp: heap_ok_def)
  then have "set (heap_items h') = insert p (set (heap_items h))"
    using items by (metis Un_commute insert_is_Un list.simps(15) set_append set_mset_mset empty_set)
  with h' assms items show ?thesis
    by (simp add: heap_insert_def Let_def heap_ok_def h'_def [simplified, symmetric])
qed

lemma heap_delete_items:
  assumes "heap_shape h" "2 \<le> heapnum h"
  shows "heap_items ((heap_swap (h\<lparr>heap_arr := (heap_arr h)[1 := None]\<rparr>) 1 (heapnum h))\<lparr>heapnum := heapnum h - 1\<rparr>) =
      hkey h (heapnum h) # map (\<lambda>j. hkey h (Suc j)) [1..<heapnum h - 1]"
    and "heap_items h = hkey h 1 # map (\<lambda>j. hkey h (Suc j)) [1..<heapnum h - 1] @ [hkey h (heapnum h)]"
proof -
  have u: "[0..<heapnum h - 1] = 0 # [1..<heapnum h - 1]" "[0..<heapnum h] = 0 # [1..<heapnum h - 1] @ [heapnum h - 1]"
    using assms(2) by (simp_all add: upt_conv_Cons upt_Suc_append [symmetric] del: upt_Suc)
  show "heap_items h = hkey h 1 # map (\<lambda>j. hkey h (Suc j)) [1..<heapnum h - 1] @ [hkey h (heapnum h)]"
    using assms(2) by (simp add: heap_items_def u(2))
  show "heap_items ((heap_swap (h\<lparr>heap_arr := (heap_arr h)[1 := None]\<rparr>) 1 (heapnum h))\<lparr>heapnum := heapnum h - 1\<rparr>) =
      hkey h (heapnum h) # map (\<lambda>j. hkey h (Suc j)) [1..<heapnum h - 1]"
    using assms unfolding heap_items_def
    by (auto simp: u(1) [simplified] heap_swap_def heap_shape_def nth_list_update)
qed

lemma heap_delete_spec:
  assumes "heap_ok h" "0 < heapnum h"
  shows "heap_ok (heap_delete cmp h) \<and>
    add_mset (hkey h 1) (mset (heap_items (heap_delete cmp h))) = mset (heap_items h) \<and>
    heapmax (heap_delete cmp h) = heapmax h \<and> length (heap_arr (heap_delete cmp h)) = length (heap_arr h)"
proof -
  let ?n = "heapnum h"
  let ?h = "(heap_swap (h\<lparr>heap_arr := (heap_arr h)[1 := None]\<rparr>) 1 ?n)\<lparr>heapnum := ?n - 1\<rparr>"
  have d: "heap_delete cmp h = heap_balance cmp ?h" by (simp add: heap_delete_def heap_balance_def Let_def)
  have sh: "heap_shape h" and ord: "heap_ordered cmp h" and P: "\<forall>p \<in> set (heap_items h). ok p"
    using assms(1) by (simp_all add: heap_ok_def)
  have key: "hkey ?h j = hkey h j" if "2 \<le> j" "j < ?n" for j
    using that sh by (simp add: heap_swap_def heap_shape_def nth_list_update)
  have shape: "heap_shape ?h"
    using sh assms(2) by (auto simp: heap_shape_def heap_swap_def nth_list_update)
  have m: "add_mset (hkey h 1) (mset (heap_items ?h)) = mset (heap_items h)"
  proof (cases "2 \<le> ?n")
    case True
    show ?thesis unfolding heap_delete_items [OF sh True] by simp
  next
    case False
    with assms(2) have "?n = 1" by simp
    then show ?thesis by (simp add: heap_items_def)
  qed
  have sub: "set (heap_items ?h) \<subseteq> set (heap_items h)"
    using m by (metis set_mset_add_mset_insert set_mset_mset subset_insertI)
  have order: "\<forall>j. 4 \<le> j \<and> j \<le> heapnum ?h \<longrightarrow> cmp (hkey ?h (j div 2)) (hkey ?h j) \<le> 0"
  proof (intro allI impI)
    fix j
    assume "4 \<le> j \<and> j \<le> heapnum ?h"
    then have "2 \<le> j div 2" "j div 2 < ?n" "2 \<le> j" "j < ?n" by auto
    with key ord show "cmp (hkey ?h (j div 2)) (hkey ?h j) \<le> 0" by (simp add: heap_ordered_def)
  qed
  from heap_balance_spec [OF shape _ order] P sub have
    "heap_ok (heap_balance cmp ?h) \<and> mset (heap_items (heap_balance cmp ?h)) = mset (heap_items ?h) \<and>
     heapmax (heap_balance cmp ?h) = heapmax ?h \<and> length (heap_arr (heap_balance cmp ?h)) = length (heap_arr ?h)"
    by blast
  with m show ?thesis unfolding d by simp
qed

lemma heap_clear_ok: "heap_shape h \<Longrightarrow> heap_ok (heap_clear h)"
  by (auto simp: heap_ok_def heap_shape_def heap_ordered_def heap_clear_def heap_items_def)

lemma heap_create_ok: "heap_ok (heap_create n)"
  by (simp add: heap_ok_def heap_shape_def heap_ordered_def heap_create_def heap_items_def)

end

end
