(* ===== verification/Rset_Multi_Or.thy ===== *)
theory Rset_Multi_Or
  imports Rset_Base Rset_Heap
begin

text \<open>
  The multi-way \<^verbatim>\<open>or\<close> result set of \<^verbatim>\<open>rset/rsmultiandor.c\<close>: each child has an item with a lookahead key,
  the items that still have one are in a heap, and reading delivers the least key. An item pointer is
  its index in the item array. \<open>contents\<close> of such a set is by definition what reading it to the end
  delivers; the lemmas show that this is the sorted merge of the children. The descriptor record is
  shared with the \<^verbatim>\<open>and\<close> set, as in C (its write-only field \<^verbatim>\<open>flag\<close> is left out).
\<close>

section \<open>Operations\<close>

record ('s, 'k, 't) heap_item =
  hi_fd :: 's
  hi_buf :: "'k option"
  hi_term :: "'t option"

record ('s, 'k, 't) andor_rfd =
  ao_items :: "('s, 'k, 't) heap_item list"
  ao_h :: "nat heap option"
  ao_hits :: int
  ao_eof :: bool
  ao_tailcount :: nat
  ao_segment :: zint
  ao_skip :: bool
  ao_tailbits :: "bool list"

text \<open>Storing what \<^verbatim>\<open>rset_read(it->fd, it->buf, &it->term)\<close> or \<^verbatim>\<open>rset_forward\<close> delivered.\<close>

definition hi_load :: "('s, 'k, 't) heap_item \<Rightarrow> 's \<times> ('k \<times> 't option) option \<Rightarrow> ('s, 'k, 't) heap_item" where
  "hi_load it res = (case res of
     (s, None) \<Rightarrow> it\<lparr>hi_fd := s\<rparr>
   | (s, Some (k, t)) \<Rightarrow> it\<lparr>hi_fd := s, hi_buf := Some k, hi_term := t\<rparr>)"

definition item_cmp :: "('k \<Rightarrow> 'k \<Rightarrow> int) \<Rightarrow> ('s, 'k, 't) heap_item list \<Rightarrow> nat \<Rightarrow> nat \<Rightarrow> int" where
  "item_cmp cmp items i j = cmp (the (hi_buf (items ! i))) (the (hi_buf (items ! j)))"

definition andor_items :: "'s list \<Rightarrow> ('s, 'k, 't) heap_item list" where
  "andor_items children = map (\<lambda>s. \<lparr>hi_fd = s, hi_buf = None, hi_term = None\<rparr>) children"

text \<open>The loop of \<^verbatim>\<open>r_open_andor\<close> that fills the heap, over the child numbers.\<close>

fun or_fill :: "('k \<Rightarrow> 'k \<Rightarrow> int) \<Rightarrow> ('s \<Rightarrow> ('s, 'k, 't) rd_result) \<Rightarrow> nat list \<Rightarrow>
    ('s, 'k, 't) heap_item list \<Rightarrow> nat heap \<Rightarrow> (('s, 'k, 't) heap_item list \<times> nat heap) option" where
  "or_fill cmp rd [] items h = Some (items, h)"
| "or_fill cmp rd (i # is) items h =
     do {
       (s, rc) \<leftarrow> rd (hi_fd (items ! i));
       let items' = items[i := hi_load (items ! i) (s, rc)];
       h' \<leftarrow> (if rc \<noteq> None then heap_insert (item_cmp cmp items') h i else Some h);
       or_fill cmp rd is items' h'
     }"

definition r_open_or :: "('k \<Rightarrow> 'k \<Rightarrow> int) \<Rightarrow> ('s \<Rightarrow> ('s, 'k, 't) rd_result) \<Rightarrow> 's list \<Rightarrow>
    ('s, 'k, 't) andor_rfd option" where
  "r_open_or cmp rd children =
     do {
       (items, h) \<leftarrow> or_fill cmp rd [0..<length children] (andor_items children) (heap_create (length children));
       Some \<lparr>ao_items = items, ao_h = Some h, ao_hits = 0, ao_eof = False, ao_tailcount = 0,
             ao_segment = 0, ao_skip = False, ao_tailbits = []\<rparr>
     }"

definition r_read_or :: "('k \<Rightarrow> 'k \<Rightarrow> int) \<Rightarrow> 't option \<Rightarrow> ('s \<Rightarrow> ('s, 'k, 't) rd_result) \<Rightarrow>
    ('s, 'k, 't) andor_rfd \<Rightarrow> (('s, 'k, 't) andor_rfd, 'k, 't) rd_result" where
  "r_read_or cmp rs_term rd p =
     (let h = the (ao_h p) in
      if heap_empty h then Some (p, None)
      else
        (let i = the (heap_arr h ! 1);
             it = ao_items p ! i;
             buf = the (hi_buf it);
             term = (if rs_term \<noteq> None then rs_term else hi_term it)
         in do {
              (s, rdres) \<leftarrow> rd (hi_fd it);
              let items' = (ao_items p)[i := hi_load it (s, rdres)];
              let h' = (if rdres \<noteq> None then heap_balance (item_cmp cmp items') h
                        else heap_delete (item_cmp cmp items') h);
              Some (p\<lparr>ao_items := items', ao_h := Some h', ao_hits := ao_hits p + 1\<rparr>, Some (buf, term))
            }))"

text \<open>The loop of \<^verbatim>\<open>r_forward_or\<close>; the flag tells whether the heap ran empty (the early return 0).\<close>

partial_function (option) or_forward_loop :: "('k \<Rightarrow> 'k \<Rightarrow> int) \<Rightarrow> int \<Rightarrow> ('s \<Rightarrow> 'k \<Rightarrow> ('s, 'k, 't) rd_result) \<Rightarrow>
    'k \<Rightarrow> ('s, 'k, 't) andor_rfd \<Rightarrow> (bool \<times> ('s, 'k, 't) andor_rfd) option" where
  "or_forward_loop cmp scope fw untilbuf p =
     (let h = the (ao_h p); i = the (heap_arr h ! 1); it = ao_items p ! i in
      if cmp (the (hi_buf it)) untilbuf < - scope then
        do {
          (s, rc) \<leftarrow> fw (hi_fd it) untilbuf;
          let items' = (ao_items p)[i := hi_load it (s, rc)];
          if rc \<noteq> None
          then or_forward_loop cmp scope fw untilbuf
                 (p\<lparr>ao_items := items', ao_h := Some (heap_balance (item_cmp cmp items') h)\<rparr>)
          else (let h' = heap_delete (item_cmp cmp items') h;
                    p' = p\<lparr>ao_items := items', ao_h := Some h'\<rparr>
                in if heap_empty h' then Some (True, p')
                   else or_forward_loop cmp scope fw untilbuf p')
        }
      else Some (False, p))"

definition r_forward_or :: "('k \<Rightarrow> 'k \<Rightarrow> int) \<Rightarrow> int \<Rightarrow> 't option \<Rightarrow> ('s \<Rightarrow> ('s, 'k, 't) rd_result) \<Rightarrow>
    ('s \<Rightarrow> 'k \<Rightarrow> ('s, 'k, 't) rd_result) \<Rightarrow> ('s, 'k, 't) andor_rfd \<Rightarrow> 'k \<Rightarrow>
    (('s, 'k, 't) andor_rfd, 'k, 't) rd_result" where
  "r_forward_or cmp scope rs_term rd fw p untilbuf =
     (if heap_empty (the (ao_h p)) then Some (p, None)
      else do {
        (empty, p') \<leftarrow> or_forward_loop cmp scope fw untilbuf p;
        if empty then Some (p', None) else r_read_or cmp rs_term rd p'
      })"

section \<open>What is still to be read\<close>

definition item_pend :: "('s \<Rightarrow> ('k \<times> 't option) list) \<Rightarrow> ('s, 'k, 't) heap_item \<Rightarrow> ('k \<times> 't option) list" where
  "item_pend contents it = (the (hi_buf it), hi_term it) # contents (hi_fd it)"

definition or_live :: "('s, 'k, 't) andor_rfd \<Rightarrow> nat list" where
  "or_live p = heap_items (the (ao_h p))"

definition or_pend :: "('s \<Rightarrow> ('k \<times> 't option) list) \<Rightarrow> ('s, 'k, 't) andor_rfd \<Rightarrow> ('k \<times> 't option) multiset" where
  "or_pend contents p = (\<Sum>i \<in># mset (or_live p). mset (item_pend contents (ao_items p ! i)))"

definition or_work :: "('s \<Rightarrow> nat) \<Rightarrow> ('s, 'k, 't) andor_rfd \<Rightarrow> nat" where
  "or_work work p = (\<Sum>i \<in># mset (or_live p). Suc (work (hi_fd (ao_items p ! i))))"

text \<open>The term a key is reported with.\<close>

definition or_term :: "'t option \<Rightarrow> 'k \<times> 't option \<Rightarrow> 'k \<times> 't option" where
  "or_term rs_term x = (fst x, if rs_term \<noteq> None then rs_term else snd x)"

definition or_contents :: "('k \<Rightarrow> 'k \<Rightarrow> int) \<Rightarrow> 't option \<Rightarrow> ('s \<Rightarrow> ('s, 'k, 't) rd_result) \<Rightarrow>
    ('s, 'k, 't) andor_rfd \<Rightarrow> ('k \<times> 't option) list" where
  "or_contents cmp rs_term rd p = the (rset_read_all (r_read_or cmp rs_term rd) p)"

definition or_inv :: "('k \<Rightarrow> bool) \<Rightarrow> ('k \<Rightarrow> 'k \<Rightarrow> int) \<Rightarrow> ('s \<Rightarrow> ('k \<times> 't option) list) \<Rightarrow> ('s \<Rightarrow> bool) \<Rightarrow>
    ('s, 'k, 't) andor_rfd \<Rightarrow> bool" where
  "or_inv ok cmp contents invar p \<longleftrightarrow> ao_h p \<noteq> None \<and>
     key_cmp_order.heap_ok (\<lambda>i. i < length (ao_items p) \<and> ok (the (hi_buf (ao_items p ! i))))
       (item_cmp cmp (ao_items p)) (the (ao_h p)) \<and>
     distinct (or_live p) \<and>
     (\<forall>i \<in> set (or_live p). invar (hi_fd (ao_items p ! i)) \<and>
        good_keys ok cmp (item_pend contents (ao_items p ! i)))"

section \<open>Correctness\<close>

lemma item_load_pend:
  "item_pend c (hi_load it (s, Some x)) = x # c s"
  "hi_fd (hi_load it (s, res)) = s"
  "hi_buf (hi_load it (s, Some x)) = Some (fst x)"
  by (cases x; simp add: item_pend_def hi_load_def split: option.split)+


lemma item_load_None [simp]: "hi_buf (hi_load it (s, None)) = hi_buf it" "hi_term (hi_load it (s, None)) = hi_term it"
  by (simp_all add: hi_load_def)

lemma heap_items_inj:
  assumes "distinct (heap_items h)" "1 \<le> a" "a \<le> heapnum h" "1 \<le> b" "b \<le> heapnum h" "hkey h a = hkey h b"
  shows "a = b"
proof -
  have n: "heap_items h ! (j - 1) = hkey h j" if "1 \<le> j" "j \<le> heapnum h" for j
    using that by (cases j) (simp_all add: heap_items_def)
  have "heap_items h ! (a - 1) = heap_items h ! (b - 1)" using n [of a] n [of b] assms by simp
  then have "a - 1 = b - 1" using assms by (subst (asm) nth_eq_iff_index_eq) auto
  with assms show ?thesis by simp
qed

abbreviation item_ok :: "('k \<Rightarrow> bool) \<Rightarrow> ('s, 'k, 't) heap_item list \<Rightarrow> nat \<Rightarrow> bool" where
  "item_ok ok items \<equiv> (\<lambda>i. i < length items \<and> ok (the (hi_buf (items ! i))))"

text \<open>What replacing the lookahead of the top item by the result of a read or forward does.\<close>

definition or_advance :: "('k \<Rightarrow> 'k \<Rightarrow> int) \<Rightarrow> ('s, 'k, 't) andor_rfd \<Rightarrow> 's \<times> ('k \<times> 't option) option \<Rightarrow>
    ('s, 'k, 't) andor_rfd" where
  "or_advance cmp p res =
     (let h = the (ao_h p); i = the (heap_arr h ! 1); items' = (ao_items p)[i := hi_load (ao_items p ! i) res]
      in p\<lparr>ao_items := items', ao_h := Some (if snd res \<noteq> None then heap_balance (item_cmp cmp items') h
                                            else heap_delete (item_cmp cmp items') h)\<rparr>)"

abbreviation or_top :: "('s, 'k, 't) andor_rfd \<Rightarrow> nat" where
  "or_top p \<equiv> the (heap_arr (the (ao_h p)) ! 1)"

abbreviation or_top_item :: "('s, 'k, 't) andor_rfd \<Rightarrow> ('s, 'k, 't) heap_item" where
  "or_top_item p \<equiv> ao_items p ! or_top p"

context key_cmp_order
begin

lemma item_order: "key_cmp_order (item_ok ok items) (item_cmp cmp items)"
  unfolding key_cmp_order_def item_cmp_def by (blast intro: anti ultra)

lemmas item_heap = key_cmp_order.heap_ok_def [OF item_order]

lemma or_top_live:
  assumes "or_inv ok cmp contents invar p" "\<not> heap_empty (the (ao_h p))"
  shows "or_top p \<in> set (or_live p)" "or_top p < length (ao_items p)" "invar (hi_fd (or_top_item p))"
    "good_keys ok cmp (item_pend contents (or_top_item p))"
proof -
  show top: "or_top p \<in> set (or_live p)"
    unfolding or_live_def using assms(2) by (intro heap_items_nth) (simp_all add: heap_empty_def)
  show "or_top p < length (ao_items p)" "invar (hi_fd (or_top_item p))"
    "good_keys ok cmp (item_pend contents (or_top_item p))"
    using assms(1) top by (auto simp: or_inv_def item_heap or_live_def)
qed

lemma or_advance_heap:
  assumes inv: "or_inv ok cmp contents invar p" and ne: "\<not> heap_empty (the (ao_h p))"
    and good: "good_keys ok cmp (ahead res (contents s))"
  defines "p' \<equiv> or_advance cmp p (s, res)"
  shows "key_cmp_order.heap_ok (item_ok ok (ao_items p')) (item_cmp cmp (ao_items p')) (the (ao_h p'))"
    and "mset (or_live p) = add_mset (or_top p) (mset (or_live p) - {#or_top p#})"
    and "mset (or_live p') = (if res = None then mset (or_live p) - {#or_top p#} else mset (or_live p))"
proof -
  let ?h = "the (ao_h p)" and ?i = "or_top p" and ?items = "ao_items p"
  let ?items' = "?items[?i := hi_load (?items ! ?i) (s, res)]"
  have n: "0 < heapnum ?h" using ne by (simp add: heap_empty_def)
  have h: "heap_shape ?h" "heap_ordered (item_cmp cmp ?items) ?h" "\<forall>i \<in> set (heap_items ?h). item_ok ok ?items i"
    and hok: "key_cmp_order.heap_ok (item_ok ok ?items) (item_cmp cmp ?items) ?h"
    and dist: "distinct (heap_items ?h)"
    using inv by (simp_all add: or_inv_def item_heap or_live_def)
  show live: "mset (or_live p) = add_mset ?i (mset (or_live p) - {#?i#})"
    using or_top_live(1) [OF inv ne] by (simp add: or_live_def)
  have i: "?i < length ?items" by (rule or_top_live(2) [OF inv ne])
  have "key_cmp_order.heap_ok (item_ok ok (ao_items p')) (item_cmp cmp (ao_items p')) (the (ao_h p')) \<and>
      mset (or_live p') = (if res = None then mset (or_live p) - {#or_top p#} else mset (or_live p))"
  proof (cases res)
    case None
    have same: "hi_buf (?items' ! j) = hi_buf (?items ! j)" for j
      using i None by (cases "j = ?i") simp_all
    then have "item_cmp cmp ?items' = item_cmp cmp ?items" "item_ok ok ?items' = item_ok ok ?items"
      by (simp_all add: item_cmp_def fun_eq_iff)
    then have "key_cmp_order.heap_ok (item_ok ok ?items') (item_cmp cmp ?items') (heap_delete (item_cmp cmp ?items') ?h)"
      "add_mset ?i (mset (heap_items (heap_delete (item_cmp cmp ?items') ?h))) = mset (heap_items ?h)"
      using key_cmp_order.heap_delete_spec [OF item_order hok n] by auto
    moreover from this(2) have "mset (heap_items (heap_delete (item_cmp cmp ?items') ?h)) = mset (heap_items ?h) - {#?i#}"
      by (metis add_mset_remove_trivial)
    ultimately show ?thesis using None by (simp add: p'_def or_advance_def Let_def or_live_def)
  next
    case (Some x)
    have ok': "\<forall>j \<in> set (heap_items ?h). item_ok ok ?items' j"
      using h(3) i good Some by (auto simp: nth_list_update item_load_pend)
    have ord: "\<forall>j. 4 \<le> j \<and> j \<le> heapnum ?h \<longrightarrow> item_cmp cmp ?items' (hkey ?h (j div 2)) (hkey ?h j) \<le> 0"
    proof (intro allI impI)
      fix j
      assume j: "4 \<le> j \<and> j \<le> heapnum ?h"
      then have "2 \<le> j div 2" "j div 2 \<le> heapnum ?h" "2 \<le> j" by auto
      then have "hkey ?h (j div 2) \<noteq> ?i" "hkey ?h j \<noteq> ?i"
        using heap_items_inj [OF dist, of "j div 2" 1] heap_items_inj [OF dist, of j 1] j by auto
      then show "item_cmp cmp ?items' (hkey ?h (j div 2)) (hkey ?h j) \<le> 0"
        using h(2) j by (simp add: item_cmp_def heap_ordered_def)
    qed
    show ?thesis
      using key_cmp_order.heap_balance_spec [OF item_order h(1) ok' ord] Some
      by (simp add: p'_def or_advance_def Let_def or_live_def)
  qed
  then show "key_cmp_order.heap_ok (item_ok ok (ao_items p')) (item_cmp cmp (ao_items p')) (the (ao_h p'))"
    and "mset (or_live p') = (if res = None then mset (or_live p) - {#or_top p#} else mset (or_live p))"
    by blast+
qed

lemma or_advance_item:
  "ao_items (or_advance cmp p res) = (ao_items p)[or_top p := hi_load (or_top_item p) res]"
  by (simp add: or_advance_def Let_def)

lemma or_advance_spec:
  assumes inv: "or_inv ok cmp contents invar p" and ne: "\<not> heap_empty (the (ao_h p))"
    and s: "invar s" and good: "good_keys ok cmp (ahead res (contents s))"
  defines "p' \<equiv> or_advance cmp p (s, res)"
  shows "or_inv ok cmp contents invar p'"
    and "or_pend contents p' + mset (item_pend contents (or_top_item p)) =
      or_pend contents p + mset (ahead res (contents s))"
    and "or_work work p' + Suc (work (hi_fd (or_top_item p))) =
      or_work work p + (if res = None then 0 else Suc (work s))"
proof -
  note hp = or_advance_heap [where contents = contents and s = s, OF inv ne good, folded p'_def]
  define M where "M = mset (or_live p) - {#or_top p#}"
  have M: "mset (or_live p) = add_mset (or_top p) M" using hp(2) by (simp add: M_def)
  have live': "mset (or_live p') = (if res = None then M else add_mset (or_top p) M)" using hp(3) M by (simp add: M_def)
  obtain ys where ys: "mset ys = M" using ex_mset by blast
  have "distinct (or_live p)" using inv by (simp add: or_inv_def)
  then have dist: "distinct (or_top p # ys)"
    using M ys mset_eq_imp_distinct_iff [of "or_live p" "or_top p # ys"] by simp
  then have nM: "or_top p \<notin># M" using ys by auto
  have i: "or_top p < length (ao_items p)" by (rule or_top_live(2) [OF inv ne])
  have keep: "ao_items p' ! j = ao_items p ! j" if "j \<in># M" for j
    using that nM by (cases "j = or_top p") (simp_all add: p'_def or_advance_item)
  have top: "ao_items p' ! or_top p = hi_load (or_top_item p) (s, res)"
    using i by (simp add: p'_def or_advance_item)
  have set_live: "set (or_live p) = insert (or_top p) (set_mset M)" using M by (metis set_mset_add_mset_insert set_mset_mset)
  have live_set': "set (or_live p') \<subseteq> insert (or_top p) (set_mset M)"
    using live' by (metis set_mset_add_mset_insert set_mset_mset subset_insertI subset_refl)
  have "distinct (or_live p')"
    using dist live' ys mset_eq_imp_distinct_iff [of "or_live p'" "if res = None then ys else or_top p # ys"]
    by (cases res) auto
  moreover have "invar (hi_fd (ao_items p' ! j)) \<and> good_keys ok cmp (item_pend contents (ao_items p' ! j))"
    if "j \<in> set (or_live p')" for j
  proof (cases "j = or_top p")
    case True
    then have "res \<noteq> None" using that live' nM by (metis set_mset_mset)
    with True top s good show ?thesis by (auto simp: item_load_pend)
  next
    case False
    with that live_set' have "j \<in># M" by blast
    with keep inv set_live show ?thesis by (auto simp: or_inv_def)
  qed
  moreover have "ao_h p' \<noteq> None" by (simp add: p'_def or_advance_def Let_def)
  ultimately show "or_inv ok cmp contents invar p'"
    using hp(1) by (simp add: or_inv_def)
  have *: "(\<Sum>j \<in># M. mset (item_pend contents (ao_items p' ! j))) = (\<Sum>j \<in># M. mset (item_pend contents (ao_items p ! j)))"
    "(\<Sum>j \<in># M. Suc (work (hi_fd (ao_items p' ! j)))) = (\<Sum>j \<in># M. Suc (work (hi_fd (ao_items p ! j))))"
    using keep by (simp_all cong: image_mset_cong)
  show "or_pend contents p' + mset (item_pend contents (or_top_item p)) =
      or_pend contents p + mset (ahead res (contents s))"
    by (cases res) (simp_all add: or_pend_def M live' * top item_load_pend del: One_nat_def)
  show "or_work work p' + Suc (work (hi_fd (or_top_item p))) =
      or_work work p + (if res = None then 0 else Suc (work s))"
    by (cases res) (simp_all add: or_work_def M live' * top item_load_pend del: One_nat_def)
qed


end

context rset_reader
begin

abbreviation "or_r t \<equiv> r_read_or cmp t rd"
abbreviation "or_i \<equiv> or_inv ok cmp contents invar"

lemma or_inv_hits [simp]:
  "or_inv ok cmp contents invar (p\<lparr>ao_hits := n\<rparr>) = or_inv ok cmp contents invar p"
  "or_pend contents (p\<lparr>ao_hits := n\<rparr>) = or_pend contents p"
  "or_work work (p\<lparr>ao_hits := n\<rparr>) = or_work work p"
  by (simp_all add: or_inv_def or_live_def or_pend_def or_work_def)

lemma or_empty_pend: "heap_empty (the (ao_h p)) \<Longrightarrow> or_pend contents p = {#}"
  by (simp add: or_pend_def or_live_def heap_empty_def heap_items_def)

lemma or_top_least:
  assumes inv: "or_i p" and ne: "\<not> heap_empty (the (ao_h p))" and y: "y \<in># or_pend contents p"
  shows "cmp (the (hi_buf (or_top_item p))) (fst y) \<le> 0" and "ok (fst y)"
proof -
  obtain j where j: "j \<in> set (or_live p)" "y \<in> set (item_pend contents (ao_items p ! j))"
    using y by (auto simp: or_pend_def)
  have hok: "key_cmp_order.heap_ok (item_ok ok (ao_items p)) (item_cmp cmp (ao_items p)) (the (ao_h p))"
    using inv by (simp add: or_inv_def)
  have 1: "cmp (the (hi_buf (or_top_item p))) (the (hi_buf (ao_items p ! j))) \<le> 0"
    using key_cmp_order.heap_top_least [OF item_order hok] j(1) by (simp add: or_live_def item_cmp_def)
  have g: "good_keys ok cmp (item_pend contents (ao_items p ! j))"
    using inv j(1) by (simp add: or_inv_def)
  with j(2) show oky: "ok (fst y)" by (auto dest: good_keys_ok)
  have okj: "ok (the (hi_buf (ao_items p ! j)))" using g by (simp add: item_pend_def)
  have "ok (the (hi_buf (or_top_item p)))" using or_top_live(4) [OF inv ne] by (simp add: item_pend_def)
  moreover have "cmp (the (hi_buf (ao_items p ! j))) (fst y) \<le> 0"
    using g j(2) cmp_refl [OF okj] by (auto simp: item_pend_def)
  ultimately show "cmp (the (hi_buf (or_top_item p))) (fst y) \<le> 0"
    using le_trans [OF _ okj oky 1] by blast
qed

text \<open>One read delivers a least key of what is pending and removes exactly that key.\<close>

lemma or_read_step:
  assumes inv: "or_i p" and ne: "\<not> heap_empty (the (ao_h p))"
  obtains p' x where "or_r t p = Some (p', Some (or_term t x))" "or_i p'"
    "or_pend contents p = add_mset x (or_pend contents p')" "or_work work p' < or_work work p"
    "\<forall>y \<in># or_pend contents p. cmp (fst x) (fst y) \<le> 0" "ok (fst x)"
proof -
  let ?it = "or_top_item p"
  note top = or_top_live [OF inv ne]
  obtain s res where s: "rd (hi_fd ?it) = Some (s, res)" "invar s" "contents (hi_fd ?it) = ahead res (contents s)"
      "res \<noteq> None \<longrightarrow> work s < work (hi_fd ?it)"
    using rd_ahead [OF top(3)] by metis
  have good: "good_keys ok cmp (ahead res (contents s))" using contents_good [OF top(3)] s(3) by simp
  note adv = or_advance_spec [where s = s, OF inv ne s(2) good]
  let ?x = "(the (hi_buf ?it), hi_term ?it)"
  let ?p = "(or_advance cmp p (s, res))\<lparr>ao_hits := ao_hits p + 1\<rparr>"
  have "or_r t p = Some (?p, Some (or_term t ?x))"
    using ne s(1) by (simp add: r_read_or_def Let_def or_term_def or_advance_def)
  moreover have "or_pend contents p = add_mset ?x (or_pend contents ?p)"
    using adv(2) s(3) by (simp add: item_pend_def)
  moreover have "or_work work ?p < or_work work p"
    using adv(3) [of work] s(4) by (auto split: if_splits)
  moreover have "ok (fst ?x)" using top(4) by (simp add: item_pend_def)
  moreover have "\<forall>y \<in># or_pend contents p. cmp (fst ?x) (fst y) \<le> 0"
    using or_top_least(1) [OF inv ne] by simp
  moreover have "or_i ?p" using adv(1) by simp
  ultimately show ?thesis using that by blast
qed

lemma or_read_all:
  assumes "or_i p"
  shows "\<exists>xs. rset_read_all (or_r t) p = Some xs \<and> good_keys ok cmp xs \<and>
    mset xs = image_mset (or_term t) (or_pend contents p)"
  using assms
proof (induction "or_work work p" arbitrary: p rule: less_induct)
  case less
  show ?case
  proof (cases "heap_empty (the (ao_h p))")
    case True
    then have "or_r t p = Some (p, None)" by (simp add: r_read_or_def)
    with True show ?thesis by (subst rset_read_all.simps) (simp add: or_empty_pend)
  next
    case False
    obtain p' x where x: "or_r t p = Some (p', Some (or_term t x))" "or_i p'"
        "or_pend contents p = add_mset x (or_pend contents p')" "or_work work p' < or_work work p"
        "\<forall>y \<in># or_pend contents p. cmp (fst x) (fst y) \<le> 0" "ok (fst x)"
      by (rule or_read_step [OF less.prems False])
    obtain xs where xs: "rset_read_all (or_r t) p' = Some xs" "good_keys ok cmp xs"
        "mset xs = image_mset (or_term t) (or_pend contents p')"
      using less.hyps [OF x(4,2)] by blast
    have "set xs = or_term t ` set_mset (or_pend contents p')"
      using arg_cong [OF xs(3), of set_mset] by simp
    then have "\<forall>y \<in> set xs. cmp (fst x) (fst y) \<le> 0" using x(3,5) by (simp add: or_term_def)
    moreover have "rset_read_all (or_r t) p = Some (or_term t x # xs)"
      using x(1) xs(1) by (subst rset_read_all.simps) simp
    ultimately show ?thesis
      using x(3,6) xs(2,3) by (intro exI [of _ "or_term t x # xs"]) (simp add: or_term_def)
  qed
qed

lemma or_contents_spec:
  assumes "or_i p"
  shows "rset_read_all (or_r t) p = Some (or_contents cmp t rd p)"
    and "good_keys ok cmp (or_contents cmp t rd p)"
    and "mset (or_contents cmp t rd p) = image_mset (or_term t) (or_pend contents p)"
  using or_read_all [OF assms, of t] by (auto simp: or_contents_def)

lemma or_read_spec:
  assumes inv: "or_i p"
  shows "\<exists>p' res. or_r t p = Some (p', res) \<and> or_i p' \<and>
    or_contents cmp t rd p = ahead res (or_contents cmp t rd p') \<and> (res = None \<longrightarrow> or_contents cmp t rd p' = []) \<and>
    (res \<noteq> None \<longrightarrow> or_work work p' < or_work work p)"
proof (cases "heap_empty (the (ao_h p))")
  case True
  then have "or_r t p = Some (p, None)" by (simp add: r_read_or_def)
  moreover have "or_contents cmp t rd p = []"
    using or_contents_spec(3) [OF inv, of t] True by (simp add: or_empty_pend)
  ultimately show ?thesis using inv by auto
next
  case False
  obtain p' x where x: "or_r t p = Some (p', Some (or_term t x))" "or_i p'" "or_work work p' < or_work work p"
    by (rule or_read_step [OF inv False])
  then have "or_contents cmp t rd p = or_term t x # or_contents cmp t rd p'"
    using or_contents_spec(1) [OF inv, of t] or_contents_spec(1) [OF x(2), of t]
    by (simp add: rset_read_all.simps [of "or_r t" p])
  with x show ?thesis by auto
qed


text \<open>Forwarding drops only keys of records before the one of \<open>u\<close>.\<close>

definition or_from :: "'k \<Rightarrow> ('s, 'k, 't) andor_rfd \<Rightarrow> ('k \<times> 't option) multiset" where
  "or_from u p = filter_mset (\<lambda>x. cmp u (fst x) < scope) (or_pend contents p)"

lemma or_forward_loop_spec:
  assumes "or_i p" "\<not> heap_empty (the (ao_h p))" and u: "ok u"
  shows "\<exists>e p'. or_forward_loop cmp scope fw u p = Some (e, p') \<and> or_i p' \<and>
    e = heap_empty (the (ao_h p')) \<and> or_work work p' \<le> or_work work p \<and> or_from u p' = or_from u p"
  using assms(1,2)
proof (induction "or_work work p" arbitrary: p rule: less_induct)
  case less
  let ?it = "or_top_item p"
  note top = or_top_live [OF less.prems]
  show ?case
  proof (cases "cmp (the (hi_buf ?it)) u < - scope")
    case True
    obtain s res where s: "fw (hi_fd ?it) u = Some (s, res)" "invar s" "res \<noteq> None \<longrightarrow> work s < work (hi_fd ?it)"
        "good_keys ok cmp (ahead res (contents s))"
        "mset (from_key cmp scope u (ahead res (contents s))) = mset (from_key cmp scope u (contents (hi_fd ?it)))"
      using fw_keep [OF top(3) u] by blast
    let ?p = "or_advance cmp p (s, res)"
    note adv = or_advance_spec [where s = s, OF less.prems s(2,4)]
    have lt: "or_work work ?p < or_work work p" using adv(3) [of work] s(3) by (auto split: if_splits)
    have "ok (the (hi_buf ?it))" using top(4) by (simp add: item_pend_def)
    then have "\<not> cmp u (the (hi_buf ?it)) < scope" using True anti [OF _ u] by fastforce
    then have from': "or_from u ?p = or_from u p"
      using arg_cong [OF adv(2), of "filter_mset (\<lambda>x. cmp u (fst x) < scope)"] s(5)
      by (simp add: or_from_def item_pend_def from_key_def mset_filter)
    have step: "or_forward_loop cmp scope fw u p =
        (if res = None \<and> heap_empty (the (ao_h ?p)) then Some (True, ?p) else or_forward_loop cmp scope fw u ?p)"
      by (subst or_forward_loop.simps) (use True s(1) in \<open>cases res; simp add: Let_def or_advance_def\<close>)
    show ?thesis
    proof (cases "heap_empty (the (ao_h ?p))")
      case em: True
      have "res = None"
      proof (rule ccontr)
        assume "res \<noteq> None"
        then have "mset (or_live ?p) = mset (or_live p)"
          using or_advance_heap(3) [where s = s, OF less.prems s(4)] by (auto split: if_splits)
        with em less.prems(2) show False
          by (metis heap_empty_def heap_items_length or_live_def size_mset)
      qed
      with em step adv(1) lt from' show ?thesis by auto
    next
      case False
      with less.hyps [OF lt adv(1) False] step lt from' show ?thesis by auto
    qed
  next
    case False
    then have "or_forward_loop cmp scope fw u p = Some (False, p)"
      by (subst or_forward_loop.simps) (simp add: Let_def)
    with less.prems show ?thesis by auto
  qed
qed

lemma or_from_contents:
  assumes "or_i p"
  shows "mset (from_key cmp scope u (or_contents cmp t rd p)) = image_mset (or_term t) (or_from u p)"
  unfolding from_key_def mset_filter or_contents_spec(3) [OF assms]
  by (simp add: or_from_def filter_mset_image_mset or_term_def)

lemma r_forward_or_keep:
  assumes inv: "or_i p" and u: "ok u"
  shows "\<exists>p' res. r_forward_or cmp scope t rd fw p u = Some (p', res) \<and> or_i p' \<and>
    (res = None \<longrightarrow> or_contents cmp t rd p' = []) \<and> (res \<noteq> None \<longrightarrow> or_work work p' < or_work work p) \<and>
    good_keys ok cmp (ahead res (or_contents cmp t rd p')) \<and>
    mset (from_key cmp scope u (ahead res (or_contents cmp t rd p'))) =
    mset (from_key cmp scope u (or_contents cmp t rd p))"
proof (cases "heap_empty (the (ao_h p))")
  case True
  then have "or_contents cmp t rd p = []" using or_contents_spec(3) [OF inv, of t] by (simp add: or_empty_pend)
  with True inv show ?thesis by (simp add: r_forward_or_def)
next
  case False
  obtain e p1 where p1: "or_forward_loop cmp scope fw u p = Some (e, p1)" "or_i p1"
      "e = heap_empty (the (ao_h p1))" "or_work work p1 \<le> or_work work p" "or_from u p1 = or_from u p"
    using or_forward_loop_spec [OF inv False u] by blast
  obtain p' res where r: "or_r t p1 = Some (p', res)" "or_i p'"
      "or_contents cmp t rd p1 = ahead res (or_contents cmp t rd p')" "res = None \<longrightarrow> or_contents cmp t rd p' = []"
      "res \<noteq> None \<longrightarrow> or_work work p' < or_work work p1"
    using or_read_spec [OF p1(2), of t] by blast
  have "e \<Longrightarrow> or_r t p1 = Some (p1, None)" using p1(3) by (simp add: r_read_or_def)
  then have "r_forward_or cmp scope t rd fw p u = Some (p', res)"
    using False p1(1) r(1) by (auto simp: r_forward_or_def)
  moreover have "good_keys ok cmp (ahead res (or_contents cmp t rd p'))"
    using or_contents_spec(2) [OF p1(2), of t] r(3) by simp
  moreover have "mset (from_key cmp scope u (ahead res (or_contents cmp t rd p'))) =
    mset (from_key cmp scope u (or_contents cmp t rd p))"
    unfolding r(3) [symmetric] or_from_contents [OF p1(2)] or_from_contents [OF inv] p1(5) ..
  ultimately show ?thesis using r p1(4) by auto
qed

lemma or_raw:
  "rset_raw ok cmp scope (on_priv (or_r t)) (Some (\<lambda>r u. on_priv (\<lambda>p. r_forward_or cmp scope t rd fw p u) r))
    (or_contents cmp t rd) (or_work work) (or_inv ok cmp contents invar)"
  by (rule on_priv_raw [OF key_cmp_order_axioms scope_pos])
     (use or_read_spec or_contents_spec(2) in \<open>auto simp: reads_ahead_def keeps_from_def [symmetric]
        intro!: on_priv_keeps r_forward_or_keep [folded keeps_from_def]\<close>)

text \<open>Filling the heap when the set is opened.\<close>

lemma or_fill_heap:
  assumes hok: "key_cmp_order.heap_ok (item_ok ok items) (item_cmp cmp items) h" and i: "i \<notin> set (heap_items h)"
  shows "key_cmp_order.heap_ok (item_ok ok (items[i := it])) (item_cmp cmp (items[i := it])) h"
proof -
  have "hkey h j \<noteq> i" if "1 \<le> j" "j \<le> heapnum h" for j using heap_items_nth that i by metis
  then have "item_cmp cmp (items[i := it]) (hkey h (j div 2)) (hkey h j) = item_cmp cmp items (hkey h (j div 2)) (hkey h j)"
    if "2 \<le> j" "j \<le> heapnum h" for j
    using that by (simp add: item_cmp_def nth_list_update_neq [OF not_sym])
  then have "heap_ordered (item_cmp cmp (items[i := it])) h"
    using hok by (simp add: item_heap heap_ordered_def)
  moreover have "\<forall>j \<in> set (heap_items h). item_ok ok (items[i := it]) j"
  proof
    fix j
    assume "j \<in> set (heap_items h)"
    with i hok show "item_ok ok (items[i := it]) j" by (cases "j = i") (auto simp: item_heap)
  qed
  moreover have "heap_shape h" using hok by (simp add: item_heap)
  ultimately show ?thesis unfolding item_heap by blast
qed


abbreviation or_state :: "('s, 'k, 't) andor_rfd \<Rightarrow> ('s, 'k, 't) heap_item list \<Rightarrow> nat heap \<Rightarrow> ('s, 'k, 't) andor_rfd" where
  "or_state p items h \<equiv> p\<lparr>ao_items := items, ao_h := Some h\<rparr>"

lemma or_fill_step:
  assumes inv: "or_i (or_state p items h)" and i: "i < length items" "i \<notin> set (heap_items h)"
    and s: "invar s" "good_keys ok cmp (ahead res (contents s))"
    and room: "heapnum h + 1 < length (heap_arr h)" "length (heap_arr h) \<le> heapmax h"
  defines "items' \<equiv> items[i := hi_load (items ! i) (s, res)]"
  obtains h' where "(if res \<noteq> None then heap_insert (item_cmp cmp items') h i else Some h) = Some h'"
    "or_i (or_state p items' h')" "length (heap_arr h') = length (heap_arr h)" "heapmax h' = heapmax h"
    "heapnum h' \<le> heapnum h + 1" "set (heap_items h') \<subseteq> insert i (set (heap_items h))"
    "or_pend contents (or_state p items' h') = or_pend contents (or_state p items h) + mset (ahead res (contents s))"
proof -
  have hok: "key_cmp_order.heap_ok (item_ok ok items) (item_cmp cmp items) h"
    and dist: "distinct (heap_items h)"
    and P: "\<forall>j \<in> set (heap_items h). invar (hi_fd (items ! j)) \<and> good_keys ok cmp (item_pend contents (items ! j))"
    using inv by (simp_all add: or_inv_def or_live_def)
  note hok' = or_fill_heap [OF hok i(2), of "hi_load (items ! i) (s, res)", folded items'_def]
  have keep: "items' ! j = items ! j" if "j \<in> set (heap_items h)" for j
    using that i by (cases "j = i") (simp_all add: items'_def)
  have pend: "(\<Sum>j \<in># mset (heap_items h). mset (item_pend contents (items' ! j))) =
      (\<Sum>j \<in># mset (heap_items h). mset (item_pend contents (items ! j)))"
    by (rule arg_cong [where f = sum_mset]) (rule image_mset_cong, simp add: keep)
  show ?thesis
  proof (cases res)
    case None
    have "or_i (or_state p items' h)" using hok' dist P keep by (simp add: or_inv_def or_live_def)
    with None that [of h] pend show ?thesis by (auto simp: or_pend_def or_live_def)
  next
    case (Some x)
    have it: "items' ! i = hi_load (items ! i) (s, Some x)" using i Some by (simp add: items'_def)
    have "item_ok ok items' i" using i s(2) Some by (simp add: it item_load_pend) (simp add: items'_def)
    moreover have "heapnum h + 1 \<le> heapmax h" using room by simp
    ultimately obtain h' where h': "heap_insert (item_cmp cmp items') h i = Some h'"
        "key_cmp_order.heap_ok (item_ok ok items') (item_cmp cmp items') h'"
        "mset (heap_items h') = add_mset i (mset (heap_items h))" "heapmax h' = heapmax h"
        "length (heap_arr h') = length (heap_arr h)"
      using key_cmp_order.heap_insert_spec [OF item_order hok'] room(1) by blast
    have sets: "set (heap_items h') = insert i (set (heap_items h))"
      using arg_cong [OF h'(3), of set_mset] by simp
    have "distinct (heap_items h')"
      using h'(3) mset_eq_imp_distinct_iff [of "heap_items h'" "i # heap_items h"] dist i by simp
    moreover have "heapnum h' = heapnum h + 1"
      using arg_cong [OF h'(3), of size] by simp
    moreover have "invar (hi_fd (items' ! j)) \<and> good_keys ok cmp (item_pend contents (items' ! j))"
      if "j \<in> set (heap_items h')" for j
    proof (cases "j = i")
      case True
      with s Some it show ?thesis by (simp add: item_load_pend)
    next
      case False
      with that sets have "j \<in> set (heap_items h)" by simp
      with P keep show ?thesis by simp
    qed
    ultimately have "or_i (or_state p items' h')" "heapnum h' \<le> heapnum h + 1"
      using h'(2) by (simp_all add: or_inv_def or_live_def)
    moreover have "or_pend contents (or_state p items' h') =
        or_pend contents (or_state p items h) + mset (ahead res (contents s))"
      using h'(3) pend Some it by (simp add: or_pend_def or_live_def item_load_pend)
    ultimately show ?thesis using that [of h'] h' sets Some by simp
  qed
qed

lemma or_fill_spec:
  assumes "or_i (or_state p items h)" "distinct js"
    and "\<forall>i \<in> set js. i < length items \<and> i \<notin> set (heap_items h) \<and> invar (hi_fd (items ! i))"
    and "heapnum h + length js < length (heap_arr h)" "length (heap_arr h) \<le> heapmax h"
  shows "\<exists>items' h'. or_fill cmp rd js items h = Some (items', h') \<and> or_i (or_state p items' h') \<and>
    or_pend contents (or_state p items' h') =
    or_pend contents (or_state p items h) + (\<Sum>i \<leftarrow> js. mset (contents (hi_fd (items ! i))))"
  using assms
proof (induction js arbitrary: items h)
  case (Cons i js)
  have i: "i < length items" "i \<notin> set (heap_items h)" "invar (hi_fd (items ! i))" using Cons.prems(3) by auto
  obtain s res where s: "rd (hi_fd (items ! i)) = Some (s, res)" "invar s"
      "contents (hi_fd (items ! i)) = ahead res (contents s)"
    using rd_ahead [OF i(3)] by metis
  let ?items = "items[i := hi_load (items ! i) (s, res)]"
  have good: "good_keys ok cmp (ahead res (contents s))" using contents_good [OF i(3)] s(3) by simp
  have room: "heapnum h + 1 < length (heap_arr h)" using Cons.prems(4) by simp
  obtain h' where h': "(if res \<noteq> None then heap_insert (item_cmp cmp ?items) h i else Some h) = Some h'"
    "or_i (or_state p ?items h')" "length (heap_arr h') = length (heap_arr h)" "heapmax h' = heapmax h"
    "heapnum h' \<le> heapnum h + 1" "set (heap_items h') \<subseteq> insert i (set (heap_items h))"
    "or_pend contents (or_state p ?items h') = or_pend contents (or_state p items h) + mset (ahead res (contents s))"
    by (rule or_fill_step [OF Cons.prems(1) i(1,2) s(2) good room Cons.prems(5)])
  have rest: "?items ! j = items ! j" if "j \<in> set js" for j
    using that Cons.prems(2) by (cases "j = i") auto
  have sum: "(\<Sum>j \<leftarrow> js. mset (contents (hi_fd (?items ! j)))) = (\<Sum>j \<leftarrow> js. mset (contents (hi_fd (items ! j))))"
    using rest by (simp cong: map_cong)
  have "\<exists>items' h''. or_fill cmp rd js ?items h' = Some (items', h'') \<and> or_i (or_state p items' h'') \<and>
    or_pend contents (or_state p items' h'') =
    or_pend contents (or_state p ?items h') + (\<Sum>j \<leftarrow> js. mset (contents (hi_fd (?items ! j))))"
    by (rule Cons.IH) (use Cons.prems h' rest in auto)
  moreover have "or_fill cmp rd (i # js) items h = or_fill cmp rd js ?items h'"
    using s(1) h'(1) by (cases res) simp_all
  ultimately show ?case using h'(7) s(3) sum by (auto simp: ac_simps)
qed simp

lemma r_open_or_spec:
  assumes "\<forall>s \<in> set children. invar s"
  shows "\<exists>p. r_open_or cmp rd children = Some p \<and> or_i p \<and>
    or_pend contents p = mset (concat (map contents children))"
proof -
  let ?n = "length children" and ?items = "andor_items children :: ('s, 'k, 't) heap_item list"
  let ?p = "\<lparr>ao_items = ?items, ao_h = Some (heap_create ?n), ao_hits = 0, ao_eof = False, ao_tailcount = 0,
    ao_segment = 0, ao_skip = False, ao_tailbits = []\<rparr>"
  have "or_i (or_state ?p ?items (heap_create ?n))"
    using key_cmp_order.heap_create_ok [OF item_order, of ?items ?n]
    by (simp add: or_inv_def or_live_def heap_items_def) (simp add: heap_create_def)
  moreover have "heapnum (heap_create ?n :: nat heap) + length [0..<?n] < length (heap_arr (heap_create ?n :: nat heap))"
    "length (heap_arr (heap_create ?n :: nat heap)) \<le> heapmax (heap_create ?n :: nat heap)"
    by (simp_all add: heap_create_def)
  moreover have "\<forall>i \<in> set [0..<?n]. i < length ?items \<and> i \<notin> set (heap_items (heap_create ?n :: nat heap)) \<and>
      invar (hi_fd (?items ! i))"
    using assms by (auto simp: andor_items_def heap_create_def heap_items_def)
  ultimately obtain items' h' where f: "or_fill cmp rd [0..<?n] ?items (heap_create ?n) = Some (items', h')"
      "or_i (or_state ?p items' h')"
      "or_pend contents (or_state ?p items' h') = or_pend contents (or_state ?p ?items (heap_create ?n)) +
        (\<Sum>i \<leftarrow> [0..<?n]. mset (contents (hi_fd (?items ! i))))"
    using or_fill_spec [where p = ?p and items = ?items and h = "heap_create ?n" and js = "[0..<?n]"] distinct_upt by blast
  have "map (\<lambda>i. mset (contents (hi_fd (?items ! i)))) [0..<?n] = map (mset \<circ> contents) children"
    by (rule nth_equalityI) (simp_all add: andor_items_def)
  then have "(\<Sum>i \<leftarrow> [0..<?n]. mset (contents (hi_fd (?items ! i)))) = mset (concat (map contents children))"
    by (simp add: mset_concat del: upt_Suc)
  moreover have "or_pend contents (or_state ?p ?items (heap_create ?n)) = {#}"
    by (rule or_empty_pend) (simp add: heap_empty_def heap_create_def)
  ultimately show ?thesis using f by (simp add: r_open_or_def)
qed

end

end
