(* ===== verification/Rset_Multi_And.thy ===== *)
theory Rset_Multi_And
  imports Complex_Main Rset_Multi_Or
begin

text \<open>
  The multi-way \<^verbatim>\<open>and\<close> result set of \<^verbatim>\<open>rset/rsmultiandor.c\<close>. The items are forwarded until their lookahead
  keys lie in one record; then all of them are \<^emph>\<open>tailing\<close> and the keys of that record are delivered in
  order, until no item is in it any more. \<open>and_hits\<close> is the specification: the keys of all children whose
  record occurs in every child. The key buffer of a child that was empty when the set was opened is
  uninitialised memory in C and an unspecified key here; such a set is at its end, and what is proved
  of it does not depend on that key.

  \<^verbatim>\<open>qsort\<close> is a parameter; the only thing used of it is that it permutes the array.
\<close>

section \<open>Operations\<close>

text \<open>\<^verbatim>\<open>compare_ands\<close>; \<open>tot\<close> stands for the total that \<^verbatim>\<open>rset_pos\<close> reports for a descriptor.\<close>

definition compare_ands :: "('s \<Rightarrow> rat) \<Rightarrow> ('s, 'k, 't) heap_item \<Rightarrow> ('s, 'k, 't) heap_item \<Rightarrow> int" where
  "compare_ands tot x y =
     (let totx = tot (hi_fd x); toty = tot (hi_fd y) in
      if totx > toty + 1 / 2 then 1 else if totx < toty - 1 / 2 then - 1 else 0)"

fun and_fill :: "('s \<Rightarrow> ('s, 'k, 't) rd_result) \<Rightarrow> 's list \<Rightarrow> (('s, 'k, 't) heap_item list \<times> bool) option" where
  "and_fill rd [] = Some ([], False)"
| "and_fill rd (c # cs) =
     do {
       (s, rc) \<leftarrow> rd c;
       (items, eof) \<leftarrow> and_fill rd cs;
       Some (hi_load \<lparr>hi_fd = c, hi_buf = None, hi_term = None\<rparr> (s, rc) # items, rc = None \<or> eof)
     }"

definition r_open_and :: "((('s, 'k, 't) heap_item \<Rightarrow> ('s, 'k, 't) heap_item \<Rightarrow> int) \<Rightarrow>
    ('s, 'k, 't) heap_item list \<Rightarrow> ('s, 'k, 't) heap_item list) \<Rightarrow> ('s \<Rightarrow> rat) \<Rightarrow>
    ('s \<Rightarrow> ('s, 'k, 't) rd_result) \<Rightarrow> 's list \<Rightarrow> ('s, 'k, 't) andor_rfd option" where
  "r_open_and qsort tot rd children =
     do {
       (items, eof) \<leftarrow> and_fill rd children;
       Some \<lparr>ao_items = qsort (compare_ands tot) items, ao_h = None, ao_hits = 0, ao_eof = eof, ao_tailcount = 0,
             ao_segment = 0, ao_skip = False, ao_tailbits = replicate (length children) False\<rparr>
     }"

text \<open>The scan over the tailing items: the least of them, and the segments (when the key control has
  them). State: \<^verbatim>\<open>mintail\<close>, \<^verbatim>\<open>p->segment\<close>, \<^verbatim>\<open>p->skip\<close>.\<close>

definition and_scan_item :: "('k \<Rightarrow> 'k \<Rightarrow> int) \<Rightarrow> ('k \<Rightarrow> zint) option \<Rightarrow> ('s, 'k, 't) andor_rfd \<Rightarrow> nat \<Rightarrow>
    nat option \<times> zint \<times> bool \<Rightarrow> nat option \<times> zint \<times> bool" where
  "and_scan_item cmp get_segment p i st =
     (case st of (mintail, seg, skip) \<Rightarrow>
        if ao_tailbits p ! i then
          (let b = the (hi_buf (ao_items p ! i));
               c = (case mintail of Some m \<Rightarrow> cmp b (the (hi_buf (ao_items p ! m))) | None \<Rightarrow> - 1);
               mintail' = (if c < 0 then Some i else mintail)
           in case get_segment of
                None \<Rightarrow> (mintail', seg, skip)
              | Some g \<Rightarrow>
                  (let segment = g b;
                       seg' = (if seg = 0 \<and> segment \<noteq> 0 then segment else seg)
                   in (mintail', seg', skip \<or> (seg' \<noteq> 0 \<and> segment \<noteq> 0 \<and> seg' \<noteq> segment))))
        else st)"

definition and_scan :: "('k \<Rightarrow> 'k \<Rightarrow> int) \<Rightarrow> ('k \<Rightarrow> zint) option \<Rightarrow> ('s, 'k, 't) andor_rfd \<Rightarrow> nat option \<times> zint \<times> bool" where
  "and_scan cmp get_segment p =
     fold (and_scan_item cmp get_segment p) [0..<length (ao_items p)] (None, ao_segment p, ao_skip p)"

text \<open>The loop that forwards the items until their records match; the flag is False for \<^verbatim>\<open>return 0\<close>.\<close>

partial_function (option) and_align :: "('k \<Rightarrow> 'k \<Rightarrow> int) \<Rightarrow> int \<Rightarrow> ('s \<Rightarrow> 'k \<Rightarrow> ('s, 'k, 't) rd_result) \<Rightarrow>
    ('s, 'k, 't) andor_rfd \<Rightarrow> nat \<Rightarrow> (bool \<times> ('s, 'k, 't) andor_rfd) option" where
  "and_align cmp scope fw p i =
     (let items = ao_items p in
      if i < length items then
        (let b0 = the (hi_buf (items ! 0)); bi = the (hi_buf (items ! i)); c = cmp b0 bi in
         if c \<le> - scope then
           do {
             (s, rc) \<leftarrow> fw (hi_fd (items ! 0)) bi;
             let p' = p\<lparr>ao_items := items[0 := hi_load (items ! 0) (s, rc)]\<rparr>;
             if rc = None then Some (False, p'\<lparr>ao_eof := True\<rparr>) else and_align cmp scope fw p' 0
           }
         else if scope \<le> c then
           do {
             (s, rc) \<leftarrow> fw (hi_fd (items ! i)) b0;
             let p' = p\<lparr>ao_items := items[i := hi_load (items ! i) (s, rc)]\<rparr>;
             if rc = None then Some (False, p'\<lparr>ao_eof := True\<rparr>) else and_align cmp scope fw p' i
           }
         else and_align cmp scope fw p (i + 1))
      else Some (True, p))"

text \<open>One delivery while tailing: the state after it, and the key.\<close>

definition and_tail :: "('k \<Rightarrow> 'k \<Rightarrow> int) \<Rightarrow> int \<Rightarrow> ('k \<Rightarrow> zint) option \<Rightarrow> ('s \<Rightarrow> ('s, 'k, 't) rd_result) \<Rightarrow>
    ('s, 'k, 't) andor_rfd \<Rightarrow> (('s, 'k, 't) andor_rfd \<times> 'k \<times> 't option) option" where
  "and_tail cmp scope get_segment rd p =
     (case and_scan cmp get_segment p of (mintail, seg, skip) \<Rightarrow>
        do {
          m \<leftarrow> mintail;
          let it = ao_items p ! m;
          let buf = the (hi_buf it);
          (s, rc) \<leftarrow> rd (hi_fd it);
          let it' = hi_load it (s, rc);
          let p1 = p\<lparr>ao_segment := seg, ao_skip := skip, ao_items := (ao_items p)[m := it']\<rparr>;
          let p2 = (case rc of
                      None \<Rightarrow> p1\<lparr>ao_eof := True, ao_tailbits := (ao_tailbits p)[m := False], ao_tailcount := ao_tailcount p - 1\<rparr>
                    | Some _ \<Rightarrow>
                        if scope \<le> cmp (the (hi_buf it')) buf
                        then p1\<lparr>ao_tailbits := (ao_tailbits p)[m := False], ao_tailcount := ao_tailcount p - 1\<rparr>
                        else p1);
          Some (p2, buf, hi_term it)
        })"

partial_function (option) r_read_and :: "('k \<Rightarrow> 'k \<Rightarrow> int) \<Rightarrow> int \<Rightarrow> ('k \<Rightarrow> zint) option \<Rightarrow>
    ('s \<Rightarrow> ('s, 'k, 't) rd_result) \<Rightarrow> ('s \<Rightarrow> 'k \<Rightarrow> ('s, 'k, 't) rd_result) \<Rightarrow>
    ('s, 'k, 't) andor_rfd \<Rightarrow> (('s, 'k, 't) andor_rfd, 'k, 't) rd_result" where
  "r_read_and cmp scope get_segment rd fw p =
     (if ao_tailcount p \<noteq> 0 then
        do {
          (p', buf, term) \<leftarrow> and_tail cmp scope get_segment rd p;
          if ao_skip p' then r_read_and cmp scope get_segment rd fw p'
          else Some (if ao_tailcount p' = 0 then p'\<lparr>ao_hits := ao_hits p' + 1\<rparr> else p', Some (buf, term))
        }
      else if ao_eof p then Some (p, None)
      else
        do {
          (more, p') \<leftarrow> and_align cmp scope fw p 1;
          if more
          then r_read_and cmp scope get_segment rd fw
                 (p'\<lparr>ao_tailbits := map (\<lambda>_. True) (ao_items p'), ao_tailcount := length (ao_items p'),
                     ao_segment := 0, ao_skip := False\<rparr>)
          else Some (p', None)
        })"

text \<open>The loop of \<^verbatim>\<open>r_forward_and\<close>: items behind \<open>u\<close> are forwarded. The first flag is False for the early
  \<^verbatim>\<open>return 0\<close>, the second is \<^verbatim>\<open>killtail\<close>.\<close>

fun and_forward_items :: "('k \<Rightarrow> 'k \<Rightarrow> int) \<Rightarrow> int \<Rightarrow> ('s \<Rightarrow> 'k \<Rightarrow> ('s, 'k, 't) rd_result) \<Rightarrow> 'k \<Rightarrow>
    ('s, 'k, 't) heap_item list \<Rightarrow> (bool \<times> bool \<times> ('s, 'k, 't) heap_item list) option" where
  "and_forward_items cmp scope fw u [] = Some (True, False, [])"
| "and_forward_items cmp scope fw u (it # its) =
     (if cmp (the (hi_buf it)) u \<le> - scope then
        do {
          (s, rc) \<leftarrow> fw (hi_fd it) u;
          let it' = hi_load it (s, rc);
          if rc = None then Some (False, True, it' # its)
          else do { (more, kill, its') \<leftarrow> and_forward_items cmp scope fw u its; Some (more, True, it' # its') }
        }
      else do { (more, kill, its') \<leftarrow> and_forward_items cmp scope fw u its; Some (more, kill, it # its') })"

definition r_forward_and :: "('k \<Rightarrow> 'k \<Rightarrow> int) \<Rightarrow> int \<Rightarrow> ('k \<Rightarrow> zint) option \<Rightarrow> ('s \<Rightarrow> ('s, 'k, 't) rd_result) \<Rightarrow>
    ('s \<Rightarrow> 'k \<Rightarrow> ('s, 'k, 't) rd_result) \<Rightarrow> ('s, 'k, 't) andor_rfd \<Rightarrow> 'k \<Rightarrow>
    (('s, 'k, 't) andor_rfd, 'k, 't) rd_result" where
  "r_forward_and cmp scope get_segment rd fw p untilbuf =
     do {
       (more, killtail, items) \<leftarrow> and_forward_items cmp scope fw untilbuf (ao_items p);
       let p1 = p\<lparr>ao_items := items\<rparr>;
       if \<not> more then Some (p1\<lparr>ao_eof := True, ao_tailcount := 0\<rparr>, None)
       else r_read_and cmp scope get_segment rd fw
              (if killtail then p1\<lparr>ao_tailbits := map (\<lambda>_. False) items, ao_tailcount := 0\<rparr> else p1)
     }"

section \<open>Specification\<close>

context key_cmp_order
begin

definition same_record :: "int \<Rightarrow> 'k \<times> 't \<Rightarrow> 'k \<times> 't \<Rightarrow> bool" where
  "same_record s x y \<longleftrightarrow> \<bar>cmp (fst x) (fst y)\<bar> < s"

text \<open>The keys of a record that occurs in each of the multisets.\<close>

definition and_hits :: "int \<Rightarrow> ('k \<times> 't) multiset list \<Rightarrow> ('k \<times> 't) multiset" where
  "and_hits s Ps = (\<Sum>P \<leftarrow> Ps. {#x \<in># P. \<forall>Q \<in> set Ps. \<exists>y \<in># Q. same_record s x y#})"

definition not_before :: "int \<Rightarrow> 'k \<Rightarrow> 'k \<times> 't \<Rightarrow> bool" where
  "not_before s u x \<longleftrightarrow> cmp u (fst x) < s"

definition all_ok :: "('k \<times> 't) multiset \<Rightarrow> bool" where
  "all_ok P \<longleftrightarrow> (\<forall>x \<in># P. ok (fst x))"

lemma same_not_before:
  assumes "ok (fst x)" "ok (fst y)" "ok u" "same_record s x y" "not_before s u x"
  shows "not_before s u y"
proof (rule ccontr)
  assume "\<not> not_before s u y"
  then have "cmp (fst y) u \<le> - s" using anti [of u "fst y"] assms by (simp add: not_before_def)
  moreover have "0 < s" using assms(4) by (simp add: same_record_def)
  ultimately have "cmp (fst x) u \<le> - s"
    using same_before [of "fst x" "fst y" u s] assms by (simp add: same_record_def)
  with assms anti [of "fst x" u] show False by (simp add: not_before_def)
qed

lemma same_record_sym: "ok (fst x) \<Longrightarrow> ok (fst y) \<Longrightarrow> same_record s x y \<Longrightarrow> same_record s y x"
  using same_sym by (simp add: same_record_def)

lemma same_record_trans:
  "ok (fst x) \<Longrightarrow> ok (fst y) \<Longrightarrow> ok (fst z) \<Longrightarrow> same_record s x y \<Longrightarrow> same_record s y z \<Longrightarrow> same_record s x z"
  using same_trans [of "fst x" "fst y" "fst z"] by (simp add: same_record_def)

lemma filter_sum_list: "filter_mset p (\<Sum>P \<leftarrow> Ps. f P) = (\<Sum>P \<leftarrow> Ps. filter_mset p (f P))"
  by (induction Ps) simp_all

lemma filter_sum: "filter_mset p (\<Sum>i<(n::nat). f i) = (\<Sum>i<n. filter_mset p (f i))"
  by (induction n) simp_all

text \<open>The hits that are not before a record depend only on what the children have there.\<close>

lemma and_hits_from:
  assumes "\<forall>P \<in> set Ps. all_ok P" and u: "ok u"
  shows "filter_mset (not_before s u) (and_hits s Ps) = and_hits s (map (filter_mset (not_before s u)) Ps)"
proof -
  have "filter_mset (not_before s u) {#x \<in># P. \<forall>Q \<in> set Ps. \<exists>y \<in># Q. same_record s x y#} =
      {#x \<in># filter_mset (not_before s u) P.
         \<forall>Q \<in> set (map (filter_mset (not_before s u)) Ps). \<exists>y \<in># Q. same_record s x y#}" if P: "P \<in> set Ps" for P
  proof -
    have "(\<exists>y \<in># Q. same_record s x y) \<longleftrightarrow> (\<exists>y \<in># filter_mset (not_before s u) Q. same_record s x y)"
      if "x \<in># P" "not_before s u x" "Q \<in> set Ps" for x Q
    proof -
      have "ok (fst x)" "\<forall>y \<in># Q. ok (fst y)" using that assms(1) P by (auto simp: all_ok_def)
      then have "not_before s u y" if "y \<in># Q" "same_record s x y" for y
        using same_not_before [of x y u s] that \<open>not_before s u x\<close> u by blast
      then show ?thesis unfolding set_mset_filter by blast
    qed
    then show ?thesis unfolding filter_filter_mset by (intro filter_mset_cong) auto
  qed
  then show ?thesis
    unfolding and_hits_def filter_sum_list by (simp add: comp_def cong: map_cong)
qed

lemma and_hits_bound:
  assumes Ps: "\<forall>P \<in> set Ps. all_ok P" and u: "ok u" and Q: "Q \<in> set Ps" "\<forall>x \<in># Q. not_before s u x"
  shows "filter_mset (not_before s u) (and_hits s Ps) = and_hits s Ps"
proof -
  have "not_before s u x" if x: "x \<in># and_hits s Ps" for x
  proof -
    from x obtain P where P: "P \<in> set Ps" "x \<in># P" "\<forall>Q \<in> set Ps. \<exists>y \<in># Q. same_record s x y"
      unfolding and_hits_def by (induction Ps) auto
    with Q obtain y where y: "y \<in># Q" "same_record s x y" by blast
    with P Ps Q u show ?thesis
      using same_record_sym [of x y s] same_not_before [of y x u s] by (auto simp: all_ok_def)
  qed
  then show ?thesis by (simp add: filter_mset_eq_conv)
qed

lemma and_hits_empty: "{#} \<in> set Ps \<Longrightarrow> and_hits s Ps = {#}"
proof -
  assume e: "{#} \<in> set Ps"
  then have n: "(\<forall>Q \<in> set Ps. \<exists>y \<in># Q. same_record s x y) = False" for x :: "'k \<times> 'a"
    by (metis empty_iff set_mset_empty)
  show ?thesis unfolding and_hits_def n by (induction Ps) simp_all
qed

lemma and_hits_perm:
  assumes "mset Ps = mset Qs"
  shows "and_hits s Ps = and_hits s Qs"
proof -
  have st: "set Ps = set Qs" using assms by (metis set_mset_mset)
  show ?thesis
    unfolding and_hits_def st sum_mset_sum_list [symmetric] mset_map assms ..
qed

text \<open>When every child is at the record of \<open>r\<close>, all keys of that record are hits.\<close>

lemma and_hits_split:
  assumes sc: "0 < s" and r: "ok (fst r)" and ok: "\<forall>(T, R) \<in> set TRs. all_ok T \<and> all_ok R"
    and T: "\<forall>(T, R) \<in> set TRs. T \<noteq> {#} \<and> (\<forall>x \<in># T. same_record s r x)"
    and R: "\<forall>(T, R) \<in> set TRs. \<forall>x \<in># R. cmp (fst r) (fst x) \<le> - s"
  shows "and_hits s (map (\<lambda>(T, R). T + R) TRs) = (\<Sum>(T, R) \<leftarrow> TRs. T) + and_hits s (map snd TRs)"
proof -
  have tt: "same_record s x y" if "(T, R) \<in> set TRs" "x \<in># T" "(T', R') \<in> set TRs" "y \<in># T'" for x y T R T' R'
  proof -
    have "same_record s r x" "same_record s r y" "ok (fst x)" "ok (fst y)" using that ok T by (auto simp: all_ok_def)
    then show ?thesis using same_record_sym [of r x s] same_record_trans [of x r y s] r by blast
  qed
  have tr: "\<not> same_record s y x" if "(T, R) \<in> set TRs" "x \<in># T" "(T', R') \<in> set TRs" "y \<in># R'" for x y T R T' R'
  proof -
    have o: "same_record s r x" "ok (fst x)" "ok (fst y)" "cmp (fst r) (fst y) \<le> - s"
      using that ok T R by (auto simp: all_ok_def)
    then have "cmp (fst x) (fst y) \<le> - s"
      using same_before [of "fst x" "fst r" "fst y" s] same_record_sym [of r x s] r sc by (simp add: same_record_def)
    then show ?thesis using anti [of "fst x" "fst y"] o sc by (simp add: same_record_def)
  qed
  have all: "{#x \<in># T + R. \<forall>Q \<in> set (map (\<lambda>(T, R). T + R) TRs). \<exists>y \<in># Q. same_record s x y#} =
      T + {#x \<in># R. \<forall>Q \<in> set (map snd TRs). \<exists>y \<in># Q. same_record s x y#}" if TR: "(T, R) \<in> set TRs" for T R
  proof -
    have "{#x \<in># T. \<forall>Q \<in> set (map (\<lambda>(T, R). T + R) TRs). \<exists>y \<in># Q. same_record s x y#} = T"
    proof -
      have "\<exists>y \<in># T' + R'. same_record s x y" if x: "x \<in># T" and TR': "(T', R') \<in> set TRs" for x T' R'
      proof -
        have "T' \<noteq> {#}" using T TR' by auto
        then obtain y where "y \<in># T'" by (meson multiset_nonemptyE)
        with tt [OF TR x TR'] show ?thesis by (intro bexI [of _ y]) auto
      qed
      then show ?thesis by (auto simp: filter_mset_eq_conv)
    qed
    moreover have "{#x \<in># R. \<forall>Q \<in> set (map (\<lambda>(T, R). T + R) TRs). \<exists>y \<in># Q. same_record s x y#} =
        {#x \<in># R. \<forall>Q \<in> set (map snd TRs). \<exists>y \<in># Q. same_record s x y#}"
    proof (rule filter_mset_cong [OF refl])
      fix x
      assume "x \<in># R"
      then have "(\<exists>y \<in># T' + R'. same_record s x y) \<longleftrightarrow> (\<exists>y \<in># R'. same_record s x y)" if "(T', R') \<in> set TRs" for T' R'
        using tr [OF that _ TR, of _ x] unfolding set_mset_union by blast
      then show "(\<forall>Q \<in> set (map (\<lambda>(T, R). T + R) TRs). \<exists>y \<in># Q. same_record s x y) \<longleftrightarrow>
          (\<forall>Q \<in> set (map snd TRs). \<exists>y \<in># Q. same_record s x y)" by fastforce
    qed
    ultimately show ?thesis by simp
  qed
  define fa where "fa = (\<lambda>P. {#x \<in># P. \<forall>Q \<in> set (map (\<lambda>(T, R). T + R) TRs). \<exists>y \<in># Q. same_record s x y#})"
  define fb where "fb = (\<lambda>P. {#x \<in># P. \<forall>Q \<in> set (map snd TRs). \<exists>y \<in># Q. same_record s x y#})"
  have "(\<Sum>(T, R) \<leftarrow> xs. fa (T + R)) = (\<Sum>(T, R) \<leftarrow> xs. T) + (\<Sum>(T, R) \<leftarrow> xs. fb R)" if "set xs \<subseteq> set TRs" for xs
    using that
  proof (induction xs)
    case (Cons x xs)
    obtain T R where x: "x = (T, R)" by (cases x)
    with Cons all [of T R] show ?case by (simp add: fa_def fb_def ac_simps)
  qed simp
  from this [of TRs] show ?thesis
    unfolding and_hits_def fa_def [symmetric] fb_def [symmetric] by (simp add: comp_def case_prod_unfold)
qed


end

section \<open>The state of a set\<close>

lemma sum_point:
  fixes f g :: "nat \<Rightarrow> 'a::comm_monoid_add"
  assumes "m < n" "\<And>i. i < n \<Longrightarrow> i \<noteq> m \<Longrightarrow> f i = g i"
  shows "(\<Sum>i<n. f i) + g m = (\<Sum>i<n. g i) + f m"
proof -
  have "(\<Sum>i\<in>{..<n} - {m}. f i) = (\<Sum>i\<in>{..<n} - {m}. g i)" using assms(2) by (intro sum.cong) auto
  then show ?thesis
    using sum.remove [of "{..<n}" m f] sum.remove [of "{..<n}" m g] assms(1) by (simp add: ac_simps)
qed

definition and_bit :: "('s, 'k, 't) andor_rfd \<Rightarrow> nat \<Rightarrow> bool" where
  "and_bit p i \<longleftrightarrow> ao_tailcount p \<noteq> 0 \<and> ao_tailbits p ! i"

definition and_live :: "('s, 'k, 't) andor_rfd \<Rightarrow> nat \<Rightarrow> bool" where
  "and_live p i \<longleftrightarrow> \<not> ao_eof p \<or> and_bit p i"

definition and_work :: "('s \<Rightarrow> nat) \<Rightarrow> ('s, 'k, 't) andor_rfd \<Rightarrow> nat" where
  "and_work work p = (\<Sum>i<length (ao_items p). if and_live p i then Suc (work (hi_fd (ao_items p ! i))) else 0)"

abbreviation and_buf :: "('s, 'k, 't) andor_rfd \<Rightarrow> nat \<Rightarrow> 'k" where
  "and_buf p i \<equiv> the (hi_buf (ao_items p ! i))"

context rset_reader
begin

abbreviation "pend \<equiv> item_pend contents"

text \<open>The keys of an item that belong to the record being delivered, and the ones behind it.\<close>

definition in_rec :: "('s, 'k, 't) heap_item \<Rightarrow> ('k \<times> 't option) \<Rightarrow> bool" where
  "in_rec it x \<longleftrightarrow> cmp (fst x) (the (hi_buf it)) < scope"

definition and_T :: "('s, 'k, 't) andor_rfd \<Rightarrow> nat \<Rightarrow> ('k \<times> 't option) list" where
  "and_T p i = (let it = ao_items p ! i in if and_bit p i then takeWhile (in_rec it) (pend it) else [])"

definition and_R :: "('s, 'k, 't) andor_rfd \<Rightarrow> nat \<Rightarrow> ('k \<times> 't option) list" where
  "and_R p i = (let it = ao_items p ! i in if and_bit p i then dropWhile (in_rec it) (pend it) else pend it)"

definition and_ms :: "('s, 'k, 't) andor_rfd \<Rightarrow> ('k \<times> 't option) multiset" where
  "and_ms p = (\<Sum>i<length (ao_items p). mset (and_T p i)) +
     (if ao_eof p then {#} else and_hits scope (map (\<lambda>i. mset (and_R p i)) [0..<length (ao_items p)]))"

definition and_inv :: "('s, 'k, 't) andor_rfd \<Rightarrow> bool" where
  "and_inv p \<longleftrightarrow> (let n = length (ao_items p) in
     0 < n \<and> length (ao_tailbits p) = n \<and> (\<forall>i<n. invar (hi_fd (ao_items p ! i))) \<and>
     (\<forall>i<n. and_live p i \<longrightarrow> good_keys ok cmp (pend (ao_items p ! i))) \<and>
     (ao_tailcount p \<noteq> 0 \<longrightarrow> \<not> ao_skip p \<and> ao_tailcount p = card {i. i < n \<and> ao_tailbits p ! i}) \<and>
     (\<forall>i<n. \<forall>j<n. and_bit p i \<and> and_bit p j \<longrightarrow> \<bar>cmp (and_buf p i) (and_buf p j)\<bar> < scope) \<and>
     (\<forall>i<n. \<forall>j<n. and_bit p i \<and> \<not> and_bit p j \<longrightarrow> ok (and_buf p j) \<and> cmp (and_buf p i) (and_buf p j) < scope \<and>
        (\<not> ao_eof p \<longrightarrow> cmp (and_buf p i) (and_buf p j) \<le> - scope)))"

lemma and_invD:
  assumes "and_inv p"
  shows "0 < length (ao_items p)" "length (ao_tailbits p) = length (ao_items p)"
    "i < length (ao_items p) \<Longrightarrow> invar (hi_fd (ao_items p ! i))"
    "i < length (ao_items p) \<Longrightarrow> and_live p i \<Longrightarrow> good_keys ok cmp (pend (ao_items p ! i))"
    "ao_tailcount p \<noteq> 0 \<Longrightarrow> \<not> ao_skip p"
    "ao_tailcount p \<noteq> 0 \<Longrightarrow> ao_tailcount p = card {i. i < length (ao_items p) \<and> ao_tailbits p ! i}"
    "i < length (ao_items p) \<Longrightarrow> j < length (ao_items p) \<Longrightarrow> and_bit p i \<Longrightarrow> and_bit p j \<Longrightarrow>
       \<bar>cmp (and_buf p i) (and_buf p j)\<bar> < scope"
    "\<not> ao_eof p \<Longrightarrow> i < length (ao_items p) \<Longrightarrow> j < length (ao_items p) \<Longrightarrow> and_bit p i \<Longrightarrow> \<not> and_bit p j \<Longrightarrow>
       cmp (and_buf p i) (and_buf p j) \<le> - scope"
    "i < length (ao_items p) \<Longrightarrow> j < length (ao_items p) \<Longrightarrow> and_bit p i \<Longrightarrow> \<not> and_bit p j \<Longrightarrow>
       ok (and_buf p j) \<and> cmp (and_buf p i) (and_buf p j) < scope"
  using assms unfolding and_inv_def Let_def by blast+

lemma and_buf_ok:
  assumes "and_inv p" "i < length (ao_items p)" "and_live p i"
  shows "ok (and_buf p i)"
  using and_invD(4) [OF assms] by (simp add: item_pend_def)

text \<open>The scan finds a least tailing key.\<close>

lemma and_scan_fold:
  assumes ok: "\<forall>i \<in> set xs. ao_tailbits p ! i \<longrightarrow> ok (and_buf p i)"
    and m: "\<forall>m. mt = Some m \<longrightarrow> ok (and_buf p m)"
  shows "\<exists>mt'. fold (and_scan_item cmp None p) xs (mt, g, sk) = (mt', g, sk) \<and>
    (mt' = None \<longleftrightarrow> mt = None \<and> (\<forall>i \<in> set xs. \<not> ao_tailbits p ! i)) \<and>
    (\<forall>m. mt' = Some m \<longrightarrow> ok (and_buf p m) \<and> (mt = Some m \<or> m \<in> set xs \<and> ao_tailbits p ! m) \<and>
      (\<forall>m0. mt = Some m0 \<longrightarrow> cmp (and_buf p m) (and_buf p m0) \<le> 0) \<and>
      (\<forall>i \<in> set xs. ao_tailbits p ! i \<longrightarrow> cmp (and_buf p m) (and_buf p i) \<le> 0))"
  using assms
proof (induction xs arbitrary: mt)
  case Nil
  then show ?case by (auto simp: cmp_refl)
next
  case (Cons x xs)
  show ?case
  proof (cases "ao_tailbits p ! x")
    case False
    then have "and_scan_item cmp None p x (mt, g, sk) = (mt, g, sk)" by (simp add: and_scan_item_def)
    with Cons.IH [of mt] Cons.prems False show ?thesis by auto
  next
    case True
    then have okx: "ok (and_buf p x)" using Cons.prems(1) by simp
    define mt1 where "mt1 = (case mt of None \<Rightarrow> Some x
      | Some m \<Rightarrow> if cmp (and_buf p x) (and_buf p m) < 0 then Some x else Some m)"
    have st: "and_scan_item cmp None p x (mt, g, sk) = (mt1, g, sk)"
      using True by (simp add: and_scan_item_def mt1_def Let_def split: option.split)
    obtain m1 where m1: "mt1 = Some m1" "ok (and_buf p m1)" "cmp (and_buf p m1) (and_buf p x) \<le> 0"
        "\<forall>m0. mt = Some m0 \<longrightarrow> cmp (and_buf p m1) (and_buf p m0) \<le> 0" "m1 = x \<or> mt = Some m1"
    proof (cases mt)
      case None
      then show ?thesis using that [of x] okx cmp_refl [OF okx] by (simp add: mt1_def)
    next
      case (Some m)
      then have okm: "ok (and_buf p m)" using Cons.prems(2) by simp
      show ?thesis
      proof (cases "cmp (and_buf p x) (and_buf p m) < 0")
        case True
        then show ?thesis using that [of x] Some okx cmp_refl [OF okx] by (simp add: mt1_def)
      next
        case False
        then show ?thesis using that [of m] Some okm cmp_refl [OF okm] anti [OF okx okm] by (simp add: mt1_def)
      qed
    qed
    obtain m' where m': "fold (and_scan_item cmp None p) xs (mt1, g, sk) = (Some m', g, sk)" "ok (and_buf p m')"
        "m' = m1 \<or> m' \<in> set xs \<and> ao_tailbits p ! m'" "cmp (and_buf p m') (and_buf p m1) \<le> 0"
        "\<forall>i \<in> set xs. ao_tailbits p ! i \<longrightarrow> cmp (and_buf p m') (and_buf p i) \<le> 0"
      using Cons.IH [of mt1] Cons.prems(1) m1 by auto
    have "cmp (and_buf p m') (and_buf p x) \<le> 0" using le_trans [OF m'(2) m1(2) okx m'(4) m1(3)] .
    moreover have "cmp (and_buf p m') (and_buf p m0) \<le> 0" if "mt = Some m0" for m0
      using le_trans [OF m'(2) m1(2) _ m'(4)] m1(4) that Cons.prems(2) by blast
    ultimately show ?thesis using st m' m1(5) True by auto
  qed
qed

lemma and_scan_spec:
  assumes inv: "and_inv p" and t: "ao_tailcount p \<noteq> 0"
  obtains m where "and_scan cmp None p = (Some m, ao_segment p, ao_skip p)" "m < length (ao_items p)" "and_bit p m"
    "\<forall>i<length (ao_items p). and_bit p i \<longrightarrow> cmp (and_buf p m) (and_buf p i) \<le> 0"
proof -
  let ?n = "length (ao_items p)"
  have bits: "\<forall>i \<in> set [0..<?n]. ao_tailbits p ! i \<longrightarrow> ok (and_buf p i)"
    using and_buf_ok [OF inv] t by (simp add: and_live_def and_bit_def)
  have "card {i. i < ?n \<and> ao_tailbits p ! i} \<noteq> 0" using and_invD(6) [OF inv t] t by simp
  then have "{i. i < ?n \<and> ao_tailbits p ! i} \<noteq> {}" by (metis card.empty)
  then have "\<exists>i \<in> set [0..<?n]. ao_tailbits p ! i" by auto
  with and_scan_fold [OF bits, of None "ao_segment p" "ao_skip p"] obtain m where
    "and_scan cmp None p = (Some m, ao_segment p, ao_skip p)" "m \<in> set [0..<?n]" "ao_tailbits p ! m"
    "\<forall>i \<in> set [0..<?n]. ao_tailbits p ! i \<longrightarrow> cmp (and_buf p m) (and_buf p i) \<le> 0"
    unfolding and_scan_def by auto
  with t show ?thesis by (intro that) (auto simp: and_bit_def)
qed


subsection \<open>Delivering a key\<close>

lemma item_rec_step:
  assumes good: "good_keys ok cmp (pend it)" and c: "contents (hi_fd it) = y # contents s"
  defines "it' \<equiv> hi_load it (s, Some y)" and "b \<equiv> the (hi_buf it)"
  shows "scope \<le> cmp (fst y) b \<Longrightarrow> takeWhile (in_rec it) (pend it) = [(b, hi_term it)]"
    and "scope \<le> cmp (fst y) b \<Longrightarrow> dropWhile (in_rec it) (pend it) = pend it'"
    and "cmp (fst y) b < scope \<Longrightarrow> takeWhile (in_rec it) (pend it) = (b, hi_term it) # takeWhile (in_rec it') (pend it')"
    and "cmp (fst y) b < scope \<Longrightarrow> dropWhile (in_rec it) (pend it) = dropWhile (in_rec it') (pend it')"
    and "good_keys ok cmp (pend it')" and "the (hi_buf it') = fst y" and "ok b" and "ok (fst y)"
    and "cmp b (fst y) \<le> 0"
proof -
  have pd: "pend it = (b, hi_term it) # y # contents s" using c by (simp add: item_pend_def b_def)
  have pd': "pend it' = y # contents s" by (simp add: it'_def item_load_pend)
  from good show okb: "ok b" and oky: "ok (fst y)" and le: "cmp b (fst y) \<le> 0" and g': "good_keys ok cmp (pend it')"
    by (simp_all add: pd pd')
  show buf: "the (hi_buf it') = fst y" by (simp add: it'_def item_load_pend)
  have in_b: "in_rec it (b, hi_term it)" using scope_pos cmp_refl [OF okb] by (simp add: in_rec_def b_def)
  show "scope \<le> cmp (fst y) b \<Longrightarrow> takeWhile (in_rec it) (pend it) = [(b, hi_term it)]"
    "scope \<le> cmp (fst y) b \<Longrightarrow> dropWhile (in_rec it) (pend it) = pend it'"
    using in_b by (simp_all add: pd pd') (simp_all add: in_rec_def b_def)
  assume lt: "cmp (fst y) b < scope"
  have eq: "in_rec it z \<longleftrightarrow> in_rec it' z" if z: "z \<in> set (pend it')" for z
  proof -
    have okz: "ok (fst z)" using g' z good_keys_ok by blast
    have yz: "cmp (fst y) (fst z) \<le> 0" using g' z cmp_refl [OF oky] by (auto simp: pd')
    have "cmp b (fst z) = min (cmp b (fst y)) (cmp (fst y) (fst z))" by (rule ultra [OF okb oky okz le yz])
    then show ?thesis
      using lt anti [OF okb okz] anti [OF oky okz] anti [OF okb oky] unfolding in_rec_def buf b_def [symmetric] by auto
  qed
  show "takeWhile (in_rec it) (pend it) = (b, hi_term it) # takeWhile (in_rec it') (pend it')"
    "dropWhile (in_rec it) (pend it) = dropWhile (in_rec it') (pend it')"
  proof -
    have "takeWhile (in_rec it) (pend it') = takeWhile (in_rec it') (pend it')"
      "dropWhile (in_rec it) (pend it') = dropWhile (in_rec it') (pend it')"
      by (rule takeWhile_cong [OF refl], rule eq, assumption) (rule dropWhile_cong [OF refl], rule eq, assumption)
    moreover have "pend it = (b, hi_term it) # pend it'" by (simp add: pd pd')
    ultimately show "takeWhile (in_rec it) (pend it) = (b, hi_term it) # takeWhile (in_rec it') (pend it')"
      "dropWhile (in_rec it) (pend it) = dropWhile (in_rec it') (pend it')"
      using in_b by simp_all
  qed
qed

lemma and_ms_least:
  assumes inv: "and_inv p" and m: "m < length (ao_items p)" "and_bit p m"
    and least: "\<forall>i<length (ao_items p). and_bit p i \<longrightarrow> cmp (and_buf p m) (and_buf p i) \<le> 0"
    and y: "y \<in># and_ms p"
  shows "cmp (and_buf p m) (fst y) \<le> 0 \<and> ok (fst y)"
proof -
  let ?n = "length (ao_items p)"
  have "\<exists>i<?n. and_live p i \<and> y \<in> set (pend (ao_items p ! i))"
  proof (cases "\<exists>i<?n. y \<in> set (and_T p i)")
    case True
    then obtain i where i: "i < ?n" "y \<in> set (and_T p i)" by blast
    then have "and_bit p i \<and> y \<in> set (takeWhile (in_rec (ao_items p ! i)) (pend (ao_items p ! i)))"
      by (simp add: and_T_def Let_def split: if_splits)
    with i(1) show ?thesis by (auto simp: and_live_def dest: set_takeWhileD)
  next
    case False
    then have "\<not> ao_eof p" "y \<in># and_hits scope (map (\<lambda>i. mset (and_R p i)) [0..<?n])"
      using y by (auto simp: and_ms_def set_mset_sum split: if_splits)
    moreover then obtain i where i: "i < ?n" "y \<in> set (and_R p i)"
      unfolding and_hits_def by auto
    ultimately show ?thesis by (auto simp: and_R_def Let_def and_live_def dest: set_dropWhileD split: if_splits)
  qed
  then obtain i where i: "i < ?n" "and_live p i" "y \<in> set (pend (ao_items p ! i))" by blast
  have okm: "ok (and_buf p m)" using and_buf_ok [OF inv m(1)] m(2) by (simp add: and_live_def)
  have oki: "ok (and_buf p i)" by (rule and_buf_ok [OF inv i(1,2)])
  have g: "good_keys ok cmp (pend (ao_items p ! i))" by (rule and_invD(4) [OF inv i(1,2)])
  have oky: "ok (fst y)" using good_keys_ok [OF g i(3)] .
  have iy: "cmp (and_buf p i) (fst y) \<le> 0" using g i(3) cmp_refl [OF oki] by (auto simp: item_pend_def)
  have "cmp (and_buf p m) (and_buf p i) \<le> 0"
  proof (cases "and_bit p i")
    case False
    then have "\<not> ao_eof p" using i(2) by (simp add: and_live_def)
    with False m i show ?thesis using and_invD(8) [OF inv _ m(1) i(1) m(2)] scope_pos by simp
  qed (use least i in blast)
  with le_trans [OF okm oki oky _ iy] oky show ?thesis by blast
qed


text \<open>Clearing the tail bit of \<open>m\<close>.\<close>

lemma and_clear_bit:
  assumes inv: "and_inv p" and m: "m < length (ao_items p)" "and_bit p m"
    and b': "ao_tailbits p' = (ao_tailbits p)[m := False]" "ao_tailcount p' = ao_tailcount p - 1"
    and n: "length (ao_items p') = length (ao_items p)"
  shows "i < length (ao_items p) \<Longrightarrow> and_bit p' i \<longleftrightarrow> and_bit p i \<and> i \<noteq> m"
    and "ao_tailcount p' \<noteq> 0 \<Longrightarrow> ao_tailcount p' = card {i. i < length (ao_items p') \<and> ao_tailbits p' ! i}"
proof -
  define B where "B = {i. i < length (ao_items p) \<and> ao_tailbits p ! i}"
  have t: "ao_tailcount p \<noteq> 0" "ao_tailbits p ! m" using m by (simp_all add: and_bit_def)
  have len: "length (ao_tailbits p) = length (ao_items p)" by (rule and_invD(2) [OF inv])
  have B': "{i. i < length (ao_items p) \<and> (ao_tailbits p)[m := False] ! i} = B - {m}"
    using len m(1) by (auto simp: B_def nth_list_update)
  have mB: "m \<in> B" using m t by (simp add: B_def)
  have cB: "ao_tailcount p = card B" using and_invD(6) [OF inv t(1)] by (simp add: B_def)
  show "ao_tailcount p' \<noteq> 0 \<Longrightarrow> ao_tailcount p' = card {i. i < length (ao_items p') \<and> ao_tailbits p' ! i}"
    unfolding b' n B' using mB cB by (simp add: card_Diff_singleton)
  assume i: "i < length (ao_items p)"
  show "and_bit p' i \<longleftrightarrow> and_bit p i \<and> i \<noteq> m"
  proof (cases "ao_tailcount p' = 0")
    case True
    then have "card B = 1" using cB t(1) b'(2) by linarith
    then obtain z where "B = {z}" using card_1_singletonE by blast
    then have "i \<in> B \<longleftrightarrow> i = m" using mB by auto
    then have "ao_tailbits p ! i \<longleftrightarrow> i = m" using i by (simp add: B_def)
    with True show ?thesis by (simp add: and_bit_def)
  next
    case False
    with i len t m show ?thesis by (simp add: and_bit_def b'(1) nth_list_update)
  qed
qed

text \<open>What a state transition at item \<open>m\<close> must keep.\<close>

lemma and_inv_step:
  assumes inv: "and_inv p" and m: "m < length (ao_items p)" "and_bit p m"
    and items: "ao_items p' = (ao_items p)[m := it']" and tb: "length (ao_tailbits p') = length (ao_items p)"
    and skip: "\<not> ao_skip p'"
    and bit: "\<And>i. i < length (ao_items p) \<Longrightarrow> i \<noteq> m \<Longrightarrow> and_bit p' i = and_bit p i"
    and cnt: "ao_tailcount p' \<noteq> 0 \<Longrightarrow> ao_tailcount p' = card {i. i < length (ao_items p') \<and> ao_tailbits p' ! i}"
    and eof: "ao_eof p \<Longrightarrow> ao_eof p'"
    and it': "invar (hi_fd it')" "and_live p' m \<Longrightarrow> good_keys ok cmp (pend it')"
    and near: "and_bit p' m \<Longrightarrow> \<bar>cmp (the (hi_buf it')) (and_buf p m)\<bar> < scope \<and> ok (the (hi_buf it'))"
    and far: "\<not> and_bit p' m \<Longrightarrow> ok (the (hi_buf it')) \<and> cmp (and_buf p m) (the (hi_buf it')) < scope \<and>
      (\<not> ao_eof p' \<longrightarrow> cmp (and_buf p m) (the (hi_buf it')) \<le> - scope)"
  shows "and_inv p'"
proof -
  let ?n = "length (ao_items p)"
  have n': "length (ao_items p') = ?n" by (simp add: items)
  have at: "ao_items p' ! i = (if i = m then it' else ao_items p ! i)" if "i < ?n" for i
    using that m by (simp add: items)
  have live: "and_live p i" if "and_live p' i" "i < ?n" "i \<noteq> m" for i
    using that bit eof by (auto simp: and_live_def)
  have okb: "ok (and_buf p i)" if "and_bit p i" "i < ?n" for i
    using and_buf_ok [OF inv that(2)] that(1) by (simp add: and_live_def)
  have okm: "ok (and_buf p m)" using okb m by blast
  have bits: "\<bar>cmp (and_buf p' i) (and_buf p' j)\<bar> < scope"
    if ij: "i < ?n" "j < ?n" "and_bit p' i" "and_bit p' j" for i j
  proof -
    have near': "\<bar>cmp (and_buf p' k) (and_buf p m)\<bar> < scope \<and> ok (and_buf p' k)" if k: "k < ?n" "and_bit p' k" for k
    proof (cases "k = m")
      case True
      with near k show ?thesis by (simp add: at [OF m(1)])
    next
      case False
      with bit k have "and_bit p k" by simp
      with False k m okb [of k] show ?thesis using and_invD(7) [OF inv k(1) m(1)] by (simp add: at [OF k(1)])
    qed
    show ?thesis
      using near' [OF ij(1,3)] near' [OF ij(2,4)] same_trans [OF _ okm, of "and_buf p' i" "and_buf p' j" scope]
        same_sym [of "and_buf p' j" "and_buf p m" scope] okm by blast
  qed
  have apart: "ok (and_buf p' j) \<and> cmp (and_buf p' i) (and_buf p' j) < scope \<and>
      (\<not> ao_eof p' \<longrightarrow> cmp (and_buf p' i) (and_buf p' j) \<le> - scope)"
    if ij: "i < ?n" "j < ?n" "and_bit p' i" "\<not> and_bit p' j" for i j
  proof -
    have i: "\<bar>cmp (and_buf p' i) (and_buf p m)\<bar> < scope \<and> ok (and_buf p' i)"
    proof (cases "i = m")
      case True
      with near ij show ?thesis by (simp add: at [OF m(1)])
    next
      case False
      with bit ij have "and_bit p i" by simp
      with False ij m okb [of i] show ?thesis using and_invD(7) [OF inv ij(1) m(1)] by (simp add: at [OF ij(1)])
    qed
    have j: "ok (and_buf p' j) \<and> cmp (and_buf p m) (and_buf p' j) < scope \<and>
        (\<not> ao_eof p' \<longrightarrow> cmp (and_buf p m) (and_buf p' j) \<le> - scope)"
    proof (cases "j = m")
      case True
      with far ij show ?thesis by (simp add: at [OF m(1)])
    next
      case False
      with bit ij have nb: "\<not> and_bit p j" by simp
      then show ?thesis
        using and_invD(8) [OF inv _ m(1) ij(2) m(2)] and_invD(9) [OF inv m(1) ij(2) m(2)] eof False
        by (auto simp: at [OF ij(2)])
    qed
    have "cmp (and_buf p' i) (and_buf p' j) < scope"
    proof (rule ccontr)
      assume "\<not> cmp (and_buf p' i) (and_buf p' j) < scope"
      then have "cmp (and_buf p' j) (and_buf p' i) \<le> - scope" using anti [of "and_buf p' i" "and_buf p' j"] i j by simp
      then have "cmp (and_buf p' j) (and_buf p m) \<le> - scope"
        using before_same [of "and_buf p' j" "and_buf p' i" "and_buf p m" scope] i j okm scope_pos by blast
      with anti [of "and_buf p m" "and_buf p' j"] j okm show False by simp
    qed
    with same_before [of "and_buf p' i" "and_buf p m" "and_buf p' j" scope] i j okm scope_pos show ?thesis by blast
  qed
  have inv': "invar (hi_fd (ao_items p' ! i))" if "i < ?n" for i
    using that it'(1) and_invD(3) [OF inv] by (simp add: at)
  have good': "good_keys ok cmp (pend (ao_items p' ! i))" if "i < ?n" "and_live p' i" for i
    using that it'(2) and_invD(4) [OF inv that(1)] live by (cases "i = m") (simp_all add: at)
  have "0 < ?n" using m(1) by linarith
  then show ?thesis
    unfolding and_inv_def Let_def n' using tb inv' good' skip cnt [unfolded n'] bits apart by blast
qed


lemma and_ms_step:
  assumes m: "m < length (ao_items p)" and n: "length (ao_items p') = length (ao_items p)"
    and same: "\<And>i. i < length (ao_items p) \<Longrightarrow> i \<noteq> m \<Longrightarrow> ao_items p' ! i = ao_items p ! i \<and> and_bit p' i = and_bit p i"
    and T: "and_T p m = x # and_T p' m"
    and R: "(\<not> ao_eof p \<and> \<not> ao_eof p' \<and> and_R p' m = and_R p m) \<or>
      (ao_eof p' \<and> (ao_eof p \<or> and_R p m = []))"
  shows "and_ms p = add_mset x (and_ms p')"
proof -
  let ?n = "length (ao_items p)"
  have i: "and_T p i = and_T p' i" "and_R p i = and_R p' i" if "i < ?n" "i \<noteq> m" for i
    using same [OF that] by (simp_all add: and_T_def and_R_def Let_def)
  have "(\<Sum>i<?n. mset (and_T p i)) + mset (and_T p' m) = (\<Sum>i<?n. mset (and_T p' i)) + mset (and_T p m)"
    by (rule sum_point [OF m]) (simp add: i)
  then have t: "(\<Sum>i<?n. mset (and_T p i)) = add_mset x (\<Sum>i<?n. mset (and_T p' i))" using T by simp
  show ?thesis
  proof (cases "ao_eof p'")
    case False
    then have "and_R p i = and_R p' i" if "i < ?n" for i using R i that by (cases "i = m") auto
    then have me: "map (\<lambda>i. mset (and_R p i)) [0..<?n] = map (\<lambda>i. mset (and_R p' i)) [0..<?n]" by simp
    show ?thesis using False R unfolding and_ms_def n t me by auto
  next
    case True
    have "and_hits scope (map (\<lambda>i. mset (and_R p i)) [0..<?n]) = {#}" if "and_R p m = []"
      using m that by (intro and_hits_empty) (force simp: image_iff)
    with True R t n show ?thesis by (auto simp: and_ms_def)
  qed
qed

lemma and_work_step:
  assumes m: "m < length (ao_items p)" and n: "length (ao_items p') = length (ao_items p)"
    and same: "\<And>i. i < length (ao_items p) \<Longrightarrow> i \<noteq> m \<Longrightarrow> ao_items p' ! i = ao_items p ! i \<and> (and_live p' i \<longrightarrow> and_live p i)"
    and live: "and_live p m" and less: "and_live p' m \<Longrightarrow> work (hi_fd (ao_items p' ! m)) < work (hi_fd (ao_items p ! m))"
  shows "and_work work p' < and_work work p"
proof -
  let ?w = "\<lambda>p i. if and_live p i then Suc (work (hi_fd (ao_items p ! i))) else 0"
  have "(\<Sum>i<length (ao_items p). ?w p' i) < (\<Sum>i<length (ao_items p). ?w p i)"
  proof (rule sum_strict_mono_ex1)
    show "\<forall>i \<in> {..<length (ao_items p)}. ?w p' i \<le> ?w p i"
    proof
      fix i
      assume "i \<in> {..<length (ao_items p)}"
      with same [of i] live less show "?w p' i \<le> ?w p i" by (cases "i = m") auto
    qed
    show "\<exists>i \<in> {..<length (ao_items p)}. ?w p' i < ?w p i"
      using m live less by (intro bexI [of _ m]) auto
  qed simp
  then show ?thesis by (simp add: and_work_def n)
qed

lemma and_tail_step:
  assumes inv: "and_inv p" and t: "ao_tailcount p \<noteq> 0"
  obtains p' x where "and_tail cmp scope None rd p = Some (p', fst x, snd x)" "and_inv p'" "\<not> ao_skip p'"
    "and_ms p = add_mset x (and_ms p')" "and_work work p' < and_work work p" "ok (fst x)"
    "\<forall>y \<in># and_ms p. cmp (fst x) (fst y) \<le> 0"
proof -
  let ?n = "length (ao_items p)"
  obtain m where m: "and_scan cmp None p = (Some m, ao_segment p, ao_skip p)" "m < ?n" "and_bit p m"
      "\<forall>i<?n. and_bit p i \<longrightarrow> cmp (and_buf p m) (and_buf p i) \<le> 0"
    using and_scan_spec [OF inv t] .
  define it where "it = ao_items p ! m"
  have live: "and_live p m" using m(3) by (simp add: and_live_def)
  have fd: "invar (hi_fd it)" and good: "good_keys ok cmp (pend it)"
    using and_invD(3,4) [OF inv m(2)] live by (simp_all add: it_def)
  obtain s rc where s: "rd (hi_fd it) = Some (s, rc)" "invar s" "contents (hi_fd it) = ahead rc (contents s)"
      "rc \<noteq> None \<longrightarrow> work s < work (hi_fd it)"
    using rd_ahead [OF fd] by metis
  let ?x = "(the (hi_buf it), hi_term it)" and ?it = "hi_load it (s, rc)"
  let ?p1 = "p\<lparr>ao_items := (ao_items p)[m := ?it]\<rparr>"
  define clr where "clr \<longleftrightarrow> rc = None \<or> scope \<le> cmp (the (hi_buf ?it)) (the (hi_buf it))"
  define p' where "p' = (if clr then ?p1\<lparr>ao_eof := (rc = None \<or> ao_eof p), ao_tailbits := (ao_tailbits p)[m := False],
      ao_tailcount := ao_tailcount p - 1\<rparr> else ?p1)"
  have tail: "and_tail cmp scope None rd p = Some (p', fst ?x, snd ?x)"
    using m(1) s(1) by (cases rc) (simp_all add: and_tail_def it_def [symmetric] Let_def p'_def clr_def)
  have items: "ao_items p' = (ao_items p)[m := ?it]" and eof: "ao_eof p' \<longleftrightarrow> rc = None \<or> ao_eof p"
    and skip: "\<not> ao_skip p'" and n': "length (ao_items p') = ?n"
    using and_invD(5) [OF inv t] by (auto simp: p'_def clr_def)
  have tb: "length (ao_tailbits p') = ?n" using and_invD(2) [OF inv] by (simp add: p'_def)
  have bits: "and_bit p' i \<longleftrightarrow> and_bit p i \<and> (clr \<longrightarrow> i \<noteq> m)" if "i < ?n" for i
  proof (cases clr)
    case True
    then show ?thesis
      using and_clear_bit(1) [OF inv m(2,3), of p' i] that n' by (simp add: p'_def)
  qed (simp add: and_bit_def p'_def)
  have cnt: "ao_tailcount p' = card {i. i < length (ao_items p') \<and> ao_tailbits p' ! i}" if "ao_tailcount p' \<noteq> 0"
  proof (cases clr)
    case True
    then show ?thesis
      using and_clear_bit(2) [OF inv m(2,3), of p'] that n' by (simp add: p'_def)
  next
    case False
    then show ?thesis using and_invD(6) [OF inv t] by (simp add: p'_def)
  qed
  have at: "ao_items p' ! m = ?it" using m(2) by (simp add: items)
  have bm: "the (hi_buf it) = and_buf p m" by (simp add: it_def)
  note step = item_rec_step [OF good, where s = s]
  have inv': "and_inv p'"
  proof (rule and_inv_step [OF inv m(2,3) items tb skip])
    show "and_bit p' i = and_bit p i" if "i < ?n" "i \<noteq> m" for i using bits that by simp
    show "ao_eof p \<Longrightarrow> ao_eof p'" by (simp add: eof)
    show "invar (hi_fd ?it)" by (simp add: item_load_pend s(2))
    show "good_keys ok cmp (pend ?it)" if "and_live p' m"
      using that step(5) s(3) bits [OF m(2)] by (cases rc) (auto simp: and_live_def eof clr_def)
    show "\<bar>cmp (the (hi_buf ?it)) (and_buf p m)\<bar> < scope \<and> ok (the (hi_buf ?it))" if "and_bit p' m"
    proof -
      have nc: "\<not> clr" using bits [OF m(2)] that by blast
      then obtain y where y: "rc = Some y" by (auto simp: clr_def)
      with step(6-9) [of y] s(3) nc bm anti [of "the (hi_buf it)" "fst y"] show ?thesis
        by (auto simp: clr_def)
    qed
    show "ok (the (hi_buf ?it)) \<and> cmp (and_buf p m) (the (hi_buf ?it)) < scope \<and>
        (\<not> ao_eof p' \<longrightarrow> cmp (and_buf p m) (the (hi_buf ?it)) \<le> - scope)" if ne: "\<not> and_bit p' m"
    proof (cases rc)
      case None
      have "ok (and_buf p m)" by (rule and_buf_ok [OF inv m(2) live])
      with None eof bm cmp_refl scope_pos show ?thesis by simp
    next
      case (Some y)
      have c: "clr" using bits [OF m(2)] ne m(3) by blast
      with Some step(6-9) [of y] s(3) bm anti [of "the (hi_buf it)" "fst y"] scope_pos show ?thesis
        by (auto simp: clr_def)
    qed
  qed (use cnt in blast)
  have TR: "and_T p m = ?x # and_T p' m \<and> ((\<not> ao_eof p \<and> \<not> ao_eof p' \<and> and_R p' m = and_R p m) \<or>
      (ao_eof p' \<and> (ao_eof p \<or> and_R p m = [])))"
  proof (cases rc)
    case None
    then have "pend it = [?x]" using s(3) by (simp add: item_pend_def)
    moreover have "in_rec it ?x" using good scope_pos cmp_refl by (simp add: in_rec_def item_pend_def)
    moreover have "\<not> and_bit p' m" using bits [OF m(2)] None by (simp add: clr_def)
    ultimately show ?thesis using None m(3) eof by (simp add: and_T_def and_R_def Let_def it_def [symmetric])
  next
    case (Some y)
    note st = step [of y] and c = s(3) [unfolded Some ahead_simps]
    have eof': "ao_eof p' = ao_eof p" using eof Some by simp
    show ?thesis
    proof (cases clr)
      case True
      then have nb: "\<not> and_bit p' m" and ge: "scope \<le> cmp (fst y) (the (hi_buf it))"
        using bits [OF m(2)] Some st(6) [OF c] by (simp_all add: clr_def)
      with m(3) st(1,2) [OF c] at Some eof' show ?thesis by (simp add: and_T_def and_R_def Let_def it_def [symmetric])
    next
      case False
      then have b: "and_bit p' m" and lt: "cmp (fst y) (the (hi_buf it)) < scope"
        using bits [OF m(2)] m(3) Some st(6) [OF c] by (simp_all add: clr_def)
      with m(3) st(3,4) [OF c] at Some eof' show ?thesis by (simp add: and_T_def and_R_def Let_def it_def [symmetric])
    qed
  qed
  have ms: "and_ms p = add_mset ?x (and_ms p')"
    using TR bits by (intro and_ms_step [OF m(2) n']) (auto simp: items)
  have wk: "and_work work p' < and_work work p"
  proof (rule and_work_step [OF m(2) n' _ live])
    show "ao_items p' ! i = ao_items p ! i \<and> (and_live p' i \<longrightarrow> and_live p i)" if "i < ?n" "i \<noteq> m" for i
      using that bits by (auto simp: items and_live_def eof)
    show "work (hi_fd (ao_items p' ! m)) < work (hi_fd (ao_items p ! m))" if "and_live p' m"
      using that s(4) bits [OF m(2)] by (cases rc) (auto simp: at item_load_pend it_def [symmetric] and_live_def eof clr_def)
  qed
  have "ok (fst ?x)" "\<forall>y \<in># and_ms p. cmp (fst ?x) (fst y) \<le> 0"
    using and_buf_ok [OF inv m(2) live] and_ms_least [OF inv m(2,3,4)] bm by auto
  with tail inv' skip ms wk show ?thesis using that by blast
qed


subsection \<open>Finding the next record\<close>

text \<open>Between records: no item is tailing and every item has a key.\<close>

definition and_between :: "('s, 'k, 't) andor_rfd \<Rightarrow> bool" where
  "and_between p \<longleftrightarrow> and_inv p \<and> ao_tailcount p = 0 \<and> \<not> ao_eof p"

abbreviation pends :: "('s, 'k, 't) heap_item list \<Rightarrow> ('k \<times> 't option) multiset list" where
  "pends items \<equiv> map (\<lambda>it. mset (pend it)) items"

lemma and_between_iff:
  "and_between p \<longleftrightarrow> ao_items p \<noteq> [] \<and> length (ao_tailbits p) = length (ao_items p) \<and> ao_tailcount p = 0 \<and> \<not> ao_eof p \<and>
     (\<forall>it \<in> set (ao_items p). invar (hi_fd it) \<and> good_keys ok cmp (pend it))"
  by (auto simp: and_between_def and_inv_def and_live_def and_bit_def Let_def all_set_conv_all_nth)

lemma and_between_ms:
  assumes "ao_tailcount p = 0" "\<not> ao_eof p"
  shows "and_ms p = and_hits scope (pends (ao_items p))"
proof -
  have "map (\<lambda>i. mset (and_R p i)) [0..<length (ao_items p)] = pends (ao_items p)"
    using assms(1) by (intro nth_equalityI) (simp_all add: and_R_def and_bit_def Let_def)
  then show ?thesis using assms by (simp add: and_ms_def and_T_def and_bit_def)
qed

lemma and_end_ms: "ao_tailcount p = 0 \<Longrightarrow> ao_eof p \<Longrightarrow> and_ms p = {#} \<and> and_work work p = 0"
  by (simp add: and_ms_def and_T_def and_bit_def and_work_def and_live_def)

lemma and_between_work:
  "ao_tailcount p = 0 \<Longrightarrow> \<not> ao_eof p \<Longrightarrow> and_work work p = (\<Sum>i<length (ao_items p). Suc (work (hi_fd (ao_items p ! i))))"
  by (simp add: and_work_def and_live_def)

lemma pends_ok: "and_between p \<Longrightarrow> P \<in> set (pends (ao_items p)) \<Longrightarrow> all_ok P"
  by (auto simp: and_between_iff all_ok_def dest!: bspec good_keys_ok)

lemma and_forward_item:
  assumes p: "and_between p" and a: "a < length (ao_items p)" and b: "b < length (ao_items p)"
    and behind: "cmp (and_buf p a) (and_buf p b) \<le> - scope"
    and f: "fw (hi_fd (ao_items p ! a)) (and_buf p b) = Some (s, rc)"
  defines "p' \<equiv> p\<lparr>ao_items := (ao_items p)[a := hi_load (ao_items p ! a) (s, rc)]\<rparr>"
  shows "if rc = None then and_ms p = {#} \<and> invar s
    else and_between p' \<and> and_ms p' = and_ms p \<and> and_work work p' < and_work work p"
proof -
  let ?u = "and_buf p b" and ?it = "ao_items p ! a" and ?it' = "hi_load (ao_items p ! a) (s, rc)"
  let ?nb = "not_before scope ?u"
  have mem: "ao_items p ! a \<in> set (ao_items p)" "ao_items p ! b \<in> set (ao_items p)" using a b by simp_all
  have ia: "invar (hi_fd ?it)" and ga: "good_keys ok cmp (pend ?it)" and gb: "good_keys ok cmp (pend (ao_items p ! b))"
    using p mem by (simp_all add: and_between_iff)
  have okb: "ok ?u" and oka: "ok (and_buf p a)" using ga gb by (simp_all add: item_pend_def)
  have s: "invar s" "rc \<noteq> None \<longrightarrow> work s < work (hi_fd ?it)" "good_keys ok cmp (ahead rc (contents s))"
      "mset (from_key cmp scope ?u (ahead rc (contents s))) = mset (from_key cmp scope ?u (contents (hi_fd ?it)))"
    using fw_keep [OF ia okb] f by auto
  have ab: "a \<noteq> b" using behind cmp_refl [OF oka] scope_pos by auto
  define Ps where "Ps = pends (ao_items p)"
  define Ps' where "Ps' = Ps[a := mset (ahead rc (contents s))]"
  have Ps: "\<forall>P \<in> set Ps. all_ok P" using pends_ok [OF p] by (simp add: Ps_def)
  have "all_ok (mset (ahead rc (contents s)))" using s(3) by (auto simp: all_ok_def good_keys_def)
  then have Ps': "\<forall>P \<in> set Ps'. all_ok P" using Ps by (auto simp: Ps'_def dest!: subsetD [OF set_update_subset_insert])
  have "\<not> ?nb (and_buf p a, hi_term ?it)" using behind anti [OF oka okb] by (simp add: not_before_def)
  then have "filter_mset ?nb (mset (pend ?it)) = filter_mset ?nb (mset (ahead rc (contents s)))"
    using s(4) by (simp add: item_pend_def from_key_def not_before_def [abs_def] flip: mset_filter)
  then have fl: "map (filter_mset ?nb) Ps = map (filter_mset ?nb) Ps'"
    using a by (intro nth_equalityI) (auto simp: Ps'_def Ps_def nth_list_update)
  have Q: "mset (pend (ao_items p ! b)) \<in> set Ps" "mset (pend (ao_items p ! b)) \<in> set Ps'"
    using b ab by (force simp: Ps_def, metis Ps'_def Ps_def length_list_update length_map nth_list_update_neq nth_map nth_mem)
  have nb: "\<forall>x \<in># mset (pend (ao_items p ! b)). ?nb x"
    using gb cmp_refl [OF okb] scope_pos by (auto simp: item_pend_def not_before_def)
  have eq: "and_hits scope Ps = and_hits scope Ps'"
    using and_hits_bound [OF Ps okb Q(1) nb] and_hits_bound [OF Ps' okb Q(2) nb]
      and_hits_from [OF Ps okb, of scope] and_hits_from [OF Ps' okb, of scope] fl by simp
  have ms: "and_ms p = and_hits scope Ps" using p by (simp add: and_between_def and_between_ms Ps_def)
  show ?thesis
  proof (cases rc)
    case None
    then have "{#} \<in> set Ps'" using a by (simp add: Ps'_def Ps_def set_update_memI)
    with None ms eq s(1) show ?thesis by (simp add: and_hits_empty)
  next
    case (Some y)
    have pd: "pend ?it' = ahead rc (contents s)" using Some by (simp add: item_load_pend)
    have bt: "and_between p'"
      using p s(1,3) pd Some by (auto simp: and_between_iff p'_def item_load_pend dest!: subsetD [OF set_update_subset_insert])
    then have "and_ms p' = and_hits scope (pends (ao_items p'))" by (simp add: and_between_def and_between_ms)
    also have "pends (ao_items p') = Ps'" using pd by (simp add: p'_def Ps'_def Ps_def map_update)
    finally have "and_ms p' = and_ms p" using eq ms by simp
    moreover have "and_work work p' < and_work work p"
      by (rule and_work_step [OF a]) (use a s(2) Some p bt in \<open>auto simp: p'_def item_load_pend and_live_def and_between_def\<close>)
    ultimately show ?thesis using Some bt by simp
  qed
qed

lemma and_align_spec:
  assumes "and_between p" and "\<forall>j<i. \<bar>cmp (and_buf p 0) (and_buf p j)\<bar> < scope" and "i \<le> length (ao_items p)"
  shows "\<exists>more p'. and_align cmp scope fw p i = Some (more, p') \<and> and_ms p' = and_ms p \<and>
    and_work work p' \<le> and_work work p \<and> and_inv p' \<and> ao_tailcount p' = 0 \<and> ao_eof p' = (\<not> more) \<and>
    (more \<longrightarrow> (\<forall>j<length (ao_items p'). \<bar>cmp (and_buf p' 0) (and_buf p' j)\<bar> < scope))"
  using assms
proof (induction "and_work work p * Suc (length (ao_items p)) + (length (ao_items p) - i)" arbitrary: p i rule: less_induct)
  case less
  let ?n = "length (ao_items p)"
  have pos: "0 < ?n" using less.prems(1) by (simp add: and_between_iff)
  note IH = less.hyps
  show ?case
  proof (cases "i < ?n")
    case False
    then have "and_align cmp scope fw p i = Some (True, p)" by (subst and_align.simps) (simp add: Let_def)
    moreover have "\<forall>j<?n. \<bar>cmp (and_buf p 0) (and_buf p j)\<bar> < scope" using less.prems(2,3) False by auto
    ultimately show ?thesis using less.prems(1) by (auto simp: and_between_def)
  next
    case i: True
    have good: "good_keys ok cmp (pend (ao_items p ! j)) \<and> invar (hi_fd (ao_items p ! j))" if "j < ?n" for j
      using less.prems(1) that by (simp add: and_between_iff)
    have okj: "ok (and_buf p j)" if "j < ?n" for j using good [OF that] by (simp add: item_pend_def)
    let ?c = "cmp (and_buf p 0) (and_buf p i)"
    have go: ?thesis if ab: "a < ?n" "b < ?n" "cmp (and_buf p a) (and_buf p b) \<le> - scope" "i' \<le> ?n"
        and eq: "\<And>s rc. fw (hi_fd (ao_items p ! a)) (and_buf p b) = Some (s, rc) \<Longrightarrow> and_align cmp scope fw p i =
          (let p' = p\<lparr>ao_items := (ao_items p)[a := hi_load (ao_items p ! a) (s, rc)]\<rparr> in
           if rc = None then Some (False, p'\<lparr>ao_eof := True\<rparr>) else and_align cmp scope fw p' i')"
        and keep: "i' = 0 \<or> (a \<noteq> 0 \<and> (\<forall>j<i'. j \<noteq> a \<and> \<bar>cmp (and_buf p 0) (and_buf p j)\<bar> < scope))" for a b i'
    proof -
      obtain s rc where f: "fw (hi_fd (ao_items p ! a)) (and_buf p b) = Some (s, rc)"
        using fw_keep [OF conjunct2 [OF good [OF ab(1)]] okj [OF ab(2)]] by blast
      define p' where "p' = p\<lparr>ao_items := (ao_items p)[a := hi_load (ao_items p ! a) (s, rc)]\<rparr>"
      note step = and_forward_item [OF less.prems(1) ab(1-3) f, folded p'_def]
      show ?thesis
      proof (cases rc)
        case None
        then have ms: "and_ms p = {#}" "invar s" using step by simp_all
        let ?q = "p'\<lparr>ao_eof := True\<rparr>"
        have q: "ao_tailcount ?q = 0" "ao_eof ?q" using less.prems(1) by (simp_all add: p'_def and_between_def)
        have "\<forall>j<?n. invar (hi_fd (ao_items p' ! j))"
          using good ms(2) ab(1) by (auto simp: p'_def nth_list_update item_load_pend)
        then have "and_inv ?q" using less.prems(1) pos
          by (simp add: and_inv_def and_between_iff and_live_def and_bit_def Let_def) (simp add: p'_def)
        moreover have "and_align cmp scope fw p i = Some (False, ?q)" using eq [OF f] None by (simp add: p'_def Let_def)
        ultimately show ?thesis using ms and_end_ms [OF q] q by (intro exI [of _ False] exI [of _ ?q]) simp
      next
        case (Some y)
        then have st: "and_between p'" "and_ms p' = and_ms p" "and_work work p' < and_work work p" using step by simp_all
        have n': "length (ao_items p') = ?n" by (simp add: p'_def)
        have lt: "and_work work p' * Suc (length (ao_items p')) + (length (ao_items p') - i') <
            and_work work p * Suc ?n + (?n - i)"
        proof -
          have "Suc (and_work work p') * Suc ?n \<le> and_work work p * Suc ?n" using st(3) by (intro mult_le_mono1) simp
          then show ?thesis using n' by simp
        qed
        have pre: "\<forall>j<i'. \<bar>cmp (and_buf p' 0) (and_buf p' j)\<bar> < scope"
          using keep ab(1) pos by (auto simp: p'_def)
        have "and_align cmp scope fw p i = and_align cmp scope fw p' i'"
          using eq [OF f] Some by (simp add: p'_def Let_def)
        moreover obtain more q where "and_align cmp scope fw p' i' = Some (more, q)" "and_ms q = and_ms p'"
            "and_work work q \<le> and_work work p'" "and_inv q" "ao_tailcount q = 0" "ao_eof q = (\<not> more)"
            "more \<longrightarrow> (\<forall>j<length (ao_items q). \<bar>cmp (and_buf q 0) (and_buf q j)\<bar> < scope)"
          using IH [OF lt st(1) pre] ab(4) n' by auto
        ultimately show ?thesis using st by (intro exI [of _ more] exI [of _ q]) simp
      qed
    qed
    consider (behind) "?c \<le> - scope" | (ahead) "scope \<le> ?c" | (same) "\<bar>?c\<bar> < scope" by linarith
    then show ?thesis
    proof cases
      case behind
      show ?thesis
      proof (rule go [OF pos i behind, of 0])
        fix s rc
        assume "fw (hi_fd (ao_items p ! 0)) (and_buf p i) = Some (s, rc)"
        with i behind show "and_align cmp scope fw p i =
            (let p' = p\<lparr>ao_items := (ao_items p)[0 := hi_load (ao_items p ! 0) (s, rc)]\<rparr> in
             if rc = None then Some (False, p'\<lparr>ao_eof := True\<rparr>) else and_align cmp scope fw p' 0)"
          by (subst and_align.simps) (simp add: Let_def)
      qed simp_all
    next
      case ahead
      then have nb: "\<not> ?c \<le> - scope" using scope_pos by simp
      have le: "cmp (and_buf p i) (and_buf p 0) \<le> - scope" using anti [OF okj [OF pos] okj [OF i]] ahead by simp
      have i0: "i \<noteq> 0" using ahead cmp_refl [OF okj [OF pos]] scope_pos by (intro notI) simp
      show ?thesis
      proof (rule go [OF i pos le, of i])
        fix s rc
        assume "fw (hi_fd (ao_items p ! i)) (and_buf p 0) = Some (s, rc)"
        with i ahead nb show "and_align cmp scope fw p i =
            (let p' = p\<lparr>ao_items := (ao_items p)[i := hi_load (ao_items p ! i) (s, rc)]\<rparr> in
             if rc = None then Some (False, p'\<lparr>ao_eof := True\<rparr>) else and_align cmp scope fw p' i)"
          by (subst and_align.simps) (simp add: Let_def)
      qed (use i i0 less.prems(2) in auto)
    next
      case same
      then have "\<not> ?c \<le> - scope" "\<not> scope \<le> ?c" by linarith+
      then have "and_align cmp scope fw p i = and_align cmp scope fw p (i + 1)"
        using i by (subst and_align.simps) (simp add: Let_def)
      moreover have "\<forall>j<i + 1. \<bar>cmp (and_buf p 0) (and_buf p j)\<bar> < scope"
        using less.prems(2) same by (auto simp: less_Suc_eq)
      ultimately show ?thesis using IH [of p "i + 1"] less.prems(1) i by simp
    qed
  qed
qed


lemma item_rec_split:
  assumes good: "good_keys ok cmp (pend it)"
  defines "b \<equiv> the (hi_buf it)"
  shows "ok b" and "takeWhile (in_rec it) (pend it) \<noteq> []"
    and "x \<in> set (takeWhile (in_rec it) (pend it)) \<Longrightarrow> ok (fst x) \<and> \<bar>cmp b (fst x)\<bar> < scope"
    and "x \<in> set (dropWhile (in_rec it) (pend it)) \<Longrightarrow> ok (fst x) \<and> cmp b (fst x) \<le> - scope"
proof -
  have pd: "pend it = (b, hi_term it) # contents (hi_fd it)" by (simp add: item_pend_def b_def)
  show okb: "ok b" using good by (simp add: pd)
  have in_b: "in_rec it (b, hi_term it)" using scope_pos cmp_refl [OF okb] by (simp add: in_rec_def b_def)
  then show "takeWhile (in_rec it) (pend it) \<noteq> []" by (simp add: pd)
  have le: "ok (fst x) \<and> cmp b (fst x) \<le> 0" if "x \<in> set (pend it)" for x
    using good that cmp_refl [OF okb] by (auto simp: pd dest: good_keys_ok)
  show "ok (fst x) \<and> \<bar>cmp b (fst x)\<bar> < scope" if "x \<in> set (takeWhile (in_rec it) (pend it))"
    using le [of x] set_takeWhileD [OF that] anti [OF okb, of "fst x"] by (auto simp: in_rec_def b_def)
  show "ok (fst x) \<and> cmp b (fst x) \<le> - scope" if x: "x \<in> set (dropWhile (in_rec it) (pend it))"
  proof -
    obtain y ys where y: "dropWhile (in_rec it) (pend it) = y # ys" using x by (cases "dropWhile (in_rec it) (pend it)") auto
    have ny: "\<not> in_rec it y" using y by (metis hd_dropWhile list.sel(1) list.simps(3))
    have my: "y \<in> set (pend it)" "x \<in> set (pend it)" using x y set_dropWhileD by (metis list.set_intros(1))+
    have "good_keys ok cmp (y # ys)" using good_keys_dropWhile [OF good, of "in_rec it"] y by simp
    then have "cmp (fst y) (fst x) \<le> 0" using x y cmp_refl [of "fst y"] le [OF my(1)] by auto
    moreover have "cmp b (fst y) \<le> - scope" using ny anti [OF okb] le my by (fastforce simp: in_rec_def b_def)
    ultimately show ?thesis
      using before_le [OF okb, of "fst y" "fst x" scope] le [OF my(1)] le [OF my(2)] scope_pos by simp
  qed
qed

lemma and_start_tails:
  assumes p: "and_between p" and near: "\<forall>j<length (ao_items p). \<bar>cmp (and_buf p 0) (and_buf p j)\<bar> < scope"
  defines "p' \<equiv> p\<lparr>ao_tailbits := map (\<lambda>_. True) (ao_items p), ao_tailcount := length (ao_items p),
    ao_segment := 0, ao_skip := False\<rparr>"
  shows "and_inv p' \<and> and_ms p' = and_ms p \<and> and_work work p' = and_work work p \<and> ao_tailcount p' \<noteq> 0"
proof -
  let ?n = "length (ao_items p)"
  have pos: "0 < ?n" and it: "\<And>i. i < ?n \<Longrightarrow> invar (hi_fd (ao_items p ! i)) \<and> good_keys ok cmp (pend (ao_items p ! i))"
    and st: "ao_tailcount p = 0" "\<not> ao_eof p"
    using p by (auto simp: and_between_iff)
  note sp = item_rec_split [OF conjunct2 [OF it]]
  have bit: "and_bit p' i" if "i < ?n" for i using pos that by (simp add: and_bit_def p'_def)
  have ij: "\<bar>cmp (and_buf p i) (and_buf p j)\<bar> < scope" if "i < ?n" "j < ?n" for i j
    using near that same_sym [of "and_buf p 0" "and_buf p i" scope] sp(1) [OF pos] sp(1) [OF that(1)] sp(1) [OF that(2)]
      same_trans [of "and_buf p i" "and_buf p 0" "and_buf p j" scope] by blast
  have card: "{i. i < ?n \<and> map (\<lambda>_. True) (ao_items p) ! i} = {..<?n}" by auto
  have inv: "and_inv p'"
    unfolding and_inv_def Let_def using pos it bit ij card by (simp add: p'_def)
  define TRs where "TRs = map (\<lambda>it. (mset (takeWhile (in_rec it) (pend it)), mset (dropWhile (in_rec it) (pend it)))) (ao_items p)"
  define r where "r = (and_buf p 0, hi_term (ao_items p ! 0))"
  have okr: "ok (fst r)" using sp(1) [OF pos] by (simp add: r_def)
  have each: "all_ok T \<and> all_ok R \<and> T \<noteq> {#} \<and> (\<forall>x \<in># T. same_record scope r x) \<and> (\<forall>x \<in># R. cmp (fst r) (fst x) \<le> - scope)"
    if TR: "(T, R) \<in> set TRs" for T R
  proof -
    obtain i where i: "i < ?n" "T = mset (takeWhile (in_rec (ao_items p ! i)) (pend (ao_items p ! i)))"
        "R = mset (dropWhile (in_rec (ao_items p ! i)) (pend (ao_items p ! i)))"
      using TR unfolding TRs_def by (auto simp: set_conv_nth)
    have near0: "\<bar>cmp (fst r) (and_buf p i)\<bar> < scope" using near i(1) by (simp add: r_def)
    show ?thesis
      using sp(2,3,4) [OF i(1)] same_trans [OF okr sp(1) [OF i(1)] _ near0] same_before [OF okr sp(1) [OF i(1)] _ scope_pos near0]
      by (auto simp: i(2,3) all_ok_def same_record_def)
  qed
  have "and_hits scope (map (\<lambda>(T, R). T + R) TRs) = (\<Sum>(T, R) \<leftarrow> TRs. T) + and_hits scope (map snd TRs)"
    by (rule and_hits_split [OF scope_pos okr]) (use each in blast)+
  moreover have "map (\<lambda>(T, R). T + R) TRs = pends (ao_items p)"
    by (simp add: TRs_def comp_def flip: mset_append)
  moreover have "(\<Sum>(T, R) \<leftarrow> TRs. T) = (\<Sum>i<?n. mset (and_T p' i))"
  proof -
    have "map (\<lambda>(T, R). T) TRs = map (\<lambda>i. mset (and_T p' i)) [0..<?n]"
      using bit by (intro nth_equalityI) (simp_all add: TRs_def and_T_def Let_def, simp add: p'_def)
    then show ?thesis by (simp add: sum_list_sum_nth atLeast0LessThan)
  qed
  moreover have "map snd TRs = map (\<lambda>i. mset (and_R p' i)) [0..<?n]"
    using bit by (intro nth_equalityI) (simp_all add: TRs_def and_R_def Let_def, simp add: p'_def)
  ultimately have "and_ms p' = and_ms p"
    using st and_between_ms [OF st] by (simp add: and_ms_def) (simp add: p'_def)
  moreover have "and_work work p' = and_work work p" using st by (simp add: and_work_def and_live_def p'_def)
  ultimately show ?thesis using inv pos by (simp add: p'_def)
qed


subsection \<open>Reading and forwarding\<close>

lemma and_hits_field [simp]:
  "and_inv (p\<lparr>ao_hits := h\<rparr>) = and_inv p" "and_ms (p\<lparr>ao_hits := h\<rparr>) = and_ms p"
  "and_work work (p\<lparr>ao_hits := h\<rparr>) = and_work work p"
proof -
  have b: "and_bit (p\<lparr>ao_hits := h\<rparr>) = and_bit p" by (simp add: and_bit_def fun_eq_iff)
  then have l: "and_live (p\<lparr>ao_hits := h\<rparr>) = and_live p" by (simp add: and_live_def fun_eq_iff)
  have TR: "and_T (p\<lparr>ao_hits := h\<rparr>) = and_T p" "and_R (p\<lparr>ao_hits := h\<rparr>) = and_R p"
    by (simp_all add: and_T_def and_R_def b fun_eq_iff)
  show "and_inv (p\<lparr>ao_hits := h\<rparr>) = and_inv p" "and_ms (p\<lparr>ao_hits := h\<rparr>) = and_ms p"
    "and_work work (p\<lparr>ao_hits := h\<rparr>) = and_work work p"
    by (simp_all add: and_inv_def and_ms_def and_work_def b l TR cong: if_cong sum.cong)
qed

abbreviation "and_r \<equiv> r_read_and cmp scope None rd fw"

lemma and_read_tail:
  assumes "and_inv p" "ao_tailcount p \<noteq> 0"
  shows "\<exists>p' x. and_r p = Some (p', Some x) \<and> and_inv p' \<and> and_ms p = add_mset x (and_ms p') \<and>
    and_work work p' < and_work work p \<and> ok (fst x) \<and> (\<forall>y \<in># and_ms p. cmp (fst x) (fst y) \<le> 0)"
proof -
  obtain p' x where t: "and_tail cmp scope None rd p = Some (p', fst x, snd x)" "and_inv p'" "\<not> ao_skip p'"
    "and_ms p = add_mset x (and_ms p')" "and_work work p' < and_work work p" "ok (fst x)"
    "\<forall>y \<in># and_ms p. cmp (fst x) (fst y) \<le> 0"
    by (rule and_tail_step [OF assms])
  let ?q = "if ao_tailcount p' = 0 then p'\<lparr>ao_hits := ao_hits p' + 1\<rparr> else p'"
  have "and_r p = Some (?q, Some x)"
    using assms(2) t(1,3) by (subst r_read_and.simps) simp
  moreover have "and_inv ?q" "and_ms ?q = and_ms p'" "and_work work ?q = and_work work p'" using t(2) by simp_all
  ultimately show ?thesis using t(4-7) by (intro exI [of _ ?q] exI [of _ x]) simp
qed

lemma and_read_step:
  assumes inv: "and_inv p"
  shows "\<exists>p' res. and_r p = Some (p', res) \<and> and_inv p' \<and>
    (case res of None \<Rightarrow> and_ms p = {#} \<and> and_ms p' = {#}
     | Some x \<Rightarrow> and_ms p = add_mset x (and_ms p') \<and> and_work work p' < and_work work p \<and> ok (fst x) \<and>
         (\<forall>y \<in># and_ms p. cmp (fst x) (fst y) \<le> 0))"
proof -
  consider (tail) "ao_tailcount p \<noteq> 0" | (eof) "ao_tailcount p = 0" "ao_eof p" | (search) "ao_tailcount p = 0" "\<not> ao_eof p"
    by blast
  then show ?thesis
  proof cases
    case tail
    obtain p' x where "and_r p = Some (p', Some x)" "and_inv p'" "and_ms p = add_mset x (and_ms p')"
        "and_work work p' < and_work work p" "ok (fst x)" "\<forall>y \<in># and_ms p. cmp (fst x) (fst y) \<le> 0"
      using and_read_tail [OF inv tail] by blast
    then show ?thesis by (intro exI [of _ p'] exI [of _ "Some x"]) simp
  next
    case eof
    then have "and_r p = Some (p, None)" by (subst r_read_and.simps) simp
    with and_end_ms [OF eof] inv show ?thesis by (intro exI [of _ p] exI [of _ None]) simp
  next
    case search
    then have bt: "and_between p" using inv by (simp add: and_between_def)
    have pos: "0 < length (ao_items p)" using bt by (simp add: and_between_iff)
    have "ok (and_buf p 0)" using and_buf_ok [OF inv pos] search(2) by (simp add: and_live_def)
    then have j: "\<forall>j<1. \<bar>cmp (and_buf p 0) (and_buf p j)\<bar> < scope" using cmp_refl scope_pos by simp
    have "1 \<le> length (ao_items p)" using pos by linarith
    from and_align_spec [OF bt j this] obtain more p1 where a: "and_align cmp scope fw p 1 = Some (more, p1)"
        "and_ms p1 = and_ms p" "and_work work p1 \<le> and_work work p" "and_inv p1" "ao_tailcount p1 = 0"
        "ao_eof p1 = (\<not> more)"
        "more \<longrightarrow> (\<forall>j<length (ao_items p1). \<bar>cmp (and_buf p1 0) (and_buf p1 j)\<bar> < scope)"
      by blast
    show ?thesis
    proof (cases more)
      case False
      then have "and_r p = Some (p1, None)" using search a(1) by (subst r_read_and.simps) simp
      with False a and_end_ms [of p1] show ?thesis by (intro exI [of _ p1] exI [of _ None]) simp
    next
      case True
      let ?p2 = "p1\<lparr>ao_tailbits := map (\<lambda>_. True) (ao_items p1), ao_tailcount := length (ao_items p1),
        ao_segment := 0, ao_skip := False\<rparr>"
      have bt1: "and_between p1" using True a by (simp add: and_between_def)
      have near: "\<forall>j<length (ao_items p1). \<bar>cmp (and_buf p1 0) (and_buf p1 j)\<bar> < scope" using True a(7) by blast
      note st = and_start_tails [OF bt1 near]
      have "and_r p = and_r ?p2" using search a(1) True by (subst r_read_and.simps) simp
      moreover obtain p' x where "and_r ?p2 = Some (p', Some x)" "and_inv p'" "and_ms ?p2 = add_mset x (and_ms p')"
          "and_work work p' < and_work work ?p2" "ok (fst x)" "\<forall>y \<in># and_ms ?p2. cmp (fst x) (fst y) \<le> 0"
        using and_read_tail [of ?p2] st by blast
      ultimately show ?thesis using st a(2,3) by (intro exI [of _ p'] exI [of _ "Some x"]) simp
    qed
  qed
qed

definition and_contents :: "('s, 'k, 't) andor_rfd \<Rightarrow> ('k \<times> 't option) list" where
  "and_contents p = the (rset_read_all and_r p)"

lemma and_contents_spec:
  assumes "and_inv p"
  shows "rset_read_all and_r p = Some (and_contents p) \<and> good_keys ok cmp (and_contents p) \<and>
    mset (and_contents p) = and_ms p"
proof -
  have "\<exists>xs. rset_read_all and_r p = Some xs \<and> good_keys ok cmp xs \<and> mset xs = and_ms p"
    using assms
  proof (induction "and_work work p" arbitrary: p rule: less_induct)
    case less
    obtain p' res where r: "and_r p = Some (p', res)" "and_inv p'"
        "case res of None \<Rightarrow> and_ms p = {#} \<and> and_ms p' = {#}
         | Some x \<Rightarrow> and_ms p = add_mset x (and_ms p') \<and> and_work work p' < and_work work p \<and> ok (fst x) \<and>
             (\<forall>y \<in># and_ms p. cmp (fst x) (fst y) \<le> 0)"
      using and_read_step [OF less.prems] by blast
    show ?case
    proof (cases res)
      case None
      with r show ?thesis by (subst rset_read_all.simps) simp
    next
      case (Some x)
      with r(3) have x: "and_ms p = add_mset x (and_ms p')" "and_work work p' < and_work work p" "ok (fst x)"
          "\<forall>y \<in># and_ms p. cmp (fst x) (fst y) \<le> 0" by simp_all
      obtain xs where xs: "rset_read_all and_r p' = Some xs" "good_keys ok cmp xs" "mset xs = and_ms p'"
        using less.hyps [OF x(2) r(2)] by blast
      have "rset_read_all and_r p = Some (x # xs)" using r(1) Some xs(1) by (subst rset_read_all.simps) simp
      moreover have "\<forall>y \<in> set xs. cmp (fst x) (fst y) \<le> 0" using x(1,4) xs(3) by (metis set_mset_mset union_single_eq_member insert_iff set_mset_add_mset_insert)
      ultimately show ?thesis using x xs by (intro exI [of _ "x # xs"]) simp
    qed
  qed
  then show ?thesis by (auto simp: and_contents_def)
qed

lemma and_read_spec:
  assumes inv: "and_inv p"
  shows "reads_ahead and_r and_contents (and_work work) and_inv p"
proof -
  obtain p' res where r: "and_r p = Some (p', res)" "and_inv p'"
      "case res of None \<Rightarrow> and_ms p = {#} \<and> and_ms p' = {#}
       | Some x \<Rightarrow> and_ms p = add_mset x (and_ms p') \<and> and_work work p' < and_work work p \<and> ok (fst x) \<and>
           (\<forall>y \<in># and_ms p. cmp (fst x) (fst y) \<le> 0)"
    using and_read_step [OF inv] by blast
  have "and_contents p = ahead res (and_contents p')"
  proof (cases res)
    case None
    with r and_contents_spec [OF inv] show ?thesis by simp
  next
    case (Some x)
    then show ?thesis
      using r(1) and_contents_spec [OF r(2)] unfolding and_contents_def [of p] by (subst rset_read_all.simps) simp
  qed
  with r and_contents_spec [OF r(2)] show ?thesis unfolding reads_ahead_def by (cases res) auto
qed


text \<open>Forwarding the items behind \<open>u\<close>.\<close>

definition behind :: "'k \<Rightarrow> ('s, 'k, 't) heap_item \<Rightarrow> bool" where
  "behind u it \<longleftrightarrow> cmp (the (hi_buf it)) u \<le> - scope"

definition fw_step :: "'k \<Rightarrow> ('s, 'k, 't) heap_item \<Rightarrow> ('s, 'k, 't) heap_item \<Rightarrow> bool" where
  "fw_step u it it' \<longleftrightarrow>
     (if behind u it then
        invar (hi_fd it') \<and> good_keys ok cmp (pend it') \<and> work (hi_fd it') < work (hi_fd it) \<and>
        mset (from_key cmp scope u (pend it')) = mset (from_key cmp scope u (contents (hi_fd it)))
      else it' = it)"

lemma and_forward_items_spec:
  assumes "\<forall>it \<in> set items. invar (hi_fd it)" and u: "ok u"
  shows "\<exists>more kill items'. and_forward_items cmp scope fw u items = Some (more, kill, items') \<and>
    (\<forall>it \<in> set items'. invar (hi_fd it)) \<and> length items' = length items \<and>
    (if more then list_all2 (fw_step u) items items' \<and> (kill \<longleftrightarrow> (\<exists>it \<in> set items. behind u it))
     else kill \<and> (\<exists>it \<in> set items. behind u it \<and> mset (from_key cmp scope u (contents (hi_fd it))) = {#}))"
  using assms(1)
proof (induction items)
  case (Cons it items)
  obtain more kill items' where IH: "and_forward_items cmp scope fw u items = Some (more, kill, items')"
      "\<forall>it \<in> set items'. invar (hi_fd it)" "length items' = length items"
      "if more then list_all2 (fw_step u) items items' \<and> (kill \<longleftrightarrow> (\<exists>it \<in> set items. behind u it))
       else kill \<and> (\<exists>it \<in> set items. behind u it \<and> mset (from_key cmp scope u (contents (hi_fd it))) = {#})"
    using Cons by auto
  show ?case
  proof (cases "behind u it")
    case False
    then have "and_forward_items cmp scope fw u (it # items) = Some (more, kill, it # items')"
      using IH(1) by (simp add: behind_def)
    with IH(2-4) False Cons.prems show ?thesis by (simp add: fw_step_def split: if_splits)
  next
    case True
    have "invar (hi_fd it)" using Cons.prems by simp
    from fw_keep [OF this u] obtain s rc where s: "fw (hi_fd it) u = Some (s, rc)" "invar s"
        "rc \<noteq> None \<longrightarrow> work s < work (hi_fd it)" "good_keys ok cmp (ahead rc (contents s))"
        "mset (from_key cmp scope u (ahead rc (contents s))) = mset (from_key cmp scope u (contents (hi_fd it)))"
      by blast
    show ?thesis
    proof (cases rc)
      case None
      then have "and_forward_items cmp scope fw u (it # items) = Some (False, True, hi_load it (s, None) # items)"
        using True s(1) by (simp add: behind_def)
      moreover have "mset (from_key cmp scope u (contents (hi_fd it))) = {#}" using s(5) None by (simp add: from_key_def)
      ultimately show ?thesis using True s(2) Cons.prems
        by (intro exI [of _ False] exI [of _ True] exI [of _ "hi_load it (s, None) # items"]) (simp add: item_load_pend)
    next
      case (Some y)
      then have e: "and_forward_items cmp scope fw u (it # items) = Some (more, True, hi_load it (s, Some y) # items')"
        using True s(1) IH(1) by (simp add: behind_def)
      have "fw_step u it (hi_load it (s, Some y))"
        using True s Some by (simp add: fw_step_def item_load_pend)
      then show ?thesis unfolding e using IH(2-4) True s(2)
        by (intro exI [of _ more] exI [of _ True] exI [of _ "hi_load it (s, Some y) # items'"])
           (simp add: item_load_pend split: if_splits)
    qed
  qed
qed auto

lemma nb_filter: "filter_mset (not_before scope u) (mset xs) = mset (from_key cmp scope u xs)"
  by (simp add: from_key_def not_before_def [abs_def] mset_filter)

lemma behind_pend:
  assumes "good_keys ok cmp (pend it)" "behind u it" "ok u"
  shows "from_key cmp scope u (pend it) = from_key cmp scope u (contents (hi_fd it))"
proof -
  have "ok (the (hi_buf it))" using assms(1) by (simp add: item_pend_def)
  then show ?thesis using assms(2,3) anti [of "the (hi_buf it)" u] by (simp add: behind_def item_pend_def from_key_def)
qed

text \<open>If an item is behind \<open>u\<close>, the record being delivered is.\<close>

lemma and_behind_tails:
  assumes inv: "and_inv p" and u: "ok u" and j: "j < length (ao_items p)" "behind u (ao_items p ! j)"
    and i: "i < length (ao_items p)" "and_bit p i"
  shows "cmp (and_buf p i) u \<le> - scope"
proof -
  have oki: "ok (and_buf p i)" using and_buf_ok [OF inv i(1)] i(2) by (simp add: and_live_def)
  have ju: "cmp (and_buf p j) u \<le> - scope" using j(2) by (simp add: behind_def)
  have okj: "ok (and_buf p j)" and ij: "cmp (and_buf p i) (and_buf p j) < scope"
    using and_invD(9) [OF inv i(1) j(1) i(2)] and_invD(7) [OF inv i(1) j(1) i(2)] and_buf_ok [OF inv j(1)]
    by (cases "and_bit p j"; auto simp: and_live_def)+
  show ?thesis
  proof (cases "cmp (and_buf p i) (and_buf p j) \<le> 0")
    case True
    then show ?thesis using le_before [OF oki okj u _ True ju] scope_pos by simp
  next
    case False
    with ij have "\<bar>cmp (and_buf p i) (and_buf p j)\<bar> < scope" by simp
    from same_before [OF oki okj u scope_pos this ju] show ?thesis .
  qed
qed

lemma and_ms_behind:
  assumes inv: "and_inv p" and u: "ok u" and j: "j < length (ao_items p)" "behind u (ao_items p ! j)"
  shows "filter_mset (not_before scope u) (and_ms p) =
    (if ao_eof p then {#} else and_hits scope (map (\<lambda>it. mset (from_key cmp scope u (pend it))) (ao_items p)))"
proof -
  let ?n = "length (ao_items p)" and ?nb = "not_before scope u"
  have TR: "filter_mset ?nb (mset (and_T p i)) = {#} \<and>
      (\<not> ao_eof p \<longrightarrow> filter_mset ?nb (mset (and_R p i)) = mset (from_key cmp scope u (pend (ao_items p ! i)))) \<and>
      (\<not> ao_eof p \<longrightarrow> all_ok (mset (and_R p i)))" if i: "i < ?n" for i
  proof (cases "and_bit p i")
    case False
    then show ?thesis using and_invD(4) [OF inv i]
      by (simp add: and_T_def and_R_def Let_def nb_filter and_live_def all_ok_def good_keys_def)
  next
    case True
    let ?it = "ao_items p ! i"
    have good: "good_keys ok cmp (pend ?it)" using and_invD(4) [OF inv i] True by (simp add: and_live_def)
    note sp = item_rec_split [OF good]
    have "\<not> ?nb x" if "x \<in> set (takeWhile (in_rec ?it) (pend ?it))" for x
    proof -
      have x: "ok (fst x)" "\<bar>cmp (fst x) (and_buf p i)\<bar> < scope" using sp(3) [OF that] same_sym sp(1) by blast+
      have "cmp (fst x) u \<le> - scope"
        using same_before [OF x(1) sp(1) u scope_pos x(2) and_behind_tails [OF inv u j i True]] .
      then show ?thesis using anti [OF x(1) u] by (simp add: not_before_def)
    qed
    then have T: "filter ?nb (takeWhile (in_rec ?it) (pend ?it)) = []" by (simp add: filter_empty_conv)
    have "filter ?nb (pend ?it) = filter ?nb (dropWhile (in_rec ?it) (pend ?it))"
      using T by (metis append_Nil filter_append takeWhile_dropWhile_id)
    moreover have "all_ok (mset (dropWhile (in_rec ?it) (pend ?it)))" using sp(4) by (simp add: all_ok_def)
    ultimately show ?thesis using True T
      by (simp add: and_T_def and_R_def Let_def from_key_def not_before_def [abs_def] flip: mset_filter)
  qed
  have "filter_mset ?nb (\<Sum>i<?n. mset (and_T p i)) = (\<Sum>i<?n. filter_mset ?nb (mset (and_T p i)))"
    by (rule filter_sum)
  also have "\<dots> = {#}" by (rule sum.neutral) (use TR in blast)
  finally have T: "filter_mset ?nb (\<Sum>i<?n. mset (and_T p i)) = {#}" .
  show ?thesis
  proof (cases "ao_eof p")
    case True
    then show ?thesis using T by (simp add: and_ms_def)
  next
    case False
    have "filter_mset ?nb (and_hits scope (map (\<lambda>i. mset (and_R p i)) [0..<?n])) =
        and_hits scope (map (filter_mset ?nb) (map (\<lambda>i. mset (and_R p i)) [0..<?n]))"
      by (rule and_hits_from [OF _ u]) (use TR False in auto)
    also have "map (filter_mset ?nb) (map (\<lambda>i. mset (and_R p i)) [0..<?n]) =
        map (\<lambda>it. mset (from_key cmp scope u (pend it))) (ao_items p)"
      using TR False by (intro nth_equalityI) simp_all
    finally show ?thesis using False T by (simp add: and_ms_def)
  qed
qed


lemma fw_step_pend:
  assumes "fw_step u it it'" "good_keys ok cmp (pend it)" "ok u"
  shows "mset (from_key cmp scope u (pend it')) = mset (from_key cmp scope u (pend it))"
  using assms behind_pend [of it u] by (auto simp: fw_step_def split: if_splits)

lemma and_end_inv:
  assumes "and_inv p" "\<forall>it \<in> set items. invar (hi_fd it)" "length items = length (ao_items p)"
    and "length bits = length items"
  shows "and_inv (p\<lparr>ao_items := items, ao_eof := True, ao_tailcount := 0, ao_tailbits := bits\<rparr>)"
  using assms and_invD(1) [OF assms(1)] by (simp add: and_inv_def and_live_def and_bit_def Let_def)

lemma and_from_contents:
  "and_inv p \<Longrightarrow> mset (from_key cmp scope u (and_contents p)) = filter_mset (not_before scope u) (and_ms p)"
  using and_contents_spec [of p] by (simp flip: nb_filter)

abbreviation "and_f \<equiv> r_forward_and cmp scope None rd fw"

lemma r_forward_and_keep:
  assumes inv: "and_inv p" and u: "ok u"
  shows "keeps_from ok cmp scope and_f and_contents (and_work work) and_inv p u"
proof -
  have "\<forall>it \<in> set (ao_items p). invar (hi_fd it)" using and_invD(3) [OF inv] by (auto simp: in_set_conv_nth)
  from and_forward_items_spec [OF this u] obtain more kill items' where
    f: "and_forward_items cmp scope fw u (ao_items p) = Some (more, kill, items')"
    "\<forall>it \<in> set items'. invar (hi_fd it)" "length items' = length (ao_items p)"
    "if more then list_all2 (fw_step u) (ao_items p) items' \<and> (kill \<longleftrightarrow> (\<exists>it \<in> set (ao_items p). behind u it))
     else kill \<and> (\<exists>it \<in> set (ao_items p). behind u it \<and> mset (from_key cmp scope u (contents (hi_fd it))) = {#})"
    by blast
  define p2 where "p2 = (if \<not> kill then p else if \<not> more then p\<lparr>ao_items := items', ao_eof := True, ao_tailcount := 0\<rparr>
      else p\<lparr>ao_items := items', ao_tailbits := map (\<lambda>_. False) items', ao_tailcount := 0\<rparr>)"
  have same: "items' = ao_items p" if "\<not> kill"
  proof -
    have m: "more" using f(4) that by (auto split: if_splits)
    then have "list_all2 (=) (ao_items p) items'"
      using f(4) that by (auto simp: fw_step_def list_all2_conv_all_nth)
    then show ?thesis by (simp add: list.rel_eq)
  qed
  have key: "and_inv p2 \<and> filter_mset (not_before scope u) (and_ms p2) = filter_mset (not_before scope u) (and_ms p) \<and>
      and_work work p2 \<le> and_work work p \<and> and_f p u = and_r p2"
  proof (cases kill)
    case False
    then have "more" using f(4) by (auto split: if_splits)
    then have "and_f p u = and_r p" using False f(1) same by (simp add: r_forward_and_def)
    with False inv show ?thesis by (simp add: p2_def)
  next
    case True
    then obtain j where j: "j < length (ao_items p)" "behind u (ao_items p ! j)"
      using f(4) by (auto simp: in_set_conv_nth split: if_splits)
    note ms = and_ms_behind [OF inv u j]
    have end_ok: "and_inv q \<and> filter_mset (not_before scope u) (and_ms q) = {#} \<and> and_work work q \<le> and_work work p"
      if "q = p\<lparr>ao_items := items', ao_eof := True, ao_tailcount := 0, ao_tailbits := bits\<rparr>" "length bits = length items'" for q bits
    proof -
      have "ao_tailcount q = 0" "ao_eof q" using that(1) by simp_all
      with and_end_ms [of q] and_end_inv [OF inv f(2,3) that(2)] that(1) show ?thesis by simp
    qed
    show ?thesis
    proof (cases more)
      case False
      then have p2: "p2 = p\<lparr>ao_items := items', ao_eof := True, ao_tailcount := 0, ao_tailbits := ao_tailbits p\<rparr>"
        using True by (simp add: p2_def)
      have "filter_mset (not_before scope u) (and_ms p) = {#}"
      proof (cases "ao_eof p")
        case ne: False
        obtain it where it: "it \<in> set (ao_items p)" "behind u it" "mset (from_key cmp scope u (contents (hi_fd it))) = {#}"
          using f(4) False by auto
        have "good_keys ok cmp (pend it)" using and_invD(4) [OF inv] it(1) ne by (auto simp: in_set_conv_nth and_live_def)
        then have "mset (from_key cmp scope u (pend it)) = {#}" using behind_pend [OF _ it(2) u] it(3) by simp
        then have "{#} \<in> set (map (\<lambda>it. mset (from_key cmp scope u (pend it))) (ao_items p))"
          using it(1) by (metis (mono_tags, lifting) image_eqI list.set_map)
        with ne show ?thesis unfolding ms by (simp add: and_hits_empty del: set_map)
      qed (simp add: ms)
      moreover have "and_f p u = and_r p2"
        using f(1) False p2 by (subst r_read_and.simps) (simp add: r_forward_and_def)
      moreover have "length (ao_tailbits p) = length items'" using and_invD(2) [OF inv] f(3) by simp
      moreover note end_ok [OF p2 this]
      ultimately show ?thesis by metis
    next
      case more: True
      then have p2: "p2 = p\<lparr>ao_items := items', ao_tailbits := map (\<lambda>_. False) items', ao_tailcount := 0\<rparr>"
        using True by (simp add: p2_def)
      have rd: "and_f p u = and_r p2" using f(1) more True p2 by (simp add: r_forward_and_def)
      have steps: "fw_step u (ao_items p ! i) (items' ! i)" if "i < length (ao_items p)" for i
        using f(4) more that by (simp add: list_all2_conv_all_nth)
      show ?thesis
      proof (cases "ao_eof p")
        case eof: True
        have "p2 = p\<lparr>ao_items := items', ao_eof := True, ao_tailcount := 0, ao_tailbits := map (\<lambda>_. False) items'\<rparr>"
          using eof p2 by simp
        from end_ok [OF this] have q: "and_inv p2" "filter_mset (not_before scope u) (and_ms p2) = {#}"
            "and_work work p2 \<le> and_work work p" by simp_all
        show ?thesis unfolding q(2) ms using eof q(1,3) rd by simp
      next
        case ne: False
        have good: "good_keys ok cmp (pend (ao_items p ! i))" if "i < length (ao_items p)" for i
          using and_invD(4) [OF inv that] ne by (simp add: and_live_def)
        have "good_keys ok cmp (pend it)" if "it \<in> set items'" for it
        proof -
          obtain i where i: "i < length (ao_items p)" "it = items' ! i" using \<open>it \<in> set items'\<close> f(3) by (auto simp: in_set_conv_nth)
          with steps [OF i(1)] good [OF i(1)] show ?thesis by (auto simp: fw_step_def split: if_splits)
        qed
        then have bt: "and_between p2"
          using ne f(2,3) and_invD(1) [OF inv] by (auto simp: and_between_iff p2)
        have "filter_mset (not_before scope u) (and_ms p2) =
            and_hits scope (map (\<lambda>it. mset (from_key cmp scope u (pend it))) items')"
        proof -
          have "and_ms p2 = and_hits scope (pends items')" using and_between_ms [of p2] ne p2 by simp
          then show ?thesis
            using and_hits_from [OF _ u, of "pends items'" scope] pends_ok [OF bt] p2 by (simp add: comp_def nb_filter)
        qed
        also have "map (\<lambda>it. mset (from_key cmp scope u (pend it))) items' =
            map (\<lambda>it. mset (from_key cmp scope u (pend it))) (ao_items p)"
          using fw_step_pend [OF steps good u] f(3) by (intro nth_equalityI) simp_all
        finally have "filter_mset (not_before scope u) (and_ms p2) = filter_mset (not_before scope u) (and_ms p)"
          using ms ne by simp
        moreover have "and_work work p2 \<le> and_work work p"
        proof -
          have "work (hi_fd (items' ! i)) \<le> work (hi_fd (ao_items p ! i))" if "i < length (ao_items p)" for i
            using steps [OF that] by (auto simp: fw_step_def split: if_splits)
          then have "(\<Sum>i<length (ao_items p). Suc (work (hi_fd (items' ! i)))) \<le>
              (\<Sum>i<length (ao_items p). Suc (work (hi_fd (ao_items p ! i))))"
            by (intro sum_mono) simp
          then show ?thesis using ne f(3) by (simp add: and_work_def and_live_def p2)
        qed
        ultimately show ?thesis using bt rd by (simp add: and_between_def)
      qed
    qed
  qed
  obtain p' res where r: "and_r p2 = Some (p', res)" "and_inv p'" "and_contents p2 = ahead res (and_contents p')"
      "res = None \<longrightarrow> and_contents p' = []" "res \<noteq> None \<longrightarrow> and_work work p' < and_work work p2"
    using and_read_spec [of p2] key unfolding reads_ahead_def by blast
  have "mset (from_key cmp scope u (ahead res (and_contents p'))) = mset (from_key cmp scope u (and_contents p))"
    using and_from_contents [of p2 u] and_from_contents [OF inv, of u] key r(3) by simp
  moreover have "good_keys ok cmp (ahead res (and_contents p'))" using and_contents_spec [of p2] key r(3) by simp
  ultimately show ?thesis unfolding keeps_from_def using r key by (intro exI [of _ p'] exI [of _ res]) auto
qed

lemma and_raw:
  "rset_raw ok cmp scope (on_priv and_r) (Some (\<lambda>r u. on_priv (\<lambda>p. and_f p u) r)) and_contents (and_work work) and_inv"
  by (rule on_priv_raw [OF key_cmp_order_axioms scope_pos])
     (use and_read_spec and_contents_spec in \<open>auto intro!: on_priv_keeps r_forward_and_keep\<close>)

subsection \<open>Opening\<close>

lemma and_fill_spec:
  assumes "\<forall>s \<in> set children. invar s"
  shows "\<exists>items eof. and_fill rd children = Some (items, eof) \<and> length items = length children \<and>
    (\<forall>it \<in> set items. invar (hi_fd it)) \<and>
    (if eof then \<exists>s \<in> set children. contents s = []
     else (\<forall>it \<in> set items. good_keys ok cmp (pend it)) \<and> map pend items = map contents children)"
  using assms
proof (induction children)
  case (Cons c cs)
  then obtain items eof where IH: "and_fill rd cs = Some (items, eof)" "length items = length cs"
      "\<forall>it \<in> set items. invar (hi_fd it)"
      "if eof then \<exists>s \<in> set cs. contents s = []
       else (\<forall>it \<in> set items. good_keys ok cmp (pend it)) \<and> map pend items = map contents cs"
    by auto
  have c: "invar c" using Cons.prems by simp
  obtain s rc where s: "rd c = Some (s, rc)" "invar s" "contents c = ahead rc (contents s)"
    using rd_ahead [OF c] by metis
  show ?case
    using s IH contents_good [OF c] by (cases rc) (auto simp: item_load_pend split: if_splits)
qed auto

lemma r_open_and_spec:
  assumes c: "\<forall>s \<in> set children. invar s" "children \<noteq> []" and q: "\<And>cp xs. mset (qsort cp xs) = mset xs"
  shows "\<exists>p. r_open_and qsort tot rd children = Some p \<and> and_inv p \<and>
    and_ms p = and_hits scope (map (\<lambda>s. mset (contents s)) children)"
proof -
  obtain items eof where f: "and_fill rd children = Some (items, eof)" "length items = length children"
      "\<forall>it \<in> set items. invar (hi_fd it)"
      "if eof then \<exists>s \<in> set children. contents s = []
       else (\<forall>it \<in> set items. good_keys ok cmp (pend it)) \<and> map pend items = map contents children"
    using and_fill_spec [OF c(1)] by blast
  let ?its = "qsort (compare_ands tot) items"
  have st: "set ?its = set items" "length ?its = length items"
    using q [of "compare_ands tot" items] by (metis set_mset_mset, metis size_mset)
  define p where "p = \<lparr>ao_items = ?its, ao_h = None, ao_hits = 0, ao_eof = eof, ao_tailcount = 0,
    ao_segment = 0, ao_skip = False, ao_tailbits = replicate (length children) False\<rparr>"
  have op: "r_open_and qsort tot rd children = Some p" using f(1) by (simp add: r_open_and_def p_def)
  have ne: "0 < length items" "\<forall>i<length items. invar (hi_fd (?its ! i))"
    using c(2) f(2,3) st by (simp_all, metis nth_mem)
  show ?thesis
  proof (cases eof)
    case True
    then have "and_inv p" using ne f(2) st by (simp add: p_def and_inv_def and_live_def and_bit_def)
    moreover have "and_ms p = {#}" using and_end_ms [of p] True by (simp add: p_def)
    moreover have "{#} \<in> set (map (\<lambda>s. mset (contents s)) children)" using f(4) True by force
    ultimately show ?thesis using op by (auto simp: and_hits_empty simp del: set_map)
  next
    case False
    then have "and_between p" using ne f st by (auto simp: and_between_iff p_def)
    moreover have "and_ms p = and_hits scope (pends ?its)" using and_between_ms [of p] False by (simp add: p_def)
    moreover have "and_hits scope (pends ?its) = and_hits scope (pends items)"
      by (rule and_hits_perm) (simp add: q)
    moreover have "pends items = map (\<lambda>s. mset (contents s)) children"
    proof -
      have "map mset (map pend items) = map mset (map contents children)" using f(4) False by simp
      then show ?thesis by (simp add: comp_def)
    qed
    ultimately show ?thesis using op by (auto simp: and_between_def)
  qed
qed


lemma and_hits_concat:
  "and_hits scope (map (\<lambda>s. mset (contents s)) children) =
   mset (filter (\<lambda>x. \<forall>s \<in> set children. \<exists>y \<in> set (contents s). \<bar>cmp (fst x) (fst y)\<bar> < scope)
     (concat (map contents children)))"
proof -
  have "(\<Sum>s \<leftarrow> cs. filter_mset Q (mset (contents s))) = mset (filter Q (concat (map contents cs)))" for Q cs
    by (induction cs) (simp_all add: mset_filter)
  then show ?thesis by (simp add: and_hits_def same_record_def comp_def)
qed

lemma and_set_read:
  assumes "\<forall>s \<in> set children. invar s" "children \<noteq> []" "\<And>cp xs. mset (qsort cp xs) = mset xs"
  shows "\<exists>p xs. r_open_and qsort tot rd children = Some p \<and> rset_read_all and_r p = Some xs \<and> good_keys ok cmp xs \<and>
    mset xs = mset (filter (\<lambda>x. \<forall>s \<in> set children. \<exists>y \<in> set (contents s). \<bar>cmp (fst x) (fst y)\<bar> < scope)
                           (concat (map contents children)))"
  using r_open_and_spec [where qsort = qsort and tot = tot, OF assms] and_contents_spec unfolding and_hits_concat by metis

end

end
