(* ===== verification/Rset_Hits.thy ===== *)
theory Rset_Hits
  imports Complex_Main Rset_Base
begin

text \<open>
  Hit counting in \<^verbatim>\<open>rset/rset.c\<close>: \<^verbatim>\<open>rset_default_read\<close> counts a key when it differs from the last one counted above level \<^verbatim>\<open>scope\<close>, and
  \<^verbatim>\<open>rset_close\<close> completes the count up to \<^verbatim>\<open>hits_limit\<close> and estimates and rounds it beyond. The doubles of the
  estimate are rational numbers here. The specification of a count is the number of classes of keys
  that differ at most at level \<^verbatim>\<open>scope\<close>.
\<close>

section \<open>Operations\<close>

text \<open>Reading a set to its end, keeping the descriptor.\<close>

partial_function (option) rset_drain :: "('s \<Rightarrow> ('s, 'k, 't) rd_result) \<Rightarrow> 's \<Rightarrow> ('s \<times> ('k \<times> 't option) list) option" where
  "rset_drain rd s =
     do {
       (s', rc) \<leftarrow> rd s;
       case rc of
         None \<Rightarrow> Some (s', [])
       | Some x \<Rightarrow> do { (s'', xs) \<leftarrow> rset_drain rd s'; Some (s'', x # xs) }
     }"

text \<open>The reading loop of \<^verbatim>\<open>rset_close\<close>.\<close>

partial_function (option) rset_close_loop :: "'k rset_base \<Rightarrow> (('p, 'k) rsfd \<Rightarrow> (('p, 'k) rsfd, 'k, 't) rd_result) \<Rightarrow>
    ('p, 'k) rsfd \<Rightarrow> ('p, 'k) rsfd option" where
  "rset_close_loop rs f_read rfd =
     (if counted_items rfd \<le> rs_hits_limit rs then
        do {
          (rfd', rc) \<leftarrow> rset_default_read rs f_read rfd;
          (if rc = None then Some rfd' else rset_close_loop rs f_read rfd')
        }
      else Some rfd)"

text \<open>Rounding to significant digits: divide by ten until the value is at most \<^verbatim>\<open>hits_round\<close>, then
  multiply back.\<close>

partial_function (option) round_down :: "int \<Rightarrow> int \<Rightarrow> nat \<Rightarrow> (int \<times> nat) option" where
  "round_down hits_round est i =
     (if hits_round < est then round_down hits_round (est div 10) (i + 1) else Some (est, i))"

primrec round_up :: "int \<Rightarrow> nat \<Rightarrow> int" where
  "round_up est 0 = est"
| "round_up est (Suc i) = round_up (est * 10) i"

definition round_hits :: "int \<Rightarrow> int \<Rightarrow> int option" where
  "round_hits hits_round est = do { (e, i) \<leftarrow> round_down hits_round est 0; Some (round_up e i) }"

text \<open>The count that \<^verbatim>\<open>rset_close\<close> stores, with the approximation flag; \<open>pos\<close> is \<^verbatim>\<open>rset_pos\<close>. A zero position
  makes the ratio zero and the conversion of the quotient undefined: \<open>None\<close>.\<close>

definition rset_close :: "'k rset_base \<Rightarrow> (('p, 'k) rsfd \<Rightarrow> (('p, 'k) rsfd, 'k, 't) rd_result) \<Rightarrow>
    (('p, 'k) rsfd \<Rightarrow> rat \<times> rat) \<Rightarrow> int \<Rightarrow> int \<times> bool \<Rightarrow> ('p, 'k) rsfd \<Rightarrow> (('p, 'k) rsfd \<times> int \<times> bool) option" where
  "rset_close rs f_read pos hits_round hits rfd =
     (case hits of (hits_count, hits_approx) \<Rightarrow>
        if hits_count = 0 then
          do {
            rfd' \<leftarrow> rset_close_loop rs f_read rfd;
            let count = counted_items rfd';
            (if rs_hits_limit rs < count \<and> 0 < rs_hits_limit rs then
               (case pos rfd' of (cur, tot) \<Rightarrow>
                  if 0 < tot then
                    if cur = 0 then None
                    else (let est = \<lfloor>1 / 2 + rat_of_int count / (cur / tot)\<rfloor>
                          in do { e \<leftarrow> round_hits hits_round est; Some (rfd', e, True) })
                  else Some (rfd', count, False))
             else Some (rfd', count, False))
          }
        else Some (rfd, hits_count, hits_approx))"

section \<open>Rounding\<close>

lemma round_up_pow: "round_up e i = e * 10 ^ i"
  by (induction i arbitrary: e) simp_all

lemma round_down_spec:
  assumes "0 \<le> hr" "0 \<le> est"
  shows "\<exists>j. round_down hr est i = Some (est div 10 ^ j, i + j) \<and> est div 10 ^ j \<le> hr \<and>
    (j = 0 \<or> hr < est div 10 ^ (j - 1))"
  using assms(2)
proof (induction "nat est" arbitrary: est i rule: less_induct)
  case less
  show ?case
  proof (cases "hr < est")
    case False
    then show ?thesis by (intro exI [of _ 0]) (simp add: round_down.simps)
  next
    case True
    with assms(1) have lt: "nat (est div 10) < nat est" by linarith
    have d0: "0 \<le> est div 10" using less.prems by (simp add: pos_imp_zdiv_nonneg_iff)
    obtain j where j: "round_down hr (est div 10) (i + 1) = Some (est div 10 div 10 ^ j, i + 1 + j)"
        "est div 10 div 10 ^ j \<le> hr" "j = 0 \<or> hr < est div 10 div 10 ^ (j - 1)"
      using less.hyps [OF lt d0, of "i + 1"] by blast
    have e: "est div 10 div 10 ^ j = est div 10 ^ Suc j" for j by (simp add: div_mult2_eq zdiv_zmult2_eq)
    have "round_down hr est i = Some (est div 10 ^ Suc j, i + Suc j)"
      using True j(1) e [of j] by (simp add: round_down.simps [of hr est])
    moreover have "hr < est div 10 ^ (Suc j - 1)"
      using True j(3) e [of "j - 1"] by (cases j) simp_all
    ultimately show ?thesis using j(2) e [of j] by (intro exI [of _ "Suc j"]) simp
  qed
qed

lemma round_hits_spec:
  assumes "0 \<le> hr" "0 \<le> est"
  shows "\<exists>j. round_hits hr est = Some (est - est mod 10 ^ j) \<and> est div 10 ^ j \<le> hr \<and>
    (j = 0 \<or> hr < est div 10 ^ (j - 1))"
proof -
  obtain j where "round_down hr est 0 = Some (est div 10 ^ j, 0 + j)" "est div 10 ^ j \<le> hr"
      "j = 0 \<or> hr < est div 10 ^ (j - 1)"
    using round_down_spec [OF assms] by blast
  then show ?thesis by (intro exI [of _ j]) (simp add: round_hits_def round_up_pow minus_mod_eq_div_mult)
qed

section \<open>Counting\<close>

fun count_from :: "('k \<Rightarrow> 'k \<Rightarrow> int) \<Rightarrow> int \<Rightarrow> 'k option \<Rightarrow> ('k \<times> 't) list \<Rightarrow> int" where
  "count_from cmp s b [] = 0"
| "count_from cmp s None (x # xs) = 1 + count_from cmp s (Some (fst x)) xs"
| "count_from cmp s (Some b) (x # xs) =
     (if s < cmp (fst x) b then 1 + count_from cmp s (Some (fst x)) xs else count_from cmp s (Some b) xs)"

lemma count_from_nonneg: "0 \<le> count_from cmp s b xs"
  by (induction cmp s b xs rule: count_from.induct) auto

context key_cmp_order
begin

definition rec_class :: "int \<Rightarrow> 'k \<Rightarrow> 'k set" where
  "rec_class s k = {y. ok y \<and> \<bar>cmp k y\<bar> \<le> s}"

definition class_count :: "int \<Rightarrow> ('k \<times> 't) list \<Rightarrow> nat" where
  "class_count s xs = card (rec_class s ` fst ` set xs)"

lemma rec_class_eq:
  assumes "ok a" "ok b" "0 \<le> s"
  shows "rec_class s a = rec_class s b \<longleftrightarrow> \<bar>cmp a b\<bar> \<le> s"
proof
  assume "rec_class s a = rec_class s b"
  moreover have "b \<in> rec_class s b" using assms cmp_refl by (simp add: rec_class_def)
  ultimately have "b \<in> rec_class s a" by simp
  then show "\<bar>cmp a b\<bar> \<le> s" by (simp add: rec_class_def)
next
  assume ab: "\<bar>cmp a b\<bar> \<le> s"
  then have ba: "\<bar>cmp b a\<bar> \<le> s" using anti [OF assms(1,2)] by simp
  have tr: "\<bar>cmp y z\<bar> \<le> s" if "ok x" "ok y" "ok z" "\<bar>cmp y x\<bar> \<le> s" "\<bar>cmp x z\<bar> \<le> s" for x y z
    using same_trans [of y x z "s + 1"] that by simp
  have "ok y \<and> \<bar>cmp a y\<bar> \<le> s \<longleftrightarrow> ok y \<and> \<bar>cmp b y\<bar> \<le> s" for y
    using tr [of a b y] tr [of b a y] ab ba assms by blast
  then show "rec_class s a = rec_class s b" unfolding rec_class_def by blast
qed

lemma count_from_classes:
  assumes "good_keys ok cmp xs" "ok b" "\<forall>x \<in> set xs. cmp b (fst x) \<le> 0" "0 \<le> s"
  shows "count_from cmp s (Some b) xs = int (card (rec_class s ` fst ` set xs - {rec_class s b}))"
  using assms
proof (induction xs arbitrary: b)
  case (Cons x xs)
  let ?C = "rec_class s ` fst ` set xs"
  have okx: "ok (fst x)" and good: "good_keys ok cmp xs" and le: "\<forall>y \<in> set xs. cmp (fst x) (fst y) \<le> 0"
    using Cons.prems(1) by simp_all
  show ?case
  proof (cases "s < cmp (fst x) b")
    case True
    have xb: "cmp b (fst x) \<le> - (s + 1)" using True anti [OF okx Cons.prems(2)] by simp
    have nb: "rec_class s (fst y) \<noteq> rec_class s b" if "y \<in> set (x # xs)" for y
    proof -
      have oky: "ok (fst y)" using that Cons.prems(1) good_keys_ok by blast
      have "cmp b (fst y) \<le> - (s + 1)"
        using that before_le [OF Cons.prems(2) okx oky, of "s + 1"] xb le cmp_refl [OF okx] Cons.prems(4) by auto
      then show ?thesis using rec_class_eq [OF oky Cons.prems(2,4)] anti [OF oky Cons.prems(2)] Cons.prems(4) by auto
    qed
    then have "rec_class s b \<notin> rec_class s ` fst ` set (x # xs)" by (metis imageE)
    then have "rec_class s ` fst ` set (x # xs) - {rec_class s b} = insert (rec_class s (fst x)) ?C" by simp
    then have "card (rec_class s ` fst ` set (x # xs) - {rec_class s b}) = Suc (card (?C - {rec_class s (fst x)}))"
      by (simp only: card.insert_remove finite_imageI finite_set)
    then show ?thesis using True Cons.IH [OF good okx le Cons.prems(4)] by simp
  next
    case False
    have "cmp b (fst x) \<le> 0" using Cons.prems(3) by simp
    then have "rec_class s (fst x) = rec_class s b"
      using False rec_class_eq [OF okx Cons.prems(2,4)] anti [OF okx Cons.prems(2)] by simp
    then show ?thesis using False Cons.IH [OF good Cons.prems(2) _ Cons.prems(4)] Cons.prems(3) by simp
  qed
qed simp

lemma count_from_class_count:
  assumes "good_keys ok cmp xs" "0 \<le> s"
  shows "count_from cmp s None xs = int (class_count s xs)"
proof (cases xs)
  case (Cons x ys)
  let ?C = "rec_class s ` fst ` set ys"
  have "count_from cmp s None xs = 1 + int (card (?C - {rec_class s (fst x)}))"
    using assms count_from_classes [of ys "fst x" s] Cons by simp
  moreover have "class_count s xs = Suc (card (?C - {rec_class s (fst x)}))"
    unfolding class_count_def Cons by (simp add: card.insert_remove)
  ultimately show ?thesis by simp
qed (simp add: class_count_def)

end

context rset_raw
begin

definition count_buf :: "('p, 'k) rsfd \<Rightarrow> 'k option" where
  "count_buf r = (if counted_items r = 0 then None else Some (the (counted_buf r)))"

text \<open>Counting is done by the base class: a control block leaves the counters alone.\<close>

definition keeps_counters :: bool where
  "keeps_counters \<longleftrightarrow> (\<forall>r r' res. f_read r = Some (r', res) \<longrightarrow>
     counted_items r' = counted_items r \<and> counted_buf r' = counted_buf r)"

lemma count_step:
  assumes rs: "rs_cmp rs = cmp" "rs_scope rs = scope" and k: "keeps_counters" and c: "0 \<le> counted_items r"
    and inv: "invar (rsfd_priv r)" "contents (rsfd_priv r) = x # xs"
  shows "\<exists>r'. rset_default_read rs f_read r = Some (r', Some x) \<and> invar (rsfd_priv r') \<and> contents (rsfd_priv r') = xs \<and>
    0 \<le> counted_items r' \<and> counted_items r \<le> counted_items r' \<and> counted_items r' \<le> counted_items r + 1 \<and>
    counted_items r' + count_from cmp scope (count_buf r') xs =
    counted_items r + count_from cmp scope (count_buf r) (x # xs)"
proof -
  obtain r1 where r1: "f_read r = Some (r1, Some x)" "invar (rsfd_priv r1)" "contents (rsfd_priv r1) = xs"
    using read_cons [OF inv] by blast
  have same: "counted_items r1 = counted_items r" "counted_buf r1 = counted_buf r"
    using k r1(1) by (simp_all add: keeps_counters_def)
  obtain b t where x: "x = (b, t)" by (cases x)
  show ?thesis
    using r1 same c x rs by (auto simp: rset_default_read_def Let_def count_buf_def)
qed

lemma drain_count:
  assumes rs: "rs_cmp rs = cmp" "rs_scope rs = scope" and k: "keeps_counters" and "0 \<le> counted_items r"
    and "invar (rsfd_priv r)"
  shows "\<exists>r'. rset_drain (rset_default_read rs f_read) r = Some (r', contents (rsfd_priv r)) \<and>
    counted_items r' = counted_items r + count_from cmp scope (count_buf r) (contents (rsfd_priv r))"
  using assms(4,5)
proof (induction "contents (rsfd_priv r)" arbitrary: r)
  case Nil
  then obtain r' where "f_read r = Some (r', None)" using read_nil [of r] by auto
  moreover have "counted_items r' = counted_items r" using k calculation by (simp add: keeps_counters_def)
  ultimately show ?case using Nil.hyps [symmetric]
    by (subst rset_drain.simps) (simp add: rset_default_read_def)
next
  case (Cons x xs)
  obtain r1 where r1: "rset_default_read rs f_read r = Some (r1, Some x)" "invar (rsfd_priv r1)"
      "contents (rsfd_priv r1) = xs" "0 \<le> counted_items r1"
      "counted_items r1 + count_from cmp scope (count_buf r1) xs =
       counted_items r + count_from cmp scope (count_buf r) (x # xs)"
    using count_step [OF rs k Cons.prems(1,2) Cons.hyps(2) [symmetric]] by blast
  from Cons.hyps(1) [of r1] r1 obtain r' where "rset_drain (rset_default_read rs f_read) r1 = Some (r', xs)"
      "counted_items r' = counted_items r1 + count_from cmp scope (count_buf r1) xs" by auto
  with r1 Cons.hyps(2) [symmetric] show ?case by (subst rset_drain.simps) simp
qed

text \<open>The loop of \<^verbatim>\<open>rset_close\<close> stops with the whole count or just above the limit.\<close>

lemma close_loop_count:
  assumes rs: "rs_cmp rs = cmp" "rs_scope rs = scope" and k: "keeps_counters" and "0 \<le> counted_items r"
    and "invar (rsfd_priv r)" and "counted_items r \<le> rs_hits_limit rs + 1"
  shows "\<exists>r'. rset_close_loop rs f_read r = Some r' \<and>
    counted_items r' = min (counted_items r + count_from cmp scope (count_buf r) (contents (rsfd_priv r)))
                           (rs_hits_limit rs + 1)"
  using assms(4,5,6)
proof (induction "contents (rsfd_priv r)" arbitrary: r)
  case Nil
  then obtain r' where r': "f_read r = Some (r', None)" using read_nil [of r] by auto
  have "counted_items r' = counted_items r" using k r' by (simp add: keeps_counters_def)
  with r' Nil.hyps [symmetric] Nil.prems(3) show ?case
    by (subst rset_close_loop.simps) (auto simp: rset_default_read_def)
next
  case (Cons x xs)
  show ?case
  proof (cases "counted_items r \<le> rs_hits_limit rs")
    case False
    then have "rset_close_loop rs f_read r = Some r" by (subst rset_close_loop.simps) simp
    with False Cons.prems(3) count_from_nonneg [of cmp scope "count_buf r" "contents (rsfd_priv r)"] show ?thesis by auto
  next
    case True
    obtain r1 where r1: "rset_default_read rs f_read r = Some (r1, Some x)" "invar (rsfd_priv r1)"
        "contents (rsfd_priv r1) = xs" "0 \<le> counted_items r1" "counted_items r1 \<le> counted_items r + 1"
        "counted_items r1 + count_from cmp scope (count_buf r1) xs =
         counted_items r + count_from cmp scope (count_buf r) (x # xs)"
      using count_step [OF rs k Cons.prems(1,2) Cons.hyps(2) [symmetric]] by blast
    have "counted_items r1 \<le> rs_hits_limit rs + 1" using r1(5) True by simp
    from Cons.hyps(1) [of r1] this r1 obtain r' where "rset_close_loop rs f_read r1 = Some r'"
        "counted_items r' = min (counted_items r1 + count_from cmp scope (count_buf r1) xs) (rs_hits_limit rs + 1)"
      by auto
    with r1 True Cons.hyps(2) [symmetric] show ?thesis by (subst rset_close_loop.simps) simp
  qed
qed

end

end
