(* ===== verification/Rset_Keys.thy ===== *)
theory Rset_Keys
  imports Memory_Image Rset_Temp Rset_Bool Rset_Multi_And Rset_Hits
begin

text \<open>
  The key control of the server (\<^verbatim>\<open>index/kcontrol.c\<close>) and the result sets it runs: keys are \<^verbatim>\<open>struct it_key\<close>
  objects copied around as memory, compared with \<^verbatim>\<open>key_compare\<close>. \<open>key_image\<close> is the memory of such an object
  on a little-endian machine with 8 byte alignment (a 4 byte length, 4 bytes of padding, five \<^verbatim>\<open>zint\<close>s).
  The contracts of \<open>Rset_Base\<close> are interpreted here for temporary sets of these keys and for the
  \<^verbatim>\<open>not\<close>, \<^verbatim>\<open>or\<close> and \<^verbatim>\<open>and\<close> sets over them.
\<close>

section \<open>Key control\<close>

record 'k rset_key_control =
  kc_key_size :: nat
  kc_scope :: int
  kc_cmp :: "'k \<Rightarrow> 'k \<Rightarrow> int"
  kc_getseq :: "'k \<Rightarrow> zint option"
  kc_get_segment :: "('k \<Rightarrow> zint option) option"
  kc_ref_count :: int

definition key_image :: "it_key \<Rightarrow> byte list" where
  "key_image k = word_image 4 (word_of_int (key_len k) :: 32 word) @ replicate 4 0 @
     concat (map (word_image 8) (key_mem k))"

definition key_of_image :: "byte list \<Rightarrow> it_key" where
  "key_of_image bs = \<lparr>key_len = sint (word_of_image (take 4 bs) :: 32 word),
     key_mem = map (\<lambda>i. word_of_image (take 8 (drop (8 + 8 * i) bs))) [0..<IT_KEY_LEVEL_MAX]\<rparr>"

definition sizeof_it_key :: nat where
  "sizeof_it_key = 8 + 8 * IT_KEY_LEVEL_MAX"

definition zebra_key_control_create :: "bool \<Rightarrow> byte list rset_key_control" where
  "zebra_key_control_create m_segment_indexing =
     \<lparr>kc_key_size = sizeof_it_key,
      kc_scope = (if m_segment_indexing then 3 else 2),
      kc_cmp = (\<lambda>a b. key_cmp (key_of_image a) (key_of_image b)),
      kc_getseq = (\<lambda>a. key_get_seq (key_of_image a)),
      kc_get_segment = (if m_segment_indexing then Some (\<lambda>a. key_get_segment (key_of_image a)) else None),
      kc_ref_count = 1\<rparr>"

text \<open>\<^verbatim>\<open>my_inc\<close> and \<^verbatim>\<open>my_dec\<close>; the flag tells whether the control block was freed.\<close>

definition kc_inc :: "'k rset_key_control \<Rightarrow> 'k rset_key_control" where
  "kc_inc kc = kc\<lparr>kc_ref_count := kc_ref_count kc + 1\<rparr>"

definition kc_dec :: "'k rset_key_control \<Rightarrow> 'k rset_key_control \<times> bool" where
  "kc_dec kc = (let kc' = kc\<lparr>kc_ref_count := kc_ref_count kc - 1\<rparr> in (kc', kc_ref_count kc' = 0))"

lemma wf_key_mem:
  assumes "wf_key L k"
  obtains a b c d e where "key_mem k = [a, b, c, d, e]"
  using assms by (auto simp: wf_key_def IT_KEY_LEVEL_MAX_def length_Suc_conv numeral_eq_Suc)

lemma key_image_length: "wf_key L k \<Longrightarrow> length (key_image k) = sizeof_it_key"
  by (erule wf_key_mem) (simp add: key_image_def sizeof_it_key_def IT_KEY_LEVEL_MAX_def)

lemma key_image_back:
  assumes "wf_key L k"
  shows "key_of_image (key_image k) = k"
proof -
  obtain a b c d e where mem: "key_mem k = [a, b, c, d, e]" using wf_key_mem [OF assms] .
  have u: "[0..<IT_KEY_LEVEL_MAX] = [0, 1, 2, 3, 4]" by (simp add: IT_KEY_LEVEL_MAX_def upt_rec)
  have "key_len k \<in> {1..5}" using assms by (auto simp: wf_key_def IT_KEY_LEVEL_MAX_def)
  then have "key_len k = 1 \<or> key_len k = 2 \<or> key_len k = 3 \<or> key_len k = 4 \<or> key_len k = 5"
    by (simp add: atLeastAtMost_iff) presburger
  then have "sint (word_of_int (key_len k) :: 32 word) = key_len k" by auto
  then show ?thesis
    by (simp add: key_of_image_def key_image_def mem u word_image_back_full)
qed

section \<open>The contracts, for the keys of the server\<close>

definition image_ok :: "nat \<Rightarrow> byte list \<Rightarrow> bool" where
  "image_ok L bs \<longleftrightarrow> length bs = sizeof_it_key \<and> wf_key L (key_of_image bs)"

definition image_cmp :: "byte list \<Rightarrow> byte list \<Rightarrow> int" where
  "image_cmp a b = key_cmp (key_of_image a) (key_of_image b)"

lemma kc_cmp_image [simp]: "kc_cmp (zebra_key_control_create seg) = image_cmp"
  by (simp add: zebra_key_control_create_def image_cmp_def fun_eq_iff)

lemma key_image_ok: "wf_key L k \<Longrightarrow> image_ok L (key_image k)"
  by (simp add: image_ok_def key_image_length key_image_back)

lemma image_cmp_key: "wf_key L a \<Longrightarrow> wf_key L b \<Longrightarrow> image_cmp (key_image a) (key_image b) = key_cmp a b"
  by (simp add: image_cmp_def key_image_back)

interpretation img: key_cmp_order "image_ok L" image_cmp for L
  unfolding key_cmp_order_def image_ok_def image_cmp_def by (blast intro: itk.anti itk.ultra)

text \<open>The base class of the sets of a server without segment indexing: scope 2, no limit on hits.\<close>

definition server_base :: "byte list rset_base" where
  "server_base = \<lparr>rs_cmp = kc_cmp (zebra_key_control_create False),
     rs_scope = kc_scope (zebra_key_control_create False), rs_hits_limit = 0\<rparr>"

lemma server_base_simps [simp]: "rs_cmp server_base = image_cmp" "rs_scope server_base = 2" "rs_hits_limit server_base = 0"
  by (simp_all add: server_base_def) (simp add: zebra_key_control_create_def)

definition server_temp_read :: "'t option \<Rightarrow> (temp_info \<times> temp_rfd, byte list) rsfd \<Rightarrow>
    ((temp_info \<times> temp_rfd, byte list) rsfd, byte list, 't) rd_result" where
  "server_temp_read t = rset_default_read server_base (on_priv (temp_read sizeof_it_key t))"

definition server_temp_forward :: "'t option \<Rightarrow> (temp_info \<times> temp_rfd, byte list) rsfd \<Rightarrow> byte list \<Rightarrow>
    ((temp_info \<times> temp_rfd, byte list) rsfd, byte list, 't) rd_result" where
  "server_temp_forward t = rset_default_forward server_base (on_priv (temp_read sizeof_it_key t)) None"

interpretation tmp: rset_raw "image_ok L" image_cmp 2 "on_priv (temp_read sizeof_it_key t)" None
    "temp_contents sizeof_it_key t" temp_left "temp_ready (image_ok L) image_cmp sizeof_it_key t" for L t
  by (rule temp_raw) (simp_all add: img.key_cmp_order_axioms)

interpretation stmp: rset_reader "image_ok L" image_cmp 2 "server_temp_read t" "server_temp_forward t"
    "\<lambda>r. temp_contents sizeof_it_key t (rsfd_priv r)" "\<lambda>r. temp_left (rsfd_priv r)"
    "\<lambda>r. temp_ready (image_ok L) image_cmp sizeof_it_key t (rsfd_priv r)" for L t
  unfolding server_temp_read_def server_temp_forward_def by (rule tmp.default_reader) simp_all

text \<open>A temporary set filled with given keys and opened for reading.\<close>

definition fresh_rfd :: "'p \<Rightarrow> ('p, 'k) rsfd" where
  "fresh_rfd priv = \<lparr>rsfd_priv = priv, counted_items = 0, counted_buf = None\<rparr>"

definition server_temp :: "it_key list \<Rightarrow> (temp_info \<times> temp_rfd, byte list) rsfd option" where
  "server_temp keys = do {
     info \<leftarrow> temp_fill sizeof_it_key (map key_image keys);
     p \<leftarrow> temp_open False info;
     Some (fresh_rfd p)
   }"

lemma server_temp_spec:
  assumes wf: "\<forall>k \<in> set keys. wf_key L k" and srt: "sorted_wrt (\<lambda>a b. key_cmp a b \<le> 0) keys"
  shows "\<exists>r. server_temp keys = Some r \<and> temp_ready (image_ok L) image_cmp sizeof_it_key t (rsfd_priv r) \<and>
    temp_contents sizeof_it_key t (rsfd_priv r) = map (\<lambda>k. (key_image k, t)) keys \<and> counted_items r = 0"
proof -
  have len: "\<forall>k \<in> set (map key_image keys). length k = sizeof_it_key" using wf key_image_length by auto
  have sz: "0 < sizeof_it_key" "sizeof_it_key \<le> 4096" by (simp_all add: sizeof_it_key_def IT_KEY_LEVEL_MAX_def)
  obtain info p where p: "temp_fill sizeof_it_key (map key_image keys) = Some info" "temp_open False info = Some p"
      "temp_inv sizeof_it_key (temp_data (fst p)) p"
      "temp_contents sizeof_it_key t p = map (\<lambda>k. (k, t)) (map key_image keys)"
    using temp_fill_spec [OF sz len, of t] by blast
  have "sorted_wrt (\<lambda>a b. image_cmp (key_image a) (key_image b) \<le> 0) keys"
    using sorted_wrt_mono_rel [OF _ srt, of "\<lambda>a b. image_cmp (key_image a) (key_image b) \<le> 0"] wf image_cmp_key by metis
  then have "good_keys (image_ok L) image_cmp (temp_contents sizeof_it_key t p)"
    unfolding p(4) good_keys_def using wf key_image_ok by (auto simp: sorted_wrt_map)
  with p show ?thesis by (simp add: server_temp_def fresh_rfd_def temp_ready_def)
qed

text \<open>The boolean sets over temporary sets.\<close>

interpretation snot: rset_raw "image_ok L" image_cmp 2
    "on_priv (r_read_not image_cmp 2 (server_temp_read t) (server_temp_forward t))"
    "Some (rsbool_forward server_base (server_temp_read t) (server_temp_forward t))"
    "nt_contents image_cmp 2 (\<lambda>r. temp_contents sizeof_it_key t (rsfd_priv r))"
    "nt_work (\<lambda>r. temp_left (rsfd_priv r))"
    "nt_inv (image_ok L) image_cmp (\<lambda>r. temp_contents sizeof_it_key t (rsfd_priv r))
       (\<lambda>r. temp_ready (image_ok L) image_cmp sizeof_it_key t (rsfd_priv r))" for L t
  by (rule stmp.not_raw) simp_all

interpretation sor: rset_raw "image_ok L" image_cmp 2
    "on_priv (r_read_or image_cmp rst (server_temp_read t))"
    "Some (\<lambda>r u. on_priv (\<lambda>p. r_forward_or image_cmp 2 rst (server_temp_read t) (server_temp_forward t) p u) r)"
    "or_contents image_cmp rst (server_temp_read t)" "or_work (\<lambda>r. temp_left (rsfd_priv r))"
    "or_inv (image_ok L) image_cmp (\<lambda>r. temp_contents sizeof_it_key t (rsfd_priv r))
       (\<lambda>r. temp_ready (image_ok L) image_cmp sizeof_it_key t (rsfd_priv r))" for L t rst
  by (rule stmp.or_raw)

interpretation sand: rset_raw "image_ok L" image_cmp 2
    "on_priv (r_read_and image_cmp 2 None (server_temp_read t) (server_temp_forward t))"
    "Some (\<lambda>r u. on_priv (\<lambda>p. r_forward_and image_cmp 2 None (server_temp_read t) (server_temp_forward t) p u) r)"
    "stmp.and_contents t" "and_work (\<lambda>r. temp_left (rsfd_priv r))" "stmp.and_inv L t" for L t
  by (rule stmp.and_raw)

end
