(* ===== verification/Rset_Theorems.thy ===== *)
theory Rset_Theorems
  imports Rset_Keys
begin

text \<open>
  What the result sets promise a search: the boolean sets deliver the set difference, the merge and the
  common records of their children, each of them is again a result set in the sense of the contract (so
  they nest), the temporary set returns what was written to it, and closing a set leaves the right
  hit count. The children are any sets that keep the contract \<open>rset_reader\<close>; the witnesses take
  temporary sets of server keys.
\<close>

section \<open>Sample sets\<close>

definition sample_key :: "zint \<Rightarrow> zint \<Rightarrow> it_key" where
  "sample_key sysno seqno = \<lparr>key_len = 3, key_mem = [sysno, 1, seqno, 0, 0]\<rparr>"

lemma sample_key_wf [simp]: "wf_key 3 (sample_key a b)"
  by (simp add: sample_key_def wf_key_def IT_KEY_LEVEL_MAX_def)

lemma sample_key_cmp:
  "image_cmp (key_image (sample_key a b)) (key_image (sample_key c d)) =
   (if a = c then if b = d then 0 else if sint d < sint b then 1 else - 1 else if sint c < sint a then 3 else - 3)"
  unfolding image_cmp_key [OF sample_key_wf sample_key_wf] key_cmp_def key_compare_wf [OF sample_key_wf sample_key_wf]
  by (simp add: sample_key_def key_compare_loop.simps sless_iff_sint)

definition sample_left :: "it_key list" where
  "sample_left = [sample_key 1 4, sample_key 1 9, sample_key 3 1]"

definition sample_right :: "it_key list" where
  "sample_right = [sample_key 1 7, sample_key 2 2]"

abbreviation sample_inv :: "(temp_info \<times> temp_rfd, byte list) rsfd \<Rightarrow> bool" where
  "sample_inv r \<equiv> temp_ready (image_ok 3) image_cmp sizeof_it_key (None :: string option) (rsfd_priv r)"

abbreviation sample_contents :: "(temp_info \<times> temp_rfd, byte list) rsfd \<Rightarrow> (byte list \<times> string option) list" where
  "sample_contents r \<equiv> temp_contents sizeof_it_key None (rsfd_priv r)"

abbreviation sample_read :: "(temp_info \<times> temp_rfd, byte list) rsfd \<Rightarrow>
    ((temp_info \<times> temp_rfd, byte list) rsfd, byte list, string) rd_result" where
  "sample_read \<equiv> server_temp_read None"

abbreviation sample_forward :: "(temp_info \<times> temp_rfd, byte list) rsfd \<Rightarrow> byte list \<Rightarrow>
    ((temp_info \<times> temp_rfd, byte list) rsfd, byte list, string) rd_result" where
  "sample_forward \<equiv> server_temp_forward None"

lemma sample_sets:
  obtains l r where "server_temp sample_left = Some l" "sample_inv l" "counted_items l = 0"
    "sample_contents l = map (\<lambda>k. (key_image k, None)) sample_left"
    "server_temp sample_right = Some r" "sample_inv r" "sample_contents r = map (\<lambda>k. (key_image k, None)) sample_right"
proof -
  have c: "key_cmp (sample_key a b) (sample_key c d) =
      (if a = c then if b = d then 0 else if sint d < sint b then 1 else - 1 else if sint c < sint a then 3 else - 3)" for a b c d
    using sample_key_cmp [of a b c d] by (simp add: image_cmp_key [OF sample_key_wf sample_key_wf])
  have "sorted_wrt (\<lambda>a b. key_cmp a b \<le> 0) sample_left" "sorted_wrt (\<lambda>a b. key_cmp a b \<le> 0) sample_right"
    by (simp_all add: sample_left_def sample_right_def c)
  moreover have "\<forall>k \<in> set sample_left. wf_key 3 k" "\<forall>k \<in> set sample_right. wf_key 3 k"
    by (simp_all add: sample_left_def sample_right_def)
  ultimately show ?thesis
    using server_temp_spec [of sample_left 3 None] server_temp_spec [of sample_right 3 None] that by blast
qed

section \<open>The boolean sets\<close>

text \<open>C3: a \<^verbatim>\<open>not\<close> set opened on two result sets delivers, in order, exactly the keys of the left one whose
  record does not occur in the right one.\<close>

theorem not_set_reads_difference:
  assumes "rset_reader ok cmp scope rd fw contents work invar" and "invar l" and "invar r"
  shows "\<exists>p. rsbool_open rd l r = Some p \<and> rset_read_all (r_read_not cmp scope rd fw) p =
    Some (filter (\<lambda>x. \<not> (\<exists>y \<in> set (contents r). \<bar>cmp (fst x) (fst y)\<bar> < scope)) (contents l))"
proof -
  obtain p where p: "rsbool_open rd l r = Some p" "nt_inv ok cmp contents invar p"
      "nt_left contents p = contents l" "nt_right contents p = contents r"
    using rset_reader.rsbool_open_spec [OF assms] by blast
  have "rset_read_all (r_read_not cmp scope rd fw) p = Some (nt_contents cmp scope contents p)"
    using rset_reader.read_not_spec [OF assms(1)] p(2)
    by (intro reads_ahead_all [where work = "nt_work work" and invar = "nt_inv ok cmp contents invar"])
       (simp_all add: reads_ahead_def)
  with p show ?thesis by (simp add: nt_contents_def diff_keys_def)
qed

theorem not_set_reads_difference_witness:
  "\<exists>l r p. server_temp sample_left = Some l \<and> server_temp sample_right = Some r \<and>
    rsbool_open sample_read l r = Some p \<and>
    rset_read_all (r_read_not image_cmp 2 sample_read sample_forward) p = Some [(key_image (sample_key 3 1), None)]"
proof -
  obtain l r where s: "server_temp sample_left = Some l" "sample_inv l"
      "sample_contents l = map (\<lambda>k. (key_image k, None)) sample_left"
      "server_temp sample_right = Some r" "sample_inv r" "sample_contents r = map (\<lambda>k. (key_image k, None)) sample_right"
    using sample_sets by blast
  have "\<exists>p. rsbool_open sample_read l r = Some p \<and>
      rset_read_all (r_read_not image_cmp 2 sample_read sample_forward) p = Some [(key_image (sample_key 3 1), None)]"
    using not_set_reads_difference [OF stmp.rset_reader_axioms s(2,5)]
    by (simp add: s(3,6) sample_left_def sample_right_def sample_key_cmp)
  with s show ?thesis by blast
qed

text \<open>C2: an \<^verbatim>\<open>or\<close> set opened on any number of result sets delivers all their keys, each as often as the
  children have it, in ascending order, reported with the term of the set when it has one.\<close>

theorem or_set_reads_merge:
  assumes "rset_reader ok cmp scope rd fw contents work invar" and "\<forall>s \<in> set children. invar s"
  shows "\<exists>p xs. r_open_or cmp rd children = Some p \<and> rset_read_all (r_read_or cmp rs_term rd) p = Some xs \<and>
    sorted_wrt (\<lambda>x y. cmp (fst x) (fst y) \<le> 0) xs \<and>
    mset xs = mset (map (\<lambda>(k, t). (k, if rs_term \<noteq> None then rs_term else t)) (concat (map contents children)))"
proof -
  obtain p where p: "r_open_or cmp rd children = Some p" "or_inv ok cmp contents invar p"
      "or_pend contents p = mset (concat (map contents children))"
    using rset_reader.r_open_or_spec [OF assms] by blast
  have t: "or_term rs_term = (\<lambda>(k, t). (k, if rs_term \<noteq> None then rs_term else t))"
    by (simp add: or_term_def fun_eq_iff)
  show ?thesis
    using p rset_reader.or_read_all [OF assms(1) p(2), of rs_term] unfolding t [symmetric]
    by (auto simp: good_keys_def mset_map)
qed

theorem or_set_reads_merge_witness:
  "\<exists>l r p xs. server_temp sample_left = Some l \<and> server_temp sample_right = Some r \<and>
    r_open_or image_cmp sample_read [l, r] = Some p \<and>
    rset_read_all (r_read_or image_cmp (Some ''any'') sample_read) p = Some xs \<and>
    sorted_wrt (\<lambda>x y. image_cmp (fst x) (fst y) \<le> 0) xs \<and>
    mset xs = mset (map (\<lambda>k. (key_image k, Some ''any'')) (sample_left @ sample_right))"
proof -
  obtain l r where s: "server_temp sample_left = Some l" "sample_inv l"
      "sample_contents l = map (\<lambda>k. (key_image k, None)) sample_left"
      "server_temp sample_right = Some r" "sample_inv r" "sample_contents r = map (\<lambda>k. (key_image k, None)) sample_right"
    using sample_sets by blast
  have "\<forall>s \<in> set [l, r]. sample_inv s" using s by simp
  from or_set_reads_merge [OF stmp.rset_reader_axioms this, of "Some ''any''"]
  have "\<exists>p xs. r_open_or image_cmp sample_read [l, r] = Some p \<and>
    rset_read_all (r_read_or image_cmp (Some ''any'') sample_read) p = Some xs \<and>
    sorted_wrt (\<lambda>x y. image_cmp (fst x) (fst y) \<le> 0) xs \<and>
    mset xs = mset (map (\<lambda>k. (key_image k, Some ''any'')) (sample_left @ sample_right))"
    by (simp add: s(3,6) comp_def)
  with s show ?thesis by blast
qed

text \<open>C1: an \<^verbatim>\<open>and\<close> set without segments, opened on at least one result set, delivers in ascending order
  the keys of all children, each as often as its child has it, whose record occurs in every child; no
  matter how \<^verbatim>\<open>qsort\<close> arranges the children.\<close>

theorem and_set_reads_common_records:
  assumes "rset_reader ok cmp scope rd fw contents work invar" and "\<forall>s \<in> set children. invar s" and "children \<noteq> []"
    and "\<And>cp xs. mset (qsort cp xs) = mset xs"
  shows "\<exists>p xs. r_open_and qsort tot rd children = Some p \<and> rset_read_all (r_read_and cmp scope None rd fw) p = Some xs \<and>
    sorted_wrt (\<lambda>x y. cmp (fst x) (fst y) \<le> 0) xs \<and>
    mset xs = mset (filter (\<lambda>x. \<forall>s \<in> set children. \<exists>y \<in> set (contents s). \<bar>cmp (fst x) (fst y)\<bar> < scope)
                           (concat (map contents children)))"
  using rset_reader.and_set_read [where qsort = qsort and tot = tot, OF assms] by (auto simp: good_keys_def)

theorem and_set_reads_common_records_witness:
  "\<exists>l r p xs. server_temp sample_left = Some l \<and> server_temp sample_right = Some r \<and>
    r_open_and (\<lambda>cp xs. xs) (\<lambda>_. 0) sample_read [l, r] = Some p \<and>
    rset_read_all (r_read_and image_cmp 2 None sample_read sample_forward) p = Some xs \<and>
    sorted_wrt (\<lambda>x y. image_cmp (fst x) (fst y) \<le> 0) xs \<and>
    mset xs = mset (map (\<lambda>k. (key_image k, None)) [sample_key 1 4, sample_key 1 9, sample_key 1 7])"
proof -
  obtain l r where s: "server_temp sample_left = Some l" "sample_inv l"
      "sample_contents l = map (\<lambda>k. (key_image k, None)) sample_left"
      "server_temp sample_right = Some r" "sample_inv r" "sample_contents r = map (\<lambda>k. (key_image k, None)) sample_right"
    using sample_sets by blast
  have c: "\<forall>s \<in> set [l, r]. sample_inv s" "[l, r] \<noteq> []" using s by simp_all
  from and_set_reads_common_records [OF stmp.rset_reader_axioms c, of "\<lambda>cp xs. xs" "\<lambda>_. 0"]
  have "\<exists>p xs. r_open_and (\<lambda>cp xs. xs) (\<lambda>_. 0) sample_read [l, r] = Some p \<and>
    rset_read_all (r_read_and image_cmp 2 None sample_read sample_forward) p = Some xs \<and>
    sorted_wrt (\<lambda>x y. image_cmp (fst x) (fst y) \<le> 0) xs \<and>
    mset xs = mset (map (\<lambda>k. (key_image k, None)) [sample_key 1 4, sample_key 1 9, sample_key 1 7])"
    by (simp add: s(3,6) sample_left_def sample_right_def sample_key_cmp)
  with s show ?thesis by blast
qed

section \<open>Nesting\<close>

text \<open>C11: over children that keep the contract, the \<^verbatim>\<open>not\<close> set read and forwarded through the base class keeps
  it too: reads deliver its contents, and forwarding to a key loses no key of that record or a later
  one, keeps the order and returns.\<close>

theorem not_set_is_reader:
  assumes "rset_reader ok cmp scope rd fw contents work invar" and "rs_cmp rs = cmp" and "rs_scope rs = scope"
  shows "rset_reader ok cmp scope (rset_default_read rs (on_priv (r_read_not cmp scope rd fw)))
    (rset_default_forward rs (on_priv (r_read_not cmp scope rd fw)) (Some (rsbool_forward rs rd fw)))
    (\<lambda>r. nt_contents cmp scope contents (rsfd_priv r)) (\<lambda>r. nt_work work (rsfd_priv r))
    (\<lambda>r. nt_inv ok cmp contents invar (rsfd_priv r))"
  by (rule rset_raw.default_reader [OF rset_reader.not_raw [OF assms] assms(2,3)])

theorem not_set_is_reader_witness:
  "rset_reader (image_ok 3) image_cmp 2
    (rset_default_read server_base (on_priv (r_read_not image_cmp 2 sample_read sample_forward)))
    (rset_default_forward server_base (on_priv (r_read_not image_cmp 2 sample_read sample_forward))
      (Some (rsbool_forward server_base sample_read sample_forward)))
    (\<lambda>r. nt_contents image_cmp 2 sample_contents (rsfd_priv r)) (\<lambda>r. nt_work (\<lambda>r. temp_left (rsfd_priv r)) (rsfd_priv r))
    (\<lambda>r. nt_inv (image_ok 3) image_cmp sample_contents sample_inv (rsfd_priv r))"
  by (rule not_set_is_reader [OF stmp.rset_reader_axioms]) simp_all

text \<open>C10: the same for the \<^verbatim>\<open>or\<close> set, whose forward only promises not to lose keys of the record it is sent to
  or of later ones.\<close>

theorem or_set_is_reader:
  assumes "rset_reader ok cmp scope rd fw contents work invar" and "rs_cmp rs = cmp" and "rs_scope rs = scope"
  shows "rset_reader ok cmp scope (rset_default_read rs (on_priv (r_read_or cmp rs_term rd)))
    (rset_default_forward rs (on_priv (r_read_or cmp rs_term rd))
      (Some (\<lambda>r u. on_priv (\<lambda>p. r_forward_or cmp scope rs_term rd fw p u) r)))
    (\<lambda>r. or_contents cmp rs_term rd (rsfd_priv r)) (\<lambda>r. or_work work (rsfd_priv r))
    (\<lambda>r. or_inv ok cmp contents invar (rsfd_priv r))"
  by (rule rset_raw.default_reader [OF rset_reader.or_raw [OF assms(1)] assms(2,3)])

theorem or_set_is_reader_witness:
  "rset_reader (image_ok 3) image_cmp 2
    (rset_default_read server_base (on_priv (r_read_or image_cmp None sample_read)))
    (rset_default_forward server_base (on_priv (r_read_or image_cmp None sample_read))
      (Some (\<lambda>r u. on_priv (\<lambda>p. r_forward_or image_cmp 2 None sample_read sample_forward p u) r)))
    (\<lambda>r. or_contents image_cmp None sample_read (rsfd_priv r)) (\<lambda>r. or_work (\<lambda>r. temp_left (rsfd_priv r)) (rsfd_priv r))
    (\<lambda>r. or_inv (image_ok 3) image_cmp sample_contents sample_inv (rsfd_priv r))"
  by (rule or_set_is_reader [OF stmp.rset_reader_axioms]) simp_all

text \<open>C9: the same for the \<^verbatim>\<open>and\<close> set: forwarding abandons the record being delivered only when it lies before the
  target, and finds the next common record.\<close>

theorem and_set_is_reader:
  assumes "rset_reader ok cmp scope rd fw contents work invar" and "rs_cmp rs = cmp" and "rs_scope rs = scope"
  shows "rset_reader ok cmp scope (rset_default_read rs (on_priv (r_read_and cmp scope None rd fw)))
    (rset_default_forward rs (on_priv (r_read_and cmp scope None rd fw))
      (Some (\<lambda>r u. on_priv (\<lambda>p. r_forward_and cmp scope None rd fw p u) r)))
    (\<lambda>r. rset_reader.and_contents cmp scope rd fw (rsfd_priv r)) (\<lambda>r. and_work work (rsfd_priv r))
    (\<lambda>r. rset_reader.and_inv ok cmp scope contents invar (rsfd_priv r))"
  by (rule rset_raw.default_reader [OF rset_reader.and_raw [OF assms(1)] assms(2,3)])

theorem and_set_is_reader_witness:
  "rset_reader (image_ok 3) image_cmp 2
    (rset_default_read server_base (on_priv (r_read_and image_cmp 2 None sample_read sample_forward)))
    (rset_default_forward server_base (on_priv (r_read_and image_cmp 2 None sample_read sample_forward))
      (Some (\<lambda>r u. on_priv (\<lambda>p. r_forward_and image_cmp 2 None sample_read sample_forward p u) r)))
    (\<lambda>r. rset_reader.and_contents image_cmp 2 sample_read sample_forward (rsfd_priv r))
    (\<lambda>r. and_work (\<lambda>r. temp_left (rsfd_priv r)) (rsfd_priv r))
    (\<lambda>r. rset_reader.and_inv (image_ok 3) image_cmp 2 sample_contents sample_inv (rsfd_priv r))"
  by (rule and_set_is_reader [OF stmp.rset_reader_axioms]) simp_all

section \<open>Temporary sets\<close>

text \<open>C12: any sequence of keys of a size up to the window's written to a fresh temporary set, whether it stays in
  the window or spills to the file many times over, is read back unchanged after the set was closed and
  opened again.\<close>

theorem temp_set_roundtrip:
  assumes "0 < ks" and "ks \<le> 4096" and "\<forall>k \<in> set keys. length k = ks"
  shows "\<exists>info p. temp_fill ks keys = Some info \<and> temp_open False info = Some p \<and>
    rset_read_all (temp_read ks t) p = Some (map (\<lambda>k. (k, t)) keys)"
proof -
  obtain info p where p: "temp_fill ks keys = Some info" "temp_open False info = Some p"
      "temp_inv ks (temp_data (fst p)) p" "temp_contents ks t p = map (\<lambda>k. (k, t)) keys"
    using temp_fill_spec [OF assms, of t] by blast
  have "rset_read_all (temp_read ks t) p = Some (temp_contents ks t p)"
    by (rule reads_ahead_all [where work = temp_left and invar = "\<lambda>p. temp_inv ks (temp_data (fst p)) p"])
       (use temp_read_contents p(3) in \<open>auto simp: reads_ahead_def\<close>)
  with p show ?thesis by metis
qed

theorem temp_set_roundtrip_witness:
  "\<exists>info p. temp_fill 2 [[1, 2], [3, 4]] = Some info \<and> temp_open False info = Some p \<and>
    rset_read_all (temp_read 2 (None :: string option)) p = Some [([1, 2], None), ([3, 4], None)]"
  using temp_set_roundtrip [of 2 "[[1, 2], [3, 4]]" "None :: string option"] by simp

section \<open>Hit counts\<close>

text \<open>C13: draining a set through the base class leaves in the descriptor the number of classes of keys in the
  set, keys being in one class when they differ at most at level \<^verbatim>\<open>scope\<close>; and \<^verbatim>\<open>rset_close\<close> on a fresh
  descriptor stores that number exactly, without marking it approximate, whenever it does not exceed
  \<^verbatim>\<open>hits_limit\<close>. So only a difference above level \<^verbatim>\<open>scope\<close> is counted: for the keys of the indexes, with the
  levels record, section and sequence number, and the scope 2 of \<^verbatim>\<open>kcontrol.c\<close> the classes are the records, but a
  set whose keys all differ at most at level \<^verbatim>\<open>scope\<close> counts once, as it does when keys have the two levels record and
  sequence number and the scope is 2, where the comment in \<^verbatim>\<open>rset.h\<close> has the records counted.\<close>

theorem hit_count_above_scope:
  assumes "rset_raw ok cmp scope (on_priv f) f_forward contents work invar"
    and "rs_cmp rs = cmp" and "rs_scope rs = scope" and "invar (rsfd_priv r)" and "counted_items r = 0"
    and "n = int (card ((\<lambda>x. {y. ok y \<and> \<bar>cmp (fst x) y\<bar> \<le> scope}) ` set (contents (rsfd_priv r))))"
  shows "(\<exists>r'. rset_drain (rset_default_read rs (on_priv f)) r = Some (r', contents (rsfd_priv r)) \<and> counted_items r' = n) \<and>
    (n \<le> rs_hits_limit rs \<longrightarrow>
      (\<exists>r'. rset_close rs (on_priv f) pos hits_round (0, approx) r = Some (r', n, False))) \<and>
    (contents (rsfd_priv r) \<noteq> [] \<and> (\<forall>x \<in> set (contents (rsfd_priv r)). \<forall>y \<in> set (contents (rsfd_priv r)). \<bar>cmp (fst x) (fst y)\<bar> \<le> scope) \<longrightarrow>
      n = 1)"
proof -
  have k: "rset_raw.keeps_counters (on_priv f)"
    unfolding rset_raw.keeps_counters_def [OF assms(1)] by (auto simp: on_priv_def)
  have ord: "key_cmp_order ok cmp" using assms(1) by (simp add: rset_raw_def)
  have sc: "0 \<le> scope" using rset_raw.raw_scope_pos [OF assms(1)] by simp
  have "count_from cmp scope (rset_raw.count_buf r) (contents (rsfd_priv r)) = n"
    using key_cmp_order.count_from_class_count [OF ord rset_raw.raw_good [OF assms(1,4)] sc] assms(5,6)
    by (simp add: rset_raw.count_buf_def [OF assms(1)] key_cmp_order.class_count_def [OF ord]
          key_cmp_order.rec_class_def [OF ord] image_image)
  moreover have "0 \<le> n" using assms(6) by simp
  ultimately have c: "(\<exists>r'. rset_drain (rset_default_read rs (on_priv f)) r = Some (r', contents (rsfd_priv r)) \<and> counted_items r' = n) \<and>
    (n \<le> rs_hits_limit rs \<longrightarrow>
      (\<exists>r'. rset_close rs (on_priv f) pos hits_round (0, approx) r = Some (r', n, False)))"
    using rset_raw.drain_count [OF assms(1-3) k _ assms(4)] rset_raw.close_loop_count [OF assms(1-3) k _ assms(4)] assms(5)
    by (auto simp: rset_close_def Let_def)
  have "n = 1" if ne: "contents (rsfd_priv r) \<noteq> []"
    and le: "\<forall>x \<in> set (contents (rsfd_priv r)). \<forall>y \<in> set (contents (rsfd_priv r)). \<bar>cmp (fst x) (fst y)\<bar> \<le> scope"
  proof -
    obtain x where x: "x \<in> set (contents (rsfd_priv r))" using ne by (cases "contents (rsfd_priv r)") auto
    let ?C = "key_cmp_order.rec_class ok cmp scope"
    have okc: "ok (fst y)" if "y \<in> set (contents (rsfd_priv r))" for y
      by (rule good_keys_ok [OF rset_raw.raw_good [OF assms(1,4)] that])
    have "?C (fst y) = ?C (fst x)" if "y \<in> set (contents (rsfd_priv r))" for y
      by (rule iffD2 [OF key_cmp_order.rec_class_eq [OF ord okc [OF that] okc [OF x] sc]]) (rule bspec [OF bspec [OF le that] x])
    then have "(\<lambda>y. ?C (fst y)) ` set (contents (rsfd_priv r)) = (\<lambda>_. ?C (fst x)) ` set (contents (rsfd_priv r))"
      by (rule image_cong [OF refl])
    moreover have "(\<lambda>_. ?C (fst x)) ` set (contents (rsfd_priv r)) = {?C (fst x)}" by (rule image_constant [OF x])
    moreover have "n = int (card ((\<lambda>y. ?C (fst y)) ` set (contents (rsfd_priv r))))"
      unfolding key_cmp_order.rec_class_def [OF ord] by (rule assms(6))
    ultimately show ?thesis by simp
  qed
  then show ?thesis using c by blast
qed

theorem hit_count_above_scope_witness:
  "\<exists>l r'. server_temp sample_left = Some l \<and>
    rset_close (server_base\<lparr>rs_hits_limit := 100\<rparr>) (on_priv (temp_read sizeof_it_key (None :: string option)))
      (\<lambda>_. (0, 0)) 1000 (0, False) l = Some (r', 2, False)"
proof -
  obtain l where s: "server_temp sample_left = Some l" "sample_inv l" "counted_items l = 0"
      "sample_contents l = map (\<lambda>k. (key_image k, None)) sample_left"
    using sample_sets by blast
  define cl where "cl = (\<lambda>k. {y. image_ok 3 y \<and> \<bar>image_cmp (key_image k) y\<bar> \<le> 2})"
  have c: "cl (sample_key a b) = cl (sample_key c d) \<longleftrightarrow> a = c" for a b c d
    using img.rec_class_eq [of 3 "key_image (sample_key a b)" "key_image (sample_key c d)" 2]
    by (simp add: key_image_ok sample_key_cmp cl_def img.rec_class_def)
  have "cl ` set sample_left = {cl (sample_key 1 4), cl (sample_key 3 1)}"
    using c [of 1 9 1 4] by (simp add: sample_left_def)
  moreover have "cl (sample_key 1 4) \<noteq> cl (sample_key 3 1)" using c [of 1 4 3 1] by simp
  ultimately have "card (cl ` set sample_left) = 2" by simp
  moreover have "(\<lambda>x. {y. image_ok 3 y \<and> \<bar>image_cmp (fst x) y\<bar> \<le> 2}) ` set (sample_contents l) = cl ` set sample_left"
    unfolding s(4) cl_def set_map image_image fst_conv ..
  ultimately have n: "2 = int (card ((\<lambda>x. {y. image_ok 3 y \<and> \<bar>image_cmp (fst x) y\<bar> \<le> 2}) ` set (sample_contents l)))"
    by (simp only: of_nat_numeral)
  let ?rs = "server_base\<lparr>rs_hits_limit := 100\<rparr>" and ?f = "temp_read sizeof_it_key (None :: string option)"
  have "(\<exists>r'. rset_drain (rset_default_read ?rs (on_priv ?f)) l = Some (r', sample_contents l) \<and> counted_items r' = 2) \<and>
      (2 \<le> rs_hits_limit ?rs \<longrightarrow>
        (\<exists>r'. rset_close ?rs (on_priv ?f) (\<lambda>_. (0, 0)) 1000 (0, False) l = Some (r', 2, False))) \<and>
      (sample_contents l \<noteq> [] \<and> (\<forall>x \<in> set (sample_contents l). \<forall>y \<in> set (sample_contents l). \<bar>image_cmp (fst x) (fst y)\<bar> \<le> 2) \<longrightarrow> (2 :: int) = 1)"
    by (rule hit_count_above_scope [OF tmp.rset_raw_axioms _ _ s(2,3) n]) simp_all
  moreover have "2 \<le> rs_hits_limit ?rs" by simp
  ultimately show ?thesis using s(1) by blast
qed

text \<open>C14: rounding an estimated count returns, cuts off the least number of decimal digits that brings the
  leading part down to \<^verbatim>\<open>hits_round\<close>, and leaves a count that needs no rounding alone.\<close>

theorem hit_estimate_rounding:
  assumes "0 \<le> hits_round" and "0 \<le> est"
  shows "\<exists>j. round_hits hits_round est = Some (est - est mod 10 ^ j) \<and> est div 10 ^ j \<le> hits_round \<and>
    (j = 0 \<or> hits_round < est div 10 ^ (j - 1))"
  by (rule round_hits_spec [OF assms])

theorem hit_estimate_rounding_witness:
  "\<exists>j. round_hits 1000 1234567 = Some (1234567 - 1234567 mod 10 ^ j) \<and> (1234567 :: int) div 10 ^ j \<le> 1000 \<and>
    (j = 0 \<or> (1000 :: int) < 1234567 div 10 ^ (j - 1))"
  by (rule hit_estimate_rounding) simp_all

end
