(* ===== verification/Mfile.thy ===== *)
theory Mfile
  imports File_Io "HOL-Library.Monad_Syntax" "HOL-Library.Signed_Division"
begin

text \<open>
  Metafiles (\<^verbatim>\<open>bfile/mfile.c\<close>, \<^verbatim>\<open>bfile/mfile.h\<close>): a file of fixed size blocks spread over part files in the
  directories of an area, each directory with a limit on the bytes it may take. The file system is a
  map from paths to contents and an open descriptor is its offset. The directories are shared by the
  metafiles of an area, so they are passed beside the metafile; a part names its directory by number.

  Block numbers and sizes are 64 bit in C and unbounded integers here, so the properties bound them (\<open>mf_fits\<close> in
  \<open>Mfile_Theorems\<close>); where the code narrows to
  \<^verbatim>\<open>int\<close>, \<open>c_cast\<close> does. \<open>None\<close> is undefined behaviour or no return: an index outside the array of parts,
  a failing assertion, or locking a mutex that is already held. Opening a file fails only when it
  does not exist and is opened for reading; device errors of \<^verbatim>\<open>read\<close> and \<^verbatim>\<open>write\<close> are outside the model.
\<close>

section \<open>Data\<close>

type_synonym fsys = "string \<Rightarrow> byte list option"

definition MF_MIN_BLOCKS_CREAT :: int where "MF_MIN_BLOCKS_CREAT = 1"

definition MF_MAX_PARTS :: nat where "MF_MAX_PARTS = 28"

definition FILENAME_MAX :: nat where "FILENAME_MAX = 4096"

record mf_dir =
  dir_name :: string
  max_bytes :: int
  avail_bytes :: int

record part_file =
  pf_number :: int
  pf_top :: int
  pf_blocks :: int
  pf_bytes :: int
  pf_dir :: nat
  pf_path :: string
  pf_fd :: "nat option"

record meta_file =
  mf_name :: string
  mf_files :: "part_file list"
  mf_cur :: nat
  mf_isopen :: bool
  mf_blocksize :: int
  mf_min_bytes_creat :: int
  mf_wr :: bool
  mf_locked :: bool

record mf_area =
  ma_name :: string
  ma_dirs :: "mf_dir list"
  ma_mfiles :: "meta_file list"

definition c_cast :: "int \<Rightarrow> int" where
  "c_cast x = sint (word_of_int x :: 32 word)"

section \<open>Area definitions\<close>

definition skip_ws :: "string \<Rightarrow> string" where
  "skip_ws ad = dropWhile (\<lambda>c. c = CHR '' '' \<or> c = CHR 0x09) ad"

definition is_digit :: "char \<Rightarrow> bool" where
  "is_digit c \<longleftrightarrow> of_char CHR ''0'' \<le> (of_char c :: nat) \<and> (of_char c :: nat) \<le> of_char CHR ''9''"

text \<open>The path ends at a colon followed by a sign, a digit or the end of the string (\<^verbatim>\<open>strchr\<close> finds the
  terminating zero, too).\<close>

fun area_path :: "string \<Rightarrow> string \<times> string" where
  "area_path [] = ([], [])"
| "area_path (c # cs) =
     (if c = CHR '':'' \<and> (case cs of [] \<Rightarrow> True | d # _ \<Rightarrow> d = CHR ''+'' \<or> d = CHR ''-'' \<or> is_digit d)
      then ([], c # cs)
      else (case area_path cs of (p, rest) \<Rightarrow> (c # p, rest)))"

definition area_size :: "string \<Rightarrow> int" where
  "area_size ds = fold (\<lambda>d n. n * 10 + (of_char d - of_char CHR ''0'')) ds 0"

definition area_unit :: "char \<Rightarrow> int option" where
  "area_unit c =
     (if c = CHR ''B'' \<or> c = CHR ''b'' then Some 1
      else if c = CHR ''K'' \<or> c = CHR ''k'' then Some 1024
      else if c = CHR ''M'' \<or> c = CHR ''m'' then Some 1048576
      else if c = CHR ''G'' \<or> c = CHR ''g'' then Some 1073741824
      else None)"

text \<open>One directory of a definition: \<open>Inl None\<close> at its end, \<open>Inl (Some _)\<close> is the \<^verbatim>\<open>return -1\<close>. \<open>is_abspath\<close>
  stands for \<^verbatim>\<open>yaz_is_abspath\<close>.\<close>

definition scan_areadef_item :: "(string \<Rightarrow> bool) \<Rightarrow> string option \<Rightarrow> string \<Rightarrow> string option + (mf_dir \<times> string)" where
  "scan_areadef_item is_abspath base ad0 =
     (let ad = skip_ws ad0 in
      if ad = [] then Inl None
      else
        (let prefix = (if \<not> is_abspath ad \<and> base \<noteq> None then the base @ ''/'' else []);
             (path, ad1) = area_path ad;
             dirname = take (max FILENAME_MAX (length prefix)) (prefix @ path)
         in case ad1 of
              [] \<Rightarrow> Inl (Some ''Missing colon after path'')
            | _ # ad2 \<Rightarrow>
                if dirname = [] then Inl (Some ''Empty path'')
                else
                  (let ad3 = skip_ws ad2;
                       neg = (ad3 \<noteq> [] \<and> hd ad3 = CHR ''-'');
                       ad4 = (if ad3 \<noteq> [] \<and> (hd ad3 = CHR ''-'' \<or> hd ad3 = CHR ''+'') then tl ad3 else ad3);
                       digits = takeWhile is_digit ad4;
                       ad5 = dropWhile is_digit ad4
                   in if digits = [] then Inl (Some ''Missing size after path'')
                      else case ad5 of
                             [] \<Rightarrow> Inl (Some ''Missing unit'')
                           | u # ad6 \<Rightarrow>
                               (case area_unit u of
                                  None \<Rightarrow> Inl (Some ''Illegal unit'')
                                | Some multi \<Rightarrow>
                                    (let n = (if neg then - 1 else 1) * area_size digits * multi
                                     in Inr (\<lparr>dir_name = dirname, max_bytes = n, avail_bytes = n\<rparr>, ad6))))))"

lemma area_path_append: "area_path ad = (p, r) \<Longrightarrow> p @ r = ad"
  by (induction ad arbitrary: p r) (auto split: if_splits prod.splits)

lemma skip_ws_length: "length (skip_ws ad) \<le> length ad"
  by (simp add: skip_ws_def length_dropWhile_le)

lemma scan_areadef_item_shorter:
  assumes "scan_areadef_item is_abspath base ad = Inr (d, rest)"
  shows "length rest < length ad"
proof -
  obtain path ad1 where p: "area_path (skip_ws ad) = (path, ad1)" by fastforce
  then have "length ad1 \<le> length ad" using area_path_append [OF p] skip_ws_length [of ad] by (metis le_trans le_add2 length_append)
  moreover obtain c ad2 where "ad1 = c # ad2" using assms p by (cases ad1) (auto simp: scan_areadef_item_def Let_def split: if_splits)
  moreover define ad3 where "ad3 = skip_ws ad2"
  moreover define ad4 where "ad4 = (if ad3 \<noteq> [] \<and> (hd ad3 = CHR ''-'' \<or> hd ad3 = CHR ''+'') then tl ad3 else ad3)"
  moreover have "length ad4 \<le> length ad2" using skip_ws_length [of ad2] by (auto simp: ad4_def ad3_def)
  moreover have "length (dropWhile is_digit ad4) \<le> length ad4" by (rule length_dropWhile_le)
  moreover obtain u where "dropWhile is_digit ad4 = u # rest"
    using assms p calculation(2-4)
    by (auto simp: scan_areadef_item_def Let_def split: if_splits list.splits option.splits)
  ultimately show ?thesis by simp
qed

function scan_areadef_loop :: "(string \<Rightarrow> bool) \<Rightarrow> string option \<Rightarrow> string \<Rightarrow> mf_dir list option" where
  "scan_areadef_loop is_abspath base ad =
     (case scan_areadef_item is_abspath base ad of
        Inl None \<Rightarrow> Some []
      | Inl (Some _) \<Rightarrow> None
      | Inr (d, rest) \<Rightarrow> map_option (Cons d) (scan_areadef_loop is_abspath base rest))"
  by pat_completeness auto
termination
  by (relation "measure (\<lambda>(i, b, ad). length ad)") (auto dest: scan_areadef_item_shorter)

declare scan_areadef_loop.simps [simp del]

definition scan_areadef :: "(string \<Rightarrow> bool) \<Rightarrow> string option \<Rightarrow> string option \<Rightarrow> mf_dir list option" where
  "scan_areadef is_abspath ad base =
     scan_areadef_loop is_abspath base (case ad of None \<Rightarrow> ''.:-1b'' | Some s \<Rightarrow> s)"

section \<open>Positioning\<close>

definition nth_opt :: "'a list \<Rightarrow> nat \<Rightarrow> 'a option" where
  "nth_opt xs i = (if i < length xs then Some (xs ! i) else None)"

text \<open>The part that holds a block, searched from the first part on, with the number of blocks before it.\<close>

fun position_search :: "part_file list \<Rightarrow> int \<Rightarrow> nat \<Rightarrow> int \<Rightarrow> nat \<times> int" where
  "position_search (f # g # fs) pos c off =
     (if pf_top f < pos then position_search (g # fs) pos (c + 1) (off + pf_blocks f) else (c, off))"
| "position_search fs pos c off = (c, off)"

definition position_part :: "meta_file \<Rightarrow> int \<Rightarrow> (nat \<times> int) option" where
  "position_part mf pos =
     (let c = mf_cur mf; files = mf_files mf in
      if c < length files then
        (if 0 < c \<and> pos \<le> pf_top (files ! (c - 1)) \<or> c + 1 < length files \<and> pf_top (files ! c) < pos
         then Some (position_search files pos 0 0)
         else Some (c, if c = 0 then 0 else pf_top (files ! (c - 1)) + 1))
      else None)"

text \<open>\<^verbatim>\<open>open\<close> creates a missing file when writing and fails on it otherwise.\<close>

definition part_open :: "fsys \<Rightarrow> bool \<Rightarrow> part_file \<Rightarrow> (fsys \<times> part_file) option" where
  "part_open fs wr f =
     (case pf_fd f of
        Some _ \<Rightarrow> Some (fs, f)
      | None \<Rightarrow>
          (case fs (pf_path f) of
             Some _ \<Rightarrow> Some (fs, f\<lparr>pf_fd := Some 0\<rparr>)
           | None \<Rightarrow> if wr then Some (fs(pf_path f \<mapsto> []), f\<lparr>pf_fd := Some 0\<rparr>) else None))"

definition set_part :: "meta_file \<Rightarrow> nat \<Rightarrow> part_file \<Rightarrow> meta_file" where
  "set_part mf c f = mf\<lparr>mf_files := (mf_files mf)[c := f]\<rparr>"

definition file_position :: "fsys \<Rightarrow> meta_file \<Rightarrow> int \<Rightarrow> int \<Rightarrow> (int \<times> fsys \<times> meta_file) option" where
  "file_position fs mf pos offset =
     do { (c, off) \<leftarrow> position_part mf pos;
          let f = mf_files mf ! c;
          case part_open fs (mf_wr mf) f of
            None \<Rightarrow> Some (if off = 0 then - 2 else - 1, fs, mf)
          | Some (fs', f') \<Rightarrow>
              (let ps = pos - off;
                   sk = ps * mf_blocksize mf + offset
               in if sk < 0 then Some (- 1, fs', set_part mf c f')
                  else Some (ps, fs', (set_part mf c (f'\<lparr>pf_fd := Some (nat sk)\<rparr>))\<lparr>mf_cur := c\<rparr>)) }"

section \<open>Reading\<close>

text \<open>\<^verbatim>\<open>read\<close> and \<^verbatim>\<open>write\<close> on the descriptor of the current part, at its offset. The callers of \<open>cur_write\<close> test
  \<open>mf_wr\<close> first, since \<^verbatim>\<open>write\<close> fails on a descriptor that was opened for reading.\<close>

definition cur_read :: "fsys \<Rightarrow> meta_file \<Rightarrow> nat \<Rightarrow> (byte list \<times> meta_file) option" where
  "cur_read fs mf n =
     do { f \<leftarrow> nth_opt (mf_files mf) (mf_cur mf);
          off \<leftarrow> pf_fd f;
          content \<leftarrow> fs (pf_path f);
          let bs = file_pread content off n;
          Some (bs, set_part mf (mf_cur mf) (f\<lparr>pf_fd := Some (off + length bs)\<rparr>)) }"

definition cur_write :: "fsys \<Rightarrow> meta_file \<Rightarrow> byte list \<Rightarrow> (fsys \<times> meta_file) option" where
  "cur_write fs mf bs =
     do { f \<leftarrow> nth_opt (mf_files mf) (mf_cur mf);
          off \<leftarrow> pf_fd f;
          content \<leftarrow> fs (pf_path f);
          Some (fs(pf_path f \<mapsto> file_pwrite content off bs),
                set_part mf (mf_cur mf) (f\<lparr>pf_fd := Some (off + length bs)\<rparr>)) }"

definition mf_lock :: "meta_file \<Rightarrow> meta_file option" where
  "mf_lock mf = (if mf_locked mf then None else Some (mf\<lparr>mf_locked := True\<rparr>))"

definition mf_unlock :: "meta_file \<Rightarrow> meta_file" where
  "mf_unlock mf = mf\<lparr>mf_locked := False\<rparr>"

text \<open>The result is the return value, the bytes stored to the start of \<^verbatim>\<open>buf\<close>, and the new state. A
  negative length given to \<^verbatim>\<open>read\<close> or \<^verbatim>\<open>write\<close> is outside the model.\<close>

definition io_length :: "meta_file \<Rightarrow> int \<Rightarrow> nat option" where
  "io_length mf nbytes =
     (let n = (if nbytes \<noteq> 0 then nbytes else mf_blocksize mf) in if n < 0 then None else Some (nat n))"

definition mf_read :: "fsys \<Rightarrow> meta_file \<Rightarrow> int \<Rightarrow> int \<Rightarrow> int \<Rightarrow> (int \<times> byte list \<times> fsys \<times> meta_file) option" where
  "mf_read fs mf0 no offset nbytes =
     do { mf1 \<leftarrow> mf_lock mf0;
          (rd, fs, mf) \<leftarrow> file_position fs mf1 no offset;
          if rd = - 2 then Some (0, [], fs, mf_unlock mf)
          else if rd < 0 then Some (- 1, [], fs, mf)
          else
            do { toread \<leftarrow> io_length mf nbytes;
                 (bs, mf) \<leftarrow> cur_read fs mf toread;
                 Some (if length bs < toread then 0 else 1, bs, fs, mf_unlock mf) } }"

section \<open>Writing\<close>

fun find_dir :: "(mf_dir \<Rightarrow> bool) \<Rightarrow> mf_dir list \<Rightarrow> nat \<Rightarrow> nat option" where
  "find_dir ok [] i = None"
| "find_dir ok (d # ds) i = (if ok d then Some i else find_dir ok ds (i + 1))"

definition dir_has_room :: "int \<Rightarrow> mf_dir \<Rightarrow> bool" where
  "dir_has_room needed d \<longleftrightarrow> \<not> (0 \<le> max_bytes d \<and> avail_bytes d < needed)"

definition take_bytes :: "mf_dir list \<Rightarrow> nat \<Rightarrow> int \<Rightarrow> mf_dir list" where
  "take_bytes dirs i n = dirs[i := (dirs ! i)\<lparr>avail_bytes := avail_bytes (dirs ! i) - n\<rparr>]"

definition grow_part :: "meta_file \<Rightarrow> int \<Rightarrow> meta_file" where
  "grow_part mf nblocks =
     (let f = mf_files mf ! mf_cur mf in
      set_part mf (mf_cur mf)
        (f\<lparr>pf_blocks := pf_blocks f + nblocks, pf_bytes := pf_bytes f + nblocks * mf_blocksize mf\<rparr>))"

fun dec_digits :: "nat \<Rightarrow> string" where
  "dec_digits n = (if n < 10 then [char_of (48 + n)] else dec_digits (n div 10) @ [char_of (48 + n mod 10)])"

declare dec_digits.simps [simp del]

definition dec_string :: "int \<Rightarrow> string" where
  "dec_string i = (if i < 0 then ''-'' else []) @ dec_digits (nat \<bar>i\<bar>)"

definition part_path :: "string \<Rightarrow> string \<Rightarrow> int \<Rightarrow> string" where
  "part_path dir name number = take (FILENAME_MAX - 1) (dir @ ''/'' @ name @ ''-'' @ dec_string number @ ''.mf'')"

definition prev_top :: "meta_file \<Rightarrow> int \<Rightarrow> int" where
  "prev_top mf none = (if mf_cur mf = 0 then none else pf_top (mf_files mf ! (mf_cur mf - 1)))"

text \<open>The dummy byte that caps a part off at the size its directory has room for.\<close>

definition cap_off :: "fsys \<Rightarrow> mf_dir list \<Rightarrow> meta_file \<Rightarrow> (int \<times> fsys \<times> mf_dir list \<times> meta_file) option" where
  "cap_off fs dirs mf =
     do { f \<leftarrow> nth_opt (mf_files mf) (mf_cur mf);
          d \<leftarrow> nth_opt dirs (pf_dir f);
          let nblocks = c_cast (avail_bytes d sdiv mf_blocksize mf);
          if 0 < nblocks then
            do { (ps, fs, mf) \<leftarrow> file_position fs mf (prev_top mf 0 + pf_blocks f + nblocks - 1) 0;
                 if ps < 0 \<or> \<not> mf_wr mf then Some (- 1, fs, dirs, mf)
                 else
                   do { (fs, mf) \<leftarrow> cur_write fs mf [0xff];
                        f \<leftarrow> nth_opt (mf_files mf) (mf_cur mf);
                        Some (0, fs, take_bytes dirs (pf_dir f) (nblocks * mf_blocksize mf), grow_part mf nblocks) } }
          else Some (0, fs, dirs, mf) }"

text \<open>The next part, in the first directory with room for the blocks needed. The array of parts has
  \<^verbatim>\<open>MF_MAX_PARTS\<close> entries and its bound is not checked; only the last part grows.\<close>

definition add_part :: "mf_dir list \<Rightarrow> meta_file \<Rightarrow> nat \<Rightarrow> meta_file option" where
  "add_part dirs mf dp =
     (let f = mf_files mf ! mf_cur mf;
          mf1 = set_part mf (mf_cur mf) (f\<lparr>pf_top := prev_top mf (- 1) + pf_blocks f\<rparr>);
          number = pf_number f + 1;
          new = \<lparr>pf_number = number, pf_top = - 1, pf_blocks = 0, pf_bytes = 0, pf_dir = dp,
                 pf_path = part_path (dir_name (dirs ! dp)) (mf_name mf) number, pf_fd = None\<rparr>
      in if mf_cur mf + 1 \<noteq> length (mf_files mf) \<or> MF_MAX_PARTS \<le> length (mf_files mf) then None
         else Some (mf1\<lparr>mf_files := mf_files mf1 @ [new], mf_cur := mf_cur mf + 1\<rparr>))"

partial_function (option) mf_grow ::
  "fsys \<Rightarrow> mf_dir list \<Rightarrow> meta_file \<Rightarrow> int \<Rightarrow> int \<Rightarrow> int \<Rightarrow> (int \<times> fsys \<times> mf_dir list \<times> meta_file) option" where
  "mf_grow fs dirs mf no offset ps =
     do { f \<leftarrow> nth_opt (mf_files mf) (mf_cur mf);
          d \<leftarrow> nth_opt dirs (pf_dir f);
          let needed = (ps - pf_blocks f + 1) * mf_blocksize mf;
          if ps < pf_blocks f then Some (0, fs, dirs, mf)
          else if \<not> (0 \<le> max_bytes d \<and> avail_bytes d < needed) then
            mf_grow fs (if 0 \<le> max_bytes d then take_bytes dirs (pf_dir f) needed else dirs)
              (grow_part mf (ps - pf_blocks f + 1)) no offset ps
          else
            do { (r, fs, dirs, mf) \<leftarrow> cap_off fs dirs mf;
                 if r < 0 then Some (- 1, fs, dirs, mf)
                 else case find_dir (dir_has_room needed) dirs 0 of
                        None \<Rightarrow> Some (- 1, fs, dirs, mf)
                      | Some dp \<Rightarrow>
                          do { mf \<leftarrow> add_part dirs mf dp;
                               (ps, fs, mf) \<leftarrow> file_position fs mf no offset;
                               if ps < 0 then Some (- 1, fs, dirs, mf)
                               else mf_grow fs dirs mf no offset ps } } }"

definition mf_write ::
  "fsys \<Rightarrow> mf_dir list \<Rightarrow> meta_file \<Rightarrow> int \<Rightarrow> int \<Rightarrow> int \<Rightarrow> byte list \<Rightarrow> (int \<times> fsys \<times> mf_dir list \<times> meta_file) option" where
  "mf_write fs dirs mf0 no offset nbytes buf =
     do { mf1 \<leftarrow> mf_lock mf0;
          (ps, fs, mf) \<leftarrow> file_position fs mf1 no offset;
          if ps < 0 then Some (- 1, fs, dirs, mf_unlock mf)
          else
            do { (r, fs, dirs, mf) \<leftarrow> mf_grow fs dirs mf no offset ps;
                 if r < 0 \<or> \<not> mf_wr mf then Some (- 1, fs, dirs, mf_unlock mf)
                 else
                   do { towrite \<leftarrow> io_length mf nbytes;
                        (fs, mf) \<leftarrow> (if length buf < towrite then None else cur_write fs mf (take towrite buf));
                        Some (0, fs, dirs, mf_unlock mf) } } }"

section \<open>Opening and closing\<close>

definition new_metafile :: "mf_dir list \<Rightarrow> string \<Rightarrow> int \<Rightarrow> meta_file option" where
  "new_metafile dirs name block_size =
     (case find_dir (dir_has_room (MF_MIN_BLOCKS_CREAT * block_size)) dirs 0 of
        None \<Rightarrow> None
      | Some dp \<Rightarrow>
          Some \<lparr>mf_name = name,
                mf_files = [\<lparr>pf_number = 0, pf_top = - 1, pf_blocks = 0, pf_bytes = 0, pf_dir = dp,
                             pf_path = part_path (dir_name (dirs ! dp)) name 0, pf_fd = None\<rparr>],
                mf_cur = 0, mf_isopen = False, mf_blocksize = block_size,
                mf_min_bytes_creat = MF_MIN_BLOCKS_CREAT * block_size, mf_wr = False, mf_locked = False\<rparr>)"

definition round_bytes :: "int \<Rightarrow> part_file \<Rightarrow> part_file" where
  "round_bytes block_size f =
     (let r = pf_bytes f smod block_size;
          b = (if r \<noteq> 0 then pf_bytes f + (block_size - r) else pf_bytes f)
      in f\<lparr>pf_bytes := b, pf_blocks := c_cast (b sdiv block_size)\<rparr>)"

text \<open>The last loop of \<^verbatim>\<open>mf_open\<close>: the number of blocks of each part and the last block it holds; the last
  part is open ended.\<close>

fun set_tops :: "int \<Rightarrow> int \<Rightarrow> part_file list \<Rightarrow> part_file list" where
  "set_tops block_size prev [] = []"
| "set_tops block_size prev (f # fs) =
     (let blocks = c_cast (pf_bytes f sdiv block_size);
          top = (if fs = [] then - 1 else prev + blocks)
      in f\<lparr>pf_blocks := blocks, pf_top := top\<rparr> # set_tops block_size top fs)"

definition start_metafile :: "int \<Rightarrow> bool \<Rightarrow> meta_file \<Rightarrow> meta_file" where
  "start_metafile block_size wflag mf =
     mf\<lparr>mf_blocksize := block_size, mf_min_bytes_creat := MF_MIN_BLOCKS_CREAT * block_size, mf_wr := wflag,
        mf_cur := 0, mf_isopen := True, mf_files := set_tops block_size (- 1) (mf_files mf)\<rparr>"

fun replace_metafile :: "meta_file \<Rightarrow> meta_file list \<Rightarrow> meta_file list" where
  "replace_metafile mf [] = []"
| "replace_metafile mf (m # ms) = (if mf_name m = mf_name mf then mf # ms else m # replace_metafile mf ms)"

text \<open>\<open>Some None\<close> is the null pointer of a metafile that is open already or does not fit; a block size of
  zero is a division by zero. The metafile is found by its name again when the area is used later.\<close>

definition mf_open :: "mf_area \<Rightarrow> string \<Rightarrow> int \<Rightarrow> bool \<Rightarrow> (meta_file \<times> mf_area) option option" where
  "mf_open ma name block_size wflag =
     (if block_size = 0 then None
      else
        (case List.find (\<lambda>m. mf_name m = name) (ma_mfiles ma) of
           Some m \<Rightarrow>
             if mf_isopen m then Some None
             else
               (let mf = start_metafile block_size wflag (m\<lparr>mf_files := map (round_bytes block_size) (mf_files m)\<rparr>)
                in Some (Some (mf, ma\<lparr>ma_mfiles := replace_metafile mf (ma_mfiles ma)\<rparr>)))
         | None \<Rightarrow>
             (case new_metafile (ma_dirs ma) name block_size of
                None \<Rightarrow> Some None
              | Some m \<Rightarrow>
                  (let mf = start_metafile block_size wflag m
                   in Some (Some (mf, ma\<lparr>ma_mfiles := mf # ma_mfiles ma\<rparr>))))))"

definition mf_close :: "meta_file \<Rightarrow> meta_file option" where
  "mf_close mf =
     (if mf_isopen mf
      then Some (mf\<lparr>mf_files := map (\<lambda>f. f\<lparr>pf_fd := None\<rparr>) (mf_files mf), mf_isopen := False\<rparr>)
      else None)"

definition unlink_file :: "string \<Rightarrow> fsys \<Rightarrow> fsys" where
  "unlink_file path fs = fs(path := None)"

text \<open>Resetting asserts that no metafile is open.\<close>

definition mf_reset :: "fsys \<Rightarrow> mf_area option \<Rightarrow> bool \<Rightarrow> (fsys \<times> mf_area option) option" where
  "mf_reset fs area unlink_flag =
     (case area of
        None \<Rightarrow> Some (fs, None)
      | Some ma \<Rightarrow>
          if \<exists>m\<in>set (ma_mfiles ma). mf_isopen m then None
          else Some (if unlink_flag
                     then fold (\<lambda>m. fold (\<lambda>f. unlink_file (pf_path f)) (mf_files m)) (ma_mfiles ma) fs
                     else fs,
                     Some (ma\<lparr>ma_mfiles := []\<rparr>)))"

definition mf_destroy :: "fsys \<Rightarrow> mf_area option \<Rightarrow> fsys option" where
  "mf_destroy fs area = map_option fst (mf_reset fs area False)"

definition mf_area_directory_stat :: "mf_area \<Rightarrow> nat \<Rightarrow> (string \<times> int \<times> int) option" where
  "mf_area_directory_stat ma no =
     (case nth_opt (ma_dirs ma) no of
        None \<Rightarrow> None
      | Some d \<Rightarrow> Some (dir_name d, max_bytes d - avail_bytes d, max_bytes d))"

section \<open>Areas\<close>

definition cmp_part_file :: "part_file \<Rightarrow> part_file \<Rightarrow> int" where
  "cmp_part_file p1 p2 =
     (let d = pf_number p1 - pf_number p2 in if 0 < d then 1 else if d < 0 then - 1 else 0)"

definition is_space :: "char \<Rightarrow> bool" where
  "is_space c \<longleftrightarrow> c = CHR '' '' \<or> 9 \<le> (of_char c :: nat) \<and> (of_char c :: nat) \<le> 13"

text \<open>\<^verbatim>\<open>atoi\<close>; a number that does not fit is undefined.\<close>

definition atoi :: "string \<Rightarrow> int option" where
  "atoi s =
     (let s1 = dropWhile is_space s;
          neg = (s1 \<noteq> [] \<and> hd s1 = CHR ''-'');
          s2 = (if s1 \<noteq> [] \<and> (hd s1 = CHR ''-'' \<or> hd s1 = CHR ''+'') then tl s1 else s1)
      in c_int ((if neg then - 1 else 1) * area_size (takeWhile is_digit s2)))"

text \<open>The metafile a directory entry belongs to and its part number: \<open>Some None\<close> when the entry is skipped.
  The last hyphen separates the two. A one character name makes the code read before the string.\<close>

definition last_hyphen :: "string \<Rightarrow> nat option" where
  "last_hyphen s =
     (if CHR ''-'' \<in> set s then Some (length s - 1 - length (takeWhile (\<lambda>c. c \<noteq> CHR ''-'') (rev s))) else None)"

definition part_name :: "bool \<Rightarrow> string \<Rightarrow> (string \<times> int) option option" where
  "part_name only_shadow_files d_name =
     (case last_hyphen d_name of
        None \<Rightarrow> Some None
      | Some cp \<Rightarrow>
          if hd d_name = CHR ''.'' \<or> hd d_name = CHR ''-'' then Some None
          else if length d_name < 5 \<or> drop (length d_name - 3) d_name \<noteq> ''.mf'' then Some None
          else
            do { number \<leftarrow> atoi (drop (cp + 1) d_name);
                 if cp < 2 then None
                 else if only_shadow_files \<longleftrightarrow> d_name ! (cp - 2) = CHR ''-''
                      then Some (Some (take cp d_name, number))
                      else Some None })"

text \<open>A part joins the metafile of its name or starts a new one at the head of the list. Fields that \<^verbatim>\<open>mf_open\<close>
  sets are not initialised in C.\<close>

fun add_to_metafiles :: "string \<Rightarrow> part_file \<Rightarrow> meta_file list \<Rightarrow> meta_file list option option" where
  "add_to_metafiles name f [] = Some None"
| "add_to_metafiles name f (m # ms) =
     (if mf_name m = name
      then (if length (mf_files m) < MF_MAX_PARTS
            then Some (Some (m\<lparr>mf_files := mf_files m @ [f]\<rparr> # ms)) else None)
      else map_option (map_option (Cons m)) (add_to_metafiles name f ms))"

definition join_part :: "string \<Rightarrow> part_file \<Rightarrow> meta_file list \<Rightarrow> meta_file list option" where
  "join_part name f ms =
     map_option
       (\<lambda>r. case r of
              Some ms' \<Rightarrow> ms'
            | None \<Rightarrow> \<lparr>mf_name = name, mf_files = [f], mf_cur = 0, mf_isopen = False, mf_blocksize = 0,
                       mf_min_bytes_creat = 0, mf_wr = False, mf_locked = False\<rparr> # ms)
       (add_to_metafiles name f ms)"

text \<open>One entry of directory \<open>i\<close>. \<open>Some None\<close> is the null pointer of a file that cannot be opened.\<close>

definition init_entry :: "fsys \<Rightarrow> bool \<Rightarrow> nat \<Rightarrow> string \<Rightarrow> mf_area \<Rightarrow> mf_area option option" where
  "init_entry fs only_shadow_files i d_name ma =
     do { r \<leftarrow> part_name only_shadow_files d_name;
          case r of
            None \<Rightarrow> Some (Some ma)
          | Some (metaname, number) \<Rightarrow>
              (let d = ma_dirs ma ! i;
                   path = take (FILENAME_MAX - 1) (dir_name d @ ''/'' @ d_name)
               in case fs path of
                    None \<Rightarrow> Some None
                  | Some content \<Rightarrow>
                      do { let bytes = int (length content);
                           ms \<leftarrow> join_part metaname
                                   \<lparr>pf_number = number, pf_top = 0, pf_blocks = 0, pf_bytes = bytes, pf_dir = i,
                                    pf_path = path, pf_fd = None\<rparr> (ma_mfiles ma);
                           Some (Some (ma\<lparr>ma_mfiles := ms,
                                          ma_dirs := (if 0 \<le> max_bytes d then take_bytes (ma_dirs ma) i bytes
                                                      else ma_dirs ma)\<rparr>)) }) }"

fun init_entries :: "fsys \<Rightarrow> bool \<Rightarrow> nat \<Rightarrow> string list \<Rightarrow> mf_area \<Rightarrow> mf_area option option" where
  "init_entries fs only_shadow_files i [] ma = Some (Some ma)"
| "init_entries fs only_shadow_files i (n # ns) ma =
     (case init_entry fs only_shadow_files i n ma of
        Some (Some ma') \<Rightarrow> init_entries fs only_shadow_files i ns ma'
      | r \<Rightarrow> r)"

text \<open>\<open>entries\<close> is the content of a directory in the order \<^verbatim>\<open>readdir\<close> gives it, \<open>None\<close> when it cannot be opened.\<close>

fun init_dirs :: "(string \<Rightarrow> string list option) \<Rightarrow> fsys \<Rightarrow> bool \<Rightarrow> nat list \<Rightarrow> mf_area \<Rightarrow> mf_area option option" where
  "init_dirs entries fs only_shadow_files [] ma = Some (Some ma)"
| "init_dirs entries fs only_shadow_files (i # ixs) ma =
     (case entries (dir_name (ma_dirs ma ! i)) of
        None \<Rightarrow> Some None
      | Some ns \<Rightarrow>
          (case init_entries fs only_shadow_files i ns ma of
             Some (Some ma') \<Rightarrow> init_dirs entries fs only_shadow_files ixs ma'
           | r \<Rightarrow> r))"

definition mf_init ::
  "((part_file \<Rightarrow> part_file \<Rightarrow> int) \<Rightarrow> part_file list \<Rightarrow> part_file list) \<Rightarrow> (string \<Rightarrow> bool) \<Rightarrow>
   (string \<Rightarrow> string list option) \<Rightarrow> fsys \<Rightarrow> string \<Rightarrow> string option \<Rightarrow> string option \<Rightarrow> bool \<Rightarrow> mf_area option option" where
  "mf_init qsort is_abspath entries fs name spec base only_shadow_files =
     (case scan_areadef is_abspath spec base of
        None \<Rightarrow> Some None
      | Some dirs \<Rightarrow>
          map_option
            (map_option (\<lambda>ma. ma\<lparr>ma_mfiles := map (\<lambda>m. m\<lparr>mf_files := qsort cmp_part_file (mf_files m)\<rparr>) (ma_mfiles ma)\<rparr>))
            (init_dirs entries fs only_shadow_files [0..<length dirs]
               \<lparr>ma_name = name, ma_dirs = dirs, ma_mfiles = []\<rparr>))"

end
