(* ===== verification/Mfile_Flat.thy ===== *)
theory Mfile_Flat
  imports Mfile
begin

text \<open>
  A metafile whose last part lies in a directory without limit behaves as one flat file: the
  concatenation of its parts. \<open>mf_ok\<close> is the invariant, \<open>mf_content\<close> the flat file, and reading and writing
  blocks of the metafile refine \<^const>\<open>file_pread\<close> and \<^const>\<open>file_pwrite\<close> at the byte position of the block.
\<close>

section \<open>Files as concatenations\<close>

lemma file_pread_append:
  assumes "q + n \<le> length B \<or> C = []"
  shows "file_pread (A @ B @ C) (length A + q) n = file_pread B q n"
  using assms by (auto simp: file_pread_def)

lemma file_pwrite_append:
  assumes "q + length bs \<le> length B \<or> C = []"
  shows "file_pwrite (A @ B @ C) (length A + q) bs = A @ file_pwrite B q bs @ C"
proof (cases "bs = []")
  case False
  have len: "length (file_pwrite (A @ B @ C) (length A + q) bs) = length (A @ file_pwrite B q bs @ C)"
    using assms False by (cases C) auto
  show ?thesis
    by (rule nth_equalityI [OF len])
      (use assms False in \<open>auto simp: file_pwrite_nth nth_append max_def split: if_splits\<close>)
qed (simp add: file_pwrite_def)

lemma concat_split: "c < length xs \<Longrightarrow> concat xs = concat (take c xs) @ xs ! c @ concat (drop (Suc c) xs)"
  by (metis concat.simps(2) concat_append id_take_nth_drop)

lemma concat_update: "c < length xs \<Longrightarrow> concat (xs[c := y]) = concat (take c xs) @ y @ concat (drop (Suc c) xs)"
  by (simp add: upd_conv_take_nth_drop)

section \<open>The invariant\<close>

definition content_of :: "fsys \<Rightarrow> string \<Rightarrow> byte list" where
  "content_of fs p = (case fs p of None \<Rightarrow> [] | Some c \<Rightarrow> c)"

definition mf_paths :: "meta_file \<Rightarrow> string list" where
  "mf_paths mf = map pf_path (mf_files mf)"

definition mf_content :: "fsys \<Rightarrow> meta_file \<Rightarrow> byte list" where
  "mf_content fs mf = concat (map (content_of fs) (mf_paths mf))"

definition blocks_before :: "meta_file \<Rightarrow> nat \<Rightarrow> int" where
  "blocks_before mf c = sum_list (take c (map pf_blocks (mf_files mf)))"

text \<open>Each part but the last is full, and its \<open>pf_top\<close> is the last block up to it.\<close>

definition parts_ok :: "fsys \<Rightarrow> meta_file \<Rightarrow> bool" where
  "parts_ok fs mf \<longleftrightarrow>
     (\<forall>f\<in>set (mf_files mf). 0 \<le> pf_blocks f \<and> (pf_fd f \<noteq> None \<longrightarrow> fs (pf_path f) \<noteq> None)) \<and>
     (\<forall>i. Suc i < length (mf_files mf) \<longrightarrow>
        pf_top (mf_files mf ! i) = blocks_before mf (Suc i) - 1 \<and> fs (pf_path (mf_files mf ! i)) \<noteq> None \<and>
        int (length (content_of fs (pf_path (mf_files mf ! i)))) = pf_blocks (mf_files mf ! i) * mf_blocksize mf) \<and>
     distinct (mf_paths mf) \<and>
     int (length (content_of fs (pf_path (last (mf_files mf))))) \<le> pf_blocks (last (mf_files mf)) * mf_blocksize mf \<and>
     (fs (pf_path (last (mf_files mf))) = None \<longrightarrow> mf_wr mf \<or> length (mf_files mf) = 1)"

definition mf_ok :: "fsys \<Rightarrow> mf_dir list \<Rightarrow> meta_file \<Rightarrow> bool" where
  "mf_ok fs dirs mf \<longleftrightarrow>
     0 < mf_blocksize mf \<and> mf_cur mf < length (mf_files mf) \<and> parts_ok fs mf \<and>
     (\<forall>f\<in>set (mf_files mf). pf_dir f < length dirs) \<and>
     max_bytes (dirs ! pf_dir (last (mf_files mf))) < 0"

section \<open>Finding the part\<close>

text \<open>The part that holds block \<open>pos\<close>: the last one is open ended.\<close>

definition holds_block :: "meta_file \<Rightarrow> int \<Rightarrow> nat \<Rightarrow> bool" where
  "holds_block mf pos c \<longleftrightarrow>
     c < length (mf_files mf) \<and> blocks_before mf c \<le> pos \<and> (Suc c < length (mf_files mf) \<longrightarrow> pos < blocks_before mf (Suc c))"

lemma blocks_before_Suc:
  "c < length (mf_files mf) \<Longrightarrow> blocks_before mf (Suc c) = blocks_before mf c + pf_blocks (mf_files mf ! c)"
  by (simp add: blocks_before_def take_Suc_conv_app_nth)

lemma blocks_before_0 [simp]: "blocks_before mf 0 = 0"
  by (simp add: blocks_before_def)

lemma position_search_spec:
  assumes "c < length files" "0 \<le> pos"
    and "\<And>i. c \<le> i \<Longrightarrow> Suc i < length files \<Longrightarrow> pf_top (files ! i) = B (Suc i) - 1"
    and "\<And>i. i < length files \<Longrightarrow> B (Suc i) = B i + pf_blocks (files ! i)"
    and "B c \<le> pos"
  shows "\<exists>c'. position_search (drop c files) pos c (B c) = (c', B c') \<and> c' < length files \<and> B c' \<le> pos \<and>
    (Suc c' < length files \<longrightarrow> pos < B (Suc c'))"
  using assms
proof (induction "length files - c" arbitrary: c rule: less_induct)
  case less
  show ?case
  proof (cases "Suc c < length files")
    case True
    then have d: "drop c files = files ! c # files ! Suc c # drop (Suc (Suc c)) files"
        "drop (Suc c) files = files ! Suc c # drop (Suc (Suc c)) files"
      by (simp_all add: Cons_nth_drop_Suc)
    show ?thesis
    proof (cases "pf_top (files ! c) < pos")
      case up: True
      have "B (Suc c) \<le> pos" using up less.prems(3) [of c] True by simp
      then have "\<exists>c'. position_search (drop (Suc c) files) pos (Suc c) (B (Suc c)) = (c', B c') \<and> c' < length files \<and>
          B c' \<le> pos \<and> (Suc c' < length files \<longrightarrow> pos < B (Suc c'))"
        using True less.prems by (intro less.hyps) auto
      moreover have "position_search (drop c files) pos c (B c) = position_search (drop (Suc c) files) pos (Suc c) (B (Suc c))"
        using up less.prems(4) [of c] True unfolding d by simp
      ultimately show ?thesis by (simp only:)
    next
      case False
      then show ?thesis using less.prems(3) [of c] less.prems(5) True unfolding d by simp
    qed
  next
    case False
    then have "drop c files = [files ! c]" using less.prems(1) by (metis Cons_nth_drop_Suc Suc_lessI drop_all order_refl)
    then show ?thesis using False less.prems by auto
  qed
qed

lemma position_part_spec:
  assumes "mf_cur mf < length (mf_files mf)" "parts_ok fs mf" "0 \<le> pos"
  shows "\<exists>c. position_part mf pos = Some (c, blocks_before mf c) \<and> holds_block mf pos c"
proof -
  have top: "pf_top (mf_files mf ! i) = blocks_before mf (Suc i) - 1" if "Suc i < length (mf_files mf)" for i
    using assms(2) that by (simp add: parts_ok_def)
  have "\<exists>c'. position_search (drop 0 (mf_files mf)) pos 0 (blocks_before mf 0) = (c', blocks_before mf c') \<and>
      c' < length (mf_files mf) \<and> blocks_before mf c' \<le> pos \<and> (Suc c' < length (mf_files mf) \<longrightarrow> pos < blocks_before mf (Suc c'))"
    by (rule position_search_spec) (use assms top blocks_before_Suc in auto)
  then obtain c' where s: "position_search (mf_files mf) pos 0 0 = (c', blocks_before mf c')" "holds_block mf pos c'"
    by (auto simp: holds_block_def)
  show ?thesis
  proof (cases "mf_cur mf")
    case 0
    then show ?thesis using assms s top by (auto simp: position_part_def holds_block_def Let_def)
  next
    case (Suc k)
    then show ?thesis using assms s top [of k] top [of "Suc k"]
      by (auto simp: position_part_def holds_block_def Let_def)
  qed
qed

section \<open>Changing one part\<close>

lemma set_part_simps [simp]:
  "mf_files (set_part mf c f) = (mf_files mf)[c := f]" "mf_cur (set_part mf c f) = mf_cur mf"
  "mf_blocksize (set_part mf c f) = mf_blocksize mf" "mf_wr (set_part mf c f) = mf_wr mf"
  "mf_locked (set_part mf c f) = mf_locked mf" "mf_name (set_part mf c f) = mf_name mf"
  by (simp_all add: set_part_def)

lemma blocks_before_cong:
  "map pf_blocks (mf_files mf') = map pf_blocks (mf_files mf) \<Longrightarrow> blocks_before mf' i = blocks_before mf i"
  by (simp add: blocks_before_def)

lemma blocks_before_set:
  assumes "i \<le> c \<or> pf_blocks f = pf_blocks (mf_files mf ! c)" "mf_files mf' = (mf_files mf)[c := f]"
  shows "blocks_before mf' i = blocks_before mf i"
  using assms map_update_same [of pf_blocks f "mf_files mf" c] by (auto simp: blocks_before_def map_update)

text \<open>A metafile after a change to the bytes, the descriptor and the size of one of its parts.\<close>

definition changed_part :: "meta_file \<Rightarrow> nat \<Rightarrow> int \<Rightarrow> meta_file \<Rightarrow> bool" where
  "changed_part mf c b mf' \<longleftrightarrow>
     c < length (mf_files mf) \<and> mf_cur mf' < length (mf_files mf) \<and> mf_blocksize mf' = mf_blocksize mf \<and> mf_wr mf' = mf_wr mf \<and>
     (\<exists>x y. mf_files mf' = (mf_files mf)[c := (mf_files mf ! c)\<lparr>pf_fd := x, pf_blocks := b, pf_bytes := y\<rparr>])"

lemma changed_part_paths: "changed_part mf c b mf' \<Longrightarrow> mf_paths mf' = mf_paths mf"
  by (auto simp: changed_part_def mf_paths_def intro!: map_update_same)

lemma changed_part_content:
  assumes "changed_part mf c b mf'" "distinct (mf_paths mf)"
  shows "mf_content (fs(pf_path (mf_files mf ! c) \<mapsto> d)) mf' =
    concat (take c (map (content_of fs) (mf_paths mf))) @ d @ concat (drop (Suc c) (map (content_of fs) (mf_paths mf)))"
proof -
  have c: "c < length (mf_paths mf)" and p: "pf_path (mf_files mf ! c) = mf_paths mf ! c"
    using assms(1) by (auto simp: changed_part_def mf_paths_def)
  have "map (content_of (fs(mf_paths mf ! c \<mapsto> d))) (mf_paths mf) = (map (content_of fs) (mf_paths mf))[c := d]"
    using c assms(2) by (intro nth_equalityI) (auto simp: nth_list_update content_of_def nth_eq_iff_index_eq)
  then show ?thesis
    using c by (simp add: mf_content_def changed_part_paths [OF assms(1)] p concat_update)
qed

lemma parts_ok_changed:
  assumes ok: "parts_ok fs mf" and ch: "changed_part mf c b mf'"
    and inner: "Suc c < length (mf_files mf) \<Longrightarrow>
        b = pf_blocks (mf_files mf ! c) \<and> length d = length (content_of fs (pf_path (mf_files mf ! c)))"
    and outer: "Suc c = length (mf_files mf) \<Longrightarrow> 0 \<le> b \<and> int (length d) \<le> b * mf_blocksize mf"
  shows "parts_ok (fs(pf_path (mf_files mf ! c) \<mapsto> d)) mf'"
proof -
  obtain x y where f: "mf_files mf' = (mf_files mf)[c := (mf_files mf ! c)\<lparr>pf_fd := x, pf_blocks := b, pf_bytes := y\<rparr>]"
    and c: "c < length (mf_files mf)" and bs: "mf_blocksize mf' = mf_blocksize mf" and wr: "mf_wr mf' = mf_wr mf"
    using ch by (auto simp: changed_part_def)
  have dist: "distinct (mf_paths mf)" using ok by (simp add: parts_ok_def)
  have path: "pf_path (mf_files mf ! i) = pf_path (mf_files mf ! c) \<longleftrightarrow> i = c" if "i < length (mf_files mf)" for i
    using that c nth_eq_iff_index_eq [OF dist, of i c] by (simp add: mf_paths_def)
  have before: "blocks_before mf' (Suc i) = blocks_before mf (Suc i)" if "Suc i < length (mf_files mf)" for i
    using that inner c by (intro blocks_before_set [OF _ f], cases "Suc c < length (mf_files mf)") auto
  have b: "0 \<le> b" using inner outer c ok by (metis Suc_lessI nth_mem parts_ok_def)
  have all: "0 \<le> pf_blocks f \<and> (pf_fd f \<noteq> None \<longrightarrow> (fs(pf_path (mf_files mf ! c) \<mapsto> d)) (pf_path f) \<noteq> None)"
    if "f \<in> set (mf_files mf')" for f
    using that ok b set_update_subset_insert [of "mf_files mf" c] unfolding f by (fastforce simp: parts_ok_def)
  have mid: "pf_top (mf_files mf' ! i) = blocks_before mf' (Suc i) - 1 \<and>
      (fs(pf_path (mf_files mf ! c) \<mapsto> d)) (pf_path (mf_files mf' ! i)) \<noteq> None \<and>
      int (length (content_of (fs(pf_path (mf_files mf ! c) \<mapsto> d)) (pf_path (mf_files mf' ! i)))) =
        pf_blocks (mf_files mf' ! i) * mf_blocksize mf'"
    if i: "Suc i < length (mf_files mf')" for i
    using ok i before [of i] inner path [of i] c
    by (cases "i = c") (auto simp: parts_ok_def f bs content_of_def)
  have last: "last (mf_files mf') = (if Suc c = length (mf_files mf) then mf_files mf' ! c else last (mf_files mf))"
    using c by (subst f, subst last_list_update) (auto simp: f)
  have last': "pf_path (last (mf_files mf)) \<noteq> pf_path (mf_files mf ! c)" if "Suc c \<noteq> length (mf_files mf)"
    using path [of "length (mf_files mf) - 1"] c that by (subst last_conv_nth) auto
  show ?thesis
    unfolding parts_ok_def
  proof (intro conjI)
    show "distinct (mf_paths mf')" using changed_part_paths [OF ch] dist by simp
    show "int (length (content_of (fs(pf_path (mf_files mf ! c) \<mapsto> d)) (pf_path (last (mf_files mf')))))
        \<le> pf_blocks (last (mf_files mf')) * mf_blocksize mf'"
      using last last' outer ok c by (auto simp: f bs content_of_def parts_ok_def)
    show "(fs(pf_path (mf_files mf ! c) \<mapsto> d)) (pf_path (last (mf_files mf'))) = None \<longrightarrow> mf_wr mf' \<or> length (mf_files mf') = 1"
      using last last' ok c by (auto simp: f wr parts_ok_def)
  qed (use all mid in auto)
qed

lemma mf_ok_changed:
  assumes "mf_ok fs dirs mf" "changed_part mf c b mf'"
    and "Suc c < length (mf_files mf) \<Longrightarrow>
        b = pf_blocks (mf_files mf ! c) \<and> length d = length (content_of fs (pf_path (mf_files mf ! c)))"
    and "Suc c = length (mf_files mf) \<Longrightarrow> 0 \<le> b \<and> int (length d) \<le> b * mf_blocksize mf"
  shows "mf_ok (fs(pf_path (mf_files mf ! c) \<mapsto> d)) dirs mf'"
proof -
  obtain x y where f: "mf_files mf' = (mf_files mf)[c := (mf_files mf ! c)\<lparr>pf_fd := x, pf_blocks := b, pf_bytes := y\<rparr>]"
    and c: "c < length (mf_files mf)" "mf_cur mf' < length (mf_files mf)" "mf_blocksize mf' = mf_blocksize mf"
    using assms(2) by (auto simp: changed_part_def)
  have m: "map pf_dir (mf_files mf') = map pf_dir (mf_files mf)"
    unfolding f by (rule map_update_same) simp
  have "set (map pf_dir (mf_files mf')) = set (map pf_dir (mf_files mf))" "mf_files mf' \<noteq> []"
    "last (map pf_dir (mf_files mf')) = last (map pf_dir (mf_files mf))"
    using c by (simp_all only: m) (auto simp: f)
  then have dirs: "pf_dir ` set (mf_files mf') = pf_dir ` set (mf_files mf)"
      "pf_dir (last (mf_files mf')) = pf_dir (last (mf_files mf))"
    using c by (simp, subst (asm) (1 2) last_map) auto
  have "parts_ok (fs(pf_path (mf_files mf ! c) \<mapsto> d)) mf'"
    using assms by (intro parts_ok_changed) (simp_all add: mf_ok_def)
  moreover have "\<forall>g\<in>set (mf_files mf'). pf_dir g < length dirs"
  proof
    fix g assume "g \<in> set (mf_files mf')"
    then have "pf_dir g \<in> pf_dir ` set (mf_files mf)" using dirs(1) by blast
    then show "pf_dir g < length dirs" using assms(1) by (auto simp: mf_ok_def)
  qed
  ultimately show ?thesis
    using assms(1) c dirs(2) by (simp add: mf_ok_def) (simp add: f)
qed

section \<open>Positioning\<close>

lemma mf_okD:
  assumes "mf_ok fs dirs mf"
  shows "0 < mf_blocksize mf" "mf_cur mf < length (mf_files mf)" "parts_ok fs mf" "distinct (mf_paths mf)"
    "mf_files mf \<noteq> []"
  using assms by (auto simp: mf_ok_def parts_ok_def)

lemma mf_ok_locked [simp]: "mf_ok fs dirs (mf\<lparr>mf_locked := l\<rparr>) = mf_ok fs dirs mf"
  by (simp add: mf_ok_def parts_ok_def mf_paths_def blocks_before_def)

lemma mf_content_locked [simp]: "mf_content fs (mf\<lparr>mf_locked := l\<rparr>) = mf_content fs mf"
  by (simp add: mf_content_def mf_paths_def)

lemma last_nth_Suc: "Suc c = length xs \<Longrightarrow> last xs = xs ! c"
  by (metis diff_Suc_1 last_conv_nth length_0_conv nat.simps(3))

lemma last_part_ok:
  assumes "parts_ok fs mf" "Suc c = length (mf_files mf)"
  shows "int (length (content_of fs (pf_path (mf_files mf ! c)))) \<le> pf_blocks (mf_files mf ! c) * mf_blocksize mf"
    "0 \<le> pf_blocks (mf_files mf ! c)"
  using assms(1) unfolding parts_ok_def last_nth_Suc [OF assms(2)] by (simp_all add: assms(2) [symmetric])

lemma bytes_before:
  assumes "parts_ok fs mf" "c < length (mf_files mf)"
  shows "int (length (concat (take c (map (content_of fs) (mf_paths mf))))) = blocks_before mf c * mf_blocksize mf"
  using assms(2)
proof (induction c)
  case (Suc c)
  then show ?case
    using assms(1) by (simp add: take_Suc_conv_app_nth mf_paths_def blocks_before_Suc parts_ok_def algebra_simps)
qed simp

text \<open>The part is opened, created if missing, and its descriptor stands at the byte of the block.\<close>

definition at_part :: "meta_file \<Rightarrow> nat \<Rightarrow> nat \<Rightarrow> meta_file" where
  "at_part mf c sk = (set_part mf c ((mf_files mf ! c)\<lparr>pf_fd := Some sk\<rparr>))\<lparr>mf_cur := c\<rparr>"

definition opened :: "fsys \<Rightarrow> meta_file \<Rightarrow> nat \<Rightarrow> fsys" where
  "opened fs mf c = fs(pf_path (mf_files mf ! c) \<mapsto> content_of fs (pf_path (mf_files mf ! c)))"

lemma file_position_spec:
  assumes ok: "mf_ok fs dirs mf" and pos: "0 \<le> pos" "0 \<le> offset"
  obtains (found) c where "holds_block mf pos c" "fs (pf_path (mf_files mf ! c)) \<noteq> None \<or> mf_wr mf"
      "file_position fs mf pos offset =
         Some (pos - blocks_before mf c, opened fs mf c,
               at_part mf c (nat ((pos - blocks_before mf c) * mf_blocksize mf + offset)))"
  | (missing) "file_position fs mf pos offset = Some (- 2, fs, mf)" "\<not> mf_wr mf" "mf_content fs mf = []"
proof -
  note ok' = mf_okD [OF ok]
  obtain c where p: "position_part mf pos = Some (c, blocks_before mf c)" and h: "holds_block mf pos c"
    using position_part_spec ok' pos by blast
  then have c: "c < length (mf_files mf)" and le: "blocks_before mf c \<le> pos" by (auto simp: holds_block_def)
  have ps: "\<not> (pos - blocks_before mf c) * mf_blocksize mf + offset < 0"
    using le ok'(1) pos(2) by (simp add: not_less)
  show ?thesis
  proof (cases "fs (pf_path (mf_files mf ! c)) \<noteq> None \<or> mf_wr mf")
    case True
    have "\<exists>f'. part_open fs (mf_wr mf) (mf_files mf ! c) = Some (opened fs mf c, f') \<and>
        f'\<lparr>pf_fd := Some k\<rparr> = (mf_files mf ! c)\<lparr>pf_fd := Some k\<rparr>" for k
    proof (cases "pf_fd (mf_files mf ! c)")
      case None
      then show ?thesis using True by (auto simp: part_open_def opened_def content_of_def fun_upd_idem split: option.splits)
    next
      case (Some a)
      then have "fs (pf_path (mf_files mf ! c)) \<noteq> None" using ok'(3) c by (auto simp: parts_ok_def)
      then show ?thesis using Some by (auto simp: part_open_def opened_def content_of_def fun_upd_idem)
    qed
    from this [of "nat ((pos - blocks_before mf c) * mf_blocksize mf + offset)"]
    have "file_position fs mf pos offset =
         Some (pos - blocks_before mf c, opened fs mf c,
               at_part mf c (nat ((pos - blocks_before mf c) * mf_blocksize mf + offset)))"
      using ps by (auto simp: file_position_def p Let_def at_part_def)
    then show ?thesis using True h by (intro found) auto
  next
    case False
    then have one: "length (mf_files mf) = 1"
      using ok'(3,5) c by (metis Suc_lessI last_conv_nth diff_Suc_1 parts_ok_def)
    then have "c = 0" using c by simp
    moreover have "pf_fd (mf_files mf ! 0) = None" using ok'(3) False c \<open>c = 0\<close> by (auto simp: parts_ok_def)
    moreover have "mf_content fs mf = []"
      using one False \<open>c = 0\<close> by (cases "mf_files mf") (auto simp: mf_content_def mf_paths_def content_of_def)
    ultimately show ?thesis using False p by (intro missing) (auto simp: file_position_def part_open_def)
  qed
qed

lemma changed_at_part:
  assumes "c < length (mf_files mf)"
  shows "changed_part mf c (pf_blocks (mf_files mf ! c)) ((at_part mf c sk)\<lparr>mf_locked := l\<rparr>)"
  unfolding changed_part_def
  using assms by (auto simp: at_part_def intro!: exI [of _ "Some sk"] exI [of _ "pf_bytes (mf_files mf ! c)"])

section \<open>Reading and writing\<close>

text \<open>A request that lies within one block.\<close>

definition in_block :: "meta_file \<Rightarrow> int \<Rightarrow> int \<Rightarrow> int \<Rightarrow> bool" where
  "in_block mf no offset nbytes \<longleftrightarrow>
     0 \<le> no \<and> 0 \<le> offset \<and> 0 \<le> nbytes \<and> (if nbytes = 0 then offset = 0 else offset + nbytes \<le> mf_blocksize mf)"

definition block_pos :: "meta_file \<Rightarrow> int \<Rightarrow> int \<Rightarrow> nat" where
  "block_pos mf no offset = nat (no * mf_blocksize mf + offset)"

definition block_len :: "meta_file \<Rightarrow> int \<Rightarrow> nat" where
  "block_len mf nbytes = nat (if nbytes = 0 then mf_blocksize mf else nbytes)"

text \<open>The byte position of a block in the flat file, and that the bytes asked for lie in the part.\<close>

lemma block_in_part:
  assumes ok: "mf_ok fs dirs mf" and h: "holds_block mf no c" and b: "in_block mf no offset nbytes"
    and q: "q = nat ((no - blocks_before mf c) * mf_blocksize mf + offset)"
  shows "block_pos mf no offset = length (concat (take c (map (content_of fs) (mf_paths mf)))) + q"
    and "q + block_len mf nbytes \<le> length (content_of fs (pf_path (mf_files mf ! c))) \<or> Suc c = length (mf_files mf)"
    and "int (q + block_len mf nbytes) \<le> (no - blocks_before mf c + 1) * mf_blocksize mf"
proof -
  note ok' = mf_okD [OF ok]
  have c: "c < length (mf_files mf)" and le: "blocks_before mf c \<le> no" using h by (auto simp: holds_block_def)
  let ?ps = "no - blocks_before mf c"
  have psb: "0 \<le> ?ps * mf_blocksize mf" using le ok'(1) by simp
  have "0 \<le> blocks_before mf c * mf_blocksize mf" using bytes_before [OF ok'(3) c] by (metis of_nat_0_le_iff)
  then show "block_pos mf no offset = length (concat (take c (map (content_of fs) (mf_paths mf)))) + q"
    using bytes_before [OF ok'(3) c] psb b unfolding q block_pos_def in_block_def
    by (simp add: nat_eq_iff left_diff_distrib)
  have "int (block_len mf nbytes) + offset \<le> mf_blocksize mf"
    using b ok'(1) by (auto simp: in_block_def block_len_def split: if_splits)
  then show e: "int (q + block_len mf nbytes) \<le> (?ps + 1) * mf_blocksize mf"
    using psb b unfolding q in_block_def by (simp add: distrib_right)
  show "q + block_len mf nbytes \<le> length (content_of fs (pf_path (mf_files mf ! c))) \<or> Suc c = length (mf_files mf)"
  proof (cases "Suc c = length (mf_files mf)")
    case False
    then have "int (length (content_of fs (pf_path (mf_files mf ! c)))) = pf_blocks (mf_files mf ! c) * mf_blocksize mf"
      "?ps + 1 \<le> pf_blocks (mf_files mf ! c)"
      using ok'(3) h c by (auto simp: parts_ok_def holds_block_def blocks_before_Suc)
    then show ?thesis using e ok'(1) mult_right_mono [of "?ps + 1" "pf_blocks (mf_files mf ! c)" "mf_blocksize mf"] by linarith
  qed simp
qed

lemma io_length_block: "mf_ok fs dirs mf \<Longrightarrow> in_block mf no offset nbytes \<Longrightarrow> io_length mf nbytes = Some (block_len mf nbytes)"
  by (auto simp: io_length_def block_len_def in_block_def Let_def dest: mf_okD)

lemma io_length_cong: "mf_blocksize mf' = mf_blocksize mf \<Longrightarrow> io_length mf' nbytes = io_length mf nbytes"
  by (simp add: io_length_def)

lemma content_split:
  "c < length (mf_files mf) \<Longrightarrow> mf_content fs mf =
     concat (take c (map (content_of fs) (mf_paths mf))) @ content_of fs (pf_path (mf_files mf ! c)) @
     concat (drop (Suc c) (map (content_of fs) (mf_paths mf)))"
  unfolding mf_content_def by (subst concat_split [of c]) (simp_all add: mf_paths_def)

theorem mf_read_refines:
  assumes ok: "mf_ok fs dirs mf" and b: "in_block mf no offset nbytes" and lk: "\<not> mf_locked mf"
  shows "\<exists>fs' mf' bs. mf_read fs mf no offset nbytes = Some (if length bs < block_len mf nbytes then 0 else 1, bs, fs', mf') \<and>
    bs = file_pread (mf_content fs mf) (block_pos mf no offset) (block_len mf nbytes) \<and>
    mf_ok fs' dirs mf' \<and> \<not> mf_locked mf' \<and> mf_content fs' mf' = mf_content fs mf \<and> mf_paths mf' = mf_paths mf \<and>
    mf_blocksize mf' = mf_blocksize mf \<and> mf_wr mf' = mf_wr mf \<and> (\<forall>p. p \<notin> set (mf_paths mf) \<longrightarrow> fs' p = fs p)"
proof -
  note ok' = mf_okD [OF ok]
  have ok1: "mf_ok fs dirs (mf\<lparr>mf_locked := True\<rparr>)" using ok by simp
  have nn: "0 \<le> no" "0 \<le> offset" using b by (auto simp: in_block_def)
  have len0: "0 < block_len mf nbytes" using b ok'(1) by (auto simp: block_len_def in_block_def)
  show ?thesis
    using ok1 nn
  proof (cases rule: file_position_spec)
    case (found c)
    define q where "q = nat ((no - blocks_before mf c) * mf_blocksize mf + offset)"
    let ?f = "mf_files mf ! c" and ?n = "block_len mf nbytes"
    have h: "holds_block mf no c" and c: "c < length (mf_files mf)"
      using found(1) by (auto simp: holds_block_def blocks_before_def)
    note bp = block_in_part [OF ok h b q_def]
    define bs where "bs = file_pread (content_of fs (pf_path ?f)) q ?n"
    let ?mf = "(at_part mf c (q + length bs))\<lparr>mf_locked := False\<rparr>"
    have fp: "file_position fs (mf\<lparr>mf_locked := True\<rparr>) no offset =
        Some (no - blocks_before mf c, opened fs mf c, (at_part mf c q)\<lparr>mf_locked := True\<rparr>)"
      using found(3) by (simp add: q_def opened_def at_part_def blocks_before_def set_part_def)
    have "\<not> no - blocks_before mf c < 0" using h by (simp add: holds_block_def)
    moreover have "io_length ((at_part mf c q)\<lparr>mf_locked := True\<rparr>) nbytes = Some ?n"
      using io_length_block [OF ok b] by (subst io_length_cong [of _ mf]) (simp_all add: at_part_def)
    moreover have "cur_read (opened fs mf c) ((at_part mf c q)\<lparr>mf_locked := True\<rparr>) ?n =
        Some (bs, (at_part mf c (q + length bs))\<lparr>mf_locked := True\<rparr>)"
      using c by (simp add: cur_read_def nth_opt_def at_part_def opened_def bs_def set_part_def)
    ultimately have r: "mf_read fs mf no offset nbytes = Some (if length bs < ?n then 0 else 1, bs, opened fs mf c, ?mf)"
      using lk fp by (simp add: mf_read_def mf_lock_def mf_unlock_def)
    have ch: "changed_part mf c (pf_blocks ?f) ?mf" using c by (rule changed_at_part)
    have "mf_ok (opened fs mf c) dirs ?mf"
      unfolding opened_def
      by (rule mf_ok_changed [OF ok ch]) (simp_all add: last_part_ok [OF ok'(3)])
    moreover have "mf_content (opened fs mf c) ?mf = mf_content fs mf"
      using changed_part_content [OF ch ok'(4)] content_split [OF c, of fs] by (simp add: opened_def)
    moreover have "bs = file_pread (mf_content fs mf) (block_pos mf no offset) ?n"
      unfolding bs_def bp(1) content_split [OF c, of fs]
      using bp(2) by (intro file_pread_append [symmetric]) (auto simp: mf_paths_def)
    moreover have "mf_paths ?mf = mf_paths mf" by (rule changed_part_paths [OF ch])
    moreover have "\<forall>p. p \<notin> set (mf_paths mf) \<longrightarrow> opened fs mf c p = fs p" using c by (auto simp: opened_def mf_paths_def)
    ultimately show ?thesis
      using r by (intro exI [of _ "opened fs mf c"] exI [of _ ?mf] exI [of _ bs]) (simp add: at_part_def)
  next
    case missing
    have "mf_read fs mf no offset nbytes = Some (0, [], fs, mf)"
      using lk missing by (simp add: mf_read_def mf_lock_def mf_unlock_def)
    then show ?thesis using missing ok lk len0 by (auto simp: file_pread_def)
  qed
qed

lemma update_orders:
  "f\<lparr>pf_blocks := b, pf_bytes := y, pf_fd := x\<rparr> = f\<lparr>pf_fd := x, pf_blocks := b, pf_bytes := y\<rparr>"
  "mf\<lparr>mf_cur := c, mf_locked := l, mf_files := fl\<rparr> = mf\<lparr>mf_files := fl, mf_cur := c, mf_locked := l\<rparr>"
  by (cases f, simp) (cases mf, simp)

text \<open>Growing a part without limit only changes its size, and terminates after one step.\<close>

lemma mf_grow_spec:
  assumes cur: "mf_cur mf < length (mf_files mf)" and f: "f = mf_files mf ! mf_cur mf" and d: "pf_dir f < length dirs"
    and grow: "pf_blocks f \<le> ps \<Longrightarrow> max_bytes (dirs ! pf_dir f) < 0"
  shows "\<exists>y. mf_grow fs dirs mf no offset ps =
    Some (0, fs, dirs, set_part mf (mf_cur mf) (f\<lparr>pf_blocks := max (pf_blocks f) (ps + 1), pf_bytes := y\<rparr>))"
proof (cases "ps < pf_blocks f")
  case True
  then have "f\<lparr>pf_blocks := max (pf_blocks f) (ps + 1), pf_bytes := pf_bytes f\<rparr> = f" by simp
  then have "set_part mf (mf_cur mf) (f\<lparr>pf_blocks := max (pf_blocks f) (ps + 1), pf_bytes := pf_bytes f\<rparr>) = mf"
    using f by (simp add: set_part_def)
  moreover have "mf_grow fs dirs mf no offset ps = Some (0, fs, dirs, mf)"
    using cur d f True by (subst mf_grow.simps) (simp add: nth_opt_def)
  ultimately show ?thesis by metis
next
  case False
  let ?n = "ps - pf_blocks f + 1"
  let ?g = "f\<lparr>pf_blocks := pf_blocks f + ?n, pf_bytes := pf_bytes f + ?n * mf_blocksize mf\<rparr>"
  have "mf_grow fs dirs mf no offset ps = mf_grow fs dirs (set_part mf (mf_cur mf) ?g) no offset ps"
    using cur d f False grow by (subst mf_grow.simps) (simp add: nth_opt_def grow_part_def Let_def)
  also have "\<dots> = Some (0, fs, dirs, set_part mf (mf_cur mf) ?g)"
    using cur d by (subst mf_grow.simps) (simp add: nth_opt_def)
  also have "?g = f\<lparr>pf_blocks := max (pf_blocks f) (ps + 1), pf_bytes := pf_bytes f + ?n * mf_blocksize mf\<rparr>"
    using False by simp
  finally show ?thesis by blast
qed

theorem mf_write_refines:
  assumes ok: "mf_ok fs dirs mf" and b: "in_block mf no offset nbytes" and lk: "\<not> mf_locked mf" and wr: "mf_wr mf"
    and buf: "block_len mf nbytes \<le> length buf"
  shows "\<exists>fs' mf'. mf_write fs dirs mf no offset nbytes buf = Some (0, fs', dirs, mf') \<and>
    mf_content fs' mf' = file_pwrite (mf_content fs mf) (block_pos mf no offset) (take (block_len mf nbytes) buf) \<and>
    mf_ok fs' dirs mf' \<and> \<not> mf_locked mf' \<and> mf_paths mf' = mf_paths mf \<and>
    mf_blocksize mf' = mf_blocksize mf \<and> mf_wr mf' \<and> (\<forall>p. p \<notin> set (mf_paths mf) \<longrightarrow> fs' p = fs p)"
proof -
  note ok' = mf_okD [OF ok]
  have ok1: "mf_ok fs dirs (mf\<lparr>mf_locked := True\<rparr>)" using ok by simp
  have nn: "0 \<le> no" "0 \<le> offset" using b by (auto simp: in_block_def)
  show ?thesis
    using ok1 nn
  proof (cases rule: file_position_spec)
    case (found c)
    define q where "q = nat ((no - blocks_before mf c) * mf_blocksize mf + offset)"
    let ?f = "mf_files mf ! c" and ?ps = "no - blocks_before mf c" and ?bs = "take (block_len mf nbytes) buf"
    let ?mf1 = "(at_part mf c q)\<lparr>mf_locked := True\<rparr>"
    have h: "holds_block mf no c" and c: "c < length (mf_files mf)"
      using found(1) by (auto simp: holds_block_def blocks_before_def)
    note bp = block_in_part [OF ok h b q_def]
    have fp: "file_position fs (mf\<lparr>mf_locked := True\<rparr>) no offset = Some (?ps, opened fs mf c, ?mf1)"
      using found(3) by (simp add: q_def opened_def at_part_def blocks_before_def set_part_def)
    have ps: "\<not> ?ps < 0" using h by (simp add: holds_block_def)
    have inner: "?ps < pf_blocks ?f" if "Suc c < length (mf_files mf)"
      using h that c by (simp add: holds_block_def blocks_before_Suc)
    have unlim: "max_bytes (dirs ! pf_dir ?f) < 0" if le: "pf_blocks ?f \<le> ?ps"
    proof -
      have "Suc c = length (mf_files mf)" using inner le c by force
      then show ?thesis using ok last_nth_Suc [of c "mf_files mf"] by (simp add: mf_ok_def)
    qed
    define bl where "bl = max (pf_blocks ?f) (?ps + 1)"
    have "\<exists>y. mf_grow (opened fs mf c) dirs ?mf1 no offset ?ps =
        Some (0, opened fs mf c, dirs, set_part ?mf1 c (?f\<lparr>pf_fd := Some q, pf_blocks := bl, pf_bytes := y\<rparr>))"
    proof -
      have "pf_dir ?f < length dirs" using ok c by (simp add: mf_ok_def)
      moreover have cur: "mf_cur ?mf1 = c" "c < length (mf_files ?mf1)" "mf_files ?mf1 ! c = ?f\<lparr>pf_fd := Some q\<rparr>"
        using c by (simp_all add: at_part_def)
      ultimately have "\<exists>y. mf_grow (opened fs mf c) dirs ?mf1 no offset ?ps =
          Some (0, opened fs mf c, dirs, set_part ?mf1 (mf_cur ?mf1)
            ((?f\<lparr>pf_fd := Some q\<rparr>)\<lparr>pf_blocks := max (pf_blocks (?f\<lparr>pf_fd := Some q\<rparr>)) (?ps + 1), pf_bytes := y\<rparr>))"
        using unlim by (intro mf_grow_spec) simp_all
      then show ?thesis using cur(1) by (simp add: bl_def)
    qed
    then obtain y where "mf_grow (opened fs mf c) dirs ?mf1 no offset ?ps =
        Some (0, opened fs mf c, dirs, set_part ?mf1 c (?f\<lparr>pf_fd := Some q, pf_blocks := bl, pf_bytes := y\<rparr>))" by blast
    moreover define mf2 where "mf2 = set_part ?mf1 c (?f\<lparr>pf_fd := Some q, pf_blocks := bl, pf_bytes := y\<rparr>)"
    ultimately have g: "mf_grow (opened fs mf c) dirs ?mf1 no offset ?ps = Some (0, opened fs mf c, dirs, mf2)" by simp
    define d where "d = file_pwrite (content_of fs (pf_path ?f)) q ?bs"
    define mf' where "mf' = mf\<lparr>mf_files := (mf_files mf)[c := ?f\<lparr>pf_fd := Some (q + length ?bs), pf_blocks := bl, pf_bytes := y\<rparr>],
      mf_cur := c, mf_locked := False\<rparr>"
    have io: "io_length mf2 nbytes = Some (block_len mf nbytes)" "mf_wr mf2"
      using io_length_block [OF ok b] io_length_cong [of mf2 mf nbytes] wr by (simp_all add: mf2_def at_part_def)
    have "cur_write (opened fs mf c) mf2 ?bs = Some (fs(pf_path ?f \<mapsto> d), mf'\<lparr>mf_locked := True\<rparr>)"
      using c by (simp add: cur_write_def nth_opt_def mf2_def at_part_def set_part_def opened_def d_def mf'_def
          update_orders del: length_take)
    moreover have "mf_unlock (mf'\<lparr>mf_locked := True\<rparr>) = mf'" by (simp add: mf_unlock_def mf'_def)
    ultimately have w: "mf_write fs dirs mf no offset nbytes buf = Some (0, fs(pf_path ?f \<mapsto> d), dirs, mf')"
      using lk fp ps g buf io by (simp add: mf_write_def mf_lock_def del: length_take)
    have ch: "changed_part mf c bl mf'"
      unfolding changed_part_def using c by (auto simp: mf'_def intro!: exI [of _ "Some (q + length ?bs)"] exI [of _ y])
    have "mf_ok (fs(pf_path ?f \<mapsto> d)) dirs mf'"
    proof (rule mf_ok_changed [OF ok ch])
      assume "Suc c < length (mf_files mf)"
      then show "bl = pf_blocks ?f \<and> length d = length (content_of fs (pf_path ?f))"
        using inner bp(2) buf by (auto simp: bl_def d_def min_def)
    next
      assume "Suc c = length (mf_files mf)"
      then have "int (length (content_of fs (pf_path ?f))) \<le> pf_blocks ?f * mf_blocksize mf"
        by (rule last_part_ok [OF ok'(3)])
      moreover have "pf_blocks ?f * mf_blocksize mf \<le> bl * mf_blocksize mf" "(?ps + 1) * mf_blocksize mf \<le> bl * mf_blocksize mf"
        using ok'(1) by (auto simp: bl_def intro!: mult_right_mono)
      moreover have "0 \<le> bl" using ps by (simp add: bl_def max_def)
      ultimately show "0 \<le> bl \<and> int (length d) \<le> bl * mf_blocksize mf"
        using bp(3) buf by (auto simp: d_def min_def max_def)
    qed
    moreover have "mf_content (fs(pf_path ?f \<mapsto> d)) mf' =
        file_pwrite (mf_content fs mf) (block_pos mf no offset) ?bs"
      unfolding changed_part_content [OF ch ok'(4)] content_split [OF c, of fs] bp(1) d_def
      using bp(2) buf by (intro file_pwrite_append [symmetric]) (auto simp: mf_paths_def min_def)
    moreover have "mf_paths mf' = mf_paths mf" by (rule changed_part_paths [OF ch])
    ultimately show ?thesis
      using w c wr by (intro exI [of _ "fs(pf_path ?f \<mapsto> d)"] exI [of _ mf']) (auto simp: mf'_def mf_paths_def)
  next
    case missing
    then show ?thesis using wr by simp
  qed
qed

text \<open>The invariant and the flat file depend only on the metafile's own files.\<close>

lemma mf_ok_frame:
  assumes "mf_ok fs dirs mf" "\<And>p. p \<in> set (mf_paths mf) \<Longrightarrow> fs' p = fs p"
  shows "mf_ok fs' dirs mf" "mf_content fs' mf = mf_content fs mf"
proof -
  have c: "content_of fs' p = content_of fs p" if "p \<in> set (mf_paths mf)" for p
    using assms(2) [OF that] by (simp add: content_of_def)
  have p: "pf_path f \<in> set (mf_paths mf)" if "f \<in> set (mf_files mf)" for f using that by (simp add: mf_paths_def)
  show "mf_content fs' mf = mf_content fs mf" using c by (simp add: mf_content_def cong: map_cong)
  have l: "last (mf_files mf) \<in> set (mf_files mf)" using mf_okD(5) [OF assms(1)] by simp
  show "mf_ok fs' dirs mf"
    using assms(1) unfolding mf_ok_def parts_ok_def
    using assms(2) [OF p] c [OF p] l by (metis Suc_lessD nth_mem)
qed

end
