(* ===== verification/Mfile_Theorems.thy ===== *)
theory Mfile_Theorems
  imports Mfile_Flat
begin

text \<open>
  The properties of metafiles: reading and writing a metafile with room to grow is reading and writing
  one flat file, opening establishes the invariant this rests on, area definitions are parsed back,
  and two defects of the code outside that situation. Positions are bounded as in \<open>mf_fits\<close>.
\<close>

section \<open>Area definitions\<close>

lemma is_digit_iff: "is_digit c \<longleftrightarrow> 48 \<le> (of_char c :: nat) \<and> (of_char c :: nat) \<le> 57"
  by (simp add: is_digit_def)

lemma digit_char:
  assumes "n < (10 :: nat)"
  shows "is_digit (char_of (48 + n))" "(of_char (char_of (48 + n)) :: int) - 48 = int n"
  using assms of_nat_of_char [of "char_of (48 + n)", where 'a = int] by (auto simp: is_digit_iff)

lemma dec_digits_ok: "dec_digits n \<noteq> [] \<and> (\<forall>c\<in>set (dec_digits n). is_digit c) \<and> area_size (dec_digits n) = int n"
proof (induction n rule: dec_digits.induct)
  case (1 n)
  show ?case
  proof (cases "n < 10")
    case True
    then show ?thesis using digit_char [OF True] by (subst (1 2 3) dec_digits.simps) (simp add: area_size_def)
  next
    case False
    have "n mod 10 < 10" by simp
    note d = digit_char [OF this]
    have "int (n div 10) * 10 + int (n mod 10) = int n" by (metis mult.commute mult_div_mod_eq of_nat_add of_nat_mult of_nat_numeral)
    then show ?thesis using 1 [OF False] d False
      by (subst (1 2 3) dec_digits.simps) (simp add: area_size_def add_diff_eq [symmetric])
  qed
qed

text \<open>The definition of one directory, in bytes.\<close>

definition print_dir :: "mf_dir \<Rightarrow> string" where
  "print_dir d = dir_name d @ '':'' @ dec_string (max_bytes d) @ ''b ''"

definition printable_dir :: "mf_dir \<Rightarrow> bool" where
  "printable_dir d \<longleftrightarrow> dir_name d \<noteq> [] \<and> hd (dir_name d) \<noteq> CHR '' '' \<and> hd (dir_name d) \<noteq> CHR 0x09 \<and>
     CHR '':'' \<notin> set (dir_name d) \<and> length (dir_name d) \<le> FILENAME_MAX \<and> avail_bytes d = max_bytes d"

lemma area_path_name:
  "CHR '':'' \<notin> set p \<Longrightarrow> d = CHR ''-'' \<or> is_digit d \<Longrightarrow> area_path (p @ CHR '':'' # d # r) = (p, CHR '':'' # d # r)"
  by (induction p) auto

lemma dec_string_split:
  obtains (minus) d ds where "dec_string i = CHR ''-'' # d # ds" "i < 0" "is_digit d" "\<forall>c\<in>set ds. is_digit c" "area_size (d # ds) = - i"
  | (plain) d ds where "dec_string i = d # ds" "0 \<le> i" "is_digit d" "\<forall>c\<in>set ds. is_digit c" "area_size (d # ds) = i"
proof -
  obtain d ds where "dec_digits (nat \<bar>i\<bar>) = d # ds" "is_digit d" "\<forall>c\<in>set ds. is_digit c" "area_size (d # ds) = \<bar>i\<bar>"
    using dec_digits_ok [of "nat \<bar>i\<bar>"] by (cases "dec_digits (nat \<bar>i\<bar>)") auto
  then show ?thesis using minus plain by (cases "i < 0") (auto simp: dec_string_def)
qed

lemma skip_ws_Cons: "c \<noteq> CHR '' '' \<Longrightarrow> c \<noteq> CHR 0x09 \<Longrightarrow> skip_ws (c # cs) = c # cs"
  by (simp add: skip_ws_def)

lemma skip_ws_append: "p \<noteq> [] \<Longrightarrow> hd p \<noteq> CHR '' '' \<Longrightarrow> hd p \<noteq> CHR 0x09 \<Longrightarrow> skip_ws (p @ r) = p @ r"
  by (cases p) (simp_all add: skip_ws_Cons)

lemma digit_not_special: "is_digit d \<Longrightarrow> d \<noteq> CHR '' '' \<and> d \<noteq> CHR 0x09 \<and> d \<noteq> CHR ''-'' \<and> d \<noteq> CHR ''+'' \<and> d \<noteq> CHR ''b''"
  by (auto simp: is_digit_iff)

lemma digits_before_unit:
  "\<forall>c\<in>set ds. is_digit c \<Longrightarrow> takeWhile is_digit (ds @ CHR ''b'' # r) = ds \<and> dropWhile is_digit (ds @ CHR ''b'' # r) = CHR ''b'' # r"
  by (induction ds) (auto simp: is_digit_iff)

lemma scan_areadef_item_print:
  assumes "printable_dir d"
  shows "scan_areadef_item is_abspath None (print_dir d @ r) = Inr (d, CHR '' '' # r)"
proof -
  have ws: "skip_ws (dir_name d @ x) = dir_name d @ x" for x
    using assms by (simp add: printable_dir_def skip_ws_append)
  have nm: "dir_name d \<noteq> []" "CHR '':'' \<notin> set (dir_name d)" "length (dir_name d) \<le> FILENAME_MAX" and av: "avail_bytes d = max_bytes d"
    using assms by (auto simp: printable_dir_def)
  show ?thesis
  proof (cases rule: dec_string_split [of "max_bytes d"])
    case (minus e es)
    have all: "\<forall>c\<in>set (e # es). is_digit c" using minus by simp
    show ?thesis
      using nm ws minus(1,3,5) area_path_name [OF nm(2), of "CHR ''-''" "e # es @ CHR ''b'' # CHR '' '' # r"] av
        digits_before_unit [OF all, of "CHR '' '' # r"]
      by (simp add: scan_areadef_item_def print_dir_def Let_def skip_ws_Cons area_unit_def FILENAME_MAX_def)
  next
    case (plain e es)
    have all: "\<forall>c\<in>set (e # es). is_digit c" using plain by simp
    show ?thesis
      using nm ws plain(1,3,5) area_path_name [OF nm(2), of e "es @ CHR ''b'' # CHR '' '' # r"] av digit_not_special [OF plain(3)]
        digits_before_unit [OF all, of "CHR '' '' # r"]
      by (simp add: scan_areadef_item_def print_dir_def Let_def skip_ws_Cons area_unit_def FILENAME_MAX_def)
  qed
qed

lemma scan_areadef_item_space: "scan_areadef_item is_abspath base (CHR '' '' # r) = scan_areadef_item is_abspath base r"
  by (simp add: scan_areadef_item_def skip_ws_def)

lemma scan_areadef_loop_space: "scan_areadef_loop is_abspath base (CHR '' '' # r) = scan_areadef_loop is_abspath base r"
  by (subst (1 2) scan_areadef_loop.simps) (simp only: scan_areadef_item_space)

text \<open>C38: Parsing an area definition returns the directories it was written from, with their names, their
  limits in bytes (negative: no limit) and all of each limit available. Names have no colon and do not
  start with blanks.\<close>

theorem scan_areadef_roundtrip:
  assumes "\<forall>d\<in>set dirs. printable_dir d"
  shows "scan_areadef is_abspath (Some (concat (map print_dir dirs))) None = Some dirs"
  using assms unfolding scan_areadef_def
proof (induction dirs)
  case Nil
  show ?case by (subst option.case, subst scan_areadef_loop.simps) (simp add: scan_areadef_item_def skip_ws_def)
next
  case (Cons d dirs)
  have "scan_areadef_loop is_abspath None (print_dir d @ concat (map print_dir dirs)) =
      map_option (Cons d) (scan_areadef_loop is_abspath None (concat (map print_dir dirs)))"
    using Cons.prems
    by (subst scan_areadef_loop.simps) (simp add: scan_areadef_item_print scan_areadef_loop_space)
  then show ?case using Cons by simp
qed

theorem scan_areadef_roundtrip_witness:
  "scan_areadef (\<lambda>s. s \<noteq> [] \<and> hd s = CHR ''/'')
     (Some (concat (map print_dir [\<lparr>dir_name = ''/a'', max_bytes = 2000, avail_bytes = 2000\<rparr>,
                                   \<lparr>dir_name = ''b c'', max_bytes = - 1, avail_bytes = - 1\<rparr>]))) None =
   Some [\<lparr>dir_name = ''/a'', max_bytes = 2000, avail_bytes = 2000\<rparr>, \<lparr>dir_name = ''b c'', max_bytes = - 1, avail_bytes = - 1\<rparr>]"
  by (rule scan_areadef_roundtrip) (simp add: printable_dir_def FILENAME_MAX_def)

section \<open>Reading and writing blocks\<close>

text \<open>The code computes positions in 64 bit, the model without a bound. They agree as long as the metafile and the
  block itself end below \<open>2 ^ 63\<close> bytes.\<close>

definition mf_fits :: "fsys \<Rightarrow> meta_file \<Rightarrow> int \<Rightarrow> bool" where
  "mf_fits fs mf no \<longleftrightarrow> (no + 1) * mf_blocksize mf < 2 ^ 63 \<and> int (length (mf_content fs mf)) < 2 ^ 63"

lemma file_position_exact:
  assumes "mf_fits fs mf no" "in_block mf no offset nbytes" "0 < mf_blocksize mf" "0 \<le> off" "off \<le> no"
  shows "sint (word_of_int ((no - off) * mf_blocksize mf + offset) :: 64 word) = (no - off) * mf_blocksize mf + offset"
proof (rule sint_word64)
  have o: "0 \<le> offset" "offset \<le> mf_blocksize mf" using assms(2,3) by (auto simp: in_block_def split: if_splits)
  have "(no - off) * mf_blocksize mf \<le> no * mf_blocksize mf" using assms(3,4) by (simp add: mult_right_mono)
  moreover have "0 \<le> (no - off) * mf_blocksize mf" using assms(3,5) by simp
  ultimately show "- (2 ^ 63) \<le> (no - off) * mf_blocksize mf + offset" "(no - off) * mf_blocksize mf + offset < 2 ^ 63"
    using assms(1) o by (auto simp: mf_fits_def distrib_right)
qed

text \<open>C34: On a metafile that is well formed and whose last part may grow, writing a block (or a piece of
  one) that ends below \<open>2 ^ 63\<close> bytes succeeds whatever the parts, keeps the metafile well formed and unlocked, and changes the
  concatenation of the part files exactly as one positioned write to a flat file does; files of other
  metafiles and the directories' budgets are untouched.\<close>

theorem mf_write_flat_file:
  assumes "mf_ok fs dirs mf" "\<not> mf_locked mf" "mf_wr mf" "in_block mf no offset nbytes" "block_len mf nbytes \<le> length buf"
    and "mf_fits fs mf no"
  shows "\<exists>fs' mf'. mf_write fs dirs mf no offset nbytes buf = Some (0, fs', dirs, mf') \<and>
    mf_content fs' mf' = file_pwrite (mf_content fs mf) (block_pos mf no offset) (take (block_len mf nbytes) buf) \<and>
    mf_ok fs' dirs mf' \<and> \<not> mf_locked mf' \<and> (\<forall>p. p \<notin> set (mf_paths mf) \<longrightarrow> fs' p = fs p)"
  using mf_write_refines [OF assms(1,4,2,3,5)] by blast

text \<open>A metafile of two parts in two directories, the first full, the second without limit.\<close>

definition two_dirs :: "mf_dir list" where
  "two_dirs = [\<lparr>dir_name = ''d0'', max_bytes = 4, avail_bytes = 0\<rparr>, \<lparr>dir_name = ''d1'', max_bytes = - 1, avail_bytes = - 1\<rparr>]"

definition two_parts :: "bool \<Rightarrow> meta_file" where
  "two_parts wr = \<lparr>mf_name = ''x'',
     mf_files = [\<lparr>pf_number = 0, pf_top = 1, pf_blocks = 2, pf_bytes = 4, pf_dir = 0, pf_path = ''d0/x-0.mf'', pf_fd = None\<rparr>,
                 \<lparr>pf_number = 1, pf_top = - 1, pf_blocks = 1, pf_bytes = 2, pf_dir = 1, pf_path = ''d1/x-1.mf'', pf_fd = None\<rparr>],
     mf_cur = 0, mf_isopen = True, mf_blocksize = 2, mf_min_bytes_creat = 2, mf_wr = wr, mf_locked = False\<rparr>"

definition two_fs :: fsys where
  "two_fs = Map.empty(''d0/x-0.mf'' \<mapsto> [1, 2, 3, 4], ''d1/x-1.mf'' \<mapsto> [5, 6])"

lemma two_parts_ok: "mf_ok two_fs two_dirs (two_parts wr)"
  by (auto simp: mf_ok_def two_fs_def two_dirs_def two_parts_def parts_ok_def blocks_before_def mf_paths_def content_of_def
      less_Suc_eq)

lemma two_parts_fields [simp]: "\<not> mf_locked (two_parts wr)" "mf_wr (two_parts wr) = wr" "mf_blocksize (two_parts wr) = 2"
  by (simp_all add: two_parts_def)

lemma two_content: "mf_content two_fs (two_parts wr) = [1, 2, 3, 4, 5, 6]"
  by (simp add: mf_content_def mf_paths_def content_of_def two_fs_def two_parts_def)

theorem mf_write_flat_file_witness:
  "\<exists>fs' mf'. mf_write two_fs two_dirs (two_parts True) 3 1 1 [9] = Some (0, fs', two_dirs, mf') \<and>
     mf_content fs' mf' = [1, 2, 3, 4, 5, 6, 0, 9] \<and> mf_ok fs' two_dirs mf'"
  using mf_write_flat_file [OF two_parts_ok, of True 3 1 1 "[9]"]
  by (auto simp: two_content in_block_def block_len_def block_pos_def mf_fits_def file_pwrite_def numeral_eq_Suc)

text \<open>C35: Reading a block, or a piece of one, of such a metafile returns the bytes of the flat file at the
  block's position, and 1 exactly when all of them exist; nothing but descriptors changes. The block and
  the file end below \<open>2 ^ 63\<close> bytes.\<close>

theorem mf_read_flat_file:
  assumes "mf_ok fs dirs mf" "\<not> mf_locked mf" "in_block mf no offset nbytes" "mf_fits fs mf no"
  shows "\<exists>fs' mf' bs. mf_read fs mf no offset nbytes = Some (if length bs = block_len mf nbytes then 1 else 0, bs, fs', mf') \<and>
    bs = file_pread (mf_content fs mf) (block_pos mf no offset) (block_len mf nbytes) \<and>
    mf_ok fs' dirs mf' \<and> \<not> mf_locked mf' \<and> mf_content fs' mf' = mf_content fs mf \<and>
    (\<forall>p. p \<notin> set (mf_paths mf) \<longrightarrow> fs' p = fs p)"
proof -
  obtain fs' mf' bs where r: "mf_read fs mf no offset nbytes = Some (if length bs < block_len mf nbytes then 0 else 1, bs, fs', mf')"
    and bs: "bs = file_pread (mf_content fs mf) (block_pos mf no offset) (block_len mf nbytes)"
    and rest: "mf_ok fs' dirs mf' \<and> \<not> mf_locked mf' \<and> mf_content fs' mf' = mf_content fs mf \<and>
      (\<forall>p. p \<notin> set (mf_paths mf) \<longrightarrow> fs' p = fs p)"
    using mf_read_refines [OF assms(1,3,2)] by blast
  have "length bs \<le> block_len mf nbytes" unfolding bs by simp
  then have "(if length bs < block_len mf nbytes then 0 else 1 :: int) = (if length bs = block_len mf nbytes then 1 else 0)" by auto
  with r bs rest show ?thesis by (intro exI [of _ fs'] exI [of _ mf'] exI [of _ bs]) simp
qed

theorem mf_read_flat_file_witness:
  "\<exists>fs' mf'. mf_read two_fs (two_parts False) 2 0 0 = Some (1, [5, 6], fs', mf') \<and>
     mf_content fs' mf' = [1, 2, 3, 4, 5, 6]"
  using mf_read_flat_file [OF two_parts_ok, of False 2 0 0]
  by (auto simp: two_content in_block_def block_len_def block_pos_def mf_fits_def file_pread_def numeral_eq_Suc)

text \<open>C36: A block read after it was written is the block written, and any other block that was complete
  before is read as before, for blocks that end below \<open>2 ^ 63\<close> bytes.\<close>

theorem mf_write_read:
  assumes "mf_ok fs dirs mf" "\<not> mf_locked mf" "mf_wr mf" "0 \<le> no" "length buf = nat (mf_blocksize mf)"
    and "mf_fits fs mf no"
  shows "\<exists>fs' mf'. mf_write fs dirs mf no 0 0 buf = Some (0, fs', dirs, mf') \<and>
    (\<exists>s. mf_read fs' mf' no 0 0 = Some (1, buf, s)) \<and>
    (\<forall>no' old s. 0 \<le> no' \<longrightarrow> no' \<noteq> no \<longrightarrow> mf_fits fs mf no' \<longrightarrow> mf_read fs mf no' 0 0 = Some (1, old, s) \<longrightarrow>
       (\<exists>s'. mf_read fs' mf' no' 0 0 = Some (1, old, s')))"
proof -
  let ?b = "nat (mf_blocksize mf)" and ?c = "mf_content fs mf"
  have bs: "0 < mf_blocksize mf" using assms(1) by (rule mf_okD)
  have in_b: "in_block m n 0 0" "block_len m 0 = ?b" "block_pos m n 0 = nat n * ?b"
    if "0 \<le> n" "mf_blocksize m = mf_blocksize mf" for n and m :: meta_file
    using that bs by (auto simp: in_block_def block_len_def block_pos_def nat_mult_distrib)
  obtain fs' mf' where w: "mf_write fs dirs mf no 0 0 buf = Some (0, fs', dirs, mf')"
    and c: "mf_content fs' mf' = file_pwrite ?c (nat no * ?b) buf"
    and ok: "mf_ok fs' dirs mf'" "\<not> mf_locked mf'" "mf_blocksize mf' = mf_blocksize mf"
    using mf_write_refines [OF assms(1) in_b(1) assms(2,3), of no buf] assms in_b(2,3) [of no mf] by auto
  have rd: "\<exists>s. mf_read fs' mf' n 0 0 = Some (1, bs, s)"
    if "0 \<le> n" "bs = file_pread (mf_content fs' mf') (nat n * ?b) ?b" "length bs = ?b" for n bs
    using mf_read_refines [OF ok(1) in_b(1) ok(2), of n] that in_b(2,3) [of n mf'] ok(3) by auto
  have "\<exists>s. mf_read fs' mf' no 0 0 = Some (1, buf, s)"
    by (rule rd) (use assms c file_pread_pwrite_same [of ?c "nat no * ?b" buf] in auto)
  moreover have "\<exists>s'. mf_read fs' mf' no' 0 0 = Some (1, old, s')"
    if n: "0 \<le> no'" "no' \<noteq> no" and r: "mf_read fs mf no' 0 0 = Some (1, old, s)" for no' old s
  proof (rule rd [OF n(1)])
    have old: "old = file_pread ?c (nat no' * ?b) ?b" "\<not> length old < ?b"
      using mf_read_refines [OF assms(1) in_b(1) assms(2), of no'] r n in_b(2,3) [of no' mf] by (auto split: if_splits)
    then show len: "length old = ?b" by (auto simp: min_def split: if_splits)
    with old have "nat no' * ?b + ?b \<le> length ?c" using bs by (auto simp: min_def split: if_splits)
    moreover have "nat no' * ?b + ?b \<le> nat no * ?b \<or> nat no * ?b + length buf \<le> nat no' * ?b"
    proof (cases "no' < no")
      case True
      then have "nat no' + 1 \<le> nat no" using n by simp
      from mult_right_mono [OF this, of ?b] show ?thesis by (simp add: distrib_right)
    next
      case False
      then have "nat no + 1 \<le> nat no'" using n assms(4) by simp
      from mult_right_mono [OF this, of ?b] show ?thesis using assms(5) by (simp add: distrib_right)
    qed
    ultimately show "old = file_pread (mf_content fs' mf') (nat no' * ?b) ?b"
      unfolding c old(1) by (intro file_pread_pwrite_other [symmetric])
  qed
  ultimately show ?thesis using w by (intro exI [of _ fs'] exI [of _ mf']) blast
qed

theorem mf_write_read_witness:
  "\<exists>fs' mf' s. mf_write two_fs two_dirs (two_parts True) 3 0 0 [9, 8] = Some (0, fs', two_dirs, mf') \<and>
     mf_read fs' mf' 3 0 0 = Some (1, [9, 8], s)"
  using mf_write_read [OF two_parts_ok, of True 3 "[9, 8]"] by (auto simp: mf_fits_def two_content)

section \<open>Opening\<close>

lemma find_dir_spec:
  "find_dir ok ds i = Some j \<Longrightarrow> i \<le> j \<and> j < i + length ds \<and> ok (ds ! (j - i)) \<and> (\<forall>k<j - i. \<not> ok (ds ! k))"
proof (induction ds arbitrary: i)
  case (Cons d ds)
  show ?case
  proof (cases "ok d")
    case False
    then have *: "Suc i \<le> j \<and> j < Suc i + length ds \<and> ok (ds ! (j - Suc i)) \<and> (\<forall>k<j - Suc i. \<not> ok (ds ! k))"
      using Cons.IH [of "Suc i"] Cons.prems by simp
    moreover have "j - i = Suc (j - Suc i)" using * by linarith
    ultimately show ?thesis using False by (auto simp: less_Suc_eq_0_disj)
  qed (use Cons.prems in auto)
qed simp

text \<open>The metafile a new name gets in directory \<open>dir\<close>.\<close>

definition fresh_mf :: "mf_dir list \<Rightarrow> nat \<Rightarrow> string \<Rightarrow> int \<Rightarrow> bool \<Rightarrow> meta_file" where
  "fresh_mf dirs dir name block_size w = \<lparr>mf_name = name,
     mf_files = [\<lparr>pf_number = 0, pf_top = - 1, pf_blocks = 0, pf_bytes = 0, pf_dir = dir,
                  pf_path = part_path (dir_name (dirs ! dir)) name 0, pf_fd = None\<rparr>],
     mf_cur = 0, mf_isopen = True, mf_blocksize = block_size, mf_min_bytes_creat = block_size, mf_wr = w, mf_locked = False\<rparr>"

lemma mf_open_fresh:
  assumes "block_size \<noteq> 0" "\<forall>m\<in>set (ma_mfiles ma). mf_name m \<noteq> name"
    and "dir < length (ma_dirs ma)" "max_bytes (ma_dirs ma ! dir) < 0"
    and "\<forall>k<dir. \<not> dir_has_room block_size (ma_dirs ma ! k)"
  shows "mf_open ma name block_size w =
    Some (Some (fresh_mf (ma_dirs ma) dir name block_size w, ma\<lparr>ma_mfiles := fresh_mf (ma_dirs ma) dir name block_size w # ma_mfiles ma\<rparr>))"
proof -
  have room: "dir_has_room block_size (ma_dirs ma ! dir)" using assms(4) by (simp add: dir_has_room_def)
  have "\<exists>j. find_dir ok ds i = Some j" if "k < length ds" "ok (ds ! k)" for ok k ds i
    using that by (induction ds arbitrary: i k) (auto simp: nth_Cons split: nat.splits)
  then obtain j where j: "find_dir (dir_has_room block_size) (ma_dirs ma) 0 = Some j" using room assms(3) by blast
  from find_dir_spec [OF this] have "j = dir" using room assms(5) by (metis diff_zero linorder_neqE_nat)
  with j have j: "find_dir (dir_has_room block_size) (ma_dirs ma) 0 = Some dir" by simp
  have none: "List.find (\<lambda>m. mf_name m = name) (ma_mfiles ma) = None" using assms(2) by (simp add: find_None_iff)
  show ?thesis
    using assms(1) none j
    by (simp add: mf_open_def new_metafile_def start_metafile_def Let_def MF_MIN_BLOCKS_CREAT_def c_cast_def fresh_mf_def)
qed

lemma fresh_mf_ok:
  assumes "0 < block_size" "dir < length dirs" "max_bytes (dirs ! dir) < 0" "fs (part_path (dir_name (dirs ! dir)) name 0) = None"
  shows "mf_ok fs dirs (fresh_mf dirs dir name block_size w)" "mf_content fs (fresh_mf dirs dir name block_size w) = []"
    "mf_paths (fresh_mf dirs dir name block_size w) = [part_path (dir_name (dirs ! dir)) name 0]"
    "mf_blocksize (fresh_mf dirs dir name block_size w) = block_size" "mf_wr (fresh_mf dirs dir name block_size w) = w"
    "\<not> mf_locked (fresh_mf dirs dir name block_size w)" "mf_isopen (fresh_mf dirs dir name block_size w)"
    "mf_name (fresh_mf dirs dir name block_size w) = name"
  using assms by (simp_all add: fresh_mf_def mf_ok_def parts_ok_def mf_paths_def content_of_def mf_content_def)

text \<open>C37: Opening a metafile that the area does not know yet, when the area has an unlimited directory first
  with room, yields an open, empty, well formed metafile in the first directory with room for a block,
  and a second open of the same name before it is closed is refused.\<close>

theorem mf_open_new:
  assumes "0 < block_size" "\<forall>m\<in>set (ma_mfiles ma). mf_name m \<noteq> name"
    and "dir < length (ma_dirs ma)" "max_bytes (ma_dirs ma ! dir) < 0"
    and "\<forall>k<dir. \<not> dir_has_room block_size (ma_dirs ma ! k)"
    and "fs (part_path (dir_name (ma_dirs ma ! dir)) name 0) = None"
  shows "\<exists>mf ma'. mf_open ma name block_size True = Some (Some (mf, ma')) \<and> mf_isopen mf \<and> mf_blocksize mf = block_size \<and>
    mf_paths mf = [part_path (dir_name (ma_dirs ma ! dir)) name 0] \<and> mf_ok fs (ma_dirs ma') mf \<and> mf_content fs mf = [] \<and>
    mf_open ma' name block_size w = Some None"
proof -
  let ?mf = "fresh_mf (ma_dirs ma) dir name block_size True"
  let ?ma = "ma\<lparr>ma_mfiles := ?mf # ma_mfiles ma\<rparr>"
  note f = fresh_mf_ok [of block_size dir "ma_dirs ma" fs name, OF assms(1,3,4,6)]
  have "mf_open ?ma name block_size w = Some None" using assms(1) f(7,8) by (simp add: mf_open_def)
  then show ?thesis using mf_open_fresh [OF _ assms(2-5)] assms(1) f by (intro exI [of _ ?mf] exI [of _ ?ma]) simp
qed

theorem mf_open_new_witness:
  "\<exists>mf ma'. mf_open \<lparr>ma_name = ''register'', ma_dirs = [\<lparr>dir_name = ''.'', max_bytes = - 1, avail_bytes = - 1\<rparr>], ma_mfiles = []\<rparr>
      ''dict'' 4096 True = Some (Some (mf, ma')) \<and> mf_ok Map.empty (ma_dirs ma') mf \<and> mf_open ma' ''dict'' 4096 True = Some None"
  using mf_open_new [of 4096 "\<lparr>ma_name = ''register'', ma_dirs = [\<lparr>dir_name = ''.'', max_bytes = - 1, avail_bytes = - 1\<rparr>], ma_mfiles = []\<rparr>"
      "''dict''" 0 Map.empty True]
  by auto

section \<open>Defects\<close>

text \<open>C39: A read before the start of the file reports an error and leaves the metafile's mutex locked: the
  next read or write of the same metafile never returns.\<close>

theorem mf_read_error_keeps_lock:
  assumes "mf_ok fs dirs mf" "\<not> mf_locked mf" "no < 0" "no * mf_blocksize mf + offset < 0" "mf_cur mf = 0" "mf_wr mf"
  shows "\<exists>fs' mf'. mf_read fs mf no offset nbytes = Some (- 1, [], fs', mf') \<and>
    mf_read fs' mf' no' offset' nbytes' = None \<and> mf_write fs' dirs mf' no' offset' nbytes' buf = None"
proof -
  have n: "0 < length (mf_files mf)" "\<forall>f\<in>set (mf_files mf). 0 \<le> pf_blocks f"
    using assms(1,5) by (auto simp: mf_ok_def parts_ok_def)
  have b0: "0 \<le> pf_blocks (mf_files mf ! 0)" using n by simp
  have "\<not> pf_top (mf_files mf ! 0) < no" if "Suc 0 < length (mf_files mf)"
    using that assms(1,3) b0 by (simp add: mf_ok_def parts_ok_def blocks_before_Suc)
  then have p: "position_part (mf\<lparr>mf_locked := True\<rparr>) no = Some (0, 0)"
    using assms(5) n by (auto simp: position_part_def Let_def)
  obtain fs1 f where o: "part_open fs True (mf_files mf ! 0) = Some (fs1, f)"
    by (cases "pf_fd (mf_files mf ! 0)"; cases "fs (pf_path (mf_files mf ! 0))") (auto simp: part_open_def)
  have "file_position fs (mf\<lparr>mf_locked := True\<rparr>) no offset = Some (- 1, fs1, set_part (mf\<lparr>mf_locked := True\<rparr>) 0 f)"
    using p o assms(4,6) by (simp add: file_position_def)
  then have "mf_read fs mf no offset nbytes = Some (- 1, [], fs1, set_part (mf\<lparr>mf_locked := True\<rparr>) 0 f)"
    using assms(2) by (simp add: mf_read_def mf_lock_def)
  then show ?thesis by (auto simp: mf_read_def mf_write_def mf_lock_def)
qed

theorem mf_read_error_keeps_lock_witness:
  "\<exists>fs' mf'. mf_read two_fs (two_parts True) (- 1) 0 0 = Some (- 1, [], fs', mf') \<and> mf_read fs' mf' 0 0 0 = None"
proof -
  have "mf_cur (two_parts True) = 0" by (simp add: two_parts_def)
  then show ?thesis using mf_read_error_keeps_lock [OF two_parts_ok, of True "- 1" 0 0 0 0 0 "[]"] by auto
qed

lemma dec_digit: "n < 10 \<Longrightarrow> dec_digits n = [char_of (48 + n)]"
  by (subst dec_digits.simps) simp

lemma mf_grow_cases:
  assumes "nth_opt (mf_files mf) (mf_cur mf) = Some f" "nth_opt dirs (pf_dir f) = Some d"
  shows "ps < pf_blocks f \<Longrightarrow> mf_grow fs dirs mf no offset ps = Some (0, fs, dirs, mf)"
    and "\<not> ps < pf_blocks f \<Longrightarrow> dir_has_room ((ps - pf_blocks f + 1) * mf_blocksize mf) d \<Longrightarrow>
      mf_grow fs dirs mf no offset ps =
        mf_grow fs (if 0 \<le> max_bytes d then take_bytes dirs (pf_dir f) ((ps - pf_blocks f + 1) * mf_blocksize mf) else dirs)
          (grow_part mf (ps - pf_blocks f + 1)) no offset ps"
    and "\<not> ps < pf_blocks f \<Longrightarrow> \<not> dir_has_room ((ps - pf_blocks f + 1) * mf_blocksize mf) d \<Longrightarrow>
      cap_off fs dirs mf = Some (0, fs', dirs', mf') \<Longrightarrow>
      find_dir (dir_has_room ((ps - pf_blocks f + 1) * mf_blocksize mf)) dirs' 0 = Some dp \<Longrightarrow>
      add_part dirs' mf' dp = Some mf'' \<Longrightarrow> file_position fs' mf'' no offset = Some (ps', fs'', mf3) \<Longrightarrow> \<not> ps' < 0 \<Longrightarrow>
      mf_grow fs dirs mf no offset ps = mf_grow fs'' dirs' mf3 no offset ps'"
  using assms by (subst mf_grow.simps, simp add: dir_has_room_def Let_def)+

text \<open>A metafile that is about to leave its last part: part \<open>f\<close> is the current and last one and not the first, it has
  blocks, its directory is limited and has room for \<open>n\<close> more blocks, but block \<open>no\<close> lies behind them; some
  directory is unlimited and the path of the next part is not that of \<open>f\<close>.\<close>

definition leaving_part :: "fsys \<Rightarrow> mf_dir list \<Rightarrow> meta_file \<Rightarrow> part_file \<Rightarrow> byte list \<Rightarrow> int \<Rightarrow> int \<Rightarrow> bool" where
  "leaving_part fs dirs mf f content n no \<longleftrightarrow>
     mf_wr mf \<and> \<not> mf_locked mf \<and> 0 < mf_blocksize mf \<and>
     0 < mf_cur mf \<and> mf_cur mf + 1 = length (mf_files mf) \<and> length (mf_files mf) < MF_MAX_PARTS \<and>
     f = mf_files mf ! mf_cur mf \<and> 0 < pf_blocks f \<and> fs (pf_path f) = Some content \<and>
     int (length content) = pf_blocks f * mf_blocksize mf \<and>
     pf_dir f < length dirs \<and> 0 \<le> max_bytes (dirs ! pf_dir f) \<and>
     n = avail_bytes (dirs ! pf_dir f) div mf_blocksize mf \<and> 0 < n \<and> n < 2 ^ 31 \<and>
     0 \<le> pf_top (mf_files mf ! (mf_cur mf - 1)) \<and>
     pf_top (mf_files mf ! (mf_cur mf - 1)) + 1 + pf_blocks f + n \<le> no \<and> (no + 1) * mf_blocksize mf < 2 ^ 63 \<and>
     (\<exists>d \<in> set dirs. max_bytes d < 0) \<and>
     (\<forall>d \<in> set dirs. part_path (dir_name d) (mf_name mf) (pf_number f + 1) \<noteq> pf_path f)"

lemma find_dir_unlimited: "\<exists>d \<in> set dirs. max_bytes d < 0 \<Longrightarrow> \<exists>k. find_dir (dir_has_room b) dirs i = Some k"
  by (induction dirs arbitrary: i) (auto simp: dir_has_room_def)

text \<open>Positioning in the current part.\<close>

lemma file_position_cur:
  assumes "mf_cur mf < length (mf_files mf)" "f = mf_files mf ! mf_cur mf" "off = (if mf_cur mf = 0 then 0 else pf_top (mf_files mf ! (mf_cur mf - 1)) + 1)"
    and "mf_cur mf + 1 = length (mf_files mf)" "off \<le> pos" "0 < mf_blocksize mf" "0 \<le> offset" "part_open fs (mf_wr mf) f = Some (fs', f')"
  shows "file_position fs mf pos offset =
    Some (pos - off, fs', set_part mf (mf_cur mf) (f'\<lparr>pf_fd := Some (nat ((pos - off) * mf_blocksize mf + offset))\<rparr>))"
proof -
  have "position_part mf pos = Some (mf_cur mf, off)" using assms(1,3-5) by (auto simp: position_part_def Let_def)
  moreover have "0 \<le> (pos - off) * mf_blocksize mf + offset" using assms(5-7) by simp
  ultimately show ?thesis using assms(2,8) by (simp add: file_position_def set_part_def Let_def)
qed

lemma part_open_there: "fs (pf_path f) = Some content \<Longrightarrow> \<exists>x. part_open fs w f = Some (fs, f\<lparr>pf_fd := Some x\<rparr>)"
  by (cases "pf_fd f"; cases f) (auto simp: part_open_def)

lemma set_part_fields:
  "mf_files (set_part m c g) = (mf_files m)[c := g]" "mf_cur (set_part m c g) = mf_cur m" "mf_wr (set_part m c g) = mf_wr m"
  "mf_blocksize (set_part m c g) = mf_blocksize m" "mf_name (set_part m c g) = mf_name m" "mf_locked (set_part m c g) = mf_locked m"
  "set_part (set_part m c g) c h = set_part m c h"
  by (simp_all add: set_part_def)

lemma cur_write_there:
  "c = mf_cur m \<Longrightarrow> c < length (mf_files m) \<Longrightarrow> fs (pf_path g) = Some content \<Longrightarrow> pf_fd g = Some off \<Longrightarrow>
    cur_write fs (set_part m c g) bs =
      Some (fs(pf_path g \<mapsto> file_pwrite content off bs), set_part m c (g\<lparr>pf_fd := Some (off + length bs)\<rparr>))"
  by (simp add: cur_write_def set_part_fields nth_opt_def)

text \<open>The dummy byte of a part other than the first: the position is counted from the block before the part.\<close>

lemma cap_off_early:
  assumes l: "leaving_part fs dirs mf f content n no" and mf: "mf_files mf1 = (mf_files mf)[mf_cur mf := f\<lparr>pf_fd := x\<rparr>]"
    "mf_cur mf1 = mf_cur mf" "mf_wr mf1" "mf_blocksize mf1 = mf_blocksize mf"
  shows "\<exists>y. cap_off fs dirs mf1 = Some (0, fs(pf_path f \<mapsto> file_pwrite content (nat ((pf_blocks f + n - 2) * mf_blocksize mf)) [0xff]),
    take_bytes dirs (pf_dir f) (n * mf_blocksize mf),
    set_part mf1 (mf_cur mf) (f\<lparr>pf_fd := y, pf_blocks := pf_blocks f + n, pf_bytes := pf_bytes f + n * mf_blocksize mf\<rparr>))"
proof -
  let ?c = "mf_cur mf" and ?bs = "mf_blocksize mf"
  define top where "top = pf_top (mf_files mf ! (mf_cur mf - 1))"
  note L = l [unfolded leaving_part_def]
  have c: "0 < ?c" "?c < length (mf_files mf)" "?c + 1 = length (mf_files mf)" using L by auto
  have cur: "mf_files mf1 ! ?c = f\<lparr>pf_fd := x\<rparr>" "mf_files mf1 ! (?c - 1) = mf_files mf ! (?c - 1)" using c mf(1) by simp_all
  have av: "0 < n" "n < 2 ^ 31" "0 < ?bs" "0 < pf_blocks f" "n = avail_bytes (dirs ! pf_dir f) div ?bs" using L by auto
  have nn: "0 < avail_bytes (dirs ! pf_dir f)" using av(1,3,5) by (simp add: pos_imp_zdiv_pos_iff)
  have "avail_bytes (dirs ! pf_dir f) sdiv ?bs = n" using nn av(3,5) by (simp add: signed_divide_int_def)
  moreover have "c_cast n = n" unfolding c_cast_def by (rule sint_word32) (use av in auto)
  ultimately have nb: "c_cast (avail_bytes (dirs ! pf_dir f) sdiv ?bs) = n" by simp
  obtain z where z: "part_open fs (mf_wr mf1) (f\<lparr>pf_fd := x\<rparr>) = Some (fs, f\<lparr>pf_fd := Some z\<rparr>)"
    using part_open_there [of fs "f\<lparr>pf_fd := x\<rparr>" content "mf_wr mf1"] L by auto
  let ?sk = "nat ((pf_blocks f + n - 2) * ?bs)"
  have d: "top + pf_blocks f + n - 1 - (top + 1) = pf_blocks f + n - 2" by simp
  have p: "file_position fs mf1 (top + pf_blocks f + n - 1) 0 = Some (pf_blocks f + n - 2, fs, set_part mf1 ?c (f\<lparr>pf_fd := Some ?sk\<rparr>))"
  proof -
    have "file_position fs mf1 (top + pf_blocks f + n - 1) 0 = Some (top + pf_blocks f + n - 1 - (top + 1), fs,
        set_part mf1 (mf_cur mf1) (f\<lparr>pf_fd := Some z\<rparr>\<lparr>pf_fd := Some (nat ((top + pf_blocks f + n - 1 - (top + 1)) * mf_blocksize mf1 + 0))\<rparr>))"
    proof (rule file_position_cur)
      show "mf_cur mf1 < length (mf_files mf1)" "mf_cur mf1 + 1 = length (mf_files mf1)" using c(2,3) mf(1,2) by simp_all
      show "f\<lparr>pf_fd := x\<rparr> = mf_files mf1 ! mf_cur mf1" using cur(1) mf(2) by simp
      show "top + 1 = (if mf_cur mf1 = 0 then 0 else pf_top (mf_files mf1 ! (mf_cur mf1 - 1)) + 1)" using c(1) cur(2) mf(2) by (simp add: top_def)
      show "part_open fs (mf_wr mf1) (f\<lparr>pf_fd := x\<rparr>) = Some (fs, f\<lparr>pf_fd := Some z\<rparr>)" by (rule z)
    qed (use av(1,3,4) mf(4) in simp_all)
    then show ?thesis unfolding d mf(2,4) by simp
  qed
  have pt: "prev_top mf1 0 = top" using c(1) mf(2) cur(2) by (simp add: prev_top_def top_def)
  have len: "?c < length (mf_files mf1)" "mf_cur mf1 = ?c" using c(2) mf(1,2) by simp_all
  have fs: "fs (pf_path f) = Some content" using L by blast
  have w: "cur_write fs (set_part mf1 ?c (f\<lparr>pf_fd := Some ?sk\<rparr>)) [0xff] =
      Some (fs(pf_path f \<mapsto> file_pwrite content ?sk [0xff]), set_part mf1 ?c (f\<lparr>pf_fd := Some (?sk + 1)\<rparr>))"
    using cur_write_there [of ?c mf1 fs "f\<lparr>pf_fd := Some ?sk\<rparr>" content ?sk "[0xff]"] len fs by simp
  have "pf_dir f < length dirs" using L by blast
  then have dir: "nth_opt dirs (pf_dir f) = Some (dirs ! pf_dir f)" by (simp add: nth_opt_def)
  have f1: "nth_opt (mf_files mf1) ?c = Some (f\<lparr>pf_fd := x\<rparr>)" using len cur(1) by (simp add: nth_opt_def)
  have f2: "nth_opt ((mf_files mf1)[?c := g]) ?c = Some g" for g using len by (simp add: nth_opt_def)
  have g: "grow_part (set_part mf1 ?c (f\<lparr>pf_fd := Some (?sk + 1)\<rparr>)) n =
      set_part mf1 ?c (f\<lparr>pf_fd := Some (?sk + 1), pf_blocks := pf_blocks f + n, pf_bytes := pf_bytes f + n * ?bs\<rparr>)"
    using len mf(4) by (simp add: grow_part_def set_part_fields)
  have s: "\<not> pf_blocks f + n < 2" using av(1,4) by simp
  have "cap_off fs dirs mf1 = Some (0, fs(pf_path f \<mapsto> file_pwrite content ?sk [0xff]), take_bytes dirs (pf_dir f) (n * ?bs),
      grow_part (set_part mf1 ?c (f\<lparr>pf_fd := Some (?sk + 1)\<rparr>)) n)"
    unfolding cap_off_def len(2) f1 by (simp add: Let_def dir mf(3,4) nb av(1) pt p s set_part_fields(1-4) len(2) w f2)
  then show ?thesis unfolding g by blast
qed

lemma part_open_write:
  assumes "pf_path g \<noteq> p"
  shows "\<exists>fs' z content. part_open fs True g = Some (fs', g\<lparr>pf_fd := Some z\<rparr>) \<and> (pf_fd g = None \<longrightarrow> fs' (pf_path g) = Some content) \<and> fs' p = fs p"
  using assms by (cases "pf_fd g"; cases "fs (pf_path g)"; cases g) (auto simp: part_open_def)

text \<open>A new part that has room grows to the block and takes the write.\<close>

lemma write_new_part:
  assumes m: "mf_cur m = c" "c < length (mf_files m)" "c + 1 = length (mf_files m)" "mf_files m ! c = g" "mf_wr m" "mf_blocksize m = bs"
    and g: "pf_blocks g = 0" "pf_fd g = Some sk" "fs (pf_path g) = Some content" "pf_path g \<noteq> p"
    and d: "pf_dir g < length dirs" "dir_has_room ((ps + 1) * bs) (dirs ! pf_dir g)" and ps: "0 \<le> ps"
    and len: "0 \<le> nbytes" "0 < bs" "nat (if nbytes = 0 then bs else nbytes) \<le> length buf"
  shows "\<exists>fs' dirs' m' m''. mf_grow fs dirs m no offset ps = Some (0, fs, dirs', m') \<and> mf_wr m' \<and>
    io_length m' nbytes = Some (nat (if nbytes = 0 then bs else nbytes)) \<and>
    cur_write fs m' (take (nat (if nbytes = 0 then bs else nbytes)) buf) = Some (fs', m'') \<and> fs' p = fs p"
proof -
  let ?h = "g\<lparr>pf_blocks := ps + 1, pf_bytes := pf_bytes g + (ps + 1) * bs\<rparr>"
  let ?n = "nat (if nbytes = 0 then bs else nbytes)"
  define dirs' where "dirs' = (if 0 \<le> max_bytes (dirs ! pf_dir g) then take_bytes dirs (pf_dir g) ((ps + 1) * bs) else dirs)"
  have cur: "nth_opt (mf_files m) (mf_cur m) = Some g" "nth_opt dirs (pf_dir g) = Some (dirs ! pf_dir g)"
    using m(1,2,4) d(1) by (simp_all add: nth_opt_def)
  have gr: "grow_part m (ps + 1) = set_part m c ?h" using m g(1) by (simp add: grow_part_def)
  have cur': "nth_opt (mf_files (set_part m c ?h)) (mf_cur (set_part m c ?h)) = Some ?h"
    "nth_opt dirs' (pf_dir ?h) = Some (dirs' ! pf_dir g)"
    using m(1,2) d(1) by (simp_all add: nth_opt_def set_part_fields dirs'_def take_bytes_def)
  have "mf_grow fs dirs m no offset ps = mf_grow fs dirs' (set_part m c ?h) no offset ps"
    using mf_grow_cases(2) [OF cur, of ps fs no offset] g(1) ps d(2) m(6) gr by (simp add: dirs'_def)
  also have "\<dots> = Some (0, fs, dirs', set_part m c ?h)"
    using mf_grow_cases(1) [OF cur', of ps fs no offset] by simp
  finally have 1: "mf_grow fs dirs m no offset ps = Some (0, fs, dirs', set_part m c ?h)" .
  have 2: "io_length (set_part m c ?h) nbytes = Some ?n" using m(6) len(1,2) by (auto simp: io_length_def set_part_fields Let_def)
  have "cur_write fs (set_part m c ?h) (take ?n buf) =
      Some (fs(pf_path ?h \<mapsto> file_pwrite content sk (take ?n buf)), set_part m c (?h\<lparr>pf_fd := Some (sk + length (take ?n buf))\<rparr>))"
    by (rule cur_write_there) (use m g in simp_all)
  then show ?thesis using 1 2 m(5) g(4) by (auto simp: set_part_fields)
qed

text \<open>What follows the dummy byte: the next part is added and positioned at.\<close>

lemma enter_next_part:
  assumes m: "mf_cur m = c" "0 < c" "c + 1 = length (mf_files m)" "length (mf_files m) < MF_MAX_PARTS" "mf_files m ! c = g" "mf_wr m" "0 < mf_blocksize m"
    and t: "tp = pf_top (mf_files m ! (c - 1))" "tp + 1 + pf_blocks g \<le> no" and off: "0 \<le> offset"
    and path: "part_path (dir_name (dirs ! dp)) (mf_name m) (pf_number g + 1) \<noteq> p"
  shows "\<exists>m1 m2 h sk fs' content. add_part dirs m dp = Some m1 \<and>
    file_position fs m1 no offset = Some (no - (tp + 1 + pf_blocks g), fs', m2) \<and>
    mf_cur m2 = c + 1 \<and> c + 2 = length (mf_files m2) \<and> mf_files m2 ! (c + 1) = h \<and> mf_wr m2 \<and> mf_blocksize m2 = mf_blocksize m \<and>
    pf_blocks h = 0 \<and> pf_fd h = Some sk \<and> fs' (pf_path h) = Some content \<and> pf_path h \<noteq> p \<and> pf_dir h = dp \<and> fs' p = fs p"
proof -
  let ?new = "\<lparr>pf_number = pf_number g + 1, pf_top = - 1, pf_blocks = 0, pf_bytes = 0, pf_dir = dp,
    pf_path = part_path (dir_name (dirs ! dp)) (mf_name m) (pf_number g + 1), pf_fd = None\<rparr>"
  have l: "length (mf_files m) = Suc c" using m(3) by simp
  define m1 where "m1 = m\<lparr>mf_files := (mf_files m)[c := g\<lparr>pf_top := tp + pf_blocks g\<rparr>] @ [?new], mf_cur := c + 1\<rparr>"
  have a: "add_part dirs m dp = Some m1"
    using m t(1) by (simp add: add_part_def set_part_def prev_top_def m1_def Let_def)
  obtain fs' z content where o: "part_open fs True ?new = Some (fs', ?new\<lparr>pf_fd := Some z\<rparr>)" "fs' (pf_path ?new) = Some content" "fs' p = fs p"
    using part_open_write [of ?new p fs] path by auto
  let ?o = "tp + 1 + pf_blocks g"
  let ?h = "?new\<lparr>pf_fd := Some z\<rparr>\<lparr>pf_fd := Some (nat ((no - ?o) * mf_blocksize m1 + offset))\<rparr>"
  have p: "file_position fs m1 no offset = Some (no - ?o, fs', set_part m1 (mf_cur m1) ?h)"
  proof (rule file_position_cur)
    show "?new = mf_files m1 ! mf_cur m1" "mf_cur m1 < length (mf_files m1)" "mf_cur m1 + 1 = length (mf_files m1)"
      using l by (simp_all add: m1_def nth_append)
    show "?o = (if mf_cur m1 = 0 then 0 else pf_top (mf_files m1 ! (mf_cur m1 - 1)) + 1)"
      using l by (simp add: m1_def nth_append)
    show "part_open fs (mf_wr m1) ?new = Some (fs', ?new\<lparr>pf_fd := Some z\<rparr>)" using o(1) m(6) by (simp add: m1_def)
  qed (use t(2) m(7) off in \<open>simp_all add: m1_def\<close>)
  show ?thesis
    by (rule exI [of _ m1], rule exI [of _ "set_part m1 (mf_cur m1) ?h"], rule exI [of _ ?h],
        rule exI [of _ "nat ((no - ?o) * mf_blocksize m1 + offset)"], rule exI [of _ fs'], rule exI [of _ content])
      (use a p o path m(6) l in \<open>simp add: set_part_fields m1_def nth_append\<close>)
qed

lemma capped_content:
  assumes "int (length content) = b * bs" "0 < b" "0 < n" "0 < bs"
  shows "file_pwrite content (nat ((b + n - 2) * bs)) [x] =
    (if n = 1 then content[nat ((b - 1) * bs) := x] else content @ replicate (nat ((n - 2) * bs)) 0 @ [x])"
proof (cases "n = 1")
  case True
  have "(b - 1) * bs < b * bs" "0 \<le> (b - 1) * bs" using assms(2,4) by simp_all
  then have "nat ((b - 1) * bs) < length content" using assms(1) by linarith
  moreover have "b + n - 2 = b - 1" using True by simp
  ultimately show ?thesis using True by (simp add: file_pwrite_def upd_conv_take_nth_drop Let_def)
next
  case False
  have "(b + n - 2) * bs = b * bs + (n - 2) * bs" by (simp add: algebra_simps)
  moreover have "0 \<le> (n - 2) * bs" using False assms(3,4) by simp
  ultimately have "nat ((b + n - 2) * bs) = length content + nat ((n - 2) * bs)" using assms(1) by simp
  then show ?thesis using False by (simp add: file_pwrite_def Let_def)
qed

lemma find_dir_bound: "find_dir ok ds 0 = Some k \<Longrightarrow> k < length ds \<and> ok (ds ! k)"
  using find_dir_spec [of ok ds 0 k] by simp

text \<open>An area with two small directories and one without limit; a metafile of blocks of two bytes is
  written block by block until it leaves its second part, where a byte of block 1 is lost.\<close>

definition cap_dirs :: "mf_dir list" where
  "cap_dirs = [\<lparr>dir_name = ''a'', max_bytes = 2, avail_bytes = 2\<rparr>, \<lparr>dir_name = ''b'', max_bytes = 4, avail_bytes = 4\<rparr>,
               \<lparr>dir_name = ''c'', max_bytes = - 1, avail_bytes = - 1\<rparr>]"

definition cap_run :: "(byte list \<times> int \<times> byte list) option" where
  "cap_run =
     do { r \<leftarrow> mf_open \<lparr>ma_name = ''register'', ma_dirs = cap_dirs, ma_mfiles = []\<rparr> ''x'' 2 True;
          (mf, ma) \<leftarrow> r;
          (_, fs, dirs, mf) \<leftarrow> mf_write Map.empty (ma_dirs ma) mf 0 0 0 [1, 2];
          (_, fs, dirs, mf) \<leftarrow> mf_write fs dirs mf 1 0 0 [3, 4];
          (_, before, fs, mf) \<leftarrow> mf_read fs mf 1 0 0;
          (ret, fs, dirs, mf) \<leftarrow> mf_write fs dirs mf 5 0 0 [5, 6];
          (_, after, fs, mf) \<leftarrow> mf_read fs mf 1 0 0;
          Some (before, ret, after) }"

lemma cap_run_overwrites: "cap_run = Some ([3, 4], 0, [0xff, 4])"
  by (simp add: cap_run_def cap_dirs_def mf_open_def new_metafile_def start_metafile_def MF_MIN_BLOCKS_CREAT_def MF_MAX_PARTS_def
      dir_has_room_def Let_def c_cast_def part_path_def dec_string_def dec_digit FILENAME_MAX_def mf_write_def
      mf_lock_def mf_unlock_def file_position_def position_part_def part_open_def set_part_def mf_grow_cases nth_opt_def
      grow_part_def take_bytes_def io_length_def cur_write_def cur_read_def file_pwrite_def file_pread_def cap_off_def
      add_part_def prev_top_def mf_read_def signed_divide_int_def)

lemma need_more:
  assumes "n = avail div bs" "0 < bs" "tp + 1 + blocks + n \<le> (no :: int)"
  shows "avail < (no - (tp + 1) - blocks + 1) * bs"
proof -
  have "avail = n * bs + avail mod bs" unfolding assms(1) by simp
  moreover have "avail mod bs < bs" using assms(2) by simp
  moreover have "(n + 1) * bs = n * bs + bs" by (simp add: distrib_right)
  moreover have "(n + 1) * bs \<le> (no - (tp + 1) - blocks + 1) * bs" using assms(2,3) by (intro mult_right_mono) simp_all
  ultimately show ?thesis by linarith
qed

definition last_top :: "meta_file \<Rightarrow> int" where
  "last_top mf = pf_top (mf_files mf ! (mf_cur mf - 1))"

text \<open>The write positions in the part that it is about to leave.\<close>

lemma leaving_position:
  assumes "leaving_part fs dirs mf f content n no" "0 \<le> offset"
  shows "\<exists>x mf2. file_position fs (mf\<lparr>mf_locked := True\<rparr>) no offset = Some (no - (last_top mf + 1), fs, mf2) \<and>
    mf_files mf2 = (mf_files mf)[mf_cur mf := f\<lparr>pf_fd := x\<rparr>] \<and> mf_cur mf2 = mf_cur mf \<and> mf_wr mf2 \<and> mf_blocksize mf2 = mf_blocksize mf \<and>
    mf_name mf2 = mf_name mf"
proof -
  note L = assms(1) [unfolded leaving_part_def]
  let ?mf1 = "mf\<lparr>mf_locked := True\<rparr>"
  have c: "0 < mf_cur mf" "mf_cur mf < length (mf_files mf)" "mf_cur mf + 1 = length (mf_files mf)" using L by linarith+
  have f: "mf_files mf ! mf_cur mf = f" "0 < pf_blocks f" "fs (pf_path f) = Some content" "mf_wr mf" using L by blast+
  have n: "0 < n" "0 < mf_blocksize mf" "last_top mf + 1 + pf_blocks f + n \<le> no" using L unfolding last_top_def by blast+
  obtain z where z: "part_open fs (mf_wr ?mf1) f = Some (fs, f\<lparr>pf_fd := Some z\<rparr>)" using part_open_there [of fs f content "mf_wr ?mf1"] f(3) by blast
  have "file_position fs ?mf1 no offset = Some (no - (last_top mf + 1), fs,
      set_part ?mf1 (mf_cur ?mf1) (f\<lparr>pf_fd := Some z\<rparr>\<lparr>pf_fd := Some (nat ((no - (last_top mf + 1)) * mf_blocksize ?mf1 + offset))\<rparr>))"
  proof (rule file_position_cur)
    show "last_top mf + 1 = (if mf_cur ?mf1 = 0 then 0 else pf_top (mf_files ?mf1 ! (mf_cur ?mf1 - 1)) + 1)" using c(1) by (simp add: last_top_def)
    show "mf_cur ?mf1 < length (mf_files ?mf1)" "mf_cur ?mf1 + 1 = length (mf_files ?mf1)" "f = mf_files ?mf1 ! mf_cur ?mf1" using c(2,3) f(1) by simp_all
    show "part_open fs (mf_wr ?mf1) f = Some (fs, f\<lparr>pf_fd := Some z\<rparr>)" by (rule z)
  qed (use n f(2) assms(2) in simp_all)
  then show ?thesis using f(4) by (auto simp: set_part_fields)
qed

text \<open>The part is capped off and the next one entered.\<close>

lemma leaving_grow:
  assumes l: "leaving_part fs dirs mf f content n no" and off: "0 \<le> offset"
    and m2: "mf_files mf2 = (mf_files mf)[mf_cur mf := f\<lparr>pf_fd := x\<rparr>]" "mf_cur mf2 = mf_cur mf" "mf_wr mf2" "mf_blocksize mf2 = mf_blocksize mf"
      "mf_name mf2 = mf_name mf"
  shows "\<exists>fs4 dirs4 m5 ps h sk content'. mf_grow fs dirs mf2 no offset (no - (last_top mf + 1)) = mf_grow fs4 dirs4 m5 no offset ps \<and> 0 \<le> ps \<and>
    mf_cur m5 = mf_cur mf + 1 \<and> mf_cur mf + 2 = length (mf_files m5) \<and> mf_files m5 ! (mf_cur mf + 1) = h \<and> mf_wr m5 \<and> mf_blocksize m5 = mf_blocksize mf \<and>
    pf_blocks h = 0 \<and> pf_fd h = Some sk \<and> fs4 (pf_path h) = Some content' \<and> pf_path h \<noteq> pf_path f \<and> pf_dir h < length dirs4 \<and>
    dir_has_room ((ps + 1) * mf_blocksize mf) (dirs4 ! pf_dir h) \<and>
    fs4 (pf_path f) = Some (file_pwrite content (nat ((pf_blocks f + n - 2) * mf_blocksize mf)) [0xff])"
proof -
  let ?c = "mf_cur mf" and ?bs = "mf_blocksize mf" and ?p = "pf_path f" and ?tp = "last_top mf" and ?f2 = "f\<lparr>pf_fd := x\<rparr>"
  note L = l [unfolded leaving_part_def, folded last_top_def]
  have c: "0 < ?c" "?c < length (mf_files mf)" "?c + 1 = length (mf_files mf)" "length (mf_files mf) < MF_MAX_PARTS" using L by linarith+
  have d: "pf_dir f < length dirs" "0 \<le> max_bytes (dirs ! pf_dir f)" using L by blast+
  have n: "0 < n" "0 < ?bs" "?tp + 1 + pf_blocks f + n \<le> no" and av: "n = avail_bytes (dirs ! pf_dir f) div ?bs" using L by blast+
  have un: "\<exists>d \<in> set dirs. max_bytes d < 0" and np: "\<forall>d \<in> set dirs. part_path (dir_name d) (mf_name mf) (pf_number f + 1) \<noteq> ?p" using L by blast+
  let ?fs = "fs(?p \<mapsto> file_pwrite content (nat ((pf_blocks f + n - 2) * ?bs)) [0xff])" and ?dirs = "take_bytes dirs (pf_dir f) (n * ?bs)"
  obtain y where cap: "cap_off fs dirs mf2 = Some (0, ?fs, ?dirs,
      set_part mf2 ?c (f\<lparr>pf_fd := y, pf_blocks := pf_blocks f + n, pf_bytes := pf_bytes f + n * ?bs\<rparr>))"
    using cap_off_early [OF l m2(1-4)] by blast
  define g where "g = f\<lparr>pf_fd := y, pf_blocks := pf_blocks f + n, pf_bytes := pf_bytes f + n * ?bs\<rparr>"
  define mf3 where "mf3 = set_part mf2 ?c g"
  have m3: "mf_cur mf3 = ?c" "?c + 1 = length (mf_files mf3)" "length (mf_files mf3) < MF_MAX_PARTS" "mf_files mf3 ! ?c = g" "mf_wr mf3"
    "mf_blocksize mf3 = ?bs" "mf_files mf3 ! (?c - 1) = mf_files mf ! (?c - 1)" "mf_name mf3 = mf_name mf"
    using c m2 by (simp_all add: mf3_def set_part_fields)
  define ps where "ps = no - (?tp + 1)"
  let ?need = "(ps - pf_blocks f + 1) * ?bs"
  have dirs: "length ?dirs = length dirs" "k < length dirs \<Longrightarrow> max_bytes (?dirs ! k) = max_bytes (dirs ! k) \<and> dir_name (?dirs ! k) = dir_name (dirs ! k)" for k
    using d(1) by (simp_all add: take_bytes_def nth_list_update)
  have "\<exists>d \<in> set ?dirs. max_bytes d < 0" using un dirs by (metis in_set_conv_nth)
  then obtain dp where dp: "find_dir (dir_has_room ?need) ?dirs 0 = Some dp" using find_dir_unlimited by blast
  then have dp': "dp < length dirs" "dir_has_room ?need (?dirs ! dp)" using find_dir_bound [OF dp] dirs(1) by simp_all
  have path: "part_path (dir_name (?dirs ! dp)) (mf_name mf3) (pf_number g + 1) \<noteq> ?p" using np dp'(1) dirs(2) [OF dp'(1)] m3(8) by (simp add: g_def)
  obtain m4 m5 h sk fs4 content' where a: "add_part ?dirs mf3 dp = Some m4" "file_position ?fs m4 no offset = Some (no - (?tp + 1 + pf_blocks g), fs4, m5)"
    and m5: "mf_cur m5 = ?c + 1" "?c + 2 = length (mf_files m5)" "mf_files m5 ! (?c + 1) = h" "mf_wr m5" "mf_blocksize m5 = mf_blocksize mf3"
    and h: "pf_blocks h = 0" "pf_fd h = Some sk" "fs4 (pf_path h) = Some content'" "pf_path h \<noteq> ?p" "pf_dir h = dp" "fs4 ?p = ?fs ?p"
    using enter_next_part [of mf3 ?c g ?tp no offset ?dirs dp ?p ?fs] m3 c n off path by (auto simp: g_def last_top_def)
  define ps' where "ps' = no - (?tp + 1 + pf_blocks g)"
  have ps': "0 \<le> ps'" "ps' + 1 \<le> ps - pf_blocks f + 1" using n by (simp_all add: ps'_def ps_def g_def)
  have "(ps' + 1) * ?bs \<le> ?need" using ps'(2) n(2) by (intro mult_right_mono) simp_all
  then have room: "dir_has_room ((ps' + 1) * ?bs) (?dirs ! pf_dir h)" using dp'(2) h(5) by (auto simp: dir_has_room_def)
  have "avail_bytes (dirs ! pf_dir f) < ?need" unfolding ps_def using av n(2,3) by (rule need_more)
  then have no_room: "\<not> dir_has_room ((ps - pf_blocks ?f2 + 1) * mf_blocksize mf2) (dirs ! pf_dir f)" using d(2) m2(4) by (simp add: dir_has_room_def)
  have cur: "nth_opt (mf_files mf2) (mf_cur mf2) = Some ?f2" "nth_opt dirs (pf_dir ?f2) = Some (dirs ! pf_dir f)"
    using c(2) m2 d(1) by (simp_all add: nth_opt_def)
  have big: "\<not> ps < pf_blocks ?f2" "\<not> ps' < 0" using n ps'(1) by (simp_all add: ps_def)
  have "mf_grow fs dirs mf2 no offset ps = mf_grow fs4 ?dirs m5 no offset ps'"
    by (rule mf_grow_cases(3) [OF cur big(1) no_room cap [folded g_def mf3_def] _ a(1) a(2) [folded ps'_def] big(2)]) (use dp m2(4) in simp)
  then show ?thesis unfolding ps_def using m5 m3(6) h room ps'(1) dp'(1) dirs(1)
    by (intro exI [of _ fs4] exI [of _ ?dirs] exI [of _ m5] exI [of _ ps'] exI [of _ h] exI [of _ sk] exI [of _ content']) simp
qed

text \<open>C40: Capping off a part other than the first writes its dummy byte one block too early. When a write of a block \<open>no\<close> makes
  the metafile leave its last part \<open>f\<close>, which holds all its blocks and whose directory has room for \<open>n\<close> more, the write succeeds,
  but the dummy byte that should be the first of the \<open>n\<close>th new block goes to the one before: with \<open>n = 1\<close> it overwrites the
  first byte of the last block of the part, which had been written and was complete, and otherwise the part is one block
  short of the blocks it is said to have.\<close>

theorem mf_write_capping_overwrites:
  assumes "leaving_part fs dirs mf f content n no" "in_block mf no offset nbytes" "block_len mf nbytes \<le> length buf"
  shows "\<exists>fs' dirs' mf'. mf_write fs dirs mf no offset nbytes buf = Some (0, fs', dirs', mf') \<and>
    fs' (pf_path f) = Some (if n = 1 then content[nat ((pf_blocks f - 1) * mf_blocksize mf) := 0xff]
      else content @ replicate (nat ((n - 2) * mf_blocksize mf)) 0 @ [0xff])"
proof -
  let ?c = "mf_cur mf" and ?bs = "mf_blocksize mf" and ?p = "pf_path f" and ?n = "nat (if nbytes = 0 then mf_blocksize mf else nbytes)"
  note L = assms(1) [unfolded leaving_part_def]
  have f: "0 < pf_blocks f" "int (length content) = pf_blocks f * ?bs" "0 < n" "0 < ?bs" "\<not> mf_locked mf"
    "pf_top (mf_files mf ! (?c - 1)) + 1 + pf_blocks f + n \<le> no" using L by blast+
  have ib: "0 \<le> offset" "0 \<le> nbytes" "?n \<le> length buf" using assms(2,3) by (simp_all add: in_block_def block_len_def)
  obtain x mf2 where p: "file_position fs (mf\<lparr>mf_locked := True\<rparr>) no offset = Some (no - (last_top mf + 1), fs, mf2)"
    and m2: "mf_files mf2 = (mf_files mf)[?c := f\<lparr>pf_fd := x\<rparr>]" "mf_cur mf2 = ?c" "mf_wr mf2" "mf_blocksize mf2 = ?bs" "mf_name mf2 = mf_name mf"
    using leaving_position [OF assms(1) ib(1)] by blast
  obtain fs4 dirs4 m5 ps h sk content' where g: "mf_grow fs dirs mf2 no offset (no - (last_top mf + 1)) = mf_grow fs4 dirs4 m5 no offset ps" "0 \<le> ps"
    and m5: "mf_cur m5 = ?c + 1" "?c + 2 = length (mf_files m5)" "mf_files m5 ! (?c + 1) = h" "mf_wr m5" "mf_blocksize m5 = ?bs"
    and h: "pf_blocks h = 0" "pf_fd h = Some sk" "fs4 (pf_path h) = Some content'" "pf_path h \<noteq> ?p" "pf_dir h < length dirs4"
      "dir_has_room ((ps + 1) * ?bs) (dirs4 ! pf_dir h)"
    and fs4: "fs4 ?p = Some (file_pwrite content (nat ((pf_blocks f + n - 2) * ?bs)) [0xff])"
    using leaving_grow [OF assms(1) ib(1) m2] by blast
  obtain fs' dirs' m' m'' where e: "mf_grow fs4 dirs4 m5 no offset ps = Some (0, fs4, dirs', m')" "mf_wr m'" "io_length m' nbytes = Some ?n"
    "cur_write fs4 m' (take ?n buf) = Some (fs', m'')" "fs' ?p = fs4 ?p"
    using write_new_part [of m5 "?c + 1" h ?bs sk fs4 content' ?p dirs4 ps nbytes buf no offset] m5 h g(2) ib f(4) by auto
  have "\<not> no - (last_top mf + 1) < 0" using f(1,3,6) by (simp add: last_top_def)
  then have "mf_write fs dirs mf no offset nbytes buf = Some (0, fs', dirs', mf_unlock m'')"
    using f(5) p g(1) e(1-4) ib(3) by (simp add: mf_write_def mf_lock_def)
  then show ?thesis using e(5) fs4 capped_content [OF f(2,1,3,4), of "0xff"] by simp
qed

definition cap_mf :: meta_file where
  "cap_mf = \<lparr>mf_name = ''x'',
     mf_files = [\<lparr>pf_number = 0, pf_top = 0, pf_blocks = 1, pf_bytes = 2, pf_dir = 0, pf_path = ''a/x-0.mf'', pf_fd = None\<rparr>,
                 \<lparr>pf_number = 1, pf_top = - 1, pf_blocks = 1, pf_bytes = 2, pf_dir = 1, pf_path = ''b/x-1.mf'', pf_fd = None\<rparr>],
     mf_cur = 1, mf_isopen = True, mf_blocksize = 2, mf_min_bytes_creat = 2, mf_wr = True, mf_locked = False\<rparr>"

theorem mf_write_capping_overwrites_witness:
  "\<exists>fs' dirs' mf'. mf_write [''a/x-0.mf'' \<mapsto> [1, 2], ''b/x-1.mf'' \<mapsto> [3, 4]] (take_bytes (take_bytes cap_dirs 0 2) 1 2) cap_mf 5 0 0 [5, 6] =
     Some (0, fs', dirs', mf') \<and> fs' ''b/x-1.mf'' = Some [0xff, 4]"
proof -
  let ?fs = "[''a/x-0.mf'' \<mapsto> [1, 2], ''b/x-1.mf'' \<mapsto> [3, 4]] :: fsys" and ?dirs = "take_bytes (take_bytes cap_dirs 0 2) 1 2"
  have "leaving_part ?fs ?dirs cap_mf (mf_files cap_mf ! 1) [3, 4] 1 5"
    by (simp add: leaving_part_def cap_mf_def cap_dirs_def take_bytes_def MF_MAX_PARTS_def part_path_def dec_string_def dec_digit FILENAME_MAX_def)
      (simp add: char_of_def)
  moreover have "in_block cap_mf 5 0 0" "block_len cap_mf 0 \<le> length [5, 6 :: byte]" by (simp_all add: in_block_def block_len_def cap_mf_def)
  moreover have "pf_path (mf_files cap_mf ! 1) = ''b/x-1.mf''" "pf_blocks (mf_files cap_mf ! 1) = 1" "mf_blocksize cap_mf = 2" by (simp_all add: cap_mf_def)
  ultimately show ?thesis using mf_write_capping_overwrites [of ?fs ?dirs cap_mf "mf_files cap_mf ! 1" "[3, 4]" 1 5 0 0 "[5, 6]"] by simp
qed

end
