(* ===== verification/Cfile.thy ===== *)
theory Cfile
  imports Mfile Memory_Image
begin

text \<open>
  Commit files (\<^verbatim>\<open>bfile/cfile.c\<close>, \<^verbatim>\<open>bfile/cfile.h\<close>): the shadow of a metafile. Written blocks go to a block file
  of their own; an index file maps the block numbers of the original to those of the shadow, first as a
  hash table of buckets cached in memory, later as a flat table.

  The state holds the fields of \<^verbatim>\<open>struct CFile_struct\<close>, its three metafiles and the file system with the
  directories of the shadow area (\<open>cf_dirs\<close>) and of the register area (\<open>cf_rdirs\<close>). The buckets in memory are
  linked in C into one queue in the order of allocation and into one chain per hash value, newest first;
  both orders are those of \<open>cf_buckets\<close>, oldest first, where each bucket carries its hash value. Block
  numbers are unbounded here, with the bounds \<open>cf_fits\<close> and \<open>room_ok\<close> in the properties, and take eight bytes on disk. \<open>None\<close> is undefined behaviour, a failing
  assertion or no return.
\<close>

section \<open>Data\<close>

definition HASH_BUCKET :: nat where "HASH_BUCKET = 15"

record ph_bucket =
  ph_no :: "int list"
  ph_vno :: "int list"
  ph_this :: int
  ph_next :: int

record hash_bucket =
  hb_ph :: ph_bucket
  hb_dirty :: bool
  hb_hno :: int

definition HASH_BSIZE :: nat where "HASH_BSIZE = 256"

definition CFILE_STATE_HASH :: int where "CFILE_STATE_HASH = 1"

definition CFILE_STATE_FLAT :: int where "CFILE_STATE_FLAT = 2"

record cfile_head =
  ch_state :: int
  ch_next_block :: int
  ch_block_size :: int
  ch_hash_size :: int
  ch_first_bucket :: int
  ch_next_bucket :: int
  ch_flat_bucket :: int

record cfile =
  cf_head :: cfile_head
  cf_block_mf :: meta_file
  cf_hash_mf :: meta_file
  cf_array :: "int list option"
  cf_buckets :: "hash_bucket list"
  cf_dirty :: bool
  cf_max_bucket_in_memory :: nat
  cf_iobuf :: "byte list"
  cf_rmf :: "meta_file option"
  cf_no_hits :: int
  cf_no_miss :: int
  cf_locked :: bool
  cf_fs :: fsys
  cf_dirs :: "mf_dir list"
  cf_rdirs :: "mf_dir list"

text \<open>The structures as bytes. The compiler puts four bytes of padding after \<^verbatim>\<open>state\<close>.\<close>

definition ph_bytes :: "ph_bucket \<Rightarrow> byte list" where
  "ph_bytes p = concat (map zint_bytes (ph_no p @ ph_vno p @ [ph_this p, ph_next p]))"

definition zints_of_bytes :: "nat \<Rightarrow> byte list \<Rightarrow> int list" where
  "zints_of_bytes n bs = map (\<lambda>i. zint_of_bytes (take 8 (drop (8 * i) bs))) [0..<n]"

definition ph_of_bytes :: "byte list \<Rightarrow> ph_bucket" where
  "ph_of_bytes bs =
     (let zs = zints_of_bytes 32 bs
      in \<lparr>ph_no = take HASH_BUCKET zs, ph_vno = take HASH_BUCKET (drop HASH_BUCKET zs), ph_this = zs ! 30, ph_next = zs ! 31\<rparr>)"

definition head_bytes :: "cfile_head \<Rightarrow> byte list" where
  "head_bytes h = int_bytes (ch_state h) @ replicate 4 0x5A @ zint_bytes (ch_next_block h) @ int_bytes (ch_block_size h) @
     int_bytes (ch_hash_size h) @ zint_bytes (ch_first_bucket h) @ zint_bytes (ch_next_bucket h) @ zint_bytes (ch_flat_bucket h)"

definition head_of_bytes :: "byte list \<Rightarrow> cfile_head" where
  "head_of_bytes bs =
     \<lparr>ch_state = int_of_bytes (take 4 bs), ch_next_block = zint_of_bytes (take 8 (drop 8 bs)),
      ch_block_size = int_of_bytes (take 4 (drop 16 bs)), ch_hash_size = int_of_bytes (take 4 (drop 20 bs)),
      ch_first_bucket = zint_of_bytes (take 8 (drop 24 bs)), ch_next_bucket = zint_of_bytes (take 8 (drop 32 bs)),
      ch_flat_bucket = zint_of_bytes (take 8 (drop 40 bs))\<rparr>"

definition sizeof_head :: nat where "sizeof_head = 48"

section \<open>Metafiles of a commit file\<close>

definition hash_read :: "cfile \<Rightarrow> int \<Rightarrow> int \<Rightarrow> int \<Rightarrow> (int \<times> byte list \<times> cfile) option" where
  "hash_read cf no offset nbytes =
     do { (r, bs, fs, mf) \<leftarrow> mf_read (cf_fs cf) (cf_hash_mf cf) no offset nbytes;
          Some (r, bs, cf\<lparr>cf_fs := fs, cf_hash_mf := mf\<rparr>) }"

definition hash_write :: "cfile \<Rightarrow> int \<Rightarrow> int \<Rightarrow> int \<Rightarrow> byte list \<Rightarrow> (int \<times> cfile) option" where
  "hash_write cf no offset nbytes buf =
     do { (r, fs, dirs, mf) \<leftarrow> mf_write (cf_fs cf) (cf_dirs cf) (cf_hash_mf cf) no offset nbytes buf;
          Some (r, cf\<lparr>cf_fs := fs, cf_dirs := dirs, cf_hash_mf := mf\<rparr>) }"

definition block_read :: "cfile \<Rightarrow> int \<Rightarrow> int \<Rightarrow> int \<Rightarrow> (int \<times> byte list \<times> cfile) option" where
  "block_read cf no offset nbytes =
     do { (r, bs, fs, mf) \<leftarrow> mf_read (cf_fs cf) (cf_block_mf cf) no offset nbytes;
          Some (r, bs, cf\<lparr>cf_fs := fs, cf_block_mf := mf\<rparr>) }"

definition block_write :: "cfile \<Rightarrow> int \<Rightarrow> int \<Rightarrow> int \<Rightarrow> byte list \<Rightarrow> (int \<times> cfile) option" where
  "block_write cf no offset nbytes buf =
     do { (r, fs, dirs, mf) \<leftarrow> mf_write (cf_fs cf) (cf_dirs cf) (cf_block_mf cf) no offset nbytes buf;
          Some (r, cf\<lparr>cf_fs := fs, cf_dirs := dirs, cf_block_mf := mf\<rparr>) }"

definition rmf_read :: "cfile \<Rightarrow> int \<Rightarrow> int \<Rightarrow> int \<Rightarrow> (int \<times> byte list \<times> cfile) option" where
  "rmf_read cf no offset nbytes =
     do { rmf \<leftarrow> cf_rmf cf;
          (r, bs, fs, mf) \<leftarrow> mf_read (cf_fs cf) rmf no offset nbytes;
          Some (r, bs, cf\<lparr>cf_fs := fs, cf_rmf := Some mf\<rparr>) }"

definition rmf_write :: "cfile \<Rightarrow> int \<Rightarrow> int \<Rightarrow> int \<Rightarrow> byte list \<Rightarrow> (int \<times> cfile) option" where
  "rmf_write cf no offset nbytes buf =
     do { rmf \<leftarrow> cf_rmf cf;
          (r, fs, dirs, mf) \<leftarrow> mf_write (cf_fs cf) (cf_rdirs cf) rmf no offset nbytes buf;
          Some (r, cf\<lparr>cf_fs := fs, cf_rdirs := dirs, cf_rmf := Some mf\<rparr>) }"

text \<open>What a read leaves in its buffer: the bytes read before what the buffer held.\<close>

definition overlay :: "byte list \<Rightarrow> byte list \<Rightarrow> byte list" where
  "overlay bs buf = bs @ drop (length bs) buf"

section \<open>The hash table on disk\<close>

function write_head_loop :: "cfile \<Rightarrow> int \<Rightarrow> byte list \<Rightarrow> (int \<times> cfile) option" where
  "write_head_loop cf bno tab =
     (if HASH_BSIZE \<le> length tab then
        do { (r, cf) \<leftarrow> hash_write cf bno 0 0 tab;
             if r \<noteq> 0 then Some (r, cf) else write_head_loop cf (bno + 1) (drop HASH_BSIZE tab) }
      else if tab \<noteq> [] then hash_write cf bno 0 (int (length tab)) tab
      else Some (0, cf))"
  by pat_completeness auto
termination
  by (relation "measure (\<lambda>(cf, bno, tab). length tab)") (auto simp: HASH_BSIZE_def)

declare write_head_loop.simps [simp del]

definition write_head :: "cfile \<Rightarrow> (int \<times> cfile) option" where
  "write_head cf =
     (case cf_array cf of
        None \<Rightarrow> Some (0, cf)
      | Some a \<Rightarrow> write_head_loop cf 1 (concat (map zint_bytes a)))"

text \<open>Reading the table back; a short read leaves uninitialised memory.\<close>

function read_head_loop :: "cfile \<Rightarrow> int \<Rightarrow> nat \<Rightarrow> byte list \<Rightarrow> (int \<times> byte list \<times> cfile) option" where
  "read_head_loop cf bno left tab =
     (if HASH_BSIZE \<le> left then
        do { (r, bs, cf) \<leftarrow> hash_read cf bno 0 0;
             if r = - 1 then Some (- 1, tab, cf)
             else if r = 0 then None
             else read_head_loop cf (bno + 1) (left - HASH_BSIZE) (tab @ bs) }
      else if 0 < left then
        do { (r, bs, cf) \<leftarrow> hash_read cf bno 0 (int left);
             if r = - 1 then Some (- 1, tab, cf) else if r = 0 then None else Some (1, tab @ bs, cf) }
      else Some (1, tab, cf))"
  by pat_completeness auto
termination
  by (relation "measure (\<lambda>(cf, bno, left, tab). left)") (auto simp: HASH_BSIZE_def)

declare read_head_loop.simps [simp del]

definition read_head :: "cfile \<Rightarrow> (int \<times> cfile) option" where
  "read_head cf =
     (case cf_array cf of
        None \<Rightarrow> Some (0, cf)
      | Some _ \<Rightarrow>
          do { (r, tab, cf) \<leftarrow> read_head_loop cf 1 (nat (ch_hash_size (cf_head cf)) * 8) [];
               Some (r, if r = - 1 then cf
                        else cf\<lparr>cf_array := Some (zints_of_bytes (nat (ch_hash_size (cf_head cf))) tab)\<rparr>) })"

section \<open>The buckets in memory\<close>

definition cf_hash :: "cfile \<Rightarrow> int \<Rightarrow> int" where
  "cf_hash cf no = c_cast ((no div 8) smod ch_hash_size (cf_head cf))"

text \<open>The chain of a hash value, newest first, as positions in the queue.\<close>

definition chain :: "cfile \<Rightarrow> int \<Rightarrow> nat list" where
  "chain cf hno = filter (\<lambda>k. hb_hno (cf_buckets cf ! k) = hno) (rev [0..<length (cf_buckets cf)])"

definition release_bucket :: "cfile \<Rightarrow> nat \<Rightarrow> cfile" where
  "release_bucket cf k = cf\<lparr>cf_buckets := take k (cf_buckets cf) @ drop (k + 1) (cf_buckets cf)\<rparr>"

fun flush_loop :: "hash_bucket list \<Rightarrow> cfile \<Rightarrow> int \<Rightarrow> (int \<times> cfile) option" where
  "flush_loop [] cf ret = Some (ret, cf)"
| "flush_loop (p # ps) cf ret =
     (if hb_dirty p then
        do { (ret, cf) \<leftarrow> (if ret = 0 then
                            do { (r, cf) \<leftarrow> hash_write cf (ph_this (hb_ph p)) 0 0 (ph_bytes (hb_ph p));
                                 Some (if r \<noteq> 0 then - 1 else 0, cf) }
                          else Some (ret, cf));
             flush_loop ps (release_bucket (cf\<lparr>cf_dirty := True\<rparr>) 0) ret }
      else flush_loop ps (release_bucket cf 0) ret)"

text \<open>\<open>None\<close> stands for the -1 that flushes every bucket.\<close>

definition flush_bucket :: "cfile \<Rightarrow> nat option \<Rightarrow> (int \<times> cfile) option" where
  "flush_bucket cf no_to_flush =
     flush_loop (case no_to_flush of None \<Rightarrow> cf_buckets cf | Some n \<Rightarrow> take n (cf_buckets cf)) cf 0"

definition blank_ph :: "int \<Rightarrow> ph_bucket" where
  "blank_ph block_no = \<lparr>ph_no = replicate HASH_BUCKET 0, ph_vno = replicate HASH_BUCKET 0, ph_this = block_no, ph_next = 0\<rparr>"

text \<open>Allocation makes room by flushing the oldest bucket. The new bucket is the last of the queue; its
  memory is not initialised in C and is set by both callers. The flag is false for a null pointer.\<close>

definition alloc_bucket :: "cfile \<Rightarrow> int \<Rightarrow> (bool \<times> cfile) option" where
  "alloc_bucket cf hno =
     do { (r, cf) \<leftarrow> (if length (cf_buckets cf) = cf_max_bucket_in_memory cf then flush_bucket cf (Some 1) else Some (0, cf));
          if r \<noteq> 0 then Some (False, cf)
          else if length (cf_buckets cf) < cf_max_bucket_in_memory cf
               then Some (True, cf\<lparr>cf_buckets := cf_buckets cf @ [\<lparr>hb_ph = blank_ph 0, hb_dirty = False, hb_hno = hno\<rparr>]\<rparr>)
               else None }"

definition set_bucket :: "cfile \<Rightarrow> nat \<Rightarrow> hash_bucket \<Rightarrow> cfile" where
  "set_bucket cf k b = cf\<lparr>cf_buckets := (cf_buckets cf)[k := b]\<rparr>"

definition get_bucket :: "cfile \<Rightarrow> int \<Rightarrow> int \<Rightarrow> (nat option \<times> cfile) option" where
  "get_bucket cf block_no hno =
     do { (ok, cf) \<leftarrow> alloc_bucket cf hno;
          if \<not> ok then Some (None, cf)
          else
            do { let k = length (cf_buckets cf) - 1;
                 (r, bs, cf) \<leftarrow> hash_read cf block_no 0 0;
                 if r \<noteq> 1 then Some (None, release_bucket cf k)
                 else if ph_this (ph_of_bytes bs) = block_no
                      then Some (Some k, set_bucket cf k \<lparr>hb_ph = ph_of_bytes bs, hb_dirty = False, hb_hno = hno\<rparr>)
                      else None } }"

text \<open>\<open>new_bucket\<close> stores the number of the new bucket where \<open>ref\<close> points: in the table or in the link of the bucket
  at a position of the queue.\<close>

definition set_ref :: "cfile \<Rightarrow> int \<Rightarrow> nat option \<Rightarrow> int \<Rightarrow> cfile" where
  "set_ref cf hno ref v =
     (case ref of
        None \<Rightarrow> cf\<lparr>cf_array := map_option (\<lambda>a. a[nat hno := v]) (cf_array cf)\<rparr>
      | Some k \<Rightarrow>
          (let b = cf_buckets cf ! k in set_bucket cf k (b\<lparr>hb_ph := (hb_ph b)\<lparr>ph_next := v\<rparr>\<rparr>)))"

definition get_ref :: "cfile \<Rightarrow> int \<Rightarrow> nat option \<Rightarrow> int" where
  "get_ref cf hno ref =
     (case ref of
        None \<Rightarrow> the (cf_array cf) ! nat hno
      | Some k \<Rightarrow> ph_next (hb_ph (cf_buckets cf ! k)))"

definition new_bucket :: "cfile \<Rightarrow> nat option \<Rightarrow> int \<Rightarrow> (nat option \<times> cfile) option" where
  "new_bucket cf ref hno =
     do { let block_no = ch_next_bucket (cf_head cf);
          (ok, cf) \<leftarrow> alloc_bucket (set_ref (cf\<lparr>cf_head := (cf_head cf)\<lparr>ch_next_bucket := block_no + 1\<rparr>\<rparr>) hno ref block_no) hno;
          if \<not> ok then Some (None, cf)
          else
            do { let k = length (cf_buckets cf) - 1;
                 Some (Some k, set_bucket cf k \<lparr>hb_ph = blank_ph block_no, hb_dirty = True, hb_hno = hno\<rparr>) } }"

section \<open>Looking a block up\<close>

text \<open>The entries of a bucket in use end at the first zero.\<close>

fun entry_search :: "int \<Rightarrow> int list \<Rightarrow> int list \<Rightarrow> int option" where
  "entry_search no (n # ns) (v # vs) = (if v = 0 then None else if n = no then Some v else entry_search no ns vs)"
| "entry_search no _ _ = None"

definition ph_find :: "ph_bucket \<Rightarrow> int \<Rightarrow> int option" where
  "ph_find p no = entry_search no (ph_no p) (ph_vno p)"

definition flat_slot :: "cfile \<Rightarrow> int \<Rightarrow> int \<times> int" where
  "flat_slot cf no =
     (let hno = (no * 8) sdiv int HASH_BSIZE
      in (hno + ch_next_bucket (cf_head cf), c_cast (no * 8 - hno * int HASH_BSIZE)))"

text \<open>The results of the lookups are the return value and \<^verbatim>\<open>*vno\<close>.\<close>

definition cf_lookup_flat :: "cfile \<Rightarrow> int \<Rightarrow> (int \<times> int \<times> cfile) option" where
  "cf_lookup_flat cf no =
     do { let (hno, off) = flat_slot cf no;
          (r, bs, cf) \<leftarrow> hash_read cf hno off 8;
          let vno = zint_of_bytes (overlay bs (replicate 8 0));
          Some (if r = - 1 then - 1 else if vno \<noteq> 0 then 1 else 0, vno, cf) }"

definition find_bucket :: "cfile \<Rightarrow> int \<Rightarrow> int \<Rightarrow> nat option" where
  "find_bucket cf hno block_no = List.find (\<lambda>k. ph_this (hb_ph (cf_buckets cf ! k)) = block_no) (chain cf hno)"

definition bump_hits :: "cfile \<Rightarrow> cfile" where
  "bump_hits cf = cf\<lparr>cf_no_hits := cf_no_hits cf + 1\<rparr>"

definition bump_miss :: "cfile \<Rightarrow> cfile" where
  "bump_miss cf = cf\<lparr>cf_no_miss := cf_no_miss cf + 1\<rparr>"

partial_function (option) lookup_walk :: "cfile \<Rightarrow> int \<Rightarrow> int \<Rightarrow> int \<Rightarrow> (int \<times> int \<times> cfile) option" where
  "lookup_walk cf no hno block_no =
     (if block_no = 0 then Some (0, 0, cf)
      else
        (case find_bucket cf hno block_no of
           Some k \<Rightarrow> lookup_walk cf no hno (ph_next (hb_ph (cf_buckets cf ! k)))
         | None \<Rightarrow>
             do { (b, cf) \<leftarrow> get_bucket (bump_miss cf) block_no hno;
                  case b of
                    None \<Rightarrow> Some (- 1, 0, cf)
                  | Some k \<Rightarrow>
                      (case ph_find (hb_ph (cf_buckets cf ! k)) no of
                         Some v \<Rightarrow> Some (1, v, cf)
                       | None \<Rightarrow> lookup_walk cf no hno (ph_next (hb_ph (cf_buckets cf ! k)))) }))"

definition valid_hno :: "cfile \<Rightarrow> int \<Rightarrow> bool" where
  "valid_hno cf hno \<longleftrightarrow> 0 \<le> hno \<and> (case cf_array cf of None \<Rightarrow> False | Some a \<Rightarrow> nat hno < length a)"

definition cf_lookup_hash :: "cfile \<Rightarrow> int \<Rightarrow> (int \<times> int \<times> cfile) option" where
  "cf_lookup_hash cf no =
     (let hno = cf_hash cf no in
      if \<not> valid_hno cf hno then None
      else
        (case List.find (\<lambda>k. ph_find (hb_ph (cf_buckets cf ! k)) no \<noteq> None) (chain cf hno) of
           Some k \<Rightarrow> Some (1, the (ph_find (hb_ph (cf_buckets cf ! k)) no), bump_hits cf)
         | None \<Rightarrow> lookup_walk cf no hno (get_ref cf hno None)))"

definition cf_lookup :: "cfile \<Rightarrow> int \<Rightarrow> (int \<times> int \<times> cfile) option" where
  "cf_lookup cf no = (if 1 < ch_state (cf_head cf) then cf_lookup_flat cf no else cf_lookup_hash cf no)"

section \<open>Adding a block\<close>

definition cf_write_flat :: "cfile \<Rightarrow> int \<Rightarrow> int \<Rightarrow> (int \<times> cfile) option" where
  "cf_write_flat cf no vno =
     (let (hno, off) = flat_slot cf no;
          head = (if ch_flat_bucket (cf_head cf) \<le> hno then (cf_head cf)\<lparr>ch_flat_bucket := hno + 1\<rparr> else cf_head cf)
      in hash_write (cf\<lparr>cf_head := head, cf_dirty := True\<rparr>) hno off 8 (zint_bytes vno))"

fun move_entries :: "cfile \<Rightarrow> int list \<Rightarrow> int list \<Rightarrow> (int \<times> cfile) option" where
  "move_entries cf (n # ns) (v # vs) =
     (if v = 0 then Some (0, cf)
      else do { (r, cf) \<leftarrow> cf_write_flat cf n v;
                if r \<noteq> 0 then Some (- 1, cf) else move_entries cf ns vs })"
| "move_entries cf _ _ = Some (0, cf)"

text \<open>The buckets are visited by number; \<open>n\<close> is how many are left.\<close>

fun move_buckets :: "nat \<Rightarrow> cfile \<Rightarrow> int \<Rightarrow> (int \<times> cfile) option" where
  "move_buckets 0 cf i = Some (0, cf)"
| "move_buckets (Suc n) cf i =
     do { (r, bs, cf) \<leftarrow> hash_read cf i 0 0;
          if r \<noteq> 1 then Some (- 1, cf)
          else
            do { (r, cf) \<leftarrow> move_entries cf (ph_no (ph_of_bytes bs)) (ph_vno (ph_of_bytes bs));
                 if r \<noteq> 0 then Some (- 1, cf) else move_buckets n cf (i + 1) } }"

definition cf_moveto_flat :: "cfile \<Rightarrow> (int \<times> cfile) option" where
  "cf_moveto_flat cf =
     (if ch_state (cf_head cf) \<noteq> CFILE_STATE_HASH then None
      else
        do { (r, cf) \<leftarrow> flush_bucket cf None;
             if r \<noteq> 0 then Some (- 1, cf)
             else if cf_buckets cf \<noteq> [] then None
             else
               do { (r, cf) \<leftarrow> move_buckets (nat (ch_next_bucket (cf_head cf) - ch_first_bucket (cf_head cf))) cf
                                 (ch_first_bucket (cf_head cf));
                    if r \<noteq> 0 then Some (- 1, cf)
                    else Some (0, cf\<lparr>cf_array := None, cf_head := (cf_head cf)\<lparr>ch_state := CFILE_STATE_FLAT\<rparr>, cf_dirty := True\<rparr>) } })"

definition take_block :: "cfile \<Rightarrow> cfile" where
  "take_block cf = cf\<lparr>cf_head := (cf_head cf)\<lparr>ch_next_block := ch_next_block (cf_head cf) + 1\<rparr>\<rparr>"

text \<open>The result of the write is ignored.\<close>

definition cf_new_flat :: "cfile \<Rightarrow> int \<Rightarrow> (int \<times> cfile) option" where
  "cf_new_flat cf no =
     do { let vno = ch_next_block (cf_head cf);
          (_, cf) \<leftarrow> cf_write_flat (take_block cf) no vno;
          Some (vno, cf) }"

fun free_entry :: "int list \<Rightarrow> nat option" where
  "free_entry [] = None"
| "free_entry (v # vs) = (if v = 0 then Some 0 else map_option Suc (free_entry vs))"

definition put_entry :: "cfile \<Rightarrow> nat \<Rightarrow> nat \<Rightarrow> int \<Rightarrow> int \<Rightarrow> cfile" where
  "put_entry cf k i no vno =
     (let b = cf_buckets cf ! k; p = hb_ph b
      in set_bucket cf k (b\<lparr>hb_ph := p\<lparr>ph_no := (ph_no p)[i := no], ph_vno := (ph_vno p)[i := vno]\<rparr>, hb_dirty := True\<rparr>))"

text \<open>The walk along the chain on disk; \<open>ref\<close> is where the number of the next bucket is stored, in the table or in
  the link of the previous bucket. The zero of a missing bucket is the error return.\<close>

partial_function (option) new_walk :: "cfile \<Rightarrow> int \<Rightarrow> int \<Rightarrow> int \<Rightarrow> nat option \<Rightarrow> (int \<times> cfile) option" where
  "new_walk cf no vno hno ref =
     (if get_ref cf hno ref = 0 then
        do { let cf = (case ref of None \<Rightarrow> cf | Some k \<Rightarrow> set_bucket cf k ((cf_buckets cf ! k)\<lparr>hb_dirty := True\<rparr>));
             (b, cf) \<leftarrow> new_bucket cf ref hno;
             case b of
               None \<Rightarrow> Some (0, cf)
             | Some k \<Rightarrow> Some (vno, put_entry cf k 0 no vno) }
      else
        (case find_bucket cf hno (get_ref cf hno ref) of
           Some k \<Rightarrow> new_walk cf no vno hno (Some k)
         | None \<Rightarrow>
             do { (b, cf) \<leftarrow> get_bucket (bump_miss cf) (get_ref cf hno ref) hno;
                  case b of
                    None \<Rightarrow> Some (0, cf)
                  | Some k \<Rightarrow>
                      (case free_entry (ph_vno (hb_ph (cf_buckets cf ! k))) of
                         Some i \<Rightarrow> Some (vno, put_entry cf k i no vno)
                       | None \<Rightarrow> new_walk cf no vno hno (Some k)) }))"

definition cf_new_hash :: "cfile \<Rightarrow> int \<Rightarrow> (int \<times> cfile) option" where
  "cf_new_hash cf no =
     (let hno = cf_hash cf no; vno = ch_next_block (cf_head cf); cf = take_block cf in
      if \<not> valid_hno cf hno then None
      else
        (case List.find (\<lambda>k. ph_vno (hb_ph (cf_buckets cf ! k)) ! (HASH_BUCKET - 1) = 0) (chain cf hno) of
           Some k \<Rightarrow> Some (vno, put_entry (bump_hits cf) k (the (free_entry (ph_vno (hb_ph (cf_buckets cf ! k))))) no vno)
         | None \<Rightarrow> new_walk cf no vno hno None))"

definition cf_new :: "cfile \<Rightarrow> int \<Rightarrow> (int \<times> cfile) option" where
  "cf_new cf no =
     (if 1 < ch_state (cf_head cf) then cf_new_flat cf no
      else if cf_no_hits cf < cf_no_miss cf * 2 then
        do { (r, cf) \<leftarrow> cf_moveto_flat cf;
             if r \<noteq> 0 then Some (- 1, cf)
             else if 1 < ch_state (cf_head cf) then cf_new_flat cf no else None }
      else cf_new_hash cf no)"

section \<open>Reading and writing blocks\<close>

definition cf_lock :: "cfile \<Rightarrow> cfile option" where
  "cf_lock cf = (if cf_locked cf then None else Some (cf\<lparr>cf_locked := True\<rparr>))"

definition cf_unlock :: "cfile \<Rightarrow> cfile" where
  "cf_unlock cf = cf\<lparr>cf_locked := False\<rparr>"

definition cf_read :: "cfile \<Rightarrow> int \<Rightarrow> int \<Rightarrow> int \<Rightarrow> (int \<times> byte list \<times> cfile) option" where
  "cf_read cf no offset nbytes =
     do { cf \<leftarrow> cf_lock cf;
          (ret, block, cf) \<leftarrow> cf_lookup cf no;
          let cf = cf_unlock cf;
          if ret = - 1 then Some (- 1, [], cf)
          else if ret = 0 then Some (0, [], cf)
          else
            do { (r, bs, cf) \<leftarrow> block_read cf block offset nbytes;
                 Some (if r \<noteq> 1 then - 1 else 1, bs, cf) } }"

text \<open>\<^verbatim>\<open>memcpy\<close> into the block buffer; outside of it or beyond the source is undefined.\<close>

definition copy_into :: "byte list \<Rightarrow> int \<Rightarrow> int \<Rightarrow> byte list \<Rightarrow> byte list option" where
  "copy_into iobuf offset nbytes buf =
     (if 0 \<le> offset \<and> 0 \<le> nbytes \<and> offset + nbytes \<le> int (length iobuf) \<and> nbytes \<le> int (length buf)
      then Some (take (nat offset) iobuf @ take (nat nbytes) buf @ drop (nat (offset + nbytes)) iobuf)
      else None)"

definition cf_write :: "cfile \<Rightarrow> int \<Rightarrow> int \<Rightarrow> int \<Rightarrow> byte list \<Rightarrow> (int \<times> cfile) option" where
  "cf_write cf no offset nbytes buf =
     do { cf \<leftarrow> cf_lock cf;
          (ret, block, cf) \<leftarrow> cf_lookup cf no;
          if ret = - 1 then Some (- 1, cf_unlock cf)
          else if ret = 0 then
            do { (block, cf) \<leftarrow> cf_new cf no;
                 if block = 0 then Some (- 1, cf_unlock cf)
                 else if offset \<noteq> 0 \<or> nbytes \<noteq> 0 then
                   do { (r, bs, cf) \<leftarrow> rmf_read cf no 0 0;
                        if r = - 1 then Some (- 1, cf)
                        else
                          do { iobuf \<leftarrow> copy_into (overlay bs (cf_iobuf cf)) offset nbytes buf;
                               block_write (cf_unlock (cf\<lparr>cf_iobuf := iobuf\<rparr>)) block 0 0 iobuf } }
                 else block_write (cf_unlock cf) block 0 0 buf }
          else block_write (cf_unlock cf) block offset nbytes buf }"

section \<open>Opening and closing\<close>

definition replace_in_area :: "meta_file \<Rightarrow> mf_area \<Rightarrow> mf_area" where
  "replace_in_area mf ma = ma\<lparr>ma_mfiles := replace_metafile mf (ma_mfiles ma)\<rparr>"

text \<open>Closing flushes the buckets and writes the header back when anything changed; the metafiles return to
  the area closed.\<close>

definition close_metafiles :: "cfile \<Rightarrow> mf_area \<Rightarrow> mf_area option" where
  "close_metafiles cf area =
     do { hmf \<leftarrow> mf_close (cf_hash_mf cf);
          bmf \<leftarrow> mf_close (cf_block_mf cf);
          Some (replace_in_area bmf (replace_in_area hmf (area\<lparr>ma_dirs := cf_dirs cf\<rparr>))) }"

definition cf_close :: "cfile \<Rightarrow> mf_area \<Rightarrow> (int \<times> cfile \<times> mf_area) option" where
  "cf_close cf area =
     do { (r1, cf) \<leftarrow> flush_bucket cf None;
          (r2, cf) \<leftarrow> (if cf_dirty cf then
                         do { (a, cf) \<leftarrow> hash_write cf 0 0 (int sizeof_head) (head_bytes (cf_head cf));
                              (b, cf) \<leftarrow> write_head cf;
                              Some (if a \<noteq> 0 \<or> b \<noteq> 0 then - 1 else 0 :: int, cf) }
                       else Some (0, cf));
          area \<leftarrow> close_metafiles cf area;
          Some (if r1 \<noteq> 0 \<or> r2 \<noteq> 0 then - 1 else 0, cf, area) }"

definition new_head :: "int \<Rightarrow> cfile_head" where
  "new_head block_size =
     (let hash_bytes = 199 * 8; b = (hash_bytes + int sizeof_head) div int HASH_BSIZE + 2
      in \<lparr>ch_state = CFILE_STATE_HASH, ch_next_block = 1, ch_block_size = block_size, ch_hash_size = 199,
          ch_first_bucket = b, ch_next_bucket = b, ch_flat_bucket = b\<rparr>)"

text \<open>Opening: \<open>Inl\<close> is the null pointer, with the file system and the area that is left. On the ways that
  fail after both metafiles are open nothing is dirty yet, so closing writes nothing.\<close>

definition cf_open ::
  "fsys \<Rightarrow> meta_file option \<Rightarrow> mf_dir list \<Rightarrow> mf_area \<Rightarrow> string \<Rightarrow> int \<Rightarrow> bool \<Rightarrow> (fsys \<times> mf_area + cfile \<times> mf_area \<times> bool) option" where
  "cf_open fs rmf rdirs area fname block_size wflag =
     (if 1024 \<le> length fname + 3 \<or> block_size < 0 then None else
      do { b \<leftarrow> mf_open area (fname @ ''-b'') block_size wflag;
           case b of
             None \<Rightarrow> Some (Inl (fs, area))
           | Some (bmf, area1) \<Rightarrow>
               do { h \<leftarrow> mf_open area1 (fname @ ''-i'') (int HASH_BSIZE) wflag;
                    case h of
                      None \<Rightarrow> do { bmf \<leftarrow> mf_close bmf; Some (Inl (fs, replace_in_area bmf area1)) }
                    | Some (hmf, area2) \<Rightarrow>
                        do { let cf = \<lparr>cf_head = new_head block_size, cf_block_mf = bmf, cf_hash_mf = hmf, cf_array = None,
                                       cf_buckets = [], cf_dirty = False, cf_max_bucket_in_memory = 100,
                                       cf_iobuf = replicate (nat block_size) 0, cf_rmf = rmf, cf_no_hits = 0, cf_no_miss = 0,
                                       cf_locked = False, cf_fs = fs, cf_dirs = ma_dirs area2, cf_rdirs = rdirs\<rparr>;
                             (ret, bs, cf) \<leftarrow> hash_read cf 0 0 (int sizeof_head);
                             let fail = (\<lambda>cf. do { area \<leftarrow> close_metafiles cf area2; Some (Inl (cf_fs cf, area)) });
                             if ret = - 1 then fail cf
                             else if ret = 0 \<or> ch_state (head_of_bytes bs) = 0 then
                               do { let cf = cf\<lparr>cf_head := new_head block_size, cf_array := Some (replicate 199 0)\<rparr>;
                                    if wflag then
                                      do { (r, cf) \<leftarrow> hash_write cf 0 0 (int sizeof_head) (head_bytes (cf_head cf));
                                           if r \<noteq> 0 then fail cf
                                           else
                                             do { (r, cf) \<leftarrow> write_head cf;
                                                  if r \<noteq> 0 then fail cf else Some (Inr (cf, area2, True)) } }
                                    else Some (Inr (cf, area2, True)) }
                             else
                               do { let head = head_of_bytes bs;
                                    let cf = cf\<lparr>cf_head := head,
                                                cf_array := (if ch_state head = CFILE_STATE_HASH
                                                             then Some (replicate (nat (ch_hash_size head)) 0) else None)\<rparr>;
                                    if ch_block_size head \<noteq> block_size \<or> ch_hash_size head \<le> 2 \<or> ch_next_bucket head \<le> 0 \<or>
                                       ch_next_block head \<le> 0 then None
                                    else
                                      do { (r, cf) \<leftarrow> read_head cf;
                                           if r = - 1 then fail cf else Some (Inr (cf, area2, False)) } } } } })"

end
