(* ===== verification/Commit.thy ===== *)
theory Commit
  imports Cfile
begin

text \<open>
  Commit (\<^verbatim>\<open>bfile/commit.c\<close>): the blocks of the shadow are copied to the original metafile, in the order of the
  buckets of the hash table or in the order of the flat table. The variant that collects blocks first
  (\<^verbatim>\<open>CF_OPTIMIZE_COMMIT\<close>) is not compiled.
\<close>

text \<open>One block: from the shadow through the block buffer to the original.\<close>

definition commit_block :: "cfile \<Rightarrow> int \<Rightarrow> int \<Rightarrow> (int \<times> cfile) option" where
  "commit_block cf vno no =
     do { (r, bs, cf) \<leftarrow> block_read cf vno 0 0;
          let cf = cf\<lparr>cf_iobuf := overlay bs (cf_iobuf cf)\<rparr>;
          if r \<noteq> 1 then Some (- 1, cf)
          else
            do { (r, cf) \<leftarrow> rmf_write cf no 0 0 (cf_iobuf cf);
                 Some (if r \<noteq> 0 then - 1 else 0, cf) } }"

fun commit_entries :: "cfile \<Rightarrow> int list \<Rightarrow> int list \<Rightarrow> (int \<times> cfile) option" where
  "commit_entries cf (n # ns) (v # vs) =
     (if v = 0 then Some (0, cf)
      else do { (r, cf) \<leftarrow> commit_block cf v n;
                if r \<noteq> 0 then Some (- 1, cf) else commit_entries cf ns vs })"
| "commit_entries cf _ _ = Some (0, cf)"

fun commit_buckets :: "nat \<Rightarrow> cfile \<Rightarrow> int \<Rightarrow> (int \<times> cfile) option" where
  "commit_buckets 0 cf bucket_no = Some (0, cf)"
| "commit_buckets (Suc n) cf bucket_no =
     do { (r, bs, cf) \<leftarrow> hash_read cf bucket_no 0 0;
          if r \<noteq> 1 then Some (- 1, cf)
          else
            do { (r, cf) \<leftarrow> commit_entries cf (ph_no (ph_of_bytes bs)) (ph_vno (ph_of_bytes bs));
                 if r \<noteq> 0 then Some (- 1, cf) else commit_buckets n cf (bucket_no + 1) } }"

definition cf_commit_hash :: "cfile \<Rightarrow> (int \<times> cfile) option" where
  "cf_commit_hash cf =
     commit_buckets (nat (ch_next_bucket (cf_head cf) - ch_first_bucket (cf_head cf))) cf (ch_first_bucket (cf_head cf))"

text \<open>The flat table: slot \<open>vno\<close> holds the shadow block of block \<open>vno\<close>. A table block that cannot be read in
  full is an error unless it is the last one; the error return of \<^verbatim>\<open>mf_read\<close> is not tested for.\<close>

fun commit_slots :: "cfile \<Rightarrow> int list \<Rightarrow> int \<Rightarrow> (int \<times> cfile) option" where
  "commit_slots cf [] vno = Some (0, cf)"
| "commit_slots cf (f # fp) vno =
     (if f \<noteq> 0 then
        do { (r, cf) \<leftarrow> commit_block cf f vno;
             if r \<noteq> 0 then Some (- 1, cf) else commit_slots cf fp (vno + 1) }
      else commit_slots cf fp (vno + 1))"

fun commit_tables :: "nat \<Rightarrow> cfile \<Rightarrow> int \<Rightarrow> int \<Rightarrow> (int \<times> cfile) option" where
  "commit_tables 0 cf hno vno = Some (0, cf)"
| "commit_tables (Suc n) cf hno vno =
     do { (r, bs, cf) \<leftarrow> hash_read cf hno 0 0;
          if r = 0 \<and> hno \<noteq> ch_flat_bucket (cf_head cf) - 1 then Some (- 1, cf)
          else
            do { (r, cf) \<leftarrow> commit_slots cf (zints_of_bytes (HASH_BSIZE div 8) (overlay bs (replicate HASH_BSIZE 0))) vno;
                 if r \<noteq> 0 then Some (- 1, cf) else commit_tables n cf (hno + 1) (vno + int (HASH_BSIZE div 8)) } }"

definition cf_commit_flat :: "cfile \<Rightarrow> (int \<times> cfile) option" where
  "cf_commit_flat cf =
     commit_tables (nat (ch_flat_bucket (cf_head cf) - ch_next_bucket (cf_head cf))) cf (ch_next_bucket (cf_head cf)) 0"

definition cf_commit :: "cfile \<Rightarrow> (int \<times> cfile) option" where
  "cf_commit cf =
     (if cf_buckets cf \<noteq> [] then Some (- 1, cf)
      else if ch_state (cf_head cf) = CFILE_STATE_HASH then cf_commit_hash cf
      else if ch_state (cf_head cf) = CFILE_STATE_FLAT then cf_commit_flat cf
      else Some (- 1, cf))"

end
