(* ===== verification/Bfile.thy ===== *)
theory Bfile
  imports Commit
begin

text \<open>
  Block files (\<^verbatim>\<open>bfile/bfile.c\<close>): the files the registers are kept in. A block file is a metafile of the register
  area, overlaid by a commit file when a shadow area is in use. The cache file lists the block files that
  have a shadow; committing goes through it.

  \<open>bfs_fs\<close> is the file system all files share. An exit of the process (\<^verbatim>\<open>zebra_exit\<close>) and other ways not to
  return are \<open>None\<close>.
\<close>

section \<open>Data\<close>

record bfile =
  bf_mf :: "meta_file option"
  bf_cf :: "cfile option"
  bf_block_size :: int

record bfiles =
  bfs_commit_area :: "mf_area option"
  bfs_register_area :: mf_area
  bfs_base :: "string option"
  bfs_cache_fname :: "string option"
  bfs_fs :: fsys

text \<open>What the operating system and the \<^verbatim>\<open>yaz\<close> library provide: \<^verbatim>\<open>qsort\<close>, \<^verbatim>\<open>yaz_is_abspath\<close> and directory contents.\<close>

record sys_env =
  env_qsort :: "(part_file \<Rightarrow> part_file \<Rightarrow> int) \<Rightarrow> part_file list \<Rightarrow> part_file list"
  env_is_abspath :: "string \<Rightarrow> bool"
  env_entries :: "fsys \<Rightarrow> string \<Rightarrow> string list option"

definition env_mf_init :: "sys_env \<Rightarrow> fsys \<Rightarrow> string \<Rightarrow> string option \<Rightarrow> string option \<Rightarrow> bool \<Rightarrow> mf_area option option" where
  "env_mf_init env fs = mf_init (env_qsort env) (env_is_abspath env) (env_entries env fs) fs"

section \<open>Creating and destroying\<close>

definition bfs_create :: "sys_env \<Rightarrow> fsys \<Rightarrow> string option \<Rightarrow> string option \<Rightarrow> bfiles option option" where
  "bfs_create env fs spec base =
     do { r \<leftarrow> env_mf_init env fs ''register'' spec base False;
          Some (map_option (\<lambda>ma. \<lparr>bfs_commit_area = None, bfs_register_area = ma, bfs_base = base,
                                  bfs_cache_fname = None, bfs_fs = fs\<rparr>) r) }"

definition bfs_destroy :: "bfiles \<Rightarrow> fsys option" where
  "bfs_destroy bfs =
     do { fs \<leftarrow> mf_destroy (bfs_fs bfs) (bfs_commit_area bfs);
          mf_destroy fs (Some (bfs_register_area bfs)) }"

text \<open>The cache file lives in the first directory of the shadow area; an area without directory is a null
  pointer access. \<open>True\<close> is \<^verbatim>\<open>ZEBRA_OK\<close>.\<close>

definition bf_cache :: "sys_env \<Rightarrow> bfiles \<Rightarrow> string option \<Rightarrow> (bool \<times> bfiles) option" where
  "bf_cache env bfs spec =
     (case spec of
        None \<Rightarrow> Some (True, bfs\<lparr>bfs_commit_area := None\<rparr>)
      | Some s \<Rightarrow>
          do { area \<leftarrow> (case bfs_commit_area bfs of
                          Some ma \<Rightarrow> Some (Some ma)
                        | None \<Rightarrow> env_mf_init env (bfs_fs bfs) ''shadow'' (Some s) (bfs_base bfs) True);
               case area of
                 None \<Rightarrow> Some (False, bfs\<lparr>bfs_commit_area := None\<rparr>)
               | Some ma \<Rightarrow>
                   (case ma_dirs ma of
                      [] \<Rightarrow> None
                    | d # _ \<Rightarrow>
                        Some (True, bfs\<lparr>bfs_commit_area := Some ma, bfs_cache_fname := Some (dir_name d @ ''/cache'')\<rparr>)) })"

definition open_cache :: "bfiles \<Rightarrow> byte list option" where
  "open_cache bfs = (case bfs_cache_fname bfs of None \<Rightarrow> None | Some f \<Rightarrow> bfs_fs bfs f)"

definition unlink_cache :: "bfiles \<Rightarrow> bfiles" where
  "unlink_cache bfs =
     (case bfs_cache_fname bfs of None \<Rightarrow> bfs | Some f \<Rightarrow> bfs\<lparr>bfs_fs := unlink_file f (bfs_fs bfs)\<rparr>)"

section \<open>Opening and closing a block file\<close>

text \<open>The commit file works on the current file system and directories, and leaves its own behind.\<close>

definition cf_enter :: "bfiles \<Rightarrow> cfile \<Rightarrow> cfile" where
  "cf_enter bfs cf =
     cf\<lparr>cf_fs := bfs_fs bfs, cf_rdirs := ma_dirs (bfs_register_area bfs),
        cf_dirs := (case bfs_commit_area bfs of None \<Rightarrow> cf_dirs cf | Some area \<Rightarrow> ma_dirs area)\<rparr>"

definition cf_leave :: "bfiles \<Rightarrow> cfile \<Rightarrow> bfiles" where
  "cf_leave bfs cf =
     bfs\<lparr>bfs_fs := cf_fs cf, bfs_register_area := (bfs_register_area bfs)\<lparr>ma_dirs := cf_rdirs cf\<rparr>,
         bfs_commit_area := map_option (\<lambda>area. area\<lparr>ma_dirs := cf_dirs cf\<rparr>) (bfs_commit_area bfs)\<rparr>"

text \<open>A failing close of the commit file makes \<^verbatim>\<open>bf_close2\<close> return -1; \<^verbatim>\<open>bf_close\<close> exits then. The file system and
  the directories pass from the commit file back to the areas; closing after the shadow was switched off
  is outside the model.\<close>

definition bf_close2 :: "bfiles \<Rightarrow> bfile \<Rightarrow> (int \<times> bfiles) option" where
  "bf_close2 bfs bf =
     do { (r, bfs, mf) \<leftarrow>
            (case bf_cf bf of
               Some cf \<Rightarrow>
                 do { area \<leftarrow> bfs_commit_area bfs;
                      (r, cf, area) \<leftarrow> cf_close (cf_enter bfs cf) area;
                      Some (r, bfs\<lparr>bfs_fs := cf_fs cf, bfs_commit_area := Some area,
                                   bfs_register_area := (bfs_register_area bfs)\<lparr>ma_dirs := cf_rdirs cf\<rparr>\<rparr>,
                            cf_rmf cf) }
             | None \<Rightarrow> Some (0, bfs, bf_mf bf));
          case mf of
            None \<Rightarrow> Some (r, bfs)
          | Some mf \<Rightarrow>
              do { mf \<leftarrow> mf_close mf;
                   Some (r, bfs\<lparr>bfs_register_area := replace_in_area mf (bfs_register_area bfs)\<rparr>) } }"

definition bf_close :: "bfiles \<Rightarrow> bfile \<Rightarrow> bfiles option" where
  "bf_close bfs bf = do { (r, bfs) \<leftarrow> bf_close2 bfs bf; if r \<noteq> 0 then None else Some bfs }"

definition cache_line :: "string \<Rightarrow> int \<Rightarrow> byte list" where
  "cache_line name block_size = map of_char (name @ '' '' @ dec_string block_size @ [CHR 0x0A])"

definition append_cache :: "bfiles \<Rightarrow> byte list \<Rightarrow> bfiles option" where
  "append_cache bfs bs =
     do { f \<leftarrow> bfs_cache_fname bfs;
          let old = (case bfs_fs bfs f of None \<Rightarrow> [] | Some c \<Rightarrow> c);
          Some (bfs\<lparr>bfs_fs := (bfs_fs bfs)(f \<mapsto> old @ bs)\<rparr>) }"

text \<open>With a shadow area the original is opened for reading only; a null original is passed on to \<^verbatim>\<open>cf_open\<close> and
  found at the end. \<open>Inl\<close> is the null pointer.\<close>

definition bf_open :: "bfiles \<Rightarrow> string \<Rightarrow> int \<Rightarrow> bool \<Rightarrow> (bfiles + bfile \<times> bfiles) option" where
  "bf_open bfs name block_size wflag =
     (case bfs_commit_area bfs of
        None \<Rightarrow>
          do { r \<leftarrow> mf_open (bfs_register_area bfs) name block_size wflag;
               case r of
                 None \<Rightarrow> Some (Inl bfs)
               | Some (mf, ma) \<Rightarrow>
                   Some (Inr (\<lparr>bf_mf = Some mf, bf_cf = None, bf_block_size = block_size\<rparr>, bfs\<lparr>bfs_register_area := ma\<rparr>)) }
      | Some area \<Rightarrow>
          do { r \<leftarrow> mf_open (bfs_register_area bfs) name block_size False;
               let (mf, ma) = (case r of None \<Rightarrow> (None, bfs_register_area bfs) | Some (mf, ma) \<Rightarrow> (Some mf, ma));
               c \<leftarrow> cf_open (bfs_fs bfs) mf (ma_dirs ma) area name block_size wflag;
               case c of
                 Inl (fs, area) \<Rightarrow>
                   do { bfs \<leftarrow> bf_close (bfs\<lparr>bfs_fs := fs, bfs_commit_area := Some area, bfs_register_area := ma\<rparr>)
                                \<lparr>bf_mf = mf, bf_cf = None, bf_block_size = block_size\<rparr>;
                        Some (Inl bfs) }
               | Inr (cf, area, first_time) \<Rightarrow>
                   do { let bfs = bfs\<lparr>bfs_fs := cf_fs cf, bfs_commit_area := Some area, bfs_register_area := ma\<rparr>;
                        bfs \<leftarrow> (if first_time then append_cache bfs (cache_line name block_size) else Some bfs);
                        let bfs = cf_leave bfs (cf\<lparr>cf_fs := bfs_fs bfs\<rparr>);
                        let bf = \<lparr>bf_mf = mf, bf_cf = Some cf, bf_block_size = block_size\<rparr>;
                        if mf = None then do { bfs \<leftarrow> bf_close bfs bf; Some (Inl bfs) } else Some (Inr (bf, bfs)) } })"

section \<open>Reading and writing blocks\<close>

text \<open>With a shadow, \<^verbatim>\<open>bf->mf\<close> and \<^verbatim>\<open>cf->rmf\<close> are the same metafile. The reader and writer locks exclude each other
  and are released on every way out.\<close>

definition bf_read2 :: "bfiles \<Rightarrow> bfile \<Rightarrow> int \<Rightarrow> int \<Rightarrow> int \<Rightarrow> (int \<times> byte list \<times> bfiles \<times> bfile) option" where
  "bf_read2 bfs bf no offset nbytes =
     (case bf_cf bf of
        Some cf \<Rightarrow>
          do { (r, bs, cf) \<leftarrow> cf_read (cf_enter bfs cf) no offset nbytes;
               (r, bs, cf) \<leftarrow> (if r = 0 then rmf_read cf no offset nbytes else Some (r, bs, cf));
               Some (r, bs, cf_leave bfs cf, bf\<lparr>bf_cf := Some cf, bf_mf := cf_rmf cf\<rparr>) }
      | None \<Rightarrow>
          do { mf \<leftarrow> bf_mf bf;
               (r, bs, fs, mf) \<leftarrow> mf_read (bfs_fs bfs) mf no offset nbytes;
               Some (r, bs, bfs\<lparr>bfs_fs := fs\<rparr>, bf\<lparr>bf_mf := Some mf\<rparr>) })"

definition bf_read :: "bfiles \<Rightarrow> bfile \<Rightarrow> int \<Rightarrow> int \<Rightarrow> int \<Rightarrow> (int \<times> byte list \<times> bfiles \<times> bfile) option" where
  "bf_read bfs bf no offset nbytes =
     do { (r, bs, bfs, bf) \<leftarrow> bf_read2 bfs bf no offset nbytes;
          if r = - 1 then None else Some (r, bs, bfs, bf) }"

definition bf_write2 :: "bfiles \<Rightarrow> bfile \<Rightarrow> int \<Rightarrow> int \<Rightarrow> int \<Rightarrow> byte list \<Rightarrow> (int \<times> bfiles \<times> bfile) option" where
  "bf_write2 bfs bf no offset nbytes buf =
     (case bf_cf bf of
        Some cf \<Rightarrow>
          do { (r, cf) \<leftarrow> cf_write (cf_enter bfs cf) no offset nbytes buf;
               Some (r, cf_leave bfs cf, bf\<lparr>bf_cf := Some cf, bf_mf := cf_rmf cf\<rparr>) }
      | None \<Rightarrow>
          do { mf \<leftarrow> bf_mf bf;
               (r, fs, dirs, mf) \<leftarrow> mf_write (bfs_fs bfs) (ma_dirs (bfs_register_area bfs)) mf no offset nbytes buf;
               Some (r, bfs\<lparr>bfs_fs := fs, bfs_register_area := (bfs_register_area bfs)\<lparr>ma_dirs := dirs\<rparr>\<rparr>,
                     bf\<lparr>bf_mf := Some mf\<rparr>) })"

definition bf_write :: "bfiles \<Rightarrow> bfile \<Rightarrow> int \<Rightarrow> int \<Rightarrow> int \<Rightarrow> byte list \<Rightarrow> (int \<times> bfiles \<times> bfile) option" where
  "bf_write bfs bf no offset nbytes buf =
     do { (r, bfs, bf) \<leftarrow> bf_write2 bfs bf no offset nbytes buf;
          if r = - 1 then None else Some (r, bfs, bf) }"

section \<open>Committing\<close>

definition bf_commitExists :: "bfiles \<Rightarrow> bool" where
  "bf_commitExists bfs \<longleftrightarrow> open_cache bfs \<noteq> None"

definition bf_reset :: "bfiles \<Rightarrow> bfiles option" where
  "bf_reset bfs =
     do { (fs, c) \<leftarrow> mf_reset (bfs_fs bfs) (bfs_commit_area bfs) True;
          (fs, r) \<leftarrow> mf_reset fs (Some (bfs_register_area bfs)) True;
          ma \<leftarrow> r;
          Some (unlink_cache (bfs\<lparr>bfs_fs := fs, bfs_commit_area := c, bfs_register_area := ma\<rparr>)) }"

text \<open>One \<^verbatim>\<open>fscanf\<close> of a word and a number; a word of 256 characters overflows the buffer.\<close>

definition scan_entry :: "string \<Rightarrow> (string \<times> int \<times> string) option option" where
  "scan_entry s =
     (let s1 = dropWhile is_space s;
          path = takeWhile (\<lambda>c. \<not> is_space c) s1;
          s2 = dropWhile is_space (dropWhile (\<lambda>c. \<not> is_space c) s1);
          neg = (s2 \<noteq> [] \<and> hd s2 = CHR ''-'');
          s3 = (if s2 \<noteq> [] \<and> (hd s2 = CHR ''-'' \<or> hd s2 = CHR ''+'') then tl s2 else s2);
          digits = takeWhile is_digit s3
      in if 256 \<le> length path then None
         else if path = [] \<or> digits = [] then Some None
         else do { n \<leftarrow> c_int ((if neg then - 1 else 1) * area_size digits);
                   Some (Some (path, n, dropWhile is_digit s3)) })"

definition commit_file :: "bfiles \<Rightarrow> string \<Rightarrow> int \<Rightarrow> (int \<times> bfiles) option" where
  "commit_file bfs path block_size =
     do { area \<leftarrow> bfs_commit_area bfs;
          r \<leftarrow> mf_open (bfs_register_area bfs) path block_size True;
          case r of
            None \<Rightarrow> Some (- 1, bfs)
          | Some (mf, ma) \<Rightarrow>
              do { c \<leftarrow> cf_open (bfs_fs bfs) (Some mf) (ma_dirs ma) area path block_size False;
                   case c of
                     Inl (fs, area) \<Rightarrow>
                       do { mf \<leftarrow> mf_close mf;
                            Some (- 1, bfs\<lparr>bfs_fs := fs, bfs_commit_area := Some area, bfs_register_area := replace_in_area mf ma\<rparr>) }
                   | Inr (cf, area, _) \<Rightarrow>
                       do { (r, cf) \<leftarrow> cf_commit cf;
                            (_, cf, area) \<leftarrow> cf_close cf area;
                            rmf \<leftarrow> cf_rmf cf;
                            mf \<leftarrow> mf_close rmf;
                            Some (r, bfs\<lparr>bfs_fs := cf_fs cf, bfs_commit_area := Some area,
                                         bfs_register_area := replace_in_area mf (ma\<lparr>ma_dirs := cf_rdirs cf\<rparr>)\<rparr>) } } }"

lemma scan_entry_shorter:
  assumes "scan_entry s = Some (Some (path, n, r))"
  shows "length r < length s"
proof -
  define s1 where "s1 = dropWhile is_space s"
  define s2 where "s2 = dropWhile is_space (dropWhile (\<lambda>c. \<not> is_space c) s1)"
  define s3 where "s3 = (if s2 \<noteq> [] \<and> (hd s2 = CHR ''-'' \<or> hd s2 = CHR ''+'') then tl s2 else s2)"
  have ne: "takeWhile (\<lambda>c. \<not> is_space c) s1 \<noteq> []" and r: "r = dropWhile is_digit s3"
    using assms
    by (auto simp: scan_entry_def s1_def [symmetric] s2_def [symmetric] Let_def bind_eq_Some_conv s3_def split: if_splits)
  have "length (takeWhile (\<lambda>c. \<not> is_space c) s1) + length (dropWhile (\<lambda>c. \<not> is_space c) s1) = length s1"
    by (metis length_append takeWhile_dropWhile_id)
  then have "length (dropWhile (\<lambda>c. \<not> is_space c) s1) < length s1" using ne by (cases "takeWhile (\<lambda>c. \<not> is_space c) s1") auto
  moreover have "length s1 \<le> length s" "length s2 \<le> length (dropWhile (\<lambda>c. \<not> is_space c) s1)" "length s3 \<le> length s2" "length r \<le> length s3"
    by (auto simp: s1_def s2_def s3_def r length_dropWhile_le)
  ultimately show ?thesis by linarith
qed

function commit_loop :: "bfiles \<Rightarrow> string \<Rightarrow> (int \<times> bfiles) option" where
  "commit_loop bfs s =
     (case scan_entry s of
        None \<Rightarrow> None
      | Some None \<Rightarrow> Some (0, bfs)
      | Some (Some (path, block_size, rest)) \<Rightarrow>
          do { (r, bfs) \<leftarrow> commit_file bfs path block_size;
               if r \<noteq> 0 then Some (r, bfs) else commit_loop bfs rest })"
  by pat_completeness auto
termination
  by (relation "measure (\<lambda>(bfs, s). length s)") (auto dest: scan_entry_shorter)

declare commit_loop.simps [simp del]

definition bf_commitExec :: "bfiles \<Rightarrow> (int \<times> bfiles) option" where
  "bf_commitExec bfs =
     (if bfs_commit_area bfs = None then None
      else
        (case open_cache bfs of
           None \<Rightarrow> Some (- 1, bfs)
         | Some content \<Rightarrow> commit_loop bfs (map (\<lambda>b. char_of (unat b)) content)))"

definition bf_commitClean :: "sys_env \<Rightarrow> bfiles \<Rightarrow> string option \<Rightarrow> bfiles option" where
  "bf_commitClean env bfs spec =
     do { (mustDisable, bfs) \<leftarrow>
            (if bfs_commit_area bfs = None
             then do { (_, bfs) \<leftarrow> bf_cache env bfs spec; Some (True, bfs) }
             else Some (False, bfs));
          (fs, area) \<leftarrow> mf_reset (bfs_fs bfs) (bfs_commit_area bfs) True;
          let bfs = unlink_cache (bfs\<lparr>bfs_fs := fs, bfs_commit_area := area\<rparr>);
          if mustDisable then map_option snd (bf_cache env bfs None) else Some bfs }"

definition bfs_register_directory_stat :: "bfiles \<Rightarrow> nat \<Rightarrow> (string \<times> int \<times> int) option" where
  "bfs_register_directory_stat bfs no = mf_area_directory_stat (bfs_register_area bfs) no"

definition bfs_shadow_directory_stat :: "bfiles \<Rightarrow> nat \<Rightarrow> (string \<times> int \<times> int) option" where
  "bfs_shadow_directory_stat bfs no =
     (case bfs_commit_area bfs of None \<Rightarrow> None | Some ma \<Rightarrow> mf_area_directory_stat ma no)"

end
