(* ===== verification/Cfile_Io.thy ===== *)
theory Cfile_Io
  imports Cfile Mfile_Flat
begin

text \<open>
  The metafiles below a commit file as flat files: \<open>hashc\<close>, \<open>blockc\<close> and \<open>rmfc\<close> are the contents of the index, the
  shadow blocks and the original. Under \<open>io_ok\<close>, every access of the commit file succeeds and is a read or write
  of one of these contents; everything else in the state stays as it is.
\<close>

section \<open>Contents\<close>

definition hashc :: "cfile \<Rightarrow> byte list" where
  "hashc cf = mf_content (cf_fs cf) (cf_hash_mf cf)"

definition blockc :: "cfile \<Rightarrow> byte list" where
  "blockc cf = mf_content (cf_fs cf) (cf_block_mf cf)"

definition rmfc :: "cfile \<Rightarrow> byte list" where
  "rmfc cf = (case cf_rmf cf of None \<Rightarrow> [] | Some mf \<Rightarrow> mf_content (cf_fs cf) mf)"

definition bsize :: "cfile \<Rightarrow> int" where
  "bsize cf = mf_blocksize (cf_block_mf cf)"

text \<open>\<open>w\<close> tells whether the index and the shadow are open for writing, \<open>r\<close> the same for the original.\<close>

definition io_ok :: "bool \<Rightarrow> bool \<Rightarrow> cfile \<Rightarrow> bool" where
  "io_ok w r cf \<longleftrightarrow>
     mf_ok (cf_fs cf) (cf_dirs cf) (cf_hash_mf cf) \<and> \<not> mf_locked (cf_hash_mf cf) \<and> mf_blocksize (cf_hash_mf cf) = 256 \<and>
     mf_wr (cf_hash_mf cf) = w \<and>
     mf_ok (cf_fs cf) (cf_dirs cf) (cf_block_mf cf) \<and> \<not> mf_locked (cf_block_mf cf) \<and> mf_wr (cf_block_mf cf) = w \<and>
     (\<exists>rmf. cf_rmf cf = Some rmf \<and> mf_ok (cf_fs cf) (cf_rdirs cf) rmf \<and> \<not> mf_locked rmf \<and> mf_blocksize rmf = bsize cf \<and>
        mf_wr rmf = r \<and> set (mf_paths (cf_hash_mf cf)) \<inter> set (mf_paths rmf) = {} \<and>
        set (mf_paths (cf_block_mf cf)) \<inter> set (mf_paths rmf) = {}) \<and>
     set (mf_paths (cf_hash_mf cf)) \<inter> set (mf_paths (cf_block_mf cf)) = {}"

text \<open>The part of the state that accesses leave alone.\<close>

definition core :: "cfile \<Rightarrow> cfile_head \<times> int list option \<times> hash_bucket list \<times> bool \<times> nat \<times> byte list \<times> int \<times> int \<times> bool \<times> int" where
  "core cf = (cf_head cf, cf_array cf, cf_buckets cf, cf_dirty cf, cf_max_bucket_in_memory cf, cf_iobuf cf, cf_no_hits cf,
     cf_no_miss cf, cf_locked cf, bsize cf)"

lemma io_okD:
  assumes "io_ok w r cf"
  shows "0 < bsize cf" "mf_blocksize (cf_hash_mf cf) = 256" "mf_wr (cf_hash_mf cf) = w" "mf_wr (cf_block_mf cf) = w"
  using assms by (auto simp: io_ok_def bsize_def dest: mf_okD)

section \<open>Accesses\<close>

lemma content_frame:
  "mf_ok fs dirs mf \<Longrightarrow> (\<And>p. p \<in> set (mf_paths mf) \<Longrightarrow> fs' p = fs p) \<Longrightarrow> mf_ok fs' dirs mf \<and> mf_content fs' mf = mf_content fs mf"
  by (blast intro: mf_ok_frame)

text \<open>Replacing one of the metafiles after an access to it, with the other two framed.\<close>

lemma io_ok_hash:
  assumes ok: "io_ok w r cf"
    and mf: "mf_ok fs' (cf_dirs cf) mf'" "\<not> mf_locked mf'" "mf_blocksize mf' = 256" "mf_wr mf' = w"
      "mf_paths mf' = mf_paths (cf_hash_mf cf)"
    and fs: "\<forall>p. p \<notin> set (mf_paths (cf_hash_mf cf)) \<longrightarrow> fs' p = cf_fs cf p"
  shows "io_ok w r (cf\<lparr>cf_fs := fs', cf_hash_mf := mf'\<rparr>)" "blockc (cf\<lparr>cf_fs := fs', cf_hash_mf := mf'\<rparr>) = blockc cf"
    "rmfc (cf\<lparr>cf_fs := fs', cf_hash_mf := mf'\<rparr>) = rmfc cf"
proof -
  obtain rmf where r: "cf_rmf cf = Some rmf" "mf_ok (cf_fs cf) (cf_rdirs cf) rmf"
    "set (mf_paths (cf_hash_mf cf)) \<inter> set (mf_paths rmf) = {}" using ok by (auto simp: io_ok_def)
  have b: "mf_ok (cf_fs cf) (cf_dirs cf) (cf_block_mf cf)"
    "set (mf_paths (cf_hash_mf cf)) \<inter> set (mf_paths (cf_block_mf cf)) = {}" using ok by (auto simp: io_ok_def)
  have "mf_ok fs' (cf_rdirs cf) rmf \<and> mf_content fs' rmf = mf_content (cf_fs cf) rmf"
    using r(3) fs by (intro content_frame [OF r(2)]) auto
  moreover have "mf_ok fs' (cf_dirs cf) (cf_block_mf cf) \<and> mf_content fs' (cf_block_mf cf) = mf_content (cf_fs cf) (cf_block_mf cf)"
    using b(2) fs by (intro content_frame [OF b(1)]) auto
  ultimately show "io_ok w r (cf\<lparr>cf_fs := fs', cf_hash_mf := mf'\<rparr>)" "blockc (cf\<lparr>cf_fs := fs', cf_hash_mf := mf'\<rparr>) = blockc cf"
    "rmfc (cf\<lparr>cf_fs := fs', cf_hash_mf := mf'\<rparr>) = rmfc cf"
    using ok mf r(1) by (auto simp: io_ok_def bsize_def blockc_def rmfc_def)
qed

lemma io_ok_block:
  assumes ok: "io_ok w r cf"
    and mf: "mf_ok fs' (cf_dirs cf) mf'" "\<not> mf_locked mf'" "mf_blocksize mf' = bsize cf" "mf_wr mf' = w"
      "mf_paths mf' = mf_paths (cf_block_mf cf)"
    and fs: "\<forall>p. p \<notin> set (mf_paths (cf_block_mf cf)) \<longrightarrow> fs' p = cf_fs cf p"
  shows "io_ok w r (cf\<lparr>cf_fs := fs', cf_block_mf := mf'\<rparr>)" "hashc (cf\<lparr>cf_fs := fs', cf_block_mf := mf'\<rparr>) = hashc cf"
    "rmfc (cf\<lparr>cf_fs := fs', cf_block_mf := mf'\<rparr>) = rmfc cf"
proof -
  obtain rmf where r: "cf_rmf cf = Some rmf" "mf_ok (cf_fs cf) (cf_rdirs cf) rmf"
    "set (mf_paths (cf_block_mf cf)) \<inter> set (mf_paths rmf) = {}" using ok by (auto simp: io_ok_def)
  have b: "mf_ok (cf_fs cf) (cf_dirs cf) (cf_hash_mf cf)"
    "set (mf_paths (cf_hash_mf cf)) \<inter> set (mf_paths (cf_block_mf cf)) = {}" using ok by (auto simp: io_ok_def)
  have "mf_ok fs' (cf_rdirs cf) rmf \<and> mf_content fs' rmf = mf_content (cf_fs cf) rmf"
    using r(3) fs by (intro content_frame [OF r(2)]) auto
  moreover have "mf_ok fs' (cf_dirs cf) (cf_hash_mf cf) \<and> mf_content fs' (cf_hash_mf cf) = mf_content (cf_fs cf) (cf_hash_mf cf)"
    using b(2) fs by (intro content_frame [OF b(1)]) auto
  ultimately show "io_ok w r (cf\<lparr>cf_fs := fs', cf_block_mf := mf'\<rparr>)" "hashc (cf\<lparr>cf_fs := fs', cf_block_mf := mf'\<rparr>) = hashc cf"
    "rmfc (cf\<lparr>cf_fs := fs', cf_block_mf := mf'\<rparr>) = rmfc cf"
    using ok mf r(1) by (auto simp: io_ok_def bsize_def hashc_def rmfc_def)
qed

lemma io_ok_rmf:
  assumes ok: "io_ok w r cf" and old: "cf_rmf cf = Some rmf"
    and mf: "mf_ok fs' (cf_rdirs cf) mf'" "\<not> mf_locked mf'" "mf_blocksize mf' = bsize cf" "mf_wr mf' = r" "mf_paths mf' = mf_paths rmf"
    and fs: "\<forall>p. p \<notin> set (mf_paths rmf) \<longrightarrow> fs' p = cf_fs cf p"
  shows "io_ok w r (cf\<lparr>cf_fs := fs', cf_rmf := Some mf'\<rparr>)" "hashc (cf\<lparr>cf_fs := fs', cf_rmf := Some mf'\<rparr>) = hashc cf"
    "blockc (cf\<lparr>cf_fs := fs', cf_rmf := Some mf'\<rparr>) = blockc cf"
proof -
  have h: "mf_ok (cf_fs cf) (cf_dirs cf) (cf_hash_mf cf)" "set (mf_paths (cf_hash_mf cf)) \<inter> set (mf_paths rmf) = {}"
    and b: "mf_ok (cf_fs cf) (cf_dirs cf) (cf_block_mf cf)" "set (mf_paths (cf_block_mf cf)) \<inter> set (mf_paths rmf) = {}"
    using ok old by (auto simp: io_ok_def)
  have "mf_ok fs' (cf_dirs cf) (cf_hash_mf cf) \<and> mf_content fs' (cf_hash_mf cf) = mf_content (cf_fs cf) (cf_hash_mf cf)"
    using h(2) fs by (intro content_frame [OF h(1)]) auto
  moreover have "mf_ok fs' (cf_dirs cf) (cf_block_mf cf) \<and> mf_content fs' (cf_block_mf cf) = mf_content (cf_fs cf) (cf_block_mf cf)"
    using b(2) fs by (intro content_frame [OF b(1)]) auto
  ultimately show "io_ok w r (cf\<lparr>cf_fs := fs', cf_rmf := Some mf'\<rparr>)" "hashc (cf\<lparr>cf_fs := fs', cf_rmf := Some mf'\<rparr>) = hashc cf"
    "blockc (cf\<lparr>cf_fs := fs', cf_rmf := Some mf'\<rparr>) = blockc cf"
    using ok mf old by (auto simp: io_ok_def bsize_def hashc_def blockc_def)
qed

text \<open>What an access of the state \<open>cf\<close> leaves unchanged.\<close>

definition kept :: "bool \<Rightarrow> bool \<Rightarrow> cfile \<Rightarrow> cfile \<Rightarrow> bool" where
  "kept w r cf cf' \<longleftrightarrow> io_ok w r cf' \<and> core cf' = core cf"

lemma in_block_whole: "0 \<le> no \<Longrightarrow> in_block mf no 0 0"
  by (simp add: in_block_def)

lemma hash_read_spec:
  assumes ok: "io_ok w r cf" and b: "0 \<le> no" "0 \<le> off" "0 \<le> n" "if n = 0 then off = 0 else off + n \<le> 256"
    and bs: "bs = file_pread (hashc cf) (nat (no * 256 + off)) (nat (if n = 0 then 256 else n))"
  shows "\<exists>cf'. hash_read cf no off n = Some (if length bs < nat (if n = 0 then 256 else n) then 0 else 1, bs, cf') \<and>
    kept w r cf cf' \<and> hashc cf' = hashc cf \<and> blockc cf' = blockc cf \<and> rmfc cf' = rmfc cf"
proof -
  have h: "mf_ok (cf_fs cf) (cf_dirs cf) (cf_hash_mf cf)" "\<not> mf_locked (cf_hash_mf cf)" "mf_blocksize (cf_hash_mf cf) = 256"
    "mf_wr (cf_hash_mf cf) = w" using ok by (auto simp: io_ok_def)
  have ib: "in_block (cf_hash_mf cf) no off n" using b h(3) by (auto simp: in_block_def)
  have len: "block_len (cf_hash_mf cf) n = nat (if n = 0 then 256 else n)" "block_pos (cf_hash_mf cf) no off = nat (no * 256 + off)"
    using h(3) by (simp_all add: block_len_def block_pos_def)
  obtain fs' mf' where m: "mf_read (cf_fs cf) (cf_hash_mf cf) no off n = Some (if length bs < nat (if n = 0 then 256 else n) then 0 else 1, bs, fs', mf')"
    "mf_ok fs' (cf_dirs cf) mf'" "\<not> mf_locked mf'" "mf_content fs' mf' = hashc cf" "mf_paths mf' = mf_paths (cf_hash_mf cf)"
    "mf_blocksize mf' = 256" "mf_wr mf' = w" "\<forall>p. p \<notin> set (mf_paths (cf_hash_mf cf)) \<longrightarrow> fs' p = cf_fs cf p"
    using mf_read_refines [OF h(1) ib h(2)] h(3,4) len bs by (auto simp: hashc_def)
  let ?cf = "cf\<lparr>cf_fs := fs', cf_hash_mf := mf'\<rparr>"
  note i = io_ok_hash [OF ok m(2,3,6,7,5,8)]
  have "kept w r cf ?cf" using i(1) by (simp add: kept_def core_def bsize_def)
  moreover have "hashc ?cf = hashc cf" using m(4) by (simp add: hashc_def)
  ultimately show ?thesis using i m(1) by (intro exI [of _ ?cf]) (simp add: hash_read_def)
qed

lemma hash_write_spec:
  assumes ok: "io_ok True r cf" and b: "0 \<le> no" "0 \<le> off" "0 \<le> n" "if n = 0 then off = 0 else off + n \<le> 256"
    and buf: "nat (if n = 0 then 256 else n) \<le> length buf"
  shows "\<exists>cf'. hash_write cf no off n buf = Some (0, cf') \<and> kept True r cf cf' \<and>
    hashc cf' = file_pwrite (hashc cf) (nat (no * 256 + off)) (take (nat (if n = 0 then 256 else n)) buf) \<and>
    blockc cf' = blockc cf \<and> rmfc cf' = rmfc cf"
proof -
  have h: "mf_ok (cf_fs cf) (cf_dirs cf) (cf_hash_mf cf)" "\<not> mf_locked (cf_hash_mf cf)" "mf_blocksize (cf_hash_mf cf) = 256"
    "mf_wr (cf_hash_mf cf)" using ok by (auto simp: io_ok_def)
  have ib: "in_block (cf_hash_mf cf) no off n" using b h(3) by (auto simp: in_block_def)
  have len: "block_len (cf_hash_mf cf) n = nat (if n = 0 then 256 else n)" "block_pos (cf_hash_mf cf) no off = nat (no * 256 + off)"
    using h(3) by (simp_all add: block_len_def block_pos_def)
  obtain fs' mf' where m: "mf_write (cf_fs cf) (cf_dirs cf) (cf_hash_mf cf) no off n buf = Some (0, fs', cf_dirs cf, mf')"
    "mf_content fs' mf' = file_pwrite (hashc cf) (nat (no * 256 + off)) (take (nat (if n = 0 then 256 else n)) buf)"
    "mf_ok fs' (cf_dirs cf) mf'" "\<not> mf_locked mf'" "mf_paths mf' = mf_paths (cf_hash_mf cf)"
    "mf_blocksize mf' = 256" "mf_wr mf' = True" "\<forall>p. p \<notin> set (mf_paths (cf_hash_mf cf)) \<longrightarrow> fs' p = cf_fs cf p"
    using mf_write_refines [OF h(1) ib h(2,4), of buf] h(3) len buf by (auto simp: hashc_def)
  let ?cf = "cf\<lparr>cf_fs := fs', cf_hash_mf := mf'\<rparr>"
  note i = io_ok_hash [OF ok m(3,4,6,7,5,8)]
  have "kept True r cf ?cf" using i(1) by (simp add: kept_def core_def bsize_def)
  moreover have "hashc ?cf = mf_content fs' mf'" by (simp add: hashc_def)
  ultimately show ?thesis using i m(1,2) by (intro exI [of _ ?cf]) (simp add: hash_write_def)
qed

lemma block_read_spec:
  assumes ok: "io_ok w r cf" and b: "0 \<le> no" "0 \<le> off" "0 \<le> n" "if n = 0 then off = 0 else off + n \<le> bsize cf"
    and bs: "bs = file_pread (blockc cf) (nat (no * bsize cf + off)) (nat (if n = 0 then bsize cf else n))"
  shows "\<exists>cf'. block_read cf no off n = Some (if length bs < nat (if n = 0 then bsize cf else n) then 0 else 1, bs, cf') \<and>
    kept w r cf cf' \<and> hashc cf' = hashc cf \<and> blockc cf' = blockc cf \<and> rmfc cf' = rmfc cf"
proof -
  have h: "mf_ok (cf_fs cf) (cf_dirs cf) (cf_block_mf cf)" "\<not> mf_locked (cf_block_mf cf)" "mf_wr (cf_block_mf cf) = w"
    using ok by (auto simp: io_ok_def)
  have ib: "in_block (cf_block_mf cf) no off n" using b by (auto simp: in_block_def bsize_def)
  have len: "block_len (cf_block_mf cf) n = nat (if n = 0 then bsize cf else n)" "block_pos (cf_block_mf cf) no off = nat (no * bsize cf + off)"
    by (simp_all add: block_len_def block_pos_def bsize_def)
  obtain fs' mf' where m: "mf_read (cf_fs cf) (cf_block_mf cf) no off n = Some (if length bs < nat (if n = 0 then bsize cf else n) then 0 else 1, bs, fs', mf')"
    "mf_ok fs' (cf_dirs cf) mf'" "\<not> mf_locked mf'" "mf_content fs' mf' = blockc cf" "mf_paths mf' = mf_paths (cf_block_mf cf)"
    "mf_blocksize mf' = bsize cf" "mf_wr mf' = w" "\<forall>p. p \<notin> set (mf_paths (cf_block_mf cf)) \<longrightarrow> fs' p = cf_fs cf p"
    using mf_read_refines [OF h(1) ib h(2)] h(3) len bs by (auto simp: blockc_def bsize_def)
  let ?cf = "cf\<lparr>cf_fs := fs', cf_block_mf := mf'\<rparr>"
  note i = io_ok_block [OF ok m(2,3,6,7,5,8)]
  have "kept w r cf ?cf" using i(1) m(6) by (simp add: kept_def core_def bsize_def)
  moreover have "blockc ?cf = blockc cf" using m(4) by (simp add: blockc_def)
  ultimately show ?thesis using i m(1) by (intro exI [of _ ?cf]) (simp add: block_read_def)
qed

lemma block_write_spec:
  assumes ok: "io_ok True r cf" and b: "0 \<le> no" "0 \<le> off" "0 \<le> n" "if n = 0 then off = 0 else off + n \<le> bsize cf"
    and buf: "nat (if n = 0 then bsize cf else n) \<le> length buf"
  shows "\<exists>cf'. block_write cf no off n buf = Some (0, cf') \<and> kept True r cf cf' \<and>
    blockc cf' = file_pwrite (blockc cf) (nat (no * bsize cf + off)) (take (nat (if n = 0 then bsize cf else n)) buf) \<and>
    hashc cf' = hashc cf \<and> rmfc cf' = rmfc cf"
proof -
  have h: "mf_ok (cf_fs cf) (cf_dirs cf) (cf_block_mf cf)" "\<not> mf_locked (cf_block_mf cf)" "mf_wr (cf_block_mf cf)"
    using ok by (auto simp: io_ok_def)
  have ib: "in_block (cf_block_mf cf) no off n" using b by (auto simp: in_block_def bsize_def)
  have len: "block_len (cf_block_mf cf) n = nat (if n = 0 then bsize cf else n)" "block_pos (cf_block_mf cf) no off = nat (no * bsize cf + off)"
    by (simp_all add: block_len_def block_pos_def bsize_def)
  obtain fs' mf' where m: "mf_write (cf_fs cf) (cf_dirs cf) (cf_block_mf cf) no off n buf = Some (0, fs', cf_dirs cf, mf')"
    "mf_content fs' mf' = file_pwrite (blockc cf) (nat (no * bsize cf + off)) (take (nat (if n = 0 then bsize cf else n)) buf)"
    "mf_ok fs' (cf_dirs cf) mf'" "\<not> mf_locked mf'" "mf_paths mf' = mf_paths (cf_block_mf cf)"
    "mf_blocksize mf' = bsize cf" "mf_wr mf' = True" "\<forall>p. p \<notin> set (mf_paths (cf_block_mf cf)) \<longrightarrow> fs' p = cf_fs cf p"
    using mf_write_refines [OF h(1) ib h(2,3), of buf] len buf by (auto simp: blockc_def bsize_def)
  let ?cf = "cf\<lparr>cf_fs := fs', cf_block_mf := mf'\<rparr>"
  note i = io_ok_block [OF ok m(3,4,6,7,5,8)]
  have "kept True r cf ?cf" using i(1) m(6) by (simp add: kept_def core_def bsize_def)
  moreover have "blockc ?cf = mf_content fs' mf'" by (simp add: blockc_def)
  ultimately show ?thesis using i m(1,2) by (intro exI [of _ ?cf]) (simp add: block_write_def)
qed

lemma rmf_read_spec:
  assumes ok: "io_ok w r cf" and b: "0 \<le> no" "0 \<le> off" "0 \<le> n" "if n = 0 then off = 0 else off + n \<le> bsize cf"
    and bs: "bs = file_pread (rmfc cf) (nat (no * bsize cf + off)) (nat (if n = 0 then bsize cf else n))"
  shows "\<exists>cf'. rmf_read cf no off n = Some (if length bs < nat (if n = 0 then bsize cf else n) then 0 else 1, bs, cf') \<and>
    kept w r cf cf' \<and> hashc cf' = hashc cf \<and> blockc cf' = blockc cf \<and> rmfc cf' = rmfc cf"
proof -
  obtain rmf where h: "cf_rmf cf = Some rmf" "mf_ok (cf_fs cf) (cf_rdirs cf) rmf" "\<not> mf_locked rmf" "mf_blocksize rmf = bsize cf"
    "mf_wr rmf = r" using ok by (auto simp: io_ok_def)
  have ib: "in_block rmf no off n" using b h(4) by (auto simp: in_block_def)
  have len: "block_len rmf n = nat (if n = 0 then bsize cf else n)" "block_pos rmf no off = nat (no * bsize cf + off)"
    using h(4) by (simp_all add: block_len_def block_pos_def)
  have c: "rmfc cf = mf_content (cf_fs cf) rmf" using h(1) by (simp add: rmfc_def)
  obtain fs' mf' where m: "mf_read (cf_fs cf) rmf no off n = Some (if length bs < nat (if n = 0 then bsize cf else n) then 0 else 1, bs, fs', mf')"
    "mf_ok fs' (cf_rdirs cf) mf'" "\<not> mf_locked mf'" "mf_content fs' mf' = rmfc cf" "mf_paths mf' = mf_paths rmf"
    "mf_blocksize mf' = bsize cf" "mf_wr mf' = r" "\<forall>p. p \<notin> set (mf_paths rmf) \<longrightarrow> fs' p = cf_fs cf p"
    using mf_read_refines [OF h(2) ib h(3)] h(4,5) len bs c by auto
  let ?cf = "cf\<lparr>cf_fs := fs', cf_rmf := Some mf'\<rparr>"
  note i = io_ok_rmf [OF ok h(1) m(2,3,6,7,5,8)]
  have "kept w r cf ?cf" using i(1) by (simp add: kept_def core_def bsize_def)
  moreover have "rmfc ?cf = rmfc cf" using m(4) by (simp add: rmfc_def)
  ultimately show ?thesis using i m(1) h(1) by (intro exI [of _ ?cf]) (simp add: rmf_read_def)
qed

lemma rmf_write_spec:
  assumes ok: "io_ok w True cf" and b: "0 \<le> no" "0 \<le> off" "0 \<le> n" "if n = 0 then off = 0 else off + n \<le> bsize cf"
    and buf: "nat (if n = 0 then bsize cf else n) \<le> length buf"
  shows "\<exists>cf'. rmf_write cf no off n buf = Some (0, cf') \<and> kept w True cf cf' \<and>
    rmfc cf' = file_pwrite (rmfc cf) (nat (no * bsize cf + off)) (take (nat (if n = 0 then bsize cf else n)) buf) \<and>
    hashc cf' = hashc cf \<and> blockc cf' = blockc cf"
proof -
  obtain rmf where h: "cf_rmf cf = Some rmf" "mf_ok (cf_fs cf) (cf_rdirs cf) rmf" "\<not> mf_locked rmf" "mf_blocksize rmf = bsize cf"
    "mf_wr rmf" using ok by (auto simp: io_ok_def)
  have ib: "in_block rmf no off n" using b h(4) by (auto simp: in_block_def)
  have len: "block_len rmf n = nat (if n = 0 then bsize cf else n)" "block_pos rmf no off = nat (no * bsize cf + off)"
    using h(4) by (simp_all add: block_len_def block_pos_def)
  have c: "rmfc cf = mf_content (cf_fs cf) rmf" using h(1) by (simp add: rmfc_def)
  obtain fs' mf' where m: "mf_write (cf_fs cf) (cf_rdirs cf) rmf no off n buf = Some (0, fs', cf_rdirs cf, mf')"
    "mf_content fs' mf' = file_pwrite (rmfc cf) (nat (no * bsize cf + off)) (take (nat (if n = 0 then bsize cf else n)) buf)"
    "mf_ok fs' (cf_rdirs cf) mf'" "\<not> mf_locked mf'" "mf_paths mf' = mf_paths rmf"
    "mf_blocksize mf' = bsize cf" "mf_wr mf' = True" "\<forall>p. p \<notin> set (mf_paths rmf) \<longrightarrow> fs' p = cf_fs cf p"
    using mf_write_refines [OF h(2) ib h(3,5), of buf] h(4) len buf c by auto
  let ?cf = "cf\<lparr>cf_fs := fs', cf_rmf := Some mf'\<rparr>"
  note i = io_ok_rmf [OF ok h(1) m(3,4,6,7,5,8)]
  have "kept w True cf ?cf" using i(1) by (simp add: kept_def core_def bsize_def)
  moreover have "rmfc ?cf = mf_content fs' mf'" by (simp add: rmfc_def)
  ultimately show ?thesis using i m(1,2) h(1) by (intro exI [of _ ?cf]) (simp add: rmf_write_def)
qed

text \<open>Changes of the core of the state do not matter to the accesses.\<close>

definition io_same :: "cfile \<Rightarrow> cfile \<Rightarrow> bool" where
  "io_same cf cf' \<longleftrightarrow> cf_fs cf' = cf_fs cf \<and> cf_dirs cf' = cf_dirs cf \<and> cf_rdirs cf' = cf_rdirs cf \<and>
     cf_hash_mf cf' = cf_hash_mf cf \<and> cf_block_mf cf' = cf_block_mf cf \<and> cf_rmf cf' = cf_rmf cf"

lemma io_same_simps:
  assumes "io_same cf cf'"
  shows "io_ok w r cf' = io_ok w r cf" "hashc cf' = hashc cf" "blockc cf' = blockc cf" "rmfc cf' = rmfc cf" "bsize cf' = bsize cf"
  using assms by (simp_all add: io_same_def io_ok_def hashc_def blockc_def rmfc_def bsize_def cong: option.case_cong)

end
