(* ===== verification/Cfile_Cache.thy ===== *)
theory Cfile_Cache
  imports Cfile_Io
begin

text \<open>
  The bucket cache of a commit file. \<open>cur\<close> is the bucket a number stands for: the copy in memory if there is one,
  else the bytes in the index file. Under \<open>cache_ok\<close>, flushing, evicting and loading buckets never change \<open>cur\<close>.
\<close>

section \<open>Buckets as bytes\<close>

definition zero_tail :: "int list \<Rightarrow> bool" where
  "zero_tail vs \<longleftrightarrow> (\<forall>v\<in>set (dropWhile (\<lambda>v. v \<noteq> 0) vs). v = 0)"

definition ph_wf :: "ph_bucket \<Rightarrow> bool" where
  "ph_wf p \<longleftrightarrow> length (ph_no p) = 15 \<and> length (ph_vno p) = 15 \<and>
     (\<forall>x\<in>set (ph_no p @ ph_vno p @ [ph_this p, ph_next p]). zint_range x) \<and> zero_tail (ph_vno p)"

lemma concat_chunk:
  assumes "\<forall>z\<in>set zs. length (f z) = 8" "i < length zs"
  shows "take 8 (drop (8 * i) (concat (map f zs))) = f (zs ! i)"
  using assms by (induction zs arbitrary: i) (auto simp: nth_Cons split: nat.splits)

lemma zints_of_bytes_back:
  assumes "\<forall>z\<in>set zs. zint_range z" "n = length zs"
  shows "zints_of_bytes n (concat (map zint_bytes zs)) = zs"
  using assms by (intro nth_equalityI) (simp_all add: zints_of_bytes_def concat_chunk)

lemma length_concat_zints [simp]: "length (concat (map zint_bytes zs)) = 8 * length zs"
  by (induction zs) simp_all

lemma ph_bytes_length [simp]: "ph_wf p \<Longrightarrow> length (ph_bytes p) = 256"
  by (simp add: ph_bytes_def ph_wf_def)

lemma ph_bytes_back [simp]:
  assumes "ph_wf p"
  shows "ph_of_bytes (ph_bytes p) = p"
proof -
  let ?zs = "ph_no p @ ph_vno p @ [ph_this p, ph_next p]"
  have len: "length (ph_no p) = 15" "length (ph_vno p) = 15" and r: "\<forall>z\<in>set ?zs. zint_range z" using assms by (auto simp: ph_wf_def)
  have "zints_of_bytes 32 (ph_bytes p) = ?zs" unfolding ph_bytes_def using zints_of_bytes_back [OF r, of 32] len by simp
  moreover have "?zs ! 30 = ph_this p" "?zs ! 31 = ph_next p" using len by (simp_all add: nth_append)
  ultimately show ?thesis using len by (simp add: ph_of_bytes_def Let_def HASH_BUCKET_def del: append_assoc)
qed

section \<open>The bucket of a number\<close>

definition bno :: "hash_bucket \<Rightarrow> int" where
  "bno h = ph_this (hb_ph h)"

definition in_range :: "cfile \<Rightarrow> int \<Rightarrow> bool" where
  "in_range cf b \<longleftrightarrow> ch_first_bucket (cf_head cf) \<le> b \<and> b < ch_next_bucket (cf_head cf)"

definition bmem :: "hash_bucket list \<Rightarrow> int \<Rightarrow> hash_bucket option" where
  "bmem M b = List.find (\<lambda>h. bno h = b) M"

definition on_disk :: "byte list \<Rightarrow> int \<Rightarrow> bool" where
  "on_disk H b \<longleftrightarrow> (b + 1) * 256 \<le> int (length H)"

definition disk :: "byte list \<Rightarrow> int \<Rightarrow> ph_bucket" where
  "disk H b = ph_of_bytes (file_pread H (nat (b * 256)) 256)"

definition cur :: "cfile \<Rightarrow> int \<Rightarrow> ph_bucket" where
  "cur cf b = (case bmem (cf_buckets cf) b of Some h \<Rightarrow> hb_ph h | None \<Rightarrow> disk (hashc cf) b)"

definition cache_ok :: "bool \<Rightarrow> bool \<Rightarrow> cfile \<Rightarrow> bool" where
  "cache_ok w r cf \<longleftrightarrow> io_ok w r cf \<and> 0 < ch_first_bucket (cf_head cf) \<and> ch_first_bucket (cf_head cf) \<le> ch_next_bucket (cf_head cf) \<and>
     int (length (hashc cf)) \<le> ch_next_bucket (cf_head cf) * 256 \<and>
     distinct (map bno (cf_buckets cf)) \<and> length (cf_buckets cf) \<le> cf_max_bucket_in_memory cf \<and> 0 < cf_max_bucket_in_memory cf \<and>
     (\<forall>h\<in>set (cf_buckets cf). in_range cf (bno h) \<and> ph_wf (hb_ph h) \<and> (hb_dirty h \<longrightarrow> w) \<and>
        (\<not> hb_dirty h \<longrightarrow> on_disk (hashc cf) (bno h) \<and> disk (hashc cf) (bno h) = hb_ph h)) \<and>
     (\<forall>b. in_range cf b \<longrightarrow> bmem (cf_buckets cf) b = None \<longrightarrow>
        on_disk (hashc cf) b \<and> ph_wf (disk (hashc cf) b) \<and> ph_this (disk (hashc cf) b) = b)"

lemma bmem_None: "bmem M b = None \<longleftrightarrow> b \<notin> bno ` set M"
  by (auto simp: bmem_def find_None_iff)

lemma bmem_append: "bmem (M @ [h]) b = (case bmem M b of Some g \<Rightarrow> Some g | None \<Rightarrow> if bno h = b then Some h else None)"
  by (induction M) (auto simp: bmem_def)

lemma bmem_Some: "bmem M b = Some h \<Longrightarrow> h \<in> set M \<and> bno h = b"
  by (auto simp: bmem_def find_Some_iff)

lemma bmem_eq: "distinct (map bno M) \<Longrightarrow> h \<in> set M \<Longrightarrow> bmem M (bno h) = Some h"
  by (induction M) (auto simp: bmem_def image_iff)

lemma cache_okD:
  assumes "cache_ok w r cf"
  shows "io_ok w r cf" "0 < ch_first_bucket (cf_head cf)" "distinct (map bno (cf_buckets cf))"
    "ch_first_bucket (cf_head cf) \<le> ch_next_bucket (cf_head cf)"
    "length (cf_buckets cf) \<le> cf_max_bucket_in_memory cf" "0 < cf_max_bucket_in_memory cf"
  using assms by (auto simp: cache_ok_def)

lemma cur_wf: "cache_ok w r cf \<Longrightarrow> in_range cf b \<Longrightarrow> ph_wf (cur cf b) \<and> ph_this (cur cf b) = b"
  by (auto simp: cache_ok_def cur_def bno_def split: option.splits dest: bmem_Some)

lemma cur_mem: "cache_ok w r cf \<Longrightarrow> k < length (cf_buckets cf) \<Longrightarrow> cur cf (bno (cf_buckets cf ! k)) = hb_ph (cf_buckets cf ! k)"
  by (simp add: cur_def bmem_eq cache_ok_def)

text \<open>Writing bucket \<open>b\<close> to the index file changes bucket \<open>b\<close> there and no other complete one.\<close>

lemma disk_write_same:
  assumes "ph_wf p" "0 \<le> b"
  shows "disk (file_pwrite H (nat (b * 256)) (ph_bytes p)) b = p" "on_disk (file_pwrite H (nat (b * 256)) (ph_bytes p)) b"
proof -
  have ne: "ph_bytes p \<noteq> []" using ph_bytes_length [OF assms(1)] by (metis length_0_conv zero_neq_numeral)
  show "disk (file_pwrite H (nat (b * 256)) (ph_bytes p)) b = p"
    using file_pread_pwrite_same [of H "nat (b * 256)" "ph_bytes p"] assms by (simp add: disk_def)
  show "on_disk (file_pwrite H (nat (b * 256)) (ph_bytes p)) b" using ne assms by (simp add: on_disk_def)
qed

lemma disk_write_other:
  assumes "length bs = 256" "0 \<le> b" "0 \<le> c" "b \<noteq> c" "on_disk H c"
  shows "disk (file_pwrite H (nat (b * 256)) bs) c = disk H c" "on_disk (file_pwrite H (nat (b * 256)) bs) c"
proof -
  have l: "nat (c * 256) + 256 \<le> length H" using assms(3,5) by (simp add: on_disk_def)
  have "nat (c * 256) + 256 \<le> nat (b * 256) \<or> nat (b * 256) + length bs \<le> nat (c * 256)"
    using assms(1-4) by (cases "c < b") auto
  then show "disk (file_pwrite H (nat (b * 256)) bs) c = disk H c"
    unfolding disk_def using l by (subst file_pread_pwrite_other) auto
  show "on_disk (file_pwrite H (nat (b * 256)) bs) c" using assms(5) by (auto simp: on_disk_def max_def)
qed

section \<open>Steps of the cache\<close>

text \<open>Two states that hold the same buckets and agree outside of the cache.\<close>

definition same_logic :: "cfile \<Rightarrow> cfile \<Rightarrow> bool" where
  "same_logic cf cf' \<longleftrightarrow> cf_head cf' = cf_head cf \<and> cf_array cf' = cf_array cf \<and> cf_iobuf cf' = cf_iobuf cf \<and>
     cf_max_bucket_in_memory cf' = cf_max_bucket_in_memory cf \<and> cf_no_hits cf' = cf_no_hits cf \<and> cf_no_miss cf' = cf_no_miss cf \<and>
     cf_locked cf' = cf_locked cf \<and> bsize cf' = bsize cf \<and> blockc cf' = blockc cf \<and> rmfc cf' = rmfc cf"

definition cache_step :: "bool \<Rightarrow> bool \<Rightarrow> cfile \<Rightarrow> cfile \<Rightarrow> bool" where
  "cache_step w r cf cf' \<longleftrightarrow> cache_ok w r cf' \<and> same_logic cf cf' \<and> (\<forall>b. in_range cf b \<longrightarrow> cur cf' b = cur cf b)"

lemma same_logic_refl [simp]: "same_logic cf cf"
  by (simp add: same_logic_def)

lemma same_logic_trans: "same_logic a b \<Longrightarrow> same_logic b c \<Longrightarrow> same_logic a c"
  by (simp add: same_logic_def)

lemma same_logic_range: "same_logic cf cf' \<Longrightarrow> in_range cf' b = in_range cf b"
  by (simp add: same_logic_def in_range_def)

lemma cache_step_refl: "cache_ok w r cf \<Longrightarrow> cache_step w r cf cf"
  by (simp add: cache_step_def)

lemma cache_step_trans: "cache_step w r a b \<Longrightarrow> cache_step w r b c \<Longrightarrow> cache_step w r a c"
  unfolding cache_step_def using same_logic_trans same_logic_range by metis

text \<open>Dropping the oldest bucket, written back if it is dirty.\<close>

lemma flush_first:
  assumes ok: "cache_ok w r cf" and M: "cf_buckets cf = h # M"
  shows "\<exists>cf'. flush_loop (h # ps) cf 0 = flush_loop ps cf' 0 \<and> cf_buckets cf' = M \<and> cache_step w r cf cf'"
proof (cases "hb_dirty h")
  case False
  let ?cf = "cf\<lparr>cf_buckets := M\<rparr>"
  have io: "io_same cf ?cf" by (simp add: io_same_def)
  note s = io_same_simps [OF io]
  have clean: "on_disk (hashc cf) (bno h)" "disk (hashc cf) (bno h) = hb_ph h" "ph_wf (hb_ph h)"
    using ok M False by (auto simp: cache_ok_def)
  have notin: "bno h \<notin> bno ` set M" using cache_okD(3) [OF ok] M by simp
  have m: "bmem (cf_buckets cf) b = (if b = bno h then Some h else bmem M b)" for b using M by (simp add: bmem_def)
  have "cur ?cf b = cur cf b" for b
    using clean(2) notin m [of b] bmem_None [of M b] by (cases "b = bno h") (simp_all add: cur_def s cong: option.case_cong)
  moreover have "cache_ok w r ?cf"
  proof -
    have "on_disk (hashc cf) b \<and> ph_wf (disk (hashc cf) b) \<and> ph_this (disk (hashc cf) b) = b"
      if "in_range cf b" "bmem M b = None" for b
      using ok clean m [of b] that by (cases "b = bno h") (auto simp: cache_ok_def bno_def)
    then show ?thesis using ok M unfolding cache_ok_def s by (simp add: in_range_def)
  qed
  ultimately have "cache_step w r cf ?cf" using s by (simp add: cache_step_def same_logic_def)
  then show ?thesis using False M by (intro exI [of _ ?cf]) (simp add: release_bucket_def)
next
  case True
  have w: w and rng: "in_range cf (bno h)" "ph_wf (hb_ph h)" using ok M True by (auto simp: cache_ok_def)
  have first: "0 < ch_first_bucket (cf_head cf)" using ok by (rule cache_okD)
  have b0: "0 \<le> bno h" using rng(1) first by (simp add: in_range_def)
  have io_ok: "io_ok True r cf" using cache_okD(1) [OF ok] w by simp
  obtain cf1 where w1: "hash_write cf (bno h) 0 0 (ph_bytes (hb_ph h)) = Some (0, cf1)" and k: "kept True r cf cf1"
    and H: "hashc cf1 = file_pwrite (hashc cf) (nat (bno h * 256)) (ph_bytes (hb_ph h))"
    and rest: "blockc cf1 = blockc cf" "rmfc cf1 = rmfc cf"
    using hash_write_spec [OF io_ok b0, of 0 0 "ph_bytes (hb_ph h)"] rng(2) by auto
  let ?cf = "(cf1\<lparr>cf_dirty := True\<rparr>)\<lparr>cf_buckets := M\<rparr>"
  have io: "io_same cf1 ?cf" by (simp add: io_same_def)
  note s = io_same_simps [OF io]
  have core: "cf_head cf1 = cf_head cf" "cf_array cf1 = cf_array cf" "cf_buckets cf1 = h # M" "cf_iobuf cf1 = cf_iobuf cf"
      "cf_max_bucket_in_memory cf1 = cf_max_bucket_in_memory cf" "cf_no_hits cf1 = cf_no_hits cf" "cf_no_miss cf1 = cf_no_miss cf"
      "cf_locked cf1 = cf_locked cf" "bsize cf1 = bsize cf"
    using k M by (auto simp: kept_def core_def)
  have notin: "bno h \<notin> bno ` set M" using cache_okD(3) [OF ok] M by simp
  have same: "disk (hashc cf1) (bno h) = hb_ph h" "on_disk (hashc cf1) (bno h)"
    unfolding H using disk_write_same [OF rng(2) b0] by auto
  have other: "disk (hashc cf1) c = disk (hashc cf) c \<and> on_disk (hashc cf1) c" if "in_range cf c" "c \<noteq> bno h" "on_disk (hashc cf) c" for c
  proof -
    have "0 \<le> c" using that(1) first by (simp add: in_range_def)
    then show ?thesis unfolding H
      using that disk_write_other [OF ph_bytes_length [OF rng(2)] b0, of c] by auto
  qed
  have H': "hashc ?cf = hashc cf1" by (rule s)
  have cur: "cur ?cf b = cur cf b" if b: "in_range cf b" for b
  proof (cases "b = bno h")
    case True
    then show ?thesis using same(1) notin M bmem_None [of M b]
      by (simp add: cur_def H' bmem_def)
  next
    case False
    then have m: "bmem (cf_buckets cf) b = bmem M b" using M by (simp add: bmem_def)
    show ?thesis
    proof (cases "bmem M b")
      case None
      then have "on_disk (hashc cf) b" using ok b m by (simp add: cache_ok_def)
      then show ?thesis using other [OF b False] None m by (simp add: cur_def H')
    qed (use m in \<open>simp add: cur_def\<close>)
  qed
  have len: "int (length (hashc ?cf)) \<le> ch_next_bucket (cf_head cf) * 256"
    using ok rng b0 unfolding H' H by (auto simp: cache_ok_def in_range_def)
  have mem: "in_range cf (bno g) \<and> ph_wf (hb_ph g) \<and> (hb_dirty g \<longrightarrow> w) \<and>
      (\<not> hb_dirty g \<longrightarrow> on_disk (hashc ?cf) (bno g) \<and> disk (hashc ?cf) (bno g) = hb_ph g)" if g: "g \<in> set M" for g
  proof -
    have "bno g \<noteq> bno h" using g notin by (metis image_eqI)
    then show ?thesis using ok M g other [of "bno g"] by (auto simp: cache_ok_def H')
  qed
  have dsk: "on_disk (hashc ?cf) b \<and> ph_wf (disk (hashc ?cf) b) \<and> ph_this (disk (hashc ?cf) b) = b"
    if b: "in_range cf b" "bmem M b = None" for b
  proof (cases "b = bno h")
    case True
    then show ?thesis using same rng(2) by (simp add: H' bno_def)
  next
    case False
    then have "on_disk (hashc cf) b \<and> ph_wf (disk (hashc cf) b) \<and> ph_this (disk (hashc cf) b) = b"
      using ok b M by (simp add: cache_ok_def bmem_def)
    then show ?thesis using other [OF b(1) False] by (simp add: H')
  qed
  have "cache_ok w r ?cf"
    using ok M k w mem dsk len core unfolding cache_ok_def s(1) by (auto simp: in_range_def kept_def)
  then have "cache_step w r cf ?cf" using cur core rest s by (simp add: cache_step_def same_logic_def)
  moreover have "flush_loop (h # ps) cf 0 = flush_loop ps ?cf 0"
    using True w1 core(3) by (simp add: release_bucket_def bno_def)
  ultimately show ?thesis by (intro exI [of _ ?cf]) simp
qed

lemma flush_loop_all:
  assumes "cache_ok w r cf"
  shows "\<exists>cf'. flush_loop (cf_buckets cf) cf 0 = Some (0, cf') \<and> cf_buckets cf' = [] \<and> cache_step w r cf cf'"
  using assms
proof (induction "cf_buckets cf" arbitrary: cf)
  case Nil
  then show ?case using cache_step_refl by (metis flush_loop.simps(1))
next
  case (Cons h M)
  obtain cf1 where f: "flush_loop (h # M) cf 0 = flush_loop M cf1 0" "cf_buckets cf1 = M" "cache_step w r cf cf1"
    using flush_first [OF Cons.prems Cons.hyps(2) [symmetric]] by blast
  then have "\<exists>cf'. flush_loop M cf1 0 = Some (0, cf') \<and> cf_buckets cf' = [] \<and> cache_step w r cf1 cf'"
    using Cons.hyps(1) [of cf1] by (simp add: cache_step_def)
  then show ?case using f Cons.hyps(2) cache_step_trans by metis
qed

lemma flush_bucket_all:
  assumes "cache_ok w r cf"
  shows "\<exists>cf'. flush_bucket cf None = Some (0, cf') \<and> cf_buckets cf' = [] \<and> cache_step w r cf cf'"
  using flush_loop_all [OF assms] by (simp add: flush_bucket_def)

lemma alloc_bucket_spec:
  assumes ok: "cache_ok w r cf"
  shows "\<exists>cf'. alloc_bucket cf hno = Some (True, cf'\<lparr>cf_buckets := cf_buckets cf' @ [\<lparr>hb_ph = blank_ph 0, hb_dirty = False, hb_hno = hno\<rparr>]\<rparr>) \<and>
    cache_step w r cf cf' \<and> length (cf_buckets cf') < cf_max_bucket_in_memory cf \<and>
    (cf_buckets cf' = cf_buckets cf \<or> cf_buckets cf' = tl (cf_buckets cf))"
proof (cases "length (cf_buckets cf) = cf_max_bucket_in_memory cf")
  case True
  then obtain h M where M: "cf_buckets cf = h # M" using cache_okD(6) [OF ok] by (cases "cf_buckets cf") auto
  obtain cf' where f: "flush_loop [h] cf 0 = flush_loop [] cf' 0" "cf_buckets cf' = M" "cache_step w r cf cf'"
    using flush_first [OF ok M] by blast
  then have "flush_bucket cf (Some 1) = Some (0, cf')" using M by (simp add: flush_bucket_def)
  moreover have "cf_max_bucket_in_memory cf' = cf_max_bucket_in_memory cf" using f(3) by (simp add: cache_step_def same_logic_def)
  ultimately show ?thesis using True M f(2,3) by (intro exI [of _ cf']) (simp add: alloc_bucket_def del: flush_loop.simps)
next
  case False
  then have "length (cf_buckets cf) < cf_max_bucket_in_memory cf" using cache_okD(5) [OF ok] by simp
  then show ?thesis using ok False by (intro exI [of _ cf]) (simp add: alloc_bucket_def cache_step_refl)
qed

text \<open>Loading a bucket that is not in memory.\<close>

lemma cache_push:
  assumes ok: "cache_ok w r cf" and rng: "in_range cf b" and no: "bmem (cf_buckets cf) b = None"
    and len: "length (cf_buckets cf) < cf_max_bucket_in_memory cf"
    and cf': "io_same cf cf'" "same_logic cf cf'"
      "cf_buckets cf' = cf_buckets cf @ [\<lparr>hb_ph = cur cf b, hb_dirty = False, hb_hno = hno\<rparr>]"
  shows "cache_step w r cf cf'"
proof -
  note s = io_same_simps [OF cf'(1)]
  have l: "cf_head cf' = cf_head cf" "cf_max_bucket_in_memory cf' = cf_max_bucket_in_memory cf"
    using cf'(2) by (auto simp: same_logic_def)
  have cb: "cur cf b = disk (hashc cf) b" using no by (simp add: cur_def)
  have d: "on_disk (hashc cf) b" "ph_wf (disk (hashc cf) b)" "ph_this (disk (hashc cf) b) = b" using ok rng no by (auto simp: cache_ok_def)
  have bno: "bno \<lparr>hb_ph = disk (hashc cf) b, hb_dirty = False, hb_hno = hno\<rparr> = b" using d(3) by (simp add: bno_def)
  have m: "bmem (cf_buckets cf') c = (if c = b then Some \<lparr>hb_ph = disk (hashc cf) b, hb_dirty = False, hb_hno = hno\<rparr> else bmem (cf_buckets cf) c)" for c
    using no bno unfolding cf'(3) cb bmem_append by (auto split: option.splits)
  have cur: "cur cf' c = cur cf c" for c using m [of c] cb by (simp add: cur_def s cong: option.case_cong)
  have "b \<notin> bno ` set (cf_buckets cf)" using no bmem_None by blast
  then have "cache_ok w r cf'"
    using ok d rng len l unfolding cache_ok_def s cf'(3) cb by (auto simp: in_range_def bno m [unfolded cf'(3) cb])
  with cur cf'(2) show ?thesis by (simp add: cache_step_def)
qed

lemma get_bucket_spec:
  assumes ok: "cache_ok w r cf" and rng: "in_range cf b" and no: "bmem (cf_buckets cf) b = None"
  shows "\<exists>cf' M. get_bucket cf b hno = Some (Some (length M), cf') \<and> cache_step w r cf cf' \<and>
    (M = cf_buckets cf \<or> M = tl (cf_buckets cf)) \<and> cf_buckets cf' = M @ [\<lparr>hb_ph = cur cf b, hb_dirty = False, hb_hno = hno\<rparr>]"
proof -
  let ?blank = "\<lparr>hb_ph = blank_ph 0, hb_dirty = False, hb_hno = hno\<rparr>"
  obtain cf1 where a: "alloc_bucket cf hno = Some (True, cf1\<lparr>cf_buckets := cf_buckets cf1 @ [?blank]\<rparr>)"
    and st: "cache_step w r cf cf1" and len: "length (cf_buckets cf1) < cf_max_bucket_in_memory cf"
    and M: "cf_buckets cf1 = cf_buckets cf \<or> cf_buckets cf1 = tl (cf_buckets cf)"
    using alloc_bucket_spec [OF ok] by blast
  have ok1: "cache_ok w r cf1" and sl: "same_logic cf cf1" using st by (auto simp: cache_step_def)
  have rng1: "in_range cf1 b" using rng same_logic_range [OF sl] by simp
  have no1: "bmem (cf_buckets cf1) b = None" using no M unfolding bmem_None by (cases "cf_buckets cf") auto
  have len1: "length (cf_buckets cf1) < cf_max_bucket_in_memory cf1" using len sl by (simp add: same_logic_def)
  have cb: "cur cf1 b = cur cf b" using st rng by (simp add: cache_step_def)
  have b0: "0 \<le> b" using cache_okD(2) [OF ok1] rng1 by (simp add: in_range_def)
  have d: "on_disk (hashc cf1) b" "ph_wf (disk (hashc cf1) b)" "ph_this (disk (hashc cf1) b) = b" "cur cf1 b = disk (hashc cf1) b"
    using ok1 rng1 no1 by (auto simp: cache_ok_def cur_def)
  let ?cf2 = "cf1\<lparr>cf_buckets := cf_buckets cf1 @ [?blank]\<rparr>"
  have io2: "io_same cf1 ?cf2" by (simp add: io_same_def)
  note s2 = io_same_simps [OF io2]
  let ?bs = "file_pread (hashc cf1) (nat (b * 256)) 256"
  have full: "length ?bs = 256" using d(1) b0 by (simp add: on_disk_def)
  obtain cf3 where r3: "hash_read ?cf2 b 0 0 = Some (1, ?bs, cf3)" and k: "kept w r ?cf2 cf3"
    and c3: "hashc cf3 = hashc cf1" "blockc cf3 = blockc cf1" "rmfc cf3 = rmfc cf1"
    using hash_read_spec [of w r ?cf2 b 0 0 ?bs] cache_okD(1) [OF ok1] b0 s2 full by auto
  have core: "cf_head cf3 = cf_head cf1" "cf_array cf3 = cf_array cf1" "cf_buckets cf3 = cf_buckets cf1 @ [?blank]"
      "cf_iobuf cf3 = cf_iobuf cf1" "cf_max_bucket_in_memory cf3 = cf_max_bucket_in_memory cf1" "cf_no_hits cf3 = cf_no_hits cf1"
      "cf_no_miss cf3 = cf_no_miss cf1" "cf_locked cf3 = cf_locked cf1" "bsize cf3 = bsize cf1" "io_ok w r cf3"
    using k s2 by (auto simp: kept_def core_def)
  let ?h = "\<lparr>hb_ph = cur cf1 b, hb_dirty = False, hb_hno = hno\<rparr>"
  let ?cf3 = "cf3\<lparr>cf_buckets := cf_buckets cf1\<rparr>" and ?cf4 = "cf3\<lparr>cf_buckets := cf_buckets cf1 @ [?h]\<rparr>"
  have io3: "io_same cf3 ?cf3" "io_same ?cf3 ?cf4" by (simp_all add: io_same_def)
  note s3 = io_same_simps [OF io3(1)] and s4 = io_same_simps [OF io3(2)]
  have sl3: "same_logic cf1 ?cf3" using core c3 s3 by (simp add: same_logic_def)
  have cur3: "cur ?cf3 c = cur cf1 c" for c using c3 s3 by (simp add: cur_def cong: option.case_cong)
  have "cache_ok w r ?cf3" using ok1 core c3 s3 unfolding cache_ok_def by (simp add: in_range_def)
  then have st3: "cache_step w r cf1 ?cf3" using sl3 cur3 by (simp add: cache_step_def)
  have "cache_step w r ?cf3 ?cf4"
  proof (rule cache_push [where hno = hno, OF \<open>cache_ok w r ?cf3\<close> _ _ _ io3(2)])
    show "in_range ?cf3 b" using rng1 core by (simp add: in_range_def)
    show "same_logic ?cf3 ?cf4" using s4 by (simp add: same_logic_def)
  qed (use no1 len1 core cur3 in simp_all)
  then have st4: "cache_step w r cf ?cf4" using st st3 cache_step_trans by blast
  have "get_bucket cf b hno = Some (Some (length (cf_buckets cf1)), ?cf4)"
    using a r3 core(3) d by (simp add: get_bucket_def set_bucket_def disk_def list_update_append)
  then show ?thesis using st4 M cb by (intro exI [of _ ?cf4] exI [of _ "cf_buckets cf1"]) simp
qed

end
