(* ===== verification/Cfile_Hash.thy ===== *)
theory Cfile_Hash
  imports Cfile_Cache
begin

text \<open>
  The hash table of a commit file: chains of buckets linked through the index file, one per hash value, seen
  through the cache. \<open>hash_ok\<close> is the invariant, with the chains as lists of bucket numbers, and \<open>cf_map\<close> the map
  from block numbers to shadow blocks it stands for. Looking up decides the map, adding a block extends it.
\<close>

section \<open>Entries\<close>

definition ph_list :: "ph_bucket \<Rightarrow> (int \<times> int) list" where
  "ph_list p = takeWhile (\<lambda>e. snd e \<noteq> 0) (zip (ph_no p) (ph_vno p))"

lemma entry_search_map: "entry_search n ns vs = map_of (takeWhile (\<lambda>e. snd e \<noteq> 0) (zip ns vs)) n"
  by (induction n ns vs rule: entry_search.induct) auto

lemma ph_find_map: "ph_find p n = map_of (ph_list p) n"
  by (simp add: ph_find_def ph_list_def entry_search_map)

lemma free_entry_spec:
  "free_entry vs = (if 0 \<in> set vs then Some (length (takeWhile (\<lambda>v. v \<noteq> 0) vs)) else None)"
  by (induction vs) auto

lemma length_takeWhile_zero: "0 \<in> set vs \<Longrightarrow> length (takeWhile (\<lambda>v. v \<noteq> (0 :: int)) vs) < length vs"
  by (induction vs) auto

lemma takeWhile_snd_zip:
  "length ns = length vs \<Longrightarrow> takeWhile (\<lambda>e. snd e \<noteq> 0) (zip ns vs) = take (length (takeWhile (\<lambda>v. v \<noteq> 0) vs)) (zip ns vs)"
  by (induction ns vs rule: list_induct2) auto

text \<open>Filling the first free entry of a bucket.\<close>

lemma ph_list_put:
  assumes wf: "ph_wf p" and free: "free_entry (ph_vno p) = Some i" and v: "v \<noteq> 0" "zint_range n" "zint_range v"
    and p': "p' = p\<lparr>ph_no := (ph_no p)[i := n], ph_vno := (ph_vno p)[i := v]\<rparr>"
  shows "ph_list p' = ph_list p @ [(n, v)]" "ph_wf p'"
proof -
  let ?vs = "ph_vno p" and ?ns = "ph_no p"
  have len: "length ?ns = 15" "length ?vs = 15" and z: "\<forall>v\<in>set (dropWhile (\<lambda>v. v \<noteq> 0) ?vs). v = 0"
    using wf unfolding ph_wf_def zero_tail_def by blast+
  have i: "i = length (takeWhile (\<lambda>v. v \<noteq> 0) ?vs)" "i < 15"
    using free len length_takeWhile_zero [of ?vs] by (simp_all add: free_entry_spec split: if_splits)
  have low: "?vs ! k \<noteq> 0" if "k < i" for k
    using that nth_mem [of k "takeWhile (\<lambda>v. v \<noteq> 0) ?vs"] takeWhile_nth [of k "\<lambda>v. v \<noteq> 0" ?vs] unfolding i(1)
    by (auto dest: set_takeWhileD)
  have high: "?vs ! k = 0" if "i \<le> k" "k < 15" for k
  proof -
    have eq: "dropWhile (\<lambda>v. v \<noteq> 0) ?vs = drop i ?vs" using i(1) by (simp add: dropWhile_eq_drop)
    have "?vs ! k \<in> set (drop i ?vs)" using that len nth_mem [of "k - i" "drop i ?vs"] by simp
    then show ?thesis by (intro bspec [OF z]) (simp only: eq)
  qed
  have tw: "takeWhile (\<lambda>v. v \<noteq> 0) (?vs[i := v]) = take (Suc i) (?vs[i := v])"
    using i len low high v(1) by (intro takeWhile_eq_take_P_nth) (auto simp: nth_list_update)
  have "ph_list p' = take (Suc i) (zip (?ns[i := n]) (?vs[i := v]))"
    using len i tw by (simp add: ph_list_def p' takeWhile_snd_zip)
  also have "\<dots> = take i (zip ?ns ?vs) @ [(n, v)]"
    using len i by (simp add: take_Suc_conv_app_nth take_zip)
  also have "take i (zip ?ns ?vs) = ph_list p" using len i(1) by (simp add: ph_list_def takeWhile_snd_zip)
  finally show "ph_list p' = ph_list p @ [(n, v)]" .
  have dw: "dropWhile (\<lambda>v. v \<noteq> 0) (?vs[i := v]) = drop (Suc i) (?vs[i := v])"
    using tw i len by (simp add: dropWhile_eq_drop)
  have "zero_tail (?vs[i := v])"
    unfolding zero_tail_def
  proof
    fix u assume "u \<in> set (dropWhile (\<lambda>v. v \<noteq> 0) (?vs[i := v]))"
    then obtain j where "j < length (drop (Suc i) (?vs[i := v]))" "drop (Suc i) (?vs[i := v]) ! j = u"
      unfolding dw in_set_conv_nth by blast
    then have "Suc i + j < 15" "?vs ! (Suc i + j) = u" using len by simp_all
    then show "u = 0" using high [of "Suc i + j"] by linarith
  qed
  then have "zero_tail (ph_vno p')" by (simp add: p')
  moreover have "\<forall>x\<in>set (ph_no p') \<union> set (ph_vno p') \<union> {ph_this p', ph_next p'}. zint_range x"
    using wf v(2,3) set_update_subset_insert [of ?ns i n] set_update_subset_insert [of ?vs i v]
    by (auto simp: ph_wf_def p')
  ultimately show "ph_wf p'" using len by (auto simp: ph_wf_def p')
qed

section \<open>The invariant\<close>

fun linked :: "(int \<Rightarrow> ph_bucket) \<Rightarrow> int \<Rightarrow> int list \<Rightarrow> bool" where
  "linked c v [] \<longleftrightarrow> v = 0"
| "linked c v (b # bs) \<longleftrightarrow> v = b \<and> b \<noteq> 0 \<and> linked c (ph_next (c b)) bs"

lemma linked_cong: "(\<And>b. b \<in> set bs \<Longrightarrow> ph_next (c b) = ph_next (c' b)) \<Longrightarrow> linked c v bs = linked c' v bs"
  by (induction bs arbitrary: v) auto

definition all_ents :: "cfile \<Rightarrow> (int \<times> int) list" where
  "all_ents cf = concat (map (\<lambda>b. ph_list (cur cf b)) [ch_first_bucket (cf_head cf)..ch_next_bucket (cf_head cf) - 1])"

definition cf_map :: "cfile \<Rightarrow> int \<Rightarrow> int option" where
  "cf_map cf = map_of (all_ents cf)"

definition ents_ok :: "cfile \<Rightarrow> bool" where
  "ents_ok cf \<longleftrightarrow> distinct (map fst (all_ents cf)) \<and> distinct (map snd (all_ents cf)) \<and>
     (\<forall>(n, v)\<in>set (all_ents cf). 0 \<le> n \<and> 0 < v \<and> v < ch_next_block (cf_head cf)) \<and>
     0 < ch_next_block (cf_head cf) \<and>
     ch_next_bucket (cf_head cf) - ch_first_bucket (cf_head cf) < ch_next_block (cf_head cf)"

definition hsize :: "cfile \<Rightarrow> nat" where
  "hsize cf = nat (ch_hash_size (cf_head cf))"

definition table :: "cfile \<Rightarrow> int list" where
  "table cf = (case cf_array cf of None \<Rightarrow> [] | Some a \<Rightarrow> a)"

definition chains_ok :: "(nat \<Rightarrow> int list) \<Rightarrow> cfile \<Rightarrow> bool" where
  "chains_ok ch cf \<longleftrightarrow> 0 < ch_hash_size (cf_head cf) \<and> ch_hash_size (cf_head cf) < 2 ^ 31 \<and> cf_array cf \<noteq> None \<and>
     length (table cf) = hsize cf \<and>
     (\<forall>h<hsize cf. linked (cur cf) (table cf ! h) (ch h) \<and> distinct (ch h) \<and> (\<forall>b\<in>set (ch h). in_range cf b)) \<and>
     (\<forall>h<hsize cf. \<forall>h'<hsize cf. h \<noteq> h' \<longrightarrow> set (ch h) \<inter> set (ch h') = {}) \<and>
     (\<forall>b. in_range cf b \<longrightarrow> (\<exists>h<hsize cf. b \<in> set (ch h))) \<and>
     (\<forall>g\<in>set (cf_buckets cf). 0 \<le> hb_hno g \<and> hb_hno g < int (hsize cf) \<and> bno g \<in> set (ch (nat (hb_hno g)))) \<and>
     (\<forall>h<hsize cf. \<forall>b\<in>set (ch h). \<forall>e\<in>set (ph_list (cur cf b)). cf_hash cf (fst e) = int h)"

definition hash_ok :: "bool \<Rightarrow> bool \<Rightarrow> (nat \<Rightarrow> int list) \<Rightarrow> cfile \<Rightarrow> bool" where
  "hash_ok w r ch cf \<longleftrightarrow> cache_ok w r cf \<and> ch_state (cf_head cf) = CFILE_STATE_HASH \<and> chains_ok ch cf \<and> ents_ok cf \<and>
     ch_flat_bucket (cf_head cf) \<le> ch_next_bucket (cf_head cf)"

lemma set_all_ents: "e \<in> set (all_ents cf) \<longleftrightarrow> (\<exists>b. in_range cf b \<and> e \<in> set (ph_list (cur cf b)))"
  by (auto simp: all_ents_def in_range_def)

lemma all_ents_cong:
  assumes "cf_head cf' = cf_head cf" "\<And>b. in_range cf b \<Longrightarrow> cur cf' b = cur cf b"
  shows "all_ents cf' = all_ents cf"
proof -
  have "map (\<lambda>b. ph_list (cur cf' b)) [ch_first_bucket (cf_head cf)..ch_next_bucket (cf_head cf) - 1] =
      map (\<lambda>b. ph_list (cur cf b)) [ch_first_bucket (cf_head cf)..ch_next_bucket (cf_head cf) - 1]"
    using assms(2) by (intro map_cong) (auto simp: in_range_def)
  then show ?thesis by (simp only: all_ents_def assms(1))
qed

lemma cf_map_find:
  assumes "ents_ok cf"
  shows "cf_map cf n = Some v \<longleftrightarrow> (\<exists>b. in_range cf b \<and> ph_find (cur cf b) n = Some v)"
proof -
  have d: "distinct (map fst (all_ents cf))" using assms by (simp add: ents_ok_def)
  have "cf_map cf n = Some v \<longleftrightarrow> (n, v) \<in> set (all_ents cf)" using d by (simp add: cf_map_def map_of_eq_Some_iff)
  also have "\<dots> \<longleftrightarrow> (\<exists>b. in_range cf b \<and> (n, v) \<in> set (ph_list (cur cf b)))" by (rule set_all_ents)
  also have "\<dots> \<longleftrightarrow> (\<exists>b. in_range cf b \<and> ph_find (cur cf b) n = Some v)"
  proof -
    have "distinct (map fst (ph_list (cur cf b)))" if "in_range cf b" for b
    proof -
      have "ph_list (cur cf b) \<in> set (map (\<lambda>b. ph_list (cur cf b)) [ch_first_bucket (cf_head cf)..ch_next_bucket (cf_head cf) - 1])"
        using that by (auto simp: in_range_def)
      then obtain xs ys where "all_ents cf = xs @ ph_list (cur cf b) @ ys"
        unfolding all_ents_def by (metis concat.simps(2) concat_append split_list append.assoc)
      then show ?thesis using d by simp
    qed
    then show ?thesis by (metis map_of_eq_Some_iff ph_find_map)
  qed
  finally show ?thesis .
qed

lemma hash_okD:
  assumes "hash_ok w r ch cf"
  shows "ch_hash_size (cf_head cf) = int (hsize cf)" "0 < hsize cf" "hsize cf < 2 ^ 31" "cf_array cf = Some (table cf)"
    "length (table cf) = hsize cf" "cache_ok w r cf" "ents_ok cf"
  using assms by (auto simp: hash_ok_def chains_ok_def hsize_def table_def split: option.splits)

lemma chainsD:
  assumes "hash_ok w r ch cf" "h < hsize cf"
  shows "linked (cur cf) (table cf ! h) (ch h)" "distinct (ch h)" "b \<in> set (ch h) \<Longrightarrow> in_range cf b"
    "h' < hsize cf \<Longrightarrow> b \<in> set (ch h) \<Longrightarrow> b \<in> set (ch h') \<Longrightarrow> h' = h"
    "b \<in> set (ch h) \<Longrightarrow> e \<in> set (ph_list (cur cf b)) \<Longrightarrow> cf_hash cf (fst e) = int h"
  using assms unfolding hash_ok_def chains_ok_def by blast+

lemma chain_of_bucket: "hash_ok w r ch cf \<Longrightarrow> in_range cf b \<Longrightarrow> \<exists>h<hsize cf. b \<in> set (ch h)"
  unfolding hash_ok_def chains_ok_def by blast

lemma memory_bucket:
  "hash_ok w r ch cf \<Longrightarrow> g \<in> set (cf_buckets cf) \<Longrightarrow> 0 \<le> hb_hno g \<and> hb_hno g < int (hsize cf) \<and> bno g \<in> set (ch (nat (hb_hno g)))"
  unfolding hash_ok_def chains_ok_def by blast

lemma cf_hash_value:
  assumes ok: "hash_ok w r ch cf" and n: "0 \<le> n"
  shows "0 \<le> cf_hash cf n" "cf_hash cf n < int (hsize cf)"
proof -
  note N = hash_okD(1-3) [OF ok]
  have "(n div 8) smod int (hsize cf) = (n div 8) mod int (hsize cf)" using N n by (simp add: smod_int_alt_def sgn_if)
  moreover have "0 \<le> (n div 8) mod int (hsize cf)" "(n div 8) mod int (hsize cf) < int (hsize cf)" using N by simp_all
  moreover have "c_cast x = x" if "0 \<le> x" "x < int (hsize cf)" for x
    using that N(3) unfolding c_cast_def by (intro sint_word_of_int_self) auto
  ultimately show "0 \<le> cf_hash cf n" "cf_hash cf n < int (hsize cf)" using N(1) by (simp_all add: cf_hash_def)
qed

text \<open>A state with the same header, table and buckets keeps the invariant, whatever is cached.\<close>

definition view_step :: "cfile \<Rightarrow> cfile \<Rightarrow> bool" where
  "view_step cf cf' \<longleftrightarrow> cf_head cf' = cf_head cf \<and> cf_array cf' = cf_array cf \<and> cf_iobuf cf' = cf_iobuf cf \<and>
     cf_locked cf' = cf_locked cf \<and> bsize cf' = bsize cf \<and> blockc cf' = blockc cf \<and> rmfc cf' = rmfc cf \<and>
     (\<forall>b. in_range cf b \<longrightarrow> cur cf' b = cur cf b)"

lemma view_step_refl [simp]: "view_step cf cf"
  by (simp add: view_step_def)

lemma view_step_trans: "view_step a b \<Longrightarrow> view_step b c \<Longrightarrow> view_step a c"
  by (simp add: view_step_def in_range_def)

lemma cache_step_view: "cache_step w r cf cf' \<Longrightarrow> view_step cf cf'"
  by (auto simp: cache_step_def view_step_def same_logic_def)

lemma hash_ok_step:
  assumes ok: "hash_ok w r ch cf" and c: "cache_ok w r cf'" and v: "view_step cf cf'"
    and M: "\<And>g. g \<in> set (cf_buckets cf') \<Longrightarrow> g \<in> set (cf_buckets cf) \<or>
      0 \<le> hb_hno g \<and> hb_hno g < int (hsize cf) \<and> bno g \<in> set (ch (nat (hb_hno g)))"
  shows "hash_ok w r ch cf'"
proof -
  have hd: "cf_head cf' = cf_head cf" "cf_array cf' = cf_array cf" and cur: "\<And>b. in_range cf b \<Longrightarrow> cur cf' b = cur cf b"
    using v by (auto simp: view_step_def)
  have same: "in_range cf' b = in_range cf b" "hsize cf' = hsize cf" "table cf' = table cf" "cf_hash cf' x = cf_hash cf x" for b x
    using hd by (simp_all add: in_range_def hsize_def table_def cf_hash_def)
  have "all_ents cf' = all_ents cf" using hd(1) cur by (rule all_ents_cong)
  then have e: "ents_ok cf'" using ok hd by (simp add: hash_ok_def ents_ok_def)
  have c1: "linked (cur cf') (table cf ! h) (ch h)" if "h < hsize cf" for h
    using chainsD(1,3) [OF ok that] cur by (subst linked_cong [of _ _ "cur cf"]) auto
  have c2: "cf_hash cf (fst e) = int h" if "h < hsize cf" "b \<in> set (ch h)" "e \<in> set (ph_list (cur cf' b))" for h b e
    using chainsD(3,5) [OF ok that(1)] that cur by metis
  have c3: "0 \<le> hb_hno g \<and> hb_hno g < int (hsize cf) \<and> bno g \<in> set (ch (nat (hb_hno g)))" if "g \<in> set (cf_buckets cf')" for g
    using M [OF that] memory_bucket [OF ok] by blast
  have "chains_ok ch cf"  using ok by (simp add: hash_ok_def)
  then have "chains_ok ch cf'" unfolding chains_ok_def same hd using c1 c2 c3 by blast
  then show ?thesis using ok c e hd by (simp add: hash_ok_def)
qed

section \<open>Looking up\<close>

lemma find_bucket_Some:
  "find_bucket cf hno b = Some k \<Longrightarrow> k < length (cf_buckets cf) \<and> hb_hno (cf_buckets cf ! k) = hno \<and> bno (cf_buckets cf ! k) = b"
  by (auto simp: find_bucket_def chain_def bno_def find_Some_iff dest!: nth_mem)

lemma find_bucket_None: "find_bucket cf hno b = None \<Longrightarrow> g \<in> set (cf_buckets cf) \<Longrightarrow> hb_hno g = hno \<Longrightarrow> bno g \<noteq> b"
  by (auto simp: find_bucket_def chain_def bno_def find_None_iff in_set_conv_nth)

lemma hash_ok_cache: "hash_ok w r ch cf \<Longrightarrow> cache_ok w r cf"
  by (simp add: hash_ok_def)

text \<open>A bucket of chain \<open>h\<close> that is in memory is on that chain in memory.\<close>

lemma not_found_not_in_memory:
  assumes ok: "hash_ok w r ch cf" and h: "h < hsize cf" and b: "b \<in> set (ch h)" and none: "find_bucket cf (int h) b = None"
  shows "bmem (cf_buckets cf) b = None"
proof (rule ccontr)
  assume "bmem (cf_buckets cf) b \<noteq> None"
  then obtain g where g: "g \<in> set (cf_buckets cf)" "bno g = b" by (auto dest: bmem_Some)
  note m = memory_bucket [OF ok g(1)]
  then have "nat (hb_hno g) = h" using chainsD(4) [OF ok h, of "nat (hb_hno g)" b] b g(2) by auto
  then show False using find_bucket_None [OF none g(1)] g(2) m by auto
qed

lemma bump_view: "view_step cf (bump_miss cf)" "view_step cf (bump_hits cf)"
  "cache_ok w r (bump_miss cf) = cache_ok w r cf" "cache_ok w r (bump_hits cf) = cache_ok w r cf"
  "cf_buckets (bump_miss cf) = cf_buckets cf" "cf_buckets (bump_hits cf) = cf_buckets cf"
proof -
  have io: "io_same cf (bump_miss cf)" "io_same cf (bump_hits cf)" by (simp_all add: io_same_def bump_miss_def bump_hits_def)
  note s = io_same_simps [OF io(1)] io_same_simps [OF io(2)]
  have c: "cur (bump_miss cf) b = cur cf b" "cur (bump_hits cf) b = cur cf b" for b
    by (simp_all add: cur_def s cong: option.case_cong) (simp_all add: bump_miss_def bump_hits_def)
  show "view_step cf (bump_miss cf)" "view_step cf (bump_hits cf)"
    by (simp_all add: view_step_def s c) (simp_all add: bump_miss_def bump_hits_def)
  show "cache_ok w r (bump_miss cf) = cache_ok w r cf" "cache_ok w r (bump_hits cf) = cache_ok w r cf"
    unfolding cache_ok_def s by (simp_all add: bump_miss_def bump_hits_def in_range_def)
  show "cf_buckets (bump_miss cf) = cf_buckets cf" "cf_buckets (bump_hits cf) = cf_buckets cf"
    by (simp_all add: bump_miss_def bump_hits_def)
qed

lemma hash_ok_bump: "hash_ok w r ch cf \<Longrightarrow> hash_ok w r ch (bump_miss cf)" "hash_ok w r ch cf \<Longrightarrow> hash_ok w r ch (bump_hits cf)"
  by (rule hash_ok_step, assumption, simp_all add: bump_view hash_ok_cache)+

text \<open>Loading a bucket of a chain.\<close>

lemma get_bucket_chain:
  assumes ok: "hash_ok w r ch cf" and h: "h < hsize cf" and b: "b \<in> set (ch h)"
    and no: "bmem (cf_buckets cf) b = None"
  shows "\<exists>cf' k. get_bucket (bump_miss cf) b (int h) = Some (Some k, cf') \<and> hash_ok w r ch cf' \<and> view_step cf cf' \<and>
    k < length (cf_buckets cf') \<and> cf_buckets cf' ! k = \<lparr>hb_ph = cur cf b, hb_dirty = False, hb_hno = int h\<rparr> \<and>
    (\<forall>g\<in>set (cf_buckets cf'). g \<in> set (cf_buckets cf) \<or> g = cf_buckets cf' ! k)"
proof -
  have ok1: "cache_ok w r (bump_miss cf)" using ok by (simp add: bump_view hash_ok_cache)
  have rng: "in_range cf b" using chainsD(3) [OF ok h b] .
  then have rng1: "in_range (bump_miss cf) b" by (simp add: in_range_def bump_miss_def)
  have no1: "bmem (cf_buckets (bump_miss cf)) b = None" using no by (simp add: bump_view)
  have cb: "cur (bump_miss cf) b = cur cf b" using bump_view(1) rng by (simp add: view_step_def)
  obtain cf' M where g: "get_bucket (bump_miss cf) b (int h) = Some (Some (length M), cf')" "cache_step w r (bump_miss cf) cf'"
    "M = cf_buckets cf \<or> M = tl (cf_buckets cf)" "cf_buckets cf' = M @ [\<lparr>hb_ph = cur cf b, hb_dirty = False, hb_hno = int h\<rparr>]"
    using get_bucket_spec [OF ok1 rng1 no1, of "int h"] cb bump_view(5) by metis
  have v: "view_step cf cf'" using cache_step_view [OF g(2)] bump_view(1) view_step_trans by blast
  have M: "set M \<subseteq> set (cf_buckets cf)" using g(3) by (cases "cf_buckets cf") auto
  have "ph_this (cur cf b) = b" using cur_wf [OF hash_ok_cache [OF ok] rng] by simp
  then have "hash_ok w r ch cf'"
    using g(2,4) M b h by (intro hash_ok_step [OF ok _ v]) (auto simp: cache_step_def bno_def)
  then show ?thesis using g M v by (intro exI [of _ cf'] exI [of _ "length M"]) auto
qed

lemma lookup_walk_spec:
  assumes "hash_ok w r ch cf" "h < hsize cf" "linked (cur cf) v bs" "set bs \<subseteq> set (ch h)"
    and "\<forall>g\<in>set (cf_buckets cf). hb_hno g = int h \<longrightarrow> ph_find (hb_ph g) no = None"
  shows "\<exists>cf' res v'. lookup_walk cf no (int h) v = Some (res, v', cf') \<and> hash_ok w r ch cf' \<and> view_step cf cf' \<and>
    (res = 1 \<and> (\<exists>b\<in>set bs. ph_find (cur cf b) no = Some v') \<or> res = 0 \<and> (\<forall>b\<in>set bs. ph_find (cur cf b) no = None))"
  using assms
proof (induction bs arbitrary: cf v)
  case Nil
  then show ?case by (subst lookup_walk.simps) simp
next
  case (Cons b bs)
  have b: "v = b" "b \<noteq> 0" "linked (cur cf) (ph_next (cur cf b)) bs" "b \<in> set (ch h)" "set bs \<subseteq> set (ch h)"
    using Cons.prems by auto
  have rng: "in_range cf c" if "c \<in> set (b # bs)" for c
    using chainsD(3) [OF Cons.prems(1,2), of c] Cons.prems(4) that by auto
  show ?case
  proof (cases "find_bucket cf (int h) b")
    case (Some k)
    note k = find_bucket_Some [OF Some]
    have cb: "cur cf b = hb_ph (cf_buckets cf ! k)" using cur_mem [OF hash_ok_cache [OF Cons.prems(1)], of k] k by simp
    have "ph_find (cur cf b) no = None" using Cons.prems(5) k cb by auto
    moreover have "lookup_walk cf no (int h) v = lookup_walk cf no (int h) (ph_next (cur cf b))"
      using b Some cb by (subst lookup_walk.simps) simp
    ultimately show ?thesis using Cons.IH [OF Cons.prems(1,2) b(3,5) Cons.prems(5)] by auto
  next
    case None
    note no = not_found_not_in_memory [OF Cons.prems(1,2) b(4) None]
    obtain cf1 k where g: "get_bucket (bump_miss cf) b (int h) = Some (Some k, cf1)" "hash_ok w r ch cf1" "view_step cf cf1"
      "cf_buckets cf1 ! k = \<lparr>hb_ph = cur cf b, hb_dirty = False, hb_hno = int h\<rparr>"
      "\<forall>g\<in>set (cf_buckets cf1). g \<in> set (cf_buckets cf) \<or> g = cf_buckets cf1 ! k"
      using get_bucket_chain [OF Cons.prems(1,2) b(4) no] by blast
    show ?thesis
    proof (cases "ph_find (cur cf b) no")
      case (Some v')
      then have "lookup_walk cf no (int h) v = Some (1, v', cf1)" using b None g by (subst lookup_walk.simps) simp
      then show ?thesis using g Some by auto
    next
      case nf: None
      have step: "lookup_walk cf no (int h) v = lookup_walk cf1 no (int h) (ph_next (cur cf b))"
        using b None g nf by (subst lookup_walk.simps) simp
      have cur1: "cur cf1 c = cur cf c" if "c \<in> set bs" for c using g(3) rng that by (simp add: view_step_def)
      have l1: "linked (cur cf1) (ph_next (cur cf b)) bs" using b(3) cur1 linked_cong [of bs "cur cf1" "cur cf"] by simp
      have m1: "\<forall>g\<in>set (cf_buckets cf1). hb_hno g = int h \<longrightarrow> ph_find (hb_ph g) no = None" using g(4,5) nf Cons.prems(5) by auto
      have h1: "h < hsize cf1" using g(3) Cons.prems(2) by (simp add: view_step_def hsize_def)
      obtain cf' res v' where i: "lookup_walk cf1 no (int h) (ph_next (cur cf b)) = Some (res, v', cf')" "hash_ok w r ch cf'" "view_step cf1 cf'"
        "res = 1 \<and> (\<exists>b\<in>set bs. ph_find (cur cf1 b) no = Some v') \<or> res = 0 \<and> (\<forall>b\<in>set bs. ph_find (cur cf1 b) no = None)"
        using Cons.IH [OF g(2) h1 l1 b(5) m1] by blast
      have "view_step cf cf'" using g(3) i(3) by (rule view_step_trans)
      then show ?thesis using step i nf cur1 by (intro exI [of _ cf'] exI [of _ res] exI [of _ v']) auto
    qed
  qed
qed

text \<open>Looking a block up finds its shadow block, or that it has none, and only moves buckets in and out of memory.\<close>

lemma cf_lookup_hash_spec:
  assumes ok: "hash_ok w r ch cf" and n: "0 \<le> no"
  shows "\<exists>cf' v. cf_lookup_hash cf no = Some (if cf_map cf no = None then 0 else 1, v, cf') \<and>
    (cf_map cf no \<noteq> None \<longrightarrow> cf_map cf no = Some v) \<and> hash_ok w r ch cf' \<and> view_step cf cf'"
proof -
  define h where "h = nat (cf_hash cf no)"
  have h: "cf_hash cf no = int h" "h < hsize cf" using cf_hash_value [OF ok n] by (auto simp: h_def)
  have e: "ents_ok cf" using ok by (rule hash_okD)
  have only: "b \<in> set (ch h)" if b: "in_range cf b" "ph_find (cur cf b) no = Some v" for b v
  proof -
    obtain h' where h': "h' < hsize cf" "b \<in> set (ch h')" using chain_of_bucket [OF ok b(1)] by blast
    have "(no, v) \<in> set (ph_list (cur cf b))" using b(2) by (simp add: ph_find_map map_of_SomeD)
    then have "cf_hash cf no = int h'" using chainsD(5) [OF ok h'(1) h'(2)] by force
    then show ?thesis using h h' by simp
  qed
  have map_h: "cf_map cf no = Some v \<longleftrightarrow> (\<exists>b\<in>set (ch h). ph_find (cur cf b) no = Some v)" for v
    using cf_map_find [OF e] only chainsD(3) [OF ok h(2)] by blast
  have valid: "valid_hno cf (int h)" using hash_okD(4,5) [OF ok] h by (simp add: valid_hno_def)
  show ?thesis
  proof (cases "List.find (\<lambda>k. ph_find (hb_ph (cf_buckets cf ! k)) no \<noteq> None) (chain cf (int h))")
    case (Some k)
    then obtain v where k: "k \<in> set (chain cf (int h))" "ph_find (hb_ph (cf_buckets cf ! k)) no = Some v"
      by (auto simp: find_Some_iff dest!: nth_mem)
    then have kl: "k < length (cf_buckets cf)" by (simp add: chain_def)
    have "in_range cf (bno (cf_buckets cf ! k))" using hash_ok_cache [OF ok] kl by (auto simp: cache_ok_def)
    then have "cf_map cf no = Some v"
      using cf_map_find [OF e] k(2) cur_mem [OF hash_ok_cache [OF ok] kl] by metis
    moreover have "cf_lookup_hash cf no = Some (1, v, bump_hits cf)" using Some valid h k(2) by (simp add: cf_lookup_hash_def Let_def)
    ultimately show ?thesis using hash_ok_bump(2) [OF ok] bump_view(2) by auto
  next
    case None
    have m: "\<forall>g\<in>set (cf_buckets cf). hb_hno g = int h \<longrightarrow> ph_find (hb_ph g) no = None"
      using None by (auto simp: find_None_iff chain_def in_set_conv_nth)
    obtain cf' res v' where w: "lookup_walk cf no (int h) (table cf ! h) = Some (res, v', cf')" "hash_ok w r ch cf'" "view_step cf cf'"
      "res = 1 \<and> (\<exists>b\<in>set (ch h). ph_find (cur cf b) no = Some v') \<or> res = 0 \<and> (\<forall>b\<in>set (ch h). ph_find (cur cf b) no = None)"
      using lookup_walk_spec [OF ok h(2) chainsD(1) [OF ok h(2)] subset_refl m] by blast
    have "cf_lookup_hash cf no = Some (res, v', cf')"
      using None valid h hash_okD(4) [OF ok] w(1) by (simp add: cf_lookup_hash_def Let_def get_ref_def)
    moreover have "res = 1 \<and> cf_map cf no = Some v' \<or> res = 0 \<and> cf_map cf no = None"
      using w(4) map_h by (metis option.distinct(1) option.exhaust)
    ultimately show ?thesis using w(2,3) by (intro exI [of _ cf'] exI [of _ v']) auto
  qed
qed

end
