(* ===== verification/Cfile_New.thy ===== *)
theory Cfile_New
  imports Cfile_Hash "HOL-Library.Multiset"
begin

text \<open>
  Adding a block to the hash table of a commit file: the new entry goes into a bucket of its chain that has room,
  or into a new bucket at the end of the chain. Either way the invariant holds again and the map has one more pair.
\<close>

section \<open>Entries of an updated bucket\<close>

definition bucket_numbers :: "cfile \<Rightarrow> int list" where
  "bucket_numbers cf = [ch_first_bucket (cf_head cf)..ch_next_bucket (cf_head cf) - 1]"

lemma bucket_numbers_simps: "set (bucket_numbers cf) = {b. in_range cf b}" "distinct (bucket_numbers cf)"
  by (auto simp: bucket_numbers_def in_range_def)

lemma concat_snoc_one:
  assumes "distinct bs" "b \<in> set bs" "f' b = f b @ [e]" "\<And>c. c \<in> set bs \<Longrightarrow> c \<noteq> b \<Longrightarrow> f' c = f c"
  shows "mset (concat (map f' bs)) = add_mset e (mset (concat (map f bs)))"
proof -
  obtain xs ys where bs: "bs = xs @ b # ys" "b \<notin> set xs" "b \<notin> set ys" using assms(1,2) by (metis distinct.simps(2) distinct_append not_distinct_conv_prefix split_list disjoint_iff list.set_intros(1))
  then have "map f' xs = map f xs" "map f' ys = map f ys" using assms(4) by auto
  then show ?thesis using bs assms(3) by (simp del: map_eq_conv)
qed

text \<open>The facts about the entries depend on the entries as a multiset.\<close>

lemma ents_ok_insert:
  assumes e: "ents_ok cf" and m: "mset (all_ents cf') = add_mset (no, v) (mset (all_ents cf))"
    and fresh: "no \<notin> fst ` set (all_ents cf)" "v \<notin> snd ` set (all_ents cf)" and v: "0 \<le> no" "0 < v" "v < ch_next_block (cf_head cf)"
    and hd: "ch_next_block (cf_head cf') = ch_next_block (cf_head cf)"
      "ch_next_bucket (cf_head cf') - ch_first_bucket (cf_head cf') < ch_next_block (cf_head cf')"
  shows "ents_ok cf' \<and> cf_map cf' = (cf_map cf)(no \<mapsto> v)"
proof -
  let ?A = "(no, v) # all_ents cf"
  have eq: "mset (all_ents cf') = mset ?A" using m by simp
  then have s: "set (all_ents cf') = set ?A" by (metis mset_eq_setD)
  have "mset (map f (all_ents cf')) = mset (map f ?A)" for f :: "int \<times> int \<Rightarrow> int" using eq by (simp only: mset_map)
  then have d: "distinct (map f (all_ents cf')) = distinct (map f ?A)" for f :: "int \<times> int \<Rightarrow> int" by (metis mset_eq_imp_distinct_iff)
  have dA: "distinct (map fst ?A)" "distinct (map snd ?A)" using e fresh by (auto simp: ents_ok_def)
  have "ents_ok cf'" using e v hd d dA unfolding ents_ok_def s by auto
  moreover have "map_of (all_ents cf') = map_of ?A"
    using d [of fst] dA(1) s by (intro map_of_inject_set [THEN iffD2]) auto
  ultimately show ?thesis by (simp add: cf_map_def fun_upd_def)
qed

section \<open>Changing a bucket in memory\<close>

lemma map_bno_update: "k < length M \<Longrightarrow> bno g = bno (M ! k) \<Longrightarrow> map bno (M[k := g]) = map bno M"
  by (simp add: map_update list_update_same_conv)

lemma bmem_update:
  assumes "distinct (map bno M)" "k < length M" "bno g = bno (M ! k)"
  shows "bmem (M[k := g]) b = (if b = bno g then Some g else bmem M b)"
proof (cases "b = bno g")
  case True
  then show ?thesis using bmem_eq [of "M[k := g]" g] assms by (simp add: map_bno_update set_update_memI del: map_update)
next
  case False
  then have "bmem (M[k := g]) b = bmem M b" using assms(2,3)
  proof (induction M arbitrary: k)
    case (Cons a M)
    then show ?case by (cases k) (auto simp: bmem_def)
  qed simp
  with False show ?thesis by simp
qed

lemma dirty_bucket:
  assumes ok: "cache_ok True r cf" and k: "k < length (cf_buckets cf)"
    and g: "bno g = bno (cf_buckets cf ! k)" "ph_wf (hb_ph g)" "hb_dirty g"
  shows "cache_ok True r (set_bucket cf k g)"
    "cur (set_bucket cf k g) b = (if b = bno g then hb_ph g else cur cf b)"
    "io_same cf (set_bucket cf k g)"
proof -
  let ?cf = "set_bucket cf k g" and ?M = "cf_buckets cf"
  show io: "io_same cf ?cf" by (simp add: io_same_def set_bucket_def)
  note s = io_same_simps [OF io]
  have d: "distinct (map bno ?M)" using ok by (rule cache_okD)
  note m = bmem_update [OF d k g(1)]
  have b: "cf_buckets ?cf = ?M[k := g]" "cf_head ?cf = cf_head cf" "cf_max_bucket_in_memory ?cf = cf_max_bucket_in_memory cf"
    by (simp_all add: set_bucket_def)
  show "cur ?cf b = (if b = bno g then hb_ph g else cur cf b)" by (simp add: cur_def b m s cong: option.case_cong)
  have rng: "in_range ?cf = in_range cf" by (simp add: fun_eq_iff in_range_def b)
  have old: "\<forall>h\<in>set ?M. in_range cf (bno h) \<and> ph_wf (hb_ph h) \<and>
      (\<not> hb_dirty h \<longrightarrow> on_disk (hashc cf) (bno h) \<and> disk (hashc cf) (bno h) = hb_ph h)" using ok by (simp add: cache_ok_def)
  have "in_range cf (bno g)" using old k g(1) by simp
  then have new: "\<forall>h\<in>set (?M[k := g]). in_range cf (bno h) \<and> ph_wf (hb_ph h) \<and>
      (\<not> hb_dirty h \<longrightarrow> on_disk (hashc cf) (bno h) \<and> disk (hashc cf) (bno h) = hb_ph h)"
    using old g set_update_subset_insert [of ?M k g] by blast
  have "bmem ?M b = None" if "bmem (?M[k := g]) b = None" for b using that m by (simp split: if_splits)
  then show "cache_ok True r ?cf"
    using ok new d k g(1) unfolding cache_ok_def s rng b by (auto simp: map_bno_update simp del: map_update)
qed

lemma put_entry_bucket:
  "put_entry cf k i no vno = set_bucket cf k ((cf_buckets cf ! k)\<lparr>hb_ph := (hb_ph (cf_buckets cf ! k))
     \<lparr>ph_no := (ph_no (hb_ph (cf_buckets cf ! k)))[i := no], ph_vno := (ph_vno (hb_ph (cf_buckets cf ! k)))[i := vno]\<rparr>, hb_dirty := True\<rparr>)"
  by (simp add: put_entry_def Let_def)

text \<open>What adding a block leaves alone.\<close>

definition new_step :: "cfile \<Rightarrow> cfile \<Rightarrow> bool" where
  "new_step cf cf' \<longleftrightarrow> cf_iobuf cf' = cf_iobuf cf \<and> cf_locked cf' = cf_locked cf \<and> bsize cf' = bsize cf \<and> blockc cf' = blockc cf \<and>
     rmfc cf' = rmfc cf \<and> ch_next_block (cf_head cf') = ch_next_block (cf_head cf) \<and> ch_state (cf_head cf') = ch_state (cf_head cf)"

lemma new_step_trans: "new_step a b \<Longrightarrow> new_step b c \<Longrightarrow> new_step a c"
  by (simp add: new_step_def)

lemma view_step_new: "view_step cf cf' \<Longrightarrow> new_step cf cf'"
  by (simp add: new_step_def view_step_def)

lemma io_same_new:
  "io_same cf cf' \<Longrightarrow> cf_head cf' = cf_head cf \<Longrightarrow> cf_iobuf cf' = cf_iobuf cf \<Longrightarrow> cf_locked cf' = cf_locked cf \<Longrightarrow> new_step cf cf'"
  using io_same_simps by (simp add: new_step_def)

section \<open>A bucket with room\<close>

definition fresh_pair :: "cfile \<Rightarrow> int \<Rightarrow> int \<Rightarrow> bool" where
  "fresh_pair cf no v \<longleftrightarrow> no \<notin> fst ` set (all_ents cf) \<and> v \<notin> snd ` set (all_ents cf) \<and> 0 \<le> no \<and> 0 < v \<and>
     v < ch_next_block (cf_head cf) \<and> zint_range no \<and> zint_range v"

lemma fresh_pair_step: "view_step cf cf' \<Longrightarrow> fresh_pair cf no v \<Longrightarrow> fresh_pair cf' no v"
  using all_ents_cong [of cf' cf] by (simp add: fresh_pair_def view_step_def)

lemma cf_map_step: "view_step cf cf' \<Longrightarrow> cf_map cf' = cf_map cf"
  using all_ents_cong [of cf' cf] by (simp add: cf_map_def view_step_def)

lemma hash_ok_put:
  assumes ok: "hash_ok True r ch cf" and k: "k < length (cf_buckets cf)" "hb_hno (cf_buckets cf ! k) = cf_hash cf no"
    and free: "free_entry (ph_vno (hb_ph (cf_buckets cf ! k))) = Some i" and f: "fresh_pair cf no v"
  shows "hash_ok True r ch (put_entry cf k i no v) \<and> cf_map (put_entry cf k i no v) = (cf_map cf)(no \<mapsto> v) \<and>
    new_step cf (put_entry cf k i no v)"
proof -
  let ?g = "cf_buckets cf ! k" and ?cf = "put_entry cf k i no v"
  define p' where "p' = (hb_ph ?g)\<lparr>ph_no := (ph_no (hb_ph ?g))[i := no], ph_vno := (ph_vno (hb_ph ?g))[i := v]\<rparr>"
  let ?g' = "?g\<lparr>hb_ph := p', hb_dirty := True\<rparr>"
  have cf': "?cf = set_bucket cf k ?g'" by (simp add: put_entry_bucket p'_def)
  note c = hash_ok_cache [OF ok]
  have g: "?g \<in> set (cf_buckets cf)" using k by simp
  have wf: "ph_wf (hb_ph ?g)" "in_range cf (bno ?g)" using c g by (auto simp: cache_ok_def)
  note p = ph_list_put [OF wf(1) free _ _ _ p'_def]
  have pl: "ph_list p' = ph_list (hb_ph ?g) @ [(no, v)]" "ph_wf p'" using p f by (simp_all add: fresh_pair_def)
  have b: "bno ?g' = bno ?g" "ph_next p' = ph_next (hb_ph ?g)" by (simp_all add: bno_def p'_def)
  have cu: "cache_ok True r ?cf" "\<And>b. cur ?cf b = (if b = bno ?g then p' else cur cf b)" "io_same cf ?cf"
    using dirty_bucket [OF c k(1), of ?g'] b pl(2) unfolding cf' by simp_all
  have cg: "cur cf (bno ?g) = hb_ph ?g" using cur_mem [OF c k(1)] .
  have hd: "cf_head ?cf = cf_head cf" "cf_array ?cf = cf_array cf" "cf_iobuf ?cf = cf_iobuf cf" "cf_locked ?cf = cf_locked cf"
    "cf_buckets ?cf = (cf_buckets cf)[k := ?g']" by (simp_all add: cf' set_bucket_def)
  have same: "in_range ?cf = in_range cf" "hsize ?cf = hsize cf" "table ?cf = table cf" "cf_hash ?cf = cf_hash cf"
    using hd by (simp_all add: in_range_def hsize_def table_def cf_hash_def fun_eq_iff)
  have "mset (all_ents ?cf) = add_mset (no, v) (mset (all_ents cf))"
    unfolding all_ents_def hd bucket_numbers_def [symmetric]
    using bucket_numbers_simps [of cf] wf(2) cu(2) cg pl(1) by (intro concat_snoc_one [where b = "bno ?g"]) auto
  then have e: "ents_ok ?cf" "cf_map ?cf = (cf_map cf)(no \<mapsto> v)"
    using ents_ok_insert [of cf ?cf no v] hash_okD(7) [OF ok] f hd(1) by (auto simp: fresh_pair_def ents_ok_def)
  have nx: "ph_next (cur ?cf b) = ph_next (cur cf b)" for b using cu(2) cg b(2) by simp
  then have c1: "linked (cur ?cf) x bs = linked (cur cf) x bs" for x bs by (intro linked_cong) simp
  note mb = memory_bucket [OF ok]
  have c2: "cf_hash cf (fst e) = int h" if "h < hsize cf" "b \<in> set (ch h)" "e \<in> set (ph_list (cur ?cf b))" for h b e
  proof (cases "e \<in> set (ph_list (cur cf b))")
    case False
    then have "b = bno ?g" "e = (no, v)" using that(3) cu(2) pl(1) cg by (auto split: if_splits)
    then show ?thesis using mb [OF g] k(2) chainsD(4) [OF ok that(1), of "nat (hb_hno ?g)" b] that(2) by auto
  qed (use that chainsD(5) [OF ok] in blast)
  have c3: "0 \<le> hb_hno x \<and> hb_hno x < int (hsize cf) \<and> bno x \<in> set (ch (nat (hb_hno x)))" if x: "x \<in> set (cf_buckets ?cf)" for x
  proof -
    have "x \<in> set (cf_buckets cf) \<or> x = ?g'" using x set_update_subset_insert [of "cf_buckets cf" k ?g'] hd(5) by auto
    then show ?thesis using mb mb [OF g] b(1) by auto
  qed
  have "chains_ok ch cf" using ok by (simp add: hash_ok_def)
  then have "chains_ok ch ?cf" unfolding chains_ok_def same hd(1,2) c1 using c2 c3 by blast
  then have "hash_ok True r ch ?cf" using ok cu(1) e hd by (simp add: hash_ok_def)
  then show ?thesis using e io_same_new [OF cu(3)] hd by simp
qed

section \<open>A new bucket\<close>

text \<open>Allocation does not look at the header, so the new bucket number may be counted before or after it.\<close>

lemma hash_write_head:
  "hash_write (cf\<lparr>cf_head := H\<rparr>) no off n buf = map_option (\<lambda>(r, c). (r, c\<lparr>cf_head := H\<rparr>)) (hash_write cf no off n buf)"
  by (cases "mf_write (cf_fs cf) (cf_dirs cf) (cf_hash_mf cf) no off n buf") (auto simp: hash_write_def)

lemma release_bucket_head: "release_bucket (cf\<lparr>cf_head := H\<rparr>) k = (release_bucket cf k)\<lparr>cf_head := H\<rparr>"
  by (simp add: release_bucket_def)

lemma flush_loop_head:
  "flush_loop ps (cf\<lparr>cf_head := H\<rparr>) ret = map_option (\<lambda>(r, c). (r, c\<lparr>cf_head := H\<rparr>)) (flush_loop ps cf ret)"
proof (induction ps arbitrary: cf ret)
  case (Cons p ps)
  have d: "(c\<lparr>cf_head := H\<rparr>)\<lparr>cf_dirty := x\<rparr> = (c\<lparr>cf_dirty := x\<rparr>)\<lparr>cf_head := H\<rparr>" for c :: cfile and x by simp
  show ?case
    by (cases "hash_write cf (ph_this (hb_ph p)) 0 0 (ph_bytes (hb_ph p))")
      (auto simp: hash_write_head Cons.IH release_bucket_head d simp del: cfile.update_convs)
qed simp

lemma alloc_bucket_head:
  "alloc_bucket (cf\<lparr>cf_head := H\<rparr>) hno = map_option (\<lambda>(ok, c). (ok, c\<lparr>cf_head := H\<rparr>)) (alloc_bucket cf hno)"
proof -
  have "flush_bucket (cf\<lparr>cf_head := H\<rparr>) n = map_option (\<lambda>(r, c). (r, c\<lparr>cf_head := H\<rparr>)) (flush_bucket cf n)" for n
    by (cases n) (simp_all add: flush_bucket_def flush_loop_head)
  then show ?thesis by (cases "flush_bucket cf (Some 1)") (auto simp: alloc_bucket_def split: if_splits)
qed

lemma blank_ph_simps [simp]: "zint_range nb \<Longrightarrow> ph_wf (blank_ph nb)" "ph_list (blank_ph nb) = []" "ph_this (blank_ph nb) = nb"
  "ph_next (blank_ph nb) = 0" "free_entry (ph_vno (blank_ph nb)) = Some 0"
  by (auto simp: blank_ph_def ph_wf_def ph_list_def HASH_BUCKET_def numeral_eq_Suc zero_tail_def zint_range_def)

lemma cache_push_new:
  assumes ok: "cache_ok True r cf" and nb: "nb = ch_next_bucket (cf_head cf)" "zint_range nb"
    and len: "length (cf_buckets cf) < cf_max_bucket_in_memory cf" and g: "hb_ph g = blank_ph nb" "hb_dirty g"
    and cf': "cf' = cf\<lparr>cf_head := (cf_head cf)\<lparr>ch_next_bucket := nb + 1\<rparr>, cf_buckets := cf_buckets cf @ [g]\<rparr>"
  shows "cache_ok True r cf'" "io_same cf cf'" "in_range cf' b \<longleftrightarrow> in_range cf b \<or> b = nb"
    "cur cf' b = (if b = nb then blank_ph nb else cur cf b)"
proof -
  show io: "io_same cf cf'" by (simp add: io_same_def cf')
  note s = io_same_simps [OF io]
  have le: "0 < ch_first_bucket (cf_head cf)" "ch_first_bucket (cf_head cf) \<le> nb" using cache_okD [OF ok] nb by auto
  have rng: "in_range cf' b \<longleftrightarrow> in_range cf b \<or> b = nb" for b using le nb by (auto simp: in_range_def cf')
  then show "in_range cf' b \<longleftrightarrow> in_range cf b \<or> b = nb" .
  have bg: "bno g = nb" using g by (simp add: bno_def)
  have mem: "\<forall>h\<in>set (cf_buckets cf). in_range cf (bno h)" using ok by (auto simp: cache_ok_def)
  then have notin: "nb \<notin> bno ` set (cf_buckets cf)" using nb by (auto simp: in_range_def)
  then have m: "bmem (cf_buckets cf') c = (if c = nb then Some g else bmem (cf_buckets cf) c)" for c
    using bg bmem_None [of "cf_buckets cf" nb] by (auto simp: cf' bmem_append split: option.splits)
  show "cur cf' b = (if b = nb then blank_ph nb else cur cf b)" using g m by (simp add: cur_def s cong: option.case_cong)
  have "distinct (map bno (cf_buckets cf'))" using cache_okD(3) [OF ok] notin bg by (simp add: cf')
  moreover have "on_disk (hashc cf) b \<and> ph_wf (disk (hashc cf) b) \<and> ph_this (disk (hashc cf) b) = b"
    if "in_range cf b \<or> b = nb" "bmem (cf_buckets cf') b = None" for b
    using that m [of b] ok by (auto simp: cache_ok_def split: if_splits)
  moreover have "int (length (hashc cf)) \<le> (nb + 1) * 256" using ok nb by (simp add: cache_ok_def)
  moreover have "(in_range cf (bno h) \<or> bno h = nb) \<and> ph_wf (hb_ph h) \<and>
      (\<not> hb_dirty h \<longrightarrow> on_disk (hashc cf) (bno h) \<and> disk (hashc cf) (bno h) = hb_ph h)" if "h \<in> set (cf_buckets cf')" for h
    using that ok g bg nb(2) by (auto simp: cf' cache_ok_def)
  ultimately show "cache_ok True r cf'"
    using cache_okD [OF ok] le len unfolding cache_ok_def s rng by (simp add: cf')
qed

lemma linked_snoc:
  assumes "linked c v bs" "distinct (bs @ [nb])" "nb \<noteq> 0" "ph_next (c' nb) = 0" "v' = (if bs = [] then nb else v)"
    and "\<And>b. b \<in> set bs \<Longrightarrow> ph_next (c' b) = (if b = last bs then nb else ph_next (c b))"
  shows "linked c' v' (bs @ [nb])"
  using assms
proof (induction bs arbitrary: v v')
  case (Cons a bs)
  have "linked c' (if bs = [] then nb else ph_next (c a)) (bs @ [nb])"
    using Cons.prems by (intro Cons.IH) auto
  moreover have "ph_next (c' a) = (if bs = [] then nb else ph_next (c a))"
    using Cons.prems(2) Cons.prems(6) [of a] by (auto split: if_splits)
  ultimately show ?case using Cons.prems by auto
qed simp

text \<open>Where the walk along chain \<open>h\<close> stands: at the table, or at a bucket in memory.\<close>

definition at_ref :: "cfile \<Rightarrow> nat \<Rightarrow> int list \<Rightarrow> nat option \<Rightarrow> bool" where
  "at_ref cf h pre ref \<longleftrightarrow> (case ref of
     None \<Rightarrow> pre = []
   | Some k \<Rightarrow> pre \<noteq> [] \<and> k < length (cf_buckets cf) \<and> bno (cf_buckets cf ! k) = last pre \<and> hb_hno (cf_buckets cf ! k) = int h)"

definition mark_dirty :: "cfile \<Rightarrow> nat option \<Rightarrow> cfile" where
  "mark_dirty cf ref = (case ref of None \<Rightarrow> cf | Some k \<Rightarrow> set_bucket cf k ((cf_buckets cf ! k)\<lparr>hb_dirty := True\<rparr>))"

lemma set_ref_spec:
  assumes ok: "hash_ok True r ch cf" and h: "h < hsize cf" and ref: "at_ref cf h (ch h) ref" and nb: "zint_range nb"
    and cf1: "cf1 = set_ref (mark_dirty cf ref) (int h) ref nb"
  shows "cache_ok True r cf1" "io_same cf cf1" "cf_head cf1 = cf_head cf" "cf_iobuf cf1 = cf_iobuf cf" "cf_locked cf1 = cf_locked cf"
    "cf_array cf1 = Some (if ch h = [] then (table cf)[h := nb] else table cf)"
    "cur cf1 b = (if ch h \<noteq> [] \<and> b = last (ch h) then (cur cf b)\<lparr>ph_next := nb\<rparr> else cur cf b)"
    "g \<in> set (cf_buckets cf1) \<Longrightarrow> \<exists>g0\<in>set (cf_buckets cf). bno g0 = bno g \<and> hb_hno g0 = hb_hno g"
proof -
  note c = hash_ok_cache [OF ok] and t = hash_okD(4) [OF ok]
  have "cache_ok True r cf1 \<and> io_same cf cf1 \<and> cf_head cf1 = cf_head cf \<and> cf_iobuf cf1 = cf_iobuf cf \<and> cf_locked cf1 = cf_locked cf \<and>
    cf_array cf1 = Some (if ch h = [] then (table cf)[h := nb] else table cf) \<and>
    (\<forall>b. cur cf1 b = (if ch h \<noteq> [] \<and> b = last (ch h) then (cur cf b)\<lparr>ph_next := nb\<rparr> else cur cf b)) \<and>
    (\<forall>g\<in>set (cf_buckets cf1). \<exists>g0\<in>set (cf_buckets cf). bno g0 = bno g \<and> hb_hno g0 = hb_hno g)"
  proof (cases ref)
    case None
    then have e: "ch h = []" "cf1 = cf\<lparr>cf_array := Some ((table cf)[h := nb])\<rparr>"
      using ref t by (simp_all add: at_ref_def cf1 mark_dirty_def set_ref_def)
    have io: "io_same cf cf1" by (simp add: io_same_def e)
    note s = io_same_simps [OF io]
    have "cache_ok True r cf1" using c unfolding cache_ok_def s by (simp add: e in_range_def)
    then show ?thesis using e io s by (auto simp: cur_def cong: option.case_cong)
  next
    case (Some k)
    let ?g = "cf_buckets cf ! k"
    let ?g' = "?g\<lparr>hb_dirty := True, hb_ph := (hb_ph ?g)\<lparr>ph_next := nb\<rparr>\<rparr>"
    have k: "ch h \<noteq> []" "k < length (cf_buckets cf)" "bno ?g = last (ch h)" using ref Some by (auto simp: at_ref_def)
    have e: "cf1 = set_bucket cf k ?g'"
      using Some k(2) by (simp add: cf1 mark_dirty_def set_ref_def set_bucket_def Let_def)
    have "ph_wf (hb_ph ?g)" using c k(2) by (auto simp: cache_ok_def)
    then have wf: "ph_wf ((hb_ph ?g)\<lparr>ph_next := nb\<rparr>)" using nb by (simp add: ph_wf_def)
    have b: "bno ?g' = bno ?g" by (simp add: bno_def)
    note d = dirty_bucket [OF c k(2), of ?g']
    have "cf_head cf1 = cf_head cf" "cf_iobuf cf1 = cf_iobuf cf" "cf_locked cf1 = cf_locked cf" "cf_array cf1 = cf_array cf"
      by (simp_all add: e set_bucket_def)
    moreover have "\<exists>g0\<in>set (cf_buckets cf). bno g0 = bno x \<and> hb_hno g0 = hb_hno x" if "x \<in> set (cf_buckets cf1)" for x
    proof -
      have "x \<in> set (cf_buckets cf) \<or> x = ?g'" using that set_update_subset_insert [of "cf_buckets cf" k ?g'] by (auto simp: e set_bucket_def)
      then show ?thesis
      proof
        assume "x = ?g'"
        then show ?thesis using k(2) b by (intro bexI [of _ ?g]) simp_all
      qed blast
    qed
    moreover have "cur cf1 b = (if b = last (ch h) then (cur cf b)\<lparr>ph_next := nb\<rparr> else cur cf b)" for b
      using d(2) [OF b] wf k(3) cur_mem [OF c k(2)] by (simp add: e b)
    ultimately show ?thesis using d(1,3) wf k(1) b t by (simp add: e)
  qed
  then show "cache_ok True r cf1" "io_same cf cf1" "cf_head cf1 = cf_head cf" "cf_iobuf cf1 = cf_iobuf cf" "cf_locked cf1 = cf_locked cf"
    "cf_array cf1 = Some (if ch h = [] then (table cf)[h := nb] else table cf)"
    "cur cf1 b = (if ch h \<noteq> [] \<and> b = last (ch h) then (cur cf b)\<lparr>ph_next := nb\<rparr> else cur cf b)"
    "g \<in> set (cf_buckets cf1) \<Longrightarrow> \<exists>g0\<in>set (cf_buckets cf). bno g0 = bno g \<and> hb_hno g0 = hb_hno g" by blast+
qed

lemma new_bucket_alloc:
  assumes ok: "cache_ok True r cf1" and nb: "nb = ch_next_bucket (cf_head cf)" "zint_range nb"
    and cf1: "cf1 = set_ref cf hno ref nb" "cf_head cf1 = cf_head cf"
  shows "\<exists>cf2 cf'. new_bucket cf ref hno = Some (Some (length (cf_buckets cf2)), cf') \<and> cache_step True r cf1 cf2 \<and>
    set (cf_buckets cf2) \<subseteq> set (cf_buckets cf1) \<and> length (cf_buckets cf2) < cf_max_bucket_in_memory cf2 \<and>
    cf' = cf2\<lparr>cf_head := (cf_head cf2)\<lparr>ch_next_bucket := nb + 1\<rparr>, cf_buckets := cf_buckets cf2 @ [\<lparr>hb_ph = blank_ph nb, hb_dirty = True, hb_hno = hno\<rparr>]\<rparr>"
proof -
  let ?H = "(cf_head cf)\<lparr>ch_next_bucket := nb + 1\<rparr>"
  obtain cf2 where a: "alloc_bucket cf1 hno = Some (True, cf2\<lparr>cf_buckets := cf_buckets cf2 @ [\<lparr>hb_ph = blank_ph 0, hb_dirty = False, hb_hno = hno\<rparr>]\<rparr>)"
    "cache_step True r cf1 cf2" "length (cf_buckets cf2) < cf_max_bucket_in_memory cf1"
    "cf_buckets cf2 = cf_buckets cf1 \<or> cf_buckets cf2 = tl (cf_buckets cf1)" using alloc_bucket_spec [OF ok] by blast
  have hd: "cf_head cf2 = cf_head cf" "cf_max_bucket_in_memory cf2 = cf_max_bucket_in_memory cf1"
    using a(2) cf1(2) by (auto simp: cache_step_def same_logic_def)
  have "set_ref (cf\<lparr>cf_head := ?H\<rparr>) hno ref nb = cf1\<lparr>cf_head := ?H\<rparr>"
    by (simp add: cf1(1) set_ref_def set_bucket_def Let_def split: option.splits)
  then have "new_bucket cf ref hno = Some (Some (length (cf_buckets cf2)),
      cf2\<lparr>cf_head := ?H, cf_buckets := cf_buckets cf2 @ [\<lparr>hb_ph = blank_ph nb, hb_dirty = True, hb_hno = hno\<rparr>]\<rparr>)"
    using a(1) nb(1) by (simp add: new_bucket_def alloc_bucket_head set_bucket_def Let_def)
  moreover have "set (cf_buckets cf2) \<subseteq> set (cf_buckets cf1)" using a(4) by (cases "cf_buckets cf1") auto
  ultimately show ?thesis using a(2,3) hd by auto
qed

text \<open>The chains after a new bucket \<open>nb\<close> has been linked to the end of chain \<open>h\<close>.\<close>

lemma chains_ok_snoc:
  assumes ok: "hash_ok True r ch cf" and h: "h < hsize cf" and nb: "nb = ch_next_bucket (cf_head cf)" "nb \<noteq> 0"
    and rng: "\<And>b. in_range cf' b \<longleftrightarrow> in_range cf b \<or> b = nb" and hd: "ch_hash_size (cf_head cf') = ch_hash_size (cf_head cf)"
    and tab: "cf_array cf' = Some (if ch h = [] then (table cf)[h := nb] else table cf)"
    and cu: "\<And>b. in_range cf b \<Longrightarrow> cur cf' b = (if ch h \<noteq> [] \<and> b = last (ch h) then (cur cf b)\<lparr>ph_next := nb\<rparr> else cur cf b)"
    and cnb: "cur cf' nb = blank_ph nb"
    and M: "\<And>g. g \<in> set (cf_buckets cf') \<Longrightarrow> 0 \<le> hb_hno g \<and> hb_hno g < int (hsize cf) \<and> bno g \<in> set ((ch(h := ch h @ [nb])) (nat (hb_hno g)))"
  shows "chains_ok (ch(h := ch h @ [nb])) cf'"
proof -
  have same: "hsize cf' = hsize cf" "cf_hash cf' = cf_hash cf" "ch_hash_size (cf_head cf') = ch_hash_size (cf_head cf)"
    "cf_array cf' = Some (table cf')" "table cf' = (if ch h = [] then (table cf)[h := nb] else table cf)"
    using hd tab by (simp_all add: hsize_def cf_hash_def table_def fun_eq_iff)
  have nbr: "\<not> in_range cf nb" using nb(1) by (simp add: in_range_def)
  have pl: "ph_list (cur cf' b) = ph_list (cur cf b)" if "in_range cf b" for b using cu [OF that] by (simp add: ph_list_def)
  note D = hash_okD [OF ok] and C = chainsD [OF ok]
  have nbn: "nb \<notin> set (ch x)" if "x < hsize cf" for x using C(3) [OF that] nbr by blast
  have lk: "linked (cur cf') (table cf' ! x) ((ch(h := ch h @ [nb])) x)" if x: "x < hsize cf" for x
  proof (cases "x = h")
    case True
    have "ph_next (cur cf' b) = (if b = last (ch h) then nb else ph_next (cur cf b))" if "b \<in> set (ch h)" for b
      using cu [OF C(3) [OF h that]] that by auto
    then have "linked (cur cf') (table cf' ! h) (ch h @ [nb])"
      using C(2) [OF h] nbn [OF h] nb(2) cnb D(5) h same(5) by (intro linked_snoc [OF C(1) [OF h]]) auto
    then show ?thesis using True by simp
  next
    case False
    have "ch h \<noteq> [] \<longrightarrow> last (ch h) \<notin> set (ch x)" using C(4) [OF x h] last_in_set False by blast
    then have "linked (cur cf') (table cf ! x) (ch x)"
      using C(1) [OF x] cu C(3) [OF x] by (subst linked_cong [of _ _ "cur cf"]) auto
    then show ?thesis using False same(5) by simp
  qed
  have ent: "cf_hash cf (fst e) = int x" if "x < hsize cf" "b \<in> set ((ch(h := ch h @ [nb])) x)" "e \<in> set (ph_list (cur cf' b))" for x b e
    using that C(3,5) [of x b] pl [of b] cnb by (cases "b = nb") (auto split: if_splits)
  show ?thesis
    unfolding chains_ok_def same(1-3) rng
  proof (intro conjI allI impI ballI)
    show "length (table cf') = hsize cf" using D(5) same(5) by simp
    show "cf_array cf' \<noteq> None" using same(4) by simp
    show "distinct ((ch(h := ch h @ [nb])) x)" if "x < hsize cf" for x using C(2) [OF that] nbn [OF that] by auto
    show "in_range cf b \<or> b = nb" if "x < hsize cf" "b \<in> set ((ch(h := ch h @ [nb])) x)" for x b
      using that C(3) by (auto split: if_splits)
    show "set ((ch(h := ch h @ [nb])) x) \<inter> set ((ch(h := ch h @ [nb])) y) = {}" if "x < hsize cf" "y < hsize cf" "x \<noteq> y" for x y
      using that C(4) [of x y] nbn by (auto split: if_splits)
    show "\<exists>x<hsize cf. b \<in> set ((ch(h := ch h @ [nb])) x)" if "in_range cf b \<or> b = nb" for b
      using that chain_of_bucket [OF ok, of b] h by (metis fun_upd_apply in_set_conv_decomp list.set_intros(1) UnI1 set_append)
  qed (use D M ent lk in \<open>simp_all del: fun_upd_apply\<close>)
qed

text \<open>A new bucket at the end of its chain: no entry is added, and the invariant holds for the longer chain.\<close>

lemma hash_ok_new_bucket:
  assumes ok: "hash_ok True r ch cf" and h: "h < hsize cf" and ref: "at_ref cf h (ch h) ref"
    and nb: "nb = ch_next_bucket (cf_head cf)" "zint_range nb"
      "nb - ch_first_bucket (cf_head cf) + 1 < ch_next_block (cf_head cf)"
  shows "\<exists>k cf'. new_bucket (mark_dirty cf ref) ref (int h) = Some (Some k, cf') \<and> hash_ok True r (ch(h := ch h @ [nb])) cf' \<and>
    k < length (cf_buckets cf') \<and> cf_buckets cf' ! k = \<lparr>hb_ph = blank_ph nb, hb_dirty = True, hb_hno = int h\<rparr> \<and>
    new_step cf cf' \<and> set (all_ents cf') = set (all_ents cf) \<and> cf_map cf' = cf_map cf \<and> cf_hash cf' = cf_hash cf"
proof -
  define cf1 where "cf1 = set_ref (mark_dirty cf ref) (int h) ref nb"
  note S = set_ref_spec [OF ok h ref nb(2) cf1_def]
  have md: "cf_head (mark_dirty cf ref) = cf_head cf" by (simp add: mark_dirty_def set_bucket_def split: option.splits)
  obtain cf2 cf' where a: "new_bucket (mark_dirty cf ref) ref (int h) = Some (Some (length (cf_buckets cf2)), cf')" "cache_step True r cf1 cf2"
    "set (cf_buckets cf2) \<subseteq> set (cf_buckets cf1)" "length (cf_buckets cf2) < cf_max_bucket_in_memory cf2"
    and cf': "cf' = cf2\<lparr>cf_head := (cf_head cf2)\<lparr>ch_next_bucket := nb + 1\<rparr>,
      cf_buckets := cf_buckets cf2 @ [\<lparr>hb_ph = blank_ph nb, hb_dirty = True, hb_hno = int h\<rparr>]\<rparr>"
    using new_bucket_alloc [OF S(1) _ nb(2) cf1_def] S(3) nb(1) md by auto
  have c2: "cache_ok True r cf2" "cf_head cf2 = cf_head cf" "cf_array cf2 = cf_array cf1" "cf_iobuf cf2 = cf_iobuf cf"
      "cf_locked cf2 = cf_locked cf" "\<And>b. in_range cf b \<Longrightarrow> cur cf2 b = cur cf1 b" "bsize cf2 = bsize cf" "blockc cf2 = blockc cf" "rmfc cf2 = rmfc cf"
    using a(2) S(3-5) io_same_simps [OF S(2)] by (auto simp: cache_step_def same_logic_def in_range_def)
  have nb2: "nb = ch_next_bucket (cf_head cf2)" using nb(1) c2(2) by simp
  note P = cache_push_new [OF c2(1) nb2 nb(2) a(4) _ _ cf', simplified]
  note s = io_same_simps [OF P(2)]
  have rng: "in_range cf' b \<longleftrightarrow> in_range cf b \<or> b = nb" for b using P(3) c2(2) by (simp add: in_range_def)
  have le: "0 < ch_first_bucket (cf_head cf)" "ch_first_bucket (cf_head cf) \<le> nb" using cache_okD [OF hash_ok_cache [OF ok]] nb(1) by auto
  have nbr: "\<not> in_range cf nb" using nb(1) by (simp add: in_range_def)
  have cu: "cur cf' b = (if ch h \<noteq> [] \<and> b = last (ch h) then (cur cf b)\<lparr>ph_next := nb\<rparr> else cur cf b)" if "in_range cf b" for b
    using that nbr P(4) [of b] c2(6) [OF that] S(7) [of b] by auto
  have cnb: "cur cf' nb = blank_ph nb" using P(4) by simp
  have pl: "ph_list (cur cf' b) = ph_list (cur cf b)" if "in_range cf b" for b using cu [OF that] by (simp add: ph_list_def)
  have ae: "all_ents cf' = all_ents cf"
  proof -
    have "[ch_first_bucket (cf_head cf)..nb] = [ch_first_bucket (cf_head cf)..nb - 1] @ [nb]" using le by (simp add: upto_rec2)
    moreover have "map (\<lambda>b. ph_list (cur cf' b)) [ch_first_bucket (cf_head cf)..nb - 1] = map (\<lambda>b. ph_list (cur cf b)) [ch_first_bucket (cf_head cf)..nb - 1]"
      using pl nb(1) by (intro map_cong) (auto simp: in_range_def)
    ultimately show ?thesis using cnb nb(1) c2(2) unfolding all_ents_def by (simp add: cf' del: map_eq_conv)
  qed
  have tab: "cf_array cf' = Some (if ch h = [] then (table cf)[h := nb] else table cf)" using c2(3) S(6) by (simp add: cf')
  have M: "0 \<le> hb_hno g \<and> hb_hno g < int (hsize cf) \<and> bno g \<in> set ((ch(h := ch h @ [nb])) (nat (hb_hno g)))" if g: "g \<in> set (cf_buckets cf')" for g
  proof (cases "g \<in> set (cf_buckets cf2)")
    case True
    then obtain g0 where "g0 \<in> set (cf_buckets cf)" "bno g0 = bno g" "hb_hno g0 = hb_hno g" using a(3) S(8) by blast
    then show ?thesis using memory_bucket [OF ok] by fastforce
  next
    case False
    then have "g = \<lparr>hb_ph = blank_ph nb, hb_dirty = True, hb_hno = int h\<rparr>" using g by (simp add: cf')
    then show ?thesis using h by (simp add: bno_def)
  qed
  have "chains_ok (ch(h := ch h @ [nb])) cf'"
    using le c2(2) tab M cu by (intro chains_ok_snoc [OF ok h nb(1) _ rng _ _ _ cnb]) (simp_all add: cf')
  moreover have "ents_ok cf'" using hash_okD(7) [OF ok] ae nb c2(2) by (simp add: ents_ok_def cf')
  ultimately have "hash_ok True r (ch(h := ch h @ [nb])) cf'" using P(1) ok c2(2) nb(1) by (simp add: hash_ok_def cf')
  moreover have "new_step cf cf'" using s c2 by (simp add: new_step_def cf')
  ultimately show ?thesis using a(1) ae c2(2) by (intro exI [of _ "length (cf_buckets cf2)"] exI [of _ cf']) (simp add: cf' cf_map_def cf_hash_def fun_eq_iff)
qed

section \<open>The walk along a chain\<close>

lemma get_ref_linked:
  assumes ok: "hash_ok True r ch cf" and h: "h < hsize cf" and pre: "ch h = pre @ bs" and ref: "at_ref cf h pre ref"
  shows "linked (cur cf) (get_ref cf (int h) ref) bs"
proof -
  have split: "linked c v (xs @ ys) \<Longrightarrow> linked c (if xs = [] then v else ph_next (c (last xs))) ys" for c v xs ys
    by (induction xs arbitrary: v) auto
  have "linked (cur cf) (table cf ! h) (pre @ bs)" using chainsD(1) [OF ok h] pre by simp
  note l = split [OF this]
  show ?thesis
  proof (cases ref)
    case None
    then show ?thesis using l ref hash_okD(4) [OF ok] by (simp add: at_ref_def get_ref_def)
  next
    case (Some k)
    then have k: "pre \<noteq> []" "k < length (cf_buckets cf)" "bno (cf_buckets cf ! k) = last pre" using ref by (auto simp: at_ref_def)
    then show ?thesis using l Some cur_mem [OF hash_ok_cache [OF ok] k(2)] by (simp add: get_ref_def)
  qed
qed

definition room_for_bucket :: "cfile \<Rightarrow> bool" where
  "room_for_bucket cf \<longleftrightarrow> ch_next_bucket (cf_head cf) < 2 ^ 62 \<and>
     ch_next_bucket (cf_head cf) - ch_first_bucket (cf_head cf) + 1 < ch_next_block (cf_head cf)"

lemma new_walk_end:
  assumes ok: "hash_ok True r ch cf" and h: "h < hsize cf" "cf_hash cf no = int h" and ref: "at_ref cf h (ch h) ref"
    and f: "fresh_pair cf no v" and room: "room_for_bucket cf"
  shows "\<exists>ch' cf'. new_walk cf no v (int h) ref = Some (v, cf') \<and> hash_ok True r ch' cf' \<and> cf_map cf' = (cf_map cf)(no \<mapsto> v) \<and> new_step cf cf'"
proof -
  have z: "get_ref cf (int h) ref = 0" using get_ref_linked [OF ok h(1) _ ref, of "[]"] by simp
  let ?nb = "ch_next_bucket (cf_head cf)"
  have nb: "zint_range ?nb" "?nb - ch_first_bucket (cf_head cf) + 1 < ch_next_block (cf_head cf)"
    using room cache_okD(2,4) [OF hash_ok_cache [OF ok]] by (auto simp: room_for_bucket_def zint_range_def)
  obtain k cf1 where n: "new_bucket (mark_dirty cf ref) ref (int h) = Some (Some k, cf1)" "hash_ok True r (ch(h := ch h @ [?nb])) cf1"
    "k < length (cf_buckets cf1)" "cf_buckets cf1 ! k = \<lparr>hb_ph = blank_ph ?nb, hb_dirty = True, hb_hno = int h\<rparr>" "new_step cf cf1"
    "set (all_ents cf1) = set (all_ents cf)" "cf_map cf1 = cf_map cf" "cf_hash cf1 = cf_hash cf"
    using hash_ok_new_bucket [OF ok h(1) ref refl nb] by blast
  have f1: "fresh_pair cf1 no v" using f n(5,6) by (simp add: fresh_pair_def new_step_def)
  have "hash_ok True r (ch(h := ch h @ [?nb])) (put_entry cf1 k 0 no v) \<and> cf_map (put_entry cf1 k 0 no v) = (cf_map cf1)(no \<mapsto> v) \<and>
      new_step cf1 (put_entry cf1 k 0 no v)"
    using n h(2) by (intro hash_ok_put [OF n(2,3) _ _ f1]) simp_all
  moreover have "new_walk cf no v (int h) ref = Some (v, put_entry cf1 k 0 no v)"
    using z n(1) by (subst new_walk.simps) (simp add: mark_dirty_def [symmetric])
  ultimately show ?thesis using n(5,7) new_step_trans by metis
qed

lemma new_walk_spec:
  assumes "hash_ok True r ch cf" "h < hsize cf" "cf_hash cf no = int h" "ch h = pre @ bs" "at_ref cf h pre ref"
    and "fresh_pair cf no v" "room_for_bucket cf"
  shows "\<exists>ch' cf'. new_walk cf no v (int h) ref = Some (v, cf') \<and> hash_ok True r ch' cf' \<and> cf_map cf' = (cf_map cf)(no \<mapsto> v) \<and> new_step cf cf'"
  using assms
proof (induction bs arbitrary: cf pre ref)
  case Nil
  then show ?case by (intro new_walk_end [of r ch]) simp_all
next
  case (Cons b bs)
  note ok = Cons.prems(1) and h = Cons.prems(2)
  have l: "linked (cur cf) (get_ref cf (int h) ref) (b # bs)" using get_ref_linked [OF ok h Cons.prems(4,5)] .
  then have b: "get_ref cf (int h) ref = b" "b \<noteq> 0" "b \<in> set (ch h)" using Cons.prems(4) by auto
  have pre: "ch h = (pre @ [b]) @ bs" using Cons.prems(4) by simp
  show ?case
  proof (cases "find_bucket cf (int h) b")
    case (Some k)
    then have "at_ref cf h (pre @ [b]) (Some k)" using find_bucket_Some [OF Some] by (simp add: at_ref_def)
    moreover have "new_walk cf no v (int h) ref = new_walk cf no v (int h) (Some k)"
      using b Some by (subst new_walk.simps) simp
    ultimately show ?thesis using Cons.IH [OF ok h Cons.prems(3) pre _ Cons.prems(6,7)] by simp
  next
    case None
    note no = not_found_not_in_memory [OF ok h b(3) None]
    obtain cf1 k where g: "get_bucket (bump_miss cf) b (int h) = Some (Some k, cf1)" "hash_ok True r ch cf1" "view_step cf cf1"
      "k < length (cf_buckets cf1)" "cf_buckets cf1 ! k = \<lparr>hb_ph = cur cf b, hb_dirty = False, hb_hno = int h\<rparr>"
      using get_bucket_chain [OF ok h b(3) no] by blast
    have hd: "cf_head cf1 = cf_head cf" using g(3) by (simp add: view_step_def)
    have s1: "h < hsize cf1" "cf_hash cf1 no = int h" "fresh_pair cf1 no v" "room_for_bucket cf1" "cf_map cf1 = cf_map cf" "new_step cf cf1"
      using h Cons.prems(3,6,7) g(3) hd fresh_pair_step cf_map_step view_step_new by (auto simp: hsize_def cf_hash_def room_for_bucket_def)
    show ?thesis
    proof (cases "free_entry (ph_vno (cur cf b))")
      case (Some i)
      have "new_walk cf no v (int h) ref = Some (v, put_entry cf1 k i no v)"
        using b None g Some by (subst new_walk.simps) simp
      moreover have "hash_ok True r ch (put_entry cf1 k i no v) \<and> cf_map (put_entry cf1 k i no v) = (cf_map cf1)(no \<mapsto> v) \<and>
          new_step cf1 (put_entry cf1 k i no v)" using g s1 Some by (intro hash_ok_put [OF g(2,4)]) simp_all
      ultimately show ?thesis using s1(5,6) new_step_trans by metis
    next
      case full: None
      have step: "new_walk cf no v (int h) ref = new_walk cf1 no v (int h) (Some k)"
        using b None g full by (subst new_walk.simps) simp
      have "ph_this (cur cf b) = b" using cur_wf [OF hash_ok_cache [OF ok] chainsD(3) [OF ok h b(3)]] by simp
      then have "at_ref cf1 h (pre @ [b]) (Some k)" using g(4,5) by (simp add: at_ref_def bno_def)
      then show ?thesis using Cons.IH [OF g(2) s1(1,2) pre _ s1(3,4)] step s1(5,6) new_step_trans by metis
    qed
  qed
qed

section \<open>Adding a block\<close>

lemma take_block_step:
  assumes "hash_ok w r ch cf"
  shows "hash_ok w r ch (take_block cf)" "all_ents (take_block cf) = all_ents cf"
proof -
  let ?cf = "take_block cf"
  have io: "io_same cf ?cf" by (simp add: io_same_def take_block_def)
  note s = io_same_simps [OF io]
  have c: "cur ?cf = cur cf" by (simp add: fun_eq_iff cur_def s cong: option.case_cong) (simp add: take_block_def)
  have same: "in_range ?cf = in_range cf" "hsize ?cf = hsize cf" "table ?cf = table cf" "cf_hash ?cf = cf_hash cf" "cf_array ?cf = cf_array cf"
    "cf_buckets ?cf = cf_buckets cf" "ch_hash_size (cf_head ?cf) = ch_hash_size (cf_head cf)"
    by (simp_all add: take_block_def in_range_def hsize_def table_def cf_hash_def fun_eq_iff)
  show e: "all_ents ?cf = all_ents cf" unfolding all_ents_def c by (simp add: take_block_def)
  have "ents_ok ?cf" using hash_okD(7) [OF assms] unfolding ents_ok_def e by (auto simp: take_block_def)
  moreover have "cache_ok w r ?cf" using hash_ok_cache [OF assms] unfolding cache_ok_def s same by (simp add: take_block_def)
  moreover have "chains_ok ch ?cf" using assms unfolding hash_ok_def chains_ok_def c same by blast
  ultimately show "hash_ok w r ch ?cf" using assms by (simp add: hash_ok_def take_block_def)
qed

text \<open>What adding a block to the table may not exceed: everything stays within 64 bit.\<close>

definition room_ok :: "cfile \<Rightarrow> int \<Rightarrow> bool" where
  "room_ok cf no \<longleftrightarrow> 0 \<le> no \<and> no < 2 ^ 58 \<and> ch_next_block (cf_head cf) < 2 ^ 58 \<and> ch_next_bucket (cf_head cf) < 2 ^ 58"

lemma cf_new_hash_spec:
  assumes ok: "hash_ok True r ch cf" and no: "cf_map cf no = None" and room: "room_ok cf no"
  shows "\<exists>ch' cf'. cf_new_hash cf no = Some (ch_next_block (cf_head cf), cf') \<and> hash_ok True r ch' cf' \<and>
    cf_map cf' = (cf_map cf)(no \<mapsto> ch_next_block (cf_head cf)) \<and> new_step (take_block cf) cf'"
proof -
  let ?cf = "take_block cf" and ?v = "ch_next_block (cf_head cf)"
  note T = take_block_step [OF ok]
  define h where "h = nat (cf_hash cf no)"
  have h: "cf_hash cf no = int h" "h < hsize cf" using cf_hash_value [OF ok, of no] room by (auto simp: h_def room_ok_def)
  have same: "hsize ?cf = hsize cf" "cf_hash ?cf no = cf_hash cf no" "cf_map ?cf = cf_map cf" "cf_buckets ?cf = cf_buckets cf"
    using T(2) by (simp_all add: take_block_def hsize_def cf_hash_def cf_map_def)
  have e: "ents_ok cf" using ok by (rule hash_okD)
  have "no \<notin> fst ` set (all_ents cf)" using no by (simp add: cf_map_def map_of_eq_None_iff)
  moreover have "?v \<notin> snd ` set (all_ents cf)" "0 < ?v" using e by (auto simp: ents_ok_def)
  ultimately have f: "fresh_pair ?cf no ?v" using room T(2) by (auto simp: fresh_pair_def room_ok_def take_block_def zint_range_def)
  have rb: "room_for_bucket ?cf" using room e by (simp add: room_for_bucket_def room_ok_def ents_ok_def take_block_def)
  have valid: "valid_hno ?cf (int h)" using hash_okD(4,5) [OF T(1)] h same by (simp add: valid_hno_def)
  show ?thesis
  proof (cases "List.find (\<lambda>k. ph_vno (hb_ph (cf_buckets ?cf ! k)) ! (HASH_BUCKET - 1) = 0) (chain ?cf (int h))")
    case (Some k)
    then have k: "k \<in> set (chain ?cf (int h))" "ph_vno (hb_ph (cf_buckets cf ! k)) ! 14 = 0"
      by (auto simp: find_Some_iff same HASH_BUCKET_def dest!: nth_mem)
    then have kl: "k < length (cf_buckets cf)" "hb_hno (cf_buckets cf ! k) = int h" by (simp_all add: chain_def same)
    have "length (ph_vno (hb_ph (cf_buckets cf ! k))) = 15" using hash_ok_cache [OF ok] kl by (auto simp: cache_ok_def ph_wf_def)
    then have "0 \<in> set (ph_vno (hb_ph (cf_buckets cf ! k)))" using k(2) nth_mem [of 14 "ph_vno (hb_ph (cf_buckets cf ! k))"] by simp
    then obtain i where i: "free_entry (ph_vno (hb_ph (cf_buckets cf ! k))) = Some i" by (simp add: free_entry_spec)
    let ?b = "bump_hits ?cf"
    have B: "hash_ok True r ch ?b" "view_step ?cf ?b" using hash_ok_bump(2) [OF T(1)] bump_view(2) by auto
    have fb: "fresh_pair ?b no ?v" using fresh_pair_step [OF B(2) f] .
    have bs: "cf_buckets ?b = cf_buckets cf" "cf_hash ?b no = int h" using h same bump_view(6) [of ?cf] by (simp_all add: bump_hits_def cf_hash_def take_block_def)
    have "hash_ok True r ch (put_entry ?b k i no ?v) \<and> cf_map (put_entry ?b k i no ?v) = (cf_map ?b)(no \<mapsto> ?v) \<and> new_step ?b (put_entry ?b k i no ?v)"
      using kl bs i by (intro hash_ok_put [OF B(1) _ _ _ fb]) simp_all
    moreover have "cf_new_hash cf no = Some (?v, put_entry ?b k i no ?v)"
      using Some valid h(1) same i by (simp add: cf_new_hash_def Let_def)
    ultimately show ?thesis using view_step_new [OF B(2)] cf_map_step [OF B(2)] same(3) new_step_trans by metis
  next
    case None
    have "at_ref ?cf h [] None" by (simp add: at_ref_def)
    then obtain ch' cf' where w: "new_walk ?cf no ?v (int h) None = Some (?v, cf')" "hash_ok True r ch' cf'"
      "cf_map cf' = (cf_map ?cf)(no \<mapsto> ?v)" "new_step ?cf cf'"
      using new_walk_spec [OF T(1) _ _ _ _ f rb, of h "[]" "ch h" None] h same by auto
    have "cf_new_hash cf no = Some (?v, cf')" using None valid h(1) same w(1) by (simp add: cf_new_hash_def Let_def)
    then show ?thesis using w same(3) by auto
  qed
qed

end
