(* ===== verification/Cfile_Flat.thy ===== *)
theory Cfile_Flat
  imports Cfile_New
begin

text \<open>
  The flat table of a commit file: behind the buckets of the index file, slot \<open>no\<close> holds the shadow block of block
  \<open>no\<close>, zero or past the end of the file if there is none. Looking up reads the slot, adding writes it, and
  moving from the hash table to the flat table keeps the map.
\<close>

section \<open>Slots\<close>

definition slot :: "byte list \<Rightarrow> nat \<Rightarrow> byte list" where
  "slot H pos = overlay (file_pread H pos 8) (replicate 8 0)"

lemma slot_length [simp]: "length (slot H pos) = 8"
  by (simp add: slot_def overlay_def)

lemma slot_nth: "i < 8 \<Longrightarrow> slot H pos ! i = (if pos + i < length H then H ! (pos + i) else 0)"
  by (auto simp: slot_def overlay_def nth_append file_pread_nth min_def)

lemma slot_write_same: "length bs = 8 \<Longrightarrow> slot (file_pwrite H pos bs) pos = bs"
  by (intro nth_equalityI) (auto simp: slot_nth file_pwrite_nth max_def split: if_splits)

lemma slot_write_other: "length bs = 8 \<Longrightarrow> pos' + 8 \<le> pos \<or> pos + 8 \<le> pos' \<Longrightarrow> slot (file_pwrite H pos bs) pos' = slot H pos'"
  by (intro nth_equalityI) (auto simp: slot_nth file_pwrite_nth max_def split: if_splits)

lemma slot_beyond: "length H \<le> pos \<Longrightarrow> slot H pos = zint_bytes 0"
  by (intro nth_equalityI) (auto simp: slot_nth zint_bytes_def numeral_eq_Suc nth_Cons split: nat.splits)

definition slot_pos :: "cfile \<Rightarrow> int \<Rightarrow> nat" where
  "slot_pos cf no = nat (ch_next_bucket (cf_head cf) * 256 + no * 8)"

definition flat_map :: "cfile \<Rightarrow> int \<Rightarrow> int option" where
  "flat_map cf no = (let v = zint_of_bytes (slot (hashc cf) (slot_pos cf no)) in if no < 0 \<or> v = 0 then None else Some v)"

lemma flat_slot_simp:
  assumes "0 \<le> no"
  shows "flat_slot cf no = (no div 32 + ch_next_bucket (cf_head cf), no mod 32 * 8)"
proof -
  have q: "(no * 8) sdiv 256 = no div 32" 
  proof -
    have "(no * 8) sdiv 256 = (no * 8) div 256" using assms by (simp add: signed_divide_int_def sgn_if)
    also have "\<dots> = (no * 8) div (32 * 8)" by simp
    also have "\<dots> = no div 32" by (rule div_mult_mult2) simp
    finally show ?thesis .
  qed
  have "no * 8 - no div 32 * 256 = no mod 32 * 8" using mult_div_mod_eq [of 32 no] by linarith
  moreover have "c_cast (no mod 32 * 8) = no mod 32 * 8" unfolding c_cast_def
    using pos_mod_bound [of 32 no] pos_mod_sign [of 32 no] by (intro sint_word_of_int_self) auto
  ultimately show ?thesis using q by (simp add: flat_slot_def Let_def HASH_BSIZE_def)
qed

lemma slot_split:
  assumes "q = no div 32" "m = no mod 32"
  shows "(q + b) * 256 + m * 8 = b * 256 + no * (8 :: int)"
proof -
  have "no = 32 * q + m" using assms by simp
  then show ?thesis by (simp add: algebra_simps)
qed

lemma slot_pos_eq: "nat ((no div 32 + ch_next_bucket (cf_head cf)) * 256 + no mod 32 * 8) = slot_pos cf no"
proof -
  have "(no div 32 + ch_next_bucket (cf_head cf)) * 256 + no mod 32 * 8 = ch_next_bucket (cf_head cf) * 256 + no * 8"
    by (rule slot_split) simp_all
  then show ?thesis by (simp add: slot_pos_def)
qed

lemma slot_off: "(0 :: int) \<le> no mod 32 * 8 \<and> no mod 32 * 8 + 8 \<le> 256"
  using pos_mod_bound [of 32 no] by simp

section \<open>Looking up and writing\<close>

lemma cf_lookup_flat_spec:
  assumes ok: "io_ok w r cf" and no: "0 \<le> no" "0 \<le> ch_next_bucket (cf_head cf)"
  shows "\<exists>cf' v. cf_lookup_flat cf no = Some (if flat_map cf no = None then 0 else 1, v, cf') \<and>
    (flat_map cf no \<noteq> None \<longrightarrow> flat_map cf no = Some v) \<and> kept w r cf cf' \<and> hashc cf' = hashc cf \<and> blockc cf' = blockc cf \<and> rmfc cf' = rmfc cf"
proof -
  let ?bs = "file_pread (hashc cf) (slot_pos cf no) 8"
  obtain cf' ret where h: "hash_read cf (no div 32 + ch_next_bucket (cf_head cf)) (no mod 32 * 8) 8 = Some (ret, ?bs, cf')" "ret \<noteq> - 1"
    "kept w r cf cf'" "hashc cf' = hashc cf" "blockc cf' = blockc cf" "rmfc cf' = rmfc cf"
    using hash_read_spec [OF ok, of "no div 32 + ch_next_bucket (cf_head cf)" "no mod 32 * 8" 8 ?bs] no slot_off [of no]
    unfolding slot_pos_eq by (auto simp: pos_imp_zdiv_nonneg_iff)
  have "flat_map cf no = (if zint_of_bytes (slot (hashc cf) (slot_pos cf no)) = 0 then None else Some (zint_of_bytes (slot (hashc cf) (slot_pos cf no))))"
    using no by (simp add: flat_map_def Let_def)
  then show ?thesis using h no by (intro exI [of _ cf']) (auto simp: cf_lookup_flat_def flat_slot_simp slot_def)
qed

text \<open>The table in use: its entries are in range and distinct, lie below \<^verbatim>\<open>flat_bucket\<close>, and the file reaches into the last block of it.\<close>

definition flat_part :: "bool \<Rightarrow> bool \<Rightarrow> cfile \<Rightarrow> bool" where
  "flat_part w r cf \<longleftrightarrow> io_ok w r cf \<and> 0 < ch_next_bucket (cf_head cf) \<and> 0 < ch_next_block (cf_head cf) \<and>
     (\<forall>no v. flat_map cf no = Some v \<longrightarrow> 0 < v \<and> v < ch_next_block (cf_head cf) \<and>
        no div 32 + ch_next_bucket (cf_head cf) < ch_flat_bucket (cf_head cf)) \<and>
     inj_on (flat_map cf) (dom (flat_map cf)) \<and>
     (ch_flat_bucket (cf_head cf) \<le> ch_next_bucket (cf_head cf) \<or>
      (ch_flat_bucket (cf_head cf) - 1) * 256 < int (length (hashc cf)))"

definition flat_ok :: "bool \<Rightarrow> bool \<Rightarrow> cfile \<Rightarrow> bool" where
  "flat_ok w r cf \<longleftrightarrow> flat_part w r cf \<and> ch_state (cf_head cf) = CFILE_STATE_FLAT \<and> cf_buckets cf = []"

lemma flat_map_nonneg: "flat_map cf no = Some v \<Longrightarrow> 0 \<le> no"
  by (simp add: flat_map_def Let_def split: if_splits)

lemma inj_on_upd: "inj_on m (dom m) \<Longrightarrow> Some v \<notin> range m \<Longrightarrow> inj_on (m(a \<mapsto> v)) (dom (m(a \<mapsto> v)))"
  by (auto simp: inj_on_def dom_def) (metis rangeI)+

text \<open>What writing an entry leaves alone: the index file below the table, and all but \<^verbatim>\<open>flat_bucket\<close>.\<close>

definition flat_step :: "cfile \<Rightarrow> cfile \<Rightarrow> bool" where
  "flat_step cf cf' \<longleftrightarrow> cf_iobuf cf' = cf_iobuf cf \<and> cf_locked cf' = cf_locked cf \<and> bsize cf' = bsize cf \<and> blockc cf' = blockc cf \<and>
     rmfc cf' = rmfc cf \<and> cf_buckets cf' = cf_buckets cf \<and> cf_array cf' = cf_array cf \<and>
     (cf_head cf')\<lparr>ch_flat_bucket := 0\<rparr> = (cf_head cf)\<lparr>ch_flat_bucket := 0\<rparr> \<and>
     (\<forall>b. 0 \<le> b \<and> b < ch_next_bucket (cf_head cf) \<and> on_disk (hashc cf) b \<longrightarrow> on_disk (hashc cf') b \<and> disk (hashc cf') b = disk (hashc cf) b)"

lemma flat_step_head:
  assumes "flat_step cf cf'"
  shows "ch_next_bucket (cf_head cf') = ch_next_bucket (cf_head cf)" "ch_next_block (cf_head cf') = ch_next_block (cf_head cf)"
    "ch_first_bucket (cf_head cf') = ch_first_bucket (cf_head cf)" "ch_state (cf_head cf') = ch_state (cf_head cf)"
proof -
  have e: "(cf_head cf')\<lparr>ch_flat_bucket := 0\<rparr> = (cf_head cf)\<lparr>ch_flat_bucket := 0\<rparr>" using assms by (simp add: flat_step_def)
  show "ch_next_bucket (cf_head cf') = ch_next_bucket (cf_head cf)" "ch_next_block (cf_head cf') = ch_next_block (cf_head cf)"
    "ch_first_bucket (cf_head cf') = ch_first_bucket (cf_head cf)" "ch_state (cf_head cf') = ch_state (cf_head cf)"
    using arg_cong [OF e, of ch_next_bucket] arg_cong [OF e, of ch_next_block] arg_cong [OF e, of ch_first_bucket] arg_cong [OF e, of ch_state]
    by simp_all
qed

lemma flat_step_refl [simp]: "flat_step cf cf"
  by (simp add: flat_step_def)

lemma flat_step_trans: "flat_step a b \<Longrightarrow> flat_step b c \<Longrightarrow> flat_step a c"
  using flat_step_head [of a b] unfolding flat_step_def by auto

lemma slots_apart: "0 \<le> n \<Longrightarrow> 0 \<le> m \<Longrightarrow> n \<noteq> m \<Longrightarrow> 0 \<le> ch_next_bucket (cf_head cf) \<Longrightarrow>
    slot_pos cf n + 8 \<le> slot_pos cf m \<or> slot_pos cf m + 8 \<le> slot_pos cf n"
  by (auto simp: slot_pos_def)

lemma cf_write_flat_spec:
  assumes ok: "flat_part True r cf" and no: "0 \<le> no" "Some v \<notin> range (flat_map cf)"
    and v: "0 < v" "v < ch_next_block (cf_head cf)" "zint_range v"
  shows "\<exists>cf'. cf_write_flat cf no v = Some (0, cf') \<and> flat_part True r cf' \<and> flat_map cf' = (flat_map cf)(no \<mapsto> v) \<and> flat_step cf cf'"
proof -
  let ?nb = "ch_next_bucket (cf_head cf)" and ?hno = "no div 32 + ch_next_bucket (cf_head cf)"
  let ?head = "if ch_flat_bucket (cf_head cf) \<le> ?hno then (cf_head cf)\<lparr>ch_flat_bucket := ?hno + 1\<rparr> else cf_head cf"
  define cf1 where "cf1 = cf\<lparr>cf_head := ?head, cf_dirty := True\<rparr>"
  have nb: "0 < ?nb" and io: "io_ok True r cf" using ok by (auto simp: flat_part_def)
  have s1: "io_same cf cf1" by (simp add: io_same_def cf1_def)
  note s = io_same_simps [OF s1]
  have h0: "0 \<le> ?hno" using no nb by (simp add: pos_imp_zdiv_nonneg_iff)
  obtain cf' where h: "hash_write cf1 ?hno (no mod 32 * 8) 8 (zint_bytes v) = Some (0, cf')" "kept True r cf1 cf'"
    "hashc cf' = file_pwrite (hashc cf) (slot_pos cf no) (zint_bytes v)" "blockc cf' = blockc cf" "rmfc cf' = rmfc cf"
    using hash_write_spec [of r cf1 ?hno "no mod 32 * 8" 8 "zint_bytes v"] io s no slot_off [of no] h0
    unfolding slot_pos_eq by auto
  have k: "io_ok True r cf'" "cf_head cf' = ?head" "cf_iobuf cf' = cf_iobuf cf" "cf_locked cf' = cf_locked cf" "bsize cf' = bsize cf"
    "cf_buckets cf' = cf_buckets cf" "cf_array cf' = cf_array cf"
    using h(2) s by (auto simp: kept_def core_def cf1_def)
  have hd: "ch_next_bucket (cf_head cf') = ?nb" "ch_next_block (cf_head cf') = ch_next_block (cf_head cf)"
    "ch_flat_bucket (cf_head cf') = max (?hno + 1) (ch_flat_bucket (cf_head cf))" using k(2) by simp_all
  have sp: "slot_pos cf' n = slot_pos cf n" for n using hd by (simp add: slot_pos_def)
  have fm: "flat_map cf' = (flat_map cf)(no \<mapsto> v)"
  proof
    fix n show "flat_map cf' n = ((flat_map cf)(no \<mapsto> v)) n"
      using slots_apart [of n no cf] no nb v h(3) sp
      by (cases "n = no") (auto simp: flat_map_def Let_def slot_write_same slot_write_other)
  qed
  have len: "(?hno + 1) * 256 - 256 < int (length (hashc cf'))"
  proof -
    have "(?hno + 1) * 256 - 256 \<le> int (slot_pos cf no)" unfolding slot_pos_eq [symmetric] using slot_off [of no] h0 by simp
    then show ?thesis unfolding h(3) using zint_bytes_length [of v] by (auto simp: max_def simp del: zint_bytes_length)
  qed
  have "int (length (hashc cf)) \<le> int (length (hashc cf'))" unfolding h(3) by simp
  moreover have "0 < u \<and> u < ch_next_block (cf_head cf) \<and> n div 32 + ?nb < max (?hno + 1) (ch_flat_bucket (cf_head cf))"
    if "((flat_map cf)(no \<mapsto> v)) n = Some u" for n u
    using that ok v by (cases "n = no") (auto simp: flat_part_def less_max_iff_disj)
  moreover have "inj_on ((flat_map cf)(no \<mapsto> v)) (dom ((flat_map cf)(no \<mapsto> v)))" using ok no(2) by (intro inj_on_upd) (simp_all add: flat_part_def)
  ultimately have "flat_part True r cf'" using ok k(1) nb len unfolding flat_part_def fm hd by (auto simp: max_def)
  moreover have "flat_step cf cf'"
  proof -
    have "on_disk (hashc cf') b \<and> disk (hashc cf') b = disk (hashc cf) b" if "0 \<le> b" "b < ?nb" "on_disk (hashc cf) b" for b
    proof -
      have "nat (b * 256) + 256 \<le> slot_pos cf no" "nat (b * 256) + 256 \<le> length (hashc cf)" using that no by (auto simp: slot_pos_def on_disk_def)
      then have "disk (hashc cf') b = disk (hashc cf) b" unfolding disk_def h(3) by (subst file_pread_pwrite_other) auto
      then show ?thesis using that(3) unfolding h(3) by (auto simp: on_disk_def max_def)
    qed
    then show ?thesis using k h(4,5) by (simp add: flat_step_def)
  qed
  moreover have "cf_write_flat cf no v = Some (0, cf')"
    using h(1) no unfolding cf1_def by (simp add: cf_write_flat_def flat_slot_simp Let_def)
  ultimately show ?thesis using fm by blast
qed

section \<open>Moving the hash table to the flat table\<close>

lemma move_entries_spec:
  assumes "es = takeWhile (\<lambda>e. snd e \<noteq> 0) (zip ns vs)" "flat_part True r cf" "distinct (map fst es)" "distinct (map snd es)"
    "\<forall>(n, v)\<in>set es. 0 \<le> n \<and> 0 < v \<and> v < ch_next_block (cf_head cf) \<and> zint_range v \<and> Some v \<notin> range (flat_map cf)"
  shows "\<exists>cf'. move_entries cf ns vs = Some (0, cf') \<and> flat_part True r cf' \<and> flat_map cf' = flat_map cf ++ map_of es \<and> flat_step cf cf'"
  using assms
proof (induction "zip ns vs" arbitrary: ns vs cf es)
  case Nil
  then show ?case by (cases ns; cases vs) simp_all
next
  case (Cons e zs)
  then obtain n v ns' vs' where l: "ns = n # ns'" "vs = v # vs'" "zs = zip ns' vs'" by (cases ns; cases vs) auto
  show ?case
  proof (cases "v = 0")
    case False
    define es' where "es' = takeWhile (\<lambda>e. snd e \<noteq> 0) (zip ns' vs')"
    have es: "es = (n, v) # es'" using Cons.prems(1) False by (simp add: es'_def l)
    have v: "0 \<le> n" "0 < v" "v < ch_next_block (cf_head cf)" "zint_range v" "Some v \<notin> range (flat_map cf)" using Cons.prems(5) es by auto
    obtain cf1 where w: "cf_write_flat cf n v = Some (0, cf1)" "flat_part True r cf1" "flat_map cf1 = (flat_map cf)(n \<mapsto> v)" "flat_step cf cf1"
      using cf_write_flat_spec [OF Cons.prems(2) v(1,5,2,3,4)] by blast
    have nb: "ch_next_block (cf_head cf1) = ch_next_block (cf_head cf)" using flat_step_head [OF w(4)] by simp
    have "Some u \<notin> range (flat_map cf1)" if "(m, u) \<in> set es'" for m u
    proof -
      have "Some u \<notin> range (flat_map cf)" "u \<noteq> v" using that Cons.prems(4,5) es by (auto simp: image_iff)
      then show ?thesis unfolding w(3) by (auto simp: image_iff)
    qed
    then have "\<forall>(n, v)\<in>set es'. 0 \<le> n \<and> 0 < v \<and> v < ch_next_block (cf_head cf1) \<and> zint_range v \<and> Some v \<notin> range (flat_map cf1)"
      using Cons.prems(5) es nb by fastforce
    then obtain cf' where i: "move_entries cf1 ns' vs' = Some (0, cf')" "flat_part True r cf'" "flat_map cf' = flat_map cf1 ++ map_of es'" "flat_step cf1 cf'"
      using Cons.hyps(1) [OF l(3) es'_def w(2)] Cons.prems(3,4) es by auto
    have "n \<notin> dom (map_of es')" using Cons.prems(3) es by (simp add: dom_map_of_conv_image_fst)
    then have "flat_map cf' = flat_map cf ++ map_of es" using i(3) w(3) es by (simp add: map_add_upd_left)
    then show ?thesis using i w False flat_step_trans [OF w(4) i(4)] by (intro exI [of _ cf']) (simp add: l)
  qed (use Cons.prems l in simp)
qed

lemma move_buckets_spec:
  assumes "flat_part True r cf" "0 \<le> i" "i + int n \<le> ch_next_bucket (cf_head cf)"
    and "es = concat (map (\<lambda>b. ph_list (disk (hashc cf) b)) [i..i + int n - 1])" "distinct (map fst es)" "distinct (map snd es)"
    and "\<forall>b. i \<le> b \<and> b < i + int n \<longrightarrow> on_disk (hashc cf) b \<and> ph_wf (disk (hashc cf) b)"
    and "\<forall>(n, v)\<in>set es. 0 \<le> n \<and> 0 < v \<and> v < ch_next_block (cf_head cf) \<and> Some v \<notin> range (flat_map cf)"
  shows "\<exists>cf'. move_buckets n cf i = Some (0, cf') \<and> flat_part True r cf' \<and> flat_map cf' = flat_map cf ++ map_of es \<and> flat_step cf cf'"
  using assms
proof (induction n arbitrary: cf i es)
  case (Suc n)
  let ?p = "disk (hashc cf) i" and ?bs = "file_pread (hashc cf) (nat (i * 256)) 256"
  have d: "on_disk (hashc cf) i" "ph_wf ?p" using Suc.prems(7) by auto
  have full: "length ?bs = 256" using d(1) Suc.prems(2) by (simp add: on_disk_def)
  have io: "io_ok True r cf" using Suc.prems(1) by (simp add: flat_part_def)
  obtain cf1 where h: "hash_read cf i 0 0 = Some (1, ?bs, cf1)" "kept True r cf cf1" "hashc cf1 = hashc cf" "blockc cf1 = blockc cf" "rmfc cf1 = rmfc cf"
    using hash_read_spec [OF io, of i 0 0 ?bs] Suc.prems(2) full by auto
  have core: "cf_head cf1 = cf_head cf" and st1: "flat_step cf cf1" using h by (auto simp: kept_def core_def flat_step_def)
  have fm1: "flat_map cf1 = flat_map cf" using h(3) core by (simp add: flat_map_def slot_pos_def fun_eq_iff)
  have f1: "flat_part True r cf1" using Suc.prems(1) h(2,3) core unfolding flat_part_def fm1 by (simp add: kept_def)
  have up: "[i..i + int (Suc n) - 1] = i # [i + 1..i + 1 + int n - 1]" by (subst upto_rec1) (simp_all add: algebra_simps)
  define es1 es2 where "es1 = ph_list ?p" and "es2 = concat (map (\<lambda>b. ph_list (disk (hashc cf) b)) [i + 1..i + 1 + int n - 1])"
  have es: "es = es1 @ es2" using Suc.prems(4) unfolding up es1_def es2_def by simp
  have zr: "zint_range v" if "(m, v) \<in> set es1" for m v
    using that d(2) unfolding es1_def ph_list_def ph_wf_def by (auto dest!: set_takeWhileD dest: set_zip_rightD)
  have en1: "\<forall>(n, v)\<in>set es1. 0 \<le> n \<and> 0 < v \<and> v < ch_next_block (cf_head cf1) \<and> zint_range v \<and> Some v \<notin> range (flat_map cf1)"
    using Suc.prems(8) zr unfolding es core fm1 by auto
  obtain cf2 where m: "move_entries cf1 (ph_no ?p) (ph_vno ?p) = Some (0, cf2)" "flat_part True r cf2" "flat_map cf2 = flat_map cf1 ++ map_of es1" "flat_step cf1 cf2"
    using move_entries_spec [of es1 "ph_no ?p" "ph_vno ?p" r cf1] f1 en1 Suc.prems(5,6) es by (auto simp: es1_def ph_list_def)
  have st2: "flat_step cf cf2" using st1 m(4) flat_step_trans by blast
  note hd = flat_step_head [OF st2]
  have dk: "on_disk (hashc cf2) b \<and> disk (hashc cf2) b = disk (hashc cf) b" if "i + 1 \<le> b" "b < i + 1 + int n" for b
    using st2 Suc.prems(2,3,7) that unfolding flat_step_def by auto
  have e2: "es2 = concat (map (\<lambda>b. ph_list (disk (hashc cf2) b)) [i + 1..i + 1 + int n - 1])"
    unfolding es2_def using dk by (intro arg_cong [where f = concat] map_cong) auto
  have out: "Some v \<notin> range (flat_map cf2)" if "(k, v) \<in> set es2" for k v
  proof
    assume "Some v \<in> range (flat_map cf2)"
    then obtain a where "(flat_map cf ++ map_of es1) a = Some v" unfolding m(3) fm1 by (metis rangeE)
    then have "flat_map cf a = Some v \<or> v \<in> snd ` set es1" by (auto simp: map_add_Some_iff dest!: map_of_SomeD intro: rev_image_eqI)
    moreover have "v \<in> snd ` set es2" using that by force
    moreover have "Some v \<notin> range (flat_map cf)" using Suc.prems(8) that es by auto
    ultimately show False using Suc.prems(6) es by (metis disjoint_iff distinct_append map_append rangeI set_map)
  qed
  have en2: "\<forall>(n, v)\<in>set es2. 0 \<le> n \<and> 0 < v \<and> v < ch_next_block (cf_head cf2) \<and> Some v \<notin> range (flat_map cf2)"
    using Suc.prems(8) out unfolding es hd(2) by auto
  have wf2: "\<forall>b. i + 1 \<le> b \<and> b < i + 1 + int n \<longrightarrow> on_disk (hashc cf2) b \<and> ph_wf (disk (hashc cf2) b)"
    using dk Suc.prems(7) by auto
  obtain cf' where i: "move_buckets n cf2 (i + 1) = Some (0, cf')" "flat_part True r cf'" "flat_map cf' = flat_map cf2 ++ map_of es2" "flat_step cf2 cf'"
    using Suc.IH [OF m(2) _ _ e2 _ _ wf2 en2] Suc.prems(2,3,5,6) es hd(1) by auto
  have "flat_map cf' = flat_map cf ++ map_of es"
  proof -
    have "dom (map_of es1) \<inter> dom (map_of es2) = {}" using Suc.prems(5) es by (auto simp: dom_map_of_conv_image_fst)
    then have "map_of es1 ++ map_of es2 = map_of es" using es map_add_comm [of "map_of es1"] by simp
    then show ?thesis using i(3) m(3) fm1 by (metis map_add_assoc)
  qed
  moreover have "move_buckets (Suc n) cf i = Some (0, cf')" using h(1) m(1) i(1) by (simp add: disk_def)
  ultimately show ?case using i st2 flat_step_trans by blast
qed simp

text \<open>Moving keeps the map: the flat table holds what the hash table held.\<close>

lemma cf_moveto_flat_spec:
  assumes ok: "hash_ok True r ch cf"
  shows "\<exists>cf'. cf_moveto_flat cf = Some (0, cf') \<and> flat_ok True r cf' \<and> flat_map cf' = cf_map cf \<and>
    cf_iobuf cf' = cf_iobuf cf \<and> cf_locked cf' = cf_locked cf \<and> bsize cf' = bsize cf \<and> blockc cf' = blockc cf \<and> rmfc cf' = rmfc cf \<and>
    ch_next_block (cf_head cf') = ch_next_block (cf_head cf) \<and> ch_next_bucket (cf_head cf') = ch_next_bucket (cf_head cf)"
proof -
  obtain cf1 where f: "flush_bucket cf None = Some (0, cf1)" "cf_buckets cf1 = []" "cache_step True r cf cf1"
    using flush_bucket_all [OF hash_ok_cache [OF ok]] by blast
  note v = cache_step_view [OF f(3)]
  have ok1: "hash_ok True r ch cf1" using f by (intro hash_ok_step [OF ok _ v]) (simp_all add: cache_step_def)
  have c1: "cache_ok True r cf1" using hash_ok_cache [OF ok1] .
  have map1: "cf_map cf1 = cf_map cf" using cf_map_step [OF v] .
  let ?fb = "ch_first_bucket (cf_head cf1)" and ?nb = "ch_next_bucket (cf_head cf1)"
  define n where "n = nat (?nb - ?fb)"
  have b: "0 < ?fb" "?fb \<le> ?nb" "?fb + int n = ?nb" using cache_okD [OF c1] by (auto simp: n_def)
  have cu: "cur cf1 b = disk (hashc cf1) b" for b using f(2) by (simp add: cur_def bmem_def)
  have es: "all_ents cf1 = concat (map (\<lambda>b. ph_list (disk (hashc cf1) b)) [?fb..?fb + int n - 1])" using b(3) by (simp add: all_ents_def cu)
  have e: "ents_ok cf1" using ok1 by (rule hash_okD)
  have len: "length (hashc cf1) \<le> slot_pos cf1 no" if "0 \<le> no" for no
    using c1 that b by (auto simp: cache_ok_def slot_pos_def)
  have empty: "flat_map cf1 = Map.empty" using slot_beyond [OF len] zint_bytes_back [of 0] by (auto simp: fun_eq_iff flat_map_def Let_def zint_range_def not_less)
  have fp: "flat_part True r cf1" using c1 e b empty ok1 by (auto simp: flat_part_def cache_ok_def ents_ok_def hash_ok_def)
  have wf: "\<forall>b. ?fb \<le> b \<and> b < ?fb + int n \<longrightarrow> on_disk (hashc cf1) b \<and> ph_wf (disk (hashc cf1) b)"
    using c1 f(2) b(3) by (auto simp: cache_ok_def in_range_def bmem_def)
  obtain cf2 where m: "move_buckets n cf1 ?fb = Some (0, cf2)" "flat_part True r cf2" "flat_map cf2 = flat_map cf1 ++ map_of (all_ents cf1)" "flat_step cf1 cf2"
    using move_buckets_spec [OF fp _ _ es _ _ wf] b e empty by (auto simp: ents_ok_def)
  note hd = flat_step_head [OF m(4)]
  let ?cf = "cf2\<lparr>cf_array := None, cf_head := (cf_head cf2)\<lparr>ch_state := CFILE_STATE_FLAT\<rparr>, cf_dirty := True\<rparr>"
  have io: "io_same cf2 ?cf" by (simp add: io_same_def)
  note s = io_same_simps [OF io]
  have fm: "flat_map ?cf = flat_map cf2" by (simp add: flat_map_def fun_eq_iff s slot_pos_def)
  have "flat_ok True r ?cf" using m(2,4) f(2) unfolding flat_ok_def flat_part_def fm s by (simp add: flat_step_def)
  moreover have "cf_moveto_flat cf = Some (0, ?cf)"
    using f(1,2) m(1) ok v by (simp add: cf_moveto_flat_def hash_ok_def n_def view_step_def)
  moreover have "flat_map ?cf = cf_map cf" unfolding fm m(3) empty map1 [symmetric] by (simp add: cf_map_def)
  ultimately show ?thesis using v m(4) hd s by (intro exI [of _ ?cf]) (simp add: view_step_def flat_step_def)
qed

end
