(* ===== verification/Cfile_Shadow.thy ===== *)
theory Cfile_Shadow
  imports Cfile_Flat
begin

text \<open>
  A commit file as what it promises: a partial map from block numbers to blocks, the shadow. The map of block numbers
  is held by the hash table or by the flat table; the blocks themselves are in the block file. Reading looks
  the shadow up, and writing updates it, whatever the table does underneath.
\<close>

section \<open>Either table\<close>

definition shadow_inv :: "bool \<Rightarrow> bool \<Rightarrow> cfile \<Rightarrow> bool" where
  "shadow_inv w r cf \<longleftrightarrow> (\<exists>ch. hash_ok w r ch cf) \<or> flat_ok w r cf"

definition shadow_map :: "cfile \<Rightarrow> int \<Rightarrow> int option" where
  "shadow_map cf = (if 1 < ch_state (cf_head cf) then flat_map cf else cf_map cf)"

definition shadow_step :: "cfile \<Rightarrow> cfile \<Rightarrow> bool" where
  "shadow_step cf cf' \<longleftrightarrow> cf_iobuf cf' = cf_iobuf cf \<and> cf_locked cf' = cf_locked cf \<and> bsize cf' = bsize cf \<and> blockc cf' = blockc cf \<and>
     rmfc cf' = rmfc cf"

lemma state_values: "hash_ok w r ch cf \<Longrightarrow> ch_state (cf_head cf) = 1" "flat_ok w r cf \<Longrightarrow> ch_state (cf_head cf) = 2"
  by (simp_all add: hash_ok_def flat_ok_def CFILE_STATE_HASH_def CFILE_STATE_FLAT_def)

lemma shadow_map_table: "hash_ok w r ch cf \<Longrightarrow> shadow_map cf = cf_map cf" "flat_ok w r cf \<Longrightarrow> shadow_map cf = flat_map cf"
  by (simp_all add: shadow_map_def state_values)

lemma shadow_inv_io: "shadow_inv w r cf \<Longrightarrow> io_ok w r cf"
  by (auto simp: shadow_inv_def flat_ok_def flat_part_def dest: hash_ok_cache cache_okD)

lemma shadow_map_range:
  assumes "shadow_inv w r cf" "shadow_map cf no = Some v"
  shows "0 \<le> no" "0 < v" "v < ch_next_block (cf_head cf)"
proof -
  have "0 \<le> no \<and> 0 < v \<and> v < ch_next_block (cf_head cf)"
    using assms(1) unfolding shadow_inv_def
  proof (elim disjE exE)
    fix ch assume h: "hash_ok w r ch cf"
    then show ?thesis using assms(2) hash_okD(7) [OF h] by (auto simp: shadow_map_table cf_map_def ents_ok_def dest!: map_of_SomeD)
  next
    assume f: "flat_ok w r cf"
    then show ?thesis using assms(2) flat_map_nonneg by (auto simp: shadow_map_table flat_ok_def flat_part_def)
  qed
  then show "0 \<le> no" "0 < v" "v < ch_next_block (cf_head cf)" by auto
qed

lemma map_of_inj:
  assumes "distinct (map fst es)" "distinct (map snd es)"
  shows "inj_on (map_of es) (dom (map_of es))"
proof (rule inj_onI)
  fix x y assume d: "x \<in> dom (map_of es)" "map_of es x = map_of es y"
  then obtain v where "(x, v) \<in> set es" "(y, v) \<in> set es" by (metis domD map_of_SomeD)
  moreover have "inj_on snd (set es)" using assms(2) by (simp add: distinct_map)
  ultimately show "x = y" by (metis Pair_inject inj_onD snd_conv)
qed

lemma shadow_map_inj: "shadow_inv w r cf \<Longrightarrow> inj_on (shadow_map cf) (dom (shadow_map cf))"
  unfolding shadow_inv_def
proof (elim disjE exE)
  fix ch assume h: "hash_ok w r ch cf"
  then show ?thesis using hash_okD(7) [OF h] by (auto simp: shadow_map_table cf_map_def ents_ok_def intro!: map_of_inj)
qed (auto simp: shadow_map_table flat_ok_def flat_part_def)

text \<open>The block buffer, the lock and the counters do not matter to the tables.\<close>

lemma shadow_cong:
  assumes inv: "shadow_inv w r cf" and io: "io_ok w r cf'" and H: "hashc cf' = hashc cf"
    and c: "cf_head cf' = cf_head cf" "cf_array cf' = cf_array cf" "cf_buckets cf' = cf_buckets cf"
      "cf_max_bucket_in_memory cf' = cf_max_bucket_in_memory cf"
  shows "shadow_inv w r cf'" "shadow_map cf' = shadow_map cf"
proof -
  have cur: "cur cf' = cur cf" by (simp add: fun_eq_iff cur_def H c cong: option.case_cong)
  have same: "in_range cf' = in_range cf" "hsize cf' = hsize cf" "table cf' = table cf" "cf_hash cf' = cf_hash cf"
    by (simp_all add: in_range_def hsize_def table_def cf_hash_def fun_eq_iff c)
  have ae: "all_ents cf' = all_ents cf" by (simp only: all_ents_def cur c)
  have fm: "flat_map cf' = flat_map cf" by (simp add: fun_eq_iff flat_map_def slot_pos_def H c)
  show "shadow_map cf' = shadow_map cf" by (simp add: shadow_map_def cf_map_def ae fm c)
  note io0 = shadow_inv_io [OF inv]
  have "cache_ok w r cf' = cache_ok w r cf" unfolding cache_ok_def H same c using io io0 by blast
  moreover have "chains_ok ch cf' = chains_ok ch cf" for ch unfolding chains_ok_def same cur c by blast
  moreover have "ents_ok cf' = ents_ok cf" unfolding ents_ok_def ae c by blast
  ultimately have "hash_ok w r ch cf' = hash_ok w r ch cf" for ch unfolding hash_ok_def c by blast
  moreover have "flat_ok w r cf' = flat_ok w r cf" unfolding flat_ok_def flat_part_def fm H c using io io0 by blast
  ultimately show "shadow_inv w r cf'" using inv by (simp add: shadow_inv_def)
qed

lemma shadow_kept:
  assumes "shadow_inv w r cf" "kept w r cf cf'" "hashc cf' = hashc cf"
  shows "shadow_inv w r cf'" "shadow_map cf' = shadow_map cf"
  using assms by (auto simp: kept_def core_def intro: shadow_cong shadow_cong(2) [OF assms(1)])

lemma shadow_buffer:
  assumes "shadow_inv w r cf"
  shows "shadow_inv w r (cf\<lparr>cf_locked := l\<rparr>)" "shadow_map (cf\<lparr>cf_locked := l\<rparr>) = shadow_map cf"
    "shadow_inv w r (cf\<lparr>cf_iobuf := io\<rparr>)" "shadow_map (cf\<lparr>cf_iobuf := io\<rparr>) = shadow_map cf"
proof -
  have "io_same cf (cf\<lparr>cf_locked := l\<rparr>)" "io_same cf (cf\<lparr>cf_iobuf := io\<rparr>)" by (simp_all add: io_same_def)
  note s = io_same_simps [OF this(1)] io_same_simps [OF this(2)]
  note i = shadow_inv_io [OF assms]
  show "shadow_inv w r (cf\<lparr>cf_locked := l\<rparr>)" "shadow_map (cf\<lparr>cf_locked := l\<rparr>) = shadow_map cf"
    "shadow_inv w r (cf\<lparr>cf_iobuf := io\<rparr>)" "shadow_map (cf\<lparr>cf_iobuf := io\<rparr>) = shadow_map cf"
    by (intro shadow_cong [OF assms]; simp add: s i)+
qed

lemma cf_lookup_spec:
  assumes inv: "shadow_inv w r cf" and no: "0 \<le> no"
  shows "\<exists>cf' v. cf_lookup cf no = Some (if shadow_map cf no = None then 0 else 1, v, cf') \<and>
    (shadow_map cf no \<noteq> None \<longrightarrow> shadow_map cf no = Some v) \<and> shadow_inv w r cf' \<and> shadow_map cf' = shadow_map cf \<and>
    shadow_step cf cf' \<and> cf_head cf' = cf_head cf"
  using inv unfolding shadow_inv_def [of _ _ cf]
proof (elim disjE exE)
  fix ch assume h: "hash_ok w r ch cf"
  obtain cf' v where l: "cf_lookup_hash cf no = Some (if cf_map cf no = None then 0 else 1, v, cf')" "cf_map cf no \<noteq> None \<longrightarrow> cf_map cf no = Some v"
    "hash_ok w r ch cf'" "view_step cf cf'" using cf_lookup_hash_spec [OF h no] by blast
  have "shadow_step cf cf'" "cf_head cf' = cf_head cf" using l(4) by (simp_all add: shadow_step_def view_step_def)
  moreover have "shadow_map cf' = shadow_map cf" using cf_map_step [OF l(4)] shadow_map_table h l(3) by metis
  moreover have "shadow_inv w r cf'" using l(3) by (auto simp: shadow_inv_def)
  ultimately show ?thesis using l(1,2) state_values(1) [OF h] shadow_map_table(1) [OF h] by (auto simp: cf_lookup_def)
next
  assume f: "flat_ok w r cf"
  then have io: "io_ok w r cf" "0 \<le> ch_next_bucket (cf_head cf)" by (auto simp: flat_ok_def flat_part_def)
  obtain cf' v where l: "cf_lookup_flat cf no = Some (if flat_map cf no = None then 0 else 1, v, cf')" "flat_map cf no \<noteq> None \<longrightarrow> flat_map cf no = Some v"
    "kept w r cf cf'" "hashc cf' = hashc cf" "blockc cf' = blockc cf" "rmfc cf' = rmfc cf" using cf_lookup_flat_spec [OF io(1) no io(2)] by blast
  have c: "cf_head cf' = cf_head cf" "cf_buckets cf' = cf_buckets cf" "io_ok w r cf'" using l(3) by (auto simp: kept_def core_def)
  have fm: "flat_map cf' = flat_map cf" by (simp add: fun_eq_iff flat_map_def slot_pos_def l(4) c)
  have fo: "flat_ok w r cf'" using f unfolding flat_ok_def flat_part_def fm c l(4) using c(3) by blast
  have "shadow_step cf cf'" using l(3,5,6) by (simp add: shadow_step_def kept_def core_def)
  moreover have "shadow_map cf' = shadow_map cf" using fm shadow_map_table f fo by metis
  ultimately show ?thesis using l(1,2) c fo state_values(2) [OF f] shadow_map_table(2) [OF f] by (auto simp: cf_lookup_def shadow_inv_def)
qed

lemma cf_new_flat_spec:
  assumes f: "flat_ok True r cf" and no: "shadow_map cf no = None" and room: "room_ok cf no"
  shows "\<exists>cf'. cf_new_flat cf no = Some (ch_next_block (cf_head cf), cf') \<and> shadow_inv True r cf' \<and>
    shadow_map cf' = (shadow_map cf)(no \<mapsto> ch_next_block (cf_head cf)) \<and> shadow_step cf cf' \<and>
    ch_next_block (cf_head cf') = ch_next_block (cf_head cf) + 1"
proof -
  let ?v = "ch_next_block (cf_head cf)" and ?cf = "take_block cf"
  have io: "io_same cf ?cf" by (simp add: io_same_def take_block_def)
  note s = io_same_simps [OF io]
  have fm: "flat_map ?cf = flat_map cf" by (simp add: fun_eq_iff flat_map_def s slot_pos_def) (simp add: take_block_def)
  have fp: "flat_part True r ?cf" using f unfolding flat_ok_def flat_part_def fm s by (fastforce simp: take_block_def)
  have "u < ?v" if "flat_map cf n = Some u" for n u using that f by (auto simp: flat_ok_def flat_part_def)
  then have "Some ?v \<notin> range (flat_map ?cf)" unfolding fm by (metis image_iff less_irrefl)
  moreover have "0 < ?v" using f by (simp add: flat_ok_def flat_part_def)
  ultimately obtain cf' where w: "cf_write_flat ?cf no ?v = Some (0, cf')" "flat_part True r cf'" "flat_map cf' = (flat_map ?cf)(no \<mapsto> ?v)" "flat_step ?cf cf'"
    using cf_write_flat_spec [OF fp, of no ?v] room by (auto simp: room_ok_def take_block_def zint_range_def)
  note hd = flat_step_head [OF w(4)]
  have tb: "cf_iobuf ?cf = cf_iobuf cf" "cf_locked ?cf = cf_locked cf" "cf_buckets ?cf = cf_buckets cf" "ch_state (cf_head ?cf) = ch_state (cf_head cf)"
    "ch_next_block (cf_head ?cf) = ?v + 1" by (simp_all add: take_block_def)
  have "cf_buckets cf' = cf_buckets ?cf" using w(4) by (simp add: flat_step_def)
  then have fo: "flat_ok True r cf'" using f w(2) hd(4) tb by (simp add: flat_ok_def)
  then have "shadow_map cf' = (shadow_map cf)(no \<mapsto> ?v)" using w(3) fm f by (simp add: shadow_map_table)
  moreover have "shadow_step cf cf'" using w(4) s tb by (simp add: shadow_step_def flat_step_def)
  moreover have "cf_new_flat cf no = Some (?v, cf')" using w(1) by (simp add: cf_new_flat_def)
  ultimately show ?thesis using fo hd(2) tb(5) by (auto simp: shadow_inv_def)
qed

lemma cf_new_spec:
  assumes inv: "shadow_inv True r cf" and no: "shadow_map cf no = None" and room: "room_ok cf no"
  shows "\<exists>cf'. cf_new cf no = Some (ch_next_block (cf_head cf), cf') \<and> shadow_inv True r cf' \<and>
    shadow_map cf' = (shadow_map cf)(no \<mapsto> ch_next_block (cf_head cf)) \<and> shadow_step cf cf' \<and>
    ch_next_block (cf_head cf') = ch_next_block (cf_head cf) + 1"
  using inv unfolding shadow_inv_def [of _ _ cf]
proof (elim disjE exE)
  assume f: "flat_ok True r cf"
  then show ?thesis using cf_new_flat_spec [OF f no room] state_values(2) [OF f] by (simp add: cf_new_def)
next
  fix ch assume h: "hash_ok True r ch cf"
  note st = state_values(1) [OF h] and sm = shadow_map_table(1) [OF h]
  show ?thesis
  proof (cases "cf_no_hits cf < cf_no_miss cf * 2")
    case True
    obtain cf1 where m: "cf_moveto_flat cf = Some (0, cf1)" "flat_ok True r cf1" "flat_map cf1 = cf_map cf" "shadow_step cf cf1"
      "ch_next_block (cf_head cf1) = ch_next_block (cf_head cf)" "ch_next_bucket (cf_head cf1) = ch_next_bucket (cf_head cf)"
      using cf_moveto_flat_spec [OF h] by (auto simp: shadow_step_def)
    have sm1: "shadow_map cf1 = shadow_map cf" using m(3) sm shadow_map_table(2) [OF m(2)] by simp
    have "room_ok cf1 no" using room m(5,6) by (simp add: room_ok_def)
    then obtain cf' where n: "cf_new_flat cf1 no = Some (ch_next_block (cf_head cf), cf')" "shadow_inv True r cf'"
      "shadow_map cf' = (shadow_map cf)(no \<mapsto> ch_next_block (cf_head cf))" "shadow_step cf1 cf'"
      "ch_next_block (cf_head cf') = ch_next_block (cf_head cf) + 1" using cf_new_flat_spec [OF m(2)] no sm1 m(5) by auto
    have "cf_new cf no = Some (ch_next_block (cf_head cf), cf')" using True st m(1) n(1) state_values(2) [OF m(2)] by (simp add: cf_new_def)
    then show ?thesis using n m(4) by (simp add: shadow_step_def)
  next
    case False
    obtain ch' cf' where n: "cf_new_hash cf no = Some (ch_next_block (cf_head cf), cf')" "hash_ok True r ch' cf'"
      "cf_map cf' = (cf_map cf)(no \<mapsto> ch_next_block (cf_head cf))" "new_step (take_block cf) cf'"
      using cf_new_hash_spec [OF h _ room] no sm by auto
    have "io_same cf (take_block cf)" by (simp add: io_same_def take_block_def)
    from io_same_simps [OF this] n(4) have "shadow_step cf cf'" "ch_next_block (cf_head cf') = ch_next_block (cf_head cf) + 1"
      by (simp_all add: shadow_step_def new_step_def) (simp_all add: take_block_def)
    moreover have "cf_new cf no = Some (ch_next_block (cf_head cf), cf')" using False st n(1) by (simp add: cf_new_def)
    ultimately show ?thesis using n(2,3) sm shadow_map_table(1) [OF n(2)] by (auto simp: shadow_inv_def)
  qed
qed

section \<open>The shadow\<close>

definition blk :: "byte list \<Rightarrow> int \<Rightarrow> int \<Rightarrow> byte list" where
  "blk f bs v = file_pread f (nat (v * bs)) (nat bs)"

definition has_blk :: "byte list \<Rightarrow> int \<Rightarrow> int \<Rightarrow> bool" where
  "has_blk f bs v \<longleftrightarrow> (v + 1) * bs \<le> int (length f)"

definition shadow_ok :: "bool \<Rightarrow> bool \<Rightarrow> cfile \<Rightarrow> bool" where
  "shadow_ok w r cf \<longleftrightarrow> shadow_inv w r cf \<and> \<not> cf_locked cf \<and> int (length (cf_iobuf cf)) = bsize cf \<and>
     (\<forall>no v. shadow_map cf no = Some v \<longrightarrow> has_blk (blockc cf) (bsize cf) v)"

definition shadow :: "cfile \<Rightarrow> int \<Rightarrow> byte list option" where
  "shadow cf no = map_option (blk (blockc cf) (bsize cf)) (shadow_map cf no)"

lemma has_blk_nat: "0 \<le> v \<Longrightarrow> 0 \<le> bs \<Longrightarrow> has_blk f bs v \<longleftrightarrow> nat (v * bs) + nat bs \<le> length f"
proof -
  assume a: "0 \<le> v" "0 \<le> bs"
  then have "nat (v * bs) + nat bs = nat ((v + 1) * bs)" by (simp add: algebra_simps nat_add_distrib)
  then show ?thesis using a by (simp add: has_blk_def nat_le_iff)
qed

lemma blk_length: "0 \<le> v \<Longrightarrow> 0 \<le> bs \<Longrightarrow> has_blk f bs v \<Longrightarrow> length (blk f bs v) = nat bs"
  by (auto simp: blk_def has_blk_nat intro!: min_absorb1)

lemma blk_positions:
  assumes "0 \<le> v" "0 \<le> u" "v \<noteq> u" "0 \<le> bs"
  shows "nat (v * bs) + nat bs \<le> nat (u * bs) \<or> nat (u * bs) + nat bs \<le> nat (v * bs)"
proof -
  have "(v + 1) * bs \<le> u * bs \<or> (u + 1) * bs \<le> v * bs" using assms by (cases "v < u") (auto intro!: mult_right_mono)
  moreover have "nat (x * bs) + nat bs = nat ((x + 1) * bs)" if "0 \<le> x" for x using that assms(4) by (simp add: algebra_simps nat_add_distrib)
  ultimately show ?thesis using assms(1,2) by (metis nat_mono)
qed

text \<open>Writing inside block \<open>v\<close> writes inside the bytes of it and keeps every other complete block.\<close>

lemma blk_write_other:
  assumes v: "0 \<le> v" "0 \<le> u" "u \<noteq> v" "0 \<le> bs" and o: "0 \<le> off" "off + int (length xs) \<le> bs" and u: "has_blk f bs u"
  shows "blk (file_pwrite f (nat (v * bs + off)) xs) bs u = blk f bs u" "has_blk (file_pwrite f (nat (v * bs + off)) xs) bs u"
proof -
  have p: "nat (v * bs + off) = nat (v * bs) + nat off" using v o by (simp add: nat_add_distrib)
  have l: "nat (u * bs) + nat bs \<le> length f" using u v has_blk_nat by simp
  have "nat (u * bs) + nat bs \<le> nat (v * bs + off) \<or> nat (v * bs + off) + length xs \<le> nat (u * bs)"
    using blk_positions [OF v(1,2) _ v(4)] v(3) o unfolding p by auto
  then show "blk (file_pwrite f (nat (v * bs + off)) xs) bs u = blk f bs u" unfolding blk_def using l by (rule file_pread_pwrite_other)
  show "has_blk (file_pwrite f (nat (v * bs + off)) xs) bs u" using u by (auto simp: has_blk_def max_def)
qed

lemma blk_write_part:
  assumes v: "0 \<le> v" "0 \<le> bs" and o: "0 \<le> off" "off + int (length xs) \<le> bs" and h: "has_blk f bs v"
  shows "blk (file_pwrite f (nat (v * bs + off)) xs) bs v = file_pwrite (blk f bs v) (nat off) xs"
    "has_blk (file_pwrite f (nat (v * bs + off)) xs) bs v"
proof -
  have p: "nat (v * bs + off) = nat (v * bs) + nat off" using v o by (simp add: nat_add_distrib)
  have l: "nat (v * bs) + nat bs \<le> length f" using h v has_blk_nat by simp
  have "length (blk f bs v) = nat bs" using blk_length v h by simp
  then have len: "length (blk (file_pwrite f (nat (v * bs + off)) xs) bs v) = length (file_pwrite (blk f bs v) (nat off) xs)"
    using l o unfolding blk_def by (auto simp: max_def)
  show "blk (file_pwrite f (nat (v * bs + off)) xs) bs v = file_pwrite (blk f bs v) (nat off) xs"
  proof (rule nth_equalityI [OF len])
    fix i assume i: "i < length (blk (file_pwrite f (nat (v * bs + off)) xs) bs v)"
    then have i': "i < nat bs" "nat (v * bs) + i < length f" using l by (auto simp: blk_def)
    have ib: "i < length (file_pwrite (blk f bs v) (nat off) xs)" using i len by simp
    let ?j = "nat (v * bs) + i"
    have j: "?j < length (file_pwrite f (nat (v * bs + off)) xs)" using i' by (auto simp: max_def)
    have "blk (file_pwrite f (nat (v * bs + off)) xs) bs v ! i = file_pwrite f (nat (v * bs + off)) xs ! ?j"
      unfolding blk_def using i'(1) j by (rule file_pread_nth)
    also have "\<dots> = (if nat off \<le> i \<and> i < nat off + length xs then xs ! (i - nat off) else f ! ?j)"
      using file_pwrite_nth [OF j] i'(2) unfolding p by auto
    also have "f ! ?j = blk f bs v ! i" unfolding blk_def using i' file_pread_nth [of i "nat bs" "nat (v * bs)" f] by simp
    also have "(if nat off \<le> i \<and> i < nat off + length xs then xs ! (i - nat off) else blk f bs v ! i) = file_pwrite (blk f bs v) (nat off) xs ! i"
      using file_pwrite_nth [OF ib] i'(1) \<open>length (blk f bs v) = nat bs\<close> by simp
    finally show "blk (file_pwrite f (nat (v * bs + off)) xs) bs v ! i = file_pwrite (blk f bs v) (nat off) xs ! i" .
  qed
  show "has_blk (file_pwrite f (nat (v * bs + off)) xs) bs v" using h by (auto simp: has_blk_def max_def)
qed

lemma blk_write_whole:
  assumes "0 \<le> v" "0 < bs" "int (length xs) = bs"
  shows "blk (file_pwrite f (nat (v * bs)) xs) bs v = xs" "has_blk (file_pwrite f (nat (v * bs)) xs) bs v"
proof -
  have "nat bs = length xs" "xs \<noteq> []" using assms by auto
  then show "blk (file_pwrite f (nat (v * bs)) xs) bs v = xs" by (simp add: blk_def file_pread_pwrite_same)
  have "(v + 1) * bs = v * bs + int (length xs)" using assms by (simp add: algebra_simps)
  then show "has_blk (file_pwrite f (nat (v * bs)) xs) bs v" using assms \<open>xs \<noteq> []\<close> by (auto simp: has_blk_def max_def)
qed

section \<open>Reading and writing\<close>

text \<open>An access of \<open>n\<close> bytes at \<open>off\<close>, where 0 bytes stand for the whole block.\<close>

definition in_blk :: "cfile \<Rightarrow> int \<Rightarrow> int \<Rightarrow> bool" where
  "in_blk cf off n \<longleftrightarrow> 0 \<le> off \<and> 0 \<le> n \<and> (if n = 0 then off = 0 else off + n \<le> bsize cf)"

definition blk_len :: "cfile \<Rightarrow> int \<Rightarrow> nat" where
  "blk_len cf n = nat (if n = 0 then bsize cf else n)"

lemma in_blk_len: "in_blk cf off n \<Longrightarrow> 0 < bsize cf \<Longrightarrow> 0 \<le> off \<and> off + int (blk_len cf n) \<le> bsize cf"
  by (auto simp: in_blk_def blk_len_def split: if_splits)

lemma pread_blk:
  assumes "0 \<le> v" "0 \<le> off" "off + int n \<le> bs"
  shows "file_pread f (nat (v * bs + off)) n = file_pread (blk f bs v) (nat off) n"
proof -
  have p: "nat (v * bs + off) = nat off + nat (v * bs)" using assms by (simp add: nat_add_distrib)
  have "min n (nat bs - nat off) = n" using assms by linarith
  then show ?thesis unfolding p by (simp add: blk_def file_pread_def drop_take min.commute)
qed

lemma cf_read_spec:
  assumes ok: "shadow_ok w r cf" and no: "0 \<le> no" and b: "in_blk cf off n"
  shows "\<exists>cf'. cf_read cf no off n =
      Some (case shadow cf no of None \<Rightarrow> (0, [], cf') | Some bs \<Rightarrow> (1, file_pread bs (nat off) (blk_len cf n), cf')) \<and>
    shadow_ok w r cf' \<and> shadow cf' = shadow cf \<and> rmfc cf' = rmfc cf \<and> bsize cf' = bsize cf"
proof -
  let ?l = "cf\<lparr>cf_locked := True\<rparr>"
  have inv: "shadow_inv w r cf" and un: "\<not> cf_locked cf" using ok by (auto simp: shadow_ok_def)
  have "io_same cf ?l" by (simp add: io_same_def)
  note s = io_same_simps [OF this]
  obtain cf1 v where l: "cf_lookup ?l no = Some (if shadow_map cf no = None then 0 else 1, v, cf1)" "shadow_map cf no \<noteq> None \<longrightarrow> shadow_map cf no = Some v"
    "shadow_inv w r cf1" "shadow_map cf1 = shadow_map cf" "shadow_step ?l cf1"
    using cf_lookup_spec [OF shadow_buffer(1) [OF inv] no] unfolding shadow_buffer(2) [OF inv] by blast
  define cf2 where "cf2 = cf_unlock cf1"
  have "io_same cf1 cf2" by (simp add: io_same_def cf2_def cf_unlock_def)
  note s2 = io_same_simps [OF this]
  have i2: "shadow_inv w r cf2" "shadow_map cf2 = shadow_map cf"
    using shadow_buffer(1,2) [OF l(3), of False] l(4) by (simp_all add: cf2_def cf_unlock_def)
  have c2: "bsize cf2 = bsize cf" "blockc cf2 = blockc cf" "rmfc cf2 = rmfc cf" "cf_iobuf cf2 = cf_iobuf cf" "\<not> cf_locked cf2"
    using l(5) s s2 by (auto simp: shadow_step_def cf2_def cf_unlock_def)
  have ok2: "shadow_ok w r cf2" using ok i2 c2 by (simp add: shadow_ok_def)
  have sh2: "shadow cf2 = shadow cf" by (simp add: shadow_def fun_eq_iff i2 c2)
  have lk: "cf_lock cf = Some ?l" using un by (simp add: cf_lock_def)
  show ?thesis
  proof (cases "shadow_map cf no")
    case None
    then have "cf_read cf no off n = Some (0, [], cf2)" using lk l(1) by (simp add: cf_read_def cf2_def)
    then show ?thesis using None ok2 sh2 c2 by (intro exI [of _ cf2]) (simp add: shadow_def)
  next
    case (Some u)
    then have v: "shadow_map cf no = Some v" using l(2) by simp
    have vr: "0 < v" using shadow_map_range [OF inv v] by simp
    have bs: "0 < bsize cf" using io_okD [OF shadow_inv_io [OF inv]] by simp
    have hb: "has_blk (blockc cf) (bsize cf) v" using ok v by (simp add: shadow_ok_def)
    let ?bs = "file_pread (blockc cf) (nat (v * bsize cf + off)) (blk_len cf n)"
    note ib = in_blk_len [OF b bs]
    have full: "?bs = file_pread (blk (blockc cf) (bsize cf) v) (nat off) (blk_len cf n)" using ib vr by (intro pread_blk) auto
    have "blk_len cf n \<le> nat (bsize cf) - nat off" using ib by linarith
    then have "length ?bs = blk_len cf n" using blk_length [OF _ _ hb] vr bs full by simp
    then obtain cf3 where r: "block_read cf2 v off n = Some (1, ?bs, cf3)" "kept w r cf2 cf3" "hashc cf3 = hashc cf2" "blockc cf3 = blockc cf" "rmfc cf3 = rmfc cf"
      using block_read_spec [OF shadow_inv_io [OF i2(1)], of v off n ?bs] b vr unfolding c2 by (auto simp: in_blk_def blk_len_def)
    have k: "bsize cf3 = bsize cf" "cf_iobuf cf3 = cf_iobuf cf" "\<not> cf_locked cf3" using r(2) c2 by (auto simp: kept_def core_def)
    have "shadow_ok w r cf3" using shadow_kept [OF i2(1) r(2,3)] i2(2) k r(4) ok by (simp add: shadow_ok_def)
    moreover have "shadow cf3 = shadow cf" using shadow_kept(2) [OF i2(1) r(2,3)] i2(2) k r(4) by (simp add: shadow_def fun_eq_iff)
    moreover have "cf_read cf no off n = Some (1, ?bs, cf3)" using lk l(1) v r(1) by (simp add: cf_read_def cf2_def)
    ultimately show ?thesis using v full k r(5) by (intro exI [of _ cf3]) (simp add: shadow_def)
  qed
qed

text \<open>Writing to the block of an entry of the table.\<close>

lemma block_write_shadow:
  assumes inv: "shadow_inv True r cf" and un: "\<not> cf_locked cf" "int (length (cf_iobuf cf)) = bsize cf"
    and m: "shadow_map cf no = Some v" and b: "in_blk cf off n" and buf: "blk_len cf n \<le> length buf"
    and old: "\<And>n' u. shadow_map cf n' = Some u \<Longrightarrow> n' \<noteq> no \<Longrightarrow> has_blk (blockc cf) (bsize cf) u"
    and now: "has_blk (blockc cf) (bsize cf) v \<or> n = 0"
    and img: "img = (if n = 0 then take (nat (bsize cf)) buf else file_pwrite (blk (blockc cf) (bsize cf) v) (nat off) (take (nat n) buf))"
  shows "\<exists>cf'. block_write cf v off n buf = Some (0, cf') \<and> shadow_ok True r cf' \<and> shadow cf' = (shadow cf)(no \<mapsto> img) \<and> rmfc cf' = rmfc cf \<and>
    bsize cf' = bsize cf \<and> cf_head cf' = cf_head cf"
proof -
  have v: "0 < v" using shadow_map_range [OF inv m] by simp
  have bs: "0 < bsize cf" using io_okD [OF shadow_inv_io [OF inv]] by simp
  note ib = in_blk_len [OF b bs]
  let ?xs = "take (blk_len cf n) buf"
  obtain cf' where w: "block_write cf v off n buf = Some (0, cf')" "kept True r cf cf'" "blockc cf' = file_pwrite (blockc cf) (nat (v * bsize cf + off)) ?xs"
    "hashc cf' = hashc cf" "rmfc cf' = rmfc cf"
    using block_write_spec [OF shadow_inv_io [OF inv], of v off n buf] v b buf by (auto simp: in_blk_def blk_len_def)
  have k: "bsize cf' = bsize cf" "cf_iobuf cf' = cf_iobuf cf" "cf_locked cf' = cf_locked cf" "cf_head cf' = cf_head cf" using w(2) by (auto simp: kept_def core_def)
  note sk = shadow_kept [OF inv w(2,4)]
  have len: "length ?xs = blk_len cf n" using buf by simp
  have o: "0 \<le> off" "off + int (length ?xs) \<le> bsize cf" using ib len by auto
  have same: "blk (blockc cf') (bsize cf) v = img \<and> has_blk (blockc cf') (bsize cf) v"
  proof (cases "n = 0")
    case True
    have "off = 0" using b True by (simp add: in_blk_def)
    moreover have "int (length ?xs) = bsize cf" using len True bs by (simp add: blk_len_def)
    ultimately show ?thesis using blk_write_whole [of v "bsize cf" ?xs "blockc cf"] v bs True unfolding w(3) img by (simp add: blk_len_def)
  next
    case False
    then show ?thesis using blk_write_part [OF _ _ o, of v "blockc cf"] now v bs unfolding w(3) img by (simp add: blk_len_def)
  qed
  have other: "blk (blockc cf') (bsize cf) u = blk (blockc cf) (bsize cf) u \<and> has_blk (blockc cf') (bsize cf) u"
    if u: "shadow_map cf n' = Some u" "n' \<noteq> no" for n' u
  proof -
    have "u \<noteq> v" using u m inj_onD [OF shadow_map_inj [OF inv], of n' no] by auto
    then show ?thesis
      using blk_write_other [OF _ _ _ _ o, of v u "blockc cf"] old [OF u] v bs shadow_map_range(2) [OF inv u(1)] unfolding w(3) by simp
  qed
  have "has_blk (blockc cf') (bsize cf) u" if "shadow_map cf n' = Some u" for n' u
    using that same other m by (cases "n' = no") auto
  then have "shadow_ok True r cf'" using sk un k by (simp add: shadow_ok_def)
  moreover have "shadow cf' = (shadow cf)(no \<mapsto> img)"
  proof
    fix n' show "shadow cf' n' = ((shadow cf)(no \<mapsto> img)) n'"
      using m same other [of n'] k(1) sk(2) by (cases "shadow_map cf n'") (auto simp: shadow_def)
  qed
  ultimately show ?thesis using w k by blast
qed

text \<open>Writing the whole of a block that the table has just got.\<close>

lemma block_write_fresh:
  assumes hb: "\<forall>n' u. shadow_map cf n' = Some u \<longrightarrow> has_blk (blockc cf) (bsize cf) u"
    and c: "shadow_inv True r c" "shadow_map c = (shadow_map cf)(no \<mapsto> v)" "\<not> cf_locked c" "int (length (cf_iobuf c)) = bsize cf"
        "bsize c = bsize cf" "blockc c = blockc cf" "rmfc c = rmfc cf" "cf_head c = hh" and d: "nat (bsize cf) \<le> length d"
  shows "\<exists>cf'. block_write c v 0 0 d = Some (0, cf') \<and> shadow_ok True r cf' \<and> shadow cf' = (shadow cf)(no \<mapsto> take (nat (bsize cf)) d) \<and>
    rmfc cf' = rmfc cf \<and> bsize cf' = bsize cf \<and> cf_head cf' = hh"
proof -
  have "\<exists>cf'. block_write c v 0 0 d = Some (0, cf') \<and> shadow_ok True r cf' \<and> shadow cf' = (shadow c)(no \<mapsto> take (nat (bsize c)) d) \<and>
    rmfc cf' = rmfc c \<and> bsize cf' = bsize c \<and> cf_head cf' = cf_head c"
    using c d hb by (intro block_write_shadow) (auto simp: in_blk_def blk_len_def)
  moreover have "(shadow c)(no \<mapsto> x) = (shadow cf)(no \<mapsto> x)" for x by (simp add: fun_eq_iff shadow_def c)
  ultimately show ?thesis using c by simp
qed

text \<open>What the rest of a block is when a part of it is written for the first time: the block of the original, and
  what the block buffer happens to hold where that one ends.\<close>

definition base_blk :: "cfile \<Rightarrow> int \<Rightarrow> byte list" where
  "base_blk cf no = overlay (blk (rmfc cf) (bsize cf) no) (cf_iobuf cf)"

lemma copy_into_pwrite:
  assumes "0 \<le> off" "0 < n" "off + n \<le> int (length base)" "nat n \<le> length buf"
  shows "copy_into base off n buf = Some (file_pwrite base (nat off) (take (nat n) buf))"
proof -
  have "nat off + nat n = nat (off + n)" "nat n \<noteq> 0" using assms by auto
  then show ?thesis using assms by (auto simp: copy_into_def file_pwrite_def Let_def min_def)
qed

lemma cf_write_spec:
  assumes ok: "shadow_ok True r cf" and room: "room_ok cf no" and b: "in_blk cf off n" and buf: "blk_len cf n \<le> length buf"
  shows "\<exists>cf'. cf_write cf no off n buf = Some (0, cf') \<and> shadow_ok True r cf' \<and>
    shadow cf' = (shadow cf)(no \<mapsto>
      (if n = 0 then take (nat (bsize cf)) buf
       else file_pwrite (case shadow cf no of Some bs \<Rightarrow> bs | None \<Rightarrow> base_blk cf no) (nat off) (take (nat n) buf))) \<and>
    rmfc cf' = rmfc cf \<and> bsize cf' = bsize cf \<and> ch_next_block (cf_head cf') \<le> ch_next_block (cf_head cf) + 1"
proof -
  let ?l = "cf\<lparr>cf_locked := True\<rparr>"
  have inv: "shadow_inv True r cf" and un: "\<not> cf_locked cf" and io: "int (length (cf_iobuf cf)) = bsize cf" using ok by (auto simp: shadow_ok_def)
  have no: "0 \<le> no" using room by (simp add: room_ok_def)
  have "io_same cf ?l" by (simp add: io_same_def)
  note s = io_same_simps [OF this]
  obtain cf1 v where l: "cf_lookup ?l no = Some (if shadow_map cf no = None then 0 else 1, v, cf1)" "shadow_map cf no \<noteq> None \<longrightarrow> shadow_map cf no = Some v"
    "shadow_inv True r cf1" "shadow_map cf1 = shadow_map cf" "shadow_step ?l cf1" "cf_head cf1 = cf_head cf"
    using cf_lookup_spec [OF shadow_buffer(1) [OF inv] no] unfolding shadow_buffer(2) [OF inv] by force
  have c1: "bsize cf1 = bsize cf" "blockc cf1 = blockc cf" "rmfc cf1 = rmfc cf" "cf_iobuf cf1 = cf_iobuf cf"
    using l(5) s by (auto simp: shadow_step_def)
  have bs: "0 < bsize cf" using io_okD [OF shadow_inv_io [OF inv]] by simp
  have lk: "cf_lock cf = Some ?l" using un by (simp add: cf_lock_def)
  have ul: "io_same c (cf_unlock c)" for c by (simp add: io_same_def cf_unlock_def)
  have hb: "has_blk (blockc cf) (bsize cf) u" if "shadow_map cf n' = Some u" for n' u using ok that by (simp add: shadow_ok_def)
  show ?thesis
  proof (cases "shadow_map cf no")
    case (Some u)
    then have v: "shadow_map cf no = Some v" using l(2) by simp
    let ?cf = "cf_unlock cf1"
    note s2 = io_same_simps [OF ul [of cf1]]
    have i2: "shadow_inv True r ?cf" "shadow_map ?cf = shadow_map cf" "\<not> cf_locked ?cf" "cf_iobuf ?cf = cf_iobuf cf" "cf_head ?cf = cf_head cf"
      using shadow_buffer(1,2) [OF l(3), of False] l(4,6) c1 by (simp_all add: cf_unlock_def)
    have sh: "shadow ?cf = shadow cf" by (simp add: shadow_def fun_eq_iff i2 s2 c1)
    have "\<exists>cf'. block_write ?cf v off n buf = Some (0, cf') \<and> shadow_ok True r cf' \<and> shadow cf' = (shadow ?cf)(no \<mapsto>
       (if n = 0 then take (nat (bsize cf)) buf else file_pwrite (blk (blockc cf) (bsize cf) v) (nat off) (take (nat n) buf))) \<and> rmfc cf' = rmfc ?cf \<and>
       bsize cf' = bsize ?cf \<and> cf_head cf' = cf_head ?cf"
      using i2 v io b buf hb s2 c1 by (intro block_write_shadow) (auto simp: in_blk_def blk_len_def)
    then show ?thesis using lk l(1) v sh i2(5) s2 c1 by (auto simp: cf_write_def shadow_def)
  next
    case None
    let ?nv = "ch_next_block (cf_head cf)"
    have "room_ok cf1 no" using room l(6) by (simp add: room_ok_def)
    then obtain cf2 where n: "cf_new cf1 no = Some (?nv, cf2)" "shadow_inv True r cf2" "shadow_map cf2 = (shadow_map cf)(no \<mapsto> ?nv)"
      "shadow_step cf1 cf2" "ch_next_block (cf_head cf2) = ?nv + 1"
      using cf_new_spec [OF l(3)] None l(4,6) by auto
    have c2: "bsize cf2 = bsize cf" "blockc cf2 = blockc cf" "rmfc cf2 = rmfc cf" "cf_iobuf cf2 = cf_iobuf cf"
      using n(4) c1 by (auto simp: shadow_step_def)
    have nv: "0 < ?nv" using shadow_map_range(2) [OF n(2), of no ?nv] n(3) by simp
    have "\<forall>n' u. shadow_map cf n' = Some u \<longrightarrow> has_blk (blockc cf) (bsize cf) u" using hb by blast
    note wr = block_write_fresh [OF this]
    show ?thesis
    proof (cases "n = 0")
      case True
      then have "off = 0" using b by (simp add: in_blk_def)
      let ?cf = "cf_unlock cf2"
      note s3 = io_same_simps [OF ul [of cf2]]
      have "shadow_inv True r ?cf" "shadow_map ?cf = (shadow_map cf)(no \<mapsto> ?nv)" "\<not> cf_locked ?cf" "int (length (cf_iobuf ?cf)) = bsize cf"
          "bsize ?cf = bsize cf" "blockc ?cf = blockc cf" "rmfc ?cf = rmfc cf" "cf_head ?cf = cf_head cf2"
        using shadow_buffer(1,2) [OF n(2), of False] n(3) c2 io s3 by (simp_all add: cf_unlock_def)
      from wr [OF this, of buf] obtain cf' where "block_write ?cf ?nv 0 0 buf = Some (0, cf')" "shadow_ok True r cf'" "shadow cf' = (shadow cf)(no \<mapsto> take (nat (bsize cf)) buf)"
        "rmfc cf' = rmfc cf" "bsize cf' = bsize cf" "cf_head cf' = cf_head cf2"
        using buf True by (auto simp: blk_len_def)
      then show ?thesis using lk l(1) None n(1,5) nv True \<open>off = 0\<close> by (intro exI [of _ cf']) (simp add: cf_write_def)
    next
      case False
      let ?rb = "blk (rmfc cf) (bsize cf) no"
      obtain cf3 rv where rd: "rmf_read cf2 no 0 0 = Some (rv, ?rb, cf3)" "rv \<noteq> - 1" "kept True r cf2 cf3" "hashc cf3 = hashc cf2" "blockc cf3 = blockc cf" "rmfc cf3 = rmfc cf"
        using rmf_read_spec [OF shadow_inv_io [OF n(2)], of no 0 0 ?rb] no unfolding c2 by (auto simp: blk_def)
      have c3: "bsize cf3 = bsize cf" "cf_iobuf cf3 = cf_iobuf cf" "cf_head cf3 = cf_head cf2" using rd(3) c2 by (auto simp: kept_def core_def)
      note sk = shadow_kept [OF n(2) rd(3,4)]
      have "length ?rb \<le> nat (bsize cf)" by (simp add: blk_def)
      then have len: "int (length (base_blk cf no)) = bsize cf" using io bs by (auto simp: base_blk_def overlay_def)
      let ?img = "file_pwrite (base_blk cf no) (nat off) (take (nat n) buf)"
      have ob: "0 \<le> off" "0 < n" "off + n \<le> bsize cf" "nat n \<le> length buf" using b buf False by (auto simp: in_blk_def blk_len_def)
      have cp: "copy_into (overlay ?rb (cf_iobuf cf3)) off n buf = Some ?img"
        using copy_into_pwrite [of off n "base_blk cf no" buf] ob len c3(2) by (simp add: base_blk_def)
      have il: "int (length ?img) = bsize cf" using ob len by (auto simp: max_def)
      let ?c3 = "cf3\<lparr>cf_iobuf := ?img\<rparr>" and ?cf = "cf_unlock (cf3\<lparr>cf_iobuf := ?img\<rparr>)"
      have i3: "shadow_inv True r ?c3" "shadow_map ?c3 = (shadow_map cf)(no \<mapsto> ?nv)" using shadow_buffer(3,4) [OF sk(1)] sk(2) n(3) by simp_all
      have "io_same cf3 ?c3" by (simp add: io_same_def)
      note s3 = io_same_simps [OF this] io_same_simps [OF ul [of ?c3]]
      have u: "shadow_inv True r ?cf" "shadow_map ?cf = (shadow_map cf)(no \<mapsto> ?nv)" "\<not> cf_locked ?cf" "int (length (cf_iobuf ?cf)) = bsize cf"
          "bsize ?cf = bsize cf" "blockc ?cf = blockc cf" "rmfc ?cf = rmfc cf" "cf_head ?cf = cf_head cf2"
        using shadow_buffer(1,2) [OF i3(1), of False] i3(2) c3 rd(5,6) s3 il by (simp_all add: cf_unlock_def)
      have "nat (bsize cf) \<le> length ?img" "take (nat (bsize cf)) ?img = ?img" using il by auto
      with wr [OF u, of ?img] obtain cf' where "block_write ?cf ?nv 0 0 ?img = Some (0, cf')" "shadow_ok True r cf'" "shadow cf' = (shadow cf)(no \<mapsto> ?img)"
        "rmfc cf' = rmfc cf" "bsize cf' = bsize cf" "cf_head cf' = cf_head cf2"
        by auto
      moreover have "shadow cf no = None" using None by (simp add: shadow_def)
      ultimately show ?thesis using lk l(1) None n(1,5) nv False rd(1,2) cp by (intro exI [of _ cf']) (simp add: cf_write_def)
    qed
  qed
qed

end
