(* ===== verification/Commit_Shadow.thy ===== *)
theory Commit_Shadow
  imports Cfile_Shadow Commit
begin

text \<open>
  Committing a shadow: every block of the shadow is copied to its place in the original, whichever table maps
  it, and no other block of the original changes.
\<close>

section \<open>Copying a list of blocks\<close>

definition copy_blocks :: "byte list \<Rightarrow> int \<Rightarrow> (int \<times> int) list \<Rightarrow> byte list \<Rightarrow> byte list" where
  "copy_blocks B bs es f = fold (\<lambda>(n, v) f. file_pwrite f (nat (n * bs)) (blk B bs v)) es f"

lemma copy_blocks_simps [simp]:
  "copy_blocks B bs [] f = f"
  "copy_blocks B bs (e # es) f = copy_blocks B bs es (file_pwrite f (nat (fst e * bs)) (blk B bs (snd e)))"
  "copy_blocks B bs (xs @ ys) f = copy_blocks B bs ys (copy_blocks B bs xs f)"
  by (simp_all add: copy_blocks_def case_prod_unfold)

definition copyable :: "byte list \<Rightarrow> int \<Rightarrow> (int \<times> int) list \<Rightarrow> bool" where
  "copyable B bs es \<longleftrightarrow> (\<forall>(n, v)\<in>set es. 0 \<le> n \<and> 0 \<le> v \<and> has_blk B bs v)"

lemma copyable_simps [simp]:
  "copyable B bs []" "copyable B bs (e # es) \<longleftrightarrow> 0 \<le> fst e \<and> 0 \<le> snd e \<and> has_blk B bs (snd e) \<and> copyable B bs es"
  "copyable B bs (xs @ ys) \<longleftrightarrow> copyable B bs xs \<and> copyable B bs ys"
  by (auto simp: copyable_def)

lemma copy_one:
  assumes "0 < bs" "0 \<le> n" "0 \<le> v" "has_blk B bs v" "0 \<le> m" "m \<noteq> n" "has_blk f bs m"
  shows "blk (file_pwrite f (nat (n * bs)) (blk B bs v)) bs m = blk f bs m" "has_blk (file_pwrite f (nat (n * bs)) (blk B bs v)) bs m"
  using blk_write_other [of n m bs 0 "blk B bs v" f] blk_length [of v bs B] assms by auto

lemma copy_blocks_other:
  assumes "0 < bs" "copyable B bs es" "0 \<le> m" "m \<notin> fst ` set es" "has_blk f bs m"
  shows "blk (copy_blocks B bs es f) bs m = blk f bs m \<and> has_blk (copy_blocks B bs es f) bs m"
  using assms
proof (induction es arbitrary: f)
  case (Cons e es)
  then show ?case using copy_one [of bs "fst e" "snd e" B m f] by simp
qed simp

lemma copy_blocks_entry:
  assumes "0 < bs" "copyable B bs es" "distinct (map fst es)" "(n, v) \<in> set es"
  shows "blk (copy_blocks B bs es f) bs n = blk B bs v \<and> has_blk (copy_blocks B bs es f) bs n"
  using assms
proof (induction es arbitrary: f)
  case (Cons e es)
  show ?case
  proof (cases "e = (n, v)")
    case True
    have "int (length (blk B bs v)) = bs" using blk_length [of v bs B] Cons.prems(1,2) True by simp
    then have w: "blk (file_pwrite f (nat (n * bs)) (blk B bs v)) bs n = blk B bs v" "has_blk (file_pwrite f (nat (n * bs)) (blk B bs v)) bs n"
      using blk_write_whole [of n bs "blk B bs v" f] Cons.prems(1,2) True by simp_all
    then show ?thesis using copy_blocks_other [OF Cons.prems(1) _ _ _ w(2)] Cons.prems(2,3) True by (auto simp: image_iff)
  qed (use Cons in auto)
qed simp

section \<open>Committing a list of entries\<close>

text \<open>The effect of committing the entries \<open>es\<close>: the original is written, and all the rest stays.\<close>

definition commits :: "bool \<Rightarrow> (int \<times> int) list \<Rightarrow> cfile \<Rightarrow> cfile \<Rightarrow> bool" where
  "commits w es cf cf' \<longleftrightarrow> io_ok w True cf' \<and> hashc cf' = hashc cf \<and> blockc cf' = blockc cf \<and> bsize cf' = bsize cf \<and> cf_head cf' = cf_head cf \<and>
     cf_array cf' = cf_array cf \<and> cf_buckets cf' = cf_buckets cf \<and> cf_max_bucket_in_memory cf' = cf_max_bucket_in_memory cf \<and>
     cf_locked cf' = cf_locked cf \<and> int (length (cf_iobuf cf')) = bsize cf \<and> rmfc cf' = copy_blocks (blockc cf) (bsize cf) es (rmfc cf)"

lemma commits_append: "commits w xs a b \<Longrightarrow> commits w ys b c \<Longrightarrow> commits w (xs @ ys) a c"
  by (simp add: commits_def)

lemma commits_kept:
  assumes "kept w True cf cf'" "hashc cf' = hashc cf" "blockc cf' = blockc cf" "rmfc cf' = rmfc cf" "int (length (cf_iobuf cf)) = bsize cf"
  shows "commits w [] cf cf'"
  using assms by (auto simp: commits_def kept_def core_def)

lemma commit_block_spec:
  assumes io: "io_ok w True cf" and l: "int (length (cf_iobuf cf)) = bsize cf" and c: "copyable (blockc cf) (bsize cf) [(n, v)]"
  shows "\<exists>cf'. commit_block cf v n = Some (0, cf') \<and> commits w [(n, v)] cf cf'"
proof -
  have bs: "0 < bsize cf" using io_okD [OF io] by simp
  let ?b = "blk (blockc cf) (bsize cf) v"
  have c: "0 \<le> n" "0 \<le> v" "has_blk (blockc cf) (bsize cf) v" using c by simp_all
  have len: "length ?b = nat (bsize cf)" using blk_length [OF c(2) _ c(3)] bs by simp
  obtain cf1 where r: "block_read cf v 0 0 = Some (1, ?b, cf1)" "kept w True cf cf1" "hashc cf1 = hashc cf" "blockc cf1 = blockc cf" "rmfc cf1 = rmfc cf"
    using block_read_spec [OF io, of v 0 0 ?b] c len by (auto simp: blk_def)
  have ov: "overlay ?b (cf_iobuf cf1) = ?b" using r(2) len l by (auto simp: overlay_def kept_def core_def)
  let ?cf = "cf1\<lparr>cf_iobuf := ?b\<rparr>"
  have "io_same cf1 ?cf" by (simp add: io_same_def)
  note s = io_same_simps [OF this]
  have k1: "io_ok w True cf1" "bsize cf1 = bsize cf" using r(2) by (auto simp: kept_def core_def)
  obtain cf2 where w2: "rmf_write ?cf n 0 0 ?b = Some (0, cf2)" "kept w True ?cf cf2"
    "rmfc cf2 = file_pwrite (rmfc ?cf) (nat (n * bsize ?cf)) (take (nat (bsize ?cf)) ?b)" "hashc cf2 = hashc ?cf" "blockc cf2 = blockc ?cf"
    using rmf_write_spec [of w ?cf n 0 0 ?b] c(1) k1 s len by auto
  have "commits w [(n, v)] cf cf2"
    using w2(2-5) r(2-5) s k1 len bs by (auto simp: commits_def kept_def core_def)
  moreover have "commit_block cf v n = Some (0, cf2)" using r(1) w2(1) ov by (simp add: commit_block_def)
  ultimately show ?thesis by blast
qed

lemma commit_entries_spec:
  assumes "io_ok w True cf" "int (length (cf_iobuf cf)) = bsize cf" "es = takeWhile (\<lambda>e. snd e \<noteq> 0) (zip ns vs)" "copyable (blockc cf) (bsize cf) es"
  shows "\<exists>cf'. commit_entries cf ns vs = Some (0, cf') \<and> commits w es cf cf'"
  using assms
proof (induction "zip ns vs" arbitrary: ns vs cf es)
  case Nil
  then show ?case by (cases ns; cases vs) (simp_all add: commits_def)
next
  case (Cons e zs)
  then obtain n v ns' vs' where l: "ns = n # ns'" "vs = v # vs'" "zs = zip ns' vs'" by (cases ns; cases vs) auto
  show ?case
  proof (cases "v = 0")
    case False
    define es' where "es' = takeWhile (\<lambda>e. snd e \<noteq> 0) (zip ns' vs')"
    have es: "es = [(n, v)] @ es'" using Cons.prems(3) False by (simp add: es'_def l)
    obtain cf1 where b: "commit_block cf v n = Some (0, cf1)" "commits w [(n, v)] cf cf1"
      using commit_block_spec [OF Cons.prems(1,2), of n v] Cons.prems(4) es by auto
    have b1: "io_ok w True cf1" "int (length (cf_iobuf cf1)) = bsize cf1" "copyable (blockc cf1) (bsize cf1) es'"
      using b(2) Cons.prems(4) es by (simp_all add: commits_def)
    obtain cf' where "commit_entries cf1 ns' vs' = Some (0, cf')" "commits w es' cf1 cf'" using Cons.hyps(1) [OF l(3) b1(1,2) es'_def b1(3)] by blast
    then show ?thesis using b(1) False commits_append [OF b(2), of es' cf'] es by (intro exI [of _ cf']) (simp add: l)
  qed (use Cons.prems l in \<open>simp add: commits_def\<close>)
qed

lemma commit_buckets_spec:
  assumes "io_ok w True cf" "int (length (cf_iobuf cf)) = bsize cf" "0 \<le> i"
    and "es = concat (map (\<lambda>b. ph_list (disk (hashc cf) b)) [i..i + int n - 1])" "copyable (blockc cf) (bsize cf) es"
    and "\<forall>b. i \<le> b \<and> b < i + int n \<longrightarrow> on_disk (hashc cf) b"
  shows "\<exists>cf'. commit_buckets n cf i = Some (0, cf') \<and> commits w es cf cf'"
  using assms
proof (induction n arbitrary: cf i es)
  case (Suc n)
  let ?p = "disk (hashc cf) i" and ?bs = "file_pread (hashc cf) (nat (i * 256)) 256"
  have full: "length ?bs = 256" using Suc.prems(3,6) by (auto simp: on_disk_def min_def)
  obtain cf1 where h: "hash_read cf i 0 0 = Some (1, ?bs, cf1)" "kept w True cf cf1" "hashc cf1 = hashc cf" "blockc cf1 = blockc cf" "rmfc cf1 = rmfc cf"
    using hash_read_spec [OF Suc.prems(1), of i 0 0 ?bs] Suc.prems(3) full by auto
  have c1: "commits w [] cf cf1" using commits_kept [OF h(2-5) Suc.prems(2)] .
  have up: "[i..i + int (Suc n) - 1] = i # [i + 1..i + 1 + int n - 1]" by (subst upto_rec1) (simp_all add: algebra_simps)
  define es2 where "es2 = concat (map (\<lambda>b. ph_list (disk (hashc cf) b)) [i + 1..i + 1 + int n - 1])"
  have es: "es = ph_list ?p @ es2" using Suc.prems(4) unfolding up es2_def by simp
  have s1: "io_ok w True cf1" "int (length (cf_iobuf cf1)) = bsize cf1" "copyable (blockc cf1) (bsize cf1) (ph_list ?p)"
    using c1 Suc.prems(5) es by (simp_all add: commits_def)
  obtain cf2 where m: "commit_entries cf1 (ph_no ?p) (ph_vno ?p) = Some (0, cf2)" "commits w (ph_list ?p) cf1 cf2"
    using commit_entries_spec [OF s1(1,2) _ s1(3), of "ph_no ?p" "ph_vno ?p"] by (auto simp: ph_list_def)
  have c2: "commits w (ph_list ?p) cf cf2" using commits_append [OF c1 m(2)] by simp
  have s2: "io_ok w True cf2" "int (length (cf_iobuf cf2)) = bsize cf2" "copyable (blockc cf2) (bsize cf2) es2" "hashc cf2 = hashc cf"
    using c2 Suc.prems(5) es by (simp_all add: commits_def)
  obtain cf' where i: "commit_buckets n cf2 (i + 1) = Some (0, cf')" "commits w es2 cf2 cf'"
    using Suc.IH [OF s2(1,2) _ _ s2(3), of "i + 1"] Suc.prems(3,6) s2(4) by (auto simp: es2_def)
  have "commit_buckets (Suc n) cf i = Some (0, cf')" using h(1) m(1) i(1) by (simp add: disk_def)
  then show ?case using commits_append [OF c2 i(2)] es by blast
qed (simp add: commits_def)

section \<open>The flat table\<close>

definition slot_val :: "cfile \<Rightarrow> int \<Rightarrow> int" where
  "slot_val cf no = zint_of_bytes (slot (hashc cf) (slot_pos cf no))"

definition flat_ents :: "cfile \<Rightarrow> int \<Rightarrow> nat \<Rightarrow> (int \<times> int) list" where
  "flat_ents cf vno n = filter (\<lambda>e. snd e \<noteq> 0) (map (\<lambda>no. (no, slot_val cf no)) [vno..vno + int n - 1])"

lemma flat_ents_split: "flat_ents cf vno (m + n) = flat_ents cf vno m @ flat_ents cf (vno + int m) n"
proof -
  have "[vno..vno + int (m + n) - 1] = [vno..vno + int m - 1] @ [vno + int m..vno + int (m + n) - 1]"
    using upto_split2 [of vno "vno + int m - 1" "vno + int (m + n) - 1"] by (cases "m = 0") simp_all
  then show ?thesis by (simp add: flat_ents_def algebra_simps)
qed

lemma commit_slots_spec:
  assumes "io_ok w True cf" "int (length (cf_iobuf cf)) = bsize cf" "fp = map (slot_val cf) [vno..vno + int n - 1]"
    and "copyable (blockc cf) (bsize cf) (flat_ents cf vno n)"
  shows "\<exists>cf'. commit_slots cf fp vno = Some (0, cf') \<and> commits w (flat_ents cf vno n) cf cf'"
  using assms
proof (induction n arbitrary: cf fp vno)
  case 0
  then show ?case by (simp add: flat_ents_def commits_def)
next
  case (Suc n)
  have up: "[vno..vno + int (Suc n) - 1] = vno # [vno + 1..vno + 1 + int n - 1]" by (subst upto_rec1) (simp_all add: algebra_simps)
  let ?f = "slot_val cf vno" and ?fp = "map (slot_val cf) [vno + 1..vno + 1 + int n - 1]"
  have fp: "fp = ?f # ?fp" using Suc.prems(3) unfolding up by simp
  define es1 where "es1 = (if ?f = 0 then [] else [(vno, ?f)])"
  have es: "flat_ents cf vno (Suc n) = es1 @ flat_ents cf (vno + 1) n" unfolding flat_ents_def up es1_def by simp
  obtain cf1 where b: "?f \<noteq> 0 \<longrightarrow> commit_block cf ?f vno = Some (0, cf1)" "commits w es1 cf cf1" "?f = 0 \<longrightarrow> cf1 = cf"
  proof (cases "?f = 0")
    case True
    then show ?thesis using that [of cf] Suc.prems(1,2) by (simp add: es1_def commits_def)
  next
    case False
    then show ?thesis using that commit_block_spec [OF Suc.prems(1,2), of vno ?f] Suc.prems(4) unfolding es by (auto simp: es1_def)
  qed
  have h: "hashc cf1 = hashc cf" "cf_head cf1 = cf_head cf" using b(2) by (simp_all add: commits_def)
  have sv: "slot_val cf1 = slot_val cf" by (simp add: fun_eq_iff slot_val_def slot_pos_def h)
  have fe: "flat_ents cf1 = flat_ents cf" by (simp add: fun_eq_iff flat_ents_def sv)
  have s1: "io_ok w True cf1" "int (length (cf_iobuf cf1)) = bsize cf1" "copyable (blockc cf1) (bsize cf1) (flat_ents cf1 (vno + 1) n)"
    using b(2) Suc.prems(4) unfolding es fe by (simp_all add: commits_def)
  obtain cf' where i: "commit_slots cf1 ?fp (vno + 1) = Some (0, cf')" "commits w (flat_ents cf (vno + 1) n) cf1 cf'"
    using Suc.IH [OF s1(1,2) _ s1(3)] unfolding sv fe by blast
  have "commit_slots cf fp vno = Some (0, cf')" using b(1,3) i(1) by (cases "?f = 0") (simp_all add: fp)
  then show ?case using commits_append [OF b(2) i(2)] unfolding es by blast
qed

lemma table_slots:
  assumes "0 \<le> hno"
  shows "zints_of_bytes 32 (overlay (file_pread H (nat (hno * 256)) 256) (replicate 256 0)) =
    map (\<lambda>i. zint_of_bytes (slot H (nat (hno * 256) + 8 * i))) [0..<32]"
proof -
  let ?O = "overlay (file_pread H (nat (hno * 256)) 256) (replicate 256 0)"
  have o: "?O ! j = (if nat (hno * 256) + j < length H then H ! (nat (hno * 256) + j) else 0)" if "j < 256" for j
    using that by (auto simp: overlay_def nth_append file_pread_nth min_def)
  have len: "length ?O = 256" by (simp add: overlay_def)
  have "take 8 (drop (8 * i) ?O) = slot H (nat (hno * 256) + 8 * i)" if i: "i < 32" for i
  proof (rule nth_equalityI)
    show "length (take 8 (drop (8 * i) ?O)) = length (slot H (nat (hno * 256) + 8 * i))" using i len by simp
    fix j assume "j < length (take 8 (drop (8 * i) ?O))"
    then have j: "j < 8" "8 * i + j < 256" using i len by auto
    have "take 8 (drop (8 * i) ?O) ! j = ?O ! (8 * i + j)" using j len by simp
    also have "\<dots> = slot H (nat (hno * 256) + 8 * i) ! j" using o [OF j(2)] slot_nth [OF j(1), of H "nat (hno * 256) + 8 * i"] by (simp add: add.assoc)
    finally show "take 8 (drop (8 * i) ?O) ! j = slot H (nat (hno * 256) + 8 * i) ! j" .
  qed
  then show ?thesis by (simp add: zints_of_bytes_def)
qed

lemma map_upto_nat: "map f [a..a + int n - 1] = map (\<lambda>i. f (a + int i)) [0..<n]"
  by (intro nth_equalityI) simp_all

lemma table_ents:
  assumes "0 < ch_next_bucket (cf_head cf)" "0 \<le> k" "hno = ch_next_bucket (cf_head cf) + k"
  shows "zints_of_bytes 32 (overlay (file_pread (hashc cf) (nat (hno * 256)) 256) (replicate 256 0)) =
    map (slot_val cf) [32 * k..32 * k + int 32 - 1]"
proof -
  have "nat (hno * 256) + 8 * i = slot_pos cf (32 * k + int i)" for i using assms by (auto simp: slot_pos_def)
  then show ?thesis using table_slots [of hno "hashc cf"] assms unfolding map_upto_nat by (simp add: slot_val_def)
qed

lemma commit_tables_spec:
  assumes "io_ok w True cf" "int (length (cf_iobuf cf)) = bsize cf" "0 < ch_next_bucket (cf_head cf)" "0 \<le> k"
    and "ch_next_bucket (cf_head cf) + k + int n = ch_flat_bucket (cf_head cf)" "(ch_flat_bucket (cf_head cf) - 1) * 256 < int (length (hashc cf)) \<or> n = 0"
    and "copyable (blockc cf) (bsize cf) (flat_ents cf (32 * k) (32 * n))"
  shows "\<exists>cf'. commit_tables n cf (ch_next_bucket (cf_head cf) + k) (32 * k) = Some (0, cf') \<and> commits w (flat_ents cf (32 * k) (32 * n)) cf cf'"
  using assms
proof (induction n arbitrary: cf k)
  case 0
  then show ?case by (simp add: flat_ents_def commits_def)
next
  case (Suc n)
  let ?nb = "ch_next_bucket (cf_head cf)"
  let ?hno = "?nb + k" and ?bs = "file_pread (hashc cf) (nat ((?nb + k) * 256)) 256"
  obtain cf1 ret where h: "hash_read cf ?hno 0 0 = Some (ret, ?bs, cf1)" "kept w True cf cf1" "hashc cf1 = hashc cf" "blockc cf1 = blockc cf" "rmfc cf1 = rmfc cf"
    "ret = (if length ?bs < 256 then 0 else 1)"
    using hash_read_spec [OF Suc.prems(1), of ?hno 0 0 ?bs] Suc.prems(3,4) by auto
  have c1: "commits w [] cf cf1" using commits_kept [OF h(2-5) Suc.prems(2)] .
  have short: "\<not> (ret = 0 \<and> ?hno \<noteq> ch_flat_bucket (cf_head cf1) - 1)"
  proof
    assume a: "ret = 0 \<and> ?hno \<noteq> ch_flat_bucket (cf_head cf1) - 1"
    have "cf_head cf1 = cf_head cf" using c1 by (simp add: commits_def)
    then have "?hno + 1 \<le> ch_flat_bucket (cf_head cf) - 1" using a Suc.prems(5) by auto
    then have "(?hno + 1) * 256 \<le> int (length (hashc cf))" using Suc.prems(6) by auto
    then have "length ?bs = 256" using Suc.prems(3,4) by auto
    then show False using a h(6) by simp
  qed
  have es: "flat_ents cf (32 * k) (32 * Suc n) = flat_ents cf (32 * k) 32 @ flat_ents cf (32 * (k + 1)) (32 * n)"
    using flat_ents_split [of cf "32 * k" 32 "32 * n"] by (simp add: algebra_simps)
  have hd1: "hashc cf1 = hashc cf" "cf_head cf1 = cf_head cf" using c1 by (simp_all add: commits_def)
  have sv: "slot_val cf1 = slot_val cf" by (simp add: fun_eq_iff slot_val_def slot_pos_def hd1)
  have s1: "io_ok w True cf1" "int (length (cf_iobuf cf1)) = bsize cf1" "copyable (blockc cf1) (bsize cf1) (flat_ents cf1 (32 * k) 32)"
    using c1 Suc.prems(7) unfolding es by (simp_all add: commits_def flat_ents_def sv)
  let ?fp = "zints_of_bytes 32 (overlay ?bs (replicate 256 0))"
  obtain cf2 where m: "commit_slots cf1 ?fp (32 * k) = Some (0, cf2)" "commits w (flat_ents cf1 (32 * k) 32) cf1 cf2"
    using commit_slots_spec [OF s1(1,2) _ s1(3), of ?fp] table_ents [OF Suc.prems(3,4) refl] sv by auto
  have c2: "commits w (flat_ents cf (32 * k) 32) cf cf2" using commits_append [OF c1 m(2)] by (simp add: flat_ents_def sv)
  have hd2: "hashc cf2 = hashc cf" "cf_head cf2 = cf_head cf" using c2 by (simp_all add: commits_def)
  have fe: "flat_ents cf2 = flat_ents cf" by (simp add: fun_eq_iff flat_ents_def slot_val_def slot_pos_def hd2)
  have s2: "io_ok w True cf2" "int (length (cf_iobuf cf2)) = bsize cf2" "copyable (blockc cf2) (bsize cf2) (flat_ents cf2 (32 * (k + 1)) (32 * n))"
    using c2 Suc.prems(7) unfolding es fe by (simp_all add: commits_def)
  obtain cf' where i: "commit_tables n cf2 (?nb + (k + 1)) (32 * (k + 1)) = Some (0, cf')" "commits w (flat_ents cf (32 * (k + 1)) (32 * n)) cf2 cf'"
    using Suc.IH [OF s2(1,2) _ _ _ _ s2(3)] Suc.prems(3-6) unfolding hd2 fe by auto
  have "commit_tables (Suc n) cf ?hno (32 * k) = Some (0, cf')"
    using h(1) short m(1) i(1) by (simp add: HASH_BSIZE_def algebra_simps)
  then show ?case using commits_append [OF c2 i(2)] unfolding es by blast
qed

section \<open>Committing the shadow\<close>

lemma flat_ents_set:
  assumes "flat_part w r cf" "n = nat (ch_flat_bucket (cf_head cf) - ch_next_bucket (cf_head cf))"
  shows "(no, v) \<in> set (flat_ents cf 0 (32 * n)) \<longleftrightarrow> flat_map cf no = Some v"
proof -
  have "no < 32 * int n" if "flat_map cf no = Some v"
  proof -
    have "no div 32 + ch_next_bucket (cf_head cf) < ch_flat_bucket (cf_head cf)" "0 \<le> no" using assms(1) that flat_map_nonneg by (auto simp: flat_part_def)
    then have "no div 32 < int n" using assms(2) by simp
    then show ?thesis by linarith
  qed
  moreover have "flat_map cf no = Some v \<longleftrightarrow> 0 \<le> no \<and> v \<noteq> 0 \<and> v = slot_val cf no"
    by (auto simp: flat_map_def slot_val_def Let_def)
  ultimately show ?thesis by (auto simp: flat_ents_def)
qed

lemma cf_commit_entries:
  assumes ok: "shadow_ok w True cf" and nb: "cf_buckets cf = []"
  shows "\<exists>es cf'. cf_commit cf = Some (0, cf') \<and> commits w es cf cf' \<and> distinct (map fst es) \<and>
    (\<forall>no v. (no, v) \<in> set es \<longleftrightarrow> shadow_map cf no = Some v) \<and> copyable (blockc cf) (bsize cf) es"
proof -
  have inv: "shadow_inv w True cf" and iob: "int (length (cf_iobuf cf)) = bsize cf" using ok by (auto simp: shadow_ok_def)
  note io = shadow_inv_io [OF inv]
  have cp: "copyable (blockc cf) (bsize cf) es" if "\<forall>no v. (no, v) \<in> set es \<longleftrightarrow> shadow_map cf no = Some v" for es
    using that shadow_map_range(1,2) [OF inv] ok by (force simp: copyable_def shadow_ok_def)
  show ?thesis
    using inv unfolding shadow_inv_def
  proof (elim disjE exE)
    fix ch assume h: "hash_ok w True ch cf"
    let ?fb = "ch_first_bucket (cf_head cf)" and ?nb = "ch_next_bucket (cf_head cf)"
    define n where "n = nat (?nb - ?fb)"
    note c = hash_ok_cache [OF h]
    have b: "0 < ?fb" "?fb + int n = ?nb" using cache_okD [OF c] by (auto simp: n_def)
    have es: "all_ents cf = concat (map (\<lambda>b. ph_list (disk (hashc cf) b)) [?fb..?fb + int n - 1])"
      using b nb by (simp add: all_ents_def cur_def bmem_def)
    have d: "distinct (map fst (all_ents cf))" using hash_okD(7) [OF h] by (simp add: ents_ok_def)
    then have s: "\<forall>no v. (no, v) \<in> set (all_ents cf) \<longleftrightarrow> shadow_map cf no = Some v"
      by (simp add: shadow_map_table(1) [OF h] cf_map_def)
    have "\<forall>b. ?fb \<le> b \<and> b < ?fb + int n \<longrightarrow> on_disk (hashc cf) b" using c nb b by (auto simp: cache_ok_def in_range_def bmem_def)
    then obtain cf' where "commit_buckets n cf ?fb = Some (0, cf')" "commits w (all_ents cf) cf cf'"
      using commit_buckets_spec [OF io iob _ es cp [OF s]] b by auto
    then show ?thesis using s d cp [OF s] nb h by (intro exI [of _ "all_ents cf"] exI [of _ cf']) (simp add: cf_commit_def cf_commit_hash_def n_def hash_ok_def)
  next
    assume f: "flat_ok w True cf"
    let ?n = "nat (ch_flat_bucket (cf_head cf) - ch_next_bucket (cf_head cf))"
    let ?es = "flat_ents cf 0 (32 * ?n)"
    have fp: "flat_part w True cf" using f by (simp add: flat_ok_def)
    have s: "\<forall>no v. (no, v) \<in> set ?es \<longleftrightarrow> shadow_map cf no = Some v" using flat_ents_set [OF fp refl] by (simp add: shadow_map_table(2) [OF f])
    have d: "distinct (map fst ?es)" by (simp add: flat_ents_def distinct_map_filter comp_def)
    obtain cf' where "commit_tables ?n cf (ch_next_bucket (cf_head cf)) 0 = Some (0, cf')" "commits w ?es cf cf'"
    proof (cases "?n = 0")
      case True
      then show ?thesis using that [of cf] io iob by (simp add: flat_ents_def commits_def)
    next
      case False
      then show ?thesis using that commit_tables_spec [OF io iob, of 0 ?n] cp [OF s] fp by (auto simp: flat_part_def)
    qed
    then show ?thesis using s d cp [OF s] nb state_values(2) [OF f]
      by (intro exI [of _ ?es] exI [of _ cf']) (simp add: cf_commit_def cf_commit_flat_def CFILE_STATE_HASH_def CFILE_STATE_FLAT_def)
  qed
qed

text \<open>What a reader of the original through the shadow sees.\<close>

definition view :: "cfile \<Rightarrow> int \<Rightarrow> byte list" where
  "view cf no = (case shadow cf no of Some b \<Rightarrow> b | None \<Rightarrow> blk (rmfc cf) (bsize cf) no)"

lemma cf_commit_spec:
  assumes ok: "shadow_ok w True cf" and nb: "cf_buckets cf = []"
  shows "\<exists>cf'. cf_commit cf = Some (0, cf') \<and> shadow_ok w True cf' \<and> shadow cf' = shadow cf \<and> bsize cf' = bsize cf \<and>
    (\<forall>no. shadow cf no \<noteq> None \<or> 0 \<le> no \<and> has_blk (rmfc cf) (bsize cf) no \<longrightarrow>
       has_blk (rmfc cf') (bsize cf) no \<and> blk (rmfc cf') (bsize cf) no = view cf no)"
proof -
  obtain es cf' where c: "cf_commit cf = Some (0, cf')" "commits w es cf cf'" "distinct (map fst es)"
    "\<forall>no v. (no, v) \<in> set es \<longleftrightarrow> shadow_map cf no = Some v" "copyable (blockc cf) (bsize cf) es"
    using cf_commit_entries [OF assms] by blast
  have inv: "shadow_inv w True cf" using ok by (simp add: shadow_ok_def)
  have k: "io_ok w True cf'" "hashc cf' = hashc cf" "cf_head cf' = cf_head cf" "cf_array cf' = cf_array cf" "cf_buckets cf' = cf_buckets cf"
    "cf_max_bucket_in_memory cf' = cf_max_bucket_in_memory cf" "bsize cf' = bsize cf" "blockc cf' = blockc cf"
    "cf_locked cf' = cf_locked cf" "int (length (cf_iobuf cf')) = bsize cf" "rmfc cf' = copy_blocks (blockc cf) (bsize cf) es (rmfc cf)"
    using c(2) by (simp_all add: commits_def)
  note s = shadow_cong [OF inv k(1-6)]
  have "shadow_ok w True cf'" using ok s k by (simp add: shadow_ok_def)
  moreover have "shadow cf' = shadow cf" by (simp add: fun_eq_iff shadow_def s k)
  moreover have bs: "0 < bsize cf" using io_okD [OF shadow_inv_io [OF inv]] by simp
  moreover have "has_blk (rmfc cf') (bsize cf) no \<and> blk (rmfc cf') (bsize cf) no = view cf no"
    if "shadow cf no \<noteq> None \<or> 0 \<le> no \<and> has_blk (rmfc cf) (bsize cf) no" for no
  proof (cases "shadow_map cf no")
    case None
    then have "no \<notin> fst ` set es" using c(4) by force
    then show ?thesis using None that copy_blocks_other [OF bs c(5)] k(11) by (simp add: shadow_def view_def)
  next
    case (Some v)
    then show ?thesis using copy_blocks_entry [OF bs c(5,3), of no v "rmfc cf"] c(4) k(11) by (simp add: shadow_def view_def)
  qed
  ultimately show ?thesis using c(1) k(7) by blast
qed

end
