(* ===== verification/Cfile_Open.thy ===== *)
theory Cfile_Open
  imports Commit_Shadow Mfile_Theorems
begin

text \<open>
  Opening a commit file: on a shadow area that does not know the file yet, \<^verbatim>\<open>cf_open\<close> creates the two
  metafiles, writes the header and the empty table, and yields a well formed commit file with an empty shadow.
\<close>

section \<open>Writing the table\<close>

lemma file_pwrite_join:
  assumes "a \<noteq> []"
  shows "file_pwrite (file_pwrite f p a) (p + length a) b = file_pwrite f p (a @ b)"
proof (cases "b = []")
  case False
  have len: "length (file_pwrite (file_pwrite f p a) (p + length a) b) = length (file_pwrite f p (a @ b))" using assms False by simp
  show ?thesis
  proof (rule nth_equalityI [OF len])
    fix i assume i: "i < length (file_pwrite (file_pwrite f p a) (p + length a) b)"
    have i2: "i < length (file_pwrite f p (a @ b))" using i len by simp
    show "file_pwrite (file_pwrite f p a) (p + length a) b ! i = file_pwrite f p (a @ b) ! i"
      using file_pwrite_nth [OF i] file_pwrite_nth [OF i2] file_pwrite_nth [of i f p a] assms by (auto simp: nth_append max_def)
  qed
qed (simp add: file_pwrite_def)

lemma write_head_loop_spec:
  assumes "io_ok True r cf" "0 \<le> b0"
  shows "\<exists>cf'. write_head_loop cf b0 tab = Some (0, cf') \<and> kept True r cf cf' \<and>
    hashc cf' = file_pwrite (hashc cf) (nat (b0 * 256)) tab \<and> blockc cf' = blockc cf \<and> rmfc cf' = rmfc cf"
  using assms
proof (induction "length tab" arbitrary: cf b0 tab rule: less_induct)
  case less
  show ?case
  proof (cases "256 \<le> length tab")
    case True
    let ?a = "take 256 tab" and ?b = "drop 256 tab"
    obtain cf1 where h: "hash_write cf b0 0 0 tab = Some (0, cf1)" "kept True r cf cf1" "hashc cf1 = file_pwrite (hashc cf) (nat (b0 * 256)) ?a"
      "blockc cf1 = blockc cf" "rmfc cf1 = rmfc cf"
      using hash_write_spec [OF less.prems(1), of b0 0 0 tab] less.prems(2) True by auto
    have len: "length ?b < length tab" using True by simp
    have "io_ok True r cf1" using h(2) by (simp add: kept_def)
    then obtain cf' where i: "write_head_loop cf1 (b0 + 1) ?b = Some (0, cf')" "kept True r cf1 cf'"
      "hashc cf' = file_pwrite (hashc cf1) (nat ((b0 + 1) * 256)) ?b" "blockc cf' = blockc cf1" "rmfc cf' = rmfc cf1"
      using less.hyps [of ?b cf1 "b0 + 1"] less.prems(2) True len by auto
    have "?a \<noteq> []" "length ?a = 256" using True by auto
    moreover have "nat ((b0 + 1) * 256) = nat (b0 * 256) + 256" using less.prems(2) by simp
    ultimately have "hashc cf' = file_pwrite (hashc cf) (nat (b0 * 256)) tab"
      using i(3) h(3) file_pwrite_join [of ?a "hashc cf" "nat (b0 * 256)" ?b] by simp
    then show ?thesis using True h i by (subst write_head_loop.simps) (simp add: HASH_BSIZE_def kept_def)
  next
    case False
    show ?thesis
    proof (cases "tab = []")
      case True
      then show ?thesis using less.prems by (subst write_head_loop.simps) (simp add: HASH_BSIZE_def kept_def file_pwrite_def)
    next
      case ne: False
      then show ?thesis using False hash_write_spec [OF less.prems(1), of b0 0 "int (length tab)" tab] less.prems(2)
        by (subst write_head_loop.simps) (auto simp: HASH_BSIZE_def)
    qed
  qed
qed

section \<open>An empty shadow\<close>

lemma empty_shadow:
  assumes io: "io_ok True r cf" and hd: "cf_head cf = new_head (bsize cf)" and c: "cf_array cf = Some (replicate 199 0)" "cf_buckets cf = []"
    "0 < cf_max_bucket_in_memory cf" "\<not> cf_locked cf" "int (length (cf_iobuf cf)) = bsize cf" and len: "length (hashc cf) \<le> 2048"
  shows "shadow_ok True r cf \<and> shadow cf = Map.empty"
proof -
  have h: "ch_first_bucket (cf_head cf) = 8" "ch_next_bucket (cf_head cf) = 8" "ch_flat_bucket (cf_head cf) = 8" "ch_next_block (cf_head cf) = 1"
    "ch_state (cf_head cf) = CFILE_STATE_HASH" "ch_hash_size (cf_head cf) = 199"
    by (simp_all add: hd new_head_def Let_def sizeof_head_def HASH_BSIZE_def)
  have rng: "in_range cf b = False" for b by (simp add: in_range_def h)
  have ae: "all_ents cf = []" by (simp add: all_ents_def h)
  have n: "hsize cf = 199" "table cf = replicate 199 0" by (simp_all add: hsize_def h table_def c)
  have "cache_ok True r cf" using io len unfolding cache_ok_def rng by (simp add: h c)
  moreover have "chains_ok (\<lambda>_. []) cf" unfolding chains_ok_def rng n by (simp add: h c)
  moreover have "ents_ok cf" by (simp add: ents_ok_def ae h)
  ultimately have ok: "hash_ok True r (\<lambda>_. []) cf" by (simp add: hash_ok_def h)
  have "shadow_map cf = Map.empty" by (simp add: shadow_map_table(1) [OF ok] cf_map_def ae)
  then show ?thesis using ok c by (auto simp: shadow_ok_def shadow_inv_def shadow_def)
qed

text \<open>A shadow area with room for the files of \<open>fname\<close>, that knows neither of them yet; their names are not
  so long that they are cut off to the same one.\<close>

definition fresh_area :: "fsys \<Rightarrow> mf_area \<Rightarrow> nat \<Rightarrow> string \<Rightarrow> int \<Rightarrow> bool" where
  "fresh_area fs area dir fname block_size \<longleftrightarrow>
     (\<forall>m\<in>set (ma_mfiles area). mf_name m \<noteq> fname @ ''-b'' \<and> mf_name m \<noteq> fname @ ''-i'') \<and>
     dir < length (ma_dirs area) \<and> max_bytes (ma_dirs area ! dir) < 0 \<and>
     (\<forall>k<dir. \<not> dir_has_room block_size (ma_dirs area ! k) \<and> \<not> dir_has_room 256 (ma_dirs area ! k)) \<and>
     fs (part_path (dir_name (ma_dirs area ! dir)) (fname @ ''-b'') 0) = None \<and>
     fs (part_path (dir_name (ma_dirs area ! dir)) (fname @ ''-i'') 0) = None \<and>
     part_path (dir_name (ma_dirs area ! dir)) (fname @ ''-b'') 0 \<noteq> part_path (dir_name (ma_dirs area ! dir)) (fname @ ''-i'') 0"

lemma cf_open_fresh:
  assumes f: "length fname + 3 < 1024" "0 < block_size" "fresh_area fs area dir fname block_size"
    and r: "mf_ok fs rdirs rmf" "\<not> mf_locked rmf" "mf_blocksize rmf = block_size" "mf_wr rmf = rw"
      "part_path (dir_name (ma_dirs area ! dir)) (fname @ ''-b'') 0 \<notin> set (mf_paths rmf)"
      "part_path (dir_name (ma_dirs area ! dir)) (fname @ ''-i'') 0 \<notin> set (mf_paths rmf)"
  shows "\<exists>cf area'. cf_open fs (Some rmf) rdirs area fname block_size True = Some (Inr (cf, area', True)) \<and>
    shadow_ok True rw cf \<and> shadow cf = Map.empty \<and> rmfc cf = mf_content fs rmf \<and> bsize cf = block_size"
proof -
  let ?d = "ma_dirs area" and ?b = "fname @ ''-b''" and ?i = "fname @ ''-i''"
  have a: "\<forall>m\<in>set (ma_mfiles area). mf_name m \<noteq> ?b" "\<forall>m\<in>set (ma_mfiles area). mf_name m \<noteq> ?i" "dir < length ?d" "max_bytes (?d ! dir) < 0"
      "\<forall>k<dir. \<not> dir_has_room block_size (?d ! k)" "\<forall>k<dir. \<not> dir_has_room 256 (?d ! k)"
      "fs (part_path (dir_name (?d ! dir)) ?b 0) = None" "fs (part_path (dir_name (?d ! dir)) ?i 0) = None"
      "part_path (dir_name (?d ! dir)) ?b 0 \<noteq> part_path (dir_name (?d ! dir)) ?i 0"
    using f(3) by (auto simp: fresh_area_def)
  define bmf hmf where "bmf = fresh_mf ?d dir ?b block_size True" and "hmf = fresh_mf ?d dir ?i 256 True"
  note B = fresh_mf_ok [of block_size dir ?d fs ?b True, OF f(2) a(3,4,7), folded bmf_def]
  note H = fresh_mf_ok [of 256 dir ?d fs ?i True, OF _ a(3,4,8), folded hmf_def, simplified]
  define area1 where "area1 = area\<lparr>ma_mfiles := bmf # ma_mfiles area\<rparr>"
  define area2 where "area2 = area1\<lparr>ma_mfiles := hmf # ma_mfiles area1\<rparr>"
  have o1: "mf_open area ?b block_size True = Some (Some (bmf, area1))" using mf_open_fresh [OF _ a(1,3,4,5)] f(2) by (simp add: bmf_def area1_def)
  have o2: "mf_open area1 ?i 256 True = Some (Some (hmf, area2))"
    using mf_open_fresh [of 256 area1 ?i dir True] a B(8) by (simp add: hmf_def area2_def area1_def)
  define cf0 where "cf0 = \<lparr>cf_head = new_head block_size, cf_block_mf = bmf, cf_hash_mf = hmf, cf_array = None,
     cf_buckets = [], cf_dirty = False, cf_max_bucket_in_memory = 100, cf_iobuf = replicate (nat block_size) 0, cf_rmf = Some rmf,
     cf_no_hits = 0, cf_no_miss = 0, cf_locked = False, cf_fs = fs, cf_dirs = ma_dirs area2, cf_rdirs = rdirs\<rparr>"
  have d2: "ma_dirs area2 = ?d" by (simp add: area2_def area1_def)
  have io0: "io_ok True rw cf0"
    using B H r a(9) by (auto simp: io_ok_def cf0_def d2 bsize_def)
  have c0: "hashc cf0 = []" "rmfc cf0 = mf_content fs rmf" "bsize cf0 = block_size" using H B by (simp_all add: hashc_def rmfc_def bsize_def cf0_def)
  obtain cf1 where h1: "hash_read cf0 0 0 48 = Some (0, [], cf1)" "kept True rw cf0 cf1" "hashc cf1 = []" "rmfc cf1 = rmfc cf0"
    using hash_read_spec [OF io0, of 0 0 48 "[]"] c0 by (auto simp: file_pread_def)
  define cf2 where "cf2 = cf1\<lparr>cf_head := new_head block_size, cf_array := Some (replicate 199 0)\<rparr>"
  have "io_same cf1 cf2" by (simp add: io_same_def cf2_def)
  note s = io_same_simps [OF this]
  let ?hb = "head_bytes (new_head block_size)"
  have hd2: "cf_head cf2 = new_head block_size" by (simp add: cf2_def)
  have io2: "io_ok True rw cf2" using h1(2) s by (simp add: kept_def)
  have hl: "length ?hb = 48" by (simp add: head_bytes_def)
  obtain cf3 where h3: "hash_write cf2 0 0 48 ?hb = Some (0, cf3)" "kept True rw cf2 cf3" "hashc cf3 = file_pwrite [] 0 ?hb" "rmfc cf3 = rmfc cf0"
    using hash_write_spec [OF io2, of 0 0 48 ?hb] hl s h1(3,4) by auto
  have io3: "io_ok True rw cf3" "cf_array cf3 = Some (replicate 199 0)" using h3(2) by (auto simp: kept_def core_def cf2_def)
  define tab where "tab = concat (map zint_bytes (replicate 199 0))"
  have tl: "length tab = 1592" unfolding tab_def length_concat_zints by simp
  obtain cf4 where h4: "write_head_loop cf3 1 tab = Some (0, cf4)" "kept True rw cf3 cf4" "hashc cf4 = file_pwrite (hashc cf3) 256 tab" "rmfc cf4 = rmfc cf3"
    using write_head_loop_spec [OF io3(1), of 1 tab] by auto
  have "cf_open fs (Some rmf) rdirs area fname block_size True = Some (Inr (cf4, area2, True))"
    using f(1,2) o1 o2 h1(1) h3(1) h4(1) io3(2) hd2
    by (simp add: cf_open_def cf0_def [symmetric] HASH_BSIZE_def sizeof_head_def cf2_def [symmetric] write_head_def tab_def [symmetric]
        del: map_replicate)
  moreover have "shadow_ok True rw cf4 \<and> shadow cf4 = Map.empty"
  proof (rule empty_shadow)
    show "length (hashc cf4) \<le> 2048" using hl tl by (simp add: h4(3) h3(3))
  qed (use h1(2) h3(2) h4(2) f(2) c0(3) s in \<open>auto simp: kept_def core_def cf2_def cf0_def\<close>)
  moreover have "bsize cf4 = block_size" using h1(2) h3(2) h4(2) c0(3) s by (simp add: kept_def core_def)
  ultimately show ?thesis using h4(4) h3(4) c0(2) by auto
qed

end
