(* ===== verification/Bfile_Theorems.thy ===== *)
theory Bfile_Theorems
  imports Bfile Cfile_Open
begin

text \<open>
  What the block layer promises: a block file with a shadow reads as the original overlaid by the blocks written
  since, never changes the original before the commit, and the commit turns the original into what was read. \<open>cf_fits\<close> has
  the bounds on positions.
\<close>

section \<open>A small shadow\<close>

text \<open>Blocks of two bytes; the original holds two of them, the shadow area has one directory without limit.\<close>

definition wit_mf :: "string \<Rightarrow> int \<Rightarrow> int \<Rightarrow> bool \<Rightarrow> meta_file" where
  "wit_mf name block_size blocks w = \<lparr>mf_name = name,
     mf_files = [\<lparr>pf_number = 0, pf_top = - 1, pf_blocks = blocks, pf_bytes = blocks * block_size, pf_dir = 0, pf_path = name, pf_fd = None\<rparr>],
     mf_cur = 0, mf_isopen = True, mf_blocksize = block_size, mf_min_bytes_creat = block_size, mf_wr = w, mf_locked = False\<rparr>"

definition wit_cf :: "bool \<Rightarrow> byte list \<Rightarrow> cfile" where
  "wit_cf r iobuf = \<lparr>cf_head = new_head 2, cf_block_mf = wit_mf ''x-b'' 2 0 True, cf_hash_mf = wit_mf ''x-i'' 256 0 True,
     cf_array = Some (replicate 199 0), cf_buckets = [], cf_dirty = False, cf_max_bucket_in_memory = 100, cf_iobuf = iobuf,
     cf_rmf = Some (wit_mf ''x'' 2 2 r), cf_no_hits = 0, cf_no_miss = 0, cf_locked = False, cf_fs = [''x'' \<mapsto> [1, 2, 3, 4]],
     cf_dirs = [\<lparr>dir_name = ''s'', max_bytes = - 1, avail_bytes = - 1\<rparr>], cf_rdirs = [\<lparr>dir_name = ''r'', max_bytes = - 1, avail_bytes = - 1\<rparr>]\<rparr>"

definition wit_bfs :: "bool \<Rightarrow> bfiles" where
  "wit_bfs r = \<lparr>bfs_commit_area = Some \<lparr>ma_name = ''shadow'', ma_dirs = cf_dirs (wit_cf r [0, 0]), ma_mfiles = []\<rparr>,
     bfs_register_area = \<lparr>ma_name = ''register'', ma_dirs = cf_rdirs (wit_cf r [0, 0]), ma_mfiles = []\<rparr>, bfs_base = None, bfs_cache_fname = None,
     bfs_fs = cf_fs (wit_cf r [0, 0])\<rparr>"

definition wit_bf :: "bool \<Rightarrow> bfile" where
  "wit_bf r = \<lparr>bf_mf = cf_rmf (wit_cf r [0, 0]), bf_cf = Some (wit_cf r [0, 0]), bf_block_size = 2\<rparr>"

lemma wit_cf_facts:
  "io_ok True r (wit_cf r iobuf)" "bsize (wit_cf r iobuf) = 2" "hashc (wit_cf r iobuf) = []" "rmfc (wit_cf r iobuf) = [1, 2, 3, 4]"
  by (simp_all add: io_ok_def mf_ok_def parts_ok_def wit_cf_def wit_mf_def mf_paths_def content_of_def bsize_def hashc_def rmfc_def mf_content_def)

lemma wit_cf_ok: "length iobuf = 2 \<Longrightarrow> shadow_ok True r (wit_cf r iobuf) \<and> shadow (wit_cf r iobuf) = Map.empty"
  by (rule empty_shadow) (simp_all add: wit_cf_facts, simp_all add: wit_cf_def)

section \<open>Block files with a shadow\<close>

definition bf_ok :: "bool \<Rightarrow> bfiles \<Rightarrow> bfile \<Rightarrow> bool" where
  "bf_ok r bfs bf \<longleftrightarrow> bfs_commit_area bfs \<noteq> None \<and> (\<exists>cf. bf_cf bf = Some cf \<and> shadow_ok True r (cf_enter bfs cf))"

definition bf_state :: "bfiles \<Rightarrow> bfile \<Rightarrow> cfile" where
  "bf_state bfs bf = cf_enter bfs (the (bf_cf bf))"

definition bf_view :: "bfiles \<Rightarrow> bfile \<Rightarrow> int \<Rightarrow> byte list" where
  "bf_view bfs bf = view (bf_state bfs bf)"

lemma enter_leave [simp]: "bfs_commit_area bfs \<noteq> None \<Longrightarrow> cf_enter (cf_leave bfs cf) cf = cf"
  by (auto simp: cf_enter_def cf_leave_def)

lemma leave_area [simp]: "bfs_commit_area (cf_leave bfs cf) = None \<longleftrightarrow> bfs_commit_area bfs = None"
  by (simp add: cf_leave_def)

lemma bf_leave:
  assumes "bfs_commit_area bfs \<noteq> None" "shadow_ok True r cf"
  shows "bf_ok r (cf_leave bfs cf) (bf\<lparr>bf_cf := Some cf, bf_mf := m\<rparr>)" "bf_state (cf_leave bfs cf) (bf\<lparr>bf_cf := Some cf, bf_mf := m\<rparr>) = cf"
  using assms by (simp_all add: bf_ok_def bf_state_def del: not_None_eq)

lemma bf_okE:
  assumes "bf_ok r bfs bf"
  obtains c where "bfs_commit_area bfs \<noteq> None" "bf_cf bf = Some c" "cf_enter bfs c = bf_state bfs bf" "shadow_ok True r (bf_state bfs bf)"
  using assms unfolding bf_ok_def bf_state_def by (metis option.sel)

lemma wit_bf_ok: "bf_ok r (wit_bfs r) (wit_bf r)" "bf_state (wit_bfs r) (wit_bf r) = wit_cf r [0, 0]"
proof -
  have "cf_enter (wit_bfs r) (wit_cf r [0, 0]) = wit_cf r [0, 0]" by (simp add: cf_enter_def wit_bfs_def)
  then show "bf_ok r (wit_bfs r) (wit_bf r)" "bf_state (wit_bfs r) (wit_bf r) = wit_cf r [0, 0]"
    using wit_cf_ok [of "[0, 0]" r] by (simp_all add: bf_ok_def bf_state_def wit_bf_def) (simp add: wit_bfs_def)
qed

lemma wit_view: "view (wit_cf r [0, 0]) no = blk [1, 2, 3, 4] 2 no"
  using wit_cf_ok [of "[0, 0]" r] by (simp add: view_def wit_cf_facts)

lemma view_length: "shadow_ok w r cf \<Longrightarrow> length (view cf no) \<le> nat (bsize cf)"
  by (auto simp: view_def shadow_def blk_def split: option.splits)

lemma view_cong: "shadow cf' = shadow cf \<Longrightarrow> rmfc cf' = rmfc cf \<Longrightarrow> bsize cf' = bsize cf \<Longrightarrow> view cf' = view cf"
  by (simp add: view_def fun_eq_iff cong: option.case_cong)

text \<open>Reading the commit file and then, if it has no such block, the original.\<close>

lemma read_through:
  assumes ok: "shadow_ok True r cf" and no: "0 \<le> no" and b: "in_blk cf off n" and x: "x = file_pread (view cf no) (nat off) (blk_len cf n)"
  shows "\<exists>r0 b0 c0 cf2. cf_read cf no off n = Some (r0, b0, c0) \<and>
    (if r0 = 0 then rmf_read c0 no off n else Some (r0, b0, c0)) = Some (if length x < blk_len cf n then 0 else 1, x, cf2) \<and>
    shadow_ok True r cf2 \<and> view cf2 = view cf"
proof -
  have inv: "shadow_inv True r cf" using ok by (simp add: shadow_ok_def)
  have bs: "0 < bsize cf" using io_okD [OF shadow_inv_io [OF inv]] by simp
  note ib = in_blk_len [OF b bs]
  obtain cf1 where r1: "cf_read cf no off n = Some (case shadow cf no of None \<Rightarrow> (0, [], cf1) | Some bs \<Rightarrow> (1, file_pread bs (nat off) (blk_len cf n), cf1))"
    "shadow_ok True r cf1" "shadow cf1 = shadow cf" "rmfc cf1 = rmfc cf" "bsize cf1 = bsize cf" using cf_read_spec [OF ok no b] by blast
  show ?thesis
  proof (cases "shadow cf no")
    case None
    have i1: "shadow_inv True r cf1" using r1(2) by (simp add: shadow_ok_def)
    have v: "view cf no = blk (rmfc cf) (bsize cf) no" using None by (simp add: view_def)
    have "x = file_pread (rmfc cf) (nat (no * bsize cf + off)) (blk_len cf n)"
      using pread_blk [of no off "blk_len cf n" "bsize cf" "rmfc cf"] ib no unfolding x v by simp
    then have x': "x = file_pread (rmfc cf1) (nat (no * bsize cf1 + off)) (nat (if n = 0 then bsize cf1 else n))" unfolding r1 blk_len_def .
    have "if n = 0 then off = 0 else off + n \<le> bsize cf1" using b unfolding r1 in_blk_def by simp
    then obtain cf2 where r2: "rmf_read cf1 no off n = Some (if length x < blk_len cf n then 0 else 1, x, cf2)" "kept True r cf1 cf2"
      "hashc cf2 = hashc cf1" "blockc cf2 = blockc cf1" "rmfc cf2 = rmfc cf1"
      using rmf_read_spec [OF shadow_inv_io [OF i1] no _ _ _ x'] b unfolding r1 in_blk_def blk_len_def by auto
    have k: "bsize cf2 = bsize cf1" "cf_iobuf cf2 = cf_iobuf cf1" "cf_locked cf2 = cf_locked cf1" using r2(2) by (auto simp: kept_def core_def)
    note sk = shadow_kept [OF i1 r2(2,3)]
    have "shadow cf2 = shadow cf1" by (simp add: fun_eq_iff shadow_def sk r2(4) k)
    then have "view cf2 = view cf" using r1(3-5) r2(5) k(1) by (intro view_cong) simp_all
    moreover have "shadow_ok True r cf2" using r1(2) sk k r2(4) by (simp add: shadow_ok_def)
    ultimately show ?thesis using r1(1) r2(1) None by auto
  next
    case (Some bb)
    then obtain v where v: "shadow_map cf no = Some v" "bb = blk (blockc cf) (bsize cf) v" by (auto simp: shadow_def)
    have "has_blk (blockc cf) (bsize cf) v" using ok v by (simp add: shadow_ok_def)
    then have "length bb = nat (bsize cf)" using blk_length [of v] shadow_map_range(2) [OF inv v(1)] bs v(2) by simp
    then have "length x = blk_len cf n" "x = file_pread bb (nat off) (blk_len cf n)" using Some ib x by (simp_all add: view_def) linarith
    moreover have "view cf1 = view cf" using r1(3-5) by (rule view_cong)
    ultimately show ?thesis using r1(1,2) Some by auto
  qed
qed

text \<open>Positions are 64 bit in the code and unbounded in the model; they agree within these bounds: the number of the block
  times eight, its place in the flat table behind the buckets, its end in the original, and the ends of the files.\<close>

definition cf_fits :: "cfile \<Rightarrow> int \<Rightarrow> bool" where
  "cf_fits cf no \<longleftrightarrow> no < 2 ^ 58 \<and> (no + 1) * bsize cf < 2 ^ 63 \<and>
     (ch_next_bucket (cf_head cf) + no * 8 div int HASH_BSIZE + 1) * int HASH_BSIZE < 2 ^ 63 \<and>
     int (length (blockc cf)) < 2 ^ 63 \<and> int (length (hashc cf)) < 2 ^ 63 \<and> int (length (rmfc cf)) < 2 ^ 63"

lemma flat_slot_exact: "cf_fits cf no \<Longrightarrow> 0 \<le> no \<Longrightarrow> uint (word_of_int (no * 8) :: 64 word) = no * 8"
  by (rule uint_word64) (simp_all add: cf_fits_def)

text \<open>C30: Reading a block, or a part of it, through a block file with a shadow returns the bytes of the view: those
  of the shadow if the block has been written, else those of the original; the result is 1 when all of
  them exist and 0 otherwise. Reading leaves the view as it is. The number of the block is below \<open>2 ^ 58\<close> and the
  block and the files end below \<open>2 ^ 63\<close> bytes.\<close>

theorem bf_read_view:
  assumes "bf_ok r bfs bf" "0 \<le> no" "in_blk (bf_state bfs bf) off n"
    and "x = file_pread (bf_view bfs bf no) (nat off) (blk_len (bf_state bfs bf) n)"
    and "cf_fits (bf_state bfs bf) no"
  shows "\<exists>bfs' bf'. bf_read bfs bf no off n = Some (if length x < blk_len (bf_state bfs bf) n then 0 else 1, x, bfs', bf') \<and>
    bf_ok r bfs' bf' \<and> bf_view bfs' bf' = bf_view bfs bf"
proof -
  define cf where "cf = bf_state bfs bf"
  obtain c where area: "bfs_commit_area bfs \<noteq> None" and ok: "shadow_ok True r cf" and bf: "bf_cf bf = Some c" "cf_enter bfs c = cf"
    using bf_okE [OF assms(1)] unfolding cf_def by metis
  obtain r0 b0 c0 cf2 where r: "cf_read cf no off n = Some (r0, b0, c0)"
    "(if r0 = 0 then rmf_read c0 no off n else Some (r0, b0, c0)) = Some (if length x < blk_len cf n then 0 else 1, x, cf2)"
    "shadow_ok True r cf2" "view cf2 = view cf" using read_through [OF ok assms(2)] assms(3,4) unfolding bf_view_def cf_def by metis
  have "bf_read bfs bf no off n = Some (if length x < blk_len cf n then 0 else 1, x, cf_leave bfs cf2, bf\<lparr>bf_cf := Some cf2, bf_mf := cf_rmf cf2\<rparr>)"
    using r(1,2) bf by (simp add: bf_read_def bf_read2_def split: if_splits)
  then show ?thesis using bf_leave [OF area r(3)] r(4) by (simp add: bf_view_def cf_def)
qed

lemma wit_fits: "0 \<le> no \<Longrightarrow> no < 4 \<Longrightarrow> cf_fits (wit_cf r [0, 0]) no"
  by (simp add: cf_fits_def wit_cf_facts blockc_def mf_content_def mf_paths_def content_of_def)
    (simp add: wit_cf_def wit_mf_def content_of_def new_head_def sizeof_head_def HASH_BSIZE_def Let_def)

theorem bf_read_view_witness:
  "\<exists>bfs' bf'. bf_read (wit_bfs False) (wit_bf False) 1 1 1 = Some (1, [4], bfs', bf') \<and> bf_view bfs' bf' 0 = [1, 2]"
proof -
  have "in_blk (bf_state (wit_bfs False) (wit_bf False)) 1 1" "blk_len (bf_state (wit_bfs False) (wit_bf False)) 1 = 1"
    by (simp_all add: in_blk_def blk_len_def wit_bf_ok wit_cf_facts)
  moreover have "bf_view (wit_bfs False) (wit_bf False) 0 = [1, 2]" "bf_view (wit_bfs False) (wit_bf False) 1 = [3, 4]"
    by (simp_all add: bf_view_def wit_bf_ok wit_view blk_def file_pread_def)
  moreover have "cf_fits (bf_state (wit_bfs False) (wit_bf False)) 1" unfolding wit_bf_ok by (rule wit_fits) simp_all
  ultimately show ?thesis using bf_read_view [OF wit_bf_ok(1) [of False], of 1 1 1 "[4]"] by (auto simp: file_pread_def)
qed

lemma view_upd: "shadow cf' = (shadow cf)(no \<mapsto> img) \<Longrightarrow> rmfc cf' = rmfc cf \<Longrightarrow> bsize cf' = bsize cf \<Longrightarrow> view cf' = (view cf)(no := img)"
  by (simp add: view_def fun_eq_iff cong: option.case_cong)

lemma write_image:
  assumes ok: "shadow_ok True r cf" and b: "in_blk cf off n" "blk_len cf n \<le> length buf" and full: "n = 0 \<or> int (length (view cf no)) = bsize cf"
  shows "(if n = 0 then take (nat (bsize cf)) buf
       else file_pwrite (case shadow cf no of Some bs \<Rightarrow> bs | None \<Rightarrow> base_blk cf no) (nat off) (take (nat n) buf)) =
    file_pwrite (view cf no) (nat off) (take (blk_len cf n) buf)"
proof (cases "n = 0")
  case True
  have bs: "0 < bsize cf" using ok io_okD(1) [OF shadow_inv_io] by (auto simp: shadow_ok_def)
  have "off = 0" using b(1) True by (simp add: in_blk_def)
  moreover have "length (take (nat (bsize cf)) buf) = nat (bsize cf)" using b(2) True by (simp add: blk_len_def)
  moreover have "length (view cf no) \<le> nat (bsize cf)" using view_length [OF ok] .
  ultimately show ?thesis using True bs by (auto simp: file_pwrite_def Let_def blk_len_def)
next
  case False
  have "base_blk cf no = view cf no" if "shadow cf no = None"
    using that full False ok by (simp add: base_blk_def overlay_def view_def shadow_ok_def)
  then show ?thesis using False by (auto simp: view_def blk_len_def split: option.splits)
qed

text \<open>C28: Writing a block through a block file with a shadow, or a part of a block that is complete, succeeds, changes
  the view of that block as a write to the block does and of no other block, and leaves the original
  as it is.\<close>

theorem bf_write_view:
  assumes "bf_ok r bfs bf" "room_ok (bf_state bfs bf) no" "in_blk (bf_state bfs bf) off n" "blk_len (bf_state bfs bf) n \<le> length buf"
    and "n = 0 \<or> int (length (bf_view bfs bf no)) = bsize (bf_state bfs bf)"
  shows "\<exists>bfs' bf'. bf_write bfs bf no off n buf = Some (0, bfs', bf') \<and> bf_ok r bfs' bf' \<and>
    bf_view bfs' bf' = (bf_view bfs bf)(no := file_pwrite (bf_view bfs bf no) (nat off) (take (blk_len (bf_state bfs bf) n) buf)) \<and>
    rmfc (bf_state bfs' bf') = rmfc (bf_state bfs bf)"
proof -
  define cf where "cf = bf_state bfs bf"
  obtain c where area: "bfs_commit_area bfs \<noteq> None" and ok: "shadow_ok True r cf" and bf: "bf_cf bf = Some c" "cf_enter bfs c = cf"
    using bf_okE [OF assms(1)] unfolding cf_def by metis
  note a = assms(2-5) [folded cf_def, unfolded bf_view_def, folded cf_def]
  obtain cf' where w: "cf_write cf no off n buf = Some (0, cf')" "shadow_ok True r cf'"
    "shadow cf' = (shadow cf)(no \<mapsto> file_pwrite (view cf no) (nat off) (take (blk_len cf n) buf))" "rmfc cf' = rmfc cf" "bsize cf' = bsize cf"
    using cf_write_spec [OF ok a(1-3)] unfolding write_image [OF ok a(2-4)] by blast
  have "bf_write bfs bf no off n buf = Some (0, cf_leave bfs cf', bf\<lparr>bf_cf := Some cf', bf_mf := cf_rmf cf'\<rparr>)"
    using w(1) bf by (simp add: bf_write_def bf_write2_def)
  then show ?thesis using bf_leave [OF area w(2)] view_upd [OF w(3-5)] w(4) by (simp add: bf_view_def cf_def)
qed

theorem bf_write_view_witness:
  "\<exists>bfs' bf'. bf_write (wit_bfs False) (wit_bf False) 1 1 1 [9] = Some (0, bfs', bf') \<and> bf_view bfs' bf' 0 = [1, 2] \<and>
     bf_view bfs' bf' 1 = [3, 9] \<and> rmfc (bf_state bfs' bf') = [1, 2, 3, 4]"
proof -
  let ?s = "bf_state (wit_bfs False) (wit_bf False)"
  have "in_blk ?s 1 1" "blk_len ?s 1 = 1" "bsize ?s = 2" "rmfc ?s = [1, 2, 3, 4]" by (simp_all add: in_blk_def blk_len_def wit_bf_ok wit_cf_facts)
  moreover have "room_ok ?s 1" unfolding wit_bf_ok by (simp add: room_ok_def wit_cf_def new_head_def sizeof_head_def HASH_BSIZE_def Let_def)
  moreover have "bf_view (wit_bfs False) (wit_bf False) 0 = [1, 2]" "bf_view (wit_bfs False) (wit_bf False) 1 = [3, 4]"
    by (simp_all add: bf_view_def wit_bf_ok wit_view blk_def file_pread_def)
  ultimately show ?thesis using bf_write_view [OF wit_bf_ok(1) [of False], of 1 1 1 "[9]"] by (auto simp: file_pwrite_def)
qed

text \<open>C29: Committing a shadow whose buckets are all on disk succeeds and makes the original what the view was: every
  block of the shadow and every block the original had is then read from the original as it was read
  through the shadow before.\<close>

theorem commit_makes_view_original:
  assumes "shadow_ok w True cf" "cf_buckets cf = []"
  shows "\<exists>cf'. cf_commit cf = Some (0, cf') \<and> shadow cf' = shadow cf \<and>
    (\<forall>no. shadow cf no \<noteq> None \<or> 0 \<le> no \<and> has_blk (rmfc cf) (bsize cf) no \<longrightarrow>
       has_blk (rmfc cf') (bsize cf) no \<and> blk (rmfc cf') (bsize cf) no = view cf no)"
  using cf_commit_spec [OF assms] by blast

text \<open>A shadow in which block 1 has been written, and its buckets flushed.\<close>

lemma wit_committable:
  "\<exists>cf. shadow_ok True True cf \<and> cf_buckets cf = [] \<and> shadow cf = [1 \<mapsto> [7, 8]] \<and> rmfc cf = [1, 2, 3, 4] \<and> bsize cf = 2"
proof -
  let ?c = "wit_cf True [0, 0]"
  have ok: "shadow_ok True True ?c" "shadow ?c = Map.empty" using wit_cf_ok [of "[0, 0]" True] by simp_all
  have "room_ok ?c 1" by (simp add: room_ok_def wit_cf_def new_head_def sizeof_head_def HASH_BSIZE_def Let_def)
  then obtain c1 where w: "shadow_ok True True c1" "shadow c1 = [1 \<mapsto> [7, 8]]" "rmfc c1 = [1, 2, 3, 4]" "bsize c1 = 2"
    using cf_write_spec [OF ok(1), of 1 0 0 "[7, 8]"] ok(2) by (auto simp: in_blk_def blk_len_def wit_cf_facts)
  have inv: "shadow_inv True True c1" using w(1) by (simp add: shadow_ok_def)
  show ?thesis
  proof (cases "cf_buckets c1 = []")
    case False
    then obtain ch where h: "hash_ok True True ch c1" using inv by (auto simp: shadow_inv_def flat_ok_def)
    obtain c2 where f: "cf_buckets c2 = []" "cache_step True True c1 c2" using flush_bucket_all [OF hash_ok_cache [OF h]] by blast
    note v = cache_step_view [OF f(2)]
    have h2: "hash_ok True True ch c2" using f by (intro hash_ok_step [OF h _ v]) (simp_all add: cache_step_def)
    have m: "shadow_map c2 = shadow_map c1" using cf_map_step [OF v] shadow_map_table(1) [OF h] shadow_map_table(1) [OF h2] by simp
    have k: "bsize c2 = bsize c1" "blockc c2 = blockc c1" "rmfc c2 = rmfc c1" "cf_locked c2 = cf_locked c1" "cf_iobuf c2 = cf_iobuf c1"
      using v by (simp_all add: view_step_def)
    have "shadow_ok True True c2" using w(1) h2 m k by (auto simp: shadow_ok_def shadow_inv_def)
    moreover have "shadow c2 = shadow c1" by (simp add: fun_eq_iff shadow_def m k)
    ultimately show ?thesis using f(1) w k by (intro exI [of _ c2]) simp
  qed (use w in blast)
qed

theorem commit_makes_view_original_witness:
  "\<exists>cf cf'. shadow cf = [1 \<mapsto> [7, 8]] \<and> cf_commit cf = Some (0, cf') \<and> blk (rmfc cf') 2 0 = [1, 2] \<and> blk (rmfc cf') 2 1 = [7, 8]"
proof -
  obtain cf where c: "shadow_ok True True cf" "cf_buckets cf = []" "shadow cf = [1 \<mapsto> [7, 8]]" "rmfc cf = [1, 2, 3, 4]" "bsize cf = 2"
    using wit_committable by blast
  obtain cf' where "cf_commit cf = Some (0, cf')"
    "\<forall>no. shadow cf no \<noteq> None \<or> 0 \<le> no \<and> has_blk (rmfc cf) (bsize cf) no \<longrightarrow> has_blk (rmfc cf') (bsize cf) no \<and> blk (rmfc cf') (bsize cf) no = view cf no"
    using commit_makes_view_original [OF c(1,2)] by blast
  then have "cf_commit cf = Some (0, cf')" "blk (rmfc cf') 2 0 = view cf 0" "blk (rmfc cf') 2 1 = view cf 1" using c by (auto simp: has_blk_def)
  then show ?thesis using c by (intro exI [of _ cf] exI [of _ cf']) (simp add: view_def blk_def file_pread_def)
qed

text \<open>C31: As long as the blocks of the table and the block looked up are within the 64 bit bounds (numbers below \<open>2 ^ 58\<close>),
  looking a block up in the hash table and looking it up after the table has been moved to the flat one give the
  same answer: moving always succeeds, and both lookups return 1 with the same shadow block or both
  return 0.\<close>

theorem moveto_flat_equivalent:
  assumes "hash_ok True r ch cf" "0 \<le> no" "cf_fits cf no" "\<forall>k \<in> dom (cf_map cf). cf_fits cf k"
  shows "\<exists>cf1 cf2 cf3 ret v v'. cf_moveto_flat cf = Some (0, cf1) \<and> cf_lookup cf no = Some (ret, v, cf2) \<and>
    cf_lookup cf1 no = Some (ret, v', cf3) \<and> (ret = 0 \<or> ret = 1 \<and> v = v') \<and> ch_state (cf_head cf1) = CFILE_STATE_FLAT"
proof -
  obtain cf1 where m: "cf_moveto_flat cf = Some (0, cf1)" "flat_ok True r cf1" "flat_map cf1 = cf_map cf" using cf_moveto_flat_spec [OF assms(1)] by blast
  have i: "shadow_inv True r cf" "shadow_inv True r cf1" using assms(1) m(2) by (auto simp: shadow_inv_def)
  have s: "shadow_map cf1 = shadow_map cf" using m(3) shadow_map_table(1) [OF assms(1)] shadow_map_table(2) [OF m(2)] by simp
  obtain v cf2 where "cf_lookup cf no = Some (if shadow_map cf no = None then 0 else 1, v, cf2)" "shadow_map cf no \<noteq> None \<longrightarrow> shadow_map cf no = Some v"
    using cf_lookup_spec [OF i(1) assms(2)] by blast
  moreover obtain v' cf3 where "cf_lookup cf1 no = Some (if shadow_map cf no = None then 0 else 1, v', cf3)" "shadow_map cf no \<noteq> None \<longrightarrow> shadow_map cf no = Some v'"
    using cf_lookup_spec [OF i(2) assms(2)] unfolding s by blast
  ultimately show ?thesis using m(1,2) by (cases "shadow_map cf no") (auto simp: flat_ok_def)
qed

lemma wit_hash_ok: "length iobuf = 2 \<Longrightarrow> \<exists>ch. hash_ok True r ch (wit_cf r iobuf)"
proof -
  assume "length iobuf = 2"
  then have i: "shadow_inv True r (wit_cf r iobuf)" using wit_cf_ok by (simp add: shadow_ok_def)
  have "ch_state (cf_head (wit_cf r iobuf)) = 1" by (simp add: wit_cf_def new_head_def CFILE_STATE_HASH_def Let_def)
  then have "\<not> flat_ok True r (wit_cf r iobuf)" using state_values(2) by fastforce
  then show ?thesis using i by (simp add: shadow_inv_def)
qed

theorem moveto_flat_equivalent_witness:
  "\<exists>cf1 cf2 cf3 ret v v'. cf_moveto_flat (wit_cf True [0, 0]) = Some (0, cf1) \<and> cf_lookup (wit_cf True [0, 0]) 3 = Some (ret, v, cf2) \<and>
     cf_lookup cf1 3 = Some (ret, v', cf3)"
proof -
  obtain ch where h: "hash_ok True True ch (wit_cf True [0, 0])" using wit_hash_ok [of "[0, 0]" True] by auto
  then have "cf_map (wit_cf True [0, 0]) = Map.empty"
    using shadow_map_table(1) [OF h] wit_cf_ok [of "[0, 0]" True] by (auto simp: fun_eq_iff shadow_def split: option.splits)
  then have "\<forall>k \<in> dom (cf_map (wit_cf True [0, 0])). cf_fits (wit_cf True [0, 0]) k" by simp
  from moveto_flat_equivalent [OF h _ wit_fits this, of 3] show ?thesis by auto
qed

text \<open>C32: Opening a commit file for writing on a shadow area that has room and does not know it yet succeeds as a first
  open, and the shadow is well formed and empty over the unchanged original.\<close>

theorem cf_open_new:
  assumes "length fname + 3 < 1024" "0 < block_size" "fresh_area fs area dir fname block_size"
    and "mf_ok fs rdirs rmf" "\<not> mf_locked rmf" "mf_blocksize rmf = block_size" "mf_wr rmf = r"
      "part_path (dir_name (ma_dirs area ! dir)) (fname @ ''-b'') 0 \<notin> set (mf_paths rmf)"
      "part_path (dir_name (ma_dirs area ! dir)) (fname @ ''-i'') 0 \<notin> set (mf_paths rmf)"
  shows "\<exists>cf area'. cf_open fs (Some rmf) rdirs area fname block_size True = Some (Inr (cf, area', True)) \<and>
    shadow_ok True r cf \<and> shadow cf = Map.empty \<and> rmfc cf = mf_content fs rmf \<and> bsize cf = block_size"
  using cf_open_fresh [OF assms] .

theorem cf_open_new_witness:
  "\<exists>cf area'. cf_open [''x'' \<mapsto> [1, 2, 3, 4]] (Some (wit_mf ''x'' 2 2 False)) [\<lparr>dir_name = ''r'', max_bytes = - 1, avail_bytes = - 1\<rparr>]
       \<lparr>ma_name = ''shadow'', ma_dirs = [\<lparr>dir_name = ''s'', max_bytes = - 1, avail_bytes = - 1\<rparr>], ma_mfiles = []\<rparr> ''x'' 2 True =
       Some (Inr (cf, area', True)) \<and> shadow cf = Map.empty"
proof -
  let ?a = "\<lparr>ma_name = ''shadow'', ma_dirs = [\<lparr>dir_name = ''s'', max_bytes = - 1, avail_bytes = - 1\<rparr>], ma_mfiles = []\<rparr>"
  have p: "part_path ''s'' (''x'' @ ''-b'') 0 = ''s/x-b-'' @ char_of (48 :: nat) # ''.mf''" "part_path ''s'' (''x'' @ ''-i'') 0 = ''s/x-i-'' @ char_of (48 :: nat) # ''.mf''"
    by (simp_all add: part_path_def dec_string_def dec_digit FILENAME_MAX_def)
  have "fresh_area [''x'' \<mapsto> [1, 2, 3, 4]] ?a 0 ''x'' 2" unfolding fresh_area_def using p by simp
  moreover have "mf_ok [''x'' \<mapsto> [1, 2, 3, 4]] [\<lparr>dir_name = ''r'', max_bytes = - 1, avail_bytes = - 1\<rparr>] (wit_mf ''x'' 2 2 False)"
    by (simp add: mf_ok_def parts_ok_def wit_mf_def mf_paths_def content_of_def)
  moreover have "\<not> mf_locked (wit_mf ''x'' 2 2 False)" "mf_blocksize (wit_mf ''x'' 2 2 False) = 2" "mf_wr (wit_mf ''x'' 2 2 False) = False" "mf_paths (wit_mf ''x'' 2 2 False) = [''x'']"
    by (simp_all add: wit_mf_def mf_paths_def)
  ultimately show ?thesis
    using cf_open_new [of "''x''" 2 "[''x'' \<mapsto> [1, 2, 3, 4]]" ?a 0 "[\<lparr>dir_name = ''r'', max_bytes = - 1, avail_bytes = - 1\<rparr>]" "wit_mf ''x'' 2 2 False" False] p by auto
qed

section \<open>A defect\<close>

text \<open>C33: When a part of a block is written that neither the shadow nor the original holds, the rest of the new block is
  whatever the block buffer held from an earlier block, and not zero as it is in a file.\<close>

theorem cf_write_stale_bytes:
  assumes "shadow_ok True r cf" "room_ok cf no" "in_blk cf off n" "n \<noteq> 0" "nat n \<le> length buf"
    and "shadow cf no = None" "blk (rmfc cf) (bsize cf) no = []"
  shows "\<exists>cf'. cf_write cf no off n buf = Some (0, cf') \<and> shadow cf' no = Some (file_pwrite (cf_iobuf cf) (nat off) (take (nat n) buf))"
  using cf_write_spec [OF assms(1-3), of buf] assms(4-7) by (auto simp: blk_len_def base_blk_def overlay_def)

theorem cf_write_stale_bytes_witness:
  "\<exists>cf'. cf_write (wit_cf False [0xAA, 0xBB]) 7 0 1 [5] = Some (0, cf') \<and> shadow cf' 7 = Some [5, 0xBB]"
proof -
  let ?c = "wit_cf False [0xAA, 0xBB]"
  have "shadow_ok True False ?c" "shadow ?c = Map.empty" using wit_cf_ok [of "[0xAA, 0xBB]" False] by simp_all
  moreover have "room_ok ?c 7" "cf_iobuf ?c = [0xAA, 0xBB]" by (simp_all add: room_ok_def wit_cf_def new_head_def sizeof_head_def HASH_BSIZE_def Let_def)
  ultimately show ?thesis using cf_write_stale_bytes [of False ?c 7 0 1 "[5]"] by (auto simp: in_blk_def wit_cf_facts blk_def file_pread_def file_pwrite_def)
qed

end
