(* ===== verification/Dfa_Sets.thy ===== *)
theory Dfa_Sets
  imports Zebra_Prelude
begin

text \<open>
  The two representations of sets the automaton construction uses: ordered linked lists
  (\<^verbatim>\<open>dfa/set.c\<close>) and bit vectors (\<^verbatim>\<open>dfa/bset.c\<close>). A linked list is a list of its values; what the list set
  type keeps is the number of elements in use, on the free list and in allocated chunks. A bit vector is a list of
  16 bit words (\<^verbatim>\<open>unsigned short\<close>). Both satisfy one contract, \<open>member_set\<close>.
\<close>

section \<open>The contract\<close>

locale member_set =
  fixes inv :: "'s \<Rightarrow> bool" and abs :: "'s \<Rightarrow> 'm set" and dom :: "'m set"
    and empty :: 's and add :: "'m \<Rightarrow> 's \<Rightarrow> 's" and uni :: "'s \<Rightarrow> 's \<Rightarrow> 's" and same :: "'s \<Rightarrow> 's \<Rightarrow> bool"
  assumes empty_ok: "inv empty" "abs empty = {}"
    and add_ok: "inv s \<Longrightarrow> n \<in> dom \<Longrightarrow> inv (add n s) \<and> abs (add n s) = insert n (abs s)"
    and uni_ok: "inv s \<Longrightarrow> inv t \<Longrightarrow> inv (uni s t) \<and> abs (uni s t) = abs s \<union> abs t"
    and same_ok: "inv s \<Longrightarrow> inv t \<Longrightarrow> same s t \<longleftrightarrow> abs s = abs t"
begin

lemma add_all: "set ns \<subseteq> dom \<Longrightarrow> inv s \<Longrightarrow> inv (fold add ns s) \<and> abs (fold add ns s) = set ns \<union> abs s"
  by (induction ns arbitrary: s) (auto simp: add_ok)

text \<open>A set does not depend on the order its members were added in, nor on how often.\<close>

lemma add_all_same: "set ns \<subseteq> dom \<Longrightarrow> set ms = set ns \<Longrightarrow> same (fold add ns empty) (fold add ms empty)"
  using add_all [of ns empty] add_all [of ms empty] by (simp add: empty_ok same_ok)

lemma uni_add_all:
  "set ns \<subseteq> dom \<Longrightarrow> set ms \<subseteq> dom \<Longrightarrow> same (uni (fold add ns empty) (fold add ms empty)) (fold add (ns @ ms) empty)"
  using add_all [of ns empty] add_all [of ms empty] add_all [of ms "fold add ns empty"]
  by (simp add: empty_ok same_ok uni_ok Un_commute)

end

section \<open>Ordered lists\<close>

record dfaset_type =
  st_used :: int
  st_chunk :: nat
  st_free :: nat
  st_chunks :: nat

definition mk_DFASetType :: "nat \<Rightarrow> dfaset_type option" where
  "mk_DFASetType chunk = (if 8 < chunk \<and> chunk < 8000 then Some \<lparr>st_used = 0, st_chunk = chunk, st_free = 0, st_chunks = 0\<rparr> else None)"

definition inf_DFASetType :: "dfaset_type \<Rightarrow> int \<times> nat" where
  "inf_DFASetType st = (st_used st, st_chunks st * st_chunk st)"

definition mk_DFASetElement :: "dfaset_type \<Rightarrow> dfaset_type" where
  "mk_DFASetElement st =
     (let st = (if st_free st = 0 then st\<lparr>st_free := st_chunk st, st_chunks := st_chunks st + 1\<rparr> else st)
      in st\<lparr>st_used := st_used st + 1, st_free := st_free st - 1\<rparr>)"

text \<open>Freeing a list returns its elements to the free list; the assertion is on the count.\<close>

definition rm_DFASet :: "dfaset_type \<Rightarrow> int list \<Rightarrow> dfaset_type option" where
  "rm_DFASet st s =
     (let st' = st\<lparr>st_used := st_used st - int (length s), st_free := st_free st + length s\<rparr>
      in if s = [] \<or> 0 \<le> st_used st' then Some st' else None)"

fun add_DFASet :: "dfaset_type \<Rightarrow> int list \<Rightarrow> int \<Rightarrow> int list \<times> dfaset_type" where
  "add_DFASet st [] n = ([n], mk_DFASetElement st)"
| "add_DFASet st (v # s) n =
     (if v < n then (case add_DFASet st s n of (s', st') \<Rightarrow> (v # s', st'))
      else if v = n then (v # s, st)
      else (n # v # s, mk_DFASetElement st))"

text \<open>The union takes over the elements of the first list and allocates for the second one.\<close>

fun union_DFASet :: "dfaset_type \<Rightarrow> int list \<Rightarrow> int list \<Rightarrow> int list \<times> dfaset_type" where
  "union_DFASet st (a # s1) (b # s2) =
     (if a < b then (case union_DFASet st s1 (b # s2) of (s, st') \<Rightarrow> (a # s, st'))
      else if b < a then (case union_DFASet (mk_DFASetElement st) (a # s1) s2 of (s, st') \<Rightarrow> (b # s, st'))
      else (case union_DFASet st s1 s2 of (s, st') \<Rightarrow> (a # s, st')))"
| "union_DFASet st (a # s1) [] = (a # s1, st)"
| "union_DFASet st [] (b # s2) = (case union_DFASet (mk_DFASetElement st) [] s2 of (s, st') \<Rightarrow> (b # s, st'))"
| "union_DFASet st [] [] = ([], st)"

text \<open>The merge allocates every element; both arguments stay as they are.\<close>

fun merge_DFASet :: "dfaset_type \<Rightarrow> int list \<Rightarrow> int list \<Rightarrow> int list \<times> dfaset_type" where
  "merge_DFASet st (a # s1) (b # s2) =
     (if a < b then (case merge_DFASet (mk_DFASetElement st) s1 (b # s2) of (s, st') \<Rightarrow> (a # s, st'))
      else if b < a then (case merge_DFASet (mk_DFASetElement st) (a # s1) s2 of (s, st') \<Rightarrow> (b # s, st'))
      else (case merge_DFASet (mk_DFASetElement st) s1 s2 of (s, st') \<Rightarrow> (a # s, st')))"
| "merge_DFASet st [] (b # s2) = (case merge_DFASet (mk_DFASetElement st) [] s2 of (s, st') \<Rightarrow> (b # s, st'))"
| "merge_DFASet st (a # s1) [] = (case merge_DFASet (mk_DFASetElement st) s1 [] of (s, st') \<Rightarrow> (a # s, st'))"
| "merge_DFASet st [] [] = ([], st)"

definition cp_DFASet :: "dfaset_type \<Rightarrow> int list \<Rightarrow> int list \<times> dfaset_type" where
  "cp_DFASet st s = merge_DFASet st s []"

definition hash_DFASet :: "int list \<Rightarrow> 32 word" where
  "hash_DFASet s = fold (\<lambda>v n. n + word_of_int (11 * v)) s 0"

fun eq_DFASet :: "int list \<Rightarrow> int list \<Rightarrow> bool" where
  "eq_DFASet (a # s1) (b # s2) = (if a \<noteq> b then False else eq_DFASet s1 s2)"
| "eq_DFASet s1 s2 = (s1 = [] \<and> s2 = [])"

subsection \<open>Values\<close>

abbreviation dset :: "int list \<Rightarrow> bool" where
  "dset s \<equiv> sorted_wrt (<) s"

lemma add_DFASet_set: "set (fst (add_DFASet st s n)) = insert n (set s)"
  by (induction s) (auto simp: case_prod_beta)

lemma add_DFASet_sorted: "dset s \<Longrightarrow> dset (fst (add_DFASet st s n))"
  by (induction s) (auto simp: case_prod_beta add_DFASet_set)

lemma union_DFASet_set: "set (fst (union_DFASet st s t)) = set s \<union> set t"
  by (induction st s t rule: union_DFASet.induct) (auto simp: case_prod_beta)

lemma union_DFASet_sorted: "dset s \<Longrightarrow> dset t \<Longrightarrow> dset (fst (union_DFASet st s t))"
  by (induction st s t rule: union_DFASet.induct)
    (auto simp: case_prod_beta union_DFASet_set intro: less_trans)

lemma union_DFASet_Nil: "union_DFASet st s [] = (s, st)"
  by (cases s) simp_all

lemma merge_DFASet_union: "fst (merge_DFASet st s t) = fst (union_DFASet st' s t)"
  by (induction st s t arbitrary: st' rule: merge_DFASet.induct) (simp_all add: case_prod_beta union_DFASet_Nil)

lemma eq_DFASet_iff: "eq_DFASet s t \<longleftrightarrow> s = t"
  by (induction s t rule: eq_DFASet.induct) auto

lemma dset_unique: "dset s \<Longrightarrow> dset t \<Longrightarrow> set s = set t \<Longrightarrow> s = t"
  by (rule sorted_distinct_set_unique) (auto simp: strict_sorted_iff)

subsection \<open>Memory\<close>

text \<open>Every element allocated is in use or free, and \<open>k\<close> more are in use.\<close>

definition st_ok :: "dfaset_type \<Rightarrow> bool" where
  "st_ok st \<longleftrightarrow> 0 < st_chunk st \<and> st_used st + int (st_free st) = int (st_chunks st * st_chunk st)"

lemma mk_element_ok: "st_ok st \<Longrightarrow> st_ok (mk_DFASetElement st) \<and> st_used (mk_DFASetElement st) = st_used st + 1"
  by (auto simp: st_ok_def mk_DFASetElement_def Let_def algebra_simps)

lemma merge_DFASet_used:
  "st_ok st \<Longrightarrow> st_ok (snd (merge_DFASet st s t)) \<and>
    st_used (snd (merge_DFASet st s t)) = st_used st + int (length (fst (merge_DFASet st s t)))"
  by (induction st s t rule: merge_DFASet.induct) (auto simp: case_prod_beta dest: mk_element_ok)

lemma union_DFASet_used:
  "st_ok st \<Longrightarrow> st_ok (snd (union_DFASet st s t)) \<and>
    st_used (snd (union_DFASet st s t)) = st_used st + int (length (fst (union_DFASet st s t))) - int (length s)"
  by (induction st s t rule: union_DFASet.induct) (auto simp: case_prod_beta dest: mk_element_ok)

lemma add_DFASet_used:
  "st_ok st \<Longrightarrow> st_ok (snd (add_DFASet st s n)) \<and>
    st_used (snd (add_DFASet st s n)) = st_used st + int (length (fst (add_DFASet st s n))) - int (length s)"
  by (induction s) (auto simp: case_prod_beta dest: mk_element_ok)

text \<open>\<open>uses st st' k\<close>: the accounts are in order in both states, and \<open>k\<close> more elements are in use in the second.\<close>

definition uses :: "dfaset_type \<Rightarrow> dfaset_type \<Rightarrow> nat \<Rightarrow> bool" where
  "uses st st' k \<longleftrightarrow> st_ok st \<and> st_ok st' \<and> st_used st' = st_used st + int k"

lemma dset_length: "dset s \<Longrightarrow> length s = card (set s)"
  by (simp add: strict_sorted_iff distinct_card)

lemma add_DFASet_uses:
  assumes "dset s" "st_ok st"
  shows "uses st (snd (add_DFASet st s n)) (if n \<in> set s then 0 else 1)"
  using add_DFASet_used [OF assms(2), of s n] dset_length [OF add_DFASet_sorted [OF assms(1), of st n]] dset_length [OF assms(1)] assms(2)
  by (simp add: uses_def add_DFASet_set card_insert_if)

lemma union_DFASet_uses:
  assumes "dset s" "dset t" "st_ok st"
  shows "uses st (snd (union_DFASet st s t)) (card (set t - set s))"
proof -
  have "card (set s \<union> set t) = card (set s) + card (set t - set s)"
    using card_Un_disjoint [of "set s" "set t - set s"] by simp
  then show ?thesis
    using union_DFASet_used [OF assms(3), of s t] dset_length [OF union_DFASet_sorted [OF assms(1,2), of st]] dset_length [OF assms(1)] assms(3)
    by (simp add: uses_def union_DFASet_set)
qed

lemma merge_DFASet_uses:
  assumes "dset s" "dset t" "st_ok st"
  shows "uses st (snd (merge_DFASet st s t)) (card (set s \<union> set t))"
  using merge_DFASet_used [OF assms(3), of s t] dset_length [OF union_DFASet_sorted [OF assms(1,2), of st]] assms(3)
  by (simp add: uses_def union_DFASet_set merge_DFASet_union [of _ _ _ st])

lemma cp_DFASet_fst: "fst (cp_DFASet st s) = s"
  by (simp add: cp_DFASet_def merge_DFASet_union [of _ _ _ st] union_DFASet_Nil)

lemma cp_DFASet_uses: "dset s \<Longrightarrow> st_ok st \<Longrightarrow> uses st (snd (cp_DFASet st s)) (card (set s))"
  using merge_DFASet_uses [of s "[]" st] by (simp add: cp_DFASet_def)

lemma rm_DFASet_uses:
  assumes "dset s" "st_ok st"
  shows "if s = [] \<or> int (card (set s)) \<le> st_used st then \<exists>st'. rm_DFASet st s = Some st' \<and> uses st' st (card (set s))
    else rm_DFASet st s = None"
  using assms(2) dset_length [OF assms(1)] by (auto simp: rm_DFASet_def Let_def uses_def st_ok_def)

interpretation ls: member_set dset set UNIV "[]" "\<lambda>n s. fst (add_DFASet st s n)" "\<lambda>s t. fst (union_DFASet st s t)" eq_DFASet
  for st
  by unfold_locales (auto simp: add_DFASet_set add_DFASet_sorted union_DFASet_set union_DFASet_sorted eq_DFASet_iff dest: dset_unique)

section \<open>Bit vectors\<close>

type_synonym bset = "16 word list"

record bset_handle =
  bh_size :: nat
  bh_wsize :: nat
  bh_chunk :: nat
  bh_offset :: nat
  bh_setchain :: "nat list"

definition mk_BSetHandle :: "nat \<Rightarrow> int \<Rightarrow> bset_handle" where
  "mk_BSetHandle sz chunk =
     (let wsize = 1 + sz div 16; chunk = (if chunk \<le> 1 then 32 else nat chunk)
      in \<lparr>bh_size = sz, bh_wsize = wsize, bh_chunk = chunk * wsize, bh_offset = 0, bh_setchain = []\<rparr>)"

text \<open>\<open>bh_setchain\<close> holds the offsets of the older blocks, all of the same size. The result is used, allocated and
  the word size.\<close>

definition inf_BSetHandle :: "bset_handle \<Rightarrow> nat \<times> nat \<times> nat" where
  "inf_BSetHandle sh = (sum_list (bh_offset sh # bh_setchain sh), (1 + length (bh_setchain sh)) * bh_chunk sh, bh_wsize sh)"

text \<open>A new set is \<open>bh_wsize\<close> words of the newest block, not initialised; the result is its offset.\<close>

definition mk_BSet :: "bset_handle \<Rightarrow> nat \<times> bset_handle" where
  "mk_BSet sh =
     (if bh_chunk sh < bh_offset sh + bh_wsize sh
      then (0, sh\<lparr>bh_setchain := bh_offset sh # bh_setchain sh, bh_offset := bh_wsize sh\<rparr>)
      else (bh_offset sh, sh\<lparr>bh_offset := bh_offset sh + bh_wsize sh\<rparr>))"

definition GET_BIT :: "bset \<Rightarrow> nat \<Rightarrow> bool" where
  "GET_BIT s m \<longleftrightarrow> s ! (m div 16) AND push_bit (m mod 16) 1 \<noteq> 0"

definition SET_BIT :: "bset \<Rightarrow> nat \<Rightarrow> bset" where
  "SET_BIT s m = s[m div 16 := s ! (m div 16) OR push_bit (m mod 16) 1]"

definition add_BSet :: "bset_handle \<Rightarrow> bset \<Rightarrow> nat \<Rightarrow> bset option" where
  "add_BSet sh dst member = (if member \<le> bh_size sh then Some (SET_BIT dst member) else None)"

definition test_BSet :: "bset_handle \<Rightarrow> bset \<Rightarrow> nat \<Rightarrow> bool option" where
  "test_BSet sh src member = (if member \<le> bh_size sh then Some (GET_BIT src member) else None)"

definition cp_BSet :: "bset_handle \<Rightarrow> bset \<Rightarrow> bset \<Rightarrow> bset" where
  "cp_BSet sh dst src = take (bh_wsize sh) src @ drop (bh_wsize sh) dst"

definition res_BSet :: "bset_handle \<Rightarrow> bset \<Rightarrow> bset" where
  "res_BSet sh dst = replicate (bh_wsize sh) 0 @ drop (bh_wsize sh) dst"

definition union_BSet :: "bset \<Rightarrow> bset \<Rightarrow> bset" where
  "union_BSet dst src = map2 (OR) dst src"

definition com_BSet :: "bset \<Rightarrow> bset" where
  "com_BSet dst = map NOT dst"

definition hash_BSet :: "bset \<Rightarrow> 32 word" where
  "hash_BSet src = fold (\<lambda>w s. s + ucast w) src 0"

fun eq_BSet :: "bset \<Rightarrow> bset \<Rightarrow> bool" where
  "eq_BSet (a # dst) (b # src) = (if a \<noteq> b then False else eq_BSet dst src)"
| "eq_BSet _ _ = True"

text \<open>The loop of the two traversals: \<open>neg\<close> looks for a bit that is not set. Reading behind the last word is
  \<open>None\<close>.\<close>

function trav_loop :: "bool \<Rightarrow> bset \<Rightarrow> nat \<Rightarrow> int \<Rightarrow> nat \<Rightarrow> nat \<Rightarrow> int option" where
  "trav_loop neg src member i sw b =
     (if 0 \<le> i then
        (if length src \<le> sw then None
         else if b = 0 \<and> src ! sw = (if neg then NOT 0 else 0)
           then trav_loop neg src (member + 16) (i - 16) (sw + 1) 0
         else if bit (src ! sw) b \<noteq> neg then Some (int member)
         else if b + 1 = 16 then trav_loop neg src (member + 1) (i - 1) (sw + 1) 0
         else trav_loop neg src (member + 1) (i - 1) sw (b + 1))
      else Some (- 1))"
  by pat_completeness auto
termination
  by (relation "measure (\<lambda>(neg, src, member, i, sw, b). nat (i + 1))") auto

declare trav_loop.simps [simp del]

text \<open>\<open>int i = sh->size - member\<close>: the difference is an \<^verbatim>\<open>unsigned\<close> one and its conversion to \<^verbatim>\<open>int\<close> reads it as
  two's complement.\<close>

definition bset_left :: "bset_handle \<Rightarrow> nat \<Rightarrow> int" where
  "bset_left sh member = sint (word_of_nat (bh_size sh) - word_of_nat member :: 32 word)"

definition trav_BSet :: "bset_handle \<Rightarrow> bset \<Rightarrow> nat \<Rightarrow> int option" where
  "trav_BSet sh src member =
     trav_loop False src member (bset_left sh member) (member div 16) (member mod 16)"

definition travi_BSet :: "bset_handle \<Rightarrow> bset \<Rightarrow> nat \<Rightarrow> int option" where
  "travi_BSet sh src member =
     trav_loop True src member (bset_left sh member) (member div 16) (member mod 16)"

subsection \<open>Members\<close>

definition bset_abs :: "bset \<Rightarrow> nat set" where
  "bset_abs s = {m. m < 16 * length s \<and> bit (s ! (m div 16)) (m mod 16)}"

definition bset_ok :: "nat \<Rightarrow> bset \<Rightarrow> bool" where
  "bset_ok sz s \<longleftrightarrow> length s = 1 + sz div 16 \<and> bset_abs s \<subseteq> {..sz}"

lemma GET_BIT_iff: "m < 16 * length s \<Longrightarrow> GET_BIT s m \<longleftrightarrow> m \<in> bset_abs s"
  by (simp add: GET_BIT_def bset_abs_def bit_iff_and_push_bit_not_eq_0)

lemma word_index: "m < 16 * (n :: nat) \<Longrightarrow> m div 16 < n"
  by (simp add: less_mult_imp_div_less mult.commute)

lemma SET_BIT_abs:
  assumes "m < 16 * length s"
  shows "bset_abs (SET_BIT s m) = insert m (bset_abs s)"
proof -
  have eq: "k div 16 = m div 16 \<and> k mod 16 = m mod 16 \<longleftrightarrow> k = m" for k :: nat
    by (metis div_mult_mod_eq)
  have "k \<in> bset_abs (SET_BIT s m) \<longleftrightarrow> k = m \<or> k \<in> bset_abs s" for k
  proof (cases "k div 16 = m div 16")
    case True
    then show ?thesis
      using assms word_index [OF assms] eq [of k]
      by (auto simp: bset_abs_def SET_BIT_def bit_or_iff bit_exp_iff)
  next
    case False
    then show ?thesis by (auto simp: bset_abs_def SET_BIT_def)
  qed
  then show ?thesis by blast
qed

lemma size_bound: "m \<le> sz \<Longrightarrow> m < 16 * (1 + sz div (16 :: nat))"
  using div_mult_mod_eq [of sz 16] mod_less_divisor [of 16 sz] by (simp add: algebra_simps)

lemma union_BSet_abs: "length s = length t \<Longrightarrow> bset_abs (union_BSet s t) = bset_abs s \<union> bset_abs t"
  using word_index [of _ "length t"] by (auto simp: bset_abs_def union_BSet_def bit_or_iff)

lemma com_BSet_abs: "bset_abs (com_BSet s) = {..<16 * length s} - bset_abs s"
  using word_index [of _ "length s"] by (auto simp: bset_abs_def com_BSet_def bit_not_iff)

lemma eq_BSet_iff: "length s = length t \<Longrightarrow> eq_BSet s t \<longleftrightarrow> s = t"
  by (induction s t rule: eq_BSet.induct) auto

lemma bset_abs_inj:
  assumes "length s = length t" "bset_abs s = bset_abs t"
  shows "s = t"
proof (rule nth_equalityI)
  fix i assume i: "i < length s"
  have "bit (s ! i) j \<longleftrightarrow> bit (t ! i) j" if "j < 16" for j
  proof -
    have "(16 * i + j \<in> bset_abs s) = (16 * i + j \<in> bset_abs t)" using assms(2) by simp
    then show ?thesis using i that assms(1) by (simp add: bset_abs_def)
  qed
  then show "s ! i = t ! i" by (intro bit_word_eqI) simp
qed (use assms in simp)

lemma empty_abs: "bset_abs (replicate n 0) = {}"
  using word_index [of _ n] by (auto simp: bset_abs_def)

interpretation bv: member_set "bset_ok sz" bset_abs "{..sz}" "replicate (1 + sz div 16) 0"
  "\<lambda>n s. the (add_BSet (mk_BSetHandle sz chunk) s n)" union_BSet eq_BSet
  for sz chunk
proof unfold_locales
  fix s t :: bset and n
  show "bset_ok sz (replicate (1 + sz div 16) 0)" by (simp add: bset_ok_def empty_abs del: replicate_Suc)
  show "bset_abs (replicate (1 + sz div 16) 0) = {}" by (rule empty_abs)
  show "bset_ok sz (the (add_BSet (mk_BSetHandle sz chunk) s n)) \<and>
      bset_abs (the (add_BSet (mk_BSetHandle sz chunk) s n)) = insert n (bset_abs s)"
    if "bset_ok sz s" "n \<in> {..sz}"
    using that size_bound [of n sz] SET_BIT_abs [of n s]
    by (simp add: bset_ok_def add_BSet_def mk_BSetHandle_def Let_def SET_BIT_def)
  show "bset_ok sz (union_BSet s t) \<and> bset_abs (union_BSet s t) = bset_abs s \<union> bset_abs t"
    if "bset_ok sz s" "bset_ok sz t"
    using that union_BSet_abs [of s t] by (simp add: bset_ok_def) (simp add: union_BSet_def)
  show "eq_BSet s t = (bset_abs s = bset_abs t)" if "bset_ok sz s" "bset_ok sz t"
    using that eq_BSet_iff [of s t] bset_abs_inj [of s t] by (auto simp: bset_ok_def)
qed

subsection \<open>Traversal\<close>

text \<open>A traversal result: the first position from \<open>from\<close> to \<open>size\<close> with the property, or -1.\<close>

definition first_from :: "(nat \<Rightarrow> bool) \<Rightarrow> nat \<Rightarrow> nat \<Rightarrow> int \<Rightarrow> bool" where
  "first_from P start sz r \<longleftrightarrow>
     r = - 1 \<and> (\<forall>k. start \<le> k \<and> k \<le> sz \<longrightarrow> \<not> P k) \<or>
     (\<exists>k. r = int k \<and> start \<le> k \<and> k \<le> sz \<and> P k \<and> (\<forall>j. start \<le> j \<and> j < k \<longrightarrow> \<not> P j))"

lemma first_from_skip:
  assumes "first_from P (start + n) sz r" "\<And>j. start \<le> j \<Longrightarrow> j < start + n \<Longrightarrow> \<not> P j"
  shows "first_from P start sz r"
proof (cases "r = - 1")
  case True
  then have "\<forall>k. start + n \<le> k \<and> k \<le> sz \<longrightarrow> \<not> P k" using assms(1) by (auto simp: first_from_def)
  then have "\<not> P k" if "start \<le> k" "k \<le> sz" for k using assms(2) [of k] that by (cases "k < start + n") auto
  then show ?thesis using True by (auto simp: first_from_def)
next
  case False
  then obtain k where k: "r = int k" "start + n \<le> k" "k \<le> sz" "P k" "\<forall>j. start + n \<le> j \<and> j < k \<longrightarrow> \<not> P j"
    using assms(1) by (auto simp: first_from_def)
  then have "\<not> P j" if "start \<le> j" "j < k" for j using assms(2) [of j] that by (cases "j < start + n") auto
  with k show ?thesis by (auto simp: first_from_def)
qed

lemma first_from_cong:
  assumes "\<And>k. k \<le> sz \<Longrightarrow> P k = Q k"
  shows "first_from P start sz r \<longleftrightarrow> first_from Q start sz r"
proof -
  have "(\<forall>k. start \<le> k \<and> k \<le> sz \<longrightarrow> \<not> P k) \<longleftrightarrow> (\<forall>k. start \<le> k \<and> k \<le> sz \<longrightarrow> \<not> Q k)" using assms by auto
  moreover have "k \<le> sz \<and> P k \<and> (\<forall>j. start \<le> j \<and> j < k \<longrightarrow> \<not> P j) \<longleftrightarrow>
      k \<le> sz \<and> Q k \<and> (\<forall>j. start \<le> j \<and> j < k \<longrightarrow> \<not> Q j)" for k
    using assms by (cases "k \<le> sz") auto
  ultimately show ?thesis unfolding first_from_def by simp
qed

lemma trav_loop_first:
  assumes "length src = 1 + sz div 16"
  shows "\<exists>r. trav_loop neg src member (int sz - int member) (member div 16) (member mod 16) = Some r \<and>
    first_from (\<lambda>k. bit (src ! (k div 16)) (k mod 16) \<noteq> neg) member sz r"
proof (induction "sz + 1 - member" arbitrary: member rule: less_induct)
  case less
  let ?P = "\<lambda>k. bit (src ! (k div 16)) (k mod 16) \<noteq> neg"
  let ?sw = "member div 16" and ?b = "member mod 16"
  show ?case
  proof (cases "member \<le> sz")
    case False
    then show ?thesis by (subst trav_loop.simps) (auto simp: first_from_def)
  next
    case True
    have sw: "\<not> length src \<le> ?sw" using div_le_mono [OF True, of 16] assms by simp
    have b: "?b < 16" by simp
    show ?thesis
    proof (cases "?b = 0 \<and> src ! ?sw = (if neg then NOT 0 else 0)")
      case skip: True
      have lt: "sz + 1 - (member + 16) < sz + 1 - member" using True by linarith
      have "\<not> ?P j" if "member \<le> j" "j < member + 16" for j
      proof -
        have "member = 16 * ?sw" using skip div_mult_mod_eq [of member 16] by simp
        then have "j div 16 = ?sw" using that mult_Suc_right [of 16 ?sw] by (intro div_nat_eqI) linarith+
        then show ?thesis using skip by (simp add: bit_not_iff)
      qed
      moreover obtain r where "trav_loop neg src (member + 16) (int sz - int (member + 16)) ((member + 16) div 16) ((member + 16) mod 16) = Some r"
        "first_from ?P (member + 16) sz r" using less [OF lt] by blast
      moreover have "(member + 16) div 16 = ?sw + 1" "(member + 16) mod 16 = 0" using skip by simp_all
      ultimately show ?thesis using True sw skip first_from_skip [of ?P member 16 sz r]
        by (subst trav_loop.simps) (auto simp: algebra_simps)
    next
      case here: False
      show ?thesis
      proof (cases "?P member")
        case hit: True
        then have "trav_loop neg src member (int sz - int member) ?sw ?b = Some (int member)"
          using True sw here by (cases neg; subst trav_loop.simps; auto)
        then show ?thesis using True hit by (auto simp: first_from_def)
      next
        case miss: False
        have lt1: "sz + 1 - (member + 1) < sz + 1 - member" using True by linarith
        obtain r where r: "trav_loop neg src (member + 1) (int sz - int (member + 1)) ((member + 1) div 16) ((member + 1) mod 16) = Some r"
          "first_from ?P (member + 1) sz r" using less [OF lt1] by blast
        have "trav_loop neg src member (int sz - int member) ?sw ?b =
            trav_loop neg src (member + 1) (int sz - int (member + 1)) ((member + 1) div 16) ((member + 1) mod 16)"
        proof (cases "?b + 1 = 16")
          case True
          then have "(member + 1) div 16 = ?sw + 1" "(member + 1) mod 16 = 0" by (simp_all add: div_Suc mod_Suc)
          then show ?thesis using \<open>member \<le> sz\<close> sw here miss True by (cases neg; subst trav_loop.simps; auto simp: algebra_simps)
        next
          case False
          then have "(member + 1) div 16 = ?sw" "(member + 1) mod 16 = ?b + 1" by (simp_all add: div_Suc mod_Suc)
          then show ?thesis using \<open>member \<le> sz\<close> sw here miss False by (cases neg; subst trav_loop.simps; auto simp: algebra_simps)
        qed
        moreover have "first_from ?P member sz r" using r(2) by (rule first_from_skip) (use miss in \<open>simp add: less_Suc_eq_le order_antisym_conv\<close>)
        ultimately show ?thesis using r(1) by auto
      qed
    qed
  qed
qed

lemma bset_abs_bit: "length s = 1 + sz div 16 \<Longrightarrow> k \<le> sz \<Longrightarrow> k \<in> bset_abs s \<longleftrightarrow> bit (s ! (k div 16)) (k mod 16)"
  using size_bound [of k sz] by (simp add: bset_abs_def)

lemma bset_left_word: "bset_left sh m = sint (word_of_int (int (bh_size sh) - int m) :: 32 word)"
  by (simp add: bset_left_def)

lemma bset_left_diff:
  assumes "bh_size sh < 2 ^ 31" "m \<le> bh_size sh + 2 ^ 31"
  shows "bset_left sh m = int (bh_size sh) - int m"
proof -
  have "- (2 ^ 31) \<le> int (bh_size sh) - int m" "int (bh_size sh) - int m < 2 ^ 31" using assms by simp_all
  then show ?thesis unfolding bset_left_word by (rule sint_word32)
qed

lemma bset_left_wraps:
  assumes "bh_size sh < 2 ^ 31" "bh_size sh + 2 ^ 31 < m" "m < 2 ^ 32"
  shows "0 \<le> bset_left sh m"
proof -
  have "word_of_int (int (bh_size sh) - int m) = (word_of_int (int (bh_size sh) - int m + 2 ^ 32) :: 32 word)"
    by (simp only: word_of_int_eq_iff) (simp add: take_bit_eq_mod)
  moreover have "- (2 ^ 31) \<le> int (bh_size sh) - int m + 2 ^ 32" "int (bh_size sh) - int m + 2 ^ 32 < 2 ^ 31" "0 \<le> int (bh_size sh) - int m + 2 ^ 32"
    using assms by simp_all
  ultimately show ?thesis unfolding bset_left_word using sint_word32 [of "int (bh_size sh) - int m + 2 ^ 32"] by presburger
qed

text \<open>A member so far beyond the size that the difference wraps is read from behind the vector.\<close>

lemma trav_BSet_outside:
  assumes "length s = 1 + bh_size sh div 16" "bh_size sh < 2 ^ 31" "bh_size sh + 2 ^ 31 < m" "m < 2 ^ 32"
  shows "trav_BSet sh s m = None \<and> travi_BSet sh s m = None"
proof -
  have "bh_size sh + 16 \<le> m" using assms(3) by simp
  then have "length s \<le> m div 16" using div_le_mono [of "bh_size sh + 16" m 16] assms(1) by simp
  then show ?thesis using bset_left_wraps [OF assms(2-4)]
    by (simp add: trav_BSet_def travi_BSet_def trav_loop.simps)
qed

lemma trav_BSet_first:
  assumes "length s = 1 + bh_size sh div 16" "bh_size sh < 2 ^ 31" "m \<le> bh_size sh + 2 ^ 31"
  shows "\<exists>r. trav_BSet sh s m = Some r \<and> first_from (\<lambda>k. k \<in> bset_abs s) m (bh_size sh) r"
  using trav_loop_first [OF assms(1), of False m] bset_abs_bit [OF assms(1)] bset_left_diff [OF assms(2,3)]
    first_from_cong [of "bh_size sh" "\<lambda>k. k \<in> bset_abs s" "\<lambda>k. bit (s ! (k div 16)) (k mod 16) \<noteq> False"] by (auto simp: trav_BSet_def)

lemma travi_BSet_first:
  assumes "length s = 1 + bh_size sh div 16" "bh_size sh < 2 ^ 31" "m \<le> bh_size sh + 2 ^ 31"
  shows "\<exists>r. travi_BSet sh s m = Some r \<and> first_from (\<lambda>k. k \<notin> bset_abs s) m (bh_size sh) r"
  using trav_loop_first [OF assms(1), of True m] bset_abs_bit [OF assms(1)] bset_left_diff [OF assms(2,3)]
    first_from_cong [of "bh_size sh" "\<lambda>k. k \<notin> bset_abs s" "\<lambda>k. bit (s ! (k div 16)) (k mod 16) \<noteq> True"] by (auto simp: travi_BSet_def)

section \<open>Properties\<close>

text \<open>C19: The ordered lists of the automaton construction implement sets of integers: adding and uniting (in place or
  into a new list) keep a list strictly increasing and mean insertion and union, copying gives the same
  list, and comparing decides equality of the sets. Elements in use and free elements always make up the
  allocated chunks, and the accounts are exact: adding takes one element if the number was no member and none
  otherwise, uniting in place one for each member of the second set the first one lacks, merging one for
  each member of the union and copying one for each member; freeing a list gives its elements back, and its
  assertion fails only if more would be given back than are in use.\<close>

theorem dfa_set_operations:
  assumes "sorted_wrt (<) s" "sorted_wrt (<) t" "st_ok st"
  shows "(sorted_wrt (<) (fst (add_DFASet st s n)) \<and> set (fst (add_DFASet st s n)) = insert n (set s)) \<and>
    (sorted_wrt (<) (fst (union_DFASet st s t)) \<and> set (fst (union_DFASet st s t)) = set s \<union> set t) \<and>
    (fst (merge_DFASet st s t) = fst (union_DFASet st s t)) \<and>
    (fst (cp_DFASet st s) = s) \<and>
    (eq_DFASet s t \<longleftrightarrow> set s = set t) \<and>
    uses st (snd (add_DFASet st s n)) (if n \<in> set s then 0 else 1) \<and>
    uses st (snd (union_DFASet st s t)) (card (set t - set s)) \<and>
    uses st (snd (merge_DFASet st s t)) (card (set s \<union> set t)) \<and>
    uses st (snd (cp_DFASet st s)) (card (set s)) \<and>
    (if s = [] \<or> int (card (set s)) \<le> st_used st then \<exists>st'. rm_DFASet st s = Some st' \<and> uses st' st (card (set s))
     else rm_DFASet st s = None)"
proof -
  have c1: "sorted_wrt (<) (fst (add_DFASet st s n)) \<and> set (fst (add_DFASet st s n)) = insert n (set s)"
    using ls.add_ok [OF assms(1)] by simp
  have c2: "sorted_wrt (<) (fst (union_DFASet st s t)) \<and> set (fst (union_DFASet st s t)) = set s \<union> set t"
    using ls.uni_ok [OF assms(1,2)] by simp
  have c3: "fst (merge_DFASet st s t) = fst (union_DFASet st s t)" by (rule merge_DFASet_union)
  have c4: "fst (cp_DFASet st s) = s" by (rule cp_DFASet_fst)
  have c5: "eq_DFASet s t \<longleftrightarrow> set s = set t" by (rule ls.same_ok [OF assms(1,2)])
  show ?thesis
    using c1 c2 c3 c4 c5 add_DFASet_uses [OF assms(1,3)] union_DFASet_uses [OF assms] merge_DFASet_uses [OF assms]
      cp_DFASet_uses [OF assms(1,3)] rm_DFASet_uses [OF assms(1,3)] by blast
qed

theorem dfa_set_operations_witness:
  "set (fst (union_DFASet \<lparr>st_used = 0, st_chunk = 10, st_free = 0, st_chunks = 0\<rparr> [1, 4] [2, 4])) = {1, 2, 4} \<and>
   eq_DFASet [1, 4] [2, 4] = False"
  using dfa_set_operations [of "[1, 4]" "[2, 4]" "\<lparr>st_used = 0, st_chunk = 10, st_free = 0, st_chunks = 0\<rparr>"]
  by (auto simp: st_ok_def doubleton_eq_iff)

text \<open>C17: Bit vectors of a handle implement sets of the numbers up to its size: adding, uniting, testing and
  comparing mean insertion, union, membership and equality, and a number beyond the size trips the
  assertion.\<close>

theorem bset_operations:
  assumes "bset_ok sz s" "bset_ok sz t" "m \<le> sz" "sh = mk_BSetHandle sz chunk"
  shows "(\<exists>s'. add_BSet sh s m = Some s' \<and> bset_ok sz s' \<and> bset_abs s' = insert m (bset_abs s)) \<and>
    (bset_ok sz (union_BSet s t) \<and> bset_abs (union_BSet s t) = bset_abs s \<union> bset_abs t) \<and>
    (test_BSet sh s m = Some (m \<in> bset_abs s)) \<and>
    (eq_BSet s t \<longleftrightarrow> bset_abs s = bset_abs t) \<and>
    (sz < k \<longrightarrow> add_BSet sh s k = None \<and> test_BSet sh s k = None) \<and>
    (bset_abs (com_BSet s) \<inter> {..sz} = {..sz} - bset_abs s)"
proof -
  have size: "bh_size sh = sz" by (simp add: assms(4) mk_BSetHandle_def Let_def)
  have m: "m < 16 * length s" using assms(1) size_bound [OF assms(3)] by (simp add: bset_ok_def)
  have c1: "\<exists>s'. add_BSet sh s m = Some s' \<and> bset_ok sz s' \<and> bset_abs s' = insert m (bset_abs s)"
    using bv.add_ok [OF assms(1), of m chunk] assms(3) size by (auto simp: add_BSet_def assms(4))
  have c2: "bset_ok sz (union_BSet s t) \<and> bset_abs (union_BSet s t) = bset_abs s \<union> bset_abs t"
    by (rule bv.uni_ok [OF assms(1,2)])
  have c3: "test_BSet sh s m = Some (m \<in> bset_abs s)" using GET_BIT_iff [OF m] size assms(3) by (simp add: test_BSet_def)
  have c4: "eq_BSet s t \<longleftrightarrow> bset_abs s = bset_abs t" by (rule bv.same_ok [OF assms(1,2)])
  have c5: "sz < k \<Longrightarrow> add_BSet sh s k = None \<and> test_BSet sh s k = None" using size by (simp add: add_BSet_def test_BSet_def)
  have c6: "bset_abs (com_BSet s) \<inter> {..sz} = {..sz} - bset_abs s"
    using assms(1) size_bound [of _ sz] by (auto simp: com_BSet_abs bset_ok_def)
  show ?thesis using c1 c2 c3 c4 c5 c6 by blast
qed

theorem bset_operations_witness:
  "\<exists>s'. add_BSet (mk_BSetHandle 40 0) [0, 0, 0] 33 = Some s' \<and> bset_ok 40 s' \<and> bset_abs s' = {33}"
proof -
  have "bset_ok 40 [0, 0, 0]" "bset_abs [0, 0, 0] = {}" using bv.empty_ok [of 40] by (simp_all add: numeral_3_eq_3)
  then show ?thesis using bset_operations [of 40 "[0, 0, 0]" "[0, 0, 0]" 33 "mk_BSetHandle 40 0" 0] by auto
qed

text \<open>C18: Traversal from a position \<open>m\<close> returns the least member of the set from there on, up to the size \<open>sz\<close> of
  the handle, and -1 when there is none; the inverse traversal does the same for the numbers that are not
  members. Both skip whole words and never read outside of the vector, as long as \<open>m\<close> is at most \<open>sz + 2 ^ 31\<close>.
  For a larger \<^verbatim>\<open>unsigned\<close> position the number of places left wraps to a positive \<^verbatim>\<open>int\<close> and both read
  outside.\<close>

theorem bset_traversal:
  assumes "length s = 1 + sz div 16" "sh = mk_BSetHandle sz chunk" "sz < 2 ^ 31" "m < 2 ^ 32"
  shows "(m \<le> sz + 2 ^ 31 \<longrightarrow>
      (\<exists>r. trav_BSet sh s m = Some r \<and> first_from (\<lambda>k. k \<in> bset_abs s) m sz r) \<and>
      (\<exists>r. travi_BSet sh s m = Some r \<and> first_from (\<lambda>k. k \<notin> bset_abs s) m sz r)) \<and>
    (sz + 2 ^ 31 < m \<longrightarrow> trav_BSet sh s m = None \<and> travi_BSet sh s m = None)"
proof -
  have size: "bh_size sh = sz" by (simp add: assms(2) mk_BSetHandle_def Let_def)
  show ?thesis
    using trav_BSet_first [of s sh m] travi_BSet_first [of s sh m] trav_BSet_outside [of s sh m] assms(1,3,4) unfolding size by blast
qed

theorem bset_traversal_witness:
  "(\<exists>r. trav_BSet (mk_BSetHandle 40 0) [0, 0, 2] 5 = Some r \<and> first_from (\<lambda>k. k \<in> bset_abs [0, 0, 2]) 5 40 r) \<and>
   trav_BSet (mk_BSetHandle 40 0) [0, 0, 2] 2147483689 = None"
  using bset_traversal [of "[0, 0, 2]" 40 "mk_BSetHandle 40 0" 0 5]
    bset_traversal [of "[0, 0, 2]" 40 "mk_BSetHandle 40 0" 0 2147483689] by simp

end
