(* ===== verification/Dfa_Parse.thy ===== *)
theory Dfa_Parse
  imports Dfa_Sets "HOL-Library.Monad_Syntax"
begin

text \<open>
  The parser of regular expressions (first part of \<^verbatim>\<open>dfa/dfa.c\<close>): lexical analysis, character sets, the recursive
  descent over the operators, and the tables that say which characters are operators.

  A pattern is the list of its bytes with \<open>dp_ptr\<close> the index of \<^verbatim>\<open>expr_ptr\<close>; a string ends at its first zero byte or at
  the end of the list. Characters are integers as in C, where a plain \<^verbatim>\<open>char\<close> is signed. The character mapping
  \<^verbatim>\<open>cmap\<close> is a callback of the user: it is given the text and its length, and returns the first
  string it maps to and the number of characters used. \<open>None\<close> is a failing assertion, an access outside of an
  array, or no return. Node and set memory is not accounted for, except in the handles of \<^theory_text>\<open>Dfa_Sets\<close>.
\<close>

section \<open>Data\<close>

definition L_LP :: int where "L_LP = 1"
definition L_RP :: int where "L_RP = 2"
definition L_CHAR :: int where "L_CHAR = 3"
definition L_CHARS :: int where "L_CHARS = 4"
definition L_ANY :: int where "L_ANY = 5"
definition L_ALT :: int where "L_ALT = 6"
definition L_ANYZ :: int where "L_ANYZ = 7"
definition L_WILD :: int where "L_WILD = 8"
definition L_QUEST :: int where "L_QUEST = 9"
definition L_CLOS1 :: int where "L_CLOS1 = 10"
definition L_CLOS0 :: int where "L_CLOS0 = 11"
definition L_END :: int where "L_END = 12"
definition L_START :: int where "L_START = 13"

lemmas token_defs = L_LP_def L_RP_def L_CHAR_def L_CHARS_def L_ANY_def L_ALT_def L_ANYZ_def L_WILD_def L_QUEST_def
  L_CLOS1_def L_CLOS0_def L_END_def L_START_def

definition DFA_ERR_SYNTAX :: int where "DFA_ERR_SYNTAX = 1"
definition DFA_ERR_LP :: int where "DFA_ERR_LP = 2"
definition DFA_ERR_RP :: int where "DFA_ERR_RP = 3"

text \<open>\<^verbatim>\<open>struct Tnode\<close>: an operator with its operands, or a position with the range of its characters; a negative
  first character is an accepting position, of the rule with that number negated. A position here is the number
  assigned to the 15 bit field \<^verbatim>\<open>pos\<close>, which also holds the operators; reading the field is in \<^theory_text>\<open>Dfa_Build\<close>.\<close>

datatype tnode =
    T_CAT tnode tnode
  | T_OR tnode tnode
  | T_STAR tnode
  | T_PLUS tnode
  | T_EPSILON
  | T_POS int int int

type_synonym cmap_fun = "byte list \<Rightarrow> nat \<Rightarrow> (byte list \<times> nat) option"

record dfa_parse_info =
  dp_root :: "tnode option"
  dp_position :: int
  dp_rule :: int
  dp_charset :: bset_handle
  dp_anyset :: bset
  dp_charMap :: "int list option"
  dp_charMapSize :: nat
  dp_look_ch :: int
  dp_lookahead :: int
  dp_look_chars :: bset
  dp_err_code :: int
  dp_inside_string :: bool
  dp_expr :: "byte list"
  dp_ptr :: nat
  dp_cmap :: "cmap_fun option"

section \<open>Characters\<close>

definition cur_char :: "dfa_parse_info \<Rightarrow> int option" where
  "cur_char p =
     (if dp_ptr p < length (dp_expr p) then Some (uint (dp_expr p ! dp_ptr p))
      else if dp_ptr p = length (dp_expr p) then Some 0 else None)"

definition advance :: "dfa_parse_info \<Rightarrow> dfa_parse_info" where
  "advance p = p\<lparr>dp_ptr := dp_ptr p + 1\<rparr>"

definition escaped_char :: "int \<Rightarrow> int" where
  "escaped_char c = (if c = 9 then 32 else if c = 110 then 10 else if c = 116 then 9 else if c = 114 then 13 else if c = 102 then 12 else c)"

text \<open>A backslash before the end of a line or of the pattern stands for itself.\<close>

definition nextchar :: "dfa_parse_info \<Rightarrow> (int \<times> bool \<times> dfa_parse_info) option" where
  "nextchar p =
     do { c \<leftarrow> cur_char p;
          if c = 0 then Some (0, False, p)
          else if c \<noteq> 92 then Some (c, False, advance p)
          else
            do { let p = advance p;
                 c \<leftarrow> cur_char p;
                 if c = 13 \<or> c = 10 \<or> c = 0 then Some (92, True, p)
                 else Some (escaped_char c, True, advance p) } }"

definition nextchar_set :: "dfa_parse_info \<Rightarrow> (int \<times> bool \<times> dfa_parse_info) option" where
  "nextchar_set p = do { c \<leftarrow> cur_char p; if c = 32 then Some (32, False, advance p) else nextchar p }"

section \<open>Character sets\<close>

text \<open>A negative character is a huge \<^verbatim>\<open>unsigned\<close> and trips the assertion of \<^const>\<open>add_BSet\<close>.\<close>

definition add_char :: "dfa_parse_info \<Rightarrow> int \<Rightarrow> dfa_parse_info option" where
  "add_char p c =
     (if 0 \<le> c then
        do { s \<leftarrow> add_BSet (dp_charset p) (dp_look_chars p) (nat c);
             Some (p\<lparr>dp_look_chars := s\<rparr>) }
      else None)"

primrec add_chars :: "dfa_parse_info \<Rightarrow> int list \<Rightarrow> dfa_parse_info option" where
  "add_chars p [] = Some p"
| "add_chars p (c # cs) = do { p \<leftarrow> add_char p c; add_chars p cs }"

definition string_head :: "byte list \<Rightarrow> byte" where
  "string_head s = (case s of [] \<Rightarrow> 0 | b # _ \<Rightarrow> b)"

text \<open>The mapped character is taken as a plain, signed, \<^verbatim>\<open>char\<close>.\<close>

definition map_char :: "dfa_parse_info \<Rightarrow> int \<Rightarrow> int option" where
  "map_char p c =
     (case dp_cmap p of
        None \<Rightarrow> Some c
      | Some f \<Rightarrow> do { (s, _) \<leftarrow> f [word_of_int c] 1; Some (sint (string_head s)) })"

text \<open>The first character of a range and the one after it; a leading hyphen starts a range at 1, and a 1 takes
  the next character without mapping it.\<close>

definition charset_first :: "dfa_parse_info \<Rightarrow> int \<Rightarrow> bool \<Rightarrow> (int \<times> int \<times> bool \<times> dfa_parse_info) option" where
  "charset_first p ch0 esc0 =
     (if \<not> esc0 \<and> ch0 = 45 then do { p \<leftarrow> add_char p 1; Some (1, ch0, esc0, p) }
      else
        do { (ch0, p) \<leftarrow> (if ch0 = 1 then do { (c, _, p) \<leftarrow> nextchar p; Some (c, p) }
                          else do { c \<leftarrow> map_char p ch0; Some (c, p) });
             p \<leftarrow> add_char p ch0;
             (ch1, esc1, p) \<leftarrow> nextchar_set p;
             Some (ch0, ch1, esc1, p) })"

text \<open>The last character of a range; before the closing bracket it is open up to 255, and the flag is set.\<close>

definition charset_last :: "dfa_parse_info \<Rightarrow> int \<Rightarrow> bool \<Rightarrow> (int \<times> bool \<times> dfa_parse_info) option" where
  "charset_last p ch1 esc1 =
     (if \<not> esc1 \<and> ch1 = 93 then Some (255, True, p)
      else if ch1 = 1 then do { (c, _, p) \<leftarrow> nextchar p; Some (c, False, p) }
      else do { c \<leftarrow> map_char p ch1; Some (c, False, p) })"

partial_function (option) charset_loop :: "dfa_parse_info \<Rightarrow> int \<Rightarrow> bool \<Rightarrow> dfa_parse_info option" where
  "charset_loop p ch0 esc0 =
     (if ch0 = 0 \<or> \<not> esc0 \<and> ch0 = 93 then Some p
      else
        do { (ch0, ch1, esc1, p) \<leftarrow> charset_first p ch0 esc0;
             if \<not> esc1 \<and> ch1 = 45 then
               do { (ch1, esc1, p) \<leftarrow> nextchar_set p;
                    if ch1 = 0 then Some p
                    else
                      do { (ch1, open_range, p) \<leftarrow> charset_last p ch1 esc1;
                           p \<leftarrow> add_chars p [ch0 + 1..ch1];
                           if open_range then Some p
                           else do { (ch0, esc0, p) \<leftarrow> nextchar_set p; charset_loop p ch0 esc0 } } }
             else charset_loop p ch1 esc1 })"

declare charset_loop.simps [code]

definition read_charset :: "dfa_parse_info \<Rightarrow> (int \<times> dfa_parse_info) option" where
  "read_charset p =
     do { let p = p\<lparr>dp_charset := snd (mk_BSet (dp_charset p)), dp_look_chars := res_BSet (dp_charset p) (replicate (bh_wsize (dp_charset p)) 0)\<rparr>;
          (ch0, esc0, p) \<leftarrow> nextchar_set p;
          (cc, ch0, esc0, p) \<leftarrow>
            (if \<not> esc0 \<and> ch0 = 94 then do { (ch0, esc0, p) \<leftarrow> nextchar_set p; Some (True, ch0, esc0, p) }
             else Some (False, ch0, esc0, p));
          p \<leftarrow> charset_loop p ch0 esc0;
          Some (L_CHARS, if cc then p\<lparr>dp_look_chars := com_BSet (dp_look_chars p)\<rparr> else p) }"

section \<open>Tokens\<close>

definition map_l_char :: "dfa_parse_info \<Rightarrow> (int \<times> dfa_parse_info) option" where
  "map_l_char p =
     (if dp_ptr p = 0 \<or> length (dp_expr p) < dp_ptr p then None
      else
        do { let cp0 = dp_ptr p - 1;
             c1 \<leftarrow> cur_char p;
             if dp_expr p ! cp0 = 1 \<and> c1 \<noteq> 0 then Some (L_CHAR, (advance p)\<lparr>dp_look_ch := c1\<rparr>)
             else
               (case dp_cmap p of
                  None \<Rightarrow> Some (L_CHAR, p)
                | Some f \<Rightarrow>
                    do { (s, n) \<leftarrow> f (drop cp0 (dp_expr p)) (length (dp_expr p) - cp0);
                         Some (L_CHAR, p\<lparr>dp_ptr := cp0 + n, dp_look_ch := uint (string_head s)\<rparr>) }) })"

text \<open>The table of operators is pairs of a character and its token, ended by a zero; scanning behind the end of
  the array is undefined.\<close>

fun charmap_find :: "int list \<Rightarrow> int \<Rightarrow> int option option" where
  "charmap_find (f # t # m) c = (if f = 0 then Some None else if f = c then Some (Some t) else charmap_find m c)"
| "charmap_find [f] c = (if f = 0 then Some None else None)"
| "charmap_find [] c = None"

text \<open>A token 0 ends the pattern without taking its character.\<close>

partial_function (option) lex_sub :: "dfa_parse_info \<Rightarrow> (int \<times> dfa_parse_info) option" where
  "lex_sub p =
     do { (c, esc, p) \<leftarrow> nextchar p;
          let p = p\<lparr>dp_look_ch := c\<rparr>;
          if c = 0 then Some (0, p)
          else if c = 34 then
            (if esc then map_l_char p else lex_sub (p\<lparr>dp_inside_string := \<not> dp_inside_string p\<rparr>))
          else if esc \<or> dp_inside_string p then map_l_char p
          else if c = 91 then read_charset p
          else
            do { m \<leftarrow> dp_charMap p;
                 t \<leftarrow> charmap_find m c;
                 case t of
                   None \<Rightarrow> map_l_char p
                 | Some t \<Rightarrow> Some (t, if t = 0 then p\<lparr>dp_ptr := dp_ptr p - 1\<rparr> else p) } }"

declare lex_sub.simps [code]

definition lex :: "dfa_parse_info \<Rightarrow> dfa_parse_info option" where
  "lex p = do { (t, p) \<leftarrow> lex_sub p; Some (p\<lparr>dp_lookahead := t\<rparr>) }"

section \<open>Expressions\<close>

definition new_pos :: "dfa_parse_info \<Rightarrow> int \<times> dfa_parse_info" where
  "new_pos p = (dp_position p + 1, p\<lparr>dp_position := dp_position p + 1\<rparr>)"

text \<open>A character set as alternatives of ranges, in the order of the traversal. The empty set becomes \<open>T_EPSILON\<close>.\<close>

partial_function (option) cset_loop :: "dfa_parse_info \<Rightarrow> bset \<Rightarrow> tnode \<Rightarrow> int \<Rightarrow> (tnode \<times> dfa_parse_info) option" where
  "cset_loop p charset tn0 ch1 =
     do { ch0 \<leftarrow> trav_BSet (dp_charset p) charset (nat ch1);
          if ch0 = - 1 then Some (tn0, p)
          else
            do { let (pos, p) = new_pos p;
                 ch1 \<leftarrow> travi_BSet (dp_charset p) charset (nat (ch0 + 1));
                 if ch1 = - 1 then Some (T_OR tn0 (T_POS pos ch0 (int (bh_size (dp_charset p)))), p)
                 else cset_loop p charset (T_OR tn0 (T_POS pos ch0 (ch1 - 1))) ch1 } }"

declare cset_loop.simps [code]

definition mk_Tnode_cset :: "dfa_parse_info \<Rightarrow> bset \<Rightarrow> (tnode \<times> dfa_parse_info) option" where
  "mk_Tnode_cset p charset =
     do { ch0 \<leftarrow> trav_BSet (dp_charset p) charset 0;
          if ch0 = - 1 then Some (T_EPSILON, p)
          else
            do { let (pos, p) = new_pos p;
                 ch1 \<leftarrow> travi_BSet (dp_charset p) charset (nat (ch0 + 1));
                 if ch1 = - 1 then Some (T_POS pos ch0 (int (bh_size (dp_charset p))), p)
                 else cset_loop p charset (T_POS pos ch0 (ch1 - 1)) ch1 } }"

definition starts_expr :: "int \<Rightarrow> bool" where
  "starts_expr t \<longleftrightarrow> t = L_WILD \<or> t = L_ANYZ \<or> t = L_ANY \<or> t = L_LP \<or> t = L_CHAR \<or> t = L_CHARS"

text \<open>The four levels of the grammar, with the loops of the first two; the first argument bounds the depth of the
  calls and their number in a loop. The inner \<open>None\<close> is the null pointer of an error. The case of \<open>L_WILD\<close> has no
  \<^verbatim>\<open>break\<close>: after its work it goes on to the default, a null pointer.\<close>

fun expr_1 :: "nat \<Rightarrow> dfa_parse_info \<Rightarrow> (tnode option \<times> dfa_parse_info) option"
and alt_loop :: "nat \<Rightarrow> tnode \<Rightarrow> dfa_parse_info \<Rightarrow> (tnode option \<times> dfa_parse_info) option"
and expr_2 :: "nat \<Rightarrow> dfa_parse_info \<Rightarrow> (tnode option \<times> dfa_parse_info) option"
and cat_loop :: "nat \<Rightarrow> tnode \<Rightarrow> dfa_parse_info \<Rightarrow> (tnode option \<times> dfa_parse_info) option"
and expr_3 :: "nat \<Rightarrow> dfa_parse_info \<Rightarrow> (tnode option \<times> dfa_parse_info) option"
and expr_4 :: "nat \<Rightarrow> dfa_parse_info \<Rightarrow> (tnode option \<times> dfa_parse_info) option" where
  "expr_1 0 p = None"
| "expr_1 (Suc n) p =
     do { (t1, p) \<leftarrow> expr_2 n p;
          case t1 of None \<Rightarrow> Some (None, p) | Some t1 \<Rightarrow> alt_loop n t1 p }"
| "alt_loop 0 t1 p = None"
| "alt_loop (Suc n) t1 p =
     (if dp_lookahead p = L_ALT then
        do { p \<leftarrow> lex p;
             (t2, p) \<leftarrow> expr_2 n p;
             case t2 of None \<Rightarrow> Some (None, p) | Some t2 \<Rightarrow> alt_loop n (T_OR t1 t2) p }
      else Some (Some t1, p))"
| "expr_2 0 p = None"
| "expr_2 (Suc n) p =
     do { (t1, p) \<leftarrow> expr_3 n p;
          case t1 of None \<Rightarrow> Some (None, p) | Some t1 \<Rightarrow> cat_loop n t1 p }"
| "cat_loop 0 t1 p = None"
| "cat_loop (Suc n) t1 p =
     (if starts_expr (dp_lookahead p) then
        do { (t2, p) \<leftarrow> expr_3 n p;
             case t2 of None \<Rightarrow> Some (None, p) | Some t2 \<Rightarrow> cat_loop n (T_CAT t1 t2) p }
      else Some (Some t1, p))"
| "expr_3 0 p = None"
| "expr_3 (Suc n) p =
     do { (t1, p) \<leftarrow> expr_4 n p;
          case t1 of
            None \<Rightarrow> Some (None, p)
          | Some t1 \<Rightarrow>
              (if dp_lookahead p = L_CLOS0 then do { p \<leftarrow> lex p; Some (Some (T_STAR t1), p) }
               else if dp_lookahead p = L_CLOS1 then do { p \<leftarrow> lex p; Some (Some (T_PLUS t1), p) }
               else if dp_lookahead p = L_QUEST then do { p \<leftarrow> lex p; Some (Some (T_OR t1 T_EPSILON), p) }
               else Some (Some t1, p)) }"
| "expr_4 0 p = None"
| "expr_4 (Suc n) p =
     (if dp_lookahead p = L_LP then
        do { p \<leftarrow> lex p;
             (t1, p) \<leftarrow> expr_1 n p;
             case t1 of
               None \<Rightarrow> Some (None, p)
             | Some t1 \<Rightarrow>
                 if dp_lookahead p = L_RP then do { p \<leftarrow> lex p; Some (Some t1, p) } else Some (None, p) }
      else if dp_lookahead p = L_CHAR then
        do { let (pos, p) = new_pos p;
             let t1 = T_POS pos (dp_look_ch p) (dp_look_ch p);
             p \<leftarrow> lex p;
             Some (Some t1, p) }
      else if dp_lookahead p = L_CHARS then
        do { (t1, p) \<leftarrow> mk_Tnode_cset p (dp_look_chars p); p \<leftarrow> lex p; Some (Some t1, p) }
      else if dp_lookahead p = L_ANY then
        do { (t1, p) \<leftarrow> mk_Tnode_cset p (dp_anyset p); p \<leftarrow> lex p; Some (Some t1, p) }
      else if dp_lookahead p = L_ANYZ then
        do { (t1, p) \<leftarrow> mk_Tnode_cset p (dp_anyset p); p \<leftarrow> lex p; Some (Some (T_OR t1 T_EPSILON), p) }
      else if dp_lookahead p = L_WILD then
        do { (_, p) \<leftarrow> mk_Tnode_cset p (dp_anyset p); p \<leftarrow> lex p; Some (None, p) }
      else Some (None, p))"

section \<open>Patterns\<close>

text \<open>The fuel of a pattern covers four levels for every character, \<open>parse_fuel\<close>. The tree is \<open>None\<close> after an error.\<close>

definition parse_fuel :: "byte list \<Rightarrow> nat" where
  "parse_fuel s = 4 * length s + 8"

definition pos_node :: "dfa_parse_info \<Rightarrow> int \<Rightarrow> int \<Rightarrow> tnode \<times> dfa_parse_info" where
  "pos_node p c0 c1 = (let (pos, p) = new_pos p in (T_POS pos c0 c1, p))"

definition parse_body :: "nat \<Rightarrow> dfa_parse_info \<Rightarrow> (tnode option \<times> dfa_parse_info) option" where
  "parse_body n p =
     (if dp_lookahead p = L_END then
        do { let (t1, p) = pos_node p 10 10; p \<leftarrow> lex p; Some (Some t1, p) }
      else
        do { (t1, p) \<leftarrow> expr_1 n p;
             case t1 of
               None \<Rightarrow> Some (None, p)
             | Some t1 \<Rightarrow>
                 if dp_lookahead p = L_END then
                   do { let (t2, p) = pos_node p 10 10; p \<leftarrow> lex p; Some (Some (T_CAT t1 t2), p) }
                 else Some (Some t1, p) })"

text \<open>The error that is reported depends on the token that was not expected.\<close>

definition parse_error :: "dfa_parse_info \<Rightarrow> dfa_parse_info" where
  "parse_error p =
     (if dp_err_code p \<noteq> 0 then p
      else p\<lparr>dp_err_code :=
        (if dp_lookahead p = L_RP then DFA_ERR_RP else if dp_lookahead p = L_LP then DFA_ERR_LP else DFA_ERR_SYNTAX)\<rparr>)"

definition parse_end :: "bool \<Rightarrow> tnode option \<Rightarrow> dfa_parse_info \<Rightarrow> tnode option \<times> dfa_parse_info" where
  "parse_end start_anchor_flag t1 p =
     (case t1 of
        Some t1 \<Rightarrow>
          if dp_lookahead p = 0 then
            (let rule = dp_rule p + 1; p = p\<lparr>dp_rule := rule\<rparr>;
                 (t2, p) = pos_node p (- rule) (if start_anchor_flag then 0 else - rule)
             in (Some (T_CAT t1 t2), p))
          else (None, parse_error p)
      | None \<Rightarrow> (None, parse_error p))"

definition do_parse :: "dfa_parse_info \<Rightarrow> byte list \<Rightarrow> (tnode option \<times> dfa_parse_info) option" where
  "do_parse p s =
     do { let p = p\<lparr>dp_err_code := 0, dp_expr := takeWhile (\<lambda>c. c \<noteq> 0) s, dp_ptr := 0, dp_inside_string := False\<rparr>;
          p \<leftarrow> lex p;
          let start_anchor_flag = (dp_lookahead p = L_START);
          p \<leftarrow> (if start_anchor_flag then lex p else Some p);
          (t1, p) \<leftarrow> parse_body (parse_fuel s) p;
          Some (parse_end start_anchor_flag t1 p) }"

section \<open>The table of operators\<close>

text \<open>The array holds pairs up to the first zero at an even index; the search returns the index of the pair or of
  the zero. A new array is filled with zeros here, where C leaves it undefined behind what is written.\<close>

partial_function (option) cmap_search :: "int list \<Rightarrow> (int \<Rightarrow> bool) \<Rightarrow> nat \<Rightarrow> nat option" where
  "cmap_search m hit i =
     (if i < length m then if m ! i = 0 \<or> hit (m ! i) then Some i else cmap_search m hit (i + 2) else None)"

declare cmap_search.simps [code]

definition dfa_parse_cmap_clean :: "dfa_parse_info \<Rightarrow> dfa_parse_info option" where
  "dfa_parse_cmap_clean p =
     (let p = (if dp_charMap p = None then p\<lparr>dp_charMapSize := 7, dp_charMap := Some (replicate 7 0)\<rparr> else p)
      in case dp_charMap p of
           None \<Rightarrow> None
         | Some m \<Rightarrow> if m = [] then None else Some (p\<lparr>dp_charMap := Some (m[0 := 0])\<rparr>))"

definition dfa_parse_cmap_new :: "dfa_parse_info \<Rightarrow> int list \<Rightarrow> dfa_parse_info option" where
  "dfa_parse_cmap_new p cmap =
     do { i \<leftarrow> cmap_search cmap (\<lambda>_. False) 0;
          let sz = i + 1;
          let p = (if dp_charMapSize p < sz then p\<lparr>dp_charMapSize := sz, dp_charMap := Some (replicate sz 0)\<rparr> else p);
          m \<leftarrow> dp_charMap p;
          Some (p\<lparr>dp_charMap := Some (take sz cmap @ drop sz m)\<rparr>) }"

text \<open>Removing a pair moves the ones behind it; the last step copies the zero only.\<close>

partial_function (option) cmap_shift :: "int list \<Rightarrow> nat \<Rightarrow> int list option" where
  "cmap_shift m i =
     (if i + 2 < length m then
        if m ! (i + 2) = 0 then Some (m[i := 0])
        else if i + 3 < length m then cmap_shift (m[i := m ! (i + 2), i + 1 := m ! (i + 3)]) (i + 2)
        else None
      else None)"

declare cmap_shift.simps [code]

definition dfa_parse_cmap_del :: "dfa_parse_info \<Rightarrow> int \<Rightarrow> dfa_parse_info option" where
  "dfa_parse_cmap_del p f =
     do { m \<leftarrow> dp_charMap p;
          i \<leftarrow> cmap_search m (\<lambda>c. c = f) 0;
          if m ! i = 0 then Some p
          else do { m \<leftarrow> cmap_shift m i; Some (p\<lparr>dp_charMap := Some m\<rparr>) } }"

text \<open>The array is made larger only when the index of the zero is behind its end, not when the new pair is.\<close>

definition cmap_put :: "int list \<Rightarrow> nat \<Rightarrow> int \<Rightarrow> int list option" where
  "cmap_put m i v = (if i < length m then Some (m[i := v]) else None)"

definition dfa_parse_cmap_add :: "dfa_parse_info \<Rightarrow> int \<Rightarrow> int \<Rightarrow> dfa_parse_info option" where
  "dfa_parse_cmap_add p f to =
     do { m \<leftarrow> dp_charMap p;
          indx \<leftarrow> cmap_search m (\<lambda>c. c = f) 0;
          if m ! indx \<noteq> 0 then do { m \<leftarrow> cmap_put m (indx + 1) to; Some (p\<lparr>dp_charMap := Some m\<rparr>) }
          else
            do { let sz = dp_charMapSize p;
                 let (m, sz) = (if sz \<le> indx then (take indx m @ replicate (sz + 16 - indx) 0, sz + 16) else (m, sz));
                 m \<leftarrow> cmap_put m indx f;
                 m \<leftarrow> cmap_put m (indx + 1) to;
                 m \<leftarrow> cmap_put m (indx + 2) 0;
                 Some (p\<lparr>dp_charMap := Some m, dp_charMapSize := sz\<rparr>) } }"

definition thompson_chars :: "int list" where
  "thompson_chars = [42, L_CLOS0, 43, L_CLOS1, 124, L_ALT, 94, L_START, 36, L_END, 63, L_QUEST, 46, L_ANY, 40, L_LP, 41, L_RP,
     32, 0, 9, 0, 10, 0, 0]"

definition dfa_parse_cmap_thompson :: "dfa_parse_info \<Rightarrow> dfa_parse_info option" where
  "dfa_parse_cmap_thompson p = dfa_parse_cmap_new p thompson_chars"

text \<open>The fields \<^verbatim>\<open>dfa_parse_init\<close> does not set are zero here; parsing sets them before they are read.\<close>

definition dfa_parse_init :: "dfa_parse_info option" where
  "dfa_parse_init =
     do { let sh = mk_BSetHandle 255 20;
          let (_, sh) = mk_BSet sh;
          s \<leftarrow> add_BSet sh (res_BSet sh (replicate (bh_wsize sh) 0)) 10;
          Some \<lparr>dp_root = None, dp_position = 0, dp_rule = 0, dp_charset = sh, dp_anyset = com_BSet s,
                dp_charMap = None, dp_charMapSize = 0, dp_look_ch = 0, dp_lookahead = 0, dp_look_chars = [],
                dp_err_code = 0, dp_inside_string = False, dp_expr = [], dp_ptr = 0, dp_cmap = None\<rparr> }"

end
