(* ===== verification/Dfa_Lex.thy ===== *)
theory Dfa_Lex
  imports Dfa_Parse
begin

text \<open>
  Lexical analysis always returns: it reads within the pattern, takes at least one character for a token other than
  the end, and keeps the character sets within the 256 characters, whatever the pattern is. The character
  mapping, if there is one, is assumed to map to a string with a first character below 128 (a plain \<^verbatim>\<open>char\<close> is
  signed) and to use at least one character and no more than it was given.
\<close>

section \<open>The state between tokens\<close>

definition cmap_ok :: "cmap_fun option \<Rightarrow> bool" where
  "cmap_ok m \<longleftrightarrow>
     (case m of
        None \<Rightarrow> True
      | Some f \<Rightarrow> \<forall>s n. 0 < n \<longrightarrow> (\<exists>t k. f s n = Some (t, k) \<and> 0 < k \<and> k \<le> n \<and> string_head t < 128))"

lemma cmap_okD: "cmap_ok (Some f) \<Longrightarrow> 0 < n \<Longrightarrow> \<exists>t k. f s n = Some (t, k) \<and> 0 < k \<and> k \<le> n \<and> string_head t < 128"
  by (simp add: cmap_ok_def)

text \<open>The table of operators ends, and does not use the token of a character set.\<close>

definition cmap_table :: "int list option \<Rightarrow> bool" where
  "cmap_table m \<longleftrightarrow> (\<exists>m'. m = Some m' \<and> (\<forall>c. \<exists>r. charmap_find m' c = Some r \<and> r \<noteq> Some L_CHARS))"

definition char_code :: "int \<Rightarrow> bool" where
  "char_code c \<longleftrightarrow> 0 \<le> c \<and> c \<le> 255"

definition lex_env :: "dfa_parse_info \<Rightarrow> bool" where
  "lex_env p \<longleftrightarrow>
     bh_size (dp_charset p) = 255 \<and> bh_wsize (dp_charset p) = 16 \<and> bset_ok 255 (dp_anyset p) \<and> cmap_ok (dp_cmap p) \<and> cmap_table (dp_charMap p) \<and>
     0 \<notin> set (dp_expr p) \<and> dp_ptr p \<le> length (dp_expr p)"

definition rest :: "dfa_parse_info \<Rightarrow> nat" where
  "rest p = length (dp_expr p) - dp_ptr p"

text \<open>Only the lexical part of the state changes, and it moves on.\<close>

definition lexed :: "dfa_parse_info \<Rightarrow> dfa_parse_info \<Rightarrow> bool" where
  "lexed p p' \<longleftrightarrow>
     lex_env p' \<and> dp_ptr p \<le> dp_ptr p' \<and> dp_root p' = dp_root p \<and> dp_position p' = dp_position p \<and> dp_rule p' = dp_rule p \<and>
     dp_anyset p' = dp_anyset p \<and> dp_charMap p' = dp_charMap p \<and> dp_charMapSize p' = dp_charMapSize p \<and> dp_err_code p' = dp_err_code p \<and>
     dp_expr p' = dp_expr p \<and> dp_cmap p' = dp_cmap p"

lemma lex_env_update [simp]:
  "lex_env (q\<lparr>dp_look_ch := c\<rparr>) = lex_env q" "lex_env (q\<lparr>dp_lookahead := t\<rparr>) = lex_env q"
  "lex_env (q\<lparr>dp_look_chars := s\<rparr>) = lex_env q" "lex_env (q\<lparr>dp_inside_string := b\<rparr>) = lex_env q"
  "lex_env (q\<lparr>dp_position := n\<rparr>) = lex_env q"
  by (simp_all add: lex_env_def)

lemma lexed_update [simp]:
  "lexed p (q\<lparr>dp_look_ch := c\<rparr>) = lexed p q" "lexed p (q\<lparr>dp_lookahead := t\<rparr>) = lexed p q"
  "lexed p (q\<lparr>dp_look_chars := s\<rparr>) = lexed p q" "lexed p (q\<lparr>dp_inside_string := b\<rparr>) = lexed p q"
  by (simp_all add: lexed_def)

lemma lexed_refl: "lex_env p \<Longrightarrow> lexed p p"
  by (simp add: lexed_def)

lemma lexed_trans: "lexed p q \<Longrightarrow> lexed q r \<Longrightarrow> lexed p r"
  by (auto simp: lexed_def)

lemma lexed_env: "lexed p q \<Longrightarrow> lex_env q"
  by (simp add: lexed_def)

lemma lexed_rest: "lexed p q \<Longrightarrow> rest q \<le> rest p"
  by (auto simp: lexed_def rest_def)

section \<open>Characters\<close>

lemma byte_char_code [simp]: "char_code (uint (b :: byte))"
  using uint_lt2p [of b] by (simp add: char_code_def)

lemma cur_char_spec:
  assumes "lex_env p"
  shows "\<exists>c. cur_char p = Some c \<and> char_code c \<and> (c = 0 \<longleftrightarrow> dp_ptr p = length (dp_expr p))"
proof (cases "dp_ptr p < length (dp_expr p)")
  case True
  then have "dp_expr p ! dp_ptr p \<noteq> 0" using assms nth_mem [OF True] unfolding lex_env_def by metis
  then show ?thesis using True by (simp add: cur_char_def uint_0_iff)
next
  case False
  then show ?thesis using assms by (simp add: cur_char_def lex_env_def char_code_def)
qed

lemma escaped_char_code: "char_code c \<Longrightarrow> char_code (escaped_char c)" "c \<noteq> 0 \<Longrightarrow> escaped_char c \<noteq> 0"
  by (auto simp: escaped_char_def char_code_def)

lemma lexed_advance: "lex_env p \<Longrightarrow> dp_ptr p < length (dp_expr p) \<Longrightarrow> lexed p (advance p)"
  by (simp add: lexed_def lex_env_def advance_def)

text \<open>A character was read: only the pointer changed, and it did unless the pattern is at its end.\<close>

definition char_read :: "dfa_parse_info \<Rightarrow> int \<Rightarrow> dfa_parse_info \<Rightarrow> bool" where
  "char_read p c p' \<longleftrightarrow> char_code c \<and> lexed p p' \<and> p' = p\<lparr>dp_ptr := dp_ptr p'\<rparr> \<and> (c \<noteq> 0 \<longrightarrow> dp_ptr p < dp_ptr p')"

lemma nextchar_spec:
  assumes "lex_env p"
  shows "\<exists>c e p'. nextchar p = Some (c, e, p') \<and> char_read p c p' \<and> (\<not> e \<longrightarrow> c \<noteq> 0 \<longrightarrow> dp_ptr p' = dp_ptr p + 1)"
proof -
  obtain c where c: "cur_char p = Some c" "char_code c" "c = 0 \<longleftrightarrow> dp_ptr p = length (dp_expr p)" using cur_char_spec [OF assms] by auto
  show ?thesis
  proof (cases "c = 0")
    case True
    then show ?thesis using c assms lexed_refl by (auto simp: nextchar_def char_read_def)
  next
    case False
    then have lt: "dp_ptr p < length (dp_expr p)" using c(3) assms by (simp add: lex_env_def)
    note a = lexed_advance [OF assms lt]
    show ?thesis
    proof (cases "c = 92")
      case False
      then show ?thesis using c \<open>c \<noteq> 0\<close> a by (auto simp: nextchar_def char_read_def advance_def)
    next
      case True
      obtain d where d: "cur_char (advance p) = Some d" "char_code d" "d = 0 \<longleftrightarrow> dp_ptr (advance p) = length (dp_expr (advance p))"
        using cur_char_spec [OF lexed_env [OF a]] by auto
      show ?thesis
      proof (cases "d = 13 \<or> d = 10 \<or> d = 0")
        case True
        then show ?thesis using c d a \<open>c = 92\<close> by (auto simp: nextchar_def char_read_def advance_def char_code_def)
      next
        case False
        then have "dp_ptr (advance p) < length (dp_expr (advance p))" using d(3) lexed_env [OF a] by (simp add: lex_env_def)
        from lexed_trans [OF a lexed_advance [OF lexed_env [OF a] this]] have "lexed p (advance (advance p))" .
        then show ?thesis using c d \<open>c = 92\<close> False escaped_char_code [of d] by (auto simp: nextchar_def char_read_def advance_def Let_def)
      qed
    qed
  qed
qed

lemma nextchar_set_spec:
  assumes "lex_env p"
  shows "\<exists>c e p'. nextchar_set p = Some (c, e, p') \<and> char_read p c p'"
proof -
  obtain c where c: "cur_char p = Some c" "char_code c" "c = 0 \<longleftrightarrow> dp_ptr p = length (dp_expr p)" using cur_char_spec [OF assms] by auto
  show ?thesis
  proof (cases "c = 32")
    case True
    then have "dp_ptr p < length (dp_expr p)" using c(3) assms by (simp add: lex_env_def)
    from lexed_advance [OF assms this] show ?thesis using c True by (auto simp: nextchar_set_def char_read_def advance_def)
  next
    case False
    then show ?thesis using nextchar_spec [OF assms] c(1) by (auto simp: nextchar_set_def)
  qed
qed

section \<open>Character sets\<close>

definition set_read :: "dfa_parse_info \<Rightarrow> dfa_parse_info \<Rightarrow> bool" where
  "set_read p p' \<longleftrightarrow> lexed p p' \<and> bset_ok 255 (dp_look_chars p')"

lemma set_read_trans: "set_read p q \<Longrightarrow> set_read q r \<Longrightarrow> set_read p r"
  by (auto simp: set_read_def elim: lexed_trans)

lemma set_read_char: "char_read p c p' \<Longrightarrow> bset_ok 255 (dp_look_chars p) \<Longrightarrow> set_read p p'"
proof -
  assume c: "char_read p c p'" "bset_ok 255 (dp_look_chars p)"
  then have "dp_look_chars p' = dp_look_chars p" unfolding char_read_def by (metis dfa_parse_info.select_convs(10) dfa_parse_info.surjective dfa_parse_info.update_convs(14))
  then show ?thesis using c by (simp add: set_read_def char_read_def)
qed

lemma add_char_spec:
  assumes "lex_env p" "bset_ok 255 (dp_look_chars p)" "char_code c"
  shows "\<exists>p'. add_char p c = Some p' \<and> set_read p p' \<and> dp_ptr p' = dp_ptr p"
proof -
  have sz: "bh_size (dp_charset p) = 255" using assms(1) by (simp add: lex_env_def)
  have c: "nat c \<in> {..255}" using assms(3) by (auto simp: char_code_def)
  obtain s where s: "add_BSet (mk_BSetHandle 255 0) (dp_look_chars p) (nat c) = Some s" "bset_ok 255 s"
    using bv.add_ok [OF assms(2) c, of 0] c by (auto simp: add_BSet_def mk_BSetHandle_def Let_def)
  then have "add_BSet (dp_charset p) (dp_look_chars p) (nat c) = Some s" using sz by (simp add: add_BSet_def mk_BSetHandle_def Let_def)
  then show ?thesis using assms s(2) by (auto simp: add_char_def char_code_def set_read_def lexed_def lex_env_def)
qed

lemma add_chars_spec:
  assumes "lex_env p" "bset_ok 255 (dp_look_chars p)" "\<forall>c \<in> set cs. char_code c"
  shows "\<exists>p'. add_chars p cs = Some p' \<and> set_read p p' \<and> dp_ptr p' = dp_ptr p"
  using assms
proof (induction cs arbitrary: p)
  case Nil
  then show ?case by (simp add: set_read_def lexed_refl)
next
  case (Cons c cs)
  then obtain q where q: "add_char p c = Some q" "set_read p q" "dp_ptr q = dp_ptr p" using add_char_spec [of p c] by auto
  then have "lex_env q" "bset_ok 255 (dp_look_chars q)" using lexed_env [of p q] by (simp_all add: set_read_def)
  from Cons.IH [OF this] Cons.prems(3) obtain r where "add_chars q cs = Some r" "set_read q r" "dp_ptr r = dp_ptr q" by auto
  then show ?case using q set_read_trans [OF q(2)] by auto
qed

lemma map_char_spec:
  assumes "lex_env p" "char_code c"
  shows "\<exists>d. map_char p c = Some d \<and> char_code d"
proof (cases "dp_cmap p")
  case None
  then show ?thesis using assms(2) by (simp add: map_char_def)
next
  case (Some f)
  then obtain t k where t: "f [word_of_int c] 1 = Some (t, k)" "string_head t < 128"
    using assms(1) cmap_okD [of f 1 "[word_of_int c]"] by (auto simp: lex_env_def)
  have "uint (string_head t) < 128" using t(2) by (simp add: word_less_def)
  moreover have "- (2 ^ 7) \<le> uint (string_head t)" by (rule order_trans [of _ 0]) simp_all
  ultimately have "sint (string_head t) = uint (string_head t)" by (simp add: sint_uint signed_take_bit_int_eq_self)
  then show ?thesis using Some t(1) by (simp add: map_char_def)
qed


lemma charset_first_spec:
  assumes "lex_env p" "bset_ok 255 (dp_look_chars p)" "char_code c"
  shows "\<exists>c0 c1 e p'. charset_first p c e0 = Some (c0, c1, e, p') \<and> char_code c0 \<and> char_code c1 \<and> set_read p p' \<and>
    (c1 \<noteq> 0 \<and> \<not> (\<not> e \<and> c1 = 45) \<longrightarrow> dp_ptr p < dp_ptr p')"
proof (cases "\<not> e0 \<and> c = 45")
  case True
  have "char_code 1" by (simp add: char_code_def)
  with add_char_spec [OF assms(1,2) this] True assms(3) show ?thesis by (fastforce simp: charset_first_def)
next
  case False
  obtain d q where q: "(if c = 1 then do { (c, _, p) \<leftarrow> nextchar p; Some (c, p) } else do { c \<leftarrow> map_char p c; Some (c, p) }) = Some (d, q)"
    "char_code d" "set_read p q"
  proof (cases "c = 1")
    case True
    then show ?thesis using nextchar_spec [OF assms(1)] set_read_char [OF _ assms(2)] that by (fastforce simp: char_read_def)
  next
    case False
    then show ?thesis using map_char_spec [OF assms(1,3)] lexed_refl [OF assms(1)] assms(2) that by (fastforce simp: set_read_def)
  qed
  then have "lex_env q" "bset_ok 255 (dp_look_chars q)" using lexed_env [of p q] by (simp_all add: set_read_def)
  from add_char_spec [OF this q(2)] obtain r where r: "add_char q d = Some r" "set_read q r" by blast
  then have env: "lex_env r" "bset_ok 255 (dp_look_chars r)" using lexed_env [of q r] by (simp_all add: set_read_def)
  obtain c1 e p' where n: "nextchar_set r = Some (c1, e, p')" "char_read r c1 p'" using nextchar_set_spec [OF env(1)] by blast
  have "set_read p r" using set_read_trans [OF q(3) r(2)] .
  moreover have "set_read p p'" using set_read_trans [OF calculation set_read_char [OF n(2) env(2)]] .
  moreover have "char_code c1" "c1 \<noteq> 0 \<longrightarrow> dp_ptr r < dp_ptr p'" using n(2) by (simp_all add: char_read_def)
  ultimately have "char_code c1" "set_read p p'" "c1 \<noteq> 0 \<longrightarrow> dp_ptr p < dp_ptr p'" by (auto simp: set_read_def lexed_def)
  then show ?thesis using False q(1,2) r(1) n(1) by (auto simp: charset_first_def)
qed

lemma charset_last_spec:
  assumes "lex_env p" "bset_ok 255 (dp_look_chars p)" "char_code c"
  shows "\<exists>d op p'. charset_last p c e = Some (d, op, p') \<and> char_code d \<and> set_read p p'"
proof -
  consider "\<not> e \<and> c = 93" | "\<not> (\<not> e \<and> c = 93)" "c = 1" | "\<not> (\<not> e \<and> c = 93)" "c \<noteq> 1" by blast
  then show ?thesis
  proof cases
    case 1
    then show ?thesis using assms lexed_refl [OF assms(1)] by (auto simp: charset_last_def char_code_def set_read_def)
  next
    case 2
    then show ?thesis using nextchar_spec [OF assms(1)] set_read_char [OF _ assms(2)] by (fastforce simp: charset_last_def char_read_def)
  next
    case 3
    then show ?thesis using map_char_spec [OF assms(1,3)] lexed_refl [OF assms(1)] assms(2) by (fastforce simp: charset_last_def set_read_def)
  qed
qed

lemma charset_loop_spec:
  assumes "lex_env p" "bset_ok 255 (dp_look_chars p)" "char_code c"
  shows "\<exists>p'. charset_loop p c e = Some p' \<and> set_read p p'"
  using assms
proof (induction "2 * rest p + (if c = 0 then 0 else 1)" arbitrary: p c e rule: less_induct)
  case less
  show ?case
  proof (cases "c = 0 \<or> \<not> e \<and> c = 93")
    case True
    then show ?thesis using less.prems lexed_refl by (subst charset_loop.simps) (auto simp: set_read_def)
  next
    case False
    obtain c0 c1 e1 q where f: "charset_first p c e = Some (c0, c1, e1, q)" "char_code c0" "char_code c1" "set_read p q"
      "c1 \<noteq> 0 \<and> \<not> (\<not> e1 \<and> c1 = 45) \<longrightarrow> dp_ptr p < dp_ptr q"
      using charset_first_spec [OF less.prems] by blast
    have q: "lex_env q" "bset_ok 255 (dp_look_chars q)" "rest q \<le> rest p" "dp_ptr q \<le> length (dp_expr p)" "dp_expr q = dp_expr p"
      using f(4) lexed_env [of p q] lexed_rest [of p q] by (auto simp: set_read_def lexed_def lex_env_def)
    show ?thesis
    proof (cases "\<not> e1 \<and> c1 = 45")
      case hyphen: False
      have "rest q < rest p" if "c1 \<noteq> 0" using f(5) hyphen that q(4,5) by (auto simp: rest_def)
      then have "2 * rest q + (if c1 = 0 then 0 else 1) < 2 * rest p + (if c = 0 then 0 else 1)" using False q(3) by (cases "c1 = 0") auto
      from less.hyps [OF this q(1,2) f(3), of e1] obtain p' where "charset_loop q c1 e1 = Some p'" "set_read q p'" by blast
      then show ?thesis using False hyphen f(1) set_read_trans [OF f(4)] by (subst charset_loop.simps) auto
    next
      case hyphen: True
      obtain d e2 r where r: "nextchar_set q = Some (d, e2, r)" "char_read q d r" using nextchar_set_spec [OF q(1)] by blast
      have qr: "set_read q r" by (rule set_read_char [OF r(2) q(2)])
      have renv: "lex_env r" "bset_ok 255 (dp_look_chars r)" "char_code d" using qr r(2) lexed_env [of q r] by (simp_all add: set_read_def char_read_def)
      show ?thesis
      proof (cases "d = 0")
        case True
        then show ?thesis using False hyphen f(1) r(1) set_read_trans [OF f(4) qr] by (subst charset_loop.simps) auto
      next
        case d: False
        obtain d' op s where s: "charset_last r d e2 = Some (d', op, s)" "char_code d'" "set_read r s" using charset_last_spec [OF renv] by blast
        have senv: "lex_env s" "bset_ok 255 (dp_look_chars s)" using s(3) lexed_env [of r s] by (simp_all add: set_read_def)
        have "\<forall>x \<in> set [c0 + 1..d']. char_code x" using f(2) s(2) by (auto simp: char_code_def)
        then obtain t where t: "add_chars s [c0 + 1..d'] = Some t" "set_read s t" using add_chars_spec [OF senv] by blast
        have tenv: "lex_env t" "bset_ok 255 (dp_look_chars t)" using t(2) lexed_env [of s t] by (simp_all add: set_read_def)
        have rt: "set_read r t" using set_read_trans [OF s(3) t(2)] .
        have pt: "set_read p t" using set_read_trans [OF set_read_trans [OF f(4) qr] rt] .
        show ?thesis
        proof (cases op)
          case True
          then show ?thesis using False hyphen f(1) r(1) d s(1) t(1) pt by (subst charset_loop.simps) auto
        next
          case op: False
          obtain c2 e3 u where u: "nextchar_set t = Some (c2, e3, u)" "char_read t c2 u" using nextchar_set_spec [OF tenv(1)] by blast
          have tu: "set_read t u" by (rule set_read_char [OF u(2) tenv(2)])
          have uenv: "lex_env u" "bset_ok 255 (dp_look_chars u)" "char_code c2" using tu u(2) lexed_env [of t u] by (simp_all add: set_read_def char_read_def)
          have "rest r < rest q" using r(2) d renv(1) by (auto simp: char_read_def rest_def lexed_def lex_env_def)
          moreover have "rest u \<le> rest t" "rest t \<le> rest r" using tu rt lexed_rest by (auto simp: set_read_def)
          ultimately have "2 * rest u + (if c2 = 0 then 0 else 1) < 2 * rest p + (if c = 0 then 0 else 1)" using q(3) False by auto
          from less.hyps [OF this uenv, of e3] obtain p' where "charset_loop u c2 e3 = Some p'" "set_read u p'" by blast
          then show ?thesis
            using False hyphen f(1) r(1) d s(1) t(1) op u(1) set_read_trans [OF set_read_trans [OF pt tu]] by (subst charset_loop.simps) auto
        qed
      qed
    qed
  qed
qed

lemma com_BSet_ok: "bset_ok 255 s \<Longrightarrow> bset_ok 255 (com_BSet s)"
  using com_BSet_abs [of s] by (auto simp: bset_ok_def com_BSet_def)

lemma read_charset_spec:
  assumes "lex_env p"
  shows "\<exists>p'. read_charset p = Some (L_CHARS, p') \<and> set_read p p'"
proof -
  let ?p = "p\<lparr>dp_charset := snd (mk_BSet (dp_charset p)), dp_look_chars := res_BSet (dp_charset p) (replicate (bh_wsize (dp_charset p)) 0)\<rparr>"
  have "bset_ok 255 (replicate 16 0)" using bv.empty_ok [of 255] by simp
  then have p: "set_read p ?p" using assms by (simp add: set_read_def lexed_def lex_env_def mk_BSet_def res_BSet_def Let_def split: prod.split)
  then have env: "lex_env ?p" "bset_ok 255 (dp_look_chars ?p)" using lexed_env [of p ?p] by (simp_all add: set_read_def)
  obtain c e q where q: "nextchar_set ?p = Some (c, e, q)" "char_read ?p c q" using nextchar_set_spec [OF env(1)] by blast
  have pq: "set_read p q" by (rule set_read_trans [OF p set_read_char [OF q(2) env(2)]])
  have qenv: "lex_env q" "bset_ok 255 (dp_look_chars q)" "char_code c" using pq q(2) lexed_env [of p q] by (simp_all add: set_read_def char_read_def)
  obtain cc d e2 r where r: "(if \<not> e \<and> c = 94 then do { (ch0, esc0, p) \<leftarrow> nextchar_set q; Some (True, ch0, esc0, p) } else Some (False, c, e, q)) = Some (cc, d, e2, r)"
    "set_read p r" "char_code d"
  proof (cases "\<not> e \<and> c = 94")
    case True
    obtain d e2 r where "nextchar_set q = Some (d, e2, r)" "char_read q d r" using nextchar_set_spec [OF qenv(1)] by blast
    then show ?thesis using True that set_read_trans [OF pq set_read_char [OF _ qenv(2)]] by (auto simp: char_read_def)
  next
    case False
    then show ?thesis using that [of False c e q] pq qenv(3) by auto
  qed
  then have "lex_env r" "bset_ok 255 (dp_look_chars r)" using lexed_env [of p r] by (simp_all add: set_read_def)
  from charset_loop_spec [OF this r(3)] obtain s where s: "charset_loop r d e2 = Some s" "set_read r s" by blast
  have ps: "set_read p s" by (rule set_read_trans [OF r(2) s(2)])
  then have "set_read p (s\<lparr>dp_look_chars := com_BSet (dp_look_chars s)\<rparr>)" using com_BSet_ok by (simp add: set_read_def)
  then show ?thesis using q(1) r(1) s(1) ps by (simp add: read_charset_def Let_def)
qed


section \<open>Tokens\<close>

text \<open>The token is at hand: its character or its set is valid.\<close>

definition token_ok :: "int \<Rightarrow> dfa_parse_info \<Rightarrow> bool" where
  "token_ok t p \<longleftrightarrow> (t = L_CHAR \<longrightarrow> char_code (dp_look_ch p)) \<and> (t = L_CHARS \<longrightarrow> bset_ok 255 (dp_look_chars p))"

lemma map_l_char_spec:
  assumes "lex_env p" "0 < dp_ptr p" "char_code (dp_look_ch p)"
  shows "\<exists>p'. map_l_char p = Some (L_CHAR, p') \<and> lexed p p' \<and> char_code (dp_look_ch p')"
proof -
  have len: "dp_ptr p \<le> length (dp_expr p)" using assms(1) by (simp add: lex_env_def)
  obtain c where c: "cur_char p = Some c" "char_code c" "c = 0 \<longleftrightarrow> dp_ptr p = length (dp_expr p)" using cur_char_spec [OF assms(1)] by auto
  show ?thesis
  proof (cases "dp_expr p ! (dp_ptr p - 1) = 1 \<and> c \<noteq> 0")
    case True
    then have "lexed p (advance p)" using c(3) len lexed_advance [OF assms(1)] by simp
    then have "lexed p ((advance p)\<lparr>dp_look_ch := c\<rparr>)" by simp
    then show ?thesis using True c assms(2) len by (simp add: map_l_char_def Let_def)
  next
    case False
    show ?thesis
    proof (cases "dp_cmap p")
      case None
      then show ?thesis using False c assms len lexed_refl [OF assms(1)] by (auto simp: map_l_char_def Let_def)
    next
      case (Some f)
      let ?i = "dp_ptr p - 1"
      obtain t k where t: "f (drop ?i (dp_expr p)) (length (dp_expr p) - ?i) = Some (t, k)" "0 < k" "k \<le> length (dp_expr p) - ?i"
        using assms(1,2) len cmap_okD [of f "length (dp_expr p) - ?i" "drop ?i (dp_expr p)"] Some by (auto simp: lex_env_def)
      then have "lexed p (p\<lparr>dp_ptr := ?i + k, dp_look_ch := uint (string_head t)\<rparr>)"
        using assms(1,2) len by (auto simp: lexed_def lex_env_def)
      then show ?thesis using False Some c(1) t(1) assms(2) len by (auto simp: map_l_char_def Let_def)
    qed
  qed
qed

lemma lex_sub_spec:
  assumes "lex_env p"
  shows "\<exists>t p'. lex_sub p = Some (t, p') \<and> lexed p p' \<and> token_ok t p' \<and> (t \<noteq> 0 \<longrightarrow> dp_ptr p < dp_ptr p')"
  using assms
proof (induction "rest p" arbitrary: p rule: less_induct)
  case less
  obtain c e q where n: "nextchar p = Some (c, e, q)" "char_read p c q" "\<not> e \<longrightarrow> c \<noteq> 0 \<longrightarrow> dp_ptr q = dp_ptr p + 1"
    using nextchar_spec [OF less.prems] by blast
  let ?q = "q\<lparr>dp_look_ch := c\<rparr>"
  have q: "lexed p ?q" "char_code c" "c \<noteq> 0 \<longrightarrow> dp_ptr p < dp_ptr q" using n(2) by (simp_all add: char_read_def)
  have env: "lex_env ?q" by (rule lexed_env [OF q(1)])
  have chr: "\<exists>p'. map_l_char ?q = Some (L_CHAR, p') \<and> lexed p p' \<and> token_ok L_CHAR p' \<and> dp_ptr p < dp_ptr p'" if nz: "c \<noteq> 0"
  proof -
    obtain p' where p': "map_l_char ?q = Some (L_CHAR, p')" "lexed ?q p'" "char_code (dp_look_ch p')"
      using map_l_char_spec [OF env] q(2,3) nz by auto
    moreover have "dp_ptr p < dp_ptr p'" using q(3) nz p'(2) by (simp add: lexed_def)
    ultimately show ?thesis using lexed_trans [OF q(1)] by (auto simp: token_ok_def token_defs)
  qed
  show ?case
  proof (cases "c = 0")
    case True
    then show ?thesis using n(1) q(1) by (subst lex_sub.simps) (auto simp: token_ok_def token_defs)
  next
    case c0: False
    note chr = chr [OF c0]
    consider (quote) "c = 34" "\<not> e" | (char) "e \<or> c \<noteq> 34 \<and> dp_inside_string q" | (set) "c = 91" "\<not> e" "\<not> dp_inside_string q"
      | (op) "c \<noteq> 34" "c \<noteq> 91" "\<not> e" "\<not> dp_inside_string q" by blast
    then show ?thesis
    proof cases
      case quote
      let ?r = "?q\<lparr>dp_inside_string := \<not> dp_inside_string q\<rparr>"
      have r: "lexed p ?r" using q(1) by simp
      then have "rest ?r < rest p" using q(3) c0 by (auto simp: rest_def lexed_def lex_env_def)
      from less.hyps [OF this lexed_env [OF r]] obtain t p' where
        "lex_sub ?r = Some (t, p')" "lexed ?r p'" "token_ok t p'" "t \<noteq> 0 \<longrightarrow> dp_ptr ?r < dp_ptr p'" by blast
      moreover have "lex_sub p = lex_sub ?r" using n(1) c0 quote by (subst lex_sub.simps) simp
      ultimately show ?thesis using lexed_trans [OF r] q(3) c0 by auto
    next
      case char
      then have "lex_sub p = map_l_char ?q" using n(1) c0 by (subst lex_sub.simps) (auto simp: Let_def)
      then show ?thesis using chr by auto
    next
      case set
      obtain p' where p': "read_charset ?q = Some (L_CHARS, p')" "set_read ?q p'" using read_charset_spec [OF env] by blast
      have "lex_sub p = read_charset ?q" using n(1) c0 set by (subst lex_sub.simps) simp
      moreover have "lexed p p'" "dp_ptr p < dp_ptr p'" using lexed_trans [OF q(1)] p'(2) q(3) c0 by (auto simp: set_read_def lexed_def)
      ultimately show ?thesis using p' by (auto simp: token_ok_def set_read_def token_defs)
    next
      case op
      obtain m r where m: "dp_charMap ?q = Some m" "charmap_find m c = Some r" "r \<noteq> Some L_CHARS"
        using env unfolding lex_env_def cmap_table_def by blast
      have l: "lex_sub p = (case r of None \<Rightarrow> map_l_char ?q | Some t \<Rightarrow> Some (t, if t = 0 then ?q\<lparr>dp_ptr := dp_ptr ?q - 1\<rparr> else ?q))"
        using n(1) c0 op m(1,2) by (subst lex_sub.simps) (simp add: Let_def)
      show ?thesis
      proof (cases r)
        case None
        then show ?thesis using l chr by auto
      next
        case (Some t)
        have "lexed p (?q\<lparr>dp_ptr := dp_ptr ?q - 1\<rparr>)" using q(1,3) c0 by (auto simp: lexed_def lex_env_def)
        then show ?thesis using l Some m(3) q c0 by (auto simp: token_ok_def)
      qed
    qed
  qed
qed

lemma lex_spec:
  assumes "lex_env p"
  shows "\<exists>p'. lex p = Some p' \<and> lexed p p' \<and> token_ok (dp_lookahead p') p' \<and> (dp_lookahead p' \<noteq> 0 \<longrightarrow> dp_ptr p < dp_ptr p')"
proof -
  obtain t q where q: "lex_sub p = Some (t, q)" "lexed p q" "token_ok t q" "t \<noteq> 0 \<longrightarrow> dp_ptr p < dp_ptr q"
    using lex_sub_spec [OF assms] by blast
  then have "lexed p (q\<lparr>dp_lookahead := t\<rparr>)" by simp
  then show ?thesis using q by (simp add: Dfa_Parse.lex_def token_ok_def)
qed

end
