(* ===== verification/Dfa_States.thy ===== *)
theory Dfa_States
  imports Dfa_Sets "HOL-Library.Monad_Syntax"
begin

text \<open>
  The table of states of an automaton (\<^verbatim>\<open>dfa/states.c\<close>): a hash table over the position sets, the stacks of states
  that wait for their transitions and that have them, and the blocks that hold the transitions of all states.

  A pointer to a state is its index in \<open>dfs_mem\<close>, in the order of allocation, and a pointer to a transition is the
  index of its block, oldest first, and the offset in it; the chunks of unused states are not represented.
  Fields that are not set yet are zero. \<open>None\<close> is a failing assertion or an access outside of an array.
\<close>

section \<open>Data\<close>

record dfa_tran =
  dt_ch0 :: byte
  dt_ch1 :: byte
  dt_to :: "16 word"

record dfa_trans =
  tb_tran :: "dfa_tran list"
  tb_size :: nat

record dfa_state =
  ds_trans :: "nat \<times> nat"
  ds_set :: "int list"
  ds_no :: int
  ds_tran_no :: int
  ds_rule_no :: int
  ds_rule_nno :: int

record dfa_states =
  dfs_mem :: "dfa_state list"
  dfs_unmarked :: "nat list"
  dfs_marked :: "nat list"
  dfs_no :: nat
  dfs_st :: dfaset_type
  dfs_hash :: nat
  dfs_hasharray :: "nat list list option"
  dfs_sortarray :: "nat option list option"
  dfs_transmem :: "dfa_trans list"

definition TRAN_CHUNK :: nat where "TRAN_CHUNK = 100"
definition STATE_HASH :: nat where "STATE_HASH = 199"

definition c_short :: "int \<Rightarrow> int" where
  "c_short n = sint (word_of_int n :: 16 word)"

section \<open>Operations\<close>

definition init_DFA_states :: "dfaset_type \<Rightarrow> nat \<Rightarrow> dfa_states" where
  "init_DFA_states st hash =
     \<lparr>dfs_mem = [], dfs_unmarked = [], dfs_marked = [], dfs_no = 0, dfs_st = st, dfs_hash = hash,
      dfs_hasharray = Some (replicate hash []), dfs_sortarray = None,
      dfs_transmem = [\<lparr>tb_tran = [], tb_size = TRAN_CHUNK\<rparr>]\<rparr>"

definition rm_DFA_states :: "dfa_states option \<Rightarrow> dfa_states option option" where
  "rm_DFA_states dfasp = (case dfasp of None \<Rightarrow> None | Some _ \<Rightarrow> Some None)"

definition set_hash :: "dfa_states \<Rightarrow> int list \<Rightarrow> nat" where
  "set_hash dfas s = unat (hash_DFASet s) mod dfs_hash dfas"

text \<open>A set that is known is freed; the result says whether the state is new. Numbers are stored as \<^verbatim>\<open>short\<close>.\<close>

definition add_DFA_state :: "dfa_states \<Rightarrow> int list \<Rightarrow> (bool \<times> nat \<times> dfa_states) option" where
  "add_DFA_state dfas s =
     (if s = [] then None
      else
        do { ha \<leftarrow> dfs_hasharray dfas;
             let h = set_hash dfas s;
             if h < length ha then
               (case find (\<lambda>si. eq_DFASet (ds_set (dfs_mem dfas ! si)) s) (ha ! h) of
                  Some si \<Rightarrow> do { st \<leftarrow> rm_DFASet (dfs_st dfas) s; Some (False, si, dfas\<lparr>dfs_st := st\<rparr>) }
                | None \<Rightarrow>
                    (let si = length (dfs_mem dfas);
                         new = \<lparr>ds_trans = (0, 0), ds_set = s, ds_no = c_short (int (dfs_no dfas)), ds_tran_no = 0, ds_rule_no = 0, ds_rule_nno = 0\<rparr>
                     in Some (True, si, dfas\<lparr>dfs_mem := dfs_mem dfas @ [new], dfs_unmarked := si # dfs_unmarked dfas,
                          dfs_hasharray := Some (ha[h := si # ha ! h]), dfs_no := dfs_no dfas + 1\<rparr>)))
             else None })"

text \<open>Transitions go to the newest block; a full one is replaced, and the transitions the state already has are
  copied so that they stay together.\<close>

definition state_trans :: "dfa_states \<Rightarrow> dfa_state \<Rightarrow> dfa_tran list" where
  "state_trans dfas s = take (nat (ds_tran_no s)) (drop (snd (ds_trans s)) (tb_tran (dfs_transmem dfas ! fst (ds_trans s))))"

definition tran_block :: "dfa_states \<Rightarrow> nat \<Rightarrow> dfa_states" where
  "tran_block dfas si =
     (let s = dfs_mem dfas ! si; tm = last (dfs_transmem dfas)
      in if length (tb_tran tm) = tb_size tm then
           dfas\<lparr>dfs_transmem := dfs_transmem dfas @ [\<lparr>tb_tran = state_trans dfas s,
                  tb_size = (if int TRAN_CHUNK \<le> ds_tran_no s then nat (ds_tran_no s) + 8 else TRAN_CHUNK)\<rparr>],
                dfs_mem := (dfs_mem dfas)[si := s\<lparr>ds_trans := (length (dfs_transmem dfas), 0)\<rparr>]\<rparr>
         else dfas)"

definition add_DFA_tran :: "dfa_states \<Rightarrow> nat \<Rightarrow> int \<Rightarrow> int \<Rightarrow> int \<Rightarrow> dfa_states" where
  "add_DFA_tran dfas si ch0 ch1 to =
     (let dfas = tran_block dfas si; s = dfs_mem dfas ! si; tms = dfs_transmem dfas; tm = last tms;
          t = \<lparr>dt_ch0 = word_of_int ch0, dt_ch1 = word_of_int ch1, dt_to = word_of_int to\<rparr>
      in dfas\<lparr>dfs_mem := (dfs_mem dfas)[si := s\<lparr>ds_tran_no := c_short (ds_tran_no s + 1)\<rparr>],
              dfs_transmem := butlast tms @ [tm\<lparr>tb_tran := tb_tran tm @ [t]\<rparr>]\<rparr>)"

definition get_DFA_state :: "dfa_states \<Rightarrow> nat option \<times> dfa_states" where
  "get_DFA_state dfas =
     (case dfs_unmarked dfas of
        [] \<Rightarrow> (None, dfas)
      | si # rest \<Rightarrow>
          (let s = dfs_mem dfas ! si; tms = dfs_transmem dfas
           in (Some si, dfas\<lparr>dfs_unmarked := rest, dfs_marked := si # dfs_marked dfas,
                 dfs_mem := (dfs_mem dfas)[si := s\<lparr>ds_trans := (length tms - 1, length (tb_tran (last tms)))\<rparr>]\<rparr>)))"

text \<open>Entries of the sorted array that no state claims stay undefined.\<close>

fun sort_loop :: "dfa_state list \<Rightarrow> nat option list \<Rightarrow> nat list \<Rightarrow> nat option list option" where
  "sort_loop mem arr [] = Some arr"
| "sort_loop mem arr (si # marked) =
     (let no = ds_no (mem ! si)
      in if 0 \<le> no \<and> nat no < length arr then sort_loop mem (arr[nat no := Some si]) marked else None)"

definition sort_DFA_states :: "dfa_states \<Rightarrow> dfa_states option" where
  "sort_DFA_states dfas =
     do { arr \<leftarrow> sort_loop (dfs_mem dfas) (replicate (dfs_no dfas) None) (dfs_marked dfas);
          Some (dfas\<lparr>dfs_sortarray := Some arr, dfs_hasharray := None\<rparr>) }"

end
