(* ===== verification/Dfa_Build.thy ===== *)
theory Dfa_Build
  imports Dfa_Parse Dfa_States
begin

text \<open>
  From the tree of the patterns to the automaton (second part of \<^verbatim>\<open>dfa/dfa.c\<close>): the traversal that finds which positions
  can follow which, the construction of states and transitions, and the functions of the interface.

  \<open>None\<close> is a failing assertion, an access outside of an array or to an entry that was not set, or no return.
\<close>

section \<open>Traversal\<close>

text \<open>An entry of \<^verbatim>\<open>posar\<close> is the range of characters of the node it points to.\<close>

record trav_state =
  tv_poset :: dfaset_type
  tv_followpos :: "int list list"
  tv_posar :: "(int \<times> int) option list"

definition init_pos :: "dfa_parse_info \<Rightarrow> (int \<times> int) option list" where
  "init_pos p = replicate (1 + nat (dp_position p)) None"

definition init_followpos :: "dfa_parse_info \<Rightarrow> int list list" where
  "init_followpos p = replicate (1 + nat (dp_position p)) []"

primrec add_follow :: "trav_state \<Rightarrow> int list \<Rightarrow> int list \<Rightarrow> trav_state option" where
  "add_follow ts [] firstpos = Some ts"
| "add_follow ts (v # lastpos) firstpos =
     (if 0 \<le> v \<and> nat v < length (tv_followpos ts) then
        (let (f, st) = union_DFASet (tv_poset ts) (tv_followpos ts ! nat v) firstpos
         in add_follow (ts\<lparr>tv_poset := st, tv_followpos := (tv_followpos ts)[nat v := f]\<rparr>) lastpos firstpos)
      else None)"

primrec rm_sets :: "trav_state \<Rightarrow> int list list \<Rightarrow> trav_state option" where
  "rm_sets ts [] = Some ts"
| "rm_sets ts (s # ss) = do { st \<leftarrow> rm_DFASet (tv_poset ts) s; rm_sets (ts\<lparr>tv_poset := st\<rparr>) ss }"

text \<open>The codes of the operators in the field of the position.\<close>

definition CAT_CODE :: int where "CAT_CODE = 16000"
definition EPSILON_CODE :: int where "EPSILON_CODE = 16004"

text \<open>The result is \<^verbatim>\<open>nullable\<close>, \<^verbatim>\<open>firstpos\<close> and \<^verbatim>\<open>lastpos\<close> of the node. A position that is read back as the code of an
  operator is taken for that operator.\<close>

primrec dfa_trav :: "tnode \<Rightarrow> trav_state \<Rightarrow> (bool \<times> int list \<times> int list \<times> trav_state) option" where
  "dfa_trav (T_CAT a b) ts =
     do { (n0, f0, l0, ts) \<leftarrow> dfa_trav a ts;
          (n1, f1, l1, ts) \<leftarrow> dfa_trav b ts;
          let (f, st) = union_DFASet (tv_poset ts) [] f0;
          let (f, st) = (if n0 then union_DFASet st f f1 else (f, st));
          let (l, st) = union_DFASet st [] l1;
          let (l, st) = (if n1 then union_DFASet st l l0 else (l, st));
          ts \<leftarrow> add_follow (ts\<lparr>tv_poset := st\<rparr>) l0 f1;
          ts \<leftarrow> rm_sets ts [f0, l0, f1, l1];
          Some (n0 \<and> n1, f, l, ts) }"
| "dfa_trav (T_OR a b) ts =
     do { (n0, f0, l0, ts) \<leftarrow> dfa_trav a ts;
          (n1, f1, l1, ts) \<leftarrow> dfa_trav b ts;
          let (f, st) = merge_DFASet (tv_poset ts) f0 f1;
          let (l, st) = merge_DFASet st l0 l1;
          ts \<leftarrow> rm_sets (ts\<lparr>tv_poset := st\<rparr>) [f0, l0, f1, l1];
          Some (n0 \<or> n1, f, l, ts) }"
| "dfa_trav (T_PLUS a) ts =
     do { (n, f, l, ts) \<leftarrow> dfa_trav a ts; ts \<leftarrow> add_follow ts l f; Some (n, f, l, ts) }"
| "dfa_trav (T_STAR a) ts =
     do { (n, f, l, ts) \<leftarrow> dfa_trav a ts; ts \<leftarrow> add_follow ts l f; Some (True, f, l, ts) }"
| "dfa_trav T_EPSILON ts = Some (True, [], [], ts)"
| "dfa_trav (T_POS n c0 c1) ts =
     (let pos = n mod 2 ^ 15
      in if pos = EPSILON_CODE then Some (True, [], [], ts)
         else if CAT_CODE \<le> pos \<and> pos < EPSILON_CODE then None
         else if nat pos < length (tv_posar ts) then
           (let ts = ts\<lparr>tv_posar := (tv_posar ts)[nat pos := Some (c0, c1)]\<rparr>;
                (f, st) = add_DFASet (tv_poset ts) [] pos;
                (l, st) = add_DFASet st [] pos
            in Some (False, f, l, ts\<lparr>tv_poset := st\<rparr>))
         else None)"

section \<open>Transitions\<close>

definition pos_range :: "trav_state \<Rightarrow> int \<Rightarrow> (int \<times> int) option" where
  "pos_range ts v = (if 0 \<le> v \<and> nat v < length (tv_posar ts) then tv_posar ts ! nat v else None)"

text \<open>The positions of a state that read a character, with the first accepting rule, negated, and the first one
  among those that need not be at the start of a line.\<close>

primrec scan_rules :: "trav_state \<Rightarrow> int \<Rightarrow> int list \<Rightarrow> int \<Rightarrow> int \<Rightarrow> (int list \<times> int \<times> int) option" where
  "scan_rules ts max_char [] i j = Some ([], i, j)"
| "scan_rules ts max_char (v # s) i j =
     do { (c0, c1) \<leftarrow> pos_range ts v;
          if 0 \<le> c0 \<and> c0 \<le> max_char then do { (pos, i, j) \<leftarrow> scan_rules ts max_char s i j; Some (v # pos, i, j) }
          else if c0 < 0 then
            scan_rules ts max_char s (if i = 0 \<or> i < c0 then c0 else i) (if j = 0 \<or> j < c1 then c1 else j)
          else scan_rules ts max_char s i j }"

text \<open>The first character from \<open>char_1\<close> on that some position reads.\<close>

primrec chunk_start :: "trav_state \<Rightarrow> int list \<Rightarrow> int \<Rightarrow> int \<Rightarrow> int option" where
  "chunk_start ts [] char_1 char_0 = Some char_0"
| "chunk_start ts (i # pos) char_1 char_0 =
     do { (c0, c1) \<leftarrow> pos_range ts i;
          chunk_start ts pos char_1
            (if char_1 \<le> c1 \<and> c0 < char_0 then if c0 < char_1 then char_1 else c0 else char_0) }"

text \<open>How far the characters behave as \<open>char_0\<close>, and the set of positions after it.\<close>

primrec chunk_set :: "trav_state \<Rightarrow> int list \<Rightarrow> int \<Rightarrow> int \<Rightarrow> int list \<Rightarrow> dfaset_type \<Rightarrow> (int \<times> int list \<times> dfaset_type) option" where
  "chunk_set ts [] char_0 char_1 tran_set st = Some (char_1, tran_set, st)"
| "chunk_set ts (i # pos) char_0 char_1 tran_set st =
     do { (c0, c1) \<leftarrow> pos_range ts i;
          let char_1 = (if char_0 < c0 \<and> c0 \<le> char_1 then c0 - 1 else if char_0 \<le> c1 \<and> c1 < char_1 then c1 else char_1);
          let (tran_set, st) = (if char_0 \<le> c1 \<and> c0 \<le> char_0 then union_DFASet st tran_set (tv_followpos ts ! nat i)
                                else (tran_set, st));
          chunk_set ts pos char_0 char_1 tran_set st }"

partial_function (option) char_loop ::
  "trav_state \<Rightarrow> int \<Rightarrow> int list \<Rightarrow> nat \<Rightarrow> int \<Rightarrow> dfa_states \<Rightarrow> dfa_states option" where
  "char_loop ts max_char pos dfa_from char_1 dfas =
     (if char_1 \<le> max_char then
        do { char_0 \<leftarrow> chunk_start ts pos char_1 (max_char + 1);
             if max_char < char_0 then Some dfas
             else
               do { (char_1, tran_set, st) \<leftarrow> chunk_set ts pos char_0 max_char [] (dfs_st dfas);
                    let dfas = dfas\<lparr>dfs_st := st\<rparr>;
                    dfas \<leftarrow> (if tran_set \<noteq> [] then
                              do { (_, dfa_to, dfas) \<leftarrow> add_DFA_state dfas tran_set;
                                   Some (add_DFA_tran dfas dfa_from char_0 char_1 (ds_no (dfs_mem dfas ! dfa_to))) }
                            else Some dfas);
                    char_loop ts max_char pos dfa_from (char_1 + 1) dfas } }
      else Some dfas)"

declare char_loop.simps [code]

definition state_step :: "trav_state \<Rightarrow> int \<Rightarrow> nat \<Rightarrow> dfa_states \<Rightarrow> dfa_states option" where
  "state_step ts max_char dfa_from dfas =
     do { let s = dfs_mem dfas ! dfa_from;
          (pos, i, j) \<leftarrow> scan_rules ts max_char (ds_set s) 0 0;
          let dfas = dfas\<lparr>dfs_mem := (dfs_mem dfas)[dfa_from := s\<lparr>ds_rule_no := c_short (- i), ds_rule_nno := c_short (- j)\<rparr>]\<rparr>;
          char_loop ts max_char pos dfa_from 0 dfas }"

partial_function (option) tran_loop :: "trav_state \<Rightarrow> int \<Rightarrow> dfa_states \<Rightarrow> dfa_states option" where
  "tran_loop ts max_char dfas =
     (case get_DFA_state dfas of
        (None, dfas) \<Rightarrow> Some dfas
      | (Some dfa_from, dfas) \<Rightarrow> do { dfas \<leftarrow> state_step ts max_char dfa_from dfas; tran_loop ts max_char dfas })"

declare tran_loop.simps [code]

definition mk_dfa_tran :: "trav_state \<Rightarrow> int \<Rightarrow> int list \<Rightarrow> dfa_states \<Rightarrow> dfa_states option" where
  "mk_dfa_tran ts max_char root_firstpos dfas =
     do { let (tran_set, st) = cp_DFASet (dfs_st dfas) root_firstpos;
          (i, _, dfas) \<leftarrow> add_DFA_state (dfas\<lparr>dfs_st := st\<rparr>) tran_set;
          if i then do { dfas \<leftarrow> tran_loop ts max_char dfas; sort_DFA_states dfas } else None }"

definition mk_dfas :: "dfa_parse_info \<Rightarrow> nat \<Rightarrow> dfa_states option" where
  "mk_dfas p poset_chunk =
     (if 10 < poset_chunk then
        do { poset \<leftarrow> mk_DFASetType poset_chunk;
             root \<leftarrow> dp_root p;
             (_, firstpos, _, ts) \<leftarrow> dfa_trav root \<lparr>tv_poset = poset, tv_followpos = init_followpos p, tv_posar = init_pos p\<rparr>;
             mk_dfa_tran ts (int (bh_size (dp_charset p))) firstpos (init_DFA_states (tv_poset ts) STATE_HASH) }
      else None)"

section \<open>Interface\<close>

record dfa =
  d_no_states :: nat
  d_states :: "nat option list option"
  d_state_info :: "dfa_states option"
  d_parse_info :: "dfa_parse_info option"

definition dfa_init :: "dfa option" where
  "dfa_init =
     do { p \<leftarrow> dfa_parse_init;
          p \<leftarrow> dfa_parse_cmap_thompson p;
          Some \<lparr>d_no_states = 0, d_states = None, d_state_info = None, d_parse_info = Some p\<rparr> }"

definition dfa_anyset_includes_nl :: "dfa \<Rightarrow> dfa option" where
  "dfa_anyset_includes_nl d =
     do { p \<leftarrow> d_parse_info d;
          s \<leftarrow> add_BSet (dp_charset p) (dp_anyset p) 10;
          Some (d\<lparr>d_parse_info := Some (p\<lparr>dp_anyset := s\<rparr>)\<rparr>) }"

definition dfa_set_cmap :: "dfa \<Rightarrow> cmap_fun option \<Rightarrow> dfa option" where
  "dfa_set_cmap d cmap = do { p \<leftarrow> d_parse_info d; Some (d\<lparr>d_parse_info := Some (p\<lparr>dp_cmap := cmap\<rparr>)\<rparr>) }"

definition dfa_get_last_rule :: "dfa \<Rightarrow> int option" where
  "dfa_get_last_rule d = map_option dp_rule (d_parse_info d)"

text \<open>The result is the error code and the number of characters used.\<close>

definition dfa_parse :: "dfa \<Rightarrow> byte list \<Rightarrow> (int \<times> nat \<times> dfa) option" where
  "dfa_parse d pattern =
     do { p \<leftarrow> d_parse_info d;
          (top, p) \<leftarrow> do_parse p pattern;
          if dp_err_code p \<noteq> 0 then Some (dp_err_code p, dp_ptr p, d\<lparr>d_parse_info := Some p\<rparr>)
          else
            do { top \<leftarrow> top;
                 let root = (case dp_root p of None \<Rightarrow> top | Some r \<Rightarrow> T_OR r top);
                 Some (0, dp_ptr p, d\<lparr>d_parse_info := Some (p\<lparr>dp_root := Some root\<rparr>)\<rparr>) } }"

definition POSET_CHUNK :: nat where "POSET_CHUNK = 100"

definition dfa_mkstate :: "dfa \<Rightarrow> dfa option" where
  "dfa_mkstate d =
     do { p \<leftarrow> d_parse_info d;
          dfas \<leftarrow> mk_dfas p POSET_CHUNK;
          Some (d\<lparr>d_state_info := Some dfas, d_no_states := dfs_no dfas, d_states := dfs_sortarray dfas, d_parse_info := None\<rparr>) }"

text \<open>Deleting frees what is left of the two parts.\<close>

definition dfa_delete :: "dfa option \<Rightarrow> dfa option option" where
  "dfa_delete dfap =
     (case dfap of
        None \<Rightarrow> None
      | Some d \<Rightarrow> (case d_state_info d of None \<Rightarrow> Some None | Some dfas \<Rightarrow> do { _ \<leftarrow> rm_DFA_states (Some dfas); Some None }))"

end
