(* ===== verification/Dfa_Lang.thy ===== *)
theory Dfa_Lang
  imports Dfa_Parse
begin

text \<open>
  The reference for the automaton construction: the language of a tree, and the theorem that in a tree where every
  position occurs once the words over the positions are the paths from a first to a last position
  through the follow relation.
\<close>

section \<open>Languages\<close>

definition lconc :: "'a list set \<Rightarrow> 'a list set \<Rightarrow> 'a list set" where
  "lconc A B = {u @ v | u v. u \<in> A \<and> v \<in> B}"

definition lstar :: "'a list set \<Rightarrow> 'a list set" where
  "lstar A = {concat us | us. set us \<subseteq> A}"

definition lplus :: "'a list set \<Rightarrow> 'a list set" where
  "lplus A = {concat us | us. us \<noteq> [] \<and> set us \<subseteq> A}"

definition in_range :: "int \<Rightarrow> int \<Rightarrow> byte \<Rightarrow> bool" where
  "in_range c0 c1 b \<longleftrightarrow> 0 \<le> c0 \<and> c0 \<le> uint b \<and> uint b \<le> c1"

primrec tlang :: "tnode \<Rightarrow> byte list set" where
  "tlang (T_CAT a b) = lconc (tlang a) (tlang b)"
| "tlang (T_OR a b) = tlang a \<union> tlang b"
| "tlang (T_STAR a) = lstar (tlang a)"
| "tlang (T_PLUS a) = lplus (tlang a)"
| "tlang T_EPSILON = {[]}"
| "tlang (T_POS n c0 c1) = {[b] | b. in_range c0 c1 b}"

text \<open>Words over the positions, and the range of a position.\<close>

primrec plang :: "tnode \<Rightarrow> int list set" where
  "plang (T_CAT a b) = lconc (plang a) (plang b)"
| "plang (T_OR a b) = plang a \<union> plang b"
| "plang (T_STAR a) = lstar (plang a)"
| "plang (T_PLUS a) = lplus (plang a)"
| "plang T_EPSILON = {[]}"
| "plang (T_POS n c0 c1) = {[n]}"

primrec ranges :: "tnode \<Rightarrow> (int \<times> int \<times> int) set" where
  "ranges (T_CAT a b) = ranges a \<union> ranges b"
| "ranges (T_OR a b) = ranges a \<union> ranges b"
| "ranges (T_STAR a) = ranges a"
| "ranges (T_PLUS a) = ranges a"
| "ranges T_EPSILON = {}"
| "ranges (T_POS n c0 c1) = {(n, c0, c1)}"

definition positions :: "tnode \<Rightarrow> int set" where
  "positions t = fst ` ranges t"

primrec linear :: "tnode \<Rightarrow> bool" where
  "linear (T_CAT a b) \<longleftrightarrow> linear a \<and> linear b \<and> positions a \<inter> positions b = {}"
| "linear (T_OR a b) \<longleftrightarrow> linear a \<and> linear b \<and> positions a \<inter> positions b = {}"
| "linear (T_STAR a) \<longleftrightarrow> linear a"
| "linear (T_PLUS a) \<longleftrightarrow> linear a"
| "linear T_EPSILON \<longleftrightarrow> True"
| "linear (T_POS n c0 c1) \<longleftrightarrow> True"

lemma positions_simps [simp]:
  "positions (T_CAT a b) = positions a \<union> positions b" "positions (T_OR a b) = positions a \<union> positions b"
  "positions (T_STAR a) = positions a" "positions (T_PLUS a) = positions a"
  "positions T_EPSILON = {}" "positions (T_POS n c0 c1) = {n}"
  by (auto simp: positions_def)

lemma finite_ranges [simp]: "finite (ranges t)" "finite (positions t)"
proof -
  show "finite (ranges t)" by (induction t) auto
  then show "finite (positions t)" by (simp add: positions_def)
qed

subsection \<open>Closures\<close>

lemma lconcI [intro]: "u \<in> A \<Longrightarrow> v \<in> B \<Longrightarrow> u @ v \<in> lconc A B"
  by (auto simp: lconc_def)

lemma lplusI1: "u \<in> A \<Longrightarrow> u \<in> lplus A"
  unfolding lplus_def by (rule CollectI, rule exI [of _ "[u]"]) simp

lemma lplus_append: "u \<in> A \<Longrightarrow> v \<in> lplus A \<Longrightarrow> u @ v \<in> lplus A"
proof -
  assume "u \<in> A" "v \<in> lplus A"
  then obtain us where "v = concat us" "us \<noteq> []" "set us \<subseteq> A" by (auto simp: lplus_def)
  with \<open>u \<in> A\<close> show ?thesis unfolding lplus_def by (intro CollectI exI [of _ "u # us"]) simp
qed

lemma lstar_lplus: "lstar A = insert [] (lplus A)"
proof -
  have "w \<in> insert [] (lplus A)" if w: "w \<in> lstar A" for w
  proof -
    obtain us where us: "w = concat us" "set us \<subseteq> A" using w by (auto simp: lstar_def)
    then show ?thesis by (cases "us = []") (auto simp: lplus_def)
  qed
  moreover have "[] \<in> lstar A" unfolding lstar_def by (intro CollectI exI [of _ "[]"]) simp
  ultimately show ?thesis by (auto simp: lstar_def lplus_def)
qed

lemma Nil_lplus: "[] \<in> lplus A \<longleftrightarrow> [] \<in> A"
proof
  assume "[] \<in> lplus A"
  then obtain us where us: "[] = concat us" "us \<noteq> []" "set us \<subseteq> A" by (auto simp: lplus_def)
  then obtain u vs where "us = u # vs" by (cases us) auto
  with us show "[] \<in> A" by simp
qed (rule lplusI1)

lemma lplus_induct [consumes 1, case_names one more]:
  assumes "w \<in> lplus A" "\<And>u. u \<in> A \<Longrightarrow> P u" "\<And>u v. u \<in> A \<Longrightarrow> v \<in> lplus A \<Longrightarrow> P v \<Longrightarrow> P (u @ v)"
  shows "P w"
proof -
  obtain us where "w = concat us" "us \<noteq> []" "set us \<subseteq> A" using assms(1) by (auto simp: lplus_def)
  then show ?thesis
  proof (induction us arbitrary: w)
    case (Cons u us)
    show ?case
    proof (cases "us = []")
      case True
      then show ?thesis using Cons.prems assms(2) by simp
    next
      case False
      then have "concat us \<in> lplus A" using Cons.prems(3) by (auto simp: lplus_def)
      then show ?thesis using Cons False assms(3) [of u "concat us"] by simp
    qed
  qed simp
qed

lemma plang_positions: "xs \<in> plang t \<Longrightarrow> set xs \<subseteq> positions t"
proof (induction t arbitrary: xs)
  case (T_STAR a)
  then obtain us where "xs = concat us" "set us \<subseteq> plang a" by (auto simp: lstar_def)
  then show ?case using T_STAR.IH by fastforce
next
  case (T_PLUS a)
  then obtain us where "xs = concat us" "set us \<subseteq> plang a" by (auto simp: lplus_def)
  then show ?case using T_PLUS.IH by fastforce
qed (auto simp: lconc_def, blast+)

subsection \<open>Reading a word along positions\<close>

definition reads :: "(int \<times> int \<times> int) set \<Rightarrow> int \<Rightarrow> byte \<Rightarrow> bool" where
  "reads R n b \<longleftrightarrow> (\<exists>c0 c1. (n, c0, c1) \<in> R \<and> in_range c0 c1 b)"

lemma list_all2_concat_right:
  "list_all2 P (concat us) w \<longleftrightarrow> (\<exists>ws. w = concat ws \<and> list_all2 (list_all2 P) us ws)"
proof (induction us arbitrary: w)
  case Nil
  show ?case by (auto intro: exI [of _ "[]"])
next
  case (Cons u us)
  show ?case
  proof
    assume "list_all2 P (concat (u # us)) w"
    then obtain w1 w2 where "w = w1 @ w2" "list_all2 P u w1" "list_all2 P (concat us) w2" by (auto simp: list_all2_append1)
    then show "\<exists>ws. w = concat ws \<and> list_all2 (list_all2 P) (u # us) ws"
      using Cons.IH [of w2] by (metis concat.simps(2) list_all2_Cons)
  next
    assume "\<exists>ws. w = concat ws \<and> list_all2 (list_all2 P) (u # us) ws"
    then show "list_all2 P (concat (u # us)) w" 
      by (auto simp: list_all2_Cons1 intro!: list_all2_appendI) (use Cons.IH in blast)
  qed
qed

definition image_words :: "('a \<Rightarrow> 'b \<Rightarrow> bool) \<Rightarrow> 'a list set \<Rightarrow> 'b list set" where
  "image_words P A = {w. \<exists>xs \<in> A. list_all2 P xs w}"

lemma image_words_conc: "image_words P (lconc A B) = lconc (image_words P A) (image_words P B)"
  unfolding image_words_def lconc_def by (auto simp: list_all2_append1 intro: list_all2_appendI) (use list_all2_appendI in blast)

lemma image_words_concat:
  "set ws \<subseteq> image_words P A \<longleftrightarrow> (\<exists>us. set us \<subseteq> A \<and> list_all2 (list_all2 P) us ws)"
proof (induction ws)
  case (Cons w ws)
  show ?case
  proof
    assume "set (w # ws) \<subseteq> image_words P A"
    then obtain u us where "u \<in> A" "list_all2 P u w" "set us \<subseteq> A" "list_all2 (list_all2 P) us ws"
      using Cons.IH by (auto simp: image_words_def)
    then show "\<exists>us. set us \<subseteq> A \<and> list_all2 (list_all2 P) us (w # ws)" by (intro exI [of _ "u # us"]) simp
  next
    assume "\<exists>us. set us \<subseteq> A \<and> list_all2 (list_all2 P) us (w # ws)"
    then show "set (w # ws) \<subseteq> image_words P A" using Cons.IH by (auto simp: list_all2_Cons2 image_words_def)
  qed
qed auto

lemma image_words_plus: "image_words P (lplus A) = lplus (image_words P A)"
proof -
  have "w \<in> image_words P (lplus A) \<longleftrightarrow> w \<in> lplus (image_words P A)" for w
  proof -
    have "w \<in> image_words P (lplus A) \<longleftrightarrow> (\<exists>us ws. us \<noteq> [] \<and> set us \<subseteq> A \<and> w = concat ws \<and> list_all2 (list_all2 P) us ws)"
      by (auto simp: image_words_def lplus_def list_all2_concat_right) (use list_all2_concat_right in blast)
    also have "\<dots> \<longleftrightarrow> (\<exists>ws. w = concat ws \<and> ws \<noteq> [] \<and> set ws \<subseteq> image_words P A)"
      unfolding image_words_concat by (metis list_all2_Nil list_all2_Nil2)
    finally show ?thesis by (auto simp: lplus_def)
  qed
  then show ?thesis by blast
qed

lemma image_words_star: "image_words P (lstar A) = lstar (image_words P A)"
  by (simp add: lstar_lplus flip: image_words_plus) (auto simp: image_words_def)

lemma image_words_cong:
  "(\<And>xs x b. xs \<in> A \<Longrightarrow> x \<in> set xs \<Longrightarrow> P x b = Q x b) \<Longrightarrow> image_words P A = image_words Q A"
  unfolding image_words_def by (metis (no_types, lifting) list.rel_mono_strong)

definition agrees :: "(int \<times> int \<times> int) set \<Rightarrow> tnode \<Rightarrow> bool" where
  "agrees R t \<longleftrightarrow> (\<forall>n \<in> positions t. \<forall>c. (n, c) \<in> R \<longleftrightarrow> (n, c) \<in> ranges t)"

lemma ranges_position: "(n, c) \<in> ranges t \<Longrightarrow> n \<in> positions t"
  unfolding positions_def by force

lemma agrees_parts:
  "agrees R (T_CAT a b) \<Longrightarrow> positions a \<inter> positions b = {} \<Longrightarrow> agrees R a \<and> agrees R b"
  "agrees R (T_OR a b) \<Longrightarrow> positions a \<inter> positions b = {} \<Longrightarrow> agrees R a \<and> agrees R b"
  by (auto simp: agrees_def dest: ranges_position)

lemma agrees_self: "agrees (ranges t) t"
  by (simp add: agrees_def)

lemma tlang_image: "linear t \<Longrightarrow> agrees R t \<Longrightarrow> tlang t = image_words (reads R) (plang t)"
proof (induction t)
  case (T_CAT a b)
  then show ?case using agrees_parts(1) [OF T_CAT.prems(2)] by (simp add: image_words_conc)
next
  case (T_OR a b)
  then show ?case using agrees_parts(2) [OF T_OR.prems(2)] by (auto simp: image_words_def)
next
  case (T_STAR a)
  then show ?case by (simp add: image_words_star agrees_def)
next
  case (T_PLUS a)
  then show ?case by (simp add: image_words_plus agrees_def)
next
  case T_EPSILON
  show ?case by (simp add: image_words_def)
next
  case (T_POS n c0 c1)
  then show ?case by (auto simp: image_words_def reads_def agrees_def list_all2_Cons1)
qed

section \<open>First, last and follow\<close>

primrec nullable :: "tnode \<Rightarrow> bool" where
  "nullable (T_CAT a b) \<longleftrightarrow> nullable a \<and> nullable b"
| "nullable (T_OR a b) \<longleftrightarrow> nullable a \<or> nullable b"
| "nullable (T_STAR a) \<longleftrightarrow> True"
| "nullable (T_PLUS a) \<longleftrightarrow> nullable a"
| "nullable T_EPSILON \<longleftrightarrow> True"
| "nullable (T_POS n c0 c1) \<longleftrightarrow> False"

primrec firsts :: "tnode \<Rightarrow> int set" where
  "firsts (T_CAT a b) = firsts a \<union> (if nullable a then firsts b else {})"
| "firsts (T_OR a b) = firsts a \<union> firsts b"
| "firsts (T_STAR a) = firsts a"
| "firsts (T_PLUS a) = firsts a"
| "firsts T_EPSILON = {}"
| "firsts (T_POS n c0 c1) = {n}"

primrec lasts :: "tnode \<Rightarrow> int set" where
  "lasts (T_CAT a b) = lasts b \<union> (if nullable b then lasts a else {})"
| "lasts (T_OR a b) = lasts a \<union> lasts b"
| "lasts (T_STAR a) = lasts a"
| "lasts (T_PLUS a) = lasts a"
| "lasts T_EPSILON = {}"
| "lasts (T_POS n c0 c1) = {n}"

primrec follows :: "tnode \<Rightarrow> (int \<times> int) set" where
  "follows (T_CAT a b) = follows a \<union> follows b \<union> lasts a \<times> firsts b"
| "follows (T_OR a b) = follows a \<union> follows b"
| "follows (T_STAR a) = follows a \<union> lasts a \<times> firsts a"
| "follows (T_PLUS a) = follows a \<union> lasts a \<times> firsts a"
| "follows T_EPSILON = {}"
| "follows (T_POS n c0 c1) = {}"

lemma firsts_positions: "firsts t \<subseteq> positions t"
  by (induction t) auto

lemma lasts_positions: "lasts t \<subseteq> positions t"
  by (induction t) auto

lemma follows_positions: "follows t \<subseteq> positions t \<times> positions t"
  by (induction t) (use firsts_positions lasts_positions in \<open>auto; blast\<close>)+

lemma nullable_plang: "nullable t \<longleftrightarrow> [] \<in> plang t"
  by (induction t) (auto simp: lconc_def lstar_lplus Nil_lplus)

text \<open>A path is a word whose neighbours are related.\<close>

abbreviation path :: "('a \<times> 'a) set \<Rightarrow> 'a list \<Rightarrow> bool" where
  "path F \<equiv> successively (\<lambda>x y. (x, y) \<in> F)"

lemma path_append:
  "path F (xs @ ys) \<longleftrightarrow> path F xs \<and> path F ys \<and> (xs \<noteq> [] \<longrightarrow> ys \<noteq> [] \<longrightarrow> (last xs, hd ys) \<in> F)"
  by (auto simp: successively_append_iff)

lemma path_mono: "path F xs \<Longrightarrow> F \<subseteq> G \<Longrightarrow> path G xs"
  by (erule successively_mono) auto

definition local_words :: "tnode \<Rightarrow> int list set" where
  "local_words t = {xs. xs \<noteq> [] \<and> List.hd xs \<in> firsts t \<and> last xs \<in> lasts t \<and> path (follows t) xs}"

lemma local_plus:
  assumes "xs \<noteq> []" "path (F \<union> L \<times> S) xs" "List.hd xs \<in> S" "last xs \<in> L"
  shows "xs \<in> lplus {ys. ys \<noteq> [] \<and> List.hd ys \<in> S \<and> last ys \<in> L \<and> path F ys}"
proof -
  let ?A = "{ys. ys \<noteq> [] \<and> List.hd ys \<in> S \<and> last ys \<in> L \<and> path F ys}"
  have "\<exists>ys zs. xs = ys @ zs \<and> ys \<noteq> [] \<and> last ys \<in> L \<and> path F ys \<and> (zs = [] \<or> zs \<in> lplus ?A)"
    using assms(1,2,4)
  proof (induction xs)
    case (Cons x xs)
    show ?case
    proof (cases "xs = []")
      case True
      then show ?thesis using Cons.prems by (intro exI [of _ "[x]"] exI [of _ "[]"]) simp
    next
      case False
      then obtain ys zs where IH: "xs = ys @ zs" "ys \<noteq> []" "last ys \<in> L" "path F ys" "zs = [] \<or> zs \<in> lplus ?A"
        using Cons by (auto simp: successively_Cons)
      have "(x, List.hd ys) \<in> F \<union> L \<times> S" using Cons.prems(2) False IH(1,2) by (simp add: successively_Cons)
      then consider "(x, List.hd ys) \<in> F" | "x \<in> L" "List.hd ys \<in> S" by auto
      then show ?thesis
      proof cases
        case 1
        then show ?thesis using IH by (intro exI [of _ "x # ys"] exI [of _ zs]) (auto simp: successively_Cons)
      next
        case 2
        then have "ys \<in> ?A" using IH by simp
        then have "ys @ zs \<in> lplus ?A" using IH(5) by (auto intro: lplusI1 lplus_append)
        then show ?thesis using 2 IH by (intro exI [of _ "[x]"] exI [of _ xs]) auto
      qed
    qed
  qed simp
  then obtain ys zs where s: "xs = ys @ zs" "ys \<noteq> []" "last ys \<in> L" "path F ys" "zs = [] \<or> zs \<in> lplus ?A" by blast
  then have "ys \<in> ?A" using assms(3) by simp
  then show ?thesis using s by (auto intro: lplusI1 lplus_append)
qed

lemma plus_local:
  assumes "xs \<in> lplus {ys. ys \<noteq> [] \<and> List.hd ys \<in> S \<and> last ys \<in> L \<and> path F ys}"
  shows "xs \<noteq> [] \<and> List.hd xs \<in> S \<and> last xs \<in> L \<and> path (F \<union> L \<times> S) xs"
  using assms
proof (induction rule: lplus_induct)
  case (one u)
  then show ?case using path_mono [of F u "F \<union> L \<times> S"] by simp
next
  case (more u v)
  then have "u \<noteq> []" "last u \<in> L" "List.hd u \<in> S" "path (F \<union> L \<times> S) u"
    using path_mono [of F u "F \<union> L \<times> S"] by simp_all
  then show ?case using more(3) unfolding path_append by simp
qed

lemma local_words_plus: "local_words (T_PLUS a) = lplus (local_words a)"
proof
  show "local_words (T_PLUS a) \<subseteq> lplus (local_words a)"
  proof
    fix xs assume "xs \<in> local_words (T_PLUS a)"
    then have "xs \<noteq> []" "path (follows a \<union> lasts a \<times> firsts a) xs" "List.hd xs \<in> firsts a" "last xs \<in> lasts a"
      by (simp_all add: local_words_def)
    then show "xs \<in> lplus (local_words a)" unfolding local_words_def by (rule local_plus)
  qed
  show "lplus (local_words a) \<subseteq> local_words (T_PLUS a)"
  proof
    fix xs assume "xs \<in> lplus (local_words a)"
    then have "xs \<noteq> [] \<and> List.hd xs \<in> firsts a \<and> last xs \<in> lasts a \<and> path (follows a \<union> lasts a \<times> firsts a) xs"
      unfolding local_words_def by (rule plus_local)
    then show "xs \<in> local_words (T_PLUS a)" by (simp add: local_words_def)
  qed
qed

text \<open>A path over two disjoint parts stays in one of them or crosses once.\<close>

lemma path_right:
  assumes "path (fa \<union> fb \<union> L \<times> S) xs" "xs \<noteq> []" "List.hd xs \<in> B" "fa \<subseteq> A \<times> A" "fb \<subseteq> B \<times> B" "L \<subseteq> A" "A \<inter> B = {}"
  shows "path fb xs \<and> set xs \<subseteq> B"
  using assms(1-3)
proof (induction xs)
  case (Cons x xs)
  show ?case
  proof (cases xs)
    case Nil
    then show ?thesis using Cons.prems by simp
  next
    case (Cons y ys)
    then have "(x, y) \<in> fb" "y \<in> B" using Cons.prems assms(4-7) by auto
    then show ?thesis using Cons.IH Cons.prems Cons by simp
  qed
qed simp

lemma path_left:
  assumes "path (fa \<union> fb \<union> L \<times> S) xs" "xs \<noteq> []" "List.hd xs \<in> A"
    and parts: "fa \<subseteq> A \<times> A" "fb \<subseteq> B \<times> B" "L \<subseteq> A" "S \<subseteq> B" "A \<inter> B = {}"
  shows "path fa xs \<and> set xs \<subseteq> A \<or>
    (\<exists>ys zs. xs = ys @ zs \<and> ys \<noteq> [] \<and> zs \<noteq> [] \<and> path fa ys \<and> set ys \<subseteq> A \<and> last ys \<in> L \<and> List.hd zs \<in> S \<and> path fb zs \<and> set zs \<subseteq> B)"
  using assms(1-3)
proof (induction xs)
  case (Cons x xs)
  show ?case
  proof (cases xs)
    case Nil
    then show ?thesis using Cons.prems by simp
  next
    case xs: (Cons y ys)
    then have xy: "(x, y) \<in> fa \<union> fb \<union> L \<times> S" "path (fa \<union> fb \<union> L \<times> S) xs" using Cons.prems(1) by simp_all
    have "(x, y) \<notin> fb" using Cons.prems(3) parts by auto
    then consider "(x, y) \<in> fa" | "x \<in> L" "y \<in> S" using xy(1) by blast
    then show ?thesis
    proof cases
      case 1
      then have "y \<in> A" using parts by auto
      then have "path fa xs \<and> set xs \<subseteq> A \<or>
        (\<exists>ys zs. xs = ys @ zs \<and> ys \<noteq> [] \<and> zs \<noteq> [] \<and> path fa ys \<and> set ys \<subseteq> A \<and> last ys \<in> L \<and> List.hd zs \<in> S \<and> path fb zs \<and> set zs \<subseteq> B)"
        using Cons.IH xy(2) xs by simp
      then show ?thesis
      proof (elim disjE exE conjE)
        assume "path fa xs" "set xs \<subseteq> A"
        then show ?thesis using 1 xs Cons.prems(3) by simp
      next
        fix us zs assume s: "xs = us @ zs" "us \<noteq> []" "zs \<noteq> []" "path fa us" "set us \<subseteq> A" "last us \<in> L" "List.hd zs \<in> S" "path fb zs" "set zs \<subseteq> B"
        moreover have "List.hd us = y" using s(1,2) xs by (cases us) auto
        ultimately have "x # xs = (x # us) @ zs \<and> x # us \<noteq> [] \<and> zs \<noteq> [] \<and> path fa (x # us) \<and> set (x # us) \<subseteq> A \<and>
            last (x # us) \<in> L \<and> List.hd zs \<in> S \<and> path fb zs \<and> set zs \<subseteq> B"
          using 1 Cons.prems(3) by (simp add: successively_Cons)
        then show ?thesis by blast
      qed
    next
      case 2
      have "path fb xs \<and> set xs \<subseteq> B" by (rule path_right [OF xy(2)]) (use 2 xs parts in auto)
      then have "x # xs = [x] @ xs \<and> [x] \<noteq> [] \<and> xs \<noteq> [] \<and> path fa [x] \<and> set [x] \<subseteq> A \<and> last [x] \<in> L \<and> List.hd xs \<in> S \<and> path fb xs \<and> set xs \<subseteq> B"
        using 2 xs Cons.prems(3) by simp
      then show ?thesis by blast
    qed
  qed
qed simp

lemmas tree_parts = firsts_positions lasts_positions follows_positions

lemma local_words_or:
  assumes "positions a \<inter> positions b = {}"
  shows "local_words (T_OR a b) = local_words a \<union> local_words b"
proof
  have one: "local_words (T_OR a b) \<inter> {xs. List.hd xs \<in> firsts a} \<subseteq> local_words a" if d: "positions a \<inter> positions b = {}" for a b
  proof
    fix xs assume "xs \<in> local_words (T_OR a b) \<inter> {xs. List.hd xs \<in> firsts a}"
    then have xs: "xs \<noteq> []" "List.hd xs \<in> firsts a" "last xs \<in> lasts a \<union> lasts b" "path (follows a \<union> follows b) xs"
      by (auto simp: local_words_def)
    moreover have "path (follows b \<union> follows a \<union> {} \<times> {}) xs" using xs(4) by (simp add: Un_commute)
    then have "path (follows a) xs \<and> set xs \<subseteq> positions a"
      by (rule path_right [of _ _ _ _ _ _ "positions b"]) (use xs tree_parts d in auto)
    moreover have "last xs \<in> set xs" using xs(1) by simp
    ultimately show "xs \<in> local_words a" using d lasts_positions [of b] unfolding local_words_def by blast
  qed
  show "local_words (T_OR a b) \<subseteq> local_words a \<union> local_words b"
  proof
    fix xs assume xs: "xs \<in> local_words (T_OR a b)"
    then consider "List.hd xs \<in> firsts a" | "List.hd xs \<in> firsts b" by (auto simp: local_words_def)
    then show "xs \<in> local_words a \<union> local_words b"
    proof cases
      case 1
      then show ?thesis using one [OF assms] xs by blast
    next
      case 2
      moreover have "xs \<in> local_words (T_OR b a)" using xs by (simp add: local_words_def Un_commute disj_commute)
      ultimately show ?thesis using one [of b a] assms by blast
    qed
  qed
  show "local_words a \<union> local_words b \<subseteq> local_words (T_OR a b)"
    using path_mono [of "follows a" _ "follows a \<union> follows b"] path_mono [of "follows b" _ "follows a \<union> follows b"]
    unfolding local_words_def by auto
qed

lemma local_words_cat:
  assumes "positions a \<inter> positions b = {}"
  shows "local_words (T_CAT a b) =
    lconc (local_words a) (local_words b) \<union> (if nullable b then local_words a else {}) \<union> (if nullable a then local_words b else {})"
    (is "_ = ?R")
proof
  let ?F = "follows a \<union> follows b \<union> lasts a \<times> firsts b"
  show "local_words (T_CAT a b) \<subseteq> ?R"
  proof
    fix xs assume "xs \<in> local_words (T_CAT a b)"
    then have xs: "xs \<noteq> []" "List.hd xs \<in> firsts (T_CAT a b)" "last xs \<in> lasts (T_CAT a b)" "path ?F xs"
      by (auto simp: local_words_def)
    have l: "last xs \<in> set xs" using xs(1) by simp
    consider (a) "List.hd xs \<in> firsts a" | (b) "nullable a" "List.hd xs \<in> firsts b" using xs(2) by (auto split: if_splits)
    then show "xs \<in> ?R"
    proof cases
      case b
      have p: "path (follows b) xs \<and> set xs \<subseteq> positions b"
        by (rule path_right [OF xs(4,1)]) (use b tree_parts assms in auto)
      then have "last xs \<in> lasts b" using xs(3) l lasts_positions [of a] assms by (auto split: if_splits)
      then show ?thesis using b p xs(1) by (simp add: local_words_def)
    next
      case a
      have "path (follows a) xs \<and> set xs \<subseteq> positions a \<or>
        (\<exists>ys zs. xs = ys @ zs \<and> ys \<noteq> [] \<and> zs \<noteq> [] \<and> path (follows a) ys \<and> set ys \<subseteq> positions a \<and> last ys \<in> lasts a \<and>
          List.hd zs \<in> firsts b \<and> path (follows b) zs \<and> set zs \<subseteq> positions b)"
        by (rule path_left [OF xs(4,1)]) (use a tree_parts assms in auto)
      then show ?thesis
      proof (elim disjE exE conjE)
        assume p: "path (follows a) xs" "set xs \<subseteq> positions a"
        then have "last xs \<in> lasts a" "nullable b" using xs(3) l lasts_positions [of b] assms by (auto split: if_splits)
        then show ?thesis using a p xs(1) by (simp add: local_words_def)
      next
        fix ys zs assume s: "xs = ys @ zs" "ys \<noteq> []" "zs \<noteq> []" "path (follows a) ys" "set ys \<subseteq> positions a" "last ys \<in> lasts a"
          "List.hd zs \<in> firsts b" "path (follows b) zs" "set zs \<subseteq> positions b"
        then have "last zs \<in> positions b" by auto
        then have "last zs \<in> lasts b" using xs(3) s lasts_positions [of a] assms by (auto split: if_splits)
        then have "ys \<in> local_words a" "zs \<in> local_words b" using s a by (simp_all add: local_words_def)
        then show ?thesis using s(1) by auto
      qed
    qed
  qed
  have F: "follows a \<subseteq> ?F" "follows b \<subseteq> ?F" by auto
  have "lconc (local_words a) (local_words b) \<subseteq> local_words (T_CAT a b)"
  proof
    fix xs assume "xs \<in> lconc (local_words a) (local_words b)"
    then obtain ys zs where s: "xs = ys @ zs" "ys \<in> local_words a" "zs \<in> local_words b" by (auto simp: lconc_def)
    moreover have "path (follows a) ys \<Longrightarrow> path ?F ys" "path (follows b) zs \<Longrightarrow> path ?F zs"
      using path_mono [of "follows a" ys ?F] path_mono [of "follows b" zs ?F] F by simp_all
    moreover have "(last ys, List.hd zs) \<in> ?F" using s by (simp add: local_words_def)
    ultimately have "path ?F xs" unfolding path_append s(1) by (simp add: local_words_def)
    then show "xs \<in> local_words (T_CAT a b)" using s by (simp add: local_words_def)
  qed
  moreover have "local_words a \<subseteq> local_words (T_CAT a b)" if "nullable b"
    using that unfolding local_words_def using path_mono [of "follows a" _ ?F] by auto
  moreover have "local_words b \<subseteq> local_words (T_CAT a b)" if "nullable a"
    using that unfolding local_words_def using path_mono [of "follows b" _ ?F] by auto
  ultimately show "?R \<subseteq> local_words (T_CAT a b)" by (auto split: if_splits)
qed

lemma lplus_Nil: "lplus A - {[]} = lplus (A - {[]})"
proof -
  have "w \<in> lplus A - {[]} \<longleftrightarrow> w \<in> lplus (A - {[]})" for w
  proof
    assume w: "w \<in> lplus A - {[]}"
    then have "w \<in> lplus A" by simp
    then have "w \<noteq> [] \<longrightarrow> w \<in> lplus (A - {[]})"
    proof (induction rule: lplus_induct)
      case (one u)
      then show ?case by (auto intro: lplusI1)
    next
      case (more u v)
      then show ?case by (cases "u = []"; cases "v = []") (auto intro: lplusI1 lplus_append)
    qed
    then show "w \<in> lplus (A - {[]})" using w by simp
  next
    assume "w \<in> lplus (A - {[]})"
    then show "w \<in> lplus A - {[]}" by (induction rule: lplus_induct) (auto intro: lplusI1 lplus_append)
  qed
  then show ?thesis by blast
qed

lemma lconc_Nil:
  "lconc A B - {[]} = lconc (A - {[]}) (B - {[]}) \<union> (if [] \<in> B then A - {[]} else {}) \<union> (if [] \<in> A then B - {[]} else {})"
  (is "?L = ?R")
proof
  show "?L \<subseteq> ?R"
  proof
    fix w assume "w \<in> ?L"
    then obtain u v where "w = u @ v" "u \<in> A" "v \<in> B" "u \<noteq> [] \<or> v \<noteq> []" by (auto simp: lconc_def)
    then show "w \<in> ?R" by (cases "u = []"; cases "v = []") auto
  qed
  show "?R \<subseteq> ?L" using lconcI [of _ A "[]" B] lconcI [of "[]" A _ B] by (auto simp: lconc_def)
qed

theorem plang_local: "linear t \<Longrightarrow> plang t - {[]} = local_words t"
proof (induction t)
  case (T_CAT a b)
  then show ?case by (simp add: lconc_Nil local_words_cat nullable_plang)
next
  case (T_OR a b)
  then show ?case by (simp add: local_words_or Un_Diff)
next
  case (T_STAR a)
  then have "plang (T_STAR a) - {[]} = lplus (local_words a)" by (simp add: lstar_lplus lplus_Nil)
  then show ?case unfolding local_words_plus [symmetric] by (simp add: local_words_def)
next
  case (T_PLUS a)
  then show ?case by (simp add: lplus_Nil local_words_plus)
next
  case T_EPSILON
  show ?case by (simp add: local_words_def)
next
  case (T_POS n c0 c1)
  have "xs = [n]" if "xs \<noteq> []" "List.hd xs = n" "path {} xs" for xs
    using that by (cases xs; cases "tl xs") auto
  then show ?case by (auto simp: local_words_def)
qed

section \<open>Sets of positions\<close>

text \<open>The positions that can follow after a character, and after a word.\<close>

definition step_set :: "(int \<times> int \<times> int) set \<Rightarrow> (int \<times> int) set \<Rightarrow> int set \<Rightarrow> byte \<Rightarrow> int set" where
  "step_set R F S b = {j. \<exists>i \<in> S. reads R i b \<and> (i, j) \<in> F}"

definition after_word :: "(int \<times> int \<times> int) set \<Rightarrow> (int \<times> int) set \<Rightarrow> int set \<Rightarrow> byte list \<Rightarrow> int set" where
  "after_word R F S w = foldl (step_set R F) S w"

lemma after_word_simps [simp]:
  "after_word R F S [] = S" "after_word R F S (b # w) = after_word R F (step_set R F S b) w"
  "after_word R F S (w @ [b]) = step_set R F (after_word R F S w) b"
  by (simp_all add: after_word_def)

lemma after_word_empty [simp]: "after_word R F {} w = {}"
  by (induction w) (simp_all add: step_set_def)

lemma after_word_iff:
  "j \<in> after_word R F S w \<longleftrightarrow> (\<exists>xs. list_all2 (reads R) xs w \<and> path F (xs @ [j]) \<and> List.hd (xs @ [j]) \<in> S)"
proof (induction w arbitrary: j rule: rev_induct)
  case (snoc b w)
  have hd: "List.hd (xs @ [i, j]) = List.hd (xs @ [i])" for xs and i :: int by (cases xs) auto
  have "j \<in> after_word R F S (w @ [b]) \<longleftrightarrow> (\<exists>i. i \<in> after_word R F S w \<and> reads R i b \<and> (i, j) \<in> F)"
    by (auto simp: step_set_def)
  also have "\<dots> \<longleftrightarrow> (\<exists>i xs. list_all2 (reads R) xs w \<and> path F (xs @ [i]) \<and> List.hd (xs @ [i]) \<in> S \<and> reads R i b \<and> (i, j) \<in> F)"
    unfolding snoc by blast
  also have "\<dots> \<longleftrightarrow> (\<exists>ys. list_all2 (reads R) ys (w @ [b]) \<and> path F (ys @ [j]) \<and> List.hd (ys @ [j]) \<in> S)"
  proof (intro iffI; elim exE conjE)
    fix i xs assume "list_all2 (reads R) xs w" "path F (xs @ [i])" "List.hd (xs @ [i]) \<in> S" "reads R i b" "(i, j) \<in> F"
    then show "\<exists>ys. list_all2 (reads R) ys (w @ [b]) \<and> path F (ys @ [j]) \<and> List.hd (ys @ [j]) \<in> S"
      using path_append [of F "xs @ [i]" "[j]"] hd [of xs i] by (intro exI [of _ "xs @ [i]"]) (simp add: list_all2_appendI)
  next
    fix ys assume ys: "list_all2 (reads R) ys (w @ [b])" "path F (ys @ [j])" "List.hd (ys @ [j]) \<in> S"
    then obtain xs i where s: "ys = xs @ [i]" by (cases ys rule: rev_cases) auto
    then have "list_all2 (reads R) xs w" "reads R i b" using ys(1) list_all2_append [of xs w "reads R" "[i]" "[b]"] list_all2_lengthD [OF ys(1)] by simp_all
    then show "\<exists>i xs. list_all2 (reads R) xs w \<and> path F (xs @ [i]) \<and> List.hd (xs @ [i]) \<in> S \<and> reads R i b \<and> (i, j) \<in> F"
      using ys s path_append [of F "xs @ [i]" "[j]"] hd [of xs i] by (intro exI [of _ i] exI [of _ xs]) simp
  qed
  finally show ?case .
qed simp

section \<open>Rules\<close>

text \<open>The tree of all patterns joins one tree for each rule, which ends in its accepting position.\<close>

definition char_tree :: "tnode \<Rightarrow> bool" where
  "char_tree t \<longleftrightarrow> (\<forall>(n, c0, c1) \<in> ranges t. 0 \<le> c0 \<and> c0 \<le> c1 \<and> c1 \<le> 255)"

fun rule_root :: "tnode \<Rightarrow> bool" where
  "rule_root (T_OR a b) \<longleftrightarrow> rule_root a \<and> rule_root b"
| "rule_root (T_CAT t (T_POS p c0 c1)) \<longleftrightarrow> c0 < 0 \<and> char_tree t"
| "rule_root _ \<longleftrightarrow> False"

fun rule_list :: "tnode \<Rightarrow> (int \<times> tnode \<times> int) list" where
  "rule_list (T_OR a b) = rule_list a @ rule_list b"
| "rule_list (T_CAT t (T_POS p c0 c1)) = [(p, t, - c0)]"
| "rule_list _ = []"

text \<open>The numbers of the rules that match a word.\<close>

definition rule_matches :: "tnode \<Rightarrow> byte list \<Rightarrow> int set" where
  "rule_matches root w = {k. \<exists>p t. (p, t, k) \<in> set (rule_list root) \<and> w \<in> tlang t}"

lemma rule_root_nullable: "rule_root root \<Longrightarrow> \<not> nullable root"
  by (induction root rule: rule_root.induct) auto

lemma rule_root_lasts: "rule_root root \<Longrightarrow> lasts root = fst ` set (rule_list root)"
  by (induction root rule: rule_root.induct) (auto simp: image_Un)

lemma rule_root_ranges:
  "rule_root root \<Longrightarrow> (n, c0, c1) \<in> ranges root \<Longrightarrow>
    c0 < 0 \<and> (\<exists>t. (n, t, - c0) \<in> set (rule_list root)) \<or> 0 \<le> c0 \<and> c0 \<le> c1 \<and> c1 \<le> 255"
proof (induction root rule: rule_root.induct)
  case (1 a b)
  then show ?case by auto
next
  case (2 t p c d)
  then show ?case by (auto simp: char_tree_def)
qed auto

lemma rule_list_range:
  "rule_root root \<Longrightarrow> (p, t, k) \<in> set (rule_list root) \<Longrightarrow>
    0 < k \<and> (\<exists>c1. (p, - k, c1) \<in> ranges root) \<and> ranges t \<subseteq> ranges root \<and> char_tree t"
  by (induction root rule: rule_root.induct) auto

lemma rule_list_position: "rule_root root \<Longrightarrow> (p, t, k) \<in> set (rule_list root) \<Longrightarrow> p \<in> positions root"
  by (induction root rule: rule_root.induct) auto

lemma rule_list_linear: "rule_root root \<Longrightarrow> linear root \<Longrightarrow> (p, t, k) \<in> set (rule_list root) \<Longrightarrow> linear t"
  by (induction root rule: rule_root.induct) auto

lemma ranges_unique: "linear t \<Longrightarrow> (n, c) \<in> ranges t \<Longrightarrow> (n, d) \<in> ranges t \<Longrightarrow> c = d"
  by (induction t) (auto dest: ranges_position)

lemma rule_plang:
  "rule_root root \<Longrightarrow> linear root \<Longrightarrow> (p, t, k) \<in> set (rule_list root) \<Longrightarrow> xs @ [p] \<in> plang root \<longleftrightarrow> xs \<in> plang t"
proof (induction root rule: rule_root.induct)
  case (1 a b)
  have other: "xs @ [p] \<notin> plang c" if "p \<notin> positions c" for c using plang_positions [of "xs @ [p]" c] that by auto
  have "(p, t, k) \<in> set (rule_list a) \<Longrightarrow> p \<in> positions a" "(p, t, k) \<in> set (rule_list b) \<Longrightarrow> p \<in> positions b"
    using rule_list_position [of a p t k] rule_list_position [of b p t k] 1(3) by simp_all
  then show ?case using 1 other [of a] other [of b] by auto
next
  case (2 t' p' c d)
  then show ?case by (auto simp: lconc_def)
qed auto

text \<open>After a word the positions hold exactly the accepting positions of the rules that match it.\<close>

abbreviation positions_after :: "tnode \<Rightarrow> byte list \<Rightarrow> int set" where
  "positions_after root w \<equiv> after_word (ranges root) (follows root) (firsts root) w"

lemma accepting_after:
  assumes "rule_root root" "linear root" "(p, t, k) \<in> set (rule_list root)"
  shows "p \<in> positions_after root w \<longleftrightarrow> w \<in> tlang t"
proof -
  have p: "p \<in> lasts root" using rule_root_lasts [OF assms(1)] assms(3) by force
  have "xs @ [p] \<in> plang root \<longleftrightarrow> path (follows root) (xs @ [p]) \<and> List.hd (xs @ [p]) \<in> firsts root" for xs
  proof -
    have "xs @ [p] \<in> plang root \<longleftrightarrow> xs @ [p] \<in> plang root - {[]}" by simp
    also have "\<dots> \<longleftrightarrow> xs @ [p] \<in> local_words root" unfolding plang_local [OF assms(2)] ..
    finally show ?thesis using p by (simp add: local_words_def conj_commute)
  qed
  then have "p \<in> positions_after root w \<longleftrightarrow> (\<exists>xs. list_all2 (reads (ranges root)) xs w \<and> xs \<in> plang t)"
    using rule_plang [OF assms] by (auto simp: after_word_iff)
  also have "\<dots> \<longleftrightarrow> w \<in> image_words (reads (ranges root)) (plang t)" by (auto simp: image_words_def)
  also have "agrees (ranges root) t"
    unfolding agrees_def
  proof (intro ballI allI)
    fix n c assume "n \<in> positions t"
    then obtain d where "(n, d) \<in> ranges t" by (auto simp: positions_def)
    then show "(n, c) \<in> ranges root \<longleftrightarrow> (n, c) \<in> ranges t"
      using rule_list_range [OF assms(1,3)] ranges_unique [OF assms(2)] by blast
  qed
  then have "image_words (reads (ranges root)) (plang t) = tlang t"
    using tlang_image [OF rule_list_linear [OF assms]] by simp
  finally show ?thesis .
qed

lemma positions_after_subset: "positions_after root w \<subseteq> positions root"
proof (cases w rule: rev_cases)
  case Nil
  then show ?thesis by (simp add: firsts_positions)
next
  case (snoc v b)
  then show ?thesis using follows_positions [of root] by (auto simp: step_set_def)
qed

end
