(* ===== verification/Dfa_Trav.thy ===== *)
theory Dfa_Trav
  imports Dfa_Build Dfa_Lang
begin

text \<open>
  The traversal of the tree computes the first and last positions, the follow relation and the ranges of the
  reference, and every set it frees was accounted for.
\<close>

section \<open>Sets with their memory\<close>

definition poset_ok :: "dfaset_type \<Rightarrow> bool" where
  "poset_ok st \<longleftrightarrow> st_ok st \<and> 0 \<le> st_used st"

lemma length_dset_mono: "dset s \<Longrightarrow> dset t \<Longrightarrow> set s \<subseteq> set t \<Longrightarrow> length s \<le> length t"
  by (metis List.finite_set card_mono distinct_card strict_sorted_iff)

lemma union_spec:
  assumes "poset_ok st" "dset s" "dset t" "union_DFASet st s t = (u, st')"
  shows "poset_ok st' \<and> dset u \<and> set u = set s \<union> set t \<and> length s \<le> length u \<and> st_used st' = st_used st + int (length u) - int (length s)"
proof -
  have u: "u = fst (union_DFASet st s t)" "st' = snd (union_DFASet st s t)" using assms(4) by simp_all
  then have "dset u" "set u = set s \<union> set t" using union_DFASet_sorted [OF assms(2,3)] union_DFASet_set by auto
  moreover from this have "length s \<le> length u" using assms(2) by (intro length_dset_mono) auto
  ultimately show ?thesis using union_DFASet_used [of st s t] assms(1) u by (simp add: poset_ok_def)
qed

lemma merge_spec:
  assumes "poset_ok st" "dset s" "dset t" "merge_DFASet st s t = (u, st')"
  shows "poset_ok st' \<and> dset u \<and> set u = set s \<union> set t \<and> st_used st' = st_used st + int (length u)"
proof -
  have "fst (union_DFASet st s t) = u" using merge_DFASet_union [of st s t st] unfolding assms(4) by simp
  then have "dset u" "set u = set s \<union> set t"
    using union_DFASet_sorted [OF assms(2,3), of st] union_DFASet_set [of st s t] by simp_all
  then show ?thesis using merge_DFASet_used [of st s t] assms(1) unfolding assms(4) by (simp add: poset_ok_def)
qed

lemma add_spec:
  assumes "poset_ok st" "dset s" "add_DFASet st s n = (u, st')"
  shows "poset_ok st' \<and> dset u \<and> set u = insert n (set s) \<and> length s \<le> length u \<and> st_used st' = st_used st + int (length u) - int (length s)"
proof -
  have u: "u = fst (add_DFASet st s n)" "st' = snd (add_DFASet st s n)" using assms(3) by simp_all
  then have "dset u" "set u = insert n (set s)" using add_DFASet_sorted [OF assms(2)] add_DFASet_set by auto
  moreover from this have "length s \<le> length u" using assms(2) by (intro length_dset_mono) auto
  ultimately show ?thesis using add_DFASet_used [of st s n] assms(1) u by (simp add: poset_ok_def)
qed

lemma rm_spec:
  assumes "poset_ok st" "int (length s) \<le> st_used st"
  shows "\<exists>st'. rm_DFASet st s = Some st' \<and> poset_ok st' \<and> st_used st' = st_used st - int (length s)"
  using assms by (auto simp: rm_DFASet_def poset_ok_def st_ok_def Let_def)

section \<open>Follow sets\<close>

definition trav_ok :: "nat \<Rightarrow> trav_state \<Rightarrow> bool" where
  "trav_ok N ts \<longleftrightarrow> poset_ok (tv_poset ts) \<and> length (tv_followpos ts) = N \<and> length (tv_posar ts) = N \<and> (\<forall>s \<in> set (tv_followpos ts). dset s)"

definition follow_of :: "trav_state \<Rightarrow> nat \<Rightarrow> int set" where
  "follow_of ts v = set (tv_followpos ts ! v)"

lemma add_follow_spec:
  assumes "trav_ok N ts" "dset f" "set l \<subseteq> {0..<int N}"
  shows "\<exists>ts'. add_follow ts l f = Some ts' \<and> trav_ok N ts' \<and> st_used (tv_poset ts) \<le> st_used (tv_poset ts') \<and>
    tv_posar ts' = tv_posar ts \<and> (\<forall>v < N. follow_of ts' v = follow_of ts v \<union> (if int v \<in> set l then set f else {}))"
  using assms(1,3)
proof (induction l arbitrary: ts)
  case (Cons v l)
  obtain s st where u: "union_DFASet (tv_poset ts) (tv_followpos ts ! nat v) f = (s, st)" by fastforce
  have v: "0 \<le> v" "nat v < N" "nat v < length (tv_followpos ts)" using Cons.prems by (auto simp: trav_ok_def)
  then have "dset (tv_followpos ts ! nat v)" "poset_ok (tv_poset ts)" using Cons.prems(1) by (auto simp: trav_ok_def)
  note s = union_spec [OF this(2,1) assms(2) u]
  let ?ts = "ts\<lparr>tv_poset := st, tv_followpos := (tv_followpos ts)[nat v := s]\<rparr>"
  have "trav_ok N ?ts" using Cons.prems(1) s set_update_subset_insert [of "tv_followpos ts" "nat v" s] by (auto simp: trav_ok_def)
  from Cons.IH [OF this] obtain ts' where IH: "add_follow ?ts l f = Some ts'" "trav_ok N ts'" "st_used st \<le> st_used (tv_poset ts')"
    "tv_posar ts' = tv_posar ts" "\<forall>w < N. follow_of ts' w = follow_of ?ts w \<union> (if int w \<in> set l then set f else {})"
    using Cons.prems(2) by auto
  have "follow_of ?ts w = follow_of ts w \<union> (if int w = v then set f else {})" if "w < N" for w
    using s v that by (cases "w = nat v") (auto simp: follow_of_def)
  then have "\<forall>w < N. follow_of ts' w = follow_of ts w \<union> (if int w \<in> set (v # l) then set f else {})" using IH(5) by auto
  then show ?case using IH u v s by simp
qed auto

lemma rm_sets_spec:
  assumes "trav_ok N ts" "int (sum_list (map length ss)) \<le> st_used (tv_poset ts)"
  shows "\<exists>ts'. rm_sets ts ss = Some ts' \<and> trav_ok N ts' \<and> st_used (tv_poset ts') = st_used (tv_poset ts) - int (sum_list (map length ss)) \<and>
    tv_posar ts' = tv_posar ts \<and> tv_followpos ts' = tv_followpos ts"
  using assms
proof (induction ss arbitrary: ts)
  case (Cons s ss)
  obtain st where st: "rm_DFASet (tv_poset ts) s = Some st" "poset_ok st" "st_used st = st_used (tv_poset ts) - int (length s)"
    using rm_spec [of "tv_poset ts" s] Cons.prems by (auto simp: trav_ok_def)
  then have "trav_ok N (ts\<lparr>tv_poset := st\<rparr>)" using Cons.prems(1) by (simp add: trav_ok_def)
  from Cons.IH [OF this] st Cons.prems show ?case by auto
qed simp

section \<open>The traversal\<close>

definition trav_spec :: "nat \<Rightarrow> tnode \<Rightarrow> trav_state \<Rightarrow> (bool \<times> int list \<times> int list \<times> trav_state) \<Rightarrow> bool" where
  "trav_spec N t ts r \<longleftrightarrow>
     (case r of (n, f, l, ts') \<Rightarrow>
        n = nullable t \<and> dset f \<and> set f = firsts t \<and> dset l \<and> set l = lasts t \<and> trav_ok N ts' \<and>
        st_used (tv_poset ts) + int (length f) + int (length l) \<le> st_used (tv_poset ts') \<and>
        (\<forall>v < N. follow_of ts' v = follow_of ts v \<union> follows t `` {int v}) \<and>
        (\<forall>v < N. \<forall>c. tv_posar ts' ! v = Some c \<longleftrightarrow> (int v, c) \<in> ranges t \<or> int v \<notin> positions t \<and> tv_posar ts ! v = Some c))"

lemma trav_pos:
  assumes "trav_ok N ts" "0 < n" "n < int N" "N \<le> 16000"
  shows "\<exists>r. dfa_trav (T_POS n c0 c1) ts = Some r \<and> trav_spec N (T_POS n c0 c1) ts r"
proof -
  have n: "n mod 2 ^ 15 = n" using assms by simp
  obtain f st where f: "add_DFASet (tv_poset ts) [] n = (f, st)" by fastforce
  obtain l st' where l: "add_DFASet st [] n = (l, st')" by fastforce
  have p: "poset_ok (tv_poset ts)" "length (tv_posar ts) = N" using assms(1) by (simp_all add: trav_ok_def)
  note f' = add_spec [OF p(1) _ f, simplified]
  then have l': "poset_ok st' \<and> dset l \<and> set l = {n} \<and> st_used st' = st_used st + int (length l)" using add_spec [OF _ _ l] by simp
  let ?ts = "ts\<lparr>tv_posar := (tv_posar ts)[nat n := Some (c0, c1)], tv_poset := st'\<rparr>"
  have "dfa_trav (T_POS n c0 c1) ts = Some (False, f, l, ?ts)"
    using assms p n f l unfolding dfa_trav.simps n by (simp add: Let_def CAT_CODE_def EPSILON_CODE_def)
  moreover have "trav_spec N (T_POS n c0 c1) ts (False, f, l, ?ts)"
    using assms f' l' by (auto simp: trav_spec_def trav_ok_def follow_of_def nth_list_update)
  ultimately show ?thesis by blast
qed

lemma trav_follow_star:
  assumes "trav_spec N a ts (n, f, l, ts1)" "positions a \<subseteq> {0..<int N}"
  shows "\<exists>ts'. add_follow ts1 l f = Some ts' \<and> trav_spec N (T_PLUS a) ts (n, f, l, ts')"
proof -
  have s: "trav_ok N ts1" "dset f" "set f = firsts a" "set l = lasts a" using assms(1) by (auto simp: trav_spec_def)
  then have "set l \<subseteq> {0..<int N}" using lasts_positions [of a] assms(2) by auto
  from add_follow_spec [OF s(1,2) this] obtain ts' where a: "add_follow ts1 l f = Some ts'" "trav_ok N ts'"
    "st_used (tv_poset ts1) \<le> st_used (tv_poset ts')" "tv_posar ts' = tv_posar ts1"
    "\<forall>v < N. follow_of ts' v = follow_of ts1 v \<union> (if int v \<in> set l then set f else {})" by blast
  then have "\<forall>v < N. follow_of ts' v = follow_of ts v \<union> follows (T_PLUS a) `` {int v}" using assms(1) s by (auto simp: trav_spec_def)
  then have "trav_spec N (T_PLUS a) ts (n, f, l, ts')" using assms(1) a(2-4) by (auto simp: trav_spec_def)
  then show ?thesis using a(1) by blast
qed

text \<open>Two subtrees one after the other.\<close>

lemma trav_two:
  assumes "trav_spec N a ts (n0, f0, l0, ts1)" "trav_spec N b ts1 (n1, f1, l1, ts2)" "positions a \<inter> positions b = {}"
  shows "trav_ok N ts2 \<and> st_used (tv_poset ts) + int (sum_list (map length [f0, l0, f1, l1])) \<le> st_used (tv_poset ts2) \<and>
    (\<forall>v < N. follow_of ts2 v = follow_of ts v \<union> (follows a \<union> follows b) `` {int v}) \<and>
    (\<forall>v < N. \<forall>c. tv_posar ts2 ! v = Some c \<longleftrightarrow>
      (int v, c) \<in> ranges a \<union> ranges b \<or> int v \<notin> positions a \<union> positions b \<and> tv_posar ts ! v = Some c)"
proof -
  have s: "trav_ok N ts2" "st_used (tv_poset ts) + int (length f0) + int (length l0) \<le> st_used (tv_poset ts1)"
    "st_used (tv_poset ts1) + int (length f1) + int (length l1) \<le> st_used (tv_poset ts2)"
    "\<forall>v < N. follow_of ts1 v = follow_of ts v \<union> follows a `` {int v}" "\<forall>v < N. follow_of ts2 v = follow_of ts1 v \<union> follows b `` {int v}"
    and pa: "\<forall>v < N. \<forall>c. tv_posar ts1 ! v = Some c \<longleftrightarrow> (int v, c) \<in> ranges a \<or> int v \<notin> positions a \<and> tv_posar ts ! v = Some c"
    and pb: "\<forall>v < N. \<forall>c. tv_posar ts2 ! v = Some c \<longleftrightarrow> (int v, c) \<in> ranges b \<or> int v \<notin> positions b \<and> tv_posar ts1 ! v = Some c"
    using assms(1,2) by (simp_all add: trav_spec_def)
  have "tv_posar ts2 ! v = Some c \<longleftrightarrow> (int v, c) \<in> ranges a \<union> ranges b \<or> int v \<notin> positions a \<union> positions b \<and> tv_posar ts ! v = Some c"
    if "v < N" for v c
    using pa pb that assms(3) ranges_position [of "int v" c a] by blast
  then show ?thesis using s by (simp add: Un_Image Un_assoc)
qed

lemma trav_or:
  assumes "trav_spec N a ts (n0, f0, l0, ts1)" "trav_spec N b ts1 (n1, f1, l1, ts2)" "positions a \<inter> positions b = {}"
    and "dfa_trav a ts = Some (n0, f0, l0, ts1)" "dfa_trav b ts1 = Some (n1, f1, l1, ts2)" "trav_ok N ts"
  shows "\<exists>r. dfa_trav (T_OR a b) ts = Some r \<and> trav_spec N (T_OR a b) ts r"
proof -
  note two = trav_two [OF assms(1-3)]
  have d: "dset f0" "dset f1" "dset l0" "dset l1" "set f0 = firsts a" "set f1 = firsts b" "set l0 = lasts a" "set l1 = lasts b"
    "n0 = nullable a" "n1 = nullable b"
    using assms(1,2) by (simp_all add: trav_spec_def)
  obtain f st where f: "merge_DFASet (tv_poset ts2) f0 f1 = (f, st)" by fastforce
  obtain l st' where l: "merge_DFASet st l0 l1 = (l, st')" by fastforce
  have "poset_ok (tv_poset ts2)" using two by (simp add: trav_ok_def)
  note f' = merge_spec [OF this d(1,2) f]
  note l' = merge_spec [OF conjunct1 [OF f'] d(3,4) l]
  have "trav_ok N (ts2\<lparr>tv_poset := st'\<rparr>)" "int (sum_list (map length [f0, l0, f1, l1])) \<le> st_used (tv_poset (ts2\<lparr>tv_poset := st'\<rparr>))"
    using two f' l' assms(6) by (simp_all add: trav_ok_def poset_ok_def)
  from rm_sets_spec [OF this] obtain ts3 where r: "rm_sets (ts2\<lparr>tv_poset := st'\<rparr>) [f0, l0, f1, l1] = Some ts3" "trav_ok N ts3"
    "st_used (tv_poset ts3) = st_used st' - int (sum_list (map length [f0, l0, f1, l1]))" "tv_posar ts3 = tv_posar ts2" "tv_followpos ts3 = tv_followpos ts2"
    by auto
  have "dfa_trav (T_OR a b) ts = Some (n0 \<or> n1, f, l, ts3)" using assms(4,5) f l r(1) by (simp del: rm_sets.simps)
  moreover have "trav_spec N (T_OR a b) ts (n0 \<or> n1, f, l, ts3)"
    using two d f' l' r(2-5) by (simp add: trav_spec_def follow_of_def)
  ultimately show ?thesis by blast
qed

lemma trav_cat:
  assumes "trav_spec N a ts (n0, f0, l0, ts1)" "trav_spec N b ts1 (n1, f1, l1, ts2)" "positions a \<inter> positions b = {}"
    and "dfa_trav a ts = Some (n0, f0, l0, ts1)" "dfa_trav b ts1 = Some (n1, f1, l1, ts2)" "positions a \<subseteq> {0..<int N}" "trav_ok N ts"
  shows "\<exists>r. dfa_trav (T_CAT a b) ts = Some r \<and> trav_spec N (T_CAT a b) ts r"
proof -
  note two = trav_two [OF assms(1-3)]
  have d: "dset f0" "dset f1" "dset l0" "dset l1" "set f0 = firsts a" "set f1 = firsts b" "set l0 = lasts a" "set l1 = lasts b"
    "n0 = nullable a" "n1 = nullable b"
    using assms(1,2) by (simp_all add: trav_spec_def)
  have ok: "poset_ok (tv_poset ts2)" using two by (simp add: trav_ok_def)
  obtain f st where f: "(case union_DFASet (tv_poset ts2) [] f0 of (f, st) \<Rightarrow> if n0 then union_DFASet st f f1 else (f, st)) = (f, st)" by fastforce
  have f': "poset_ok st \<and> dset f \<and> set f = firsts (T_CAT a b) \<and> st_used st = st_used (tv_poset ts2) + int (length f)"
  proof -
    obtain g sg where g: "union_DFASet (tv_poset ts2) [] f0 = (g, sg)" by fastforce
    note g' = union_spec [OF ok _ d(1) g, simplified]
    show ?thesis
    proof (cases n0)
      case True
      then have "union_DFASet sg g f1 = (f, st)" using f g by simp
      from union_spec [OF _ _ d(2) this] g' True d show ?thesis by simp
    qed (use f g g' d in simp)
  qed
  obtain l st' where l: "(case union_DFASet st [] l1 of (l, st) \<Rightarrow> if n1 then union_DFASet st l l0 else (l, st)) = (l, st')" by fastforce
  have l': "poset_ok st' \<and> dset l \<and> set l = lasts (T_CAT a b) \<and> st_used st' = st_used st + int (length l)"
  proof -
    obtain g sg where g: "union_DFASet st [] l1 = (g, sg)" by fastforce
    note g' = union_spec [OF conjunct1 [OF f'] _ d(4) g, simplified]
    show ?thesis
    proof (cases n1)
      case True
      then have "union_DFASet sg g l0 = (l, st')" using l g by simp
      from union_spec [OF _ _ d(3) this] g' True d show ?thesis by simp
    qed (use l g g' d in simp)
  qed
  let ?ts = "ts2\<lparr>tv_poset := st'\<rparr>"
  have "trav_ok N ?ts" using two l' by (simp add: trav_ok_def)
  moreover have "set l0 \<subseteq> {0..<int N}" using d(7) lasts_positions [of a] assms(6) by auto
  ultimately obtain ts3 where a: "add_follow ?ts l0 f1 = Some ts3" "trav_ok N ts3" "st_used st' \<le> st_used (tv_poset ts3)" "tv_posar ts3 = tv_posar ts2"
    "\<forall>v < N. follow_of ts3 v = follow_of ?ts v \<union> (if int v \<in> set l0 then set f1 else {})"
    using add_follow_spec [OF _ d(2)] by fastforce
  have used: "st_used (tv_poset ts) + int (sum_list (map length [f0, l0, f1, l1])) + int (length f) + int (length l) \<le> st_used (tv_poset ts3)"
    using two a(3) f' l' by linarith
  moreover have "0 \<le> st_used (tv_poset ts)"
    using assms(7) by (simp add: trav_ok_def poset_ok_def)
  ultimately have "int (sum_list (map length [f0, l0, f1, l1])) \<le> st_used (tv_poset ts3)" by linarith
  then obtain ts4 where r: "rm_sets ts3 [f0, l0, f1, l1] = Some ts4" "trav_ok N ts4"
    "st_used (tv_poset ts4) = st_used (tv_poset ts3) - int (sum_list (map length [f0, l0, f1, l1]))" "tv_posar ts4 = tv_posar ts3" "tv_followpos ts4 = tv_followpos ts3"
    using rm_sets_spec [OF a(2), of "[f0, l0, f1, l1]"] by auto
  have "dfa_trav (T_CAT a b) ts = Some (n0 \<and> n1, f, l, ts4)"
    using assms(4,5) f l a(1) r(1) by (auto simp: Let_def simp del: rm_sets.simps split: prod.splits if_splits)
  moreover have "follow_of ts4 v = follow_of ts v \<union> follows (T_CAT a b) `` {int v}" if "v < N" for v
    using two a(5) r(5) d that by (auto simp: follow_of_def)
  moreover from this have "trav_spec N (T_CAT a b) ts (n0 \<and> n1, f, l, ts4)"
    using two d(9,10) f' l' r(2-4) a(4) used by (simp add: trav_spec_def)
  ultimately show ?thesis by blast
qed

theorem dfa_trav_spec:
  "linear t \<Longrightarrow> positions t \<subseteq> {0<..<int N} \<Longrightarrow> N \<le> 16000 \<Longrightarrow> trav_ok N ts \<Longrightarrow> \<exists>r. dfa_trav t ts = Some r \<and> trav_spec N t ts r"
proof (induction t arbitrary: ts)
  case (T_CAT a b)
  obtain n0 f0 l0 ts1 where a: "dfa_trav a ts = Some (n0, f0, l0, ts1)" "trav_spec N a ts (n0, f0, l0, ts1)"
    using T_CAT.IH(1) [of ts] T_CAT.prems by fastforce
  then have "trav_ok N ts1" by (simp add: trav_spec_def)
  then obtain n1 f1 l1 ts2 where b: "dfa_trav b ts1 = Some (n1, f1, l1, ts2)" "trav_spec N b ts1 (n1, f1, l1, ts2)"
    using T_CAT.IH(2) [of ts1] T_CAT.prems by fastforce
  show ?case by (rule trav_cat [OF a(2) b(2) _ a(1) b(1)]) (use T_CAT.prems in auto)
next
  case (T_OR a b)
  obtain n0 f0 l0 ts1 where a: "dfa_trav a ts = Some (n0, f0, l0, ts1)" "trav_spec N a ts (n0, f0, l0, ts1)"
    using T_OR.IH(1) [of ts] T_OR.prems by fastforce
  then have "trav_ok N ts1" by (simp add: trav_spec_def)
  then obtain n1 f1 l1 ts2 where b: "dfa_trav b ts1 = Some (n1, f1, l1, ts2)" "trav_spec N b ts1 (n1, f1, l1, ts2)"
    using T_OR.IH(2) [of ts1] T_OR.prems by fastforce
  show ?case by (rule trav_or [OF a(2) b(2) _ a(1) b(1)]) (use T_OR.prems in auto)
next
  case (T_STAR a)
  obtain n f l ts1 where a: "dfa_trav a ts = Some (n, f, l, ts1)" "trav_spec N a ts (n, f, l, ts1)"
    using T_STAR.IH [of ts] T_STAR.prems by fastforce
  have "positions a \<subseteq> {0..<int N}" using T_STAR.prems(2) by fastforce
  from trav_follow_star [OF a(2) this] a(1) show ?case by (auto simp: trav_spec_def)
next
  case (T_PLUS a)
  obtain n f l ts1 where a: "dfa_trav a ts = Some (n, f, l, ts1)" "trav_spec N a ts (n, f, l, ts1)"
    using T_PLUS.IH [of ts] T_PLUS.prems by fastforce
  have "positions a \<subseteq> {0..<int N}" using T_PLUS.prems(2) by fastforce
  from trav_follow_star [OF a(2) this] a(1) show ?case by auto
next
  case T_EPSILON
  then show ?case by (simp add: trav_spec_def)
next
  case (T_POS n c0 c1)
  then show ?case using trav_pos by simp
qed

end
