(* ===== verification/Dfa_Chunk.thy ===== *)
theory Dfa_Chunk
  imports Dfa_Trav
begin

text \<open>
  One state of the automaton: which of its positions read a character and which rules it accepts, and the
  chunks of characters that lead to the same set of positions.
\<close>

text \<open>The traversal of a tree of rules is finished.\<close>

definition trav_done :: "nat \<Rightarrow> tnode \<Rightarrow> trav_state \<Rightarrow> bool" where
  "trav_done N root ts \<longleftrightarrow>
     trav_ok N ts \<and> rule_root root \<and> linear root \<and> positions root \<subseteq> {0<..<int N} \<and>
     (\<forall>v < N. \<forall>c. tv_posar ts ! v = Some c \<longleftrightarrow> (int v, c) \<in> ranges root) \<and>
     (\<forall>v < N. follow_of ts v = follows root `` {int v})"

lemma trav_done_facts:
  assumes "trav_done N root ts"
  shows "linear root" "rule_root root" "length (tv_posar ts) = N" "length (tv_followpos ts) = N"
  using assms by (simp_all add: trav_done_def trav_ok_def)

lemma trav_done_position:
  assumes "trav_done N root ts" "v \<in> positions root"
  shows "0 < v" "nat v < N"
proof -
  have "v \<in> {0<..<int N}" using assms unfolding trav_done_def by blast
  then show "0 < v" "nat v < N" by auto
qed

lemma pos_range_iff:
  assumes "trav_done N root ts"
  shows "pos_range ts v = Some c \<longleftrightarrow> (v, c) \<in> ranges root"
proof (cases "0 \<le> v \<and> nat v < N")
  case True
  then have "tv_posar ts ! nat v = Some c \<longleftrightarrow> (int (nat v), c) \<in> ranges root" using assms unfolding trav_done_def by blast
  then show ?thesis using True trav_done_facts [OF assms] by (simp add: pos_range_def)
next
  case False
  then have "v \<notin> positions root" using trav_done_position [OF assms, of v] by auto
  then show ?thesis using False ranges_position [of v c root] trav_done_facts [OF assms] by (auto simp: pos_range_def)
qed

lemma pos_range_ex:
  assumes "trav_done N root ts" "v \<in> positions root"
  shows "\<exists>c0 c1. pos_range ts v = Some (c0, c1) \<and> (v, c0, c1) \<in> ranges root"
proof -
  obtain c where "(v, c) \<in> ranges root" using assms(2) by (auto simp: positions_def)
  then show ?thesis using pos_range_iff [OF assms(1), of v c] by (cases c) auto
qed

lemma char_range:
  assumes "trav_done N root ts" "(v, c0, c1) \<in> ranges root" "0 \<le> c0"
  shows "c0 \<le> c1 \<and> c1 \<le> 255"
  using rule_root_ranges [of root v c0 c1] assms by (auto simp: trav_done_def)

lemma reads_iff: "reads R v b \<longleftrightarrow> (\<exists>c0 c1. (v, c0, c1) \<in> R \<and> 0 \<le> c0 \<and> c0 \<le> uint b \<and> uint b \<le> c1)"
  by (auto simp: reads_def in_range_def)

lemma ranges_iff: "linear t \<Longrightarrow> (n, c0, c1) \<in> ranges t \<Longrightarrow> (n, d0, d1) \<in> ranges t \<longleftrightarrow> d0 = c0 \<and> d1 = c1"
  using ranges_unique [of t n "(c0, c1)" "(d0, d1)"] by blast

section \<open>Rules\<close>

definition neg_chars :: "tnode \<Rightarrow> int set \<Rightarrow> int set" where
  "neg_chars root S = {c0. c0 < 0 \<and> (\<exists>v \<in> S. \<exists>c1. (v, c0, c1) \<in> ranges root)}"

definition char_positions :: "tnode \<Rightarrow> int set \<Rightarrow> int set" where
  "char_positions root S = {v \<in> S. \<exists>c0 c1. (v, c0, c1) \<in> ranges root \<and> 0 \<le> c0}"

lemma char_positions_subset: "char_positions root S \<subseteq> S"
  by (auto simp: char_positions_def)

text \<open>The greatest of a set of negative numbers and a start value, or 0.\<close>

definition best_rule :: "int \<Rightarrow> int set \<Rightarrow> int \<Rightarrow> bool" where
  "best_rule i C i' \<longleftrightarrow> (i' = 0 \<longleftrightarrow> i = 0 \<and> C = {}) \<and> i' \<le> 0 \<and> (i' \<noteq> 0 \<longrightarrow> i' \<in> insert i C \<and> (\<forall>c \<in> C. c \<le> i') \<and> (i \<noteq> 0 \<longrightarrow> i \<le> i'))"

lemma scan_rules_spec:
  assumes "trav_done N root ts" "set s \<subseteq> positions root" "i \<le> 0"
  shows "\<exists>pos i' j'. scan_rules ts 255 s i j = Some (pos, i', j') \<and> set pos = char_positions root (set s) \<and> best_rule i (neg_chars root (set s)) i'"
  using assms(2,3)
proof (induction s arbitrary: i j)
  case Nil
  then show ?case by (auto simp: char_positions_def neg_chars_def best_rule_def)
next
  case (Cons v s)
  obtain c0 c1 where c: "pos_range ts v = Some (c0, c1)" "(v, c0, c1) \<in> ranges root"
    using pos_range_ex [OF assms(1), of v] Cons.prems(1) by auto
  note u = ranges_iff [OF trav_done_facts(1) [OF assms(1)] c(2)]
  have cp: "char_positions root (set (v # s)) = (if 0 \<le> c0 then {v} else {}) \<union> char_positions root (set s)"
    using u by (auto simp: char_positions_def)
  have nc: "neg_chars root (set (v # s)) = (if c0 < 0 then {c0} else {}) \<union> neg_chars root (set s)"
    using u by (auto simp: neg_chars_def)
  have s: "set s \<subseteq> positions root" using Cons.prems(1) by simp
  show ?case
  proof (cases "0 \<le> c0")
    case True
    then have "c0 \<le> 255" using char_range [OF assms(1) c(2)] by simp
    then show ?thesis using Cons.IH [OF s Cons.prems(2), of j] c(1) cp nc True by auto
  next
    case False
    let ?i = "if i = 0 \<or> i < c0 then c0 else i" and ?j = "if j = 0 \<or> j < c1 then c1 else j"
    have "?i \<le> 0" using False Cons.prems(2) by simp
    from Cons.IH [OF s this, of ?j] obtain pos i' j' where IH: "scan_rules ts 255 s ?i ?j = Some (pos, i', j')"
      "set pos = char_positions root (set s)" "best_rule ?i (neg_chars root (set s)) i'" by auto
    have "best_rule i (insert c0 (neg_chars root (set s))) i'"
      using IH(3) False Cons.prems(2) unfolding best_rule_def by (auto split: if_splits)
    then show ?thesis using IH c(1) cp nc False by auto
  qed
qed

section \<open>Chunks\<close>

definition range_of :: "tnode \<Rightarrow> int \<Rightarrow> int \<Rightarrow> bool" where
  "range_of root v ch \<longleftrightarrow> (\<exists>c0 c1. (v, c0, c1) \<in> ranges root \<and> c0 \<le> ch \<and> ch \<le> c1)"

lemma range_of_iff: "linear root \<Longrightarrow> (v, c0, c1) \<in> ranges root \<Longrightarrow> range_of root v ch \<longleftrightarrow> c0 \<le> ch \<and> ch \<le> c1"
  using ranges_unique [of root v "(c0, c1)"] by (auto simp: range_of_def)

lemma chunk_start_spec:
  assumes "trav_done N root ts" "set pos \<subseteq> char_positions root S" "S \<subseteq> positions root" "char_1 \<le> c"
  shows "\<exists>r. chunk_start ts pos char_1 c = Some r \<and> char_1 \<le> r \<and> r \<le> c \<and>
    (\<forall>v \<in> set pos. \<forall>ch. char_1 \<le> ch \<and> ch < r \<longrightarrow> \<not> range_of root v ch)"
  using assms(2,4)
proof (induction pos arbitrary: c)
  case (Cons v pos)
  have v: "v \<in> positions root" using Cons.prems(1) assms(3) char_positions_subset [of root S] by auto
  obtain c0 c1 where c: "pos_range ts v = Some (c0, c1)" "(v, c0, c1) \<in> ranges root" using pos_range_ex [OF assms(1) v] by auto
  note l = trav_done_facts(1) [OF assms(1)]
  let ?c = "if char_1 \<le> c1 \<and> c0 < c then if c0 < char_1 then char_1 else c0 else c"
  have "char_1 \<le> ?c" "?c \<le> c" using Cons.prems(2) by auto
  moreover have "set pos \<subseteq> char_positions root S" using Cons.prems(1) by simp
  ultimately have "\<exists>r. chunk_start ts pos char_1 ?c = Some r \<and> char_1 \<le> r \<and> r \<le> ?c \<and> (\<forall>v \<in> set pos. \<forall>ch. char_1 \<le> ch \<and> ch < r \<longrightarrow> \<not> range_of root v ch)"
    using Cons.IH [of ?c] by blast
  then obtain r where r: "chunk_start ts pos char_1 ?c = Some r" "char_1 \<le> r" "r \<le> ?c"
    "\<forall>v \<in> set pos. \<forall>ch. char_1 \<le> ch \<and> ch < r \<longrightarrow> \<not> range_of root v ch"
    by blast
  have "\<not> range_of root v ch" if "char_1 \<le> ch" "ch < r" for ch
  proof -
    have "\<not> (c0 \<le> ch \<and> ch \<le> c1)" using that r(3) \<open>?c \<le> c\<close> by (auto split: if_splits)
    then show ?thesis unfolding range_of_iff [OF l c(2)] .
  qed
  then have "\<forall>u \<in> set (v # pos). \<forall>ch. char_1 \<le> ch \<and> ch < r \<longrightarrow> \<not> range_of root u ch" using r(4) unfolding list.set by blast
  moreover have "chunk_start ts (v # pos) char_1 c = Some r" using r(1) c(1) by simp
  moreover have "r \<le> c" using r(3) \<open>?c \<le> c\<close> by (rule order_trans)
  ultimately show ?case using r(2) by blast
qed simp

lemma chunk_set_spec:
  assumes "trav_done N root ts" "set pos \<subseteq> char_positions root S" "S \<subseteq> positions root" "char_0 \<le> hi" "dset T" "poset_ok st"
  shows "\<exists>h T' st'. chunk_set ts pos char_0 hi T st = Some (h, T', st') \<and> char_0 \<le> h \<and> h \<le> hi \<and> dset T' \<and> poset_ok st' \<and>
    st_used st' = st_used st + int (length T') - int (length T) \<and>
    set T' = set T \<union> {j. \<exists>v \<in> set pos. range_of root v char_0 \<and> (v, j) \<in> follows root} \<and>
    (\<forall>v \<in> set pos. \<forall>ch. char_0 \<le> ch \<and> ch \<le> h \<longrightarrow> range_of root v ch = range_of root v char_0)"
  using assms(2,4-6)
proof (induction pos arbitrary: hi T st)
  case (Cons v pos)
  have vc: "v \<in> char_positions root S" using Cons.prems(1) by simp
  then have v: "v \<in> positions root" using assms(3) char_positions_subset [of root S] by auto
  obtain c0 c1 where c: "pos_range ts v = Some (c0, c1)" "(v, c0, c1) \<in> ranges root" using pos_range_ex [OF assms(1) v] by auto
  note l = trav_done_facts(1) [OF assms(1)]
  note in_v = range_of_iff [OF l c(2)]
  have "0 \<le> c0" using vc ranges_iff [OF l c(2)] by (simp add: char_positions_def)
  then have cc: "c0 \<le> c1" using char_range [OF assms(1) c(2)] by simp
  define h1 where "h1 = (if char_0 < c0 \<and> c0 \<le> hi then c0 - 1 else if char_0 \<le> c1 \<and> c1 < hi then c1 else hi)"
  have h1: "char_0 \<le> h1" "h1 \<le> hi" using Cons.prems(2) by (auto simp: h1_def)
  have same: "range_of root v ch = range_of root v char_0" if "char_0 \<le> ch" "ch \<le> h1" for ch
    using that cc unfolding in_v h1_def by (auto split: if_splits)
  obtain T1 st1 where T1: "(if char_0 \<le> c1 \<and> c0 \<le> char_0 then union_DFASet st T (tv_followpos ts ! nat v) else (T, st)) = (T1, st1)"
    by fastforce
  have vN: "nat v < N" "0 < v" using trav_done_position [OF assms(1) v] by simp_all
  have "tv_followpos ts ! nat v \<in> set (tv_followpos ts)" using vN trav_done_facts [OF assms(1)] by simp
  then have fol: "dset (tv_followpos ts ! nat v)" using assms(1) unfolding trav_done_def trav_ok_def by blast
  have "follow_of ts (nat v) = follows root `` {int (nat v)}" using assms(1) vN(1) unfolding trav_done_def by blast
  then have fol2: "set (tv_followpos ts ! nat v) = follows root `` {v}" using vN(2) by (simp add: follow_of_def)
  have T1': "dset T1 \<and> poset_ok st1 \<and> st_used st1 = st_used st + int (length T1) - int (length T) \<and>
      set T1 = set T \<union> {j. range_of root v char_0 \<and> (v, j) \<in> follows root}"
  proof (cases "range_of root v char_0")
    case True
    then have "union_DFASet st T (tv_followpos ts ! nat v) = (T1, st1)" using T1 in_v by simp
    from union_spec [OF Cons.prems(4,3) fol this] show ?thesis using True fol2 by auto
  next
    case False
    then have "T1 = T" "st1 = st" using T1 in_v [of char_0] by (auto split: if_splits)
    then show ?thesis using False Cons.prems by simp
  qed
  have "set pos \<subseteq> char_positions root S" using Cons.prems(1) by simp
  from Cons.IH [OF this h1(1) conjunct1 [OF T1'] conjunct1 [OF conjunct2 [OF T1']]] obtain h T' st' where
    IH: "chunk_set ts pos char_0 h1 T1 st1 = Some (h, T', st')" "char_0 \<le> h" "h \<le> h1" "dset T'" "poset_ok st'"
    "st_used st' = st_used st1 + int (length T') - int (length T1)"
    "set T' = set T1 \<union> {j. \<exists>v \<in> set pos. range_of root v char_0 \<and> (v, j) \<in> follows root}"
    "\<forall>v \<in> set pos. \<forall>ch. char_0 \<le> ch \<and> ch \<le> h \<longrightarrow> range_of root v ch = range_of root v char_0" by blast
  have "chunk_set ts (v # pos) char_0 hi T st = Some (h, T', st')"
    using IH(1) c(1) T1 unfolding h1_def by (simp add: Let_def)
  moreover have "set T' = set T \<union> {j. \<exists>u \<in> set (v # pos). range_of root u char_0 \<and> (u, j) \<in> follows root}"
    using IH(7) T1' unfolding list.set by blast
  moreover have "\<forall>u \<in> set (v # pos). \<forall>ch. char_0 \<le> ch \<and> ch \<le> h \<longrightarrow> range_of root u ch = range_of root u char_0"
    using IH(8) same order_trans [OF _ IH(3)] unfolding list.set by blast
  moreover have "h \<le> hi" "st_used st' = st_used st + int (length T') - int (length T)" using IH(3,6) h1(2) T1' by simp_all
  ultimately show ?case using IH(2,4,5) by blast
qed simp

lemma step_set_range:
  assumes "trav_done N root ts"
  shows "step_set (ranges root) (follows root) S b = {j. \<exists>v \<in> char_positions root S. range_of root v (uint b) \<and> (v, j) \<in> follows root}"
proof -
  have "reads (ranges root) v b \<longleftrightarrow> range_of root v (uint b) \<and> (\<exists>c0 c1. (v, c0, c1) \<in> ranges root \<and> 0 \<le> c0)" for v
  proof (cases "\<exists>c0 c1. (v, c0, c1) \<in> ranges root")
    case True
    then obtain c0 c1 where c: "(v, c0, c1) \<in> ranges root" by blast
    note ranges_iff [OF trav_done_facts(1) [OF assms(1)] c]
    then show ?thesis by (auto simp: reads_iff range_of_def)
  qed (auto simp: reads_iff range_of_def)
  then show ?thesis by (auto simp: step_set_def char_positions_def)
qed

end
