(* ===== verification/Dfa_Table.thy ===== *)
theory Dfa_Table
  imports Dfa_Chunk
begin

text \<open>
  The table of states: adding a set finds its state or appends a new one, and adding a transition changes the
  transitions of one state only. \<open>reach\<close> bounds the sets that may be added.
\<close>

section \<open>States\<close>

abbreviation dsets :: "dfa_states \<Rightarrow> int list list" where
  "dsets dfas \<equiv> map ds_set (dfs_mem dfas)"

definition table_hash :: "dfa_states \<Rightarrow> nat list list \<Rightarrow> bool" where
  "table_hash dfas ha \<longleftrightarrow>
     dfs_hasharray dfas = Some ha \<and> length ha = dfs_hash dfas \<and>
     (\<forall>si < length (dfs_mem dfas). si \<in> set (ha ! set_hash dfas (dsets dfas ! si))) \<and>
     (\<forall>h < length ha. set (ha ! h) \<subseteq> {..<length (dfs_mem dfas)})"

definition table_ok :: "int set set \<Rightarrow> dfa_states \<Rightarrow> bool" where
  "table_ok reach dfas \<longleftrightarrow>
     dfs_no dfas = length (dfs_mem dfas) \<and> map ds_no (dfs_mem dfas) = map int [0..<length (dfs_mem dfas)] \<and>
     distinct (dsets dfas) \<and> (\<forall>s \<in> set (dsets dfas). dset s \<and> s \<noteq> [] \<and> set s \<in> reach) \<and>
     0 < dfs_hash dfas \<and>
     (\<exists>ha. table_hash dfas ha) \<and>
     distinct (dfs_unmarked dfas @ dfs_marked dfas) \<and>
     set (dfs_unmarked dfas) \<union> set (dfs_marked dfas) = {..<length (dfs_mem dfas)} \<and>
     poset_ok (dfs_st dfas)"

lemma table_ok_D:
  assumes "table_ok reach dfas"
  shows "dfs_no dfas = length (dfs_mem dfas)" "distinct (dsets dfas)" "poset_ok (dfs_st dfas)"
    "\<And>si. si < length (dfs_mem dfas) \<Longrightarrow> ds_no (dfs_mem dfas ! si) = int si"
    "\<And>si. si < length (dfs_mem dfas) \<Longrightarrow> dset (ds_set (dfs_mem dfas ! si)) \<and> ds_set (dfs_mem dfas ! si) \<noteq> [] \<and> set (ds_set (dfs_mem dfas ! si)) \<in> reach"
    "distinct (dfs_unmarked dfas @ dfs_marked dfas)"
    "set (dfs_unmarked dfas) \<union> set (dfs_marked dfas) = {..<length (dfs_mem dfas)}"
proof -
  show "ds_no (dfs_mem dfas ! si) = int si" if "si < length (dfs_mem dfas)" for si
  proof -
    have "map ds_no (dfs_mem dfas) ! si = map int [0..<length (dfs_mem dfas)] ! si" using assms by (simp add: table_ok_def)
    then show ?thesis using that by simp
  qed
  show "dset (ds_set (dfs_mem dfas ! si)) \<and> ds_set (dfs_mem dfas ! si) \<noteq> [] \<and> set (ds_set (dfs_mem dfas ! si)) \<in> reach"
    if "si < length (dfs_mem dfas)" for si
    using assms that by (simp add: table_ok_def)
qed (use assms in \<open>simp_all add: table_ok_def\<close>)

text \<open>There are no more states than sets that may be added.\<close>

lemma table_card:
  assumes "table_ok reach dfas" "finite reach"
  shows "length (dfs_mem dfas) \<le> card reach"
proof -
  have "inj_on set (set (dsets dfas))" using assms(1) by (auto simp: table_ok_def inj_on_def intro: dset_unique)
  then have "card (set (dsets dfas)) = card (set ` set (dsets dfas))" by (simp add: card_image)
  also have "\<dots> \<le> card reach" using assms by (intro card_mono) (auto simp: table_ok_def)
  finally show ?thesis using table_ok_D(2) [OF assms(1)] distinct_card by fastforce
qed

lemma table_card_new:
  assumes "table_ok reach dfas" "finite reach" "dset s" "set s \<in> reach" "s \<notin> set (dsets dfas)"
  shows "length (dfs_mem dfas) < card reach"
proof -
  have "inj_on set (insert s (set (dsets dfas)))" using assms(1,3) by (auto simp: table_ok_def inj_on_def intro: dset_unique)
  then have "card (insert s (set (dsets dfas))) = card (set ` insert s (set (dsets dfas)))"
    by (intro card_image [symmetric])
  also have "\<dots> \<le> card reach" using assms by (intro card_mono) (auto simp: table_ok_def)
  finally show ?thesis using assms(5) distinct_card [OF table_ok_D(2) [OF assms(1)]] by simp
qed

lemma c_short_small: "0 \<le> n \<Longrightarrow> n < 32768 \<Longrightarrow> c_short n = n"
  unfolding c_short_def by (subst sint_sbintrunc') (simp add: signed_take_bit_int_eq_self)

text \<open>What adding states keeps.\<close>

definition extends :: "dfa_states \<Rightarrow> dfa_states \<Rightarrow> bool" where
  "extends dfas dfas' \<longleftrightarrow>
     (\<exists>ext. dfs_mem dfas' = dfs_mem dfas @ ext \<and> (\<forall>s \<in> set ext. ds_tran_no s = 0)) \<and> dfs_transmem dfas' = dfs_transmem dfas \<and> dfs_marked dfas' = dfs_marked dfas"

lemma add_DFA_state_spec:
  assumes t: "table_ok reach dfas" and r: "finite reach" "card reach \<le> 32768"
    and s: "dset s" "s \<noteq> []" "set s \<in> reach" "int (length s) \<le> st_used (dfs_st dfas)"
  shows "\<exists>new si dfas'. add_DFA_state dfas s = Some (new, si, dfas') \<and> table_ok reach dfas' \<and> extends dfas dfas' \<and>
    si < length (dfs_mem dfas') \<and> ds_set (dfs_mem dfas' ! si) = s \<and> (new \<longleftrightarrow> s \<notin> set (dsets dfas)) \<and>
    (new \<longrightarrow> si = length (dfs_mem dfas))"
proof -
  let ?h = "set_hash dfas s"
  obtain ha where ha: "dfs_hasharray dfas = Some ha" "length ha = dfs_hash dfas"
    "\<And>si. si < length (dfs_mem dfas) \<Longrightarrow> si \<in> set (ha ! set_hash dfas (dsets dfas ! si))"
    "\<And>h. h < length ha \<Longrightarrow> set (ha ! h) \<subseteq> {..<length (dfs_mem dfas)}"
  proof -
    obtain ha where "table_hash dfas ha" using t by (auto simp: table_ok_def)
    then show ?thesis using that [of ha] by (simp add: table_hash_def)
  qed
  have h: "?h < length ha" using t ha(2) by (simp add: table_ok_def set_hash_def)
  show ?thesis
  proof (cases "find (\<lambda>si. eq_DFASet (ds_set (dfs_mem dfas ! si)) s) (ha ! ?h)")
    case None
    have new: "s \<notin> set (dsets dfas)"
    proof
      assume "s \<in> set (dsets dfas)"
      then obtain si where si: "si < length (dfs_mem dfas)" "dsets dfas ! si = s" by (metis in_set_conv_nth length_map)
      then have "si \<in> set (ha ! ?h)" "ds_set (dfs_mem dfas ! si) = s" using ha(3) [of si] by auto
      then show False using None by (auto simp: find_None_iff eq_DFASet_iff)
    qed
    let ?n = "length (dfs_mem dfas)"
    let ?new = "\<lparr>ds_trans = (0, 0), ds_set = s, ds_no = c_short (int (dfs_no dfas)), ds_tran_no = 0, ds_rule_no = 0, ds_rule_nno = 0\<rparr>"
    let ?dfas = "dfas\<lparr>dfs_mem := dfs_mem dfas @ [?new], dfs_unmarked := ?n # dfs_unmarked dfas,
      dfs_hasharray := Some (ha[?h := ?n # ha ! ?h]), dfs_no := dfs_no dfas + 1\<rparr>"
    have add: "add_DFA_state dfas s = Some (True, ?n, ?dfas)" using s(2) ha(1) h None by (simp add: add_DFA_state_def Let_def)
    have no: "c_short (int (dfs_no dfas)) = int ?n"
      using table_card_new [OF t r(1) s(1,3) new] r(2) table_ok_D(1) [OF t] by (simp add: c_short_small)
    have "table_ok reach ?dfas"
    proof -
      have hash: "set_hash ?dfas = set_hash dfas" by (simp add: set_hash_def fun_eq_iff)
      have 1: "si \<in> set (ha[?h := ?n # ha ! ?h] ! set_hash dfas (dsets ?dfas ! si))" if "si < length (dfs_mem ?dfas)" for si
      proof (cases "si = ?n")
        case True
        then show ?thesis using h by (simp add: nth_append)
      next
        case False
        then have "si < ?n" using that by simp
        then show ?thesis using ha(3) [of si] h by (cases "set_hash dfas (dsets dfas ! si) = ?h") (simp_all add: nth_append)
      qed
      have 2: "set (ha[?h := ?n # ha ! ?h] ! g) \<subseteq> {..<length (dfs_mem ?dfas)}" if "g < length ha" for g
        using ha(4) [OF that] ha(4) [OF h] by (cases "g = ?h") (use that in \<open>auto simp: less_Suc_eq\<close>)
      have 3: "table_hash ?dfas (ha[?h := ?n # ha ! ?h])" using 1 2 ha(2) hash unfolding table_hash_def by simp
      have "?n \<notin> set (dfs_unmarked dfas @ dfs_marked dfas)" using table_ok_D(7) [OF t] by auto
      then show ?thesis
        using t s new no 3 unfolding table_ok_def by (auto simp: lessThan_Suc)
    qed
    then show ?thesis using add new by (auto simp: extends_def)
  next
    case (Some si)
    then have si: "ds_set (dfs_mem dfas ! si) = s" "si \<in> set (ha ! ?h)" by (auto simp: find_Some_iff eq_DFASet_iff)
    then have len: "si < length (dfs_mem dfas)" using ha(4) [OF h] by auto
    obtain st where st: "rm_DFASet (dfs_st dfas) s = Some st" "poset_ok st"
      using rm_spec [OF table_ok_D(3) [OF t] s(4)] by blast
    let ?dfas = "dfas\<lparr>dfs_st := st\<rparr>"
    have "add_DFA_state dfas s = Some (False, si, ?dfas)" using s(2) ha(1) h Some st(1) by (simp add: add_DFA_state_def Let_def)
    moreover have "table_ok reach ?dfas"
    proof -
      have "set_hash ?dfas = set_hash dfas" by (simp add: set_hash_def fun_eq_iff)
      then have "table_hash ?dfas = table_hash dfas" by (simp add: table_hash_def fun_eq_iff)
      then show ?thesis using t st(2) by (simp add: table_ok_def)
    qed
    moreover have "s \<in> set (dsets dfas)" using si(1) len by (metis length_map nth_map nth_mem)
    ultimately show ?thesis using si len by (auto simp: extends_def)
  qed
qed

section \<open>Transitions\<close>

abbreviation trans_of :: "dfa_states \<Rightarrow> nat \<Rightarrow> dfa_tran list" where
  "trans_of dfas si \<equiv> state_trans dfas (dfs_mem dfas ! si)"

text \<open>The transitions of a state lie in their block; those of the current state at the end of the newest block.\<close>

definition placed :: "dfa_trans list \<Rightarrow> dfa_state \<Rightarrow> bool" where
  "placed tms s \<longleftrightarrow>
     fst (ds_trans s) < length tms \<and> 0 \<le> ds_tran_no s \<and> snd (ds_trans s) + nat (ds_tran_no s) \<le> length (tb_tran (tms ! fst (ds_trans s)))"

definition current :: "dfa_trans list \<Rightarrow> dfa_state \<Rightarrow> bool" where
  "current tms s \<longleftrightarrow>
     tms \<noteq> [] \<and> fst (ds_trans s) = length tms - 1 \<and> 0 \<le> ds_tran_no s \<and> snd (ds_trans s) + nat (ds_tran_no s) = length (tb_tran (last tms))"

lemma current_placed: "current tms s \<Longrightarrow> placed tms s"
  by (auto simp: current_def placed_def last_conv_nth)

text \<open>Blocks only grow.\<close>

definition grown :: "dfa_trans list \<Rightarrow> dfa_trans list \<Rightarrow> bool" where
  "grown tms tms' \<longleftrightarrow> length tms \<le> length tms' \<and> (\<forall>i < length tms. \<exists>ext. tb_tran (tms' ! i) = tb_tran (tms ! i) @ ext)"

lemma grown_refl: "grown tms tms"
  by (simp add: grown_def)

lemma grown_trans: "grown a b \<Longrightarrow> grown b c \<Longrightarrow> grown a c"
  unfolding grown_def by (metis append.assoc order_trans order.strict_trans2)

lemma placed_grown:
  assumes "placed (dfs_transmem dfas) s" "grown (dfs_transmem dfas) (dfs_transmem dfas')"
  shows "placed (dfs_transmem dfas') s \<and> state_trans dfas' s = state_trans dfas s"
proof -
  let ?i = "fst (ds_trans s)"
  have i: "?i < length (dfs_transmem dfas)" using assms(1) by (simp add: placed_def)
  then obtain ext where ext: "tb_tran (dfs_transmem dfas' ! ?i) = tb_tran (dfs_transmem dfas ! ?i) @ ext"
    using assms(2) unfolding grown_def by blast
  then show ?thesis using assms i by (auto simp: placed_def grown_def state_trans_def)
qed

lemma tran_block_spec:
  assumes "si < length (dfs_mem dfas)" "current (dfs_transmem dfas) (dfs_mem dfas ! si)"
  shows "\<exists>p. dfs_mem (tran_block dfas si) = (dfs_mem dfas)[si := (dfs_mem dfas ! si)\<lparr>ds_trans := p\<rparr>] \<and>
    current (dfs_transmem (tran_block dfas si)) (dfs_mem (tran_block dfas si) ! si) \<and>
    trans_of (tran_block dfas si) si = trans_of dfas si \<and> grown (dfs_transmem dfas) (dfs_transmem (tran_block dfas si)) \<and>
    tran_block dfas si = dfas\<lparr>dfs_mem := dfs_mem (tran_block dfas si), dfs_transmem := dfs_transmem (tran_block dfas si)\<rparr>"
proof (cases "length (tb_tran (last (dfs_transmem dfas))) = tb_size (last (dfs_transmem dfas))")
  case True
  let ?s = "dfs_mem dfas ! si"
  have "placed (dfs_transmem dfas) ?s" using assms(2) by (rule current_placed)
  then have len: "length (state_trans dfas ?s) = nat (ds_tran_no ?s)" by (auto simp: state_trans_def placed_def)
  have "grown (dfs_transmem dfas) (dfs_transmem (tran_block dfas si))"
    using True by (simp add: tran_block_def Let_def grown_def nth_append)
  moreover have "current (dfs_transmem (tran_block dfas si)) (dfs_mem (tran_block dfas si) ! si)"
    using True assms len by (simp add: tran_block_def Let_def current_def)
  moreover have "trans_of (tran_block dfas si) si = trans_of dfas si"
    using True assms(1) len by (simp add: tran_block_def Let_def state_trans_def nth_append)
  ultimately show ?thesis using True by (intro exI [of _ "(length (dfs_transmem dfas), 0)"]) (simp add: tran_block_def Let_def)
next
  case False
  then have "tran_block dfas si = dfas" by (simp add: tran_block_def Let_def)
  then show ?thesis using assms by (intro exI [of _ "ds_trans (dfs_mem dfas ! si)"]) (simp add: grown_refl)
qed

lemma add_DFA_tran_spec:
  fixes c0 c1 to :: int
  assumes "si < length (dfs_mem dfas)" "current (dfs_transmem dfas) (dfs_mem dfas ! si)" "ds_tran_no (dfs_mem dfas ! si) < 32767"
  defines "dfas' \<equiv> add_DFA_tran dfas si c0 c1 to"
  shows "\<exists>p. dfs_mem dfas' = (dfs_mem dfas)[si := (dfs_mem dfas ! si)\<lparr>ds_trans := p, ds_tran_no := ds_tran_no (dfs_mem dfas ! si) + 1\<rparr>] \<and>
    current (dfs_transmem dfas') (dfs_mem dfas' ! si) \<and> grown (dfs_transmem dfas) (dfs_transmem dfas') \<and>
    trans_of dfas' si = trans_of dfas si @ [\<lparr>dt_ch0 = word_of_int c0, dt_ch1 = word_of_int c1, dt_to = word_of_int to\<rparr>] \<and>
    dfas' = dfas\<lparr>dfs_mem := dfs_mem dfas', dfs_transmem := dfs_transmem dfas'\<rparr>"
proof -
  let ?d = "tran_block dfas si" and ?t = "\<lparr>dt_ch0 = word_of_int c0, dt_ch1 = word_of_int c1, dt_to = word_of_int to\<rparr>"
  obtain p where p: "dfs_mem ?d = (dfs_mem dfas)[si := (dfs_mem dfas ! si)\<lparr>ds_trans := p\<rparr>]"
    "current (dfs_transmem ?d) (dfs_mem ?d ! si)" "trans_of ?d si = trans_of dfas si" "grown (dfs_transmem dfas) (dfs_transmem ?d)"
    "?d = dfas\<lparr>dfs_mem := dfs_mem ?d, dfs_transmem := dfs_transmem ?d\<rparr>"
    using tran_block_spec [OF assms(1,2)] by blast
  let ?tms = "dfs_transmem ?d"
  have s: "dfs_mem ?d ! si = (dfs_mem dfas ! si)\<lparr>ds_trans := p\<rparr>" using p(1) assms(1) by simp
  have no: "c_short (ds_tran_no (dfs_mem dfas ! si) + 1) = ds_tran_no (dfs_mem dfas ! si) + 1" "0 \<le> ds_tran_no (dfs_mem dfas ! si)"
    using assms(2,3) by (simp_all add: current_def c_short_small)
  have mem: "dfs_mem dfas' = (dfs_mem dfas)[si := (dfs_mem dfas ! si)\<lparr>ds_trans := p, ds_tran_no := ds_tran_no (dfs_mem dfas ! si) + 1\<rparr>]"
    using s no(1) p(1) by (simp add: dfas'_def add_DFA_tran_def Let_def)
  have tms: "dfs_transmem dfas' = butlast ?tms @ [(last ?tms)\<lparr>tb_tran := tb_tran (last ?tms) @ [?t]\<rparr>]"
    by (simp add: dfas'_def add_DFA_tran_def Let_def)
  have ne: "?tms \<noteq> []" using p(2) by (simp add: current_def)
  then have "grown ?tms (dfs_transmem dfas')" unfolding tms grown_def by (auto simp: nth_append nth_butlast last_conv_nth not_less_eq less_Suc_eq)
  then have g: "grown (dfs_transmem dfas) (dfs_transmem dfas')" using grown_trans [OF p(4)] by blast
  have c: "current (dfs_transmem dfas') (dfs_mem dfas' ! si)"
    using p(2) no(2) assms(1) ne nat_add_distrib [OF no(2), of 1] unfolding tms mem s current_def by simp
  have fp: "fst p = length ?tms - 1" "snd p + nat (ds_tran_no (dfs_mem dfas ! si)) = length (tb_tran (last ?tms))"
    using p(2) unfolding s current_def by simp_all
  have "trans_of dfas' si = drop (snd p) (tb_tran (last ?tms)) @ [?t]"
    using fp no(2) assms(1) ne unfolding state_trans_def tms mem by (simp add: nth_append)
  moreover have "trans_of ?d si = drop (snd p) (tb_tran (last ?tms))"
    using fp ne unfolding state_trans_def s by (simp add: last_conv_nth)
  ultimately have t: "trans_of dfas' si = trans_of dfas si @ [?t]" using p(3) by simp
  have "dfas' = ?d\<lparr>dfs_mem := dfs_mem dfas', dfs_transmem := dfs_transmem dfas'\<rparr>" by (simp add: dfas'_def add_DFA_tran_def Let_def)
  also have "\<dots> = dfas\<lparr>dfs_mem := dfs_mem dfas', dfs_transmem := dfs_transmem dfas'\<rparr>" by (subst p(5)) simp
  finally show ?thesis using mem c g t by blast
qed

section \<open>The stacks\<close>

lemma get_DFA_state_spec:
  assumes "table_ok reach dfas" "dfs_transmem dfas \<noteq> []" "\<And>si. si \<in> set (dfs_unmarked dfas) \<Longrightarrow> ds_tran_no (dfs_mem dfas ! si) = 0"
  shows "case get_DFA_state dfas of
      (None, dfas') \<Rightarrow> dfas' = dfas \<and> dfs_unmarked dfas = []
    | (Some si, dfas') \<Rightarrow>
        si \<in> set (dfs_unmarked dfas) \<and> table_ok reach dfas' \<and> dfs_marked dfas' = si # dfs_marked dfas \<and>
        (\<exists>p. dfs_mem dfas' = (dfs_mem dfas)[si := (dfs_mem dfas ! si)\<lparr>ds_trans := p\<rparr>]) \<and> dfs_transmem dfas' = dfs_transmem dfas \<and>
        current (dfs_transmem dfas') (dfs_mem dfas' ! si)"
proof (cases "dfs_unmarked dfas")
  case Nil
  then show ?thesis by (simp add: get_DFA_state_def)
next
  case (Cons si rest)
  let ?s = "dfs_mem dfas ! si" and ?tms = "dfs_transmem dfas"
  let ?p = "(length ?tms - 1, length (tb_tran (last ?tms)))"
  let ?d = "dfas\<lparr>dfs_unmarked := rest, dfs_marked := si # dfs_marked dfas, dfs_mem := (dfs_mem dfas)[si := ?s\<lparr>ds_trans := ?p\<rparr>]\<rparr>"
  have get: "get_DFA_state dfas = (Some si, ?d)" using Cons by (simp add: get_DFA_state_def Let_def)
  have len: "si < length (dfs_mem dfas)" using table_ok_D(7) [OF assms(1)] Cons by auto
  have sets: "dsets ?d = dsets dfas" "map ds_no (dfs_mem ?d) = map ds_no (dfs_mem dfas)"
    using len by (simp_all add: map_update list_update_same_conv)
  have "set_hash ?d = set_hash dfas" by (simp add: set_hash_def fun_eq_iff)
  then have "table_hash ?d = table_hash dfas" using sets(1) by (simp add: table_hash_def fun_eq_iff)
  then have "table_ok reach ?d"
    using assms(1) sets Cons unfolding table_ok_def sets by (auto simp: insert_commute)
  moreover have "current ?tms (dfs_mem ?d ! si)" using len assms(2) assms(3) [of si] Cons by (simp add: current_def)
  ultimately show ?thesis using get Cons by auto
qed

end
