(* ===== verification/Dfa_Tran.thy ===== *)
theory Dfa_Tran
  imports Dfa_Table
begin

text \<open>
  The construction of states and transitions: every state gets, for every character, a transition to the state of
  the positions that follow, and the loop over the states that wait ends because there are finitely many sets.
\<close>

section \<open>What a finished state promises\<close>

definition trans_lookup :: "dfa_tran list \<Rightarrow> byte \<Rightarrow> int option" where
  "trans_lookup ts b = map_option (\<lambda>t. uint (dt_to t)) (find (\<lambda>t. dt_ch0 t \<le> b \<and> b \<le> dt_ch1 t) ts)"

definition target :: "tnode \<Rightarrow> dfa_states \<Rightarrow> int set \<Rightarrow> byte \<Rightarrow> int option \<Rightarrow> bool" where
  "target root dfas S b r \<longleftrightarrow>
     (let T = step_set (ranges root) (follows root) S b
      in if T = {} then r = None else \<exists>j < length (dfs_mem dfas). r = Some (int j) \<and> set (ds_set (dfs_mem dfas ! j)) = T)"

definition state_done :: "tnode \<Rightarrow> dfa_states \<Rightarrow> nat \<Rightarrow> bool" where
  "state_done root dfas si \<longleftrightarrow>
     placed (dfs_transmem dfas) (dfs_mem dfas ! si) \<and>
     (\<forall>b. target root dfas (set (ds_set (dfs_mem dfas ! si))) b (trans_lookup (trans_of dfas si) b)) \<and>
     best_rule 0 (neg_chars root (set (ds_set (dfs_mem dfas ! si)))) (- ds_rule_no (dfs_mem dfas ! si))"

definition keeps :: "dfa_states \<Rightarrow> dfa_states \<Rightarrow> bool" where
  "keeps dfas dfas' \<longleftrightarrow>
     length (dfs_mem dfas) \<le> length (dfs_mem dfas') \<and> grown (dfs_transmem dfas) (dfs_transmem dfas') \<and>
     set (dfs_marked dfas) \<subseteq> set (dfs_marked dfas') \<and>
     (\<forall>k < length (dfs_mem dfas). ds_set (dfs_mem dfas' ! k) = ds_set (dfs_mem dfas ! k))"

lemma keeps_refl: "keeps d d"
  by (simp add: keeps_def grown_refl)

lemma keeps_trans: "keeps a b \<Longrightarrow> keeps b c \<Longrightarrow> keeps a c"
  unfolding keeps_def by (metis grown_trans order_trans order.strict_trans2 subset_trans)

lemma extends_keeps: "extends dfas dfas' \<Longrightarrow> keeps dfas dfas'"
  by (auto simp: extends_def keeps_def grown_refl nth_append)

lemma target_keeps:
  assumes "target root dfas S b r" "keeps dfas dfas'"
  shows "target root dfas' S b r"
proof (cases "step_set (ranges root) (follows root) S b = {}")
  case False
  then obtain j where "j < length (dfs_mem dfas)" "r = Some (int j)" "set (ds_set (dfs_mem dfas ! j)) = step_set (ranges root) (follows root) S b"
    using assms(1) by (auto simp: target_def)
  then show ?thesis using False assms(2) unfolding target_def keeps_def by (auto simp: Let_def intro!: exI [of _ j])
qed (use assms(1) in \<open>simp add: target_def\<close>)

lemma state_done_keeps:
  assumes "state_done root dfas si" "keeps dfas dfas'" "dfs_mem dfas' ! si = dfs_mem dfas ! si"
  shows "state_done root dfas' si"
proof -
  have p: "placed (dfs_transmem dfas) (dfs_mem dfas ! si)" "grown (dfs_transmem dfas) (dfs_transmem dfas')"
    using assms by (simp_all add: state_done_def keeps_def)
  then show ?thesis
    using assms(1,3) placed_grown [OF p] target_keeps [OF _ assms(2)] unfolding state_done_def by simp
qed

lemma table_ok_update:
  assumes "table_ok reach dfas" "map ds_set mem' = dsets dfas" "map ds_no mem' = map ds_no (dfs_mem dfas)" "poset_ok st"
  shows "table_ok reach (dfas\<lparr>dfs_mem := mem', dfs_transmem := tms, dfs_st := st\<rparr>)"
proof -
  let ?d = "dfas\<lparr>dfs_mem := mem', dfs_transmem := tms, dfs_st := st\<rparr>"
  have len: "length mem' = length (dfs_mem dfas)" using assms(2) by (rule map_eq_imp_length_eq)
  have "set_hash ?d = set_hash dfas" by (simp add: set_hash_def fun_eq_iff)
  then have "table_hash ?d = table_hash dfas" using assms(2) len by (simp add: table_hash_def fun_eq_iff)
  then show ?thesis using assms len unfolding table_ok_def by simp
qed

section \<open>The sets that are reached\<close>

definition reached :: "tnode \<Rightarrow> int set set" where
  "reached root = {positions_after root w | w. True} - {{}}"

lemma finite_reached: "finite (reached root)"
proof (rule finite_subset)
  show "reached root \<subseteq> Pow (positions root)" using positions_after_subset [of root] by (auto simp: reached_def)
qed simp

lemma reached_step:
  assumes "S \<in> reached root" "step_set (ranges root) (follows root) S b \<noteq> {}"
  shows "step_set (ranges root) (follows root) S b \<in> reached root"
proof -
  obtain w where "S = positions_after root w" using assms(1) by (auto simp: reached_def)
  then have "step_set (ranges root) (follows root) S b = positions_after root (w @ [b])" by simp
  then show ?thesis using assms(2) unfolding reached_def by blast
qed

lemma reached_positions: "S \<in> reached root \<Longrightarrow> S \<subseteq> positions root"
  using positions_after_subset [of root] by (auto simp: reached_def)

section \<open>The loop over the characters\<close>

text \<open>The state \<open>si\<close> is finished for the characters below \<open>c\<close>.\<close>

definition chars_done :: "tnode \<Rightarrow> nat \<Rightarrow> int \<Rightarrow> dfa_states \<Rightarrow> bool" where
  "chars_done root si c dfas \<longleftrightarrow>
     table_ok (reached root) dfas \<and> si \<in> set (dfs_marked dfas) \<and>
     current (dfs_transmem dfas) (dfs_mem dfas ! si) \<and> ds_tran_no (dfs_mem dfas ! si) \<le> c \<and>
     (\<forall>b. uint b < c \<longrightarrow> target root dfas (set (ds_set (dfs_mem dfas ! si))) b (trans_lookup (trans_of dfas si) b)) \<and>
     (\<forall>t \<in> set (trans_of dfas si). uint (dt_ch1 t) < c) \<and>
     best_rule 0 (neg_chars root (set (ds_set (dfs_mem dfas ! si)))) (- ds_rule_no (dfs_mem dfas ! si)) \<and>
     (\<forall>sj \<in> set (dfs_marked dfas) - {si}. state_done root dfas sj) \<and>
     (\<forall>sj \<in> set (dfs_unmarked dfas). ds_tran_no (dfs_mem dfas ! sj) = 0)"

lemma chars_done_len: "chars_done root si c dfas \<Longrightarrow> si < length (dfs_mem dfas)"
  using table_ok_D(7) [of "reached root" dfas] by (auto simp: chars_done_def)

lemma lookup_above:
  assumes "\<forall>t \<in> set ts. uint (dt_ch1 t) < c" "c \<le> uint b"
  shows "trans_lookup ts b = None"
proof -
  have "find (\<lambda>t. dt_ch0 t \<le> b \<and> b \<le> dt_ch1 t) ts = None"
    using assms by (force simp: find_None_iff word_le_def)
  then show ?thesis by (simp add: trans_lookup_def)
qed

lemma lookup_append: "trans_lookup (ts @ us) b = (case trans_lookup ts b of None \<Rightarrow> trans_lookup us b | Some r \<Rightarrow> Some r)"
  by (induction ts) (auto simp: trans_lookup_def)

lemma lookup_below:
  assumes "\<forall>t \<in> set us. uint b < uint (dt_ch0 t)"
  shows "trans_lookup (ts @ us) b = trans_lookup ts b"
proof -
  have "find (\<lambda>t. dt_ch0 t \<le> b \<and> b \<le> dt_ch1 t) us = None" using assms by (force simp: find_None_iff word_le_def)
  then show ?thesis by (simp add: lookup_append) (simp add: trans_lookup_def split: option.split)
qed


lemma chars_done_skip:
  assumes "chars_done root si c dfas" "c \<le> c'" "poset_ok st"
    and empty: "\<And>b. c \<le> uint b \<Longrightarrow> uint b < c' \<Longrightarrow> step_set (ranges root) (follows root) (set (ds_set (dfs_mem dfas ! si))) b = {}"
  shows "chars_done root si c' (dfas\<lparr>dfs_st := st\<rparr>)"
proof -
  let ?d = "dfas\<lparr>dfs_st := st\<rparr>"
  have k: "keeps dfas ?d" by (simp add: keeps_def grown_refl)
  have t: "table_ok (reached root) ?d"
    using table_ok_update [of "reached root" dfas "dfs_mem dfas" st "dfs_transmem dfas"] assms(1,3) by (simp add: chars_done_def)
  have above: "\<forall>t \<in> set (trans_of dfas si). uint (dt_ch1 t) < c" using assms(1) by (simp add: chars_done_def)
  have s: "trans_of ?d si = trans_of dfas si" by (simp add: state_trans_def)
  have "target root ?d (set (ds_set (dfs_mem dfas ! si))) b (trans_lookup (trans_of dfas si) b)" if "uint b < c'" for b
  proof (cases "uint b < c")
    case True
    then show ?thesis using assms(1) target_keeps [OF _ k] by (simp add: chars_done_def)
  next
    case False
    then show ?thesis using empty [of b] that lookup_above [OF above] by (simp add: target_def)
  qed
  moreover have "\<forall>sj \<in> set (dfs_marked dfas) - {si}. state_done root ?d sj"
    using assms(1) state_done_keeps [OF _ k] by (simp add: chars_done_def)
  moreover have "\<forall>t \<in> set (trans_of dfas si). uint (dt_ch1 t) < c'" using above assms(2) by force
  ultimately show ?thesis using assms(1,2) t s by (simp add: chars_done_def)
qed

lemma chars_done_add:
  assumes c: "chars_done root si c dfas" "c \<le> r" "0 \<le> r" "r \<le> h" "h \<le> 255" "poset_ok st"
    and T: "dset T" "T \<noteq> []" "int (length T) \<le> st_used st"
    and small: "card (reached root) \<le> 32768"
    and empty: "\<And>b. c \<le> uint b \<Longrightarrow> uint b < r \<Longrightarrow> step_set (ranges root) (follows root) (set (ds_set (dfs_mem dfas ! si))) b = {}"
    and step: "\<And>b. r \<le> uint b \<Longrightarrow> uint b \<le> h \<Longrightarrow> step_set (ranges root) (follows root) (set (ds_set (dfs_mem dfas ! si))) b = set T"
  shows "\<exists>new j d. add_DFA_state (dfas\<lparr>dfs_st := st\<rparr>) T = Some (new, j, d) \<and>
    chars_done root si (h + 1) (add_DFA_tran d si r h (ds_no (dfs_mem d ! j))) \<and> keeps dfas (add_DFA_tran d si r h (ds_no (dfs_mem d ! j)))"
proof -
  let ?S = "set (ds_set (dfs_mem dfas ! si))"
  let ?d1 = "dfas\<lparr>dfs_st := st\<rparr>"
  have d1: "chars_done root si r ?d1" by (rule chars_done_skip [OF c(1,2,6)]) (use empty in auto)
  have len: "si < length (dfs_mem dfas)" using chars_done_len [OF c(1)] .
  have t1: "table_ok (reached root) ?d1" using d1 by (simp add: chars_done_def)
  have "?S \<in> reached root" using table_ok_D(5) [OF t1, of si] len by simp
  moreover have r255: "r \<le> 255" using c(4,5) by simp
  have ur: "uint (word_of_int r :: byte) = r" using r255 c(3) by (simp add: unsigned_of_int take_bit_int_eq_self)
  then have "step_set (ranges root) (follows root) ?S (word_of_int r) = set T" using step [of "word_of_int r"] c(4) by simp
  ultimately have "set T \<in> reached root" using reached_step [of ?S root "word_of_int r"] T(2) by (metis set_empty)
  then obtain new j d where add: "add_DFA_state ?d1 T = Some (new, j, d)" "table_ok (reached root) d" "extends ?d1 d"
    "j < length (dfs_mem d)" "ds_set (dfs_mem d ! j) = T"
    using add_DFA_state_spec [OF t1 finite_reached small T(1,2)] T(3) by auto
  have k1: "keeps ?d1 d" by (rule extends_keeps [OF add(3)])
  obtain ext where ext: "dfs_mem d = dfs_mem dfas @ ext" "dfs_transmem d = dfs_transmem dfas" "dfs_marked d = dfs_marked dfas" "\<forall>s \<in> set ext. ds_tran_no s = 0"
    using add(3) by (auto simp: extends_def)
  have si: "dfs_mem d ! si = dfs_mem dfas ! si" "si < length (dfs_mem d)" using ext(1) len by (simp_all add: nth_append)
  have cur: "current (dfs_transmem d) (dfs_mem d ! si)" "ds_tran_no (dfs_mem d ! si) < 32767" "ds_tran_no (dfs_mem dfas ! si) \<le> r"
    using d1 si ext(2) c(4,5) by (simp_all add: chars_done_def)
  let ?to = "ds_no (dfs_mem d ! j)" and ?t = "\<lparr>dt_ch0 = word_of_int r, dt_ch1 = word_of_int h, dt_to = word_of_int (ds_no (dfs_mem d ! j))\<rparr>"
  let ?d = "add_DFA_tran d si r h ?to"
  obtain p where p: "dfs_mem ?d = (dfs_mem d)[si := (dfs_mem d ! si)\<lparr>ds_trans := p, ds_tran_no := ds_tran_no (dfs_mem d ! si) + 1\<rparr>]"
    "current (dfs_transmem ?d) (dfs_mem ?d ! si)" "grown (dfs_transmem d) (dfs_transmem ?d)"
    "trans_of ?d si = trans_of d si @ [?t]" "?d = d\<lparr>dfs_mem := dfs_mem ?d, dfs_transmem := dfs_transmem ?d\<rparr>"
    using add_DFA_tran_spec [OF si(2) cur(1,2), of r h ?to] by blast
  have rest: "dfs_marked ?d = dfs_marked d" "dfs_unmarked ?d = dfs_unmarked d" "dfs_st ?d = dfs_st d" by (subst p(5), simp)+
  have k2: "keeps d ?d" unfolding keeps_def p(1) using p(3) si(2) rest(1) by (auto simp: nth_list_update)
  have k: "keeps ?d1 ?d" using keeps_trans [OF k1 k2] .
  have mem_si: "ds_set (dfs_mem ?d ! si) = ds_set (dfs_mem dfas ! si)" "ds_rule_no (dfs_mem ?d ! si) = ds_rule_no (dfs_mem dfas ! si)"
    "ds_tran_no (dfs_mem ?d ! si) = ds_tran_no (dfs_mem dfas ! si) + 1"
    using si unfolding p(1) by simp_all
  have table: "table_ok (reached root) ?d"
    using table_ok_update [OF add(2), of "dfs_mem ?d" "dfs_st d" "dfs_transmem ?d"] table_ok_D(3) [OF add(2)] p(1,5)
    by (simp add: map_update_same)
  have ts: "trans_of d si = trans_of dfas si" using ext(2) si(1) by (simp add: state_trans_def)
  have to: "uint (word_of_int ?to :: 16 word) = int j" "j < length (dfs_mem ?d)" "set (ds_set (dfs_mem ?d ! j)) = set T"
  proof -
    have "length (dfs_mem d) \<le> 32768" using table_card [OF add(2) finite_reached] small by simp
    then show "uint (word_of_int ?to :: 16 word) = int j" using table_ok_D(4) [OF add(2,4)] add(4) by (simp add: unsigned_of_nat take_bit_nat_eq_self)
    show "j < length (dfs_mem ?d)" "set (ds_set (dfs_mem ?d ! j)) = set T" using k2 add(4,5) by (simp_all add: keeps_def)
  qed
  have uh: "uint (word_of_int h :: byte) = h" using c(3-5) by (simp add: unsigned_of_int take_bit_int_eq_self)
  have above: "\<forall>t \<in> set (trans_of dfas si). uint (dt_ch1 t) < r"
    using d1 by (simp add: chars_done_def state_trans_def)
  have targets: "target root ?d ?S b (trans_lookup (trans_of ?d si) b)" if "uint b < h + 1" for b
  proof (cases "uint b < r")
    case True
    then have "trans_lookup (trans_of ?d si) b = trans_lookup (trans_of dfas si) b"
      unfolding p(4) ts using ur by (intro lookup_below) simp
    moreover have "target root ?d1 ?S b (trans_lookup (trans_of dfas si) b)" using d1 True by (simp add: chars_done_def state_trans_def)
    ultimately show ?thesis using target_keeps [OF _ k] by simp
  next
    case False
    then have "trans_lookup (trans_of dfas si) b = None" using lookup_above [OF above] by simp
    then have "trans_lookup (trans_of ?d si) b = Some (int j)"
      unfolding p(4) ts lookup_append using False that ur uh to(1) by (simp add: trans_lookup_def word_le_def)
    then show ?thesis using step [of b] False that to T(2) by (auto simp: target_def)
  qed
  have others: "state_done root ?d sj" if "sj \<in> set (dfs_marked dfas) - {si}" for sj
  proof (rule state_done_keeps [OF _ k])
    show "state_done root ?d1 sj" using d1 that by (simp add: chars_done_def)
    have "sj < length (dfs_mem dfas)" using table_ok_D(7) [OF t1] that by auto
    then show "dfs_mem ?d ! sj = dfs_mem ?d1 ! sj" using that unfolding p(1) by (simp add: ext(1) nth_append)
  qed
  have waiting: "ds_tran_no (dfs_mem ?d ! sj) = 0" if "sj \<in> set (dfs_unmarked d)" for sj
  proof -
    have "sj \<notin> set (dfs_marked dfas)" "sj < length (dfs_mem d)" using table_ok_D(6,7) [OF add(2)] that ext(3) by auto
    moreover have "si \<in> set (dfs_marked dfas)" using c(1) by (simp add: chars_done_def)
    ultimately have sj: "sj \<noteq> si" "sj < length (dfs_mem dfas) \<Longrightarrow> sj \<in> set (dfs_unmarked dfas)"
      using table_ok_D(7) [OF t1] by auto
    show ?thesis
    proof (cases "sj < length (dfs_mem dfas)")
      case True
      then have "ds_tran_no (dfs_mem dfas ! sj) = 0" using sj(2) c(1) by (simp add: chars_done_def)
      then show ?thesis using sj(1) True unfolding p(1) by (simp add: ext(1) nth_append)
    next
      case False
      then have "dfs_mem d ! sj \<in> set ext" using \<open>sj < length (dfs_mem d)\<close> by (simp add: ext(1) nth_append)
      then show ?thesis using sj(1) ext(4) unfolding p(1) by simp
    qed
  qed
  have "\<forall>t \<in> set (trans_of ?d si). uint (dt_ch1 t) < h + 1" unfolding p(4) ts using above uh c(4) by auto
  then have "chars_done root si (h + 1) ?d"
    using table rest ext(3) p(2) mem_si cur(3) c(4) targets others waiting d1 unfolding chars_done_def by auto
  moreover have "keeps dfas ?d" using k by (simp add: keeps_def)
  ultimately show ?thesis using add(1) by blast
qed


lemma char_loop_spec:
  assumes "trav_done N root ts" "card (reached root) \<le> 32768" "chars_done root si c dfas" "0 \<le> c" "c \<le> 256"
    and "set pos = char_positions root (set (ds_set (dfs_mem dfas ! si)))"
  shows "\<exists>d. char_loop ts 255 pos si c dfas = Some d \<and> chars_done root si 256 d \<and> keeps dfas d"
  using assms(3-)
proof (induction "nat (256 - c)" arbitrary: c dfas rule: less_induct)
  case less
  let ?S = "set (ds_set (dfs_mem dfas ! si))"
  have t: "table_ok (reached root) dfas" using less.prems(1) by (simp add: chars_done_def)
  have len: "si < length (dfs_mem dfas)" by (rule chars_done_len [OF less.prems(1)])
  have S: "?S \<subseteq> positions root" using table_ok_D(5) [OF t len] reached_positions by auto
  have same: "dfas\<lparr>dfs_st := dfs_st dfas\<rparr> = dfas" by simp
  have p: "poset_ok (dfs_st dfas)" by (rule table_ok_D(3) [OF t])
  have pos: "set pos \<subseteq> char_positions root ?S" using less.prems(4) by simp
  have noted: "step_set (ranges root) (follows root) ?S b = {j. \<exists>v \<in> set pos. range_of root v (uint b) \<and> (v, j) \<in> follows root}" for b
    using step_set_range [OF assms(1), of ?S b] less.prems(4) by simp
  show ?case
  proof (cases "c \<le> 255")
    case False
    then have "c = 256" using less.prems(3) by simp
    then have "char_loop ts 255 pos si c dfas = Some dfas" by (subst char_loop.simps) simp
    then show ?thesis using less.prems(1) \<open>c = 256\<close> keeps_refl by blast
  next
    case True
    then have c: "c \<le> 255 + 1" by simp
    obtain r where r: "chunk_start ts pos c (255 + 1) = Some r" "c \<le> r" "r \<le> 256"
      "\<forall>v \<in> set pos. \<forall>ch. c \<le> ch \<and> ch < r \<longrightarrow> \<not> range_of root v ch"
      using chunk_start_spec [OF assms(1) pos S c] by auto
    have empty: "step_set (ranges root) (follows root) ?S b = {}" if "c \<le> uint b" "uint b < r" for b
      unfolding noted using r(4) that by blast
    show ?thesis
    proof (cases "r \<le> 255")
      case False
      then have "char_loop ts 255 pos si c dfas = Some dfas" using True r(1) by (subst char_loop.simps) simp
      moreover have "chars_done root si 256 dfas"
        using chars_done_skip [OF less.prems(1), of 256 "dfs_st dfas"] less.prems(3) p empty False same r(3) by simp
      ultimately show ?thesis using keeps_refl by blast
    next
      case r255: True
      obtain h T st where ch: "chunk_set ts pos r 255 [] (dfs_st dfas) = Some (h, T, st)" "r \<le> h" "h \<le> 255" "dset T" "poset_ok st"
        "st_used st = st_used (dfs_st dfas) + int (length T) - int (length ([] :: int list))"
        "set T = set [] \<union> {j. \<exists>v \<in> set pos. range_of root v r \<and> (v, j) \<in> follows root}"
        "\<forall>v \<in> set pos. \<forall>ch. r \<le> ch \<and> ch \<le> h \<longrightarrow> range_of root v ch = range_of root v r"
        using chunk_set_spec [OF assms(1) pos S r255 _ p, of "[]", OF sorted_wrt.simps(1) [THEN iffD2, OF TrueI]] by blast
      have step: "step_set (ranges root) (follows root) ?S b = set T" if "r \<le> uint b" "uint b \<le> h" for b
      proof -
        have "\<And>v. v \<in> set pos \<Longrightarrow> range_of root v (uint b) = range_of root v r" using ch(8) that by blast
        then show ?thesis unfolding noted ch(7) by auto
      qed
      have m: "nat (256 - (h + 1)) < nat (256 - c)" "0 \<le> h + 1" "h + 1 \<le> 256" using r(2) ch(2,3) less.prems(2) True by auto
      show ?thesis
      proof (cases "T = []")
        case T: True
        let ?d = "dfas\<lparr>dfs_st := st\<rparr>"
        have "step_set (ranges root) (follows root) ?S b = {}" if "c \<le> uint b" "uint b < h + 1" for b
          using empty [of b] step [of b] that T by (cases "uint b < r") simp_all
        then have d: "chars_done root si (h + 1) ?d" using chars_done_skip [OF less.prems(1), of "h + 1" st] r(2) ch(2,5) by simp
        have "char_loop ts 255 pos si c dfas = char_loop ts 255 pos si (h + 1) ?d"
          using True r(1) r255 ch(1) T by (subst char_loop.simps) simp
        moreover have "keeps dfas ?d" by (simp add: keeps_def grown_refl)
        ultimately show ?thesis using less.hyps [OF m(1) d m(2,3)] less.prems(4) keeps_trans by auto
      next
        case T: False
        have used: "int (length T) \<le> st_used st" using ch(6) p by (simp add: poset_ok_def)
        obtain new j d where d: "add_DFA_state (dfas\<lparr>dfs_st := st\<rparr>) T = Some (new, j, d)"
          "chars_done root si (h + 1) (add_DFA_tran d si r h (ds_no (dfs_mem d ! j)))" "keeps dfas (add_DFA_tran d si r h (ds_no (dfs_mem d ! j)))"
          using chars_done_add [OF less.prems(1) r(2) _ ch(2,3,5,4) T used assms(2) empty step] less.prems(2) r(2) by auto
        let ?d = "add_DFA_tran d si r h (ds_no (dfs_mem d ! j))"
        have "char_loop ts 255 pos si c dfas = char_loop ts 255 pos si (h + 1) ?d"
          using True r(1) r255 ch(1) T d(1) by (subst char_loop.simps) simp
        moreover have "set pos = char_positions root (set (ds_set (dfs_mem ?d ! si)))" using less.prems(4) d(3) len by (simp add: keeps_def)
        ultimately show ?thesis using less.hyps [OF m(1) d(2) m(2,3)] keeps_trans [OF d(3)] by auto
      qed
    qed
  qed
qed


section \<open>The loop over the states\<close>

definition small_rules :: "tnode \<Rightarrow> bool" where
  "small_rules root \<longleftrightarrow> (\<forall>(p, t, k) \<in> set (rule_list root). k < 32768)"

definition loop_ok :: "tnode \<Rightarrow> dfa_states \<Rightarrow> bool" where
  "loop_ok root dfas \<longleftrightarrow>
     table_ok (reached root) dfas \<and> dfs_transmem dfas \<noteq> [] \<and>
     (\<forall>sj \<in> set (dfs_marked dfas). state_done root dfas sj) \<and>
     (\<forall>sj \<in> set (dfs_unmarked dfas). ds_tran_no (dfs_mem dfas ! sj) = 0)"

lemma neg_chars_small:
  assumes "rule_root root" "small_rules root" "c \<in> neg_chars root S"
  shows "- 32768 < c"
proof -
  obtain v c1 where v: "c < 0" "(v, c, c1) \<in> ranges root" using assms(3) by (auto simp: neg_chars_def)
  then obtain t where "(v, t, - c) \<in> set (rule_list root)" using rule_root_ranges [OF assms(1) v(2)] by auto
  then show ?thesis using assms(2) by (auto simp: small_rules_def)
qed

lemma chars_done_start:
  assumes "table_ok (reached root) dfas" "si \<in> set (dfs_marked dfas)" "current (dfs_transmem dfas) (dfs_mem dfas ! si)"
    and "ds_tran_no (dfs_mem dfas ! si) = 0" "best_rule 0 (neg_chars root (set (ds_set (dfs_mem dfas ! si)))) (- ds_rule_no (dfs_mem dfas ! si))"
    and "\<forall>sj \<in> set (dfs_marked dfas) - {si}. state_done root dfas sj" "\<forall>sj \<in> set (dfs_unmarked dfas). ds_tran_no (dfs_mem dfas ! sj) = 0"
  shows "chars_done root si 0 dfas"
  using assms by (simp add: chars_done_def state_trans_def)

lemma chars_done_state: "chars_done root si 256 dfas \<Longrightarrow> state_done root dfas si"
proof -
  assume d: "chars_done root si 256 dfas"
  have "uint b < 256" for b :: byte using uint_lt2p [of b] by simp
  then show ?thesis using d current_placed by (simp add: chars_done_def state_done_def)
qed

lemma state_step_spec:
  assumes "trav_done N root ts" "card (reached root) \<le> 32768" "small_rules root"
    and t: "table_ok (reached root) dfas" "si \<in> set (dfs_marked dfas)" "current (dfs_transmem dfas) (dfs_mem dfas ! si)"
      "ds_tran_no (dfs_mem dfas ! si) = 0"
    and rest: "\<forall>sj \<in> set (dfs_marked dfas) - {si}. state_done root dfas sj" "\<forall>sj \<in> set (dfs_unmarked dfas). ds_tran_no (dfs_mem dfas ! sj) = 0"
  shows "\<exists>d. state_step ts 255 si dfas = Some d \<and> loop_ok root d \<and> keeps dfas d"
proof -
  let ?s = "dfs_mem dfas ! si" and ?S = "set (ds_set (dfs_mem dfas ! si))"
  have len: "si < length (dfs_mem dfas)" using table_ok_D(7) [OF t(1)] t(2) by auto
  have S: "?S \<subseteq> positions root" using table_ok_D(5) [OF t(1) len] reached_positions by auto
  obtain pos i j where scan: "scan_rules ts 255 (ds_set ?s) 0 0 = Some (pos, i, j)" "set pos = char_positions root ?S"
    "best_rule 0 (neg_chars root ?S) i"
    using scan_rules_spec [OF assms(1) S, of 0 0] by auto
  have "rule_root root" using trav_done_facts(2) [OF assms(1)] .
  then have i: "c_short (- i) = - i"
    using scan(3) neg_chars_small [OF _ assms(3), of i ?S] by (intro c_short_small) (auto simp: best_rule_def)
  let ?d = "dfas\<lparr>dfs_mem := (dfs_mem dfas)[si := ?s\<lparr>ds_rule_no := c_short (- i), ds_rule_nno := c_short (- j)\<rparr>]\<rparr>"
  have same: "placed tms (s\<lparr>ds_rule_no := a, ds_rule_nno := b\<rparr>) = placed tms s" "current tms (s\<lparr>ds_rule_no := a, ds_rule_nno := b\<rparr>) = current tms s"
    for tms s a b by (simp_all add: placed_def current_def)
  have k: "keeps dfas ?d" using len by (auto simp: keeps_def grown_refl nth_list_update)
  have "table_ok (reached root) ?d"
    using table_ok_update [OF t(1), of "dfs_mem ?d" "dfs_st dfas" "dfs_transmem dfas"] table_ok_D(3) [OF t(1)] by (simp add: map_update_same)
  moreover have "\<forall>sj \<in> set (dfs_marked ?d) - {si}. state_done root ?d sj"
    using rest(1) state_done_keeps [OF _ k] by simp
  moreover have "\<forall>sj \<in> set (dfs_unmarked ?d). ds_tran_no (dfs_mem ?d ! sj) = 0"
    using rest(2) t(4) len by (simp add: nth_list_update)
  ultimately have d: "chars_done root si 0 ?d"
    using t len i scan(3) by (intro chars_done_start) (simp_all add: same)
  have "state_step ts 255 si dfas = char_loop ts 255 pos si 0 ?d" using scan(1) by (simp add: state_step_def)
  moreover obtain d where d': "char_loop ts 255 pos si 0 ?d = Some d" "chars_done root si 256 d" "keeps ?d d"
    using char_loop_spec [OF assms(1,2) d] scan(2) len by auto
  moreover have "loop_ok root d"
    using d'(2) chars_done_state [OF d'(2)] by (auto simp: loop_ok_def chars_done_def current_def)
  ultimately show ?thesis using keeps_trans [OF k] by auto
qed

lemma tran_loop_spec:
  assumes "trav_done N root ts" "card (reached root) \<le> 32768" "small_rules root" "loop_ok root dfas"
  shows "\<exists>d. tran_loop ts 255 dfas = Some d \<and> loop_ok root d \<and> keeps dfas d \<and> dfs_unmarked d = []"
  using assms(4)
proof (induction "card (reached root) - card (set (dfs_marked dfas))" arbitrary: dfas rule: less_induct)
  case less
  have t: "table_ok (reached root) dfas" "dfs_transmem dfas \<noteq> []" "\<And>sj. sj \<in> set (dfs_unmarked dfas) \<Longrightarrow> ds_tran_no (dfs_mem dfas ! sj) = 0"
    using less.prems by (simp_all add: loop_ok_def)
  note get = get_DFA_state_spec [OF t(1,2,3), simplified]
  show ?case
  proof (cases "get_DFA_state dfas")
    case (Pair r d0)
    show ?thesis
    proof (cases r)
      case None
      then have "tran_loop ts 255 dfas = Some dfas" using get Pair by (subst tran_loop.simps) simp
      then show ?thesis using get Pair None less.prems keeps_refl by auto
    next
      case (Some si)
      obtain p where g: "si \<in> set (dfs_unmarked dfas)" "table_ok (reached root) d0" "dfs_marked d0 = si # dfs_marked dfas"
        "dfs_mem d0 = (dfs_mem dfas)[si := (dfs_mem dfas ! si)\<lparr>ds_trans := p\<rparr>]" "dfs_transmem d0 = dfs_transmem dfas"
        "current (dfs_transmem d0) (dfs_mem d0 ! si)"
        using get Pair Some by auto
      have len: "si < length (dfs_mem dfas)" "si \<notin> set (dfs_marked dfas)" using table_ok_D(6,7) [OF t(1)] g(1) by auto
      have k: "keeps dfas d0" using len g(3-5) by (auto simp: keeps_def grown_refl nth_list_update)
      have dn: "\<forall>sj \<in> set (dfs_marked d0) - {si}. state_done root d0 sj"
      proof
        fix sj assume "sj \<in> set (dfs_marked d0) - {si}"
        then show "state_done root d0 sj" using less.prems state_done_keeps [OF _ k, of root sj] g(3,4) by (auto simp: loop_ok_def)
      qed
      have "set (dfs_unmarked d0) \<subseteq> set (dfs_unmarked dfas)"
        using table_ok_D(6,7) [OF g(2)] table_ok_D(7) [OF t(1)] g(3,4) by auto
      then have wait: "\<forall>sj \<in> set (dfs_unmarked d0). ds_tran_no (dfs_mem d0 ! sj) = 0"
        using t(3) len(1) g(4) by (auto simp: nth_list_update)
      have "ds_tran_no (dfs_mem d0 ! si) = 0" "si \<in> set (dfs_marked d0)" using t(3) [OF g(1)] len g(3,4) by simp_all
      then obtain d1 where d1: "state_step ts 255 si d0 = Some d1" "loop_ok root d1" "keeps d0 d1"
        using state_step_spec [OF assms(1-3) g(2) _ g(6) _ dn wait] by blast
      have t1: "table_ok (reached root) d1" using d1(2) by (simp add: loop_ok_def)
      have "insert si (set (dfs_marked dfas)) \<subseteq> set (dfs_marked d1)" using d1(3) g(3) by (simp add: keeps_def)
      then have "card (insert si (set (dfs_marked dfas))) \<le> card (set (dfs_marked d1))" by (simp add: card_mono)
      moreover have "card (set (dfs_marked d1)) \<le> card {..<length (dfs_mem d1)}" using table_ok_D(7) [OF t1] by (intro card_mono) auto
      then have "card (set (dfs_marked d1)) \<le> card (reached root)" using table_card [OF t1 finite_reached] by simp
      ultimately have "card (reached root) - card (set (dfs_marked d1)) < card (reached root) - card (set (dfs_marked dfas))"
        using len(2) by simp
      from less.hyps [OF this d1(2)] obtain d where "tran_loop ts 255 d1 = Some d" "loop_ok root d" "keeps d1 d" "dfs_unmarked d = []" by blast
      moreover have "tran_loop ts 255 dfas = tran_loop ts 255 d1" using Pair Some d1(1) by (subst tran_loop.simps) simp
      ultimately show ?thesis using keeps_trans [OF keeps_trans [OF k d1(3)]] by auto
    qed
  qed
qed

end
