(* ===== verification/Dfa_Run.thy ===== *)
theory Dfa_Run
  imports Dfa_Tran
begin

text \<open>
  Running the automaton that is built, and what it accepts: the least number of a rule that matches.
\<close>

section \<open>Running\<close>

text \<open>How the clients read the tables: transitions name the index in the sorted array.\<close>

definition dfa_entry :: "dfa_states \<Rightarrow> int \<Rightarrow> nat option" where
  "dfa_entry dfas n =
     do { arr \<leftarrow> dfs_sortarray dfas; if 0 \<le> n \<and> nat n < length arr then arr ! nat n else None }"

primrec dfa_run :: "dfa_states \<Rightarrow> nat \<Rightarrow> byte list \<Rightarrow> nat option" where
  "dfa_run dfas s [] = Some s"
| "dfa_run dfas s (b # w) =
     do { n \<leftarrow> trans_lookup (trans_of dfas s) b; s \<leftarrow> dfa_entry dfas n; dfa_run dfas s w }"

definition dfa_rule_of :: "dfa_states \<Rightarrow> byte list \<Rightarrow> int" where
  "dfa_rule_of dfas w =
     (case do { s \<leftarrow> dfa_entry dfas 0; dfa_run dfas s w } of None \<Rightarrow> 0 | Some s \<Rightarrow> ds_rule_no (dfs_mem dfas ! s))"

definition run_ok :: "tnode \<Rightarrow> dfa_states \<Rightarrow> bool" where
  "run_ok root dfas \<longleftrightarrow>
     (\<forall>si < length (dfs_mem dfas). state_done root dfas si) \<and>
     dfs_sortarray dfas = Some (map Some [0..<length (dfs_mem dfas)]) \<and>
     dfs_mem dfas \<noteq> [] \<and> set (ds_set (dfs_mem dfas ! 0)) = firsts root \<and>
     dfs_no dfas = length (dfs_mem dfas) \<and> set ` set (dsets dfas) \<subseteq> reached root \<and>
     distinct (dsets dfas) \<and> (\<forall>s \<in> set (dsets dfas). dset s)"

lemma run_entry: "run_ok root dfas \<Longrightarrow> dfa_entry dfas (int j) = (if j < length (dfs_mem dfas) then Some j else None)"
  by (simp add: run_ok_def dfa_entry_def)

lemma run_sets:
  assumes "run_ok root dfas" "s < length (dfs_mem dfas)"
  shows "case dfa_run dfas s w of
      None \<Rightarrow> after_word (ranges root) (follows root) (set (ds_set (dfs_mem dfas ! s))) w = {}
    | Some s' \<Rightarrow> s' < length (dfs_mem dfas) \<and> set (ds_set (dfs_mem dfas ! s')) = after_word (ranges root) (follows root) (set (ds_set (dfs_mem dfas ! s))) w"
  using assms(2)
proof (induction w arbitrary: s)
  case (Cons b w)
  let ?T = "step_set (ranges root) (follows root) (set (ds_set (dfs_mem dfas ! s))) b"
  have t: "target root dfas (set (ds_set (dfs_mem dfas ! s))) b (trans_lookup (trans_of dfas s) b)"
    using assms(1) Cons.prems by (simp add: run_ok_def state_done_def)
  show ?case
  proof (cases "?T = {}")
    case True
    then have "trans_lookup (trans_of dfas s) b = None" using t by (simp add: target_def)
    then show ?thesis using True by simp
  next
    case False
    then obtain j where j: "j < length (dfs_mem dfas)" "trans_lookup (trans_of dfas s) b = Some (int j)" "set (ds_set (dfs_mem dfas ! j)) = ?T"
      using t by (auto simp: target_def)
    have "dfa_run dfas s (b # w) = dfa_run dfas j w" using j(1,2) run_entry [OF assms(1), of j] by simp
    then show ?thesis using Cons.IH [OF j(1)] unfolding j(3) after_word_simps by simp
  qed
qed simp

lemma neg_chars_matches:
  assumes "rule_root root" "linear root"
  shows "neg_chars root (positions_after root w) = uminus ` rule_matches root w"
proof
  show "neg_chars root (positions_after root w) \<subseteq> uminus ` rule_matches root w"
  proof
    fix c assume "c \<in> neg_chars root (positions_after root w)"
    then obtain v c1 where v: "c < 0" "v \<in> positions_after root w" "(v, c, c1) \<in> ranges root" by (auto simp: neg_chars_def)
    then obtain t where t: "(v, t, - c) \<in> set (rule_list root)" using rule_root_ranges [OF assms(1) v(3)] by auto
    then have "- c \<in> rule_matches root w" using accepting_after [OF assms t] v(2) by (auto simp: rule_matches_def)
    then show "c \<in> uminus ` rule_matches root w" by (intro image_eqI [of _ _ "- c"]) simp_all
  qed
  show "uminus ` rule_matches root w \<subseteq> neg_chars root (positions_after root w)"
  proof
    fix c assume "c \<in> uminus ` rule_matches root w"
    then obtain k p t where k: "c = - k" "(p, t, k) \<in> set (rule_list root)" "w \<in> tlang t" by (auto simp: rule_matches_def)
    then obtain c1 where "0 < k" "(p, - k, c1) \<in> ranges root" using rule_list_range [OF assms(1) k(2)] by blast
    moreover have "p \<in> positions_after root w" using accepting_after [OF assms k(2)] k(3) by simp
    ultimately show "c \<in> neg_chars root (positions_after root w)" using k(1) by (auto simp: neg_chars_def)
  qed
qed

definition least_rule :: "int set \<Rightarrow> int" where
  "least_rule M = (if M = {} then 0 else Min M)"

lemma finite_rule_matches: "finite (rule_matches root w)"
proof (rule finite_subset)
  show "rule_matches root w \<subseteq> (\<lambda>(p, t, k). k) ` set (rule_list root)" by (force simp: rule_matches_def)
qed simp

lemma best_rule_least:
  assumes "best_rule 0 (uminus ` M) (- k)" "finite M"
  shows "k = least_rule M"
proof (cases "M = {}")
  case True
  then show ?thesis using assms(1) by (simp add: best_rule_def least_rule_def)
next
  case False
  then have "k \<noteq> 0" using assms(1) by (auto simp: best_rule_def)
  then have "k \<in> M" "\<And>m. m \<in> M \<Longrightarrow> k \<le> m" using assms(1) by (auto simp: best_rule_def)
  then show ?thesis using False Min_eqI [OF assms(2), of k] by (simp add: least_rule_def)
qed

theorem run_ok_rule:
  assumes "run_ok root dfas" "rule_root root" "linear root"
  shows "dfa_rule_of dfas w = least_rule (rule_matches root w)"
proof -
  have z: "0 < length (dfs_mem dfas)" "set (ds_set (dfs_mem dfas ! 0)) = firsts root" using assms(1) by (auto simp: run_ok_def)
  then have e: "dfa_entry dfas 0 = Some 0" using run_entry [OF assms(1), of 0] by simp
  note run = run_sets [OF assms(1) z(1), of w, unfolded z(2)]
  show ?thesis
  proof (cases "dfa_run dfas 0 w")
    case None
    then have "positions_after root w = {}" using run by simp
    then have "uminus ` rule_matches root w = {}" using neg_chars_matches [OF assms(2,3), of w] by (auto simp: neg_chars_def)
    then show ?thesis using e None by (simp add: dfa_rule_of_def least_rule_def)
  next
    case (Some s)
    then have s: "s < length (dfs_mem dfas)" "set (ds_set (dfs_mem dfas ! s)) = positions_after root w" using run by simp_all
    have "best_rule 0 (neg_chars root (set (ds_set (dfs_mem dfas ! s)))) (- ds_rule_no (dfs_mem dfas ! s))"
      using assms(1) s(1) by (simp add: run_ok_def state_done_def)
    then have "ds_rule_no (dfs_mem dfas ! s) = least_rule (rule_matches root w)"
      unfolding s(2) neg_chars_matches [OF assms(2,3)] by (rule best_rule_least [OF _ finite_rule_matches])
    then show ?thesis using e Some by (simp add: dfa_rule_of_def)
  qed
qed

section \<open>Building\<close>

lemma sort_loop_spec:
  assumes "\<And>si. si \<in> set marked \<Longrightarrow> si < length arr \<and> ds_no (mem ! si) = int si"
  shows "sort_loop mem arr marked = Some (map (\<lambda>k. if k \<in> set marked then Some k else arr ! k) [0..<length arr])"
  using assms
proof (induction marked arbitrary: arr)
  case Nil
  show ?case by (simp add: map_nth)
next
  case (Cons si marked)
  have s: "si < length arr" "ds_no (mem ! si) = int si" using Cons.prems by simp_all
  then have "sort_loop mem arr (si # marked) = sort_loop mem (arr[si := Some si]) marked" by simp
  also have "\<dots> = Some (map (\<lambda>k. if k \<in> set marked then Some k else arr[si := Some si] ! k) [0..<length arr])"
    using Cons.IH [of "arr[si := Some si]"] Cons.prems by simp
  also have "map (\<lambda>k. if k \<in> set marked then Some k else arr[si := Some si] ! k) [0..<length arr] =
      map (\<lambda>k. if k \<in> set (si # marked) then Some k else arr ! k) [0..<length arr]"
    using s(1) by (intro map_cong) (auto simp: nth_list_update)
  finally show ?case .
qed

lemma sort_spec:
  assumes "loop_ok root dfas" "dfs_unmarked dfas = []" "dfs_mem dfas \<noteq> []" "set (ds_set (dfs_mem dfas ! 0)) = firsts root"
  shows "\<exists>d. sort_DFA_states dfas = Some d \<and> run_ok root d"
proof -
  have t: "table_ok (reached root) dfas" using assms(1) by (simp add: loop_ok_def)
  have m: "set (dfs_marked dfas) = {..<length (dfs_mem dfas)}" using table_ok_D(7) [OF t] assms(2) by simp
  let ?n = "length (dfs_mem dfas)"
  have "sort_loop (dfs_mem dfas) (replicate ?n None) (dfs_marked dfas) = Some (map (\<lambda>k. if k \<in> set (dfs_marked dfas) then Some k else replicate ?n None ! k) [0..<?n])"
    using sort_loop_spec [of "dfs_marked dfas" "replicate ?n None" "dfs_mem dfas"] m table_ok_D(4) [OF t] by simp
  also have "map (\<lambda>k. if k \<in> set (dfs_marked dfas) then Some k else replicate ?n None ! k) [0..<?n] = map Some [0..<?n]"
    using m by (intro map_cong) auto
  finally have "sort_DFA_states dfas = Some (dfas\<lparr>dfs_sortarray := Some (map Some [0..<?n]), dfs_hasharray := None\<rparr>)"
    using table_ok_D(1) [OF t] by (simp add: sort_DFA_states_def)
  moreover have "run_ok root (dfas\<lparr>dfs_sortarray := Some (map Some [0..<?n]), dfs_hasharray := None\<rparr>)" (is "run_ok root ?d")
  proof -
    have "keeps dfas ?d" by (simp add: keeps_def grown_refl)
    then have "\<forall>si < ?n. state_done root ?d si" using state_done_keeps [of root dfas _ ?d] assms(1) m by (simp add: loop_ok_def)
    moreover have "set ` set (dsets dfas) \<subseteq> reached root" using t by (auto simp: table_ok_def)
    moreover have "distinct (dsets dfas)" "\<forall>s \<in> set (dsets dfas). dset s" using t by (simp_all add: table_ok_def)
    ultimately show ?thesis using assms(3,4) table_ok_D(1) [OF t] by (simp add: run_ok_def)
  qed
  ultimately show ?thesis by blast
qed

lemma firsts_or_nullable: "firsts t = {} \<Longrightarrow> nullable t"
  by (induction t) (auto split: if_splits)

lemma init_table:
  assumes "poset_ok st"
  shows "table_ok reach (init_DFA_states st STATE_HASH)" "dfs_transmem (init_DFA_states st STATE_HASH) \<noteq> []"
proof -
  have "table_hash (init_DFA_states st STATE_HASH) (replicate STATE_HASH [])" by (simp add: table_hash_def init_DFA_states_def)
  then have "\<exists>ha. table_hash (init_DFA_states st STATE_HASH) ha" ..
  then show "table_ok reach (init_DFA_states st STATE_HASH)"
    using assms unfolding table_ok_def by (simp add: init_DFA_states_def STATE_HASH_def)
qed (simp add: init_DFA_states_def)

lemma mk_dfa_tran_spec:
  assumes "trav_done N root ts" "card (reached root) \<le> 32768" "small_rules root"
    and f: "dset f" "set f = firsts root"
  shows "\<exists>d. mk_dfa_tran ts 255 f (init_DFA_states (tv_poset ts) STATE_HASH) = Some d \<and> run_ok root d"
proof -
  have ps: "poset_ok (tv_poset ts)" using assms(1) by (simp add: trav_done_def trav_ok_def)
  let ?d0 = "init_DFA_states (tv_poset ts) STATE_HASH"
  have root: "rule_root root" by (rule trav_done_facts(2) [OF assms(1)])
  obtain g st where g: "cp_DFASet (dfs_st ?d0) f = (g, st)" by fastforce
  then have "merge_DFASet (tv_poset ts) f [] = (g, st)" by (simp add: cp_DFASet_def init_DFA_states_def)
  from merge_spec [OF ps f(1) _ this] f(2) have g': "poset_ok st" "dset g" "set g = firsts root" "st_used st = st_used (tv_poset ts) + int (length g)"
    by simp_all
  have ne: "firsts root \<noteq> {}" using firsts_or_nullable rule_root_nullable [OF root] by blast
  then have gne: "g \<noteq> []" using g'(3) by auto
  have "firsts root = positions_after root []" by simp
  then have reach: "set g \<in> reached root" using ne g'(3) unfolding reached_def by (auto intro: exI [of _ "[]"])
  have used: "int (length g) \<le> st_used st" using g'(4) ps by (simp add: poset_ok_def)
  let ?d1 = "?d0\<lparr>dfs_st := st\<rparr>"
  have same: "?d0\<lparr>dfs_mem := dfs_mem ?d0, dfs_transmem := dfs_transmem ?d0, dfs_st := st\<rparr> = ?d1" by simp
  have t1: "table_ok (reached root) ?d1"
    using table_ok_update [OF init_table(1) [OF ps] refl refl g'(1), of "reached root" "dfs_transmem ?d0"] unfolding same .
  obtain new si d2 where d2: "add_DFA_state ?d1 g = Some (new, si, d2)" "table_ok (reached root) d2" "extends ?d1 d2"
    "si < length (dfs_mem d2)" "ds_set (dfs_mem d2 ! si) = g" "new \<longleftrightarrow> g \<notin> set (dsets ?d1)"
    "new \<longrightarrow> si = length (dfs_mem ?d1)"
    using add_DFA_state_spec [OF t1 finite_reached assms(2) g'(2) gne reach] used by auto
  have new: "new" using d2(6) by (simp add: init_DFA_states_def)
  have "dfs_mem ?d1 = []" "dfs_marked ?d1 = []" by (simp_all add: init_DFA_states_def)
  then have e: "\<forall>s \<in> set (dfs_mem d2). ds_tran_no s = 0" "dfs_marked d2 = []" "dfs_transmem d2 = dfs_transmem ?d0"
    using d2(3) by (auto simp: extends_def)
  have "set (dfs_unmarked d2) \<subseteq> {..<length (dfs_mem d2)}" using table_ok_D(7) [OF d2(2)] by auto
  then have "loop_ok root d2" using d2(2) e init_table(2) [OF ps] by (auto simp: loop_ok_def)
  from tran_loop_spec [OF assms(1-3) this] obtain d3 where d3: "tran_loop ts 255 d2 = Some d3" "loop_ok root d3" "keeps d2 d3" "dfs_unmarked d3 = []"
    by blast
  have si: "si = 0" using d2(7) new by (simp add: init_DFA_states_def)
  have "0 < length (dfs_mem d3)" "set (ds_set (dfs_mem d3 ! 0)) = firsts root"
    using d3(3) d2(4,5) si g'(3) by (auto simp: keeps_def)
  then obtain d4 where "sort_DFA_states d3 = Some d4" "run_ok root d4" using sort_spec [OF d3(2,4)] by auto
  then show ?thesis using g d2(1) new d3(1) by (auto simp: mk_dfa_tran_def)
qed


text \<open>What the parser leaves for the construction.\<close>

definition parsed_ok :: "dfa_parse_info \<Rightarrow> bool" where
  "parsed_ok p \<longleftrightarrow>
     bh_size (dp_charset p) = 255 \<and> 0 \<le> dp_rule p \<and> dp_rule p \<le> dp_position p \<and>
     (case dp_root p of
        None \<Rightarrow> dp_rule p = 0
      | Some root \<Rightarrow> rule_root root \<and> linear root \<and> positions root \<subseteq> {0<..dp_position p} \<and>
          (\<forall>(q, t, k) \<in> set (rule_list root). k \<le> dp_rule p))"

lemma mk_dfas_spec:
  assumes "parsed_ok p" "dp_root p = Some root" "dp_position p < 16000" "card (reached root) \<le> 32768"
  shows "\<exists>d. mk_dfas p POSET_CHUNK = Some d \<and> run_ok root d"
proof -
  let ?N = "1 + nat (dp_position p)"
  let ?st = "\<lparr>st_used = 0, st_chunk = POSET_CHUNK, st_free = 0, st_chunks = 0\<rparr>"
  let ?ts = "\<lparr>tv_poset = ?st, tv_followpos = init_followpos p, tv_posar = init_pos p\<rparr>"
  have p: "bh_size (dp_charset p) = 255" "rule_root root" "linear root" "positions root \<subseteq> {0<..dp_position p}"
    "\<forall>(q, t, k) \<in> set (rule_list root). k \<le> dp_position p" "0 \<le> dp_position p"
    using assms(1,2) by (auto simp: parsed_ok_def)
  have N: "positions root \<subseteq> {0<..<int ?N}" "?N \<le> 16000" using p(4,6) assms(3) by auto
  have small: "small_rules root" using p(5) assms(3) by (auto simp: small_rules_def)
  have ok: "trav_ok ?N ?ts" by (auto simp: trav_ok_def poset_ok_def st_ok_def POSET_CHUNK_def init_followpos_def init_pos_def)
  obtain n f l ts where t: "dfa_trav root ?ts = Some (n, f, l, ts)" "trav_spec ?N root ?ts (n, f, l, ts)"
    using dfa_trav_spec [OF p(3) N ok] by fastforce
  have f: "dset f" "set f = firsts root" using t(2) by (simp_all add: trav_spec_def)
  have fol: "follow_of ?ts v = {}" "tv_posar ?ts ! v = None" if "v < ?N" for v
    using that by (simp_all add: follow_of_def init_followpos_def init_pos_def del: replicate_Suc)
  have "trav_ok ?N ts" "\<forall>v < ?N. follow_of ts v = follow_of ?ts v \<union> follows root `` {int v}"
    "\<forall>v < ?N. \<forall>c. tv_posar ts ! v = Some c \<longleftrightarrow> (int v, c) \<in> ranges root \<or> int v \<notin> positions root \<and> tv_posar ?ts ! v = Some c"
    using t(2) unfolding trav_spec_def prod.case by blast+
  then have "trav_done ?N root ts" using p(2,3) N(1) fol unfolding trav_done_def by simp
  from mk_dfa_tran_spec [OF this assms(4) small f] obtain d where "mk_dfa_tran ts 255 f (init_DFA_states (tv_poset ts) STATE_HASH) = Some d" "run_ok root d"
    by blast
  moreover have "mk_DFASetType POSET_CHUNK = Some ?st" by (simp add: mk_DFASetType_def POSET_CHUNK_def)
  moreover have "10 < POSET_CHUNK" by (simp add: POSET_CHUNK_def)
  ultimately show ?thesis using assms(2) t(1) p(1) by (simp add: mk_dfas_def)
qed

end
