(* ===== verification/Dfa_Parser.thy ===== *)
theory Dfa_Parser
  imports Dfa_Lex Dfa_Run
begin

text \<open>
  The recursive descent: it returns for every pattern, and the tree it builds has each of its new positions once.
\<close>

section \<open>Trees with new positions\<close>

text \<open>The tree uses each position from \<open>a\<close> on, up to the last one given out, at most once.\<close>

definition tree_ok :: "int \<Rightarrow> tnode \<Rightarrow> dfa_parse_info \<Rightarrow> bool" where
  "tree_ok a t p \<longleftrightarrow> linear t \<and> char_tree t \<and> positions t \<subseteq> {a<..dp_position p} \<and> a \<le> dp_position p"

lemma tree_ok_later: "tree_ok a t p \<Longrightarrow> dp_position p \<le> dp_position q \<Longrightarrow> tree_ok a t q"
  by (auto simp: tree_ok_def)

lemma tree_ok_join:
  assumes "tree_ok a t p" "tree_ok (dp_position p) u q"
  shows "tree_ok a (T_OR t u) q" "tree_ok a (T_CAT t u) q"
  using assms by (fastforce simp: tree_ok_def char_tree_def)+

lemma tree_ok_one:
  assumes "tree_ok a t p"
  shows "tree_ok a (T_STAR t) p" "tree_ok a (T_PLUS t) p" "tree_ok a (T_OR t T_EPSILON) p"
  using assms by (auto simp: tree_ok_def char_tree_def)

lemma tree_ok_epsilon: "a \<le> dp_position p \<Longrightarrow> tree_ok a T_EPSILON p"
  by (simp add: tree_ok_def char_tree_def)

lemma tree_ok_pos:
  assumes "0 \<le> c0" "c0 \<le> c1" "c1 \<le> 255"
  shows "tree_ok (dp_position p) (T_POS (dp_position p + 1) c0 c1) (p\<lparr>dp_position := dp_position p + 1\<rparr>)"
  using assms by (simp add: tree_ok_def char_tree_def)

section \<open>Character sets as trees\<close>

definition byte_words :: "(int \<Rightarrow> bool) \<Rightarrow> byte list set" where
  "byte_words P = {[b] | b. P (uint b)}"

lemma tlang_pos_range: "0 \<le> c0 \<Longrightarrow> tlang (T_POS n c0 c1) = byte_words (\<lambda>c. c0 \<le> c \<and> c \<le> c1)"
  by (auto simp: byte_words_def in_range_def)

lemma byte_words_cong: "(\<And>c. 0 \<le> c \<Longrightarrow> c \<le> 255 \<Longrightarrow> P c = Q c) \<Longrightarrow> byte_words P = byte_words Q"
proof -
  assume eq: "\<And>c. 0 \<le> c \<Longrightarrow> c \<le> 255 \<Longrightarrow> P c = Q c"
  have "P (uint b) = Q (uint b)" for b :: byte using eq [of "uint b"] byte_char_code [of b] by (simp add: char_code_def)
  then show ?thesis by (simp add: byte_words_def)
qed

lemma byte_words_Un: "byte_words P \<union> byte_words Q = byte_words (\<lambda>c. P c \<or> Q c)"
  by (auto simp: byte_words_def)

text \<open>A range starts at the first member from \<open>m\<close> on and ends before the first number that is no member.\<close>

lemma next_range:
  assumes "bh_size sh = 255" "bset_ok 255 s" "0 \<le> m" "m \<le> 256"
  obtains (none) "trav_BSet sh s (nat m) = Some (- 1)" "\<And>c. m \<le> c \<Longrightarrow> c \<le> 255 \<Longrightarrow> nat c \<notin> bset_abs s"
  | (last) c0 where "trav_BSet sh s (nat m) = Some c0" "m \<le> c0" "c0 \<le> 255" "travi_BSet sh s (nat (c0 + 1)) = Some (- 1)"
      "\<And>c. m \<le> c \<Longrightarrow> c \<le> 255 \<Longrightarrow> nat c \<in> bset_abs s \<longleftrightarrow> c0 \<le> c"
  | (range) c0 c1 where "trav_BSet sh s (nat m) = Some c0" "m \<le> c0" "travi_BSet sh s (nat (c0 + 1)) = Some c1" "c0 < c1" "c1 \<le> 255"
      "\<And>c. m \<le> c \<Longrightarrow> c < c1 \<Longrightarrow> nat c \<in> bset_abs s \<longleftrightarrow> c0 \<le> c" "nat c1 \<notin> bset_abs s"
proof -
  have len: "length s = 1 + bh_size sh div 16" using assms(1,2) by (simp add: bset_ok_def)
  have small: "nat m \<le> bh_size sh + 2 ^ 31" using assms(4) nat_mono [OF assms(4)] by simp
  obtain r where r: "trav_BSet sh s (nat m) = Some r" "first_from (\<lambda>k. k \<in> bset_abs s) (nat m) 255 r"
    using trav_BSet_first [OF len _ small] assms(1) by auto
  show thesis
  proof (cases "r = - 1")
    case True
    then have n: "\<forall>k. nat m \<le> k \<and> k \<le> 255 \<longrightarrow> k \<notin> bset_abs s" using r(2) by (auto simp: first_from_def)
    have "nat c \<notin> bset_abs s" if "m \<le> c" "c \<le> 255" for c using n [rule_format, of "nat c"] that assms(3) by (simp add: nat_mono nat_le_iff)
    then show thesis using none r(1) True by simp
  next
    case False
    then obtain k where k: "r = int k" "nat m \<le> k" "k \<le> 255" "k \<in> bset_abs s" "\<And>j. nat m \<le> j \<Longrightarrow> j < k \<Longrightarrow> j \<notin> bset_abs s"
      using r(2) by (auto simp: first_from_def)
    obtain q where q: "travi_BSet sh s (nat (int k + 1)) = Some q" "first_from (\<lambda>k. k \<notin> bset_abs s) (k + 1) 255 q"
      using travi_BSet_first [OF len, of "k + 1"] assms(1) k(3) by (auto simp: nat_add_distrib)
    have below: "nat c \<in> bset_abs s \<longleftrightarrow> k \<le> nat c" if "m \<le> c" "nat c < j" "\<And>i. k + 1 \<le> i \<Longrightarrow> i < j \<Longrightarrow> i \<in> bset_abs s" for c j
    proof (cases "nat c < k")
      case True
      then show ?thesis using k(5) [of "nat c"] that(1) assms(3) by simp
    next
      case False
      then show ?thesis using k(4) that(2,3) by (cases "nat c = k") auto
    qed
    show thesis
    proof (cases "q = - 1")
      case True
      then have n: "\<And>i. k + 1 \<le> i \<Longrightarrow> i < 256 \<Longrightarrow> i \<in> bset_abs s" using q(2) by (auto simp: first_from_def)
      have "nat c \<in> bset_abs s \<longleftrightarrow> int k \<le> c" if "m \<le> c" "c \<le> 255" for c
        using below [of c 256, OF that(1) _ n] that assms(3) by (simp add: le_nat_iff)
      then show thesis using last [of "int k"] r(1) q(1) k(1-3) True assms(3) by simp
    next
      case False
      then obtain l where l: "q = int l" "k + 1 \<le> l" "l \<le> 255" "l \<notin> bset_abs s" "\<And>i. k + 1 \<le> i \<Longrightarrow> i < l \<Longrightarrow> i \<in> bset_abs s"
        using q(2) by (auto simp: first_from_def)
      have "nat c \<in> bset_abs s \<longleftrightarrow> int k \<le> c" if "m \<le> c" "c < int l" for c
        using below [of c l, OF that(1) _ l(5)] that assms(3) by (simp add: le_nat_iff nat_less_iff)
      then show thesis using range [of "int k" "int l"] r(1) q(1) k(1,2) l(1-4) assms(3) by simp
    qed
  qed
qed

lemma cset_loop_spec:
  assumes "bh_size (dp_charset p) = 255" "bset_ok 255 s" "0 \<le> ch1" "ch1 \<le> 256" "tree_ok a t p"
  shows "\<exists>t' n. cset_loop p s t ch1 = Some (t', p\<lparr>dp_position := n\<rparr>) \<and> dp_position p \<le> n \<and> tree_ok a t' (p\<lparr>dp_position := n\<rparr>) \<and>
    tlang t' = tlang t \<union> byte_words (\<lambda>c. ch1 \<le> c \<and> nat c \<in> bset_abs s)"
  using assms
proof (induction "nat (256 - ch1)" arbitrary: p t ch1 rule: less_induct)
  case less
  let ?q = "p\<lparr>dp_position := dp_position p + 1\<rparr>"
  show ?case
  proof (rule next_range [OF less.prems(1-4)], goal_cases none last range)
    case none
    have "byte_words (\<lambda>c. ch1 \<le> c \<and> nat c \<in> bset_abs s) = byte_words (\<lambda>c. False)" using none(2) by (intro byte_words_cong) auto
    then have "tlang t = tlang t \<union> byte_words (\<lambda>c. ch1 \<le> c \<and> nat c \<in> bset_abs s)" by (auto simp: byte_words_def)
    moreover have "cset_loop p s t ch1 = Some (t, p)" using none(1) by (subst cset_loop.simps) simp
    ultimately show ?thesis using less.prems(5) by (intro exI [of _ t] exI [of _ "dp_position p"]) simp
  next
    case (last c0)
    have c0: "0 \<le> c0" using less.prems(3) last(2) by simp
    let ?t = "T_OR t (T_POS (dp_position p + 1) c0 255)"
    have "byte_words (\<lambda>c. ch1 \<le> c \<and> nat c \<in> bset_abs s) = byte_words (\<lambda>c. c0 \<le> c \<and> c \<le> 255)"
      using last(2,5) by (intro byte_words_cong) auto
    then have "tlang ?t = tlang t \<union> byte_words (\<lambda>c. ch1 \<le> c \<and> nat c \<in> bset_abs s)" using tlang_pos_range [OF c0, of _ 255] by simp
    moreover have "tree_ok a ?t ?q" by (rule tree_ok_join(1) [OF less.prems(5) tree_ok_pos]) (use c0 last(3) in auto)
    moreover have "cset_loop p s t ch1 = Some (?t, ?q)" using last(1,4) c0 less.prems(1) by (subst cset_loop.simps) (simp add: new_pos_def)
    ultimately show ?thesis by (intro exI [of _ ?t] exI [of _ "dp_position p + 1"]) simp
  next
    case (range c0 c1)
    have c0: "0 \<le> c0" using less.prems(3) range(2) by simp
    let ?t = "T_OR t (T_POS (dp_position p + 1) c0 (c1 - 1))"
    have ok: "tree_ok a ?t ?q" by (rule tree_ok_join(1) [OF less.prems(5) tree_ok_pos]) (use c0 range(4,5) in auto)
    have "nat (256 - c1) < nat (256 - ch1)" using range(2,4,5) by simp
    from less.hyps [OF this _ less.prems(2) _ _ ok] range(4,5) c0 less.prems(1) obtain t' n where
      IH: "cset_loop ?q s ?t c1 = Some (t', ?q\<lparr>dp_position := n\<rparr>)" "dp_position ?q \<le> n" "tree_ok a t' (?q\<lparr>dp_position := n\<rparr>)"
      "tlang t' = tlang ?t \<union> byte_words (\<lambda>c. c1 \<le> c \<and> nat c \<in> bset_abs s)" by auto
    have "cset_loop p s t ch1 = cset_loop ?q s ?t c1" using range(1,3,4) c0 by (subst cset_loop.simps) (simp add: new_pos_def)
    moreover have "byte_words (\<lambda>c. ch1 \<le> c \<and> nat c \<in> bset_abs s) = byte_words (\<lambda>c. (c0 \<le> c \<and> c \<le> c1 - 1) \<or> c1 \<le> c \<and> nat c \<in> bset_abs s)"
      using range(2,6) range(4) by (intro byte_words_cong) (smt (verit))
    then have "tlang t' = tlang t \<union> byte_words (\<lambda>c. ch1 \<le> c \<and> nat c \<in> bset_abs s)"
      using IH(4) tlang_pos_range [OF c0, of _ "c1 - 1"] by (simp add: byte_words_Un Un_assoc)
    ultimately show ?thesis using IH(1-3) by (intro exI [of _ t'] exI [of _ n]) simp
  qed
qed

text \<open>A set is the alternative of its members; the empty set becomes the empty word.\<close>

lemma mk_Tnode_cset_spec:
  assumes "bh_size (dp_charset p) = 255" "bset_ok 255 s"
  shows "\<exists>t n. mk_Tnode_cset p s = Some (t, p\<lparr>dp_position := n\<rparr>) \<and> dp_position p \<le> n \<and> tree_ok (dp_position p) t (p\<lparr>dp_position := n\<rparr>) \<and>
    tlang t = (if bset_abs s = {} then {[]} else byte_words (\<lambda>c. nat c \<in> bset_abs s))"
proof -
  let ?q = "p\<lparr>dp_position := dp_position p + 1\<rparr>"
  have ne: "bset_abs s \<noteq> {}" if "nat c \<in> bset_abs s" for c :: int using that by blast
  show ?thesis
  proof (rule next_range [OF assms order_refl zero_le_numeral], goal_cases none last range)
    case none
    have "bset_abs s = {}"
    proof (rule ccontr)
      assume "bset_abs s \<noteq> {}"
      then obtain k where k: "k \<in> bset_abs s" by blast
      then have "k \<le> 255" using assms(2) by (auto simp: bset_ok_def)
      then show False using none(2) [of "int k"] k by simp
    qed
    then show ?thesis using none(1) tree_ok_epsilon [of "dp_position p" p]
      by (intro exI [of _ T_EPSILON] exI [of _ "dp_position p"]) (simp add: mk_Tnode_cset_def)
  next
    case (last c0)
    let ?t = "T_POS (dp_position p + 1) c0 255"
    have "byte_words (\<lambda>c. nat c \<in> bset_abs s) = byte_words (\<lambda>c. c0 \<le> c \<and> c \<le> 255)" using last(5) by (intro byte_words_cong) auto
    moreover have "bset_abs s \<noteq> {}" using last(5) [of c0] last(2,3) by auto
    ultimately have "tlang ?t = (if bset_abs s = {} then {[]} else byte_words (\<lambda>c. nat c \<in> bset_abs s))"
      using tlang_pos_range [OF last(2), of _ 255] by simp
    moreover have "mk_Tnode_cset p s = Some (?t, ?q)" using last(1,2,4) assms(1) by (simp add: mk_Tnode_cset_def new_pos_def)
    ultimately show ?thesis using tree_ok_pos [of c0 255 p] last(2,3) by (intro exI [of _ ?t] exI [of _ "dp_position p + 1"]) simp
  next
    case (range c0 c1)
    let ?t = "T_POS (dp_position p + 1) c0 (c1 - 1)"
    have ok: "tree_ok (dp_position p) ?t ?q" using range(2,4,5) by (intro tree_ok_pos) auto
    have "0 \<le> c1" "c1 \<le> 256" "bh_size (dp_charset ?q) = 255" using range(2,4,5) assms(1) by simp_all
    from cset_loop_spec [OF this(3) assms(2) this(1,2) ok] obtain t' n where
      l: "cset_loop ?q s ?t c1 = Some (t', ?q\<lparr>dp_position := n\<rparr>)" "dp_position ?q \<le> n" "tree_ok (dp_position p) t' (?q\<lparr>dp_position := n\<rparr>)"
      "tlang t' = tlang ?t \<union> byte_words (\<lambda>c. c1 \<le> c \<and> nat c \<in> bset_abs s)" by blast
    have "mk_Tnode_cset p s = cset_loop ?q s ?t c1" using range(1-4) by (simp add: mk_Tnode_cset_def new_pos_def)
    moreover have "byte_words (\<lambda>c. nat c \<in> bset_abs s) = byte_words (\<lambda>c. (c0 \<le> c \<and> c \<le> c1 - 1) \<or> c1 \<le> c \<and> nat c \<in> bset_abs s)"
      using range(4,6) by (intro byte_words_cong) (smt (verit))
    moreover have "bset_abs s \<noteq> {}" using range(2,4) range(6) [of c0] by auto
    ultimately show ?thesis using l tlang_pos_range [OF range(2), of _ "c1 - 1"]
      by (intro exI [of _ t'] exI [of _ n]) (simp add: byte_words_Un)
  qed
qed


section \<open>Expressions\<close>

definition at_token :: "dfa_parse_info \<Rightarrow> bool" where
  "at_token p \<longleftrightarrow> lex_env p \<and> token_ok (dp_lookahead p) p"

text \<open>What is left: the characters and the token that was read ahead.\<close>

definition left :: "dfa_parse_info \<Rightarrow> nat" where
  "left p = rest p + (if dp_lookahead p = 0 then 0 else 1)"

definition moved :: "dfa_parse_info \<Rightarrow> dfa_parse_info \<Rightarrow> bool" where
  "moved p q \<longleftrightarrow> lexed (p\<lparr>dp_position := dp_position q\<rparr>) q \<and> dp_position p \<le> dp_position q \<and> at_token q"

lemma moved_refl: "at_token p \<Longrightarrow> moved p p"
  by (simp add: moved_def at_token_def lexed_refl)

lemma moved_trans: "moved p q \<Longrightarrow> moved q r \<Longrightarrow> moved p r"
  by (auto simp: moved_def lexed_def)

lemma moved_at: "moved p q \<Longrightarrow> at_token q"
  by (simp add: moved_def)

lemma moved_position: "moved p q \<Longrightarrow> dp_position p \<le> dp_position q"
  by (simp add: moved_def)

lemma lex_step:
  assumes "lex_env p" "dp_lookahead p \<noteq> 0"
  shows "\<exists>q. lex p = Some q \<and> moved p q \<and> dp_position q = dp_position p \<and> left q < left p"
proof -
  obtain q where q: "lex p = Some q" "lexed p q" "token_ok (dp_lookahead q) q" "dp_lookahead q \<noteq> 0 \<longrightarrow> dp_ptr p < dp_ptr q"
    using lex_spec [OF assms(1)] by blast
  then have "dp_ptr q \<le> length (dp_expr p)" "dp_ptr p \<le> dp_ptr q" "dp_expr q = dp_expr p" by (auto simp: lexed_def lex_env_def)
  then have "left q < left p" using q(4) assms(2) by (auto simp: left_def rest_def)
  moreover have "moved p q" using q(2,3) by (simp add: moved_def at_token_def lexed_def)
  ultimately show ?thesis using q(1,2) by (auto simp: lexed_def)
qed

text \<open>A call returns; its tree, if there is one, has new positions, and at least \<open>b\<close> was consumed for it.\<close>

definition parsed :: "int \<Rightarrow> nat \<Rightarrow> (tnode option \<times> dfa_parse_info) option \<Rightarrow> dfa_parse_info \<Rightarrow> bool" where
  "parsed a b r p \<longleftrightarrow>
     (\<exists>t q. r = Some (t, q) \<and> moved p q \<and> (case t of None \<Rightarrow> True | Some t \<Rightarrow> tree_ok a t q \<and> left q + b \<le> left p))"

lemma parsed_None: "moved p q \<Longrightarrow> parsed a b (Some (None, q)) p"
  by (simp add: parsed_def)

lemma parsed_tree: "moved p q \<Longrightarrow> tree_ok a t q \<Longrightarrow> left q + b \<le> left p \<Longrightarrow> parsed a b (Some (Some t, q)) p"
  by (simp add: parsed_def)

lemma parsed_cases:
  assumes "parsed a b r p"
  obtains (error) q where "r = Some (None, q)" "moved p q"
  | (tree) t q where "r = Some (Some t, q)" "moved p q" "tree_ok a t q" "left q + b \<le> left p"
proof -
  obtain t q where q: "r = Some (t, q)" "moved p q" "case t of None \<Rightarrow> True | Some t \<Rightarrow> tree_ok a t q \<and> left q + b \<le> left p"
    using assms unfolding parsed_def by blast
  show thesis
  proof (cases t)
    case None
    then show ?thesis using error [of q] q(1,2) by simp
  next
    case (Some u)
    then show ?thesis using tree [of u q] q by simp
  qed
qed

lemma parsed_later:
  assumes "parsed a b r q" "moved p q" "left q \<le> left p"
  shows "parsed a b r p"
  using assms(1)
proof (cases rule: parsed_cases)
  case (error u)
  then show ?thesis using moved_trans [OF assms(2)] by (simp add: parsed_None)
next
  case (tree t u)
  then show ?thesis using moved_trans [OF assms(2) tree(2)] assms(3) by (simp add: parsed_tree)
qed

lemma parsed_weak: "parsed a 1 r p \<Longrightarrow> parsed a 0 r p"
  by (erule parsed_cases) (simp_all add: parsed_None parsed_tree)

lemma expr_4_step:
  assumes "at_token p" "\<And>q. at_token q \<Longrightarrow> left q < left p \<Longrightarrow> parsed (dp_position q) 0 (expr_1 n q) q"
  shows "parsed (dp_position p) 1 (expr_4 (Suc n) p) p"
proof -
  have env: "lex_env p" "token_ok (dp_lookahead p) p" using assms(1) by (simp_all add: at_token_def)
  have cset: "\<exists>t m q. mk_Tnode_cset p s = Some (t, p\<lparr>dp_position := m\<rparr>) \<and> lex (p\<lparr>dp_position := m\<rparr>) = Some q \<and> moved p q \<and>
      left q < left p \<and> tree_ok (dp_position p) t q" if s: "bset_ok 255 s" "dp_lookahead p \<noteq> 0" for s
  proof -
    obtain t m where t: "mk_Tnode_cset p s = Some (t, p\<lparr>dp_position := m\<rparr>)" "dp_position p \<le> m" "tree_ok (dp_position p) t (p\<lparr>dp_position := m\<rparr>)"
      using mk_Tnode_cset_spec [of p s] s(1) env(1) by (auto simp: lex_env_def)
    have "moved p (p\<lparr>dp_position := m\<rparr>)" using t(2) env lexed_refl [of "p\<lparr>dp_position := m\<rparr>"] by (simp add: moved_def at_token_def token_ok_def)
    moreover obtain q where q: "lex (p\<lparr>dp_position := m\<rparr>) = Some q" "moved (p\<lparr>dp_position := m\<rparr>) q" "dp_position q = m" "left q < left p"
      using lex_step [of "p\<lparr>dp_position := m\<rparr>"] env(1) s(2) by (auto simp: left_def rest_def)
    ultimately show ?thesis using t moved_trans tree_ok_later [OF t(3), of q] by auto
  qed
  consider (lp) "dp_lookahead p = L_LP" | (chr) "dp_lookahead p = L_CHAR" | (chars) "dp_lookahead p = L_CHARS" | (any) "dp_lookahead p = L_ANY"
    | (anyz) "dp_lookahead p = L_ANYZ" | (wild) "dp_lookahead p = L_WILD"
    | (other) "dp_lookahead p \<notin> {L_LP, L_CHAR, L_CHARS, L_ANY, L_ANYZ, L_WILD}" by blast
  then show ?thesis
  proof cases
    case lp
    then obtain q where q: "lex p = Some q" "moved p q" "dp_position q = dp_position p" "left q < left p"
      using lex_step [OF env(1)] by (auto simp: token_defs)
    from assms(2) [OF moved_at [OF q(2)] q(4)] have "parsed (dp_position p) 0 (expr_1 n q) q" using q(3) by simp
    then show ?thesis
    proof (cases rule: parsed_cases)
      case (error r)
      then show ?thesis using lp q(1) moved_trans [OF q(2)] by (simp add: parsed_None)
    next
      case (tree t r)
      show ?thesis
      proof (cases "dp_lookahead r = L_RP")
        case False
        then show ?thesis using lp q(1) tree(1) moved_trans [OF q(2) tree(2)] by (simp add: parsed_None)
      next
        case True
        obtain u where u: "lex r = Some u" "moved r u" "left u < left r" "dp_position u = dp_position r"
          using lex_step [of r] True moved_at [OF tree(2)] by (auto simp: at_token_def token_defs)
        have "expr_4 (Suc n) p = Some (Some t, u)" using lp q(1) tree(1) True u(1) by simp
        then show ?thesis using moved_trans [OF q(2) moved_trans [OF tree(2) u(2)]] tree_ok_later [OF tree(3), of u] u(3,4) tree(4) q(4)
          by (simp add: parsed_def)
      qed
    qed
  next
    case chr
    let ?q = "p\<lparr>dp_position := dp_position p + 1\<rparr>"
    have c: "char_code (dp_look_ch p)" using env(2) chr by (simp add: token_ok_def)
    have t: "tree_ok (dp_position p) (T_POS (dp_position p + 1) (dp_look_ch p) (dp_look_ch p)) ?q"
      using c by (intro tree_ok_pos) (auto simp: char_code_def)
    have m: "moved p ?q" using env lexed_refl [of ?q] by (simp add: moved_def at_token_def token_ok_def)
    obtain q where q: "lex ?q = Some q" "moved ?q q" "dp_position q = dp_position p + 1" "left q < left p"
      using lex_step [of ?q] env(1) chr by (auto simp: token_defs left_def rest_def)
    have "expr_4 (Suc n) p = Some (Some (T_POS (dp_position p + 1) (dp_look_ch p) (dp_look_ch p)), q)"
      using chr q(1) by (simp add: new_pos_def token_defs)
    then show ?thesis using moved_trans [OF m q(2)] tree_ok_later [OF t, of q] q(3,4) by (simp add: parsed_def)
  next
    case chars
    then obtain t m q where "mk_Tnode_cset p (dp_look_chars p) = Some (t, p\<lparr>dp_position := m\<rparr>)" "lex (p\<lparr>dp_position := m\<rparr>) = Some q" "moved p q"
      "left q < left p" "tree_ok (dp_position p) t q"
      using cset [of "dp_look_chars p"] env(2) by (auto simp: token_ok_def token_defs)
    then show ?thesis using chars by (simp add: parsed_def token_defs)
  next
    case any
    then obtain t m q where "mk_Tnode_cset p (dp_anyset p) = Some (t, p\<lparr>dp_position := m\<rparr>)" "lex (p\<lparr>dp_position := m\<rparr>) = Some q" "moved p q"
      "left q < left p" "tree_ok (dp_position p) t q"
      using cset [of "dp_anyset p"] env(1) by (auto simp: lex_env_def token_defs)
    then show ?thesis using any by (simp add: parsed_def token_defs)
  next
    case anyz
    then obtain t m q where "mk_Tnode_cset p (dp_anyset p) = Some (t, p\<lparr>dp_position := m\<rparr>)" "lex (p\<lparr>dp_position := m\<rparr>) = Some q" "moved p q"
      "left q < left p" "tree_ok (dp_position p) t q"
      using cset [of "dp_anyset p"] env(1) by (auto simp: lex_env_def token_defs)
    then show ?thesis using anyz by (simp add: parsed_def token_defs tree_ok_one)
  next
    case wild
    then obtain t m q where "mk_Tnode_cset p (dp_anyset p) = Some (t, p\<lparr>dp_position := m\<rparr>)" "lex (p\<lparr>dp_position := m\<rparr>) = Some q" "moved p q"
      using cset [of "dp_anyset p"] env(1) by (auto simp: lex_env_def token_defs)
    then show ?thesis using wild by (simp add: parsed_def token_defs)
  next
    case other
    then show ?thesis using moved_refl [OF assms(1)] by (simp add: parsed_None)
  qed
qed

lemma expr_3_step:
  assumes "at_token p" "parsed (dp_position p) 1 (expr_4 n p) p"
  shows "parsed (dp_position p) 1 (expr_3 (Suc n) p) p"
  using assms(2)
proof (cases rule: parsed_cases)
  case (error q)
  then show ?thesis by (simp add: parsed_None)
next
  case (tree t q)
  have more: "parsed (dp_position p) 1 (do { p \<leftarrow> lex q; Some (Some u, p) }) p"
    if u: "tree_ok (dp_position p) u q" "dp_lookahead q \<noteq> 0" for u
  proof -
    obtain r where r: "lex q = Some r" "moved q r" "dp_position r = dp_position q" "left r < left q"
      using lex_step [OF _ u(2)] moved_at [OF tree(2)] by (auto simp: at_token_def)
    then show ?thesis using moved_trans [OF tree(2) r(2)] tree_ok_later [OF u(1), of r] tree(4) by (simp add: parsed_def)
  qed
  note one = tree_ok_one [OF tree(3)]
  show ?thesis
    using more [OF one(1)] more [OF one(2)] more [OF one(3)] tree by (auto simp: token_defs parsed_def)
qed

text \<open>The fuel each level needs for what is left of the pattern.\<close>

lemma expr_total:
  "(\<forall>p. at_token p \<longrightarrow> 4 * left p + 4 \<le> n \<longrightarrow> parsed (dp_position p) 1 (expr_1 n p) p) \<and>
   (\<forall>p a t. at_token p \<longrightarrow> 4 * left p + 3 \<le> n \<longrightarrow> tree_ok a t p \<longrightarrow> parsed a 0 (alt_loop n t p) p) \<and>
   (\<forall>p. at_token p \<longrightarrow> 4 * left p + 3 \<le> n \<longrightarrow> parsed (dp_position p) 1 (expr_2 n p) p) \<and>
   (\<forall>p a t. at_token p \<longrightarrow> 4 * left p + 3 \<le> n \<longrightarrow> tree_ok a t p \<longrightarrow> parsed a 0 (cat_loop n t p) p) \<and>
   (\<forall>p. at_token p \<longrightarrow> 4 * left p + 2 \<le> n \<longrightarrow> parsed (dp_position p) 1 (expr_3 n p) p) \<and>
   (\<forall>p. at_token p \<longrightarrow> 4 * left p + 1 \<le> n \<longrightarrow> parsed (dp_position p) 1 (expr_4 n p) p)"
proof (induction n)
  case 0
  show ?case by simp
next
  case (Suc n)
  note IH1 = Suc.IH [THEN conjunct1, rule_format]
  note IHa = Suc.IH [THEN conjunct2, THEN conjunct1, rule_format]
  note IH2 = Suc.IH [THEN conjunct2, THEN conjunct2, THEN conjunct1, rule_format]
  note IHc = Suc.IH [THEN conjunct2, THEN conjunct2, THEN conjunct2, THEN conjunct1, rule_format]
  note IH3 = Suc.IH [THEN conjunct2, THEN conjunct2, THEN conjunct2, THEN conjunct2, THEN conjunct1, rule_format]
  note IH4 = Suc.IH [THEN conjunct2, THEN conjunct2, THEN conjunct2, THEN conjunct2, THEN conjunct2, rule_format]
  have seq: "parsed (dp_position p) 1 (do { (t1, p) \<leftarrow> r; case t1 of None \<Rightarrow> Some (None, p) | Some t1 \<Rightarrow> loop t1 p }) p"
    if r: "parsed (dp_position p) 1 r p" and loop: "\<And>t q. at_token q \<Longrightarrow> left q < left p \<Longrightarrow> tree_ok (dp_position p) t q \<Longrightarrow> parsed (dp_position p) 0 (loop t q) q"
    for p r loop
    using r
  proof (cases rule: parsed_cases)
    case (error q)
    then show ?thesis by (simp add: parsed_None)
  next
    case (tree t q)
    have "parsed (dp_position p) 0 (loop t q) q" using loop [OF moved_at [OF tree(2)] _ tree(3)] tree(4) by simp
    then show ?thesis
    proof (cases rule: parsed_cases)
      case (error u)
      then show ?thesis using tree(1) moved_trans [OF tree(2)] by (simp add: parsed_None)
    next
      case (tree v u)
      then show ?thesis using \<open>r = Some (Some t, q)\<close> \<open>left q + 1 \<le> left p\<close> moved_trans [OF \<open>moved p q\<close> tree(2)] by (simp add: parsed_def)
    qed
  qed
  have join: "parsed a 0 (do { (t2, p) \<leftarrow> r; case t2 of None \<Rightarrow> Some (None, p) | Some t2 \<Rightarrow> loop (g t2) p }) p"
    if r: "parsed (dp_position p) 1 r p" and g: "\<And>u q. tree_ok (dp_position p) u q \<Longrightarrow> tree_ok a (g u) q"
      and loop: "\<And>u q. at_token q \<Longrightarrow> left q < left p \<Longrightarrow> tree_ok a u q \<Longrightarrow> parsed a 0 (loop u q) q"
    for a p r g loop
    using r
  proof (cases rule: parsed_cases)
    case (error q)
    then show ?thesis by (simp add: parsed_None)
  next
    case (tree u q)
    have "parsed a 0 (loop (g u) q) q" using loop [OF moved_at [OF tree(2)] _ g [OF tree(3)]] tree(4) by simp
    then have "parsed a 0 (loop (g u) q) p" using tree(4) by (intro parsed_later [OF _ tree(2)]) simp_all
    then show ?thesis using tree(1) by simp
  qed
  have 1: "parsed (dp_position p) 1 (expr_1 (Suc n) p) p" if "at_token p" "4 * left p + 4 \<le> Suc n" for p
    unfolding expr_1.simps by (rule seq) (use that IH2 IHa in auto)
  have 2: "parsed (dp_position p) 1 (expr_2 (Suc n) p) p" if "at_token p" "4 * left p + 3 \<le> Suc n" for p
    unfolding expr_2.simps by (rule seq) (use that IH3 IHc in auto)
  have a: "parsed a 0 (alt_loop (Suc n) t p) p" if "at_token p" "4 * left p + 3 \<le> Suc n" "tree_ok a t p" for p a t
  proof (cases "dp_lookahead p = L_ALT")
    case True
    have env: "lex_env p" using that(1) by (simp add: at_token_def)
    obtain q where q: "lex p = Some q" "moved p q" "dp_position q = dp_position p" "left q < left p"
      using lex_step [OF env] True by (auto simp: token_defs)
    have t: "tree_ok a t q" using tree_ok_later [OF that(3), of q] q(3) by simp
    have "parsed (dp_position q) 1 (expr_2 n q) q" using IH2 [OF moved_at [OF q(2)]] q(4) that(2) by simp
    then have "parsed a 0 (do { (t2, p) \<leftarrow> expr_2 n q; case t2 of None \<Rightarrow> Some (None, p) | Some t2 \<Rightarrow> alt_loop n (T_OR t t2) p }) q"
      by (rule join [where g = "T_OR t"]) (use tree_ok_join(1) [OF t] IHa q(4) that(2) in auto)
    then have "parsed a 0 (do { (t2, p) \<leftarrow> expr_2 n q; case t2 of None \<Rightarrow> Some (None, p) | Some t2 \<Rightarrow> alt_loop n (T_OR t t2) p }) p"
      using q(4) by (intro parsed_later [OF _ q(2)]) simp_all
    then show ?thesis using True q(1) by simp
  next
    case False
    then show ?thesis using that moved_refl by (simp add: parsed_def)
  qed
  have c: "parsed a 0 (cat_loop (Suc n) t p) p" if "at_token p" "4 * left p + 3 \<le> Suc n" "tree_ok a t p" for p a t
  proof (cases "starts_expr (dp_lookahead p)")
    case True
    have "parsed (dp_position p) 1 (expr_3 n p) p" using IH3 that(1,2) by simp
    then have "parsed a 0 (do { (t2, p) \<leftarrow> expr_3 n p; case t2 of None \<Rightarrow> Some (None, p) | Some t2 \<Rightarrow> cat_loop n (T_CAT t t2) p }) p"
      by (rule join [where g = "T_CAT t"]) (use tree_ok_join(2) [OF that(3)] IHc that(2) in auto)
    then show ?thesis using True by simp
  next
    case False
    then show ?thesis using that moved_refl by (simp add: parsed_def)
  qed
  have 3: "parsed (dp_position p) 1 (expr_3 (Suc n) p) p" if "at_token p" "4 * left p + 2 \<le> Suc n" for p
    by (rule expr_3_step) (use that IH4 in auto)
  have 4: "parsed (dp_position p) 1 (expr_4 (Suc n) p) p" if "at_token p" "4 * left p + 1 \<le> Suc n" for p
    by (rule expr_4_step) (use that IH1 parsed_weak in auto)
  show ?case using 1 2 a c 3 4 by blast
qed

end
