(* ===== verification/Dfa_Cmap.thy ===== *)
theory Dfa_Cmap
  imports Dfa_Lex
begin

text \<open>
  The table of operators as a map from characters to tokens: searching, removing and adding pairs.
\<close>

section \<open>Tables of pairs\<close>

text \<open>What stands behind the zero that ends the pairs is not looked at.\<close>

primrec pair_table :: "(int \<times> int) list \<Rightarrow> int list \<Rightarrow> int list" where
  "pair_table [] zs = 0 # zs"
| "pair_table (e # ps) zs = fst e # snd e # pair_table ps zs"

lemma length_pair_table [simp]: "length (pair_table ps zs) = 2 * length ps + 1 + length zs"
  by (induction ps) auto

definition pairs_ok :: "(int \<times> int) list \<Rightarrow> bool" where
  "pairs_ok ps \<longleftrightarrow> distinct (map fst ps) \<and> (\<forall>(f, t) \<in> set ps. f \<noteq> 0 \<and> t \<noteq> L_CHARS)"

lemma pairs_ok_simps [simp]:
  "pairs_ok []" "pairs_ok ((f, t) # ps) \<longleftrightarrow> f \<noteq> 0 \<and> t \<noteq> L_CHARS \<and> f \<notin> fst ` set ps \<and> pairs_ok ps"
  by (auto simp: pairs_ok_def)

lemma pairs_ok_append: "pairs_ok (ps @ qs) \<longleftrightarrow> pairs_ok ps \<and> pairs_ok qs \<and> fst ` set ps \<inter> fst ` set qs = {}"
  by (auto simp: pairs_ok_def)

lemma find_table: "pairs_ok ps \<Longrightarrow> charmap_find (pair_table ps zs) c = Some (map_of ps c)"
proof (induction ps)
  case Nil
  show ?case by (cases zs) simp_all
next
  case (Cons e ps)
  then show ?case by (cases e) auto
qed

text \<open>The search ends at the pair of the character, or at the zero.\<close>

lemma search_table:
  assumes "pairs_ok ps" "f \<noteq> 0"
  shows "cmap_search (pre @ pair_table ps zs) (\<lambda>c. c = f) (length pre) = Some (length pre + 2 * length (takeWhile (\<lambda>e. fst e \<noteq> f) ps))"
  using assms(1)
proof (induction ps arbitrary: pre)
  case Nil
  show ?case by (subst cmap_search.simps) (simp add: nth_append)
next
  case (Cons e ps)
  obtain g t where e: "e = (g, t)" by fastforce
  show ?case
  proof (cases "g = f")
    case True
    then show ?thesis using e by (subst cmap_search.simps) (simp add: nth_append)
  next
    case False
    have "cmap_search ((pre @ [g, t]) @ pair_table ps zs) (\<lambda>c. c = f) (length (pre @ [g, t])) =
        Some (length (pre @ [g, t]) + 2 * length (takeWhile (\<lambda>e. fst e \<noteq> f) ps))"
      by (rule Cons.IH) (use Cons.prems e in simp)
    then show ?thesis using e False Cons.prems by (subst cmap_search.simps) (simp add: nth_append)
  qed
qed

lemma search_end:
  assumes "pairs_ok ps"
  shows "cmap_search (pre @ pair_table ps zs) (\<lambda>_. False) (length pre) = Some (length pre + 2 * length ps)"
  using assms
proof (induction ps arbitrary: pre)
  case Nil
  show ?case by (subst cmap_search.simps) (simp add: nth_append)
next
  case (Cons e ps)
  obtain g t where e: "e = (g, t)" by fastforce
  have "cmap_search ((pre @ [g, t]) @ pair_table ps zs) (\<lambda>_. False) (length (pre @ [g, t])) = Some (length (pre @ [g, t]) + 2 * length ps)"
    by (rule Cons.IH) (use Cons.prems e in simp)
  then show ?case using e Cons.prems by (subst cmap_search.simps) (simp add: nth_append)
qed

text \<open>Removing a pair moves the later ones to its place.\<close>

lemma shift_table:
  assumes "pairs_ok ((f, t) # ps)"
  shows "\<exists>zs'. cmap_shift (pre @ pair_table ((f, t) # ps) zs) (length pre) = Some (pre @ pair_table ps zs') \<and> length zs' = length zs + 2"
  using assms
proof (induction ps arbitrary: pre f t)
  case Nil
  show ?case by (subst cmap_shift.simps) (simp add: nth_append list_update_append)
next
  case (Cons e ps)
  obtain g u where e: "e = (g, u)" by fastforce
  have IH: "\<exists>zs'. cmap_shift ((pre @ [g, u]) @ pair_table ((g, u) # ps) zs) (length (pre @ [g, u])) = Some ((pre @ [g, u]) @ pair_table ps zs') \<and>
      length zs' = length zs + 2"
    by (rule Cons.IH) (use Cons.prems e in simp)
  have "cmap_shift (pre @ pair_table ((f, t) # e # ps) zs) (length pre) =
      cmap_shift ((pre @ [g, u]) @ pair_table ((g, u) # ps) zs) (length (pre @ [g, u]))"
    using Cons.prems e by (subst cmap_shift.simps) (simp add: nth_append list_update_append)
  then show ?case using IH e by simp
qed

lemma pair_table_append: "pair_table (ps @ qs) zs = concat (map (\<lambda>e. [fst e, snd e]) ps) @ pair_table qs zs"
  by (induction ps) auto

lemma length_concat_pairs: "length (concat (map (\<lambda>e. [fst e, snd e]) ps)) = 2 * length ps"
  by (induction ps) auto

text \<open>A pair of a list with distinct characters.\<close>

lemma split_pairs:
  assumes "f \<in> fst ` set ps"
  obtains ps1 t ps2 where "ps = ps1 @ (f, t) # ps2" "takeWhile (\<lambda>e. fst e \<noteq> f) ps = ps1" "f \<notin> fst ` set ps1"
proof -
  obtain e where e: "e \<in> set ps" "\<not> fst e \<noteq> f" using assms by auto
  obtain x ys where d: "dropWhile (\<lambda>e. fst e \<noteq> f) ps = x # ys" using e by (cases "dropWhile (\<lambda>e. fst e \<noteq> f) ps") (auto simp: dropWhile_eq_Nil_conv)
  then have x: "fst x = f" using hd_dropWhile [of "\<lambda>e. fst e \<noteq> f" ps] by auto
  have "ps = takeWhile (\<lambda>e. fst e \<noteq> f) ps @ (f, snd x) # ys" using takeWhile_dropWhile_id [of "\<lambda>e. fst e \<noteq> f" ps] d x by (metis prod.collapse)
  moreover have "f \<notin> fst ` set (takeWhile (\<lambda>e. fst e \<noteq> f) ps)" by (auto dest: set_takeWhileD)
  ultimately show thesis using that by blast
qed

lemma takeWhile_absent: "f \<notin> fst ` set ps \<Longrightarrow> takeWhile (\<lambda>e. fst e \<noteq> f) ps = ps"
  by (auto simp: takeWhile_eq_all_conv)

section \<open>The table of a parser\<close>

definition chars_ok :: "dfa_parse_info \<Rightarrow> bool" where
  "chars_ok p \<longleftrightarrow> (\<exists>ps zs. dp_charMap p = Some (pair_table ps zs) \<and> pairs_ok ps \<and> dp_charMapSize p = length (pair_table ps zs))"

definition operators :: "dfa_parse_info \<Rightarrow> int \<Rightarrow> int option" where
  "operators p c = (case dp_charMap p of None \<Rightarrow> None | Some m \<Rightarrow> the (charmap_find m c))"

lemma operators_table: "dp_charMap p = Some (pair_table ps zs) \<Longrightarrow> pairs_ok ps \<Longrightarrow> operators p = map_of ps"
  by (auto simp: operators_def find_table)

lemma chars_ok_table: "chars_ok p \<Longrightarrow> cmap_table (dp_charMap p)"
proof -
  assume "chars_ok p"
  then obtain ps zs where ps: "dp_charMap p = Some (pair_table ps zs)" "pairs_ok ps" by (auto simp: chars_ok_def)
  moreover have "map_of ps c \<noteq> Some L_CHARS" for c using ps(2) by (auto simp: pairs_ok_def dest: map_of_SomeD)
  ultimately show ?thesis by (auto simp: cmap_table_def find_table)
qed

lemma cmap_del_spec:
  assumes "chars_ok p" "f \<noteq> 0"
  shows "\<exists>m. dfa_parse_cmap_del p f = Some (p\<lparr>dp_charMap := Some m\<rparr>) \<and> chars_ok (p\<lparr>dp_charMap := Some m\<rparr>) \<and>
    operators (p\<lparr>dp_charMap := Some m\<rparr>) = (operators p)(f := None)"
proof -
  obtain ps zs where ps: "dp_charMap p = Some (pair_table ps zs)" "pairs_ok ps" "dp_charMapSize p = length (pair_table ps zs)"
    using assms(1) by (auto simp: chars_ok_def)
  note s = search_table [OF ps(2) assms(2), of "[]", simplified]
  show ?thesis
  proof (cases "f \<in> fst ` set ps")
    case False
    then have "pair_table ps zs ! (2 * length (takeWhile (\<lambda>e. fst e \<noteq> f) ps)) = 0"
      using pair_table_append [of ps "[]" zs] length_concat_pairs [of ps] by (simp add: takeWhile_absent nth_append)
    then have "dfa_parse_cmap_del p f = Some p" using ps(1) s by (simp add: dfa_parse_cmap_del_def)
    moreover have "operators p f = None" using False operators_table [OF ps(1,2)] by (simp add: map_of_eq_None_iff)
    moreover have "p = p\<lparr>dp_charMap := Some (pair_table ps zs)\<rparr>" using ps(1) by simp
    ultimately show ?thesis using assms(1) by (metis fun_upd_triv)
  next
    case True
    then obtain ps1 t ps2 where t: "ps = ps1 @ (f, t) # ps2" "takeWhile (\<lambda>e. fst e \<noteq> f) ps = ps1" "f \<notin> fst ` set ps1"
      by (rule split_pairs)
    let ?pre = "concat (map (\<lambda>e. [fst e, snd e]) ps1)"
    have m: "pair_table ps zs = ?pre @ pair_table ((f, t) # ps2) zs" unfolding t(1) by (rule pair_table_append)
    have ok2: "pairs_ok ((f, t) # ps2)" using ps(2) t(1) by (simp add: pairs_ok_append)
    then obtain zs' where r: "cmap_shift (pair_table ps zs) (2 * length ps1) = Some (pair_table (ps1 @ ps2) zs')" "length zs' = length zs + 2"
      using shift_table [OF ok2, of ?pre zs] unfolding m pair_table_append [of ps1] length_concat_pairs by auto
    have "pair_table ps zs ! (2 * length ps1) = f" unfolding m by (simp add: nth_append length_concat_pairs)
    then have d: "dfa_parse_cmap_del p f = Some (p\<lparr>dp_charMap := Some (pair_table (ps1 @ ps2) zs')\<rparr>)" (is "_ = Some ?p")
      using ps(1) s t(2) r(1) assms(2) by (simp add: dfa_parse_cmap_del_def)
    have ok: "pairs_ok (ps1 @ ps2)" using ps(2) t(1) by (auto simp: pairs_ok_append)
    have "chars_ok ?p" using ok ps(3) r(2) t(1) unfolding chars_ok_def by (intro exI [of _ "ps1 @ ps2"] exI [of _ zs']) simp
    moreover have "operators ?p = (operators p)(f := None)"
    proof -
      have "map_of ps1 f = None" "map_of ps2 f = None" using ok2 t(3) by (simp_all add: map_of_eq_None_iff)
      then have "map_of (ps1 @ ps2) c = ((map_of ps)(f := None)) c" for c
        unfolding t(1) by (simp add: map_add_def split: option.split)
      moreover have "operators ?p = map_of (ps1 @ ps2)" using operators_table [of ?p] ok by simp
      ultimately show ?thesis using operators_table [OF ps(1,2)] by auto
    qed
    ultimately show ?thesis using d by blast
  qed
qed

text \<open>Emptying the table writes its first entry; a new table is copied, into a larger array if the old one is too short.\<close>

lemma cmap_clean_spec:
  assumes "chars_ok p"
  shows "\<exists>m. dfa_parse_cmap_clean p = Some (p\<lparr>dp_charMap := Some m\<rparr>) \<and> chars_ok (p\<lparr>dp_charMap := Some m\<rparr>) \<and>
    operators (p\<lparr>dp_charMap := Some m\<rparr>) = Map.empty"
proof -
  obtain ps zs where ps: "dp_charMap p = Some (pair_table ps zs)" "dp_charMapSize p = length (pair_table ps zs)"
    using assms by (auto simp: chars_ok_def)
  let ?m = "pair_table [] (tl (pair_table ps zs))"
  have m: "(pair_table ps zs)[0 := 0] = ?m" "pair_table ps zs \<noteq> []" by (cases ps; simp)+
  have "dfa_parse_cmap_clean p = Some (p\<lparr>dp_charMap := Some ?m\<rparr>)"
    using ps(1) m(2) by (simp add: dfa_parse_cmap_clean_def m(1) Let_def)
  moreover have "chars_ok (p\<lparr>dp_charMap := Some ?m\<rparr>)"
    unfolding chars_ok_def using ps(2) by (intro exI [of _ "[]"] exI [of _ "tl (pair_table ps zs)"]) simp
  moreover have "operators (p\<lparr>dp_charMap := Some ?m\<rparr>) = Map.empty"
    using operators_table [of "p\<lparr>dp_charMap := Some ?m\<rparr>" "[]"] by simp
  ultimately show ?thesis by blast
qed

lemma take_table: "take (2 * length ps + 1) (pair_table ps zs) = pair_table ps []"
  by (induction ps) auto

lemma pair_table_more: "pair_table ps [] @ zs = pair_table ps zs"
  by (induction ps) auto

lemma cmap_new_spec:
  assumes "chars_ok p" "pairs_ok ps"
  shows "\<exists>m n. dfa_parse_cmap_new p (pair_table ps zs) = Some (p\<lparr>dp_charMap := Some m, dp_charMapSize := n\<rparr>) \<and>
    chars_ok (p\<lparr>dp_charMap := Some m, dp_charMapSize := n\<rparr>) \<and> operators (p\<lparr>dp_charMap := Some m, dp_charMapSize := n\<rparr>) = map_of ps"
proof -
  let ?sz = "2 * length ps + 1"
  obtain m where m: "dp_charMap p = Some m" "dp_charMapSize p = length m" using assms(1) by (auto simp: chars_ok_def)
  have s: "cmap_search (pair_table ps zs) (\<lambda>_. False) 0 = Some (2 * length ps)" using search_end [OF assms(2), of "[]"] by simp
  define m' where "m' = pair_table ps (if length m < ?sz then [] else drop ?sz m)"
  define n' where "n' = (if length m < ?sz then ?sz else length m)"
  let ?p = "p\<lparr>dp_charMap := Some m', dp_charMapSize := n'\<rparr>"
  have "dfa_parse_cmap_new p (pair_table ps zs) = Some ?p"
    using m s take_table [of ps zs] pair_table_more [of ps] by (auto simp: dfa_parse_cmap_new_def m'_def n'_def Let_def)
  moreover have "chars_ok ?p" unfolding chars_ok_def using assms(2)
    by (intro exI [of _ ps] exI [of _ "if length m < ?sz then [] else drop ?sz m"]) (auto simp: m'_def n'_def)
  moreover have "operators ?p = map_of ps" by (rule operators_table) (simp_all add: m'_def assms(2))
  ultimately show ?thesis by blast
qed

text \<open>A new pair needs three entries from the zero on; the array is never made larger.\<close>

definition room :: "dfa_parse_info \<Rightarrow> nat" where
  "room p = dp_charMapSize p - 2 * card (dom (operators p))"

lemma room_table:
  assumes "dp_charMap p = Some (pair_table ps zs)" "pairs_ok ps" "dp_charMapSize p = length (pair_table ps zs)"
  shows "room p = 1 + length zs"
proof -
  have "dom (operators p) = set (map fst ps)" using operators_table [OF assms(1,2)] by (simp add: dom_map_of_conv_image_fst)
  then have "card (dom (operators p)) = length ps" using assms(2) distinct_card [of "map fst ps"] by (simp add: pairs_ok_def)
  then show ?thesis using assms(3) by (simp add: room_def)
qed

lemma cmap_add_spec:
  assumes "chars_ok p" "f \<noteq> 0" "t \<noteq> L_CHARS"
  shows "if f \<in> dom (operators p) \<or> 3 \<le> room p
    then \<exists>m. dfa_parse_cmap_add p f t = Some (p\<lparr>dp_charMap := Some m\<rparr>) \<and> chars_ok (p\<lparr>dp_charMap := Some m\<rparr>) \<and>
      operators (p\<lparr>dp_charMap := Some m\<rparr>) = (operators p)(f \<mapsto> t)
    else dfa_parse_cmap_add p f t = None"
proof -
  obtain ps zs where ps: "dp_charMap p = Some (pair_table ps zs)" "pairs_ok ps" "dp_charMapSize p = length (pair_table ps zs)"
    using assms(1) by (auto simp: chars_ok_def)
  note s = search_table [OF ps(2) assms(2), of "[]", simplified]
  note ops = operators_table [OF ps(1,2)]
  have dom: "f \<in> dom (operators p) \<longleftrightarrow> f \<in> fst ` set ps" unfolding ops dom_map_of_conv_image_fst ..
  have room: "room p = 1 + length zs" by (rule room_table [OF ps])
  show ?thesis
  proof (cases "f \<in> fst ` set ps")
    case True
    then obtain ps1 u ps2 where t: "ps = ps1 @ (f, u) # ps2" "takeWhile (\<lambda>e. fst e \<noteq> f) ps = ps1" "f \<notin> fst ` set ps1"
      by (rule split_pairs)
    let ?ps = "ps1 @ (f, t) # ps2"
    have m: "(pair_table ps zs)[Suc (2 * length ps1) := t] = pair_table ?ps zs"
      unfolding t(1) pair_table_append by (simp add: list_update_append length_concat_pairs)
    have "pair_table ps zs ! (2 * length ps1) = f" unfolding t(1) pair_table_append by (simp add: nth_append length_concat_pairs)
    then have d: "dfa_parse_cmap_add p f t = Some (p\<lparr>dp_charMap := Some (pair_table ?ps zs)\<rparr>)" (is "_ = Some ?p")
      using ps(1) s t(1,2) assms(2) m by (simp add: dfa_parse_cmap_add_def cmap_put_def)
    have ok: "pairs_ok ?ps" using ps(2) t(1) assms(3) by (auto simp: pairs_ok_append)
    have "chars_ok ?p" using ok ps(3) t(1) unfolding chars_ok_def by (intro exI [of _ ?ps] exI [of _ zs]) simp
    moreover have "operators ?p = (operators p)(f \<mapsto> t)"
    proof -
      have "map_of ps1 f = None" using t(3) by (simp add: map_of_eq_None_iff)
      then have "map_of ?ps c = ((map_of ps)(f \<mapsto> t)) c" for c
        unfolding t(1) by (simp add: map_add_def split: option.split)
      then show ?thesis using operators_table [of ?p] ok ops by auto
    qed
    ultimately show ?thesis using d dom True by auto
  next
    case False
    then have i: "cmap_search (pair_table ps zs) (\<lambda>c. c = f) 0 = Some (2 * length ps)" using s by (simp add: takeWhile_absent)
    have z: "pair_table ps zs ! (2 * length ps) = 0"
      using pair_table_append [of ps "[]" zs] length_concat_pairs [of ps] by (simp add: nth_append)
    show ?thesis
    proof (cases "2 \<le> length zs")
      case True
      then obtain x y r where r: "zs = x # y # r" by (metis Suc_le_length_iff numeral_2_eq_2)
      let ?ps = "ps @ [(f, t)]"
      have m: "(pair_table ps zs)[2 * length ps := f, Suc (2 * length ps) := t, Suc (Suc (2 * length ps)) := 0] = pair_table ?ps r"
        using pair_table_append [of ps "[]" zs] pair_table_append [of ps "[(f, t)]" r] r
        by (simp add: list_update_append length_concat_pairs)
      have d: "dfa_parse_cmap_add p f t = Some (p\<lparr>dp_charMap := Some (pair_table ?ps r)\<rparr>)" (is "_ = Some ?p")
        using ps(1,3) i z m r by (simp add: dfa_parse_cmap_add_def cmap_put_def)
      have ok: "pairs_ok ?ps" using ps(2) False assms(2,3) by (auto simp: pairs_ok_append)
      have "chars_ok ?p" using ok ps(3) r unfolding chars_ok_def by (intro exI [of _ ?ps] exI [of _ r]) simp
      moreover have "operators ?p = (operators p)(f \<mapsto> t)"
      proof -
        have "map_of ps f = None" using False by (simp add: map_of_eq_None_iff)
        then have "map_of ?ps c = ((map_of ps)(f \<mapsto> t)) c" for c
          by (simp add: map_add_def split: option.split)
        then show ?thesis using operators_table [of ?p] ok ops by auto
      qed
      ultimately show ?thesis using d room r by auto
    next
      case short: False
      then have "dfa_parse_cmap_add p f t = None"
        using ps(1,3) i z by (auto simp: dfa_parse_cmap_add_def cmap_put_def)
      then show ?thesis using short dom False room by simp
    qed
  qed
qed

end
