(* ===== verification/Dfa_Theorems.thy ===== *)
theory Dfa_Theorems
  imports Dfa_Parser Dfa_Cmap
begin

text \<open>
  The interface of the automata: parsing patterns and building the automaton, with the properties of the component.
\<close>

section \<open>Parsing a pattern\<close>

text \<open>Between patterns.\<close>

definition idle :: "dfa_parse_info \<Rightarrow> bool" where
  "idle p \<longleftrightarrow>
     bh_size (dp_charset p) = 255 \<and> bh_wsize (dp_charset p) = 16 \<and> bset_ok 255 (dp_anyset p) \<and> cmap_ok (dp_cmap p) \<and> cmap_table (dp_charMap p)"

lemma idle_env: "lex_env p \<Longrightarrow> idle p"
  by (simp add: lex_env_def idle_def)

lemma moved_fields:
  assumes "moved p q"
  shows "lex_env q" "dp_root q = dp_root p" "dp_rule q = dp_rule p" "dp_err_code q = dp_err_code p" "dp_expr q = dp_expr p" "dp_position p \<le> dp_position q"
    "dp_charMap q = dp_charMap p" "dp_charMapSize q = dp_charMapSize p" "dp_cmap q = dp_cmap p" "dp_ptr q \<le> length (dp_expr p)"
  using assms by (auto simp: moved_def lexed_def lex_env_def)

lemma pos_step:
  assumes "lex_env p" "dp_lookahead p \<noteq> 0"
  shows "\<exists>q. pos_node p 10 10 = (T_POS (dp_position p + 1) 10 10, p\<lparr>dp_position := dp_position p + 1\<rparr>) \<and>
    lex (p\<lparr>dp_position := dp_position p + 1\<rparr>) = Some q \<and> moved p q \<and> tree_ok (dp_position p) (T_POS (dp_position p + 1) 10 10) q"
proof -
  let ?p = "p\<lparr>dp_position := dp_position p + 1\<rparr>"
  obtain q where q: "lex ?p = Some q" "moved ?p q" "dp_position q = dp_position p + 1"
    using lex_step [of ?p] assms by auto
  have t: "tree_ok (dp_position p) (T_POS (dp_position p + 1) 10 10) ?p" by (rule tree_ok_pos) auto
  have "moved p q" using q(2,3) by (auto simp: moved_def lexed_def)
  then show ?thesis using q tree_ok_later [OF t, of q] by (simp add: pos_node_def new_pos_def)
qed

lemma parse_body_spec:
  assumes "at_token p" "4 * left p + 4 \<le> n"
  shows "\<exists>t q. parse_body n p = Some (t, q) \<and> moved p q \<and> (case t of None \<Rightarrow> True | Some t \<Rightarrow> tree_ok (dp_position p) t q)"
proof (cases "dp_lookahead p = L_END")
  case True
  then show ?thesis using pos_step [of p] assms(1) by (auto simp: parse_body_def at_token_def token_defs)
next
  case False
  have "parsed (dp_position p) 1 (expr_1 n p) p" using expr_total [of n] assms by blast
  then show ?thesis
  proof (cases rule: parsed_cases)
    case (error q)
    then show ?thesis using False by (simp add: parse_body_def)
  next
    case (tree t q)
    show ?thesis
    proof (cases "dp_lookahead q = L_END")
      case True
      obtain r where r: "pos_node q 10 10 = (T_POS (dp_position q + 1) 10 10, q\<lparr>dp_position := dp_position q + 1\<rparr>)"
        "lex (q\<lparr>dp_position := dp_position q + 1\<rparr>) = Some r" "moved q r" "tree_ok (dp_position q) (T_POS (dp_position q + 1) 10 10) r"
        using pos_step [of q] moved_at [OF tree(2)] True by (auto simp: at_token_def token_defs)
      then show ?thesis using False True tree moved_trans [OF tree(2) r(3)] tree_ok_join(2) [OF tree(3) r(4)] by (simp add: parse_body_def)
    next
      case False
      then show ?thesis using \<open>dp_lookahead p \<noteq> L_END\<close> tree by (simp add: parse_body_def)
    qed
  qed
qed

text \<open>The result of a pattern: an error, or the tree of the next rule.\<close>

definition rule_tree :: "dfa_parse_info \<Rightarrow> tnode \<Rightarrow> dfa_parse_info \<Rightarrow> bool" where
  "rule_tree p t q \<longleftrightarrow>
     (\<exists>u acc c1. t = T_CAT u (T_POS acc (- (dp_rule p + 1)) c1) \<and> char_tree u \<and> linear t \<and> positions t \<subseteq> {dp_position p<..dp_position q})"

definition parse_result :: "dfa_parse_info \<Rightarrow> nat \<Rightarrow> tnode option \<times> dfa_parse_info \<Rightarrow> bool" where
  "parse_result p n r \<longleftrightarrow>
     (case r of (t, q) \<Rightarrow>
        idle q \<and> dp_root q = dp_root p \<and> dp_charMap q = dp_charMap p \<and> dp_charMapSize q = dp_charMapSize p \<and> dp_position p \<le> dp_position q \<and> dp_ptr q \<le> n \<and>
        (case t of
           None \<Rightarrow> dp_rule q = dp_rule p \<and> dp_err_code q \<in> {DFA_ERR_SYNTAX, DFA_ERR_LP, DFA_ERR_RP}
         | Some t \<Rightarrow> dp_rule q = dp_rule p + 1 \<and> dp_err_code q = 0 \<and> dp_position p < dp_position q \<and> rule_tree p t q))"

lemma parse_end_spec:
  assumes "moved p q" "dp_err_code p = 0" "case t of None \<Rightarrow> True | Some t \<Rightarrow> tree_ok (dp_position p) t q"
  shows "parse_result p (length (dp_expr p)) (parse_end flag t q)"
proof -
  note f = moved_fields [OF assms(1)]
  have err: "parse_result p (length (dp_expr p)) (None, parse_error q)"
    using f assms(2) idle_env [OF f(1)] by (auto simp: parse_result_def parse_error_def idle_def DFA_ERR_SYNTAX_def DFA_ERR_LP_def DFA_ERR_RP_def)
  show ?thesis
  proof (cases "t \<noteq> None \<and> dp_lookahead q = 0")
    case False
    then have "parse_end flag t q = (None, parse_error q)" by (auto simp: parse_end_def split: option.split)
    then show ?thesis using err by simp
  next
    case True
    then obtain u where u: "t = Some u" "tree_ok (dp_position p) u q" using assms(3) by auto
    let ?acc = "T_POS (dp_position q + 1) (- (dp_rule p + 1)) (if flag then 0 else - (dp_rule p + 1))"
    have "parse_end flag t q = (Some (T_CAT u ?acc), q\<lparr>dp_rule := dp_rule p + 1, dp_position := dp_position q + 1\<rparr>)"
      using True u(1) f(3) by (simp add: parse_end_def pos_node_def new_pos_def Let_def)
    moreover have "rule_tree p (T_CAT u ?acc) (q\<lparr>dp_rule := dp_rule p + 1, dp_position := dp_position q + 1\<rparr>)"
      using u(2) f(6) by (fastforce simp: rule_tree_def tree_ok_def)
    ultimately show ?thesis using f assms(2) idle_env [OF f(1)] by (simp add: parse_result_def idle_def)
  qed
qed

lemma do_parse_spec:
  assumes "idle p"
  shows "\<exists>r. do_parse p s = Some r \<and> parse_result p (length s) r"
proof -
  let ?e = "takeWhile (\<lambda>c. c \<noteq> 0) s"
  let ?p = "p\<lparr>dp_err_code := 0, dp_expr := ?e, dp_ptr := 0, dp_inside_string := False\<rparr>"
  have env: "lex_env ?p" using assms set_takeWhileD [of 0 "\<lambda>c. c \<noteq> 0" s] by (auto simp: idle_def lex_env_def)
  have len: "length ?e \<le> length s" by (rule length_takeWhile_le)
  obtain q where q: "lex ?p = Some q" "lexed ?p q" "token_ok (dp_lookahead q) q" using lex_spec [OF env] by blast
  then have q': "moved ?p q" by (simp add: moved_def at_token_def lexed_def)
  obtain r where r: "(if dp_lookahead q = L_START then lex q else Some q) = Some r" "moved q r"
  proof (cases "dp_lookahead q = L_START")
    case True
    then show ?thesis using lex_step [OF lexed_env [OF q(2)]] that by (auto simp: token_defs)
  next
    case False
    then show ?thesis using moved_refl [OF moved_at [OF q']] that by simp
  qed
  have pr: "moved ?p r" by (rule moved_trans [OF q' r(2)])
  have "left r \<le> length ?e + 1" using moved_fields(5) [OF pr] by (auto simp: left_def rest_def)
  then have "4 * left r + 4 \<le> parse_fuel s" using len by (simp add: parse_fuel_def)
  from parse_body_spec [OF moved_at [OF r(2)] this] obtain t u where
    t: "parse_body (parse_fuel s) r = Some (t, u)" "moved r u" "case t of None \<Rightarrow> True | Some t \<Rightarrow> tree_ok (dp_position r) t u" by blast
  have "case t of None \<Rightarrow> True | Some t \<Rightarrow> tree_ok (dp_position ?p) t u"
    using t(3) moved_position [OF pr] by (fastforce simp: tree_ok_def split: option.splits)
  from parse_end_spec [OF moved_trans [OF pr t(2)] _ this, of "dp_lookahead q = L_START"]
  have "parse_result ?p (length ?e) (parse_end (dp_lookahead q = L_START) t u)" by simp
  then have "parse_result p (length s) (parse_end (dp_lookahead q = L_START) t u)"
    using len by (auto simp: parse_result_def rule_tree_def split: option.splits)
  moreover have "do_parse p s = Some (parse_end (dp_lookahead q = L_START) t u)" using q(1) r(1) t(1) by (simp add: do_parse_def Let_def)
  ultimately show ?thesis by blast
qed

section \<open>The tree of all patterns\<close>

definition dfa_ok :: "dfa \<Rightarrow> bool" where
  "dfa_ok d \<longleftrightarrow> (\<exists>p. d_parse_info d = Some p \<and> idle p \<and> parsed_ok p)"

lemma rule_tree_root:
  assumes "rule_tree p t q" "0 \<le> dp_rule p"
  shows "rule_root t" "rule_list t \<noteq> []" "\<And>q t' k. (q, t', k) \<in> set (rule_list t) \<Longrightarrow> k = dp_rule p + 1"
  using assms by (auto simp: rule_tree_def)

text \<open>What a call of \<^const>\<open>dfa_parse\<close> does: after an error the rules are the old ones, otherwise one more.\<close>

definition parse_step :: "dfa \<Rightarrow> nat \<Rightarrow> int \<times> nat \<times> dfa \<Rightarrow> bool" where
  "parse_step d n r \<longleftrightarrow>
     (case r of (rc, k, d') \<Rightarrow>
        rc \<in> {0, DFA_ERR_SYNTAX, DFA_ERR_LP, DFA_ERR_RP} \<and> k \<le> n \<and> dfa_ok d' \<and>
        (\<exists>p q. d_parse_info d = Some p \<and> d_parse_info d' = Some q \<and> dp_charMap q = dp_charMap p \<and> dp_charMapSize q = dp_charMapSize p \<and>
          (if rc = 0 then
             dp_rule q = dp_rule p + 1 \<and>
             (\<exists>acc t root. dp_root q = Some root \<and>
                rule_list root = (case dp_root p of None \<Rightarrow> [] | Some r \<Rightarrow> rule_list r) @ [(acc, t, dp_rule q)])
           else dp_rule q = dp_rule p \<and> dp_root q = dp_root p)))"

lemma dfa_parse_spec:
  assumes "dfa_ok d"
  shows "\<exists>r. dfa_parse d s = Some r \<and> parse_step d (length s) r"
proof -
  obtain p where p: "d_parse_info d = Some p" "idle p" "parsed_ok p" using assms by (auto simp: dfa_ok_def)
  obtain t q where q: "do_parse p s = Some (t, q)" "parse_result p (length s) (t, q)" using do_parse_spec [OF p(2), of s] by auto
  have bh: "bh_size (dp_charset q) = 255" using q(2) by (simp add: parse_result_def idle_def)
  show ?thesis
  proof (cases t)
    case None
    then have e: "dp_err_code q \<in> {DFA_ERR_SYNTAX, DFA_ERR_LP, DFA_ERR_RP}" "dp_rule q = dp_rule p" "dp_root q = dp_root p"
      "dp_position p \<le> dp_position q" "dp_ptr q \<le> length s" "idle q" "dp_charMap q = dp_charMap p" "dp_charMapSize q = dp_charMapSize p"
      using q(2) by (simp_all add: parse_result_def)
    then have nz: "dp_err_code q \<noteq> 0" by (auto simp: DFA_ERR_SYNTAX_def DFA_ERR_LP_def DFA_ERR_RP_def)
    have "parsed_ok q" using p(3) e(2-4) bh by (fastforce simp: parsed_ok_def split: option.splits)
    then have "parse_step d (length s) (dp_err_code q, dp_ptr q, d\<lparr>d_parse_info := Some q\<rparr>)"
      using e nz p(1) by (auto simp: parse_step_def dfa_ok_def)
    then show ?thesis using p(1) q(1) nz by (simp add: dfa_parse_def)
  next
    case (Some t')
    then have e: "dp_err_code q = 0" "dp_rule q = dp_rule p + 1" "dp_root q = dp_root p" "dp_position p < dp_position q" "dp_ptr q \<le> length s"
      "idle q" "rule_tree p t' q" "dp_charMap q = dp_charMap p" "dp_charMapSize q = dp_charMapSize p"
      using q(2) by (simp_all add: parse_result_def)
    let ?root = "case dp_root p of None \<Rightarrow> t' | Some r \<Rightarrow> T_OR r t'"
    let ?q = "q\<lparr>dp_root := Some ?root\<rparr>"
    have r0: "0 \<le> dp_rule p" "dp_rule p \<le> dp_position p" using p(3) by (simp_all add: parsed_ok_def)
    note rt = rule_tree_root [OF e(7) r0(1)]
    have t: "linear t'" "positions t' \<subseteq> {dp_position p<..dp_position q}" using e(7) by (auto simp: rule_tree_def)
    have "parsed_ok ?q"
    proof (cases "dp_root p")
      case None
      then show ?thesis using rt t bh r0 e(2,4) by (fastforce simp: parsed_ok_def)
    next
      case (Some r)
      then have r: "rule_root r" "linear r" "positions r \<subseteq> {0<..dp_position p}" "\<forall>(q, t, k) \<in> set (rule_list r). k \<le> dp_rule p"
        using p(3) by (simp_all add: parsed_ok_def)
      have "positions r \<inter> positions t' = {}" using r(3) t(2) by fastforce
      moreover have "positions r \<union> positions t' \<subseteq> {0<..dp_position q}" using r(3) t(2) e(4) r0 by fastforce
      moreover have "\<forall>(q, t, k) \<in> set (rule_list r @ rule_list t'). k \<le> dp_rule p + 1" using r(4) rt(3) by fastforce
      ultimately show ?thesis using Some rt(1) t(1) r(1,2) bh r0 e(2,4) by (simp add: parsed_ok_def)
    qed
    moreover have "idle ?q" using e(6) by (simp add: idle_def)
    ultimately have ok: "dfa_ok (d\<lparr>d_parse_info := Some ?q\<rparr>)" by (auto simp: dfa_ok_def)
    obtain u acc c1 where u: "t' = T_CAT u (T_POS acc (- (dp_rule p + 1)) c1)" using e(7) by (auto simp: rule_tree_def)
    then have "rule_list ?root = (case dp_root p of None \<Rightarrow> [] | Some r \<Rightarrow> rule_list r) @ [(acc, u, dp_rule q)]"
      using e(2) by (simp split: option.split)
    then have "parse_step d (length s) (0, dp_ptr q, d\<lparr>d_parse_info := Some ?q\<rparr>)"
      using ok p(1) e(2,5,8,9) by (auto simp: parse_step_def)
    then show ?thesis using p(1) q(1) e(1,3) Some by (simp add: dfa_parse_def)
  qed
qed


section \<open>A new automaton\<close>

lemma thompson_search: "cmap_search thompson_chars (\<lambda>_. False) 0 = Some 24"
  by code_simp

lemma thompson_table: "cmap_table (Some thompson_chars)"
  by (simp add: cmap_table_def thompson_chars_def token_defs)

definition no_newline :: bset where
  "no_newline = com_BSet ((replicate 16 0)[0 := 2 ^ 10])"

lemma no_newline_ok: "bset_ok 255 no_newline"
proof -
  have "bset_ok 255 (replicate 16 0)" using bv.empty_ok [of 255] by simp
  then have "bset_ok 255 (the (add_BSet (mk_BSetHandle 255 0) (replicate 16 0) 10))" using bv.add_ok [of 255 "replicate 16 0" 10 0] by simp
  moreover have "the (add_BSet (mk_BSetHandle 255 0) (replicate 16 0) 10) = (replicate 16 0)[0 := 2 ^ 10]"
    by (simp add: add_BSet_def mk_BSetHandle_def SET_BIT_def Let_def push_bit_eq_mult)
  ultimately show ?thesis by (simp add: no_newline_def com_BSet_ok)
qed

definition init_info :: dfa_parse_info where
  "init_info =
     \<lparr>dp_root = None, dp_position = 0, dp_rule = 0, dp_charset = snd (mk_BSet (mk_BSetHandle 255 20)), dp_anyset = no_newline,
      dp_charMap = Some thompson_chars, dp_charMapSize = 25, dp_look_ch = 0, dp_lookahead = 0, dp_look_chars = [],
      dp_err_code = 0, dp_inside_string = False, dp_expr = [], dp_ptr = 0, dp_cmap = None\<rparr>"

lemma init_handle: "bh_size (snd (mk_BSet (mk_BSetHandle 255 20))) = 255" "bh_wsize (snd (mk_BSet (mk_BSetHandle 255 20))) = 16"
  by (simp_all add: mk_BSet_def mk_BSetHandle_def Let_def)

lemma dfa_init_eq: "dfa_init = Some \<lparr>d_no_states = 0, d_states = None, d_state_info = None, d_parse_info = Some init_info\<rparr>"
proof -
  have len: "length thompson_chars = 25" by (simp add: thompson_chars_def)
  have "add_BSet (snd (mk_BSet (mk_BSetHandle 255 20))) (replicate 16 0) 10 = Some ((replicate 16 0)[0 := 2 ^ 10])"
    using init_handle(1) by (simp add: add_BSet_def SET_BIT_def push_bit_eq_mult)
  then show ?thesis
    using init_handle thompson_search len
    by (simp add: dfa_init_def dfa_parse_init_def dfa_parse_cmap_thompson_def dfa_parse_cmap_new_def init_info_def no_newline_def
        case_prod_beta Let_def res_BSet_def)
qed

lemma init_idle: "idle init_info" "parsed_ok init_info"
  using init_handle thompson_table no_newline_ok by (simp_all add: idle_def parsed_ok_def init_info_def cmap_ok_def)

lemma dfa_init_ok: "\<exists>d. dfa_init = Some d \<and> dfa_ok d"
  using dfa_init_eq init_idle by (auto simp: dfa_ok_def)

section \<open>The automaton that is built\<close>

lemma run_ok_count:
  assumes "run_ok root dfas"
  shows "dfs_no dfas = card (reached root)"
proof -
  have z: "0 < length (dfs_mem dfas)" "set (ds_set (dfs_mem dfas ! 0)) = firsts root" using assms(1) by (auto simp: run_ok_def)
  have "S \<in> set ` set (dsets dfas)" if S: "S \<in> reached root" for S
  proof -
    obtain w where w: "S = positions_after root w" "S \<noteq> {}" using S by (auto simp: reached_def)
    then obtain s where "dfa_run dfas 0 w = Some s" "s < length (dfs_mem dfas)" "set (ds_set (dfs_mem dfas ! s)) = S"
      using run_sets [OF assms(1) z(1), of w, unfolded z(2)] by (auto split: option.splits)
    then show ?thesis by force
  qed
  then have "set ` set (dsets dfas) = reached root" using assms(1) by (auto simp: run_ok_def)
  moreover have "inj_on set (set (dsets dfas))" using assms(1) by (auto simp: run_ok_def inj_on_def intro: dset_unique)
  ultimately have "card (reached root) = card (set (dsets dfas))" using card_image by metis
  then show ?thesis using distinct_card [of "dsets dfas"] assms(1) by (simp add: run_ok_def)
qed

lemma mkstate_spec:
  assumes "dfa_ok d" "d_parse_info d = Some p" "dp_root p = Some root" "dp_position p < 16000" "card (reached root) \<le> 32768"
  shows "\<exists>d' dfas. dfa_mkstate d = Some d' \<and> d_state_info d' = Some dfas \<and> d_states d' = dfs_sortarray dfas \<and>
    d_no_states d' = card (reached root) \<and> (\<forall>w. dfa_rule_of dfas w = least_rule (rule_matches root w))"
proof -
  have p: "parsed_ok p" using assms(1,2) by (auto simp: dfa_ok_def)
  then have root: "rule_root root" "linear root" using assms(3) by (simp_all add: parsed_ok_def)
  obtain dfas where d: "mk_dfas p POSET_CHUNK = Some dfas" "run_ok root dfas" using mk_dfas_spec [OF p assms(3-5)] by blast
  then show ?thesis using assms(2) run_ok_rule [OF d(2) root] run_ok_count [OF d(2)] by (simp add: dfa_mkstate_def)
qed

section \<open>The properties of the component\<close>

text \<open>C5: The automaton that is built from the parsed rules returns, for every text, the least number of a rule that matches it, or 0
  when none does: the deterministic automaton made by the subset construction is equivalent to the trees of the rules. It has
  exactly one state for every set of positions that some text leads to. The construction returns for every tree of the parser of
  less than 16000 positions with at most 32768 states.\<close>

theorem dfa_mkstate_least_rule:
  assumes "dfa_ok d" "d_parse_info d = Some p" "dp_root p = Some root" "dp_position p < 16000" "card (reached root) \<le> 32768"
  shows "\<exists>d' dfas. dfa_mkstate d = Some d' \<and> d_state_info d' = Some dfas \<and> d_states d' = dfs_sortarray dfas \<and>
    d_no_states d' = card (reached root) \<and> (\<forall>w. dfa_rule_of dfas w = least_rule (rule_matches root w))"
  by (rule mkstate_spec [OF assms])

lemma card_reached: "card (reached t) \<le> 2 ^ card (positions t)"
proof -
  have "reached t \<subseteq> Pow (positions t)" using positions_after_subset [of t] by (auto simp: reached_def)
  then show ?thesis using card_mono [of "Pow (positions t)" "reached t"] finite_ranges(2) [of t] by (simp add: card_Pow)
qed

definition one_rule :: tnode where
  "one_rule = T_CAT (T_POS 1 97 97) (T_POS 2 (- 1) (- 1))"

definition one_info :: dfa_parse_info where
  "one_info = init_info\<lparr>dp_root := Some one_rule, dp_position := 2, dp_rule := 1\<rparr>"

lemma one_ok: "dfa_ok \<lparr>d_no_states = 0, d_states = None, d_state_info = None, d_parse_info = Some one_info\<rparr>"
  using init_idle by (auto simp: dfa_ok_def idle_def parsed_ok_def one_info_def one_rule_def char_tree_def init_info_def)

lemma one_least: "least_rule (rule_matches one_rule [97]) = 1" "least_rule (rule_matches one_rule [98]) = 0"
proof -
  have "rule_matches one_rule [97] = {1}" "rule_matches one_rule [98] = {}"
    by (auto simp: rule_matches_def one_rule_def in_range_def)
  then show "least_rule (rule_matches one_rule [97]) = 1" "least_rule (rule_matches one_rule [98]) = 0"
    by (simp_all add: least_rule_def)
qed

lemma dfa_mkstate_least_rule_witness:
  "\<exists>d' dfas. dfa_mkstate \<lparr>d_no_states = 0, d_states = None, d_state_info = None, d_parse_info = Some one_info\<rparr> = Some d' \<and>
    d_state_info d' = Some dfas \<and> dfa_rule_of dfas [97] = 1 \<and> dfa_rule_of dfas [98] = 0"
proof -
  have "card (positions one_rule) = 2" by (simp add: one_rule_def)
  then have c: "card (reached one_rule) \<le> 32768" using card_reached [of one_rule] by simp
  have p: "dp_root one_info = Some one_rule" "dp_position one_info < 16000" by (simp_all add: one_info_def)
  from dfa_mkstate_least_rule [OF one_ok _ p c] show ?thesis using one_least by auto
qed

text \<open>C6: Parsing a pattern always ends, whatever characters it holds: the recursive descent never uses up its fuel and never reads or
  writes outside the tables. It returns 0 or one of the three error codes, and the place it stopped at lies within the pattern.\<close>

theorem dfa_parse_returns:
  assumes "dfa_ok d"
  shows "\<exists>rc n d'. dfa_parse d s = Some (rc, n, d') \<and> rc \<in> {0, DFA_ERR_SYNTAX, DFA_ERR_LP, DFA_ERR_RP} \<and> n \<le> length s"
  using dfa_parse_spec [OF assms, of s] by (fastforce simp: parse_step_def)

lemma dfa_parse_returns_witness:
  "\<exists>rc n d'. dfa_parse \<lparr>d_no_states = 0, d_states = None, d_state_info = None, d_parse_info = Some one_info\<rparr> [40, 97, 91, 92] = Some (rc, n, d') \<and>
    rc \<in> {0, DFA_ERR_SYNTAX, DFA_ERR_LP, DFA_ERR_RP} \<and> n \<le> length ([40, 97, 91, 92] :: byte list)"
  by (rule dfa_parse_returns [OF one_ok])

section \<open>What a client can reach\<close>

lemma thompson_pairs:
  "\<exists>ps. thompson_chars = pair_table ps [] \<and> pairs_ok ps \<and> length ps = 12 \<and> map_of ps 32 = Some 0 \<and> map_of ps 47 = None"
proof (intro exI conjI)
  let ?ps = "[(42, L_CLOS0), (43, L_CLOS1), (124, L_ALT), (94, L_START), (36, L_END), (63, L_QUEST), (46, L_ANY), (40, L_LP), (41, L_RP),
    (32, 0), (9, 0), (10, 0)] :: (int \<times> int) list"
  show "thompson_chars = pair_table ?ps []" by (simp add: thompson_chars_def)
  show "pairs_ok ?ps" by (simp add: token_defs)
  show "length ?ps = 12" "map_of ?ps 32 = Some 0" "map_of ?ps 47 = None" by simp_all
qed

lemma init_chars: "chars_ok init_info" "room init_info = 1" "operators init_info 47 = None"
proof -
  obtain ps where ps: "thompson_chars = pair_table ps []" "pairs_ok ps" "length ps = 12" "map_of ps 47 = None" using thompson_pairs by blast
  have i: "dp_charMap init_info = Some (pair_table ps [])" "dp_charMapSize init_info = length (pair_table ps [])"
    using ps(1) length_pair_table [of ps "[]"] unfolding ps(3) by (simp_all add: init_info_def)
  show "chars_ok init_info" unfolding chars_ok_def using i ps(2) by blast
  show "room init_info = 1" using room_table [OF i(1) ps(2) i(2)] by simp
  show "operators init_info 47 = None" using operators_table [OF i(1) ps(2)] ps(4) by simp
qed

text \<open>The operations of the interface, in any order; the table given to \<^const>\<open>dfa_parse_cmap_new\<close> is a list of pairs with
  different characters that ends with a zero. After \<^const>\<open>dfa_mkstate\<close> there is no parser any more.\<close>

inductive client_dfa :: "dfa \<Rightarrow> bool" where
  init: "dfa_init = Some d \<Longrightarrow> client_dfa d"
| cmap: "client_dfa d \<Longrightarrow> cmap_ok c \<Longrightarrow> dfa_set_cmap d c = Some d' \<Longrightarrow> client_dfa d'"
| anyset: "client_dfa d \<Longrightarrow> dfa_anyset_includes_nl d = Some d' \<Longrightarrow> client_dfa d'"
| del: "client_dfa d \<Longrightarrow> d_parse_info d = Some p \<Longrightarrow> f \<noteq> 0 \<Longrightarrow> dfa_parse_cmap_del p f = Some p' \<Longrightarrow>
    client_dfa (d\<lparr>d_parse_info := Some p'\<rparr>)"
| add: "client_dfa d \<Longrightarrow> d_parse_info d = Some p \<Longrightarrow> f \<noteq> 0 \<Longrightarrow> t \<noteq> L_CHARS \<Longrightarrow> dfa_parse_cmap_add p f t = Some p' \<Longrightarrow>
    client_dfa (d\<lparr>d_parse_info := Some p'\<rparr>)"
| clean: "client_dfa d \<Longrightarrow> d_parse_info d = Some p \<Longrightarrow> dfa_parse_cmap_clean p = Some p' \<Longrightarrow> client_dfa (d\<lparr>d_parse_info := Some p'\<rparr>)"
| table: "client_dfa d \<Longrightarrow> d_parse_info d = Some p \<Longrightarrow> pairs_ok ps \<Longrightarrow> dfa_parse_cmap_new p (pair_table ps zs) = Some p' \<Longrightarrow>
    client_dfa (d\<lparr>d_parse_info := Some p'\<rparr>)"
| mkstate: "client_dfa d \<Longrightarrow> dfa_mkstate d = Some d' \<Longrightarrow> client_dfa d'"
| parse: "client_dfa d \<Longrightarrow> dfa_parse d s = Some (rc, n, d') \<Longrightarrow> client_dfa d'"

inductive_cases client_cases: "client_dfa d"

definition client_ok :: "dfa \<Rightarrow> bool" where
  "client_ok d \<longleftrightarrow> dfa_ok d \<and> (\<exists>p. d_parse_info d = Some p \<and> chars_ok p)"

definition client_done :: "dfa \<Rightarrow> bool" where
  "client_done d \<longleftrightarrow> d_parse_info d = None \<and> d_state_info d \<noteq> None"

lemma parsed_ok_update [simp]:
  "parsed_ok (p\<lparr>dp_charMap := m\<rparr>) = parsed_ok p" "parsed_ok (p\<lparr>dp_charMapSize := n\<rparr>) = parsed_ok p" "parsed_ok (p\<lparr>dp_cmap := c\<rparr>) = parsed_ok p" "parsed_ok (p\<lparr>dp_anyset := s\<rparr>) = parsed_ok p"
  by (cases "dp_root p"; simp add: parsed_ok_def)+

lemma client_ok_charMap:
  assumes "client_ok d" "d_parse_info d = Some p" "chars_ok (p\<lparr>dp_charMap := m\<rparr>)"
  shows "client_ok (d\<lparr>d_parse_info := Some (p\<lparr>dp_charMap := m\<rparr>)\<rparr>)"
  using assms chars_ok_table [OF assms(3)] by (auto simp: client_ok_def dfa_ok_def idle_def)

lemma clean_client_ok:
  assumes "client_ok d" "d_parse_info d = Some p"
  shows "\<exists>p'. dfa_parse_cmap_clean p = Some p' \<and> client_ok (d\<lparr>d_parse_info := Some p'\<rparr>)"
  using cmap_clean_spec [of p] client_ok_charMap [OF assms] assms by (auto simp: client_ok_def)

lemma table_client_ok:
  assumes "client_ok d" "d_parse_info d = Some p" "pairs_ok ps"
  shows "\<exists>p'. dfa_parse_cmap_new p (pair_table ps zs) = Some p' \<and> client_ok (d\<lparr>d_parse_info := Some p'\<rparr>)"
proof -
  have p: "chars_ok p" "idle p" "parsed_ok p" using assms(1,2) by (auto simp: client_ok_def dfa_ok_def)
  obtain m n where m: "dfa_parse_cmap_new p (pair_table ps zs) = Some (p\<lparr>dp_charMap := Some m, dp_charMapSize := n\<rparr>)"
    "chars_ok (p\<lparr>dp_charMap := Some m, dp_charMapSize := n\<rparr>)" using cmap_new_spec [OF p(1) assms(3), of zs] by blast
  then have "idle (p\<lparr>dp_charMap := Some m, dp_charMapSize := n\<rparr>)" using p(2) chars_ok_table [OF m(2)] by (simp add: idle_def)
  moreover have "parsed_ok (p\<lparr>dp_charMap := Some m, dp_charMapSize := n\<rparr>)" using p(3) by simp
  ultimately show ?thesis using m by (simp add: client_ok_def dfa_ok_def)
qed

lemma mkstate_done: "dfa_mkstate d = Some d' \<Longrightarrow> client_done d'"
  by (auto simp: dfa_mkstate_def client_done_def split: bind_splits)

lemma done_undefined:
  assumes "client_done d"
  shows "dfa_parse d s = None" "dfa_set_cmap d c = None" "dfa_anyset_includes_nl d = None" "dfa_get_last_rule d = None" "dfa_mkstate d = None"
  using assms by (simp_all add: client_done_def dfa_parse_def dfa_set_cmap_def dfa_anyset_includes_nl_def dfa_get_last_rule_def dfa_mkstate_def)

lemma delete_defined: "dfa_delete (Some d) = Some None"
  by (auto simp: dfa_delete_def rm_DFA_states_def split: option.split)

lemma parse_client_ok:
  assumes "client_ok d"
  shows "\<exists>rc n d'. dfa_parse d s = Some (rc, n, d') \<and> client_ok d'"
proof -
  obtain p where p: "dfa_ok d" "d_parse_info d = Some p" "chars_ok p" using assms by (auto simp: client_ok_def)
  obtain rc n d' where r: "dfa_parse d s = Some (rc, n, d')" "parse_step d (length s) (rc, n, d')" using dfa_parse_spec [OF p(1), of s] by auto
  then obtain q where q: "dfa_ok d'" "d_parse_info d' = Some q" "dp_charMap q = dp_charMap p" "dp_charMapSize q = dp_charMapSize p"
    using p(2) by (auto simp: parse_step_def)
  then have "chars_ok q" using p(3) by (simp add: chars_ok_def)
  then show ?thesis using q r(1) by (auto simp: client_ok_def)
qed

lemma anyset_client_ok:
  assumes "client_ok d"
  shows "\<exists>d'. dfa_anyset_includes_nl d = Some d' \<and> client_ok d'"
proof -
  obtain p where p: "d_parse_info d = Some p" "idle p" "parsed_ok p" "chars_ok p" using assms by (auto simp: client_ok_def dfa_ok_def)
  have "bh_size (dp_charset p) = 255" "bset_ok 255 (dp_anyset p)" using p(2) by (simp_all add: idle_def)
  moreover from this have "add_BSet (dp_charset p) (dp_anyset p) 10 = add_BSet (mk_BSetHandle 255 0) (dp_anyset p) 10"
    by (simp add: add_BSet_def mk_BSetHandle_def)
  ultimately obtain s where "add_BSet (dp_charset p) (dp_anyset p) 10 = Some s" "bset_ok 255 s"
    using bv.add_ok [of 255 "dp_anyset p" 10 0] by (auto simp: add_BSet_def split: if_splits)
  then show ?thesis using p by (auto simp: dfa_anyset_includes_nl_def client_ok_def dfa_ok_def idle_def chars_ok_def)
qed

lemma client_cmap_ok:
  assumes "client_ok d" "cmap_ok c"
  shows "\<exists>d'. dfa_set_cmap d c = Some d' \<and> client_ok d'"
proof -
  obtain p where p: "d_parse_info d = Some p" "idle p" "parsed_ok p" "chars_ok p" using assms(1) by (auto simp: client_ok_def dfa_ok_def)
  have "chars_ok (p\<lparr>dp_cmap := c\<rparr>)" "idle (p\<lparr>dp_cmap := c\<rparr>)" using p(2,4) assms(2) by (simp_all add: chars_ok_def idle_def)
  then show ?thesis using p by (auto simp: client_ok_def dfa_set_cmap_def dfa_ok_def)
qed

lemma client_dfa_ok: "client_dfa d \<Longrightarrow> client_ok d \<or> client_done d"
proof (induction rule: client_dfa.induct)
  case (init d)
  then have "d = \<lparr>d_no_states = 0, d_states = None, d_state_info = None, d_parse_info = Some init_info\<rparr>" unfolding dfa_init_eq by simp
  then show ?case using init_idle init_chars(1) by (auto simp: client_ok_def dfa_ok_def)
next
  case (cmap d c d')
  then show ?case using client_cmap_ok [of d c] done_undefined(2) [of d c] by auto
next
  case (anyset d d')
  then show ?case using anyset_client_ok [of d] done_undefined(3) [of d] by auto
next
  case (del d p f p')
  then have "client_ok d" by (auto simp: client_done_def)
  moreover from this have "chars_ok p" using del by (auto simp: client_ok_def)
  ultimately show ?case using cmap_del_spec [of p f] del client_ok_charMap by auto
next
  case (add d p f t p')
  then have "client_ok d" by (auto simp: client_done_def)
  moreover from this have "chars_ok p" using add by (auto simp: client_ok_def)
  ultimately show ?case using cmap_add_spec [of p f t] add client_ok_charMap by (auto split: if_splits)
next
  case (clean d p p')
  then show ?case using clean_client_ok [of d p] by (auto simp: client_done_def)
next
  case (table d p ps zs p')
  then show ?case using table_client_ok [of d p ps zs] by (auto simp: client_done_def)
next
  case (mkstate d d')
  then show ?case using mkstate_done by blast
next
  case (parse d s rc n d')
  then show ?case using parse_client_ok [of d s] done_undefined(1) [of d s] by auto
qed

lemma client_mkstate:
  assumes "client_ok d" "d_parse_info d = Some p"
  shows "case dp_root p of None \<Rightarrow> dfa_mkstate d = None
    | Some root \<Rightarrow> dp_position p < 16000 \<and> card (reached root) \<le> 32768 \<longrightarrow> (\<exists>d'. dfa_mkstate d = Some d' \<and> client_done d')"
proof (cases "dp_root p")
  case None
  then show ?thesis using assms(2) by (simp add: dfa_mkstate_def mk_dfas_def bind_eq_None_conv)
next
  case (Some root)
  have "dfa_ok d" using assms(1) by (simp add: client_ok_def)
  from mkstate_spec [OF this assms(2) Some] show ?thesis using Some mkstate_done [of d] by auto
qed

text \<open>C7: A client may open an automaton, set the character map, add the line feed to the dot, empty, replace and change the table of
  operators, parse patterns with or without errors and build the states, in any order. Before the states are built the automaton is
  well formed (the rules form one tree with different positions, the sets have their size, the table of operators ends within its
  array), and parsing any pattern, setting a map (one that always moves on and
  gives strings that start below 128), adding the line feed, emptying the table, replacing it by any terminated table of
  pairs, removing an operator, asking for the last rule and deleting are defined: they read and write within their tables, end, and
  leave the automaton well formed. Adding an operator (a character other than zero, a token other than \<open>L_CHARS\<close>) is defined exactly when the character is in the table already or three entries
  of the array are free. Building the states trips an assertion while no pattern has been parsed; otherwise it is defined for less than 16000 positions
  with at most 32768 sets of positions, and no parser is left. After that only deleting is defined, the other operations would use a parser that is not there.\<close>

theorem dfa_client_type_safe:
  assumes "client_dfa d"
  shows "case d_parse_info d of
      None \<Rightarrow> client_done d \<and> dfa_delete (Some d) = Some None \<and> dfa_get_last_rule d = None \<and> dfa_mkstate d = None \<and>
        dfa_anyset_includes_nl d = None \<and> (\<forall>s c. dfa_parse d s = None \<and> dfa_set_cmap d c = None)
    | Some p \<Rightarrow> client_ok d \<and> dfa_delete (Some d) = Some None \<and> dfa_get_last_rule d = Some (dp_rule p) \<and>
        (\<forall>s. \<exists>rc n d'. dfa_parse d s = Some (rc, n, d') \<and> client_ok d') \<and>
        (\<forall>c. cmap_ok c \<longrightarrow> (\<exists>d'. dfa_set_cmap d c = Some d' \<and> client_ok d')) \<and>
        (\<exists>d'. dfa_anyset_includes_nl d = Some d' \<and> client_ok d') \<and>
        (\<exists>p'. dfa_parse_cmap_clean p = Some p' \<and> client_ok (d\<lparr>d_parse_info := Some p'\<rparr>)) \<and>
        (\<forall>ps zs. pairs_ok ps \<longrightarrow> (\<exists>p'. dfa_parse_cmap_new p (pair_table ps zs) = Some p' \<and> client_ok (d\<lparr>d_parse_info := Some p'\<rparr>))) \<and>
        (\<forall>f. f \<noteq> 0 \<longrightarrow> (\<exists>p'. dfa_parse_cmap_del p f = Some p' \<and> client_ok (d\<lparr>d_parse_info := Some p'\<rparr>))) \<and>
        (\<forall>f t. f \<noteq> 0 \<and> t \<noteq> L_CHARS \<longrightarrow>
          (if f \<in> dom (operators p) \<or> 3 \<le> room p
           then \<exists>p'. dfa_parse_cmap_add p f t = Some p' \<and> client_ok (d\<lparr>d_parse_info := Some p'\<rparr>)
           else dfa_parse_cmap_add p f t = None)) \<and>
        (case dp_root p of None \<Rightarrow> dfa_mkstate d = None
          | Some root \<Rightarrow> dp_position p < 16000 \<and> card (reached root) \<le> 32768 \<longrightarrow> (\<exists>d'. dfa_mkstate d = Some d' \<and> client_done d'))"
proof (cases "d_parse_info d")
  case None
  then have "client_done d" using client_dfa_ok [OF assms] by (auto simp: client_ok_def)
  then show ?thesis using None done_undefined [of d] delete_defined by simp
next
  case (Some p)
  then have ok: "client_ok d" using client_dfa_ok [OF assms] by (auto simp: client_done_def)
  then have c: "chars_ok p" using Some by (auto simp: client_ok_def)
  have del: "\<exists>p'. dfa_parse_cmap_del p f = Some p' \<and> client_ok (d\<lparr>d_parse_info := Some p'\<rparr>)" if "f \<noteq> 0" for f
    using cmap_del_spec [OF c that] client_ok_charMap [OF ok Some] by blast
  have add: "if f \<in> dom (operators p) \<or> 3 \<le> room p
      then \<exists>p'. dfa_parse_cmap_add p f t = Some p' \<and> client_ok (d\<lparr>d_parse_info := Some p'\<rparr>)
      else dfa_parse_cmap_add p f t = None" if "f \<noteq> 0" "t \<noteq> L_CHARS" for f t
    using cmap_add_spec [OF c, of f t] that client_ok_charMap [OF ok Some] by (simp split: if_splits) blast+
  have last: "dfa_get_last_rule d = Some (dp_rule p)" using Some by (simp add: dfa_get_last_rule_def)
  show ?thesis unfolding Some option.case
    by (intro conjI allI impI ok delete_defined last parse_client_ok [OF ok] client_cmap_ok [OF ok] anyset_client_ok [OF ok] clean_client_ok [OF ok Some]
        table_client_ok [OF ok Some] del add client_mkstate [OF ok Some]; simp)
qed

definition init_dfa :: dfa where
  "init_dfa = \<lparr>d_no_states = 0, d_states = None, d_state_info = None, d_parse_info = Some init_info\<rparr>"

lemma init_client: "client_dfa init_dfa"
  by (rule client_dfa.init) (simp add: dfa_init_eq init_dfa_def)

lemma init_dfa_info: "d_parse_info init_dfa = Some init_info"
  by (simp add: init_dfa_def)

lemma dfa_client_type_safe_witness:
  "client_ok init_dfa \<and> (\<exists>rc n d'. dfa_parse init_dfa [91, 93, 42] = Some (rc, n, d') \<and> client_ok d') \<and> dfa_mkstate init_dfa = None"
proof -
  have "dp_root init_info = None" by (simp add: init_info_def)
  then show ?thesis using dfa_client_type_safe [OF init_client, unfolded init_dfa_info option.case] by auto
qed

text \<open>C8: The array of operators implements a map from characters to tokens. Removing a character takes it out of the map. Adding one
  changes or extends the map when the character is there already or three entries of the array are free; otherwise the call writes
  behind the end of the array, because it is made larger only when not even the character fits. No operator can be added to the
  table of a new automaton.\<close>

theorem dfa_cmap_operations:
  assumes "chars_ok p" "f \<noteq> 0" "t \<noteq> L_CHARS"
  shows "(\<exists>p'. dfa_parse_cmap_del p f = Some p' \<and> chars_ok p' \<and> operators p' = (operators p)(f := None)) \<and>
    (if f \<in> dom (operators p) \<or> 3 \<le> room p
     then \<exists>p'. dfa_parse_cmap_add p f t = Some p' \<and> chars_ok p' \<and> operators p' = (operators p)(f \<mapsto> t)
     else dfa_parse_cmap_add p f t = None) \<and>
    chars_ok init_info \<and> room init_info = 1"
  using cmap_del_spec [OF assms(1,2)] cmap_add_spec [OF assms] init_chars(1,2) by (auto split: if_splits)

lemma dfa_cmap_operations_witness:
  "(\<exists>p'. dfa_parse_cmap_del init_info 47 = Some p' \<and> chars_ok p' \<and> operators p' 47 = None) \<and> dfa_parse_cmap_add init_info 47 0 = None"
proof -
  have "(0 :: int) \<noteq> L_CHARS" by (simp add: token_defs)
  from dfa_cmap_operations [OF init_chars(1) _ this, of 47] show ?thesis using init_chars(2,3) by (auto split: if_splits)
qed

end
