(* ===== verification/Dfa_Print.thy ===== *)
theory Dfa_Print
  imports Dfa_Theorems
begin

text \<open>
  Regular expressions, their language and their spelling with the operators of \<^verbatim>\<open>dfa_parse_cmap_thompson\<close>, and the proof
  that the parser reads a spelled expression as a tree with the same language.
\<close>

section \<open>Expressions\<close>

datatype rx =
    R_Byte byte
  | R_Any
  | R_Seq rx rx
  | R_Alt rx rx
  | R_Star rx
  | R_Plus rx
  | R_Opt rx

text \<open>The dot stands for the members of a set; the parser reads the empty set as the empty word.\<close>

definition any_words :: "bset \<Rightarrow> byte list set" where
  "any_words s = (if bset_abs s = {} then {[]} else byte_words (\<lambda>c. nat c \<in> bset_abs s))"

primrec rx_lang :: "bset \<Rightarrow> rx \<Rightarrow> byte list set" where
  "rx_lang s (R_Byte c) = {[c]}"
| "rx_lang s R_Any = any_words s"
| "rx_lang s (R_Seq a b) = lconc (rx_lang s a) (rx_lang s b)"
| "rx_lang s (R_Alt a b) = rx_lang s a \<union> rx_lang s b"
| "rx_lang s (R_Star a) = lstar (rx_lang s a)"
| "rx_lang s (R_Plus a) = lplus (rx_lang s a)"
| "rx_lang s (R_Opt a) = rx_lang s a \<union> {[]}"

primrec rx_ok :: "rx \<Rightarrow> bool" where
  "rx_ok (R_Byte c) \<longleftrightarrow> c \<noteq> 0"
| "rx_ok R_Any \<longleftrightarrow> True"
| "rx_ok (R_Seq a b) \<longleftrightarrow> rx_ok a \<and> rx_ok b"
| "rx_ok (R_Alt a b) \<longleftrightarrow> rx_ok a \<and> rx_ok b"
| "rx_ok (R_Star a) \<longleftrightarrow> rx_ok a"
| "rx_ok (R_Plus a) \<longleftrightarrow> rx_ok a"
| "rx_ok (R_Opt a) \<longleftrightarrow> rx_ok a"

text \<open>A backslash takes away the meaning of most characters, and gives one to a few letters.\<close>

definition spell_byte :: "byte \<Rightarrow> byte list" where
  "spell_byte c =
     (if c = 1 then [1, 1] else if c = 10 then [92, 110] else if c = 13 then [92, 114] else if c = 9 then [92, 116]
      else if c \<in> {110, 116, 114, 102} then [c] else [92, c])"

primrec spell :: "rx \<Rightarrow> byte list" where
  "spell (R_Byte c) = spell_byte c"
| "spell R_Any = [46]"
| "spell (R_Seq a b) = 40 # spell a @ spell b @ [41]"
| "spell (R_Alt a b) = 40 # spell a @ 124 # spell b @ [41]"
| "spell (R_Star a) = 40 # spell a @ [42, 41]"
| "spell (R_Plus a) = 40 # spell a @ [43, 41]"
| "spell (R_Opt a) = 40 # spell a @ [63, 41]"

section \<open>Tokens of a text\<close>

lemma byte_iff: "uint (c :: byte) = n \<longleftrightarrow> 0 \<le> n \<and> n < 256 \<and> c = word_of_int n"
proof
  assume "uint c = n"
  then show "0 \<le> n \<and> n < 256 \<and> c = word_of_int n" using uint_lt2p [of c] by (auto simp flip: word_of_int_uint)
next
  assume "0 \<le> n \<and> n < 256 \<and> c = word_of_int n"
  then show "uint c = n" by (simp add: unsigned_of_int take_bit_int_eq_self)
qed

definition text_left :: "dfa_parse_info \<Rightarrow> byte list" where
  "text_left p = drop (dp_ptr p) (dp_expr p)"

definition plain :: "dfa_parse_info \<Rightarrow> bool" where
  "plain p \<longleftrightarrow> lex_env p \<and> dp_charMap p = Some thompson_chars \<and> dp_cmap p = None \<and> \<not> dp_inside_string p"

lemma text_Cons:
  assumes "text_left p = c # r"
  shows "dp_ptr p < length (dp_expr p)" "dp_expr p ! dp_ptr p = c" "text_left (advance p) = r"
proof -
  show l: "dp_ptr p < length (dp_expr p)" using assms by (auto simp: text_left_def intro: ccontr)
  then show "dp_expr p ! dp_ptr p = c" "text_left (advance p) = r"
    using assms Cons_nth_drop_Suc [OF l] by (simp_all add: text_left_def advance_def)
qed

lemma cur_char_Cons: "text_left p = c # r \<Longrightarrow> cur_char p = Some (uint c)"
  using text_Cons [of p c r] by (simp add: cur_char_def)

lemma text_update [simp]:
  "text_left (p\<lparr>dp_look_ch := x\<rparr>) = text_left p" "text_left (p\<lparr>dp_lookahead := y\<rparr>) = text_left p"
  by (simp_all add: text_left_def)

lemma plain_update [simp]:
  "plain (p\<lparr>dp_look_ch := x\<rparr>) = plain p" "plain (p\<lparr>dp_lookahead := y\<rparr>) = plain p"
  by (simp_all add: plain_def)

lemma plain_advance: "plain p \<Longrightarrow> text_left p = c # r \<Longrightarrow> plain (advance p)"
  using lexed_env [OF lexed_advance, of p] text_Cons(1) [of p c r] by (simp add: plain_def advance_def)

text \<open>An operator, or another unescaped character.\<close>

lemma nextchar_plain: "text_left p = c # r \<Longrightarrow> uint c \<noteq> 92 \<Longrightarrow> c \<noteq> 0 \<Longrightarrow> nextchar p = Some (uint c, False, advance p)"
  using cur_char_Cons [of p c r] by (simp add: nextchar_def byte_iff)

lemma nextchar_escape:
  "text_left p = 92 # c # r \<Longrightarrow> c \<notin> {0, 10, 13} \<Longrightarrow> nextchar p = Some (escaped_char (uint c), True, advance (advance p))"
proof -
  assume t: "text_left p = 92 # c # r" and c: "c \<notin> {0, 10, 13}"
  have "uint c \<noteq> 0 \<and> uint c \<noteq> 10 \<and> uint c \<noteq> 13" using c by (simp add: byte_iff)
  then show ?thesis using cur_char_Cons [OF t] cur_char_Cons [OF text_Cons(3) [OF t]] by (simp add: nextchar_def Let_def)
qed

text \<open>The token of the text is at hand, and the rest of the text is left.\<close>

definition token_at :: "dfa_parse_info \<Rightarrow> int \<Rightarrow> byte list \<Rightarrow> bool" where
  "token_at q t r \<longleftrightarrow> plain q \<and> dp_lookahead q = t \<and> text_left q = r"

lemma lex_operator:
  assumes "plain p" "text_left p = c # r" "charmap_find thompson_chars (uint c) = Some (Some t)" "t \<noteq> 0" "c \<notin> {0, 34, 91, 92}"
  shows "\<exists>q. lex p = Some q \<and> token_at q t r"
proof -
  have c: "uint c \<noteq> 0 \<and> uint c \<noteq> 34 \<and> uint c \<noteq> 91 \<and> uint c \<noteq> 92" using assms(5) by (simp add: byte_iff)
  have "lex_sub p = Some (t, (advance p)\<lparr>dp_look_ch := uint c\<rparr>)"
    using nextchar_plain [OF assms(2)] c assms(1,3-5) by (subst lex_sub.simps) (simp add: Let_def plain_def advance_def)
  then show ?thesis using plain_advance [OF assms(1,2)] text_Cons(3) [OF assms(2)] by (simp add: Dfa_Parse.lex_def token_at_def)
qed

lemma lex_end: "plain p \<Longrightarrow> text_left p = [] \<Longrightarrow> \<exists>q. lex p = Some q \<and> token_at q 0 []"
proof -
  assume p: "plain p" "text_left p = []"
  then have "cur_char p = Some 0" by (auto simp: text_left_def cur_char_def plain_def lex_env_def)
  then have "lex_sub p = Some (0, p\<lparr>dp_look_ch := 0\<rparr>)" by (subst lex_sub.simps) (simp add: nextchar_def Let_def)
  then show ?thesis using p by (simp add: Dfa_Parse.lex_def token_at_def)
qed

lemma map_l_char_last:
  assumes "plain q" "dp_ptr q = Suc i" "i < length (dp_expr q)" "dp_expr q ! i \<noteq> 1"
  shows "map_l_char q = Some (L_CHAR, q)"
proof -
  obtain c where "cur_char q = Some c" using cur_char_spec [of q] assms(1) by (auto simp: plain_def)
  then show ?thesis using assms by (simp add: map_l_char_def plain_def Let_def)
qed

lemma lex_byte:
  assumes "plain p" "text_left p = spell_byte c @ r" "c \<noteq> 0"
  shows "\<exists>q. lex p = Some q \<and> token_at q L_CHAR r \<and> dp_look_ch q = uint c"
proof -
  have lexI: "\<exists>q. lex p = Some q \<and> token_at q L_CHAR r \<and> dp_look_ch q = uint c"
    if "lex_sub p = Some (L_CHAR, q)" "plain q" "text_left q = r" "dp_look_ch q = uint c" for q
    using that by (simp add: Dfa_Parse.lex_def token_at_def)
  consider (one) "c = 1" | (letter) "c \<in> {110, 116, 114, 102}" | (escape) e where "spell_byte c = [92, e]" "escaped_char (uint e) = uint c" "e \<notin> {0, 1, 10, 13}"
  proof (cases "c \<in> {1, 9, 10, 13, 110, 116, 114, 102}")
    case True
    then show thesis using that by (auto simp: spell_byte_def escaped_char_def)
  next
    case False
    then have "escaped_char (uint c) = uint c" by (auto simp: escaped_char_def byte_iff)
    then show thesis using that(3) [of c] False assms(3) by (auto simp: spell_byte_def)
  qed
  then show ?thesis
  proof cases
    case one
    then have t: "text_left p = 1 # 1 # r" using assms(2) by (simp add: spell_byte_def)
    let ?q = "(advance p)\<lparr>dp_look_ch := 1\<rparr>"
    have q: "plain ?q" "text_left ?q = 1 # r" using plain_advance [OF assms(1) t] text_Cons(3) [OF t] by simp_all
    note l = text_Cons(1,2) [OF t]
    have "map_l_char ?q = Some (L_CHAR, (advance ?q)\<lparr>dp_look_ch := 1\<rparr>)"
      using l cur_char_Cons [OF q(2)] by (simp add: map_l_char_def advance_def Let_def)
    moreover have "lex_sub p = map_l_char ?q"
      using nextchar_plain [OF t] assms(1) by (subst lex_sub.simps) (simp add: Let_def plain_def advance_def thompson_chars_def)
    ultimately show ?thesis
      using plain_advance [OF q] text_Cons(3) [OF q(2)] one by (intro lexI [of "(advance ?q)\<lparr>dp_look_ch := 1\<rparr>"]) simp_all
  next
    case letter
    then have t: "text_left p = c # r" using assms(2) by (auto simp: spell_byte_def)
    let ?q = "(advance p)\<lparr>dp_look_ch := uint c\<rparr>"
    have q: "plain ?q" "text_left ?q = r" using plain_advance [OF assms(1) t] text_Cons(3) [OF t] by simp_all
    have "map_l_char ?q = Some (L_CHAR, ?q)"
      using map_l_char_last [OF q(1), of "dp_ptr p"] text_Cons(1,2) [OF t] letter by (auto simp: advance_def)
    moreover have "lex_sub p = map_l_char ?q"
      using nextchar_plain [OF t] assms(1,3) letter by (subst lex_sub.simps) (auto simp: Let_def plain_def advance_def thompson_chars_def token_defs)
    ultimately show ?thesis using q by (intro lexI [of ?q]) simp_all
  next
    case (escape e)
    then have t: "text_left p = 92 # e # r" using assms(2) by simp
    let ?a = "advance p"
    let ?q = "(advance ?a)\<lparr>dp_look_ch := uint c\<rparr>"
    have a: "plain ?a" "text_left ?a = e # r" using plain_advance [OF assms(1) t] text_Cons(3) [OF t] by simp_all
    have q: "plain ?q" "text_left ?q = r" using plain_advance [OF a] text_Cons(3) [OF a(2)] by simp_all
    have "map_l_char ?q = Some (L_CHAR, ?q)"
      using map_l_char_last [OF q(1), of "dp_ptr ?a"] text_Cons(1,2) [OF a(2)] escape(3) by (auto simp: advance_def)
    moreover have "lex_sub p = map_l_char ?q"
      using nextchar_escape [OF t] escape(2,3) assms(3) by (subst lex_sub.simps) (simp add: Let_def uint_0_iff)
    ultimately show ?thesis using q by (intro lexI [of ?q]) simp_all
  qed
qed


section \<open>Parsing a spelled expression\<close>

declare expr_1.simps [simp del] expr_2.simps [simp del] expr_3.simps [simp del] expr_4.simps [simp del]
  alt_loop.simps [simp del] cat_loop.simps [simp del]

text \<open>The first token of the text was read ahead.\<close>

definition ahead :: "dfa_parse_info \<Rightarrow> byte list \<Rightarrow> bool" where
  "ahead p post \<longleftrightarrow> (\<exists>p0. plain p0 \<and> text_left p0 = post \<and> lex p0 = Some p)"

lemma ahead_operator:
  "ahead p (c # r) \<Longrightarrow> charmap_find thompson_chars (uint c) = Some (Some t) \<Longrightarrow> t \<noteq> 0 \<Longrightarrow> c \<notin> {0, 34, 91, 92} \<Longrightarrow> token_at p t r"
  using lex_operator by (fastforce simp: ahead_def)

lemma ahead_tokens:
  "ahead p (40 # r) \<Longrightarrow> token_at p L_LP r" "ahead p (41 # r) \<Longrightarrow> token_at p L_RP r" "ahead p (124 # r) \<Longrightarrow> token_at p L_ALT r"
  "ahead p (42 # r) \<Longrightarrow> token_at p L_CLOS0 r" "ahead p (43 # r) \<Longrightarrow> token_at p L_CLOS1 r" "ahead p (63 # r) \<Longrightarrow> token_at p L_QUEST r"
  "ahead p (46 # r) \<Longrightarrow> token_at p L_ANY r"
  by (erule ahead_operator; simp add: thompson_chars_def token_defs)+

lemma ahead_end: "ahead p [] \<Longrightarrow> token_at p 0 []"
  using lex_end by (fastforce simp: ahead_def)

lemma ahead_byte: "ahead p (spell_byte c @ r) \<Longrightarrow> c \<noteq> 0 \<Longrightarrow> token_at p L_CHAR r \<and> dp_look_ch p = uint c"
  using lex_byte by (fastforce simp: ahead_def)

text \<open>The next token, whatever position numbers were given out meanwhile.\<close>

lemma token_step:
  assumes "token_at p t post"
  shows "\<exists>q. lex (p\<lparr>dp_position := m\<rparr>) = Some q \<and> ahead q post \<and> dp_anyset q = dp_anyset p"
proof -
  let ?p = "p\<lparr>dp_position := m\<rparr>"
  have p: "plain ?p" "text_left ?p = post" using assms by (simp_all add: token_at_def plain_def text_left_def)
  obtain q where "lex ?p = Some q" "lexed ?p q" using lex_spec [of ?p] p(1) by (auto simp: plain_def)
  moreover from this have "ahead q post" using p by (auto simp: ahead_def)
  ultimately show ?thesis by (auto simp: lexed_def)
qed

lemma token_step_same: "token_at p t post \<Longrightarrow> \<exists>q. lex p = Some q \<and> ahead q post \<and> dp_anyset q = dp_anyset p"
  using token_step [of p t post "dp_position p"] by simp

lemma first_token: "rx_ok r \<Longrightarrow> ahead p (spell r @ post) \<Longrightarrow> dp_lookahead p \<in> {L_LP, L_CHAR, L_ANY}"
  using ahead_byte [of p] ahead_tokens(1,7) [of p] by (cases r) (auto simp: token_at_def)

primrec rx_fuel :: "rx \<Rightarrow> nat" where
  "rx_fuel (R_Byte c) = 1"
| "rx_fuel R_Any = 1"
| "rx_fuel (R_Seq a b) = 8 + rx_fuel a + rx_fuel b"
| "rx_fuel (R_Alt a b) = 8 + rx_fuel a + rx_fuel b"
| "rx_fuel (R_Star a) = 8 + rx_fuel a"
| "rx_fuel (R_Plus a) = 8 + rx_fuel a"
| "rx_fuel (R_Opt a) = 8 + rx_fuel a"

lemma rx_fuel_spell: "rx_fuel r \<le> 4 * length (spell r)"
  by (induction r) (auto simp: spell_byte_def)

text \<open>Reading an expression with one of the functions of the grammar.\<close>

definition reads_rx :: "(dfa_parse_info \<Rightarrow> (tnode option \<times> dfa_parse_info) option) \<Rightarrow> dfa_parse_info \<Rightarrow> byte list set \<Rightarrow> byte list \<Rightarrow> bool" where
  "reads_rx f p L post \<longleftrightarrow> (\<exists>t q. f p = Some (Some t, q) \<and> ahead q post \<and> dp_anyset q = dp_anyset p \<and> tlang t = L)"

lemma reads_group:
  assumes "token_at p L_LP (body @ 41 # post)"
    and "\<And>q. ahead q (body @ 41 # post) \<Longrightarrow> dp_anyset q = dp_anyset p \<Longrightarrow> reads_rx (expr_1 n) q L (41 # post)"
  shows "reads_rx (expr_4 (Suc n)) p L post"
proof -
  obtain q where q: "lex p = Some q" "ahead q (body @ 41 # post)" "dp_anyset q = dp_anyset p" using token_step_same [OF assms(1)] by blast
  obtain t u where u: "expr_1 n q = Some (Some t, u)" "ahead u (41 # post)" "dp_anyset u = dp_anyset q" "tlang t = L"
    using assms(2) [OF q(2,3)] by (auto simp: reads_rx_def)
  note rp = ahead_tokens(2) [OF u(2)]
  obtain v where v: "lex u = Some v" "ahead v post" "dp_anyset v = dp_anyset u" using token_step_same [OF rp] by blast
  have "expr_4 (Suc n) p = Some (Some t, v)" using assms(1) rp q(1) u(1) v(1) by (simp add: token_at_def expr_4.simps)
  then show ?thesis using v q u by (auto simp: reads_rx_def)
qed

lemma reads_expr_3: "reads_rx (expr_4 n) p L post \<Longrightarrow> (\<And>q. ahead q post \<Longrightarrow> dp_lookahead q \<notin> {L_CLOS0, L_CLOS1, L_QUEST}) \<Longrightarrow> reads_rx (expr_3 (Suc n)) p L post"
  by (fastforce simp: reads_rx_def expr_3.simps)

lemma reads_star:
  assumes "reads_rx (expr_4 n) p L (c # post)" "c \<in> {42, 43, 63}"
  shows "reads_rx (expr_3 (Suc n)) p (if c = 42 then lstar L else if c = 43 then lplus L else L \<union> {[]}) post"
proof -
  obtain t q where q: "expr_4 n p = Some (Some t, q)" "ahead q (c # post)" "dp_anyset q = dp_anyset p" "tlang t = L"
    using assms(1) by (auto simp: reads_rx_def)
  have tok: "token_at q (if c = 42 then L_CLOS0 else if c = 43 then L_CLOS1 else L_QUEST) post"
    using assms(2) q(2) ahead_tokens(4-6) [of q post] by auto
  obtain u where u: "lex q = Some u" "ahead u post" "dp_anyset u = dp_anyset q" using token_step_same [OF tok] by blast
  show ?thesis
    using q u tok assms(2) unfolding reads_rx_def
    by (auto simp: token_at_def token_defs expr_3.simps)
qed

text \<open>A list of parts at the end of which a loop stops.\<close>

lemma cat_stop: "dp_lookahead q \<notin> {L_WILD, L_ANYZ, L_ANY, L_LP, L_CHAR, L_CHARS} \<Longrightarrow> cat_loop (Suc n) t q = Some (Some t, q)"
  by (simp add: starts_expr_def cat_loop.simps)

lemma reads_expr_2:
  assumes "reads_rx (expr_3 (Suc n)) p L post" "\<And>q. ahead q post \<Longrightarrow> dp_lookahead q \<notin> {L_WILD, L_ANYZ, L_ANY, L_LP, L_CHAR, L_CHARS}"
  shows "reads_rx (expr_2 (Suc (Suc n))) p L post"
proof -
  obtain t q where q: "expr_3 (Suc n) p = Some (Some t, q)" "ahead q post" "dp_anyset q = dp_anyset p" "tlang t = L"
    using assms(1) by (auto simp: reads_rx_def)
  have "expr_2 (Suc (Suc n)) p = Some (Some t, q)"
    unfolding expr_2.simps(2) [of "Suc n"] q(1) using cat_stop [OF assms(2) [OF q(2)]] by simp
  then show ?thesis using q(2-4) by (auto simp: reads_rx_def)
qed

lemma reads_expr_2_seq:
  assumes "reads_rx (expr_3 (Suc (Suc n))) p La posta" "\<And>q. ahead q posta \<Longrightarrow> dp_lookahead q \<in> {L_LP, L_CHAR, L_ANY}"
    and "\<And>q. ahead q posta \<Longrightarrow> dp_anyset q = dp_anyset p \<Longrightarrow> reads_rx (expr_3 (Suc n)) q Lb post"
    and "\<And>q. ahead q post \<Longrightarrow> dp_lookahead q \<notin> {L_WILD, L_ANYZ, L_ANY, L_LP, L_CHAR, L_CHARS}"
  shows "reads_rx (expr_2 (Suc (Suc (Suc n)))) p (lconc La Lb) post"
proof -
  obtain t q where q: "expr_3 (Suc (Suc n)) p = Some (Some t, q)" "ahead q posta" "dp_anyset q = dp_anyset p" "tlang t = La"
    using assms(1) by (auto simp: reads_rx_def)
  obtain v u where u: "expr_3 (Suc n) q = Some (Some v, u)" "ahead u post" "dp_anyset u = dp_anyset q" "tlang v = Lb"
    using assms(3) [OF q(2,3)] by (auto simp: reads_rx_def)
  have "starts_expr (dp_lookahead q)" using assms(2) [OF q(2)] by (auto simp: starts_expr_def)
  then have "cat_loop (Suc (Suc n)) t q = Some (Some (T_CAT t v), u)"
    unfolding cat_loop.simps(2) [of "Suc n"] u(1) using cat_stop [OF assms(4) [OF u(2)]] by simp
  then have "expr_2 (Suc (Suc (Suc n))) p = Some (Some (T_CAT t v), u)"
    unfolding expr_2.simps(2) [of "Suc (Suc n)"] q(1) by simp
  then show ?thesis using q u by (auto simp: reads_rx_def)
qed

lemma reads_expr_1:
  assumes "reads_rx (expr_2 (Suc n)) p L post" "\<And>q. ahead q post \<Longrightarrow> dp_lookahead q \<noteq> L_ALT"
  shows "reads_rx (expr_1 (Suc (Suc n))) p L post"
proof -
  obtain t q where q: "expr_2 (Suc n) p = Some (Some t, q)" "ahead q post" "dp_anyset q = dp_anyset p" "tlang t = L"
    using assms(1) by (auto simp: reads_rx_def)
  have "expr_1 (Suc (Suc n)) p = Some (Some t, q)" unfolding expr_1.simps(2) [of "Suc n"] q(1) using assms(2) [OF q(2)] by (simp add: alt_loop.simps)
  then show ?thesis using q(2-4) by (auto simp: reads_rx_def)
qed

lemma reads_expr_1_alt:
  assumes "reads_rx (expr_2 (Suc (Suc n))) p La (124 # posta)"
    and "\<And>q. ahead q posta \<Longrightarrow> dp_anyset q = dp_anyset p \<Longrightarrow> reads_rx (expr_2 (Suc n)) q Lb post"
    and "\<And>q. ahead q post \<Longrightarrow> dp_lookahead q \<noteq> L_ALT"
  shows "reads_rx (expr_1 (Suc (Suc (Suc n)))) p (La \<union> Lb) post"
proof -
  obtain t q where q: "expr_2 (Suc (Suc n)) p = Some (Some t, q)" "ahead q (124 # posta)" "dp_anyset q = dp_anyset p" "tlang t = La"
    using assms(1) by (auto simp: reads_rx_def)
  note alt = ahead_tokens(3) [OF q(2)]
  obtain r where r: "lex q = Some r" "ahead r posta" "dp_anyset r = dp_anyset q" using token_step_same [OF alt] by blast
  obtain v u where u: "expr_2 (Suc n) r = Some (Some v, u)" "ahead u post" "dp_anyset u = dp_anyset r" "tlang v = Lb"
    using assms(2) [OF r(2)] r(3) q(3) by (auto simp: reads_rx_def)
  have stop: "alt_loop (Suc n) (T_OR t v) u = Some (Some (T_OR t v), u)" using assms(3) [OF u(2)] by (simp add: alt_loop.simps)
  have "alt_loop (Suc (Suc n)) t q = Some (Some (T_OR t v), u)"
    using alt r(1) stop unfolding alt_loop.simps(2) [of "Suc n" t] by (simp add: token_at_def u(1))
  then have "expr_1 (Suc (Suc (Suc n))) p = Some (Some (T_OR t v), u)"
    unfolding expr_1.simps(2) [of "Suc (Suc n)"] q(1) by simp
  then show ?thesis using q r u by (auto simp: reads_rx_def)
qed

text \<open>The parts of a group end at its closing parenthesis.\<close>

lemma ahead_close: "ahead q (41 # post) \<Longrightarrow> dp_lookahead q = L_RP"
  using ahead_tokens(2) [of q post] by (simp add: token_at_def)

lemma first_tokens: "t \<in> {L_LP, L_CHAR, L_ANY} \<Longrightarrow> t \<notin> {L_CLOS0, L_CLOS1, L_QUEST} \<and> t \<notin> {0, L_START, L_END}"
  by (auto simp: token_defs)

lemma fuel_Suc: "8 \<le> n \<Longrightarrow> \<exists>k. n = Suc (Suc (Suc (Suc (Suc k))))" for n :: nat
  by presburger

lemma close_stops:
  assumes "ahead q (41 # post)"
  shows "dp_lookahead q \<notin> {L_CLOS0, L_CLOS1, L_QUEST}" "dp_lookahead q \<notin> {L_WILD, L_ANYZ, L_ANY, L_LP, L_CHAR, L_CHARS}" "dp_lookahead q \<noteq> L_ALT"
  using ahead_close [OF assms] by (simp_all add: token_defs)

lemma bar_stops:
  assumes "ahead q (124 # post)"
  shows "dp_lookahead q \<notin> {L_CLOS0, L_CLOS1, L_QUEST}" "dp_lookahead q \<notin> {L_WILD, L_ANYZ, L_ANY, L_LP, L_CHAR, L_CHARS}"
  using ahead_tokens(3) [OF assms] by (simp_all add: token_at_def token_defs)

lemma reads_postfix:
  assumes "ahead p (40 # body @ [c, 41] @ post)" "c \<in> {42, 43, 63}"
    and "\<And>q. ahead q (body @ c # 41 # post) \<Longrightarrow> dp_anyset q = dp_anyset p \<Longrightarrow> reads_rx (expr_4 k) q L (c # 41 # post)"
  shows "reads_rx (expr_4 (Suc (Suc (Suc (Suc k))))) p (if c = 42 then lstar L else if c = 43 then lplus L else L \<union> {[]}) post"
proof (rule reads_group [where body = "body @ [c]"])
  show "token_at p L_LP ((body @ [c]) @ 41 # post)" using ahead_tokens(1) [of p] assms(1) by simp
next
  fix q
  assume "ahead q ((body @ [c]) @ 41 # post)" "dp_anyset q = dp_anyset p"
  then have "reads_rx (expr_4 k) q L (c # 41 # post)" using assms(3) by simp
  from reads_star [OF this assms(2)]
  show "reads_rx (expr_1 (Suc (Suc (Suc k)))) q (if c = 42 then lstar L else if c = 43 then lplus L else L \<union> {[]}) (41 # post)"
    by (intro reads_expr_1 reads_expr_2 close_stops)
qed

lemma reads_spell:
  assumes "rx_ok r" "ahead p (spell r @ post)" "rx_fuel r \<le> n"
  shows "reads_rx (expr_4 n) p (rx_lang (dp_anyset p) r) post"
  using assms
proof (induction r arbitrary: p post n)
  case (R_Byte c)
  then have tok: "token_at p L_CHAR post" "dp_look_ch p = uint c" using ahead_byte [of p c post] by auto
  obtain q where q: "lex (p\<lparr>dp_position := dp_position p + 1\<rparr>) = Some q" "ahead q post" "dp_anyset q = dp_anyset p"
    using token_step [OF tok(1)] by blast
  obtain m where m: "n = Suc m" using R_Byte.prems(3) by (cases n) auto
  have "expr_4 n p = Some (Some (T_POS (dp_position p + 1) (uint c) (uint c)), q)"
    using tok q(1) m by (simp add: expr_4.simps token_at_def token_defs new_pos_def)
  moreover have "tlang (T_POS (dp_position p + 1) (uint c) (uint c)) = {[c]}"
    using tlang_pos_range [of "uint c" "dp_position p + 1" "uint c"] by (auto simp: byte_words_def word_uint_eq_iff)
  ultimately show ?case using q by (auto simp: reads_rx_def)
next
  case R_Any
  then have tok: "token_at p L_ANY post" using ahead_tokens(7) [of p post] by auto
  then have "bh_size (dp_charset p) = 255" "bset_ok 255 (dp_anyset p)" by (simp_all add: token_at_def plain_def lex_env_def)
  from mk_Tnode_cset_spec [OF this] obtain t k where t: "mk_Tnode_cset p (dp_anyset p) = Some (t, p\<lparr>dp_position := k\<rparr>)"
    "tlang t = any_words (dp_anyset p)" by (auto simp: any_words_def)
  obtain q where q: "lex (p\<lparr>dp_position := k\<rparr>) = Some q" "ahead q post" "dp_anyset q = dp_anyset p"
    using token_step [OF tok] by blast
  obtain m where m: "n = Suc m" using R_Any.prems(3) by (cases n) auto
  have "expr_4 n p = Some (Some t, q)" using tok q(1) m t(1) by (simp add: expr_4.simps token_at_def token_defs)
  then show ?case using q t(2) by (auto simp: reads_rx_def)
next
  case (R_Seq a b)
  obtain k where n: "n = Suc (Suc (Suc (Suc (Suc k))))" using fuel_Suc [of n] R_Seq.prems(3) by auto
  show ?case unfolding n
  proof (rule reads_group [where body = "spell a @ spell b"])
    show "token_at p L_LP ((spell a @ spell b) @ 41 # post)" using R_Seq.prems(2) ahead_tokens(1) by simp
    fix q
    assume q: "ahead q ((spell a @ spell b) @ 41 # post)" "dp_anyset q = dp_anyset p"
    have a: "reads_rx (expr_4 (Suc k)) q (rx_lang (dp_anyset p) a) (spell b @ 41 # post)"
      using R_Seq.IH(1) [of q "spell b @ 41 # post" "Suc k"] R_Seq.prems q n by simp
    have first: "dp_lookahead u \<in> {L_LP, L_CHAR, L_ANY}" if "ahead u (spell b @ 41 # post)" for u
      using first_token [of b u] that R_Seq.prems(1) by simp
    have b: "reads_rx (expr_3 (Suc k)) u (rx_lang (dp_anyset p) b) (41 # post)"
      if "ahead u (spell b @ 41 # post)" "dp_anyset u = dp_anyset q" for u
      using R_Seq.IH(2) [of u "41 # post" k] R_Seq.prems that q(2) n by (intro reads_expr_3 close_stops) simp_all
    have "reads_rx (expr_2 (Suc (Suc (Suc k)))) q (lconc (rx_lang (dp_anyset p) a) (rx_lang (dp_anyset p) b)) (41 # post)"
      using first_tokens [OF first] by (intro reads_expr_2_seq [OF reads_expr_3 [OF a] first b] close_stops(2)) auto
    then show "reads_rx (expr_1 (Suc (Suc (Suc (Suc k))))) q (rx_lang (dp_anyset p) (R_Seq a b)) (41 # post)"
      by (simp add: reads_expr_1 close_stops)
  qed
next
  case (R_Alt a b)
  obtain k where n: "n = Suc (Suc (Suc (Suc (Suc k))))" using fuel_Suc [of n] R_Alt.prems(3) by auto
  show ?case unfolding n
  proof (rule reads_group [where body = "spell a @ 124 # spell b"])
    show "token_at p L_LP ((spell a @ 124 # spell b) @ 41 # post)" using R_Alt.prems(2) ahead_tokens(1) by simp
    fix q
    assume q: "ahead q ((spell a @ 124 # spell b) @ 41 # post)" "dp_anyset q = dp_anyset p"
    have a: "reads_rx (expr_4 (Suc k)) q (rx_lang (dp_anyset p) a) (124 # spell b @ 41 # post)"
      using R_Alt.IH(1) [of q "124 # spell b @ 41 # post" "Suc k"] R_Alt.prems q n by simp
    have b: "reads_rx (expr_2 (Suc (Suc k))) u (rx_lang (dp_anyset p) b) (41 # post)"
      if "ahead u (spell b @ 41 # post)" "dp_anyset u = dp_anyset q" for u
      using R_Alt.IH(2) [of u "41 # post" k] R_Alt.prems that q(2) n by (intro reads_expr_2 reads_expr_3 close_stops) simp_all
    have "reads_rx (expr_2 (Suc (Suc (Suc k)))) q (rx_lang (dp_anyset p) a) (124 # spell b @ 41 # post)"
      using a by (intro reads_expr_2 reads_expr_3 bar_stops)
    from reads_expr_1_alt [OF this b close_stops(3)]
    show "reads_rx (expr_1 (Suc (Suc (Suc (Suc k))))) q (rx_lang (dp_anyset p) (R_Alt a b)) (41 # post)" by simp
  qed
next
  case (R_Star a)
  obtain k where n: "n = Suc (Suc (Suc (Suc (Suc k))))" using fuel_Suc [of n] R_Star.prems(3) by auto
  have IH: "reads_rx (expr_4 (Suc k)) q (rx_lang (dp_anyset p) a) (42 # 41 # post)" if "ahead q (spell a @ 42 # 41 # post)" "dp_anyset q = dp_anyset p" for q
    using R_Star.IH [of q "42 # 41 # post" "Suc k"] R_Star.prems that n by simp
  have "ahead p (40 # spell a @ [42, 41] @ post)" using R_Star.prems(2) by simp
  then have "reads_rx (expr_4 n) p (if 42 = (42 :: byte) then lstar (rx_lang (dp_anyset p) a) else
      if 42 = (43 :: byte) then lplus (rx_lang (dp_anyset p) a) else rx_lang (dp_anyset p) a \<union> {[]}) post"
    unfolding n by (rule reads_postfix) (simp, rule IH)
  then show ?case by simp
next
  case (R_Plus a)
  obtain k where n: "n = Suc (Suc (Suc (Suc (Suc k))))" using fuel_Suc [of n] R_Plus.prems(3) by auto
  have IH: "reads_rx (expr_4 (Suc k)) q (rx_lang (dp_anyset p) a) (43 # 41 # post)" if "ahead q (spell a @ 43 # 41 # post)" "dp_anyset q = dp_anyset p" for q
    using R_Plus.IH [of q "43 # 41 # post" "Suc k"] R_Plus.prems that n by simp
  have "ahead p (40 # spell a @ [43, 41] @ post)" using R_Plus.prems(2) by simp
  then have "reads_rx (expr_4 n) p (if 43 = (42 :: byte) then lstar (rx_lang (dp_anyset p) a) else
      if 43 = (43 :: byte) then lplus (rx_lang (dp_anyset p) a) else rx_lang (dp_anyset p) a \<union> {[]}) post"
    unfolding n by (rule reads_postfix) (simp, rule IH)
  then show ?case by simp
next
  case (R_Opt a)
  obtain k where n: "n = Suc (Suc (Suc (Suc (Suc k))))" using fuel_Suc [of n] R_Opt.prems(3) by auto
  have IH: "reads_rx (expr_4 (Suc k)) q (rx_lang (dp_anyset p) a) (63 # 41 # post)" if "ahead q (spell a @ 63 # 41 # post)" "dp_anyset q = dp_anyset p" for q
    using R_Opt.IH [of q "63 # 41 # post" "Suc k"] R_Opt.prems that n by simp
  have "ahead p (40 # spell a @ [63, 41] @ post)" using R_Opt.prems(2) by simp
  then have "reads_rx (expr_4 n) p (if 63 = (42 :: byte) then lstar (rx_lang (dp_anyset p) a) else
      if 63 = (43 :: byte) then lplus (rx_lang (dp_anyset p) a) else rx_lang (dp_anyset p) a \<union> {[]}) post"
    unfolding n by (rule reads_postfix) (simp, rule IH)
  then show ?case by simp
qed

section \<open>Parsing a spelled pattern\<close>

lemma spell_nonzero: "rx_ok r \<Longrightarrow> 0 \<notin> set (spell r)"
  by (induction r) (auto simp: spell_byte_def)

lemma takeWhile_spell: "rx_ok r \<Longrightarrow> takeWhile (\<lambda>c. c \<noteq> 0) (spell r) = spell r"
  using spell_nonzero [of r] unfolding takeWhile_eq_all_conv by blast

text \<open>The operators and the set of the dot that a new automaton starts with.\<close>

definition usual_env :: "dfa_parse_info \<Rightarrow> bool" where
  "usual_env p \<longleftrightarrow> dp_charMap p = Some thompson_chars \<and> dp_cmap p = None"

lemma end_stops:
  assumes "ahead q []"
  shows "dp_lookahead q = 0" "dp_lookahead q \<notin> {L_CLOS0, L_CLOS1, L_QUEST}" "dp_lookahead q \<notin> {L_WILD, L_ANYZ, L_ANY, L_LP, L_CHAR, L_CHARS}"
    "dp_lookahead q \<noteq> L_ALT"
  using ahead_end [OF assms] by (simp_all add: token_at_def token_defs)

lemma reads_pattern:
  assumes "rx_ok r" "ahead p (spell r)"
  shows "reads_rx (expr_1 (parse_fuel (spell r))) p (rx_lang (dp_anyset p) r) []"
proof -
  obtain n where n: "rx_fuel r \<le> n" "parse_fuel (spell r) = Suc (Suc (Suc n))"
  proof
    show "rx_fuel r \<le> 4 * length (spell r) + 5" using rx_fuel_spell [of r] by linarith
    show "parse_fuel (spell r) = Suc (Suc (Suc (4 * length (spell r) + 5)))" unfolding parse_fuel_def by presburger
  qed
  have "ahead p (spell r @ [])" using assms(2) by simp
  from reads_spell [OF assms(1) this n(1)] show ?thesis
    unfolding n(2) by (intro reads_expr_1 reads_expr_2 reads_expr_3 end_stops)
qed

lemma do_parse_spelled:
  assumes "idle p" "usual_env p" "rx_ok r"
  shows "\<exists>t u q. do_parse p (spell r) = Some (Some (T_CAT t u), q) \<and> tlang t = rx_lang (dp_anyset p) r \<and> usual_env q \<and> dp_anyset q = dp_anyset p"
proof -
  let ?p = "p\<lparr>dp_err_code := 0, dp_expr := spell r, dp_ptr := 0, dp_inside_string := False\<rparr>"
  have plain: "plain ?p" using assms spell_nonzero [OF assms(3)] by (auto simp: plain_def lex_env_def idle_def usual_env_def)
  obtain q where q: "lex ?p = Some q" "lexed ?p q" using lex_spec [of ?p] plain by (auto simp: plain_def)
  then have a: "ahead q (spell r)" using plain by (auto simp: ahead_def text_left_def)
  have first: "dp_lookahead q \<notin> {L_START, L_END}" using first_tokens [OF first_token [OF assms(3), of q "[]"]] a by auto
  obtain t u where u: "expr_1 (parse_fuel (spell r)) q = Some (Some t, u)" "ahead u []" "dp_anyset u = dp_anyset q" "tlang t = rx_lang (dp_anyset q) r"
    using reads_pattern [OF assms(3) a] by (auto simp: reads_rx_def)
  have end0: "dp_lookahead u = 0" "dp_lookahead u \<noteq> L_END" "plain u" using ahead_end [OF u(2)] by (simp_all add: token_at_def token_defs)
  let ?v = "u\<lparr>dp_rule := dp_rule u + 1, dp_position := dp_position u + 1\<rparr>"
  have "parse_end False (Some t) u = (Some (T_CAT t (T_POS (dp_position u + 1) (- (dp_rule u + 1)) (- (dp_rule u + 1)))), ?v)"
    using end0(1) by (simp add: parse_end_def pos_node_def new_pos_def Let_def)
  then have "do_parse p (spell r) = Some (Some (T_CAT t (T_POS (dp_position u + 1) (- (dp_rule u + 1)) (- (dp_rule u + 1)))), ?v)"
    unfolding do_parse_def takeWhile_spell [OF assms(3)] using q(1) u(1) first end0 by (simp add: parse_body_def Let_def)
  moreover have "dp_anyset q = dp_anyset p" using q(2) by (simp add: lexed_def)
  moreover have "usual_env ?v" using end0(3) by (simp add: plain_def usual_env_def)
  ultimately show ?thesis using u by auto
qed

text \<open>The rules that were parsed, in their order.\<close>

definition rules_of :: "dfa_parse_info \<Rightarrow> (int \<times> tnode \<times> int) list" where
  "rules_of p = (case dp_root p of None \<Rightarrow> [] | Some root \<Rightarrow> rule_list root)"

lemma dfa_parse_spelled:
  assumes "dfa_ok d" "d_parse_info d = Some p" "usual_env p" "rx_ok r"
  shows "\<exists>n d' q acc t. dfa_parse d (spell r) = Some (0, n, d') \<and> dfa_ok d' \<and> d_parse_info d' = Some q \<and> usual_env q \<and>
    dp_anyset q = dp_anyset p \<and> dp_rule q = dp_rule p + 1 \<and> dp_root q \<noteq> None \<and>
    rules_of q = rules_of p @ [(acc, t, dp_rule q)] \<and> tlang t = rx_lang (dp_anyset p) r"
proof -
  have idle: "idle p" using assms(1,2) by (auto simp: dfa_ok_def)
  obtain t u q where q: "do_parse p (spell r) = Some (Some (T_CAT t u), q)" "tlang t = rx_lang (dp_anyset p) r" "usual_env q" "dp_anyset q = dp_anyset p"
    using do_parse_spelled [OF idle assms(3,4)] by blast
  have "parse_result p (length (spell r)) (Some (T_CAT t u), q)" using do_parse_spec [OF idle, of "spell r"] q(1) by simp
  then have pr: "dp_err_code q = 0" "dp_root q = dp_root p" "dp_rule q = dp_rule p + 1" "rule_tree p (T_CAT t u) q"
    by (simp_all add: parse_result_def)
  let ?q = "q\<lparr>dp_root := Some (case dp_root p of None \<Rightarrow> T_CAT t u | Some r \<Rightarrow> T_OR r (T_CAT t u))\<rparr>"
  let ?d = "d\<lparr>d_parse_info := Some ?q\<rparr>"
  have eq: "dfa_parse d (spell r) = Some (0, dp_ptr q, ?d)" using assms(2) q(1) pr(1,2) by (simp add: dfa_parse_def)
  obtain acc c1 where "u = T_POS acc (- (dp_rule p + 1)) c1" using pr(4) by (auto simp: rule_tree_def)
  then have rules: "rules_of ?q = rules_of p @ [(acc, t, dp_rule q)]" using pr(3) by (simp add: rules_of_def split: option.split)
  have ok: "dfa_ok ?d" using dfa_parse_spec [OF assms(1), of "spell r"] eq by (simp add: parse_step_def)
  have env: "usual_env ?q" using q(3) by (simp add: usual_env_def)
  show ?thesis
    by (intro exI [of _ "dp_ptr q"] exI [of _ ?d] exI [of _ ?q] exI [of _ acc] exI [of _ t]) (use eq ok env rules pr(3) q in simp_all)
qed

section \<open>A list of patterns\<close>

primrec parse_all :: "dfa \<Rightarrow> rx list \<Rightarrow> dfa option" where
  "parse_all d [] = Some d"
| "parse_all d (r # rs) = (case dfa_parse d (spell r) of None \<Rightarrow> None | Some (rc, _, d) \<Rightarrow> if rc = 0 then parse_all d rs else None)"

lemma parse_all_append: "parse_all d (rs @ rs') = (case parse_all d rs of None \<Rightarrow> None | Some d \<Rightarrow> parse_all d rs')"
  by (induction rs arbitrary: d) (auto split: option.split)

definition spelled_rules :: "bset \<Rightarrow> rx list \<Rightarrow> dfa \<Rightarrow> bool" where
  "spelled_rules s rs d \<longleftrightarrow>
     dfa_ok d \<and>
     (\<exists>p. d_parse_info d = Some p \<and> usual_env p \<and> dp_anyset p = s \<and> dp_rule p = int (length rs) \<and> (rs \<noteq> [] \<longrightarrow> dp_root p \<noteq> None) \<and>
        length (rules_of p) = length rs \<and>
        (\<forall>i < length rs. \<exists>acc t. rules_of p ! i = (acc, t, int i + 1) \<and> tlang t = rx_lang s (rs ! i)))"

lemma parse_all_spec:
  assumes "spelled_rules s [] d" "\<forall>r \<in> set rs. rx_ok r"
  shows "\<exists>d'. parse_all d rs = Some d' \<and> spelled_rules s rs d'"
  using assms(2)
proof (induction rs rule: rev_induct)
  case Nil
  then show ?case using assms(1) by simp
next
  case (snoc r rs)
  then obtain d1 where d1: "parse_all d rs = Some d1" "spelled_rules s rs d1" by auto
  then obtain p where p: "dfa_ok d1" "d_parse_info d1 = Some p" "usual_env p" "dp_anyset p = s" "dp_rule p = int (length rs)"
    "length (rules_of p) = length rs" "\<forall>i < length rs. \<exists>acc t. rules_of p ! i = (acc, t, int i + 1) \<and> tlang t = rx_lang s (rs ! i)"
    by (auto simp: spelled_rules_def)
  obtain n d2 q acc t where d2: "dfa_parse d1 (spell r) = Some (0, n, d2)" "dfa_ok d2" "d_parse_info d2 = Some q" "usual_env q"
    "dp_anyset q = dp_anyset p" "dp_rule q = dp_rule p + 1" "dp_root q \<noteq> None"
    "rules_of q = rules_of p @ [(acc, t, dp_rule q)]" "tlang t = rx_lang (dp_anyset p) r"
    using dfa_parse_spelled [OF p(1-3), of r] snoc.prems by auto
  have "parse_all d (rs @ [r]) = Some d2" using d1(1) d2(1) by (simp add: parse_all_append)
  moreover have "spelled_rules s (rs @ [r]) d2"
    unfolding spelled_rules_def using d2(2-9) p(4-7)
    by (intro conjI exI [of _ q]) (auto simp: nth_append less_Suc_eq)
  ultimately show ?case by blast
qed

lemma init_spelled: "\<exists>d. dfa_init = Some d \<and> spelled_rules no_newline [] d"
proof -
  have "usual_env init_info" by (simp add: usual_env_def init_info_def)
  moreover have "dp_anyset init_info = no_newline" "rules_of init_info = []" "dp_rule init_info = 0"
    by (simp_all add: init_info_def rules_of_def)
  ultimately show ?thesis using dfa_init_eq init_idle by (auto simp: spelled_rules_def dfa_ok_def)
qed

text \<open>The dot of a new automaton is any character but a line feed.\<close>

lemma no_newline_abs: "bset_abs no_newline = {..255} - {10}"
proof -
  have "SET_BIT (replicate 16 0) 10 = (replicate 16 0)[0 := 2 ^ 10]" by (simp add: SET_BIT_def push_bit_eq_mult)
  moreover have "bset_abs (SET_BIT (replicate 16 0) 10) = {10}"
    using SET_BIT_abs [of 10 "replicate 16 0"] unfolding empty_abs length_replicate by simp
  ultimately have "bset_abs no_newline = {..<256} - {10}" unfolding no_newline_def com_BSet_abs by simp
  moreover have "x < 256 \<longleftrightarrow> x \<le> 255" for x :: nat by linarith
  ultimately show ?thesis by (simp only: set_eq_iff Diff_iff lessThan_iff atMost_iff) simp
qed

lemma any_words_init: "any_words no_newline = {[b] | b. b \<noteq> 10}"
proof -
  have "unat b \<le> 255" for b :: byte using unsigned_less [of b, where ?'a = nat] by simp
  moreover have "unat b = 10 \<longleftrightarrow> b = 10" for b :: byte by (simp add: word_unat_eq_iff)
  moreover have "(0 :: nat) \<in> {..255} - {10}" by simp
  ultimately show ?thesis unfolding any_words_def byte_words_def no_newline_abs by auto
qed

definition parsed_root :: "rx list \<Rightarrow> (int \<times> tnode) option" where
  "parsed_root rs = do { d \<leftarrow> dfa_init; d \<leftarrow> parse_all d rs; p \<leftarrow> d_parse_info d; t \<leftarrow> dp_root p; Some (dp_position p, t) }"

text \<open>C4: Patterns that are written out and read back: for every list of expressions, spelled with the operators and escapes of the
  patterns and parsed one after the other into a new automaton, every call of the parser succeeds, and the automaton that is built
  from the result returns for every text the number of the first expression whose language holds the text, or 0. This goes through
  the whole component: scanner, recursive descent, sets of characters, positions, followers, table of states and transitions. The
  automaton is built when there are less than 16000 positions and at most 32768 states.\<close>

theorem spelled_patterns_first_match:
  assumes "rs \<noteq> []" "\<forall>r \<in> set rs. rx_ok r"
  shows "\<exists>n root. parsed_root rs = Some (n, root) \<and>
    (n < 16000 \<and> card (reached root) \<le> 32768 \<longrightarrow>
      (\<exists>d0 d1 d2 dfas. dfa_init = Some d0 \<and> parse_all d0 rs = Some d1 \<and> dfa_mkstate d1 = Some d2 \<and> d_state_info d2 = Some dfas \<and>
        (\<forall>w. dfa_rule_of dfas w = least_rule {int i + 1 | i. i < length rs \<and> w \<in> rx_lang no_newline (rs ! i)})))"
proof -
  obtain d0 where d0: "dfa_init = Some d0" "spelled_rules no_newline [] d0" using init_spelled by blast
  obtain d1 where d1: "parse_all d0 rs = Some d1" "spelled_rules no_newline rs d1" using parse_all_spec [OF d0(2) assms(2)] by blast
  obtain p root where p: "dfa_ok d1" "d_parse_info d1 = Some p" "dp_root p = Some root" "length (rule_list root) = length rs"
    "\<forall>i < length rs. \<exists>acc t. rule_list root ! i = (acc, t, int i + 1) \<and> tlang t = rx_lang no_newline (rs ! i)"
    using d1(2) assms(1) by (auto simp: spelled_rules_def rules_of_def)
  have m: "rule_matches root w = {int i + 1 | i. i < length rs \<and> w \<in> rx_lang no_newline (rs ! i)}" for w
  proof (intro set_eqI iffI)
    fix k assume "k \<in> rule_matches root w"
    then obtain q t where "(q, t, k) \<in> set (rule_list root)" "w \<in> tlang t" by (auto simp: rule_matches_def)
    then show "k \<in> {int i + 1 | i. i < length rs \<and> w \<in> rx_lang no_newline (rs ! i)}"
      using p(4,5) by (fastforce simp: in_set_conv_nth)
  next
    fix k assume "k \<in> {int i + 1 | i. i < length rs \<and> w \<in> rx_lang no_newline (rs ! i)}"
    then obtain i where i: "k = int i + 1" "i < length rs" "w \<in> rx_lang no_newline (rs ! i)" by blast
    then obtain acc t where "rule_list root ! i = (acc, t, k)" "w \<in> tlang t" using p(5) by fastforce
    then show "k \<in> rule_matches root w" using i(2) p(4) nth_mem [of i "rule_list root"] by (auto simp: rule_matches_def)
  qed
  have "parsed_root rs = Some (dp_position p, root)" unfolding parsed_root_def d0(1) using d1(1) p(2,3) by simp
  then show ?thesis using mkstate_spec [OF p(1-3)] d0(1) d1(1) unfolding m by blast
qed

lemma parsed_example:
  "parsed_root [R_Seq (R_Byte 97) (R_Star R_Any), R_Byte 98] =
     Some (6, T_OR (T_CAT (T_CAT (T_POS 1 97 97) (T_STAR (T_OR (T_POS 2 0 9) (T_POS 3 11 255)))) (T_POS 4 (- 1) (- 1)))
       (T_CAT (T_POS 5 98 98) (T_POS 6 (- 2) (- 2))))"
  by code_simp

lemma matching_Nil: "{int i + 1 | i. i < length [] \<and> P ([] ! i)} = {}"
  by simp

lemma matching_Cons:
  "{int i + 1 | i. i < length (r # rs) \<and> P ((r # rs) ! i)} = (if P r then {1} else {}) \<union> (\<lambda>k. k + 1) ` {int i + 1 | i. i < length rs \<and> P (rs ! i)}"
  (is "?A = ?B")
proof (intro set_eqI iffI)
  fix k assume "k \<in> ?A"
  then obtain i where i: "k = int i + 1" "i < length (r # rs)" "P ((r # rs) ! i)" by blast
  then show "k \<in> ?B" by (cases i) auto
next
  fix k assume "k \<in> ?B"
  then consider "k = 1" "P r" | i where "k = int (Suc i) + 1" "i < length rs" "P (rs ! i)" by (auto split: if_splits)
  then show "k \<in> ?A"
  proof cases
    case 1
    then show ?thesis by (intro CollectI exI [of _ 0]) simp
  next
    case (2 i)
    then show ?thesis by (intro CollectI exI [of _ "Suc i"]) simp
  qed
qed

lemma spelled_patterns_first_match_witness:
  "\<exists>d0 d1 d2 dfas. dfa_init = Some d0 \<and> parse_all d0 [R_Seq (R_Byte 97) (R_Star R_Any), R_Byte 98] = Some d1 \<and> dfa_mkstate d1 = Some d2 \<and>
    d_state_info d2 = Some dfas \<and> dfa_rule_of dfas [98] = 2 \<and> dfa_rule_of dfas [97] = 1"
proof -
  let ?rs = "[R_Seq (R_Byte 97) (R_Star R_Any), R_Byte 98]"
  let ?L = "\<lambda>w. {int i + 1 | i. i < length ?rs \<and> w \<in> rx_lang no_newline (?rs ! i)}"
  let ?t = "T_OR (T_CAT (T_CAT (T_POS 1 97 97) (T_STAR (T_OR (T_POS 2 0 9) (T_POS 3 11 255)))) (T_POS 4 (- 1) (- 1)))
       (T_CAT (T_POS 5 98 98) (T_POS 6 (- 2) (- 2)))"
  have "card (positions ?t) = 6" by simp
  then have c: "card (reached ?t) \<le> 32768" using card_reached [of ?t] by simp
  have ok: "?rs \<noteq> []" "\<forall>r \<in> set ?rs. rx_ok r" by simp_all
  have b: "[98] \<notin> rx_lang no_newline (?rs ! 0)" "[98] \<in> rx_lang no_newline (?rs ! 1)" "[97] \<in> rx_lang no_newline (?rs ! 0)"
    "[97] \<notin> rx_lang no_newline (?rs ! 1)"
    by (auto simp: lconc_def lstar_lplus)
  have l: "?L w = (if w \<in> rx_lang no_newline (?rs ! 0) then {1} else {}) \<union> (if w \<in> rx_lang no_newline (?rs ! 1) then {2} else {})" for w
    unfolding matching_Cons [where P = "\<lambda>r. w \<in> rx_lang no_newline r"] matching_Nil [where P = "\<lambda>r. w \<in> rx_lang no_newline r"] by simp
  have "least_rule (?L [98]) = 2" "least_rule (?L [97]) = 1" unfolding l using b by (simp_all add: least_rule_def)
  then show ?thesis using spelled_patterns_first_match [OF ok] c parsed_example by auto
qed

end
