(* ===== verification/Strmap.thy ===== *)
theory Strmap
  imports Zebra_Prelude
begin

text \<open>
  String maps (\<^verbatim>\<open>util/strmap.c\<close>): a hash table from names to data where a name may have several entries. The
  chains are lists of entries, newest first; the free list is the number of entries on it. The contract is a map
  from names to the list of their data, \<open>name_map\<close>.
\<close>

section \<open>Model\<close>

record strmap =
  sm_hsize :: nat
  sm_size :: int
  sm_entries :: "(string \<times> byte list) list list"
  sm_free_entries :: nat

definition zebra_strmap_create :: strmap where
  "zebra_strmap_create = \<lparr>sm_hsize = 1001, sm_size = 0, sm_entries = replicate 1001 [], sm_free_entries = 0\<rparr>"

text \<open>The hash is computed in \<^verbatim>\<open>unsigned\<close> arithmetic; characters are signed.\<close>

definition strmap_hash :: "strmap \<Rightarrow> string \<Rightarrow> nat" where
  "strmap_hash st name =
     unat (fold (\<lambda>c h. h + (h * 65519 + scast (of_char c :: 8 word))) name (0 :: 32 word)) mod sm_hsize st"

definition zebra_strmap_add :: "strmap \<Rightarrow> string \<Rightarrow> byte list \<Rightarrow> strmap" where
  "zebra_strmap_add st name data =
     (let e = strmap_hash st name
      in st\<lparr>sm_free_entries := sm_free_entries st - 1, sm_entries := (sm_entries st)[e := (name, data) # sm_entries st ! e],
            sm_size := sm_size st + 1\<rparr>)"

fun lookup_loop :: "string \<Rightarrow> int \<Rightarrow> int \<Rightarrow> (string \<times> byte list) list \<Rightarrow> byte list option" where
  "lookup_loop name no i [] = None"
| "lookup_loop name no i (e # es) =
     (if fst e = name then (if i = no then Some (snd e) else lookup_loop name no (i + 1) es)
      else lookup_loop name no i es)"

definition zebra_strmap_lookup :: "strmap \<Rightarrow> string \<Rightarrow> int \<Rightarrow> byte list option" where
  "zebra_strmap_lookup st name no = lookup_loop name no 0 (sm_entries st ! strmap_hash st name)"

fun remove_loop :: "string \<Rightarrow> (string \<times> byte list) list \<Rightarrow> (string \<times> byte list) list option" where
  "remove_loop name [] = None"
| "remove_loop name (e # es) = (if fst e = name then Some es else map_option (Cons e) (remove_loop name es))"

definition zebra_strmap_remove :: "strmap \<Rightarrow> string \<Rightarrow> int \<times> strmap" where
  "zebra_strmap_remove st name =
     (let h = strmap_hash st name
      in case remove_loop name (sm_entries st ! h) of
           None \<Rightarrow> (0, st)
         | Some es \<Rightarrow> (1, st\<lparr>sm_entries := (sm_entries st)[h := es], sm_free_entries := sm_free_entries st + 1,
                             sm_size := sm_size st - 1\<rparr>))"

definition zebra_strmap_get_size :: "strmap \<Rightarrow> int" where
  "zebra_strmap_get_size st = sm_size st"

text \<open>An iterator: the next chain and the rest of the current one. The map must not change meanwhile.\<close>

record strmap_it =
  it_hno :: nat
  it_ent :: "(string \<times> byte list) list"

definition zebra_strmap_it_create :: strmap_it where
  "zebra_strmap_it_create = \<lparr>it_hno = 0, it_ent = []\<rparr>"

function it_skip :: "strmap \<Rightarrow> strmap_it \<Rightarrow> strmap_it" where
  "it_skip st it =
     (if it_ent it = [] \<and> it_hno it < sm_hsize st
      then it_skip st \<lparr>it_hno = it_hno it + 1, it_ent = sm_entries st ! it_hno it\<rparr>
      else it)"
  by pat_completeness auto
termination
  by (relation "measure (\<lambda>(st, it). sm_hsize st - it_hno it)") auto

declare it_skip.simps [simp del]

definition zebra_strmap_it_next :: "strmap \<Rightarrow> strmap_it \<Rightarrow> (string \<times> byte list) option \<times> strmap_it" where
  "zebra_strmap_it_next st it =
     (let it = it_skip st it
      in case it_ent it of
           [] \<Rightarrow> (None, it)
         | e # es \<Rightarrow> (Some e, it\<lparr>it_ent := es\<rparr>))"

section \<open>Contract\<close>

locale name_map =
  fixes inv :: "'s \<Rightarrow> bool" and vals :: "'s \<Rightarrow> 'n \<Rightarrow> 'd list"
    and empty :: 's and add :: "'s \<Rightarrow> 'n \<Rightarrow> 'd \<Rightarrow> 's" and lookup :: "'s \<Rightarrow> 'n \<Rightarrow> int \<Rightarrow> 'd option"
    and remove :: "'s \<Rightarrow> 'n \<Rightarrow> int \<times> 's"
  assumes empty_ok: "inv empty" "vals empty n = []"
    and add_ok: "inv s \<Longrightarrow> inv (add s n d)" "inv s \<Longrightarrow> vals (add s n d) = (vals s)(n := d # vals s n)"
    and lookup_ok: "inv s \<Longrightarrow> lookup s n i = (if 0 \<le> i \<and> i < int (length (vals s n)) then Some (vals s n ! nat i) else None)"
    and remove_ok: "inv s \<Longrightarrow> inv (snd (remove s n))" "inv s \<Longrightarrow> vals (snd (remove s n)) = (vals s)(n := tl (vals s n))"
      "inv s \<Longrightarrow> fst (remove s n) = (if vals s n = [] then 0 else 1)"
begin

lemma lookup_add:
  assumes "inv s"
  shows "lookup (add s n d) m i =
    (if m \<noteq> n then lookup s m i else if i = 0 then Some d else if 0 < i then lookup s n (i - 1) else None)"
proof (cases "m = n \<and> 0 < i")
  case True
  then have "nat i = Suc (nat (i - 1))" by linarith
  then show ?thesis using assms True by (auto simp: lookup_ok add_ok)
qed (use assms in \<open>auto simp: lookup_ok add_ok\<close>)

lemma remove_add: "inv s \<Longrightarrow> vals (snd (remove (add s n d) n)) = vals s \<and> fst (remove (add s n d) n) = 1"
  by (simp add: remove_ok add_ok)

end

section \<open>The hash table keeps the contract\<close>

definition sm_vals :: "strmap \<Rightarrow> string \<Rightarrow> byte list list" where
  "sm_vals st n = map snd (filter (\<lambda>e. fst e = n) (sm_entries st ! strmap_hash st n))"

definition sm_ok :: "strmap \<Rightarrow> bool" where
  "sm_ok st \<longleftrightarrow> 0 < sm_hsize st \<and> length (sm_entries st) = sm_hsize st \<and>
     (\<forall>h < sm_hsize st. \<forall>e\<in>set (sm_entries st ! h). strmap_hash st (fst e) = h) \<and>
     sm_size st = int (length (concat (sm_entries st)))"

lemma strmap_hash_less: "sm_ok st \<Longrightarrow> strmap_hash st n < sm_hsize st"
  by (simp add: sm_ok_def strmap_hash_def)

lemma strmap_hash_cong: "sm_hsize st' = sm_hsize st \<Longrightarrow> strmap_hash st' n = strmap_hash st n"
  by (simp add: strmap_hash_def)

lemma lookup_loop_spec:
  "lookup_loop n no i es =
    (let vs = map snd (filter (\<lambda>e. fst e = n) es)
     in if i \<le> no \<and> no < i + int (length vs) then Some (vs ! nat (no - i)) else None)"
proof (induction es arbitrary: i)
  case (Cons e es)
  show ?case
  proof (cases "fst e = n \<and> i < no")
    case True
    then have "nat (no - i) = Suc (nat (no - (i + 1)))" by linarith
    with True Cons show ?thesis by (auto simp: Let_def)
  qed (use Cons in \<open>auto simp: Let_def\<close>)
qed (simp add: Let_def)

lemma remove_loop_spec:
  "remove_loop n es =
    (if \<exists>e\<in>set es. fst e = n
     then Some (takeWhile (\<lambda>e. fst e \<noteq> n) es @ tl (dropWhile (\<lambda>e. fst e \<noteq> n) es)) else None)"
  by (induction es) auto

lemma remove_loop_filter:
  assumes "remove_loop n es = Some es'"
  shows "filter (\<lambda>e. fst e = n) es' = tl (filter (\<lambda>e. fst e = n) es)" "m \<noteq> n \<Longrightarrow> filter (\<lambda>e. fst e = m) es' = filter (\<lambda>e. fst e = m) es"
    "set es' \<subseteq> set es" "length es = Suc (length es')"
  using assms by (induction es arbitrary: es') (auto split: if_splits)

lemma remove_loop_None: "remove_loop n es = None \<longleftrightarrow> filter (\<lambda>e. fst e = n) es = []"
  by (induction es) auto

lemma length_concat_update:
  assumes "h < length xss" "int (length ys) = int (length (xss ! h)) + k"
  shows "int (length (concat (xss[h := ys]))) = int (length (concat xss)) + k"
  using assms
  by (induction xss arbitrary: h) (auto split: nat.splits)

lemma sm_ok_update:
  assumes "sm_ok st" "h < sm_hsize st" "\<forall>e\<in>set ys. strmap_hash st (fst e) = h"
    and "int (length ys) = int (length (sm_entries st ! h)) + k"
    and "sm_hsize st' = sm_hsize st" "sm_entries st' = (sm_entries st)[h := ys]" "sm_size st' = sm_size st + k"
  shows "sm_ok st'"
  using assms length_concat_update [of h "sm_entries st" ys k]
  by (auto simp: sm_ok_def strmap_hash_cong [OF assms(5)] nth_list_update)

lemma zebra_strmap_add_ok:
  assumes "sm_ok st"
  shows "sm_ok (zebra_strmap_add st n d)" "sm_vals (zebra_strmap_add st n d) = (sm_vals st)(n := d # sm_vals st n)"
proof -
  note h = strmap_hash_less [OF assms, of n]
  show "sm_ok (zebra_strmap_add st n d)"
    by (rule sm_ok_update [OF assms h, of "(n, d) # sm_entries st ! strmap_hash st n" 1])
      (use assms h in \<open>auto simp: zebra_strmap_add_def Let_def sm_ok_def\<close>)
  show "sm_vals (zebra_strmap_add st n d) = (sm_vals st)(n := d # sm_vals st n)"
    using assms h by (auto simp: sm_vals_def zebra_strmap_add_def Let_def strmap_hash_def nth_list_update sm_ok_def fun_eq_iff)
qed

lemma zebra_strmap_remove_ok:
  assumes "sm_ok st"
  shows "sm_ok (snd (zebra_strmap_remove st n))"
    "sm_vals (snd (zebra_strmap_remove st n)) = (sm_vals st)(n := tl (sm_vals st n))"
    "fst (zebra_strmap_remove st n) = (if sm_vals st n = [] then 0 else 1)"
proof -
  note h = strmap_hash_less [OF assms, of n]
  let ?es = "sm_entries st ! strmap_hash st n"
  have "sm_ok (snd (zebra_strmap_remove st n)) \<and>
      sm_vals (snd (zebra_strmap_remove st n)) = (sm_vals st)(n := tl (sm_vals st n)) \<and>
      fst (zebra_strmap_remove st n) = (if sm_vals st n = [] then 0 else 1)"
  proof (cases "remove_loop n ?es")
    case None
    then have "sm_vals st n = []" by (simp add: remove_loop_None sm_vals_def)
    then show ?thesis using None assms by (simp add: zebra_strmap_remove_def Let_def fun_upd_idem)
  next
    case (Some es)
    note r = remove_loop_filter [OF Some]
    let ?st = "st\<lparr>sm_entries := (sm_entries st)[strmap_hash st n := es], sm_free_entries := sm_free_entries st + 1,
                             sm_size := sm_size st - 1\<rparr>"
    have e: "zebra_strmap_remove st n = (1, ?st)" using Some by (simp add: zebra_strmap_remove_def Let_def)
    have "sm_vals st n \<noteq> []" using Some remove_loop_None [of n ?es] by (auto simp: sm_vals_def)
    moreover have "sm_ok ?st"
      by (rule sm_ok_update [OF assms h, of es "- 1"]) (use assms h r(3,4) in \<open>auto simp: sm_ok_def\<close>)
    moreover have "sm_vals ?st = (sm_vals st)(n := tl (sm_vals st n))"
      using assms h r(1,2) by (auto simp: sm_vals_def strmap_hash_def nth_list_update sm_ok_def fun_eq_iff map_tl)
    ultimately show ?thesis by (simp add: e)
  qed
  then show "sm_ok (snd (zebra_strmap_remove st n))"
    "sm_vals (snd (zebra_strmap_remove st n)) = (sm_vals st)(n := tl (sm_vals st n))"
    "fst (zebra_strmap_remove st n) = (if sm_vals st n = [] then 0 else 1)" by blast+
qed

interpretation sm: name_map sm_ok sm_vals zebra_strmap_create zebra_strmap_add zebra_strmap_lookup zebra_strmap_remove
proof unfold_locales
  show "sm_ok zebra_strmap_create" by (simp add: sm_ok_def zebra_strmap_create_def)
  fix n show "sm_vals zebra_strmap_create n = []"
    by (simp add: sm_vals_def zebra_strmap_create_def strmap_hash_def)
qed (auto simp: zebra_strmap_add_ok zebra_strmap_remove_ok zebra_strmap_lookup_def lookup_loop_spec sm_vals_def Let_def)

section \<open>Iteration\<close>

definition it_rest :: "strmap \<Rightarrow> strmap_it \<Rightarrow> (string \<times> byte list) list" where
  "it_rest st it = it_ent it @ concat (drop (it_hno it) (sm_entries st))"

lemma it_skip_rest: "sm_ok st \<Longrightarrow> it_rest st (it_skip st it) = it_rest st it"
proof (induction st it rule: it_skip.induct)
  case (1 st it)
  show ?case
  proof (cases "it_ent it = [] \<and> it_hno it < sm_hsize st")
    case True
    then have "it_hno it < length (sm_entries st)" using "1.prems" by (simp add: sm_ok_def)
    then have "it_rest st \<lparr>it_hno = it_hno it + 1, it_ent = sm_entries st ! it_hno it\<rparr> = it_rest st it"
      using True by (simp add: it_rest_def Cons_nth_drop_Suc [symmetric])
    then show ?thesis using 1 True by (subst it_skip.simps) simp
  next
    case False
    then show ?thesis by (subst it_skip.simps) auto
  qed
qed

lemma it_skip_stop: "it_ent (it_skip st it) = [] \<Longrightarrow> sm_hsize st \<le> it_hno (it_skip st it)"
proof (induction st it rule: it_skip.induct)
  case (1 st it)
  then show ?case by (subst (asm) (3) it_skip.simps, subst it_skip.simps) (auto split: if_splits)
qed

lemma it_next_rest:
  assumes "sm_ok st"
  shows "case it_rest st it of
      [] \<Rightarrow> fst (zebra_strmap_it_next st it) = None
    | e # es \<Rightarrow> fst (zebra_strmap_it_next st it) = Some e \<and> it_rest st (snd (zebra_strmap_it_next st it)) = es"
proof (cases "it_ent (it_skip st it)")
  case Nil
  then have "it_rest st (it_skip st it) = []" using it_skip_stop [of st it] assms by (simp add: it_rest_def sm_ok_def)
  then show ?thesis using it_skip_rest [OF assms, of it] Nil by (simp add: zebra_strmap_it_next_def Let_def)
next
  case (Cons e es)
  then have "it_rest st it = e # (es @ concat (drop (it_hno (it_skip st it)) (sm_entries st)))"
    using it_skip_rest [OF assms, of it] by (simp add: it_rest_def)
  then show ?thesis using Cons by (simp add: zebra_strmap_it_next_def Let_def it_rest_def)
qed

fun it_take :: "nat \<Rightarrow> strmap \<Rightarrow> strmap_it \<Rightarrow> (string \<times> byte list) list" where
  "it_take 0 st it = []"
| "it_take (Suc k) st it =
     (case zebra_strmap_it_next st it of (None, _) \<Rightarrow> [] | (Some e, it') \<Rightarrow> e # it_take k st it')"

lemma it_take_rest: "sm_ok st \<Longrightarrow> it_take k st it = take k (it_rest st it)"
proof (induction k arbitrary: it)
  case (Suc k)
  then show ?case using it_next_rest [OF Suc.prems, of it]
    by (cases "it_rest st it"; cases "zebra_strmap_it_next st it") auto
qed simp

section \<open>Properties\<close>

text \<open>C15: String maps are multimaps in stack order. After adding data under a name, entry 0 of the name is that
  data, entry \<open>i\<close> the former entry \<open>i - 1\<close>, and all other names look as before; removing takes the newest entry of the name
  away and says whether there was one; the size counts the entries. All of this holds whatever the
  hash values, collisions included.\<close>

theorem strmap_operations:
  assumes "sm_ok st"
  shows "sm_ok (zebra_strmap_add st n d) \<and> sm_ok (snd (zebra_strmap_remove st n)) \<and>
    (\<forall>m i. zebra_strmap_lookup (zebra_strmap_add st n d) m i =
       (if m \<noteq> n then zebra_strmap_lookup st m i else if i = 0 then Some d
        else if 0 < i then zebra_strmap_lookup st n (i - 1) else None)) \<and>
    (\<forall>m i. zebra_strmap_lookup (snd (zebra_strmap_remove st n)) m i =
       (if m \<noteq> n then zebra_strmap_lookup st m i else if 0 \<le> i then zebra_strmap_lookup st n (i + 1) else None)) \<and>
    (fst (zebra_strmap_remove st n) = 1 \<longleftrightarrow> zebra_strmap_lookup st n 0 \<noteq> None) \<and>
    zebra_strmap_get_size (zebra_strmap_add st n d) = zebra_strmap_get_size st + 1 \<and>
    zebra_strmap_get_size (snd (zebra_strmap_remove st n)) = zebra_strmap_get_size st - fst (zebra_strmap_remove st n)"
proof -
  have rm: "zebra_strmap_lookup (snd (zebra_strmap_remove st n)) m i =
       (if m \<noteq> n then zebra_strmap_lookup st m i else if 0 \<le> i then zebra_strmap_lookup st n (i + 1) else None)" for m i
  proof (cases "m = n \<and> 0 \<le> i")
    case True
    then have "nat (i + 1) = Suc (nat i)" by linarith
    then show ?thesis using assms True by (cases "sm_vals st n") (auto simp: sm.lookup_ok sm.remove_ok)
  next
    case False
    then show ?thesis using assms by (auto simp: sm.lookup_ok sm.remove_ok)
  qed
  have sz: "zebra_strmap_get_size (snd (zebra_strmap_remove st n)) = zebra_strmap_get_size st - fst (zebra_strmap_remove st n)"
    by (simp add: zebra_strmap_get_size_def zebra_strmap_remove_def Let_def split: option.splits)
  have "fst (zebra_strmap_remove st n) = 1 \<longleftrightarrow> zebra_strmap_lookup st n 0 \<noteq> None"
    using assms by (simp add: sm.lookup_ok sm.remove_ok)
  then show ?thesis
    using sm.add_ok [OF assms] sm.remove_ok [OF assms] sm.lookup_add [OF assms] rm sz
    by (simp add: zebra_strmap_get_size_def) (simp add: zebra_strmap_add_def Let_def)
qed

theorem strmap_operations_witness:
  "zebra_strmap_lookup (zebra_strmap_add (zebra_strmap_add zebra_strmap_create ''a'' [1]) ''a'' [2]) ''a'' 1 = Some [1]"
proof -
  have ok: "sm_ok zebra_strmap_create" by (rule sm.empty_ok)
  have "sm_ok (zebra_strmap_add zebra_strmap_create ''a'' [1])"
    "zebra_strmap_lookup (zebra_strmap_add zebra_strmap_create ''a'' [1]) ''a'' 0 = Some [1]"
    using strmap_operations [OF ok, of "''a''" "[1]"] by auto
  then show ?thesis using strmap_operations [of "zebra_strmap_add zebra_strmap_create ''a'' [1]" "''a''" "[2]"] by simp
qed

text \<open>C16: Iterating over a string map visits every entry exactly once, then reports the end: the first \<open>k\<close> calls
  deliver the first \<open>k\<close> entries of the table in chain order, and there are as many as the size says.\<close>

theorem strmap_iteration:
  assumes "sm_ok st"
  shows "it_take k st zebra_strmap_it_create = take k (concat (sm_entries st)) \<and>
    int (length (concat (sm_entries st))) = zebra_strmap_get_size st"
  using it_take_rest [OF assms, of k zebra_strmap_it_create] assms
  by (simp add: it_rest_def zebra_strmap_it_create_def zebra_strmap_get_size_def sm_ok_def)

theorem strmap_iteration_witness:
  "length (it_take 5 (zebra_strmap_add zebra_strmap_create ''a'' [1]) zebra_strmap_it_create) = 1"
proof -
  have ok: "sm_ok (zebra_strmap_add zebra_strmap_create ''a'' [1])" by (rule sm.add_ok [OF sm.empty_ok(1)])
  have "zebra_strmap_get_size (zebra_strmap_add zebra_strmap_create ''a'' [1]) = 1"
    by (simp add: zebra_strmap_get_size_def zebra_strmap_add_def zebra_strmap_create_def Let_def)
  then show ?thesis using strmap_iteration [OF ok, of 5] by simp
qed

end
