(* ===== verification/Limit.thy ===== *)
theory Limit
  imports It_Key
begin

text \<open>
  The limit filter of a search (\<^verbatim>\<open>index/limit.c\<close>): a set of ordinals that a key's second level must (or, with the
  complement flag, must not) belong to. The ordinals are an array of \<^verbatim>\<open>zint\<close> ended by zero; a list
  without a zero stands for reading on behind the array.
\<close>

record zebra_limit =
  zl_complement_flag :: bool
  zl_ids :: "zint list"

text \<open>The memory up to and with the first zero.\<close>

definition zebra_limit_create :: "bool \<Rightarrow> zint list option \<Rightarrow> zebra_limit option option" where
  "zebra_limit_create complement_flag ids =
     (case ids of
        None \<Rightarrow> Some None
      | Some a \<Rightarrow>
          if 0 \<in> set a
          then Some (Some \<lparr>zl_complement_flag = complement_flag, zl_ids = takeWhile (\<lambda>x. x \<noteq> 0) a @ [0]\<rparr>)
          else None)"

fun limit_scan :: "zint list \<Rightarrow> zint \<Rightarrow> bool option" where
  "limit_scan [] v = None"
| "limit_scan (x # xs) v = (if x = 0 then Some False else if x = v then Some True else limit_scan xs v)"

definition zebra_limit_filter_cb :: "zebra_limit \<Rightarrow> it_key \<Rightarrow> bool option" where
  "zebra_limit_filter_cb zl key =
     (if length (key_mem key) < 2 then None
      else map_option (\<lambda>match. match \<noteq> zl_complement_flag zl) (limit_scan (zl_ids zl) (key_mem key ! 1)))"

text \<open>The filter given to a result set: \<open>None\<close> when there is no limit. The result set owns a copy.\<close>

definition zebra_limit_for_rset :: "zebra_limit option \<Rightarrow> zebra_limit option option" where
  "zebra_limit_for_rset zl =
     (case zl of
        None \<Rightarrow> Some None
      | Some l \<Rightarrow> zebra_limit_create (zl_complement_flag l) (Some (zl_ids l)))"

lemma limit_scan_end: "0 \<in> set a \<Longrightarrow> limit_scan (takeWhile (\<lambda>x. x \<noteq> 0) a @ [0]) v = Some (v \<noteq> 0 \<and> v \<in> set (takeWhile (\<lambda>x. x \<noteq> 0) a))"
  by (induction a) auto

lemma takeWhile_nonzero_again: "takeWhile (\<lambda>x. x \<noteq> 0) (takeWhile (\<lambda>x. x \<noteq> 0) a @ [0]) = takeWhile (\<lambda>x. x \<noteq> (0 :: zint)) a"
  by (induction a) auto

text \<open>C20: A limit created from a zero-ended list of ordinals and installed on a result set lets a key through exactly
  when its second level is one of the ordinals, or, with the complement flag, when it is none of them.\<close>

theorem limit_filter_correct:
  assumes "0 \<in> set a" "2 \<le> length (key_mem key)" "key_mem key ! 1 \<noteq> 0"
  shows "\<exists>zl hl. zebra_limit_create c (Some a) = Some (Some zl) \<and> zebra_limit_for_rset (Some zl) = Some (Some hl) \<and>
    zebra_limit_filter_cb hl key = Some ((key_mem key ! 1 \<in> set (takeWhile (\<lambda>x. x \<noteq> 0) a)) \<noteq> c)"
  using assms
  by (simp add: zebra_limit_create_def zebra_limit_for_rset_def zebra_limit_filter_cb_def takeWhile_nonzero_again
      limit_scan_end)

theorem limit_filter_correct_witness:
  "\<exists>zl hl. zebra_limit_create True (Some [7, 9, 0, 3]) = Some (Some zl) \<and> zebra_limit_for_rset (Some zl) = Some (Some hl) \<and>
     zebra_limit_filter_cb hl \<lparr>key_len = 2, key_mem = [5, 3, 0, 0, 0]\<rparr> = Some True"
  using limit_filter_correct [of "[7, 9, 0, 3]" "\<lparr>key_len = 2, key_mem = [5, 3, 0, 0, 0]\<rparr>" True] by simp

end
