(* ===== verification/Spec2Isabelle.thy ===== *)
theory Spec2Isabelle
  imports Zint_Codec It_Key SU_Codec Rset_Theorems Mfile_Theorems Bfile_Theorems Dfa_Print Strmap Limit
begin

text \<open>
  A verification development for Zebra, a search engine for structured documents. Zebra keeps its inverted index in
  block files that can be updated in a shadow and committed, stores keys in them with codecs of variable length,
  evaluates queries by combining streams of keys (result sets), and matches patterns against its term
  dictionary with automata. The parts that carry this logic and are closed enough to be translated
  line by line are modelled; file and function names below are under \<^verbatim>\<open>src/\<close>.

  \<^bold>\<open>Conventions.\<close> C structures are records, enumerations and tagged unions datatypes, bytes and 64 bit integers words
  (\<open>byte\<close>, \<open>zint\<close>); a C \<^verbatim>\<open>int\<close> is an integer, with overflow written out where values can reach it. A definition
  has the name of its C function; a loop of a function is a definition of its own. A failing assertion, an access
  outside of an array and a call that does not return are \<open>None\<close>; error codes are values. Memory
  that is only allocated and freed is left out, except where its accounting is asserted (ordered list sets).
  Callbacks and operating system services are parameters or explicit state: a disk is a map from
  path names to byte lists with positioned reads and writes (\<open>File_Io\<close>).

  \<^bold>\<open>Keys.\<close> \<open>Zint_Codec\<close> (\<^verbatim>\<open>util/zint.c\<close>), \<open>SU_Codec\<close> (\<^verbatim>\<open>util/su_codec.c\<close>) and \<open>It_Key\<close> (\<^verbatim>\<open>util/it_key.c\<close>) model the codecs of integers,
  ordinals and difference coded keys, and the comparison of keys. Shown are round trips, sizes, the
  exact domains of the codecs of integers and ordinals, and that comparison is an order whose magnitude says how many leading levels
  differ: the contract \<open>key_cmp_order\<close> (\<open>Key_Order\<close>) the result sets rely on. \<open>Limit\<close> (\<^verbatim>\<open>index/limit.c\<close>) is the filter by document.

  \<^bold>\<open>Result sets.\<close> \<open>Rset_Base\<close> has the base class (\<^verbatim>\<open>rset/rset.c\<close>) and two contracts: \<open>rset_raw\<close>, what a kind of set promises, and
  \<open>rset_reader\<close>, what a client may rely on. \<open>Rset_Bool\<close>, \<open>Rset_Heap\<close> with \<open>Rset_Multi_Or\<close> and \<open>Rset_Multi_And\<close>, and \<open>Rset_Temp\<close> model the
  not set (\<^verbatim>\<open>rset/rsbool.c\<close>), the multi-way or and and sets (\<^verbatim>\<open>rset/rsmultiandor.c\<close>) and the temporary set
  (\<^verbatim>\<open>rset/rstemp.c\<close>); each is proved over any children that satisfy the reader contract and shown to satisfy it
  again, so that trees of sets are covered. \<open>Rset_Keys\<close> interprets the contracts on the server's keys
  (\<^verbatim>\<open>index/kcontrol.c\<close>, \<open>Memory_Image\<close> for the bytes of a key in a file), \<open>Rset_Hits\<close> counts hits (a key
  counts when it differs from the last one counted above level \<^verbatim>\<open>scope\<close>) and rounds them, and
  \<open>Rset_Theorems\<close> states the properties. Loops that read until a child is exhausted are partial functions; every property
  includes that the call returns, from the bound \<open>work\<close> on the keys a child can still deliver.

  \<^bold>\<open>Block files.\<close> \<open>Mfile\<close> (\<^verbatim>\<open>bfile/mfile.c\<close>) spreads a file over parts in directories with limits; \<open>Mfile_Flat\<close> relates it to one flat
  file and \<open>Mfile_Theorems\<close> has the properties. \<open>Cfile\<close> (\<^verbatim>\<open>bfile/cfile.c\<close>) is the shadow of such a file: a hash table of
  buckets with a cache, or a flat table once it has grown, from block numbers to shadow blocks. \<open>Cfile_Io\<close>,
  \<open>Cfile_Cache\<close>, \<open>Cfile_Hash\<close>, \<open>Cfile_New\<close>, \<open>Cfile_Flat\<close> and \<open>Cfile_Shadow\<close> prove, in this order, what reading and writing buckets, the cache, lookups, new
  entries, the conversion and whole blocks do in terms of an abstract map; \<open>Cfile_Open\<close> establishes the
  invariant. \<open>Commit\<close> (\<^verbatim>\<open>bfile/commit.c\<close>) and \<open>Bfile\<close> (\<^verbatim>\<open>bfile/bfile.c\<close>) are on top; \<open>Commit_Shadow\<close> and \<open>Bfile_Theorems\<close>
  show that a client sees one array of blocks, that writing leaves the original alone and that a commit makes the
  original what was seen.

  \<^bold>\<open>Automata.\<close> \<open>Dfa_Sets\<close> has the two representations of sets (\<^verbatim>\<open>dfa/set.c\<close>, \<^verbatim>\<open>dfa/bset.c\<close>) with their contract \<open>member_set\<close>.
  \<open>Dfa_Parse\<close> (first part of \<^verbatim>\<open>dfa/dfa.c\<close>) is the parser of regular expressions, \<open>Dfa_States\<close> (\<^verbatim>\<open>dfa/states.c\<close>) the table of states and
  \<open>Dfa_Build\<close> (second part of \<^verbatim>\<open>dfa/dfa.c\<close>) the construction. \<open>Dfa_Lang\<close> is the reference, the language of a tree and its
  positions; \<open>Dfa_Trav\<close> and \<open>Dfa_Chunk\<close> relate the traversal and the chunks of characters to it, \<open>Dfa_Table\<close>,
  \<open>Dfa_Tran\<close> and \<open>Dfa_Run\<close> prove the table of states, the loop of the subset construction and what the finished automaton
  accepts. On the side of the parser \<open>Dfa_Lex\<close> and \<open>Dfa_Parser\<close> show that scanner and recursive descent are total and build trees with
  different positions, and \<open>Dfa_Cmap\<close> that the table of operators is a map. \<open>Dfa_Theorems\<close> has the properties of the interface,
  with \<open>client_dfa\<close>, the states a client can reach, before and after the states of the automaton are built. \<open>Dfa_Print\<close> composes the component: it defines expressions (\<open>rx\<close>), their
  language and their spelling, and shows that spelled patterns are parsed to trees of the same language and
  compiled to an automaton that returns the first expression a text belongs to.

  \<^bold>\<open>Tables.\<close> \<open>Strmap\<close> (\<^verbatim>\<open>util/strmap.c\<close>) is a hash table from names to values, proved against the contract \<open>name_map\<close>.

  \<^bold>\<open>Bounds.\<close> The recursive descent has fuel \<open>parse_fuel\<close>, four units for each character of a pattern and eight more; \<open>expr_total\<close> shows that
  it never runs out, so that \<open>None\<close> is not a result of parsing. The subset construction is a partial function, shown
  to end because every step marks a state. Automata have less than 16000 positions, where the
  codes of inner nodes begin, and at most 32768 states, the range of their \<^verbatim>\<open>short\<close> numbers, and the character map is total and yields 7 bit characters (\<open>cmap_ok\<close>); larger
  characters fail the assertion of \<^verbatim>\<open>add_BSet\<close>. Positions of bit vectors are converted to \<^verbatim>\<open>int\<close> as in the code (\<open>bset_left\<close>).

  Byte positions in files are 64 bit in the code. The model computes them without a bound (\<open>file_position\<close>, and \<open>flat_slot\<close> with
  \<open>cf_lookup_flat\<close> and \<open>cf_write_flat\<close>), and the properties say within which bounds this is the same: reading and writing
  metafiles (\<open>mf_write_flat_file\<close>, \<open>mf_read_flat_file\<close>, \<open>mf_write_read\<close>) has \<open>mf_fits\<close>, the block and the files end below \<^verbatim>\<open>2^63\<close>; \<open>file_position_exact\<close>
  shows that the 64 bit product is then the one of the model. Reading through a shadow and moving its table (\<open>bf_read_view\<close>,
  \<open>moveto_flat_equivalent\<close>) have \<open>cf_fits\<close>, which adds block numbers below \<^verbatim>\<open>2^58\<close> and a flat table that ends below \<^verbatim>\<open>2^63\<close>, with
  \<open>flat_slot_exact\<close>; writing through a shadow (\<open>bf_write_view\<close>, \<open>cf_write_stale_bytes\<close>) has \<open>room_ok\<close>, block and bucket numbers below \<^verbatim>\<open>2^58\<close>, and
  leaving a part (\<open>mf_write_capping_overwrites\<close>) bounds the block written. The commit (\<open>commit_makes_view_original\<close>), opening
  (\<open>cf_open_new\<close>) and the failing read (\<open>mf_read_error_keeps_lock\<close>) have no such hypothesis; they are to be read for areas whose positions fit 64 bit.
  Device errors are modelled where the code
  has a branch for them that keeps state (\<^verbatim>\<open>mf_read\<close>), not for every system call.

  \<^bold>\<open>Not modelled.\<close> Printing, logging and freeing. The B-trees of ISAM and dictionary (\<^verbatim>\<open>isamb/\<close>, \<^verbatim>\<open>dict/\<close>, and the older \<^verbatim>\<open>isamc/\<close>,
  \<^verbatim>\<open>isams/\<close>) are components of the size of all of the above and were left out, as were proximity and between sets (\<^verbatim>\<open>rset/rsprox.c\<close>,
  \<^verbatim>\<open>rset/rsbetween.c\<close>). The server (\<^verbatim>\<open>index/\<close>), the record filters and \<^verbatim>\<open>data1/\<close> rest on the YAZ toolkit, libxml2 and
  Tcl, which are not part of the repository. Descriptor lists, reference counts and memory pools of the result sets, progress estimates
  (\<^verbatim>\<open>r_pos\<close> except for the temporary set) and code that is compiled out are not modelled. Threads are modelled as
  far as the mutex of a file goes: an operation on a locked file does not return.
\<close>

end
